(* ===== verification/Prelude.thy ===== *)
theory Prelude
  imports Main "HOL-Library.Word"
begin

text \<open>
  Shared vocabulary of the development: the ways in which a call of libsaf can go wrong,
  the result type that carries them, the arithmetic of \<open>size_t\<close> written out on natural
  numbers, the vector and copy operations of the C++ standard library that the sources use,
  and the lemma collections the component theories add to.
\<close>

unbundle bit_operations_syntax

named_theorems res_simps \<open>equations that run the result type\<close>
named_theorems inv_intros \<open>preservation lemmas of the component invariants\<close>

section \<open>Faults and results\<close>

text \<open>
  The default build of libsaf is a debug build (\<open>CMakeLists.txt\<close> sets it), so a failed
  \<open>assert\<close> stops the process. \<open>LengthError\<close> is the exception of
  \<open>std::vector::resize\<close>. \<open>OutOfBounds\<close>, \<open>NullDeref\<close>, \<open>UseAfterFree\<close> and \<open>BadCast\<close> stand for the
  undefined behaviour of an access the C++ object model does not allow, \<open>FatalAbort\<close> for
  \<open>LOG_FATAL\<close>, whose last action is \<open>abort\<close>.
\<close>

datatype fault = AssertFail | LengthError | OutOfBounds | NullDeref | UseAfterFree | BadCast | FatalAbort

type_synonym 'a res = "fault + 'a"

abbreviation Ok :: "'a \<Rightarrow> fault + 'a" where
  "Ok \<equiv> Inr"

abbreviation Fail :: "fault \<Rightarrow> fault + 'a" where
  "Fail \<equiv> Inl"

definition bindR :: "'a res \<Rightarrow> ('a \<Rightarrow> 'b res) \<Rightarrow> 'b res" where
  "bindR m k = (case m of Inl e \<Rightarrow> Inl e | Inr x \<Rightarrow> k x)"

definition assertR :: "bool \<Rightarrow> 'a res \<Rightarrow> 'a res" where
  "assertR P k = (if P then k else Fail AssertFail)"

lemma bindR_Ok [simp, res_simps]: "bindR (Ok x) k = k x"
  by (simp add: bindR_def)

lemma bindR_Fail [simp, res_simps]: "bindR (Fail e) k = Fail e"
  by (simp add: bindR_def)

lemma bindR_eq_Ok: "bindR m k = Ok y \<longleftrightarrow> (\<exists>x. m = Ok x \<and> k x = Ok y)"
  by (cases m) (auto simp: bindR_def)

lemma bindR_OkE [elim!]:
  assumes "bindR m k = Ok y"
  obtains x where "m = Ok x" and "k x = Ok y"
  using assms by (auto simp: bindR_eq_Ok)

lemma assertR_True [simp, res_simps]: "assertR True k = k"
  by (simp add: assertR_def)

lemma assertR_False [simp, res_simps]: "assertR False k = Fail AssertFail"
  by (simp add: assertR_def)

lemma assertR_eq_Ok: "assertR P k = Ok y \<longleftrightarrow> P \<and> k = Ok y"
  by (simp add: assertR_def)

text \<open>
  The answer of a system call: an error number, or what it delivers. System calls are
  parameters of the definitions that make them.
\<close>

datatype 'a sys = SysErr nat | SysOk 'a

section \<open>Arithmetic on \<open>size_t\<close>\<close>

text \<open>
  \<open>size_t\<close> has 64 bits on the targets of the build. Sums and differences wrap around; the
  lemmas below say when they are the ordinary ones. \<open>max_size\<close> is the largest size of a
  \<open>std::vector<char>\<close> (\<open>PTRDIFF_MAX\<close>).
\<close>

definition size_add :: "nat \<Rightarrow> nat \<Rightarrow> nat" where
  "size_add a b = (a + b) mod 2 ^ 64"

definition size_sub :: "nat \<Rightarrow> nat \<Rightarrow> nat" where
  "size_sub a b = (if b \<le> a then a - b else a + 2 ^ 64 - b)"

definition max_size :: nat where
  "max_size = 2 ^ 63 - 1"

lemma size_add_exact: "a + b < 2 ^ 64 \<Longrightarrow> size_add a b = a + b"
  by (simp add: size_add_def)

lemma size_sub_exact [simp]: "b \<le> a \<Longrightarrow> size_sub a b = a - b"
  by (simp add: size_sub_def)

lemma size_add_small [simp]: "a \<le> max_size \<Longrightarrow> b \<le> max_size \<Longrightarrow> size_add a b = a + b"
  by (rule size_add_exact) (simp add: max_size_def)

section \<open>Vectors and block copies\<close>

type_synonym byte = "8 word"

text \<open>\<open>std::vector<char>::resize\<close>: cut off or extended by zero bytes.\<close>

definition vec_resize :: "nat \<Rightarrow> 'a::zero list \<Rightarrow> 'a list res" where
  "vec_resize n v =
     (if n \<le> max_size then Ok (take n v @ replicate (n - length v) 0) else Fail LengthError)"

lemma vec_resize_grow:
  assumes "length v \<le> n" and "n \<le> max_size"
  shows "vec_resize n v = Ok (v @ replicate (n - length v) 0)"
  using assms by (simp add: vec_resize_def)

text \<open>
  \<open>std::copy\<close> from outside into a vector: \<open>overwrite i ys xs\<close> stores \<open>ys\<close> at index \<open>i\<close>.
\<close>

definition overwrite :: "nat \<Rightarrow> 'a list \<Rightarrow> 'a list \<Rightarrow> 'a list" where
  "overwrite i ys xs = take i xs @ ys @ drop (i + length ys) xs"

definition copy_in :: "nat \<Rightarrow> 'a list \<Rightarrow> 'a list \<Rightarrow> 'a list res" where
  "copy_in i ys xs =
     (if i + length ys \<le> length xs then Ok (overwrite i ys xs) else Fail OutOfBounds)"

lemma length_overwrite [simp]:
  "i + length ys \<le> length xs \<Longrightarrow> length (overwrite i ys xs) = length xs"
  by (simp add: overwrite_def)

lemma copy_in_fits [simp]: "i + length ys \<le> length xs \<Longrightarrow> copy_in i ys xs = Ok (overwrite i ys xs)"
  by (simp add: copy_in_def)

text \<open>
  \<open>std::copy\<close> inside one vector, element by element from the front, as the library
  specifies it: a later read sees what an earlier step has written. The range and the
  destination lie inside the vector, or the call is undefined.
\<close>

fun copy_fwd :: "'a list \<Rightarrow> nat \<Rightarrow> nat \<Rightarrow> nat \<Rightarrow> 'a list" where
  "copy_fwd v src 0 dst = v"
| "copy_fwd v src (Suc n) dst = copy_fwd (v[dst := v ! src]) (Suc src) n (Suc dst)"

definition copy_within :: "'a list \<Rightarrow> nat \<Rightarrow> nat \<Rightarrow> nat \<Rightarrow> 'a list res" where
  "copy_within v src n dst =
     (if src + n \<le> length v \<and> dst + n \<le> length v then Ok (copy_fwd v src n dst)
      else Fail OutOfBounds)"

lemma length_copy_fwd [simp]: "length (copy_fwd v src n dst) = length v"
  by (induction v src n dst rule: copy_fwd.induct) auto

text \<open>
  Element by element from the front is a block move when the destination does not lie
  behind the source.
\<close>

lemma nth_copy_fwd:
  assumes "dst \<le> src" and "src + n \<le> length v" and "i < length v"
  shows "copy_fwd v src n dst ! i =
    (if dst \<le> i \<and> i < dst + n then v ! (src + (i - dst)) else v ! i)"
  using assms
proof (induction v src n dst rule: copy_fwd.induct)
  case (1 v src dst)
  then show ?case by auto
next
  case (2 v src n dst)
  then have "copy_fwd (v[dst := v ! src]) (Suc src) n (Suc dst) ! i =
    (if Suc dst \<le> i \<and> i < Suc dst + n then v[dst := v ! src] ! (Suc src + (i - Suc dst))
     else v[dst := v ! src] ! i)"
    by simp
  with 2 show ?case
    by (auto simp: nth_list_update Suc_diff_Suc not_less_eq_eq le_Suc_eq)
qed

lemma copy_fwd_block:
  assumes "dst \<le> src" and "src + n \<le> length v"
  shows "copy_fwd v src n dst = overwrite dst (take n (drop src v)) v"
proof (rule nth_equalityI)
  show "length (copy_fwd v src n dst) = length (overwrite dst (take n (drop src v)) v)"
    using assms by simp
  fix i
  assume "i < length (copy_fwd v src n dst)"
  then have i: "i < length v" by simp
  with assms have "overwrite dst (take n (drop src v)) v ! i =
    (if dst \<le> i \<and> i < dst + n then v ! (src + (i - dst)) else v ! i)"
    by (auto simp: overwrite_def nth_append min_def)
  with nth_copy_fwd [OF assms i] show "copy_fwd v src n dst ! i = overwrite dst (take n (drop src v)) v ! i"
    by simp
qed

end
