(* ===== verification/NetBytes.thy ===== *)
theory NetBytes
  imports Prelude
begin

text \<open>
  Byte order: \<open>net/NetUtils.h\<close> and the memory layout of the integers that
  \<open>net/Buffer.h\<close> copies. The build targets little-endian hosts (x86-64), so an integer lies
  in memory least significant byte first, and \<open>htobe*\<close> and \<open>be*toh\<close> of \<open>endian.h\<close>
  reverse its bytes.
\<close>

section \<open>Integers in memory\<close>

text \<open>The bytes of an integer object as \<open>memcpy\<close> sees them, and the integer they give back.\<close>

definition mem_bytes :: "'a::len word \<Rightarrow> byte list" where
  "mem_bytes w = map (\<lambda>i. ucast (drop_bit (8 * i) w)) [0..<LENGTH('a) div 8]"

primrec of_mem :: "byte list \<Rightarrow> 'a::len word" where
  "of_mem [] = 0"
| "of_mem (b # bs) = ucast b OR push_bit 8 (of_mem bs)"

definition bswap :: "'a::len word \<Rightarrow> 'a word" where
  "bswap w = of_mem (rev (mem_bytes w))"

lemma length_mem_bytes [simp]: "length (mem_bytes (w :: 'a::len word)) = LENGTH('a) div 8"
  by (simp add: mem_bytes_def)

lemma bit_of_mem:
  "bit (of_mem bs :: 'a::len word) n \<longleftrightarrow>
     n < LENGTH('a) \<and> n < 8 * length bs \<and> bit (bs ! (n div 8)) (n mod 8)"
proof (induction bs arbitrary: n)
  case Nil
  then show ?case by simp
next
  case (Cons b bs)
  show ?case
  proof (cases "n < 8")
    case True
    then show ?thesis by (auto simp: bit_or_iff bit_push_bit_iff bit_ucast_iff)
  next
    case False
    then have "n div 8 = Suc ((n - 8) div 8)" and "n mod 8 = (n - 8) mod 8"
      by (simp_all add: le_div_geq le_mod_geq)
    moreover have "\<not> bit b n"
      using False bit_imp_le_length [of b n] by auto
    ultimately show ?thesis
      using False Cons.IH [of "n - 8"] by (auto simp: bit_or_iff bit_push_bit_iff bit_ucast_iff)
  qed
qed

lemma bit_nth_mem_bytes:
  assumes "i < LENGTH('a) div 8" and "j < 8"
  shows "bit (mem_bytes (w :: 'a::len word) ! i) j = bit w (8 * i + j)"
  using assms by (simp add: mem_bytes_def bit_ucast_iff bit_drop_bit_eq)

lemma of_mem_mem_bytes [simp]:
  assumes "8 dvd LENGTH('a)"
  shows "of_mem (mem_bytes (w :: 'a::len word)) = w"
proof (rule bit_word_eqI)
  fix n
  assume n: "n < LENGTH('a)"
  with assms have "n div 8 < LENGTH('a) div 8" by (simp add: div_less_iff_less_mult dvd_div_mult_self)
  with assms n show "bit (of_mem (mem_bytes w) :: 'a word) n = bit w n"
    by (simp add: bit_of_mem bit_nth_mem_bytes)
qed

lemma mem_bytes_of_mem [simp]:
  assumes "8 * length bs = LENGTH('a)"
  shows "mem_bytes (of_mem bs :: 'a::len word) = bs"
proof (rule nth_equalityI)
  show len: "length (mem_bytes (of_mem bs :: 'a word)) = length bs"
    using assms [symmetric] by simp
  fix i
  assume "i < length (mem_bytes (of_mem bs :: 'a word))"
  with len have i: "i < length bs" by simp
  show "mem_bytes (of_mem bs :: 'a word) ! i = bs ! i"
  proof (rule bit_word_eqI)
    fix j
    assume "j < LENGTH(8)"
    then have j: "j < 8" by simp
    with i assms [symmetric] show "bit (mem_bytes (of_mem bs :: 'a word) ! i) j = bit (bs ! i) j"
      by (simp add: bit_nth_mem_bytes bit_of_mem)
  qed
qed

lemma mem_bytes_bswap:
  assumes "8 dvd LENGTH('a)"
  shows "mem_bytes (bswap (w :: 'a::len word)) = rev (mem_bytes w)"
  using assms by (simp add: bswap_def)

lemma bswap_bswap [simp]:
  assumes "8 dvd LENGTH('a)"
  shows "bswap (bswap (w :: 'a::len word)) = w"
  using assms by (subst bswap_def) (simp add: mem_bytes_bswap)

lemma bswap_of_mem:
  assumes "8 * length bs = LENGTH('a)"
  shows "bswap (of_mem bs :: 'a::len word) = of_mem (rev bs)"
  using assms by (simp add: bswap_def)

section \<open>\<open>net/NetUtils.h\<close>\<close>

definition hostToNetwork64 :: "64 word \<Rightarrow> 64 word" where
  "hostToNetwork64 host64 = bswap host64"

definition hostToNetwork32 :: "32 word \<Rightarrow> 32 word" where
  "hostToNetwork32 host32 = bswap host32"

definition hostToNetwork16 :: "16 word \<Rightarrow> 16 word" where
  "hostToNetwork16 host16 = bswap host16"

definition networkToHost64 :: "64 word \<Rightarrow> 64 word" where
  "networkToHost64 net64 = bswap net64"

definition networkToHost32 :: "32 word \<Rightarrow> 32 word" where
  "networkToHost32 net32 = bswap net32"

definition networkToHost16 :: "16 word \<Rightarrow> 16 word" where
  "networkToHost16 net16 = bswap net16"

lemmas net_defs =
  hostToNetwork64_def hostToNetwork32_def hostToNetwork16_def
  networkToHost64_def networkToHost32_def networkToHost16_def

text \<open>Network order is most significant byte first, whatever the value.\<close>

definition be_bytes :: "'a::len word \<Rightarrow> byte list" where
  "be_bytes w = rev (mem_bytes w)"

lemma length_be_bytes [simp]: "length (be_bytes (w :: 'a::len word)) = LENGTH('a) div 8"
  by (simp add: be_bytes_def)

lemma mem_bytes_hton [simp]:
  "mem_bytes (hostToNetwork64 x) = be_bytes x"
  "mem_bytes (hostToNetwork32 y) = be_bytes y"
  "mem_bytes (hostToNetwork16 z) = be_bytes z"
  by (simp_all add: net_defs be_bytes_def mem_bytes_bswap)

lemma ntoh_of_mem_be [simp]:
  "networkToHost64 (of_mem (be_bytes x)) = x"
  "networkToHost32 (of_mem (be_bytes y)) = y"
  "networkToHost16 (of_mem (be_bytes z)) = z"
  by (simp_all add: net_defs be_bytes_def bswap_of_mem)

end
