(* ===== verification/ByteQueue.thy ===== *)
theory ByteQueue
  imports Prelude
begin

text \<open>
  The contract between a connection and its buffers: a first-in first-out queue of bytes.
  The connection code relies on nothing else of \<open>net/Buffer.h\<close>: bytes come out in the
  order in which they went in, none lost and none twice, a retrieval of more than there is
  fails its assertion, and appending succeeds while the load stays under the largest vector.
  The model of \<open>Buffer\<close> interprets the locale in theory \<open>NetBuffer\<close>.
\<close>

datatype queue_op = Push "byte list" | Pop nat

primrec run_queue ::
  "(byte list \<Rightarrow> 'q \<Rightarrow> 'q res) \<Rightarrow> (nat \<Rightarrow> 'q \<Rightarrow> (byte list \<times> 'q) res) \<Rightarrow>
    queue_op list \<Rightarrow> 'q \<Rightarrow> (byte list \<times> 'q) res" where
  "run_queue push pop [] q = Ok ([], q)"
| "run_queue push pop (x # ops) q =
     (case x of
        Push xs \<Rightarrow> bindR (push xs q) (run_queue push pop ops)
      | Pop n \<Rightarrow> bindR (pop n q) (\<lambda>(ys, q1).
          bindR (run_queue push pop ops q1) (\<lambda>(zs, q2). Ok (ys @ zs, q2))))"

text \<open>What an operation sequence puts in, and whether each retrieval asks for what is there.\<close>

primrec pushed :: "queue_op list \<Rightarrow> byte list" where
  "pushed [] = []"
| "pushed (x # ops) = (case x of Push xs \<Rightarrow> xs @ pushed ops | Pop n \<Rightarrow> pushed ops)"

primrec legal :: "nat \<Rightarrow> queue_op list \<Rightarrow> bool" where
  "legal n [] \<longleftrightarrow> True"
| "legal n (x # ops) \<longleftrightarrow>
     (case x of Push xs \<Rightarrow> legal (n + length xs) ops | Pop k \<Rightarrow> k \<le> n \<and> legal (n - k) ops)"

locale byte_queue =
  fixes inv :: "'q \<Rightarrow> bool"
    and bytes :: "'q \<Rightarrow> byte list"
    and load :: "'q \<Rightarrow> nat"
    and push :: "byte list \<Rightarrow> 'q \<Rightarrow> 'q res"
    and pop :: "nat \<Rightarrow> 'q \<Rightarrow> (byte list \<times> 'q) res"
  assumes push_Ok: "inv q \<Longrightarrow> load q + length xs \<le> max_size \<Longrightarrow>
      \<exists>q'. push xs q = Ok q' \<and> inv q' \<and> bytes q' = bytes q @ xs \<and> load q' \<le> load q + length xs"
    and pop_Ok: "inv q \<Longrightarrow> n \<le> length (bytes q) \<Longrightarrow>
      \<exists>q'. pop n q = Ok (take n (bytes q), q') \<and> inv q' \<and> bytes q' = drop n (bytes q)
         \<and> load q' \<le> load q"
    and pop_short: "inv q \<Longrightarrow> length (bytes q) < n \<Longrightarrow> pop n q = Fail AssertFail"
begin

lemma run_total:
  assumes "inv q" and "legal (length (bytes q)) ops" and "load q + length (pushed ops) \<le> max_size"
  shows "\<exists>out q'. run_queue push pop ops q = Ok (out, q') \<and> inv q'
      \<and> out @ bytes q' = bytes q @ pushed ops"
  using assms
proof (induction ops arbitrary: q)
  case Nil
  then show ?case by simp
next
  case (Cons x ops)
  show ?case
  proof (cases x)
    case (Push xs)
    with Cons.prems have "load q + length xs \<le> max_size" by simp
    with Cons.prems(1) obtain q1 where q1: "push xs q = Ok q1" "inv q1" "bytes q1 = bytes q @ xs"
      "load q1 \<le> load q + length xs" using push_Ok by blast
    with Push Cons.prems have "legal (length (bytes q1)) ops" "load q1 + length (pushed ops) \<le> max_size"
      by simp_all
    from Cons.IH [OF q1(2) this] q1 Push show ?thesis by auto
  next
    case (Pop n)
    with Cons.prems have n: "n \<le> length (bytes q)" by simp
    with Cons.prems(1) obtain q1 where q1: "pop n q = Ok (take n (bytes q), q1)" "inv q1"
      "bytes q1 = drop n (bytes q)" "load q1 \<le> load q" using pop_Ok by blast
    with Pop Cons.prems have "legal (length (bytes q1)) ops" "load q1 + length (pushed ops) \<le> max_size"
      by simp_all
    from Cons.IH [OF q1(2) this] obtain out q' where "run_queue push pop ops q1 = Ok (out, q')"
      "inv q'" "out @ bytes q' = drop n (bytes q) @ pushed ops" using q1(3) by auto
    with Pop q1(1) n show ?thesis by simp
  qed
qed

lemma run_overdraw:
  assumes "inv q" and "load q + length xs \<le> max_size" and "length (bytes q) + length xs < n"
  shows "run_queue push pop (Push xs # Pop n # ops) q = Fail AssertFail"
proof -
  obtain q1 where "push xs q = Ok q1" "inv q1" "bytes q1 = bytes q @ xs"
    using push_Ok [OF assms(1,2)] by blast
  with assms(3) show ?thesis by (simp add: pop_short)
qed

end

end
