(* ===== verification/NetBuffer.thy ===== *)
theory NetBuffer
  imports NetBytes ByteQueue
begin

text \<open>
  The byte buffer of \<open>net/Buffer.h\<close> and \<open>net/Buffer.cpp\<close>: a vector and two indices with
  the readable bytes between them, and the string views of \<open>net/NetString.h\<close>. The abstract
  value of a buffer is the list of its readable bytes; the operations are shown to be those
  of a first-in first-out byte queue, whose contract is the locale \<open>byte_queue\<close>.
\<close>

section \<open>State\<close>

record buffer =
  vec :: "byte list"
  readerIndex :: nat
  writerIndex :: nat

definition kCheapPrepend :: nat where
  "kCheapPrepend = 0"

definition kInitialSize :: nat where
  "kInitialSize = 1024"

definition gExtraBufferLen :: nat where
  "gExtraBufferLen = 65536"

definition readableBytes :: "buffer \<Rightarrow> nat" where
  "readableBytes b = size_sub (writerIndex b) (readerIndex b)"

definition writableBytes :: "buffer \<Rightarrow> nat" where
  "writableBytes b = size_sub (length (vec b)) (writerIndex b)"

definition prependableBytes :: "buffer \<Rightarrow> nat" where
  "prependableBytes b = readerIndex b"

definition newBuffer :: "nat \<Rightarrow> buffer res" where
  "newBuffer initialSize =
     bindR (vec_resize (size_add kCheapPrepend initialSize) []) (\<lambda>v.
       let b = \<lparr>vec = v, readerIndex = kCheapPrepend, writerIndex = kCheapPrepend\<rparr>
       in assertR (readableBytes b = 0)
            (assertR (writableBytes b = initialSize)
              (assertR (prependableBytes b = kCheapPrepend) (Ok b))))"

text \<open>The bytes at \<open>peek()\<close>; reading past the vector is undefined.\<close>

definition peekBytes :: "nat \<Rightarrow> buffer \<Rightarrow> byte list res" where
  "peekBytes len b =
     (if readerIndex b + len \<le> length (vec b) then Ok (take len (drop (readerIndex b) (vec b)))
      else Fail OutOfBounds)"

section \<open>Taking bytes out\<close>

definition retrieveAll :: "buffer \<Rightarrow> buffer" where
  "retrieveAll b = b\<lparr>readerIndex := kCheapPrepend, writerIndex := kCheapPrepend\<rparr>"

definition retrieve :: "nat \<Rightarrow> buffer \<Rightarrow> buffer res" where
  "retrieve len b =
     assertR (len \<le> readableBytes b)
       (if len < readableBytes b then Ok (b\<lparr>readerIndex := readerIndex b + len\<rparr>)
        else Ok (retrieveAll b))"

definition retrieveAsString :: "nat \<Rightarrow> buffer \<Rightarrow> (byte list \<times> buffer) res" where
  "retrieveAsString len b =
     assertR (len \<le> readableBytes b)
       (bindR (peekBytes len b) (\<lambda>result. bindR (retrieve len b) (\<lambda>b'. Ok (result, b'))))"

definition retrieveAllAsString :: "buffer \<Rightarrow> (byte list \<times> buffer) res" where
  "retrieveAllAsString b = retrieveAsString (readableBytes b) b"

definition asString :: "buffer \<Rightarrow> byte list res" where
  "asString b = peekBytes (readableBytes b) b"

text \<open>
  A \<open>NetString\<close> is a pointer and a length. The pointers the buffer hands out point into its
  vector, so a view is an offset into the vector and a length, and what it reads depends on
  the vector at the time of reading.
\<close>

record netstring =
  ns_data :: nat
  ns_length :: nat

definition ns_toString :: "byte list \<Rightarrow> netstring \<Rightarrow> byte list res" where
  "ns_toString v s =
     (if ns_data s + ns_length s \<le> length v then Ok (take (ns_length s) (drop (ns_data s) v))
      else Fail OutOfBounds)"

definition asNetString :: "buffer \<Rightarrow> netstring" where
  "asNetString b = \<lparr>ns_data = readerIndex b, ns_length = readableBytes b\<rparr>"

definition retrieveAllAsNetString :: "buffer \<Rightarrow> netstring \<times> buffer" where
  "retrieveAllAsNetString b =
     (let str = \<lparr>ns_data = readerIndex b, ns_length = readableBytes b\<rparr> in (str, retrieveAll b))"

definition retrieveAsNetString :: "nat \<Rightarrow> buffer \<Rightarrow> (netstring \<times> buffer) res" where
  "retrieveAsNetString len b =
     assertR (len \<le> readableBytes b)
       (let result = \<lparr>ns_data = readerIndex b, ns_length = len\<rparr>
        in bindR (retrieve len b) (\<lambda>b'. Ok (result, b')))"

section \<open>Putting bytes in\<close>

definition makeSpace :: "nat \<Rightarrow> buffer \<Rightarrow> buffer res" where
  "makeSpace len b =
     (if size_add (writableBytes b) (prependableBytes b) < size_add len kCheapPrepend then
        bindR (vec_resize (size_add (writerIndex b) len) (vec b)) (\<lambda>v. Ok (b\<lparr>vec := v\<rparr>))
      else
        assertR (kCheapPrepend < readerIndex b)
          (let readable = readableBytes b
           in bindR (copy_within (vec b) (readerIndex b)
                 (size_sub (writerIndex b) (readerIndex b)) kCheapPrepend) (\<lambda>v.
                let b' = b\<lparr>vec := v, readerIndex := kCheapPrepend,
                           writerIndex := kCheapPrepend + readable\<rparr>
                in assertR (readable = readableBytes b') (Ok b'))))"

definition ensureWritableBytes :: "nat \<Rightarrow> buffer \<Rightarrow> buffer res" where
  "ensureWritableBytes len b =
     bindR (if writableBytes b < len then makeSpace len b else Ok b) (\<lambda>b'.
       assertR (len \<le> writableBytes b') (Ok b'))"

definition append_bytes :: "byte list \<Rightarrow> buffer \<Rightarrow> buffer res" where
  "append_bytes data b =
     bindR (ensureWritableBytes (length data) b) (\<lambda>b1.
       bindR (copy_in (writerIndex b1) data (vec b1)) (\<lambda>v.
         Ok (b1\<lparr>vec := v, writerIndex := writerIndex b1 + length data\<rparr>)))"

section \<open>Integers\<close>

definition appendInt64 :: "64 word \<Rightarrow> buffer \<Rightarrow> buffer res" where
  "appendInt64 x b = (let be64 = hostToNetwork64 x in append_bytes (mem_bytes be64) b)"

definition appendInt32 :: "32 word \<Rightarrow> buffer \<Rightarrow> buffer res" where
  "appendInt32 x b = (let be32 = hostToNetwork32 x in append_bytes (mem_bytes be32) b)"

definition appendInt16 :: "16 word \<Rightarrow> buffer \<Rightarrow> buffer res" where
  "appendInt16 x b = (let be16 = hostToNetwork16 x in append_bytes (mem_bytes be16) b)"

definition appendInt8 :: "8 word \<Rightarrow> buffer \<Rightarrow> buffer res" where
  "appendInt8 x b = append_bytes (mem_bytes x) b"

definition peekInt64 :: "buffer \<Rightarrow> 64 word res" where
  "peekInt64 b = assertR (8 \<le> readableBytes b)
     (bindR (peekBytes 8 b) (\<lambda>bs. let be64 = of_mem bs in Ok (networkToHost64 be64)))"

definition peekInt32 :: "buffer \<Rightarrow> 32 word res" where
  "peekInt32 b = assertR (4 \<le> readableBytes b)
     (bindR (peekBytes 4 b) (\<lambda>bs. let be32 = of_mem bs in Ok (networkToHost32 be32)))"

definition peekInt16 :: "buffer \<Rightarrow> 16 word res" where
  "peekInt16 b = assertR (2 \<le> readableBytes b)
     (bindR (peekBytes 2 b) (\<lambda>bs. let be16 = of_mem bs in Ok (networkToHost16 be16)))"

definition peekInt8 :: "buffer \<Rightarrow> 8 word res" where
  "peekInt8 b = assertR (1 \<le> readableBytes b) (bindR (peekBytes 1 b) (\<lambda>bs. Ok (hd bs)))"

text \<open>
  The four readers call \<open>retrieve<64>()\<close>, \<open>retrieve<32>()\<close>, \<open>retrieve<16>()\<close> and
  \<open>retrieve<8>()\<close>: the template argument is a number of bytes.
\<close>

definition readInt64 :: "buffer \<Rightarrow> (64 word \<times> buffer) res" where
  "readInt64 b = bindR (peekInt64 b) (\<lambda>result. bindR (retrieve 64 b) (\<lambda>b'. Ok (result, b')))"

definition readInt32 :: "buffer \<Rightarrow> (32 word \<times> buffer) res" where
  "readInt32 b = bindR (peekInt32 b) (\<lambda>result. bindR (retrieve 32 b) (\<lambda>b'. Ok (result, b')))"

definition readInt16 :: "buffer \<Rightarrow> (16 word \<times> buffer) res" where
  "readInt16 b = bindR (peekInt16 b) (\<lambda>result. bindR (retrieve 16 b) (\<lambda>b'. Ok (result, b')))"

definition readInt8 :: "buffer \<Rightarrow> (8 word \<times> buffer) res" where
  "readInt8 b = bindR (peekInt8 b) (\<lambda>result. bindR (retrieve 8 b) (\<lambda>b'. Ok (result, b')))"

section \<open>Filling from a descriptor\<close>

text \<open>
  \<open>readv\<close> and \<open>recvfrom\<close> are parameters: given the lengths of the memory areas they return
  the bytes that were stored there, first area first, or an error. The result of the calls
  is the number of bytes, \<open>-1\<close> for an error.
\<close>

definition readFd_iov :: "buffer \<Rightarrow> nat list" where
  "readFd_iov b =
     (let writable = writableBytes b
      in if writable < gExtraBufferLen then [writable, gExtraBufferLen] else [writable])"

definition readFd :: "(nat list \<Rightarrow> byte list sys) \<Rightarrow> buffer \<Rightarrow> (int \<times> buffer) res" where
  "readFd readv b =
     (let writable = writableBytes b
      in case readv (readFd_iov b) of
           SysErr e \<Rightarrow> Ok (-1, b)
         | SysOk data \<Rightarrow>
             bindR (copy_in (writerIndex b) (take writable data) (vec b)) (\<lambda>v.
               let n = length data; b1 = b\<lparr>vec := v\<rparr>; extrabuf = drop writable data
               in if n \<le> writable then Ok (int n, b1\<lparr>writerIndex := writerIndex b1 + n\<rparr>)
                  else bindR (append_bytes extrabuf (b1\<lparr>writerIndex := length (vec b1)\<rparr>))
                         (\<lambda>b2. Ok (int n, b2))))"

definition readFrom :: "(nat \<Rightarrow> byte list sys) \<Rightarrow> buffer \<Rightarrow> (int \<times> buffer) res" where
  "readFrom recvfrom b =
     (let readLen = 65536
      in bindR (ensureWritableBytes readLen b) (\<lambda>b1.
           case recvfrom readLen of
             SysErr e \<Rightarrow> Ok (-1, b1)
           | SysOk data \<Rightarrow>
               bindR (copy_in (writerIndex b1) data (vec b1)) (\<lambda>v.
                 Ok (int (length data),
                     b1\<lparr>vec := v, writerIndex := writerIndex b1 + length data\<rparr>))))"

section \<open>Invariant and abstract value\<close>

definition buf_inv :: "buffer \<Rightarrow> bool" where
  "buf_inv b \<longleftrightarrow> readerIndex b \<le> writerIndex b \<and> writerIndex b \<le> length (vec b)
     \<and> length (vec b) \<le> max_size"

definition content :: "buffer \<Rightarrow> byte list" where
  "content b = take (writerIndex b - readerIndex b) (drop (readerIndex b) (vec b))"

lemma buf_invD [dest]:
  assumes "buf_inv b"
  shows "readerIndex b \<le> writerIndex b" and "writerIndex b \<le> length (vec b)"
    and "length (vec b) \<le> max_size"
  using assms by (simp_all add: buf_inv_def)

lemma readable_content: "buf_inv b \<Longrightarrow> readableBytes b = length (content b)"
  by (auto simp add: readableBytes_def content_def buf_inv_def min_def)

lemma writable_room: "buf_inv b \<Longrightarrow> writableBytes b = length (vec b) - writerIndex b"
  by (simp add: writableBytes_def buf_inv_def)

lemma length_content: "buf_inv b \<Longrightarrow> length (content b) = writerIndex b - readerIndex b"
  by (auto simp add: content_def buf_inv_def min_def)

lemma content_le_max: "buf_inv b \<Longrightarrow> length (content b) \<le> max_size"
  by (auto simp: length_content buf_inv_def)

lemma newBuffer_ok:
  assumes "n \<le> max_size"
  obtains b where "newBuffer n = Ok b" and "buf_inv b" and "content b = []"
    and "length (vec b) = n"
  using assms
  by (auto simp: newBuffer_def kCheapPrepend_def vec_resize_def readableBytes_def
      writableBytes_def prependableBytes_def buf_inv_def content_def Let_def)

lemma peekBytes_content:
  assumes "buf_inv b" and "n \<le> length (content b)"
  shows "peekBytes n b = Ok (take n (content b))"
proof -
  from assms have "n \<le> writerIndex b - readerIndex b" by (simp add: length_content)
  with assms(1) show ?thesis by (auto simp: peekBytes_def buf_inv_def content_def min_absorb1)
qed

subsection \<open>Retrieving\<close>

lemma retrieveAll_spec [simp]:
  "content (retrieveAll b) = []"
  "vec (retrieveAll b) = vec b"
  "buf_inv b \<Longrightarrow> buf_inv (retrieveAll b)"
  by (simp_all add: retrieveAll_def content_def buf_inv_def kCheapPrepend_def)

lemma retrieve_Ok:
  assumes "buf_inv b" and "n \<le> length (content b)"
  obtains b' where "retrieve n b = Ok b'" and "buf_inv b'" and "content b' = drop n (content b)"
    and "vec b' = vec b"
proof (cases "n < length (content b)")
  case True
  with assms have "retrieve n b = Ok (b\<lparr>readerIndex := readerIndex b + n\<rparr>)"
    by (simp add: retrieve_def readable_content)
  moreover from True assms have "buf_inv (b\<lparr>readerIndex := readerIndex b + n\<rparr>)"
    by (auto simp: buf_inv_def length_content)
  moreover have "content (b\<lparr>readerIndex := readerIndex b + n\<rparr>) = drop n (content b)"
    by (simp add: content_def drop_take add.commute)
  ultimately show ?thesis using that by simp
next
  case False
  with assms have "retrieve n b = Ok (retrieveAll b)"
    by (simp add: retrieve_def readable_content)
  with False assms show ?thesis using that by simp
qed

lemma retrieve_fails:
  assumes "buf_inv b" and "length (content b) < n"
  shows "retrieve n b = Fail AssertFail"
  using assms by (simp add: retrieve_def readable_content)

lemma retrieve_OkD:
  assumes "retrieve n b = Ok b'" and "buf_inv b"
  shows "buf_inv b'" and "content b' = drop n (content b)" and "vec b' = vec b"
    and "n \<le> length (content b)"
proof -
  have n: "n \<le> length (content b)"
    using assms retrieve_fails [of b n] by (cases "n \<le> length (content b)") auto
  from retrieve_Ok [OF assms(2) n] obtain c where "retrieve n b = Ok c" and "buf_inv c"
    and "content c = drop n (content b)" and "vec c = vec b" by metis
  with assms(1) n show "buf_inv b'" and "content b' = drop n (content b)" and "vec b' = vec b"
    and "n \<le> length (content b)"
    by simp_all
qed

lemma retrieveAsString_Ok:
  assumes "buf_inv b" and "n \<le> length (content b)"
  obtains b' where "retrieveAsString n b = Ok (take n (content b), b')" and "buf_inv b'"
    and "content b' = drop n (content b)" and "vec b' = vec b"
proof -
  obtain b' where b': "retrieve n b = Ok b'" "buf_inv b'" "content b' = drop n (content b)"
    "vec b' = vec b"
    using retrieve_Ok [OF assms] by metis
  then have "retrieveAsString n b = Ok (take n (content b), b')"
    using assms by (simp add: retrieveAsString_def readable_content peekBytes_content)
  with b' show ?thesis using that by blast
qed

lemma retrieveAsString_fails:
  "buf_inv b \<Longrightarrow> length (content b) < n \<Longrightarrow> retrieveAsString n b = Fail AssertFail"
  by (simp add: retrieveAsString_def readable_content)

subsection \<open>Making space and appending\<close>

lemma resize_branch:
  assumes "buf_inv b" and "writerIndex b + len \<le> max_size" and "length (vec b) \<le> writerIndex b + len"
  obtains b' where
    "bindR (vec_resize (size_add (writerIndex b) len) (vec b)) (\<lambda>v. Ok (b\<lparr>vec := v\<rparr>)) = Ok b'"
    and "buf_inv b'" and "content b' = content b" and "len \<le> writableBytes b'"
    and "writerIndex b' = writerIndex b"
proof -
  let ?v = "vec b @ replicate (writerIndex b + len - length (vec b)) 0"
  have "size_add (writerIndex b) len = writerIndex b + len"
    using assms by (auto intro!: size_add_small)
  then have "vec_resize (size_add (writerIndex b) len) (vec b) = Ok ?v"
    using assms by (simp add: vec_resize_grow)
  moreover have "buf_inv (b\<lparr>vec := ?v\<rparr>)" and "content (b\<lparr>vec := ?v\<rparr>) = content b"
    using assms by (auto simp: buf_inv_def content_def)
  moreover have "len \<le> writableBytes (b\<lparr>vec := ?v\<rparr>)"
    using assms by (auto simp: writableBytes_def)
  ultimately show ?thesis using that by simp
qed

lemma move_branch:
  assumes "buf_inv b" and "readerIndex b > 0"
  defines "b' \<equiv> b\<lparr>vec := overwrite 0 (content b) (vec b), readerIndex := 0,
                    writerIndex := length (content b)\<rparr>"
  shows "copy_within (vec b) (readerIndex b) (size_sub (writerIndex b) (readerIndex b)) kCheapPrepend
      = Ok (overwrite 0 (content b) (vec b))"
    and "buf_inv b'" and "content b' = content b"
    and "writableBytes b' = writableBytes b + prependableBytes b"
proof -
  have le: "length (content b) \<le> length (vec b)"
    and rw: "readerIndex b + length (content b) = writerIndex b"
    using assms(1) by (auto simp: length_content buf_inv_def)
  have len: "size_sub (writerIndex b) (readerIndex b) = length (content b)"
    using assms(1) by (auto simp: length_content)
  have "copy_fwd (vec b) (readerIndex b) (length (content b)) 0 =
      overwrite 0 (take (length (content b)) (drop (readerIndex b) (vec b))) (vec b)"
    using assms(1) rw by (intro copy_fwd_block) auto
  also have "take (length (content b)) (drop (readerIndex b) (vec b)) = content b"
    using assms(1) by (subst (2) content_def) (simp add: length_content)
  finally show "copy_within (vec b) (readerIndex b)
      (size_sub (writerIndex b) (readerIndex b)) kCheapPrepend = Ok (overwrite 0 (content b) (vec b))"
    using assms(1) rw le len by (auto simp: copy_within_def kCheapPrepend_def buf_inv_def)
  show "buf_inv b'" using assms(1) le by (auto simp: b'_def buf_inv_def)
  show "content b' = content b" by (simp add: b'_def content_def [of "b\<lparr>vec := _, readerIndex := _, writerIndex := _\<rparr>"] overwrite_def)
  show "writableBytes b' = writableBytes b + prependableBytes b"
    using assms(1) le
    by (auto simp: b'_def writableBytes_def prependableBytes_def length_content buf_inv_def)
qed

lemma makeSpace_result:
  assumes "buf_inv b" and "writableBytes b < len" and "len \<le> max_size"
  shows "max_size < writerIndex b + len \<and> makeSpace len b = Fail LengthError \<or>
    (\<exists>b'. makeSpace len b = Ok b' \<and> buf_inv b' \<and> content b' = content b \<and> len \<le> writableBytes b'
       \<and> writerIndex b' \<le> writerIndex b)"
proof (cases "size_add (writableBytes b) (prependableBytes b) < size_add len kCheapPrepend")
  case grow: True
  show ?thesis
  proof (cases "writerIndex b + len \<le> max_size")
    case True
    have "length (vec b) \<le> writerIndex b + len"
      using assms by (auto simp: writable_room)
    from resize_branch [OF assms(1) True this] grow show ?thesis
      by (simp add: makeSpace_def) (metis order_refl)
  next
    case False
    have "size_add (writerIndex b) len = writerIndex b + len"
      using assms by (auto simp: buf_inv_def intro!: size_add_small)
    with False grow show ?thesis by (simp add: makeSpace_def vec_resize_def)
  qed
next
  case False
  have room: "size_add (writableBytes b) (prependableBytes b) = writableBytes b + prependableBytes b"
    "size_add len kCheapPrepend = len"
    using assms by (auto simp: writable_room prependableBytes_def kCheapPrepend_def buf_inv_def
        intro!: size_add_small)
  with False assms(2) have r: "readerIndex b > 0" and fits: "len \<le> writableBytes b + prependableBytes b"
    by (auto simp: prependableBytes_def)
  note mv = move_branch [OF assms(1) r]
  have "makeSpace len b = Ok (b\<lparr>vec := overwrite 0 (content b) (vec b), readerIndex := 0,
                    writerIndex := length (content b)\<rparr>)"
    using False r mv(1,2) assms(1)
    by (simp add: makeSpace_def kCheapPrepend_def readable_content mv(3) Let_def)
  moreover have "length (content b) \<le> writerIndex b" using assms(1) by (simp add: length_content)
  ultimately show ?thesis using mv(2-4) fits by simp
qed

lemma ensureWritableBytes_result:
  assumes "buf_inv b" and "len \<le> max_size"
  shows "max_size < writerIndex b + len \<and> ensureWritableBytes len b = Fail LengthError \<or>
    (\<exists>b'. ensureWritableBytes len b = Ok b' \<and> buf_inv b' \<and> content b' = content b
       \<and> len \<le> writableBytes b' \<and> writerIndex b' \<le> writerIndex b)"
proof (cases "writableBytes b < len")
  case True
  from makeSpace_result [OF assms(1) True assms(2)] True show ?thesis
    by (auto simp: ensureWritableBytes_def)
next
  case False
  with assms(1) show ?thesis by (simp add: ensureWritableBytes_def)
qed

lemma ensureWritableBytes_Ok:
  assumes "buf_inv b" and "writerIndex b + len \<le> max_size"
  obtains b' where "ensureWritableBytes len b = Ok b'" and "buf_inv b'" and "content b' = content b"
    and "len \<le> writableBytes b'"
  using ensureWritableBytes_result [of b len] assms by auto

lemma store_at_end:
  assumes "buf_inv b" and "length data \<le> writableBytes b"
  defines "b' \<equiv> b\<lparr>vec := overwrite (writerIndex b) data (vec b),
                    writerIndex := writerIndex b + length data\<rparr>"
  shows "copy_in (writerIndex b) data (vec b) = Ok (overwrite (writerIndex b) data (vec b))"
    and "buf_inv b'" and "content b' = content b @ data"
proof -
  from assms have fits: "writerIndex b + length data \<le> length (vec b)"
    by (auto simp: writable_room)
  then show "copy_in (writerIndex b) data (vec b) = Ok (overwrite (writerIndex b) data (vec b))"
    by simp
  show "buf_inv b'" using assms(1) fits by (auto simp: b'_def buf_inv_def)
  have "readerIndex b \<le> writerIndex b" "writerIndex b \<le> length (vec b)"
    using assms(1) by auto
  then show "content b' = content b @ data"
    using fits by (simp add: b'_def content_def overwrite_def drop_take)
qed

lemma append_bytes_result:
  assumes "buf_inv b" and "length data \<le> max_size"
  shows "max_size < writerIndex b + length data \<and> append_bytes data b = Fail LengthError \<or>
    (\<exists>b'. append_bytes data b = Ok b' \<and> buf_inv b' \<and> content b' = content b @ data
       \<and> writerIndex b' \<le> writerIndex b + length data)"
  using ensureWritableBytes_result [OF assms]
proof
  assume "max_size < writerIndex b + length data \<and> ensureWritableBytes (length data) b = Fail LengthError"
  then show ?thesis by (simp add: append_bytes_def)
next
  assume "\<exists>b'. ensureWritableBytes (length data) b = Ok b' \<and> buf_inv b' \<and> content b' = content b
       \<and> length data \<le> writableBytes b' \<and> writerIndex b' \<le> writerIndex b"
  then obtain c where c: "ensureWritableBytes (length data) b = Ok c" "buf_inv c"
    "content c = content b" "length data \<le> writableBytes c" "writerIndex c \<le> writerIndex b" by blast
  with store_at_end [of c data] show ?thesis by (simp add: append_bytes_def)
qed

lemma append_bytes_Ok:
  assumes "buf_inv b" and "writerIndex b + length data \<le> max_size"
  obtains b' where "append_bytes data b = Ok b'" and "buf_inv b'" and "content b' = content b @ data"
    and "writerIndex b' \<le> writerIndex b + length data"
  using append_bytes_result [of b data] assms by auto

lemma append_bytes_OkD:
  assumes "append_bytes data b = Ok b'" and "buf_inv b" and "length data \<le> max_size"
  shows "buf_inv b'" and "content b' = content b @ data"
  using append_bytes_result [of b data] assms by auto

subsection \<open>The buffer is a byte queue\<close>

lemma retrieve_writerIndex: "retrieve n b = Ok b' \<Longrightarrow> writerIndex b' \<le> writerIndex b"
  by (auto simp: retrieve_def retrieveAll_def kCheapPrepend_def assertR_eq_Ok split: if_splits)

interpretation bq: byte_queue buf_inv content writerIndex append_bytes retrieveAsString
proof
  fix b and xs :: "byte list"
  assume "buf_inv b" and "writerIndex b + length xs \<le> max_size"
  then show "\<exists>b'. append_bytes xs b = Ok b' \<and> buf_inv b' \<and> content b' = content b @ xs
      \<and> writerIndex b' \<le> writerIndex b + length xs"
    by (metis append_bytes_Ok)
next
  fix b n
  assume inv: "buf_inv b" and n: "n \<le> length (content b)"
  obtain b' where b': "retrieve n b = Ok b'" "buf_inv b'" "content b' = drop n (content b)"
    using retrieve_Ok [OF inv n] by metis
  with inv n have "retrieveAsString n b = Ok (take n (content b), b')"
    by (simp add: retrieveAsString_def readable_content peekBytes_content)
  with b' retrieve_writerIndex [OF b'(1)]
  show "\<exists>b'. retrieveAsString n b = Ok (take n (content b), b') \<and> buf_inv b'
      \<and> content b' = drop n (content b) \<and> writerIndex b' \<le> writerIndex b" by blast
next
  fix b n
  assume "buf_inv b" and "length (content b) < n"
  then show "retrieveAsString n b = Fail AssertFail" by (rule retrieveAsString_fails)
qed

subsection \<open>Integers\<close>

lemma length_be_bytes_sizes:
  "length (be_bytes (x :: 64 word)) = 8"
  "length (be_bytes (y :: 32 word)) = 4"
  "length (be_bytes (z :: 16 word)) = 2"
  by simp_all

lemma ntoh_iff:
  "length bs = 8 \<Longrightarrow> networkToHost64 (of_mem bs) = x \<longleftrightarrow> bs = be_bytes x"
  "length bs = 4 \<Longrightarrow> networkToHost32 (of_mem bs) = y \<longleftrightarrow> bs = be_bytes y"
  "length bs = 2 \<Longrightarrow> networkToHost16 (of_mem bs) = z \<longleftrightarrow> bs = be_bytes z"
  by (auto simp: net_defs be_bytes_def bswap_of_mem)

lemma append_ints:
  "appendInt64 x b = append_bytes (be_bytes x) b"
  "appendInt32 y b = append_bytes (be_bytes y) b"
  "appendInt16 z b = append_bytes (be_bytes z) b"
  by (simp_all add: appendInt64_def appendInt32_def appendInt16_def)

lemma peekInt64_iff:
  assumes "buf_inv b"
  shows "peekInt64 b = Ok x \<longleftrightarrow> take 8 (content b) = be_bytes x"
proof (cases "8 \<le> length (content b)")
  case True
  with assms show ?thesis
    by (simp add: peekInt64_def readable_content peekBytes_content ntoh_iff)
next
  case False
  then have "length (take 8 (content b)) \<noteq> length (be_bytes x)" by simp
  then have "take 8 (content b) \<noteq> be_bytes x" by metis
  with assms False show ?thesis by (simp add: peekInt64_def readable_content)
qed

lemma peekInt32_iff:
  assumes "buf_inv b"
  shows "peekInt32 b = Ok x \<longleftrightarrow> take 4 (content b) = be_bytes x"
proof (cases "4 \<le> length (content b)")
  case True
  with assms show ?thesis
    by (simp add: peekInt32_def readable_content peekBytes_content ntoh_iff)
next
  case False
  then have "length (take 4 (content b)) \<noteq> length (be_bytes x)" by simp
  then have "take 4 (content b) \<noteq> be_bytes x" by metis
  with assms False show ?thesis by (simp add: peekInt32_def readable_content)
qed

lemma peekInt16_iff:
  assumes "buf_inv b"
  shows "peekInt16 b = Ok x \<longleftrightarrow> take 2 (content b) = be_bytes x"
proof (cases "2 \<le> length (content b)")
  case True
  with assms show ?thesis
    by (simp add: peekInt16_def readable_content peekBytes_content ntoh_iff)
next
  case False
  then have "length (take 2 (content b)) \<noteq> length (be_bytes x)" by simp
  then have "take 2 (content b) \<noteq> be_bytes x" by metis
  with assms False show ?thesis by (simp add: peekInt16_def readable_content)
qed

lemma peekInt32_value:
  assumes "buf_inv b" and "4 \<le> length (content b)"
  shows "peekInt32 b = Ok (networkToHost32 (of_mem (take 4 (content b))))"
  using assms by (simp add: peekInt32_def readable_content peekBytes_content)

subsection \<open>Filling from a descriptor\<close>

lemma readFd_error: "readv (readFd_iov b) = SysErr e \<Longrightarrow> readFd readv b = Ok (-1, b)"
  by (simp add: readFd_def)

lemma readFd_load:
  assumes "buf_inv b" and "readv (readFd_iov b) = SysOk data"
    and "writerIndex b + length data \<le> max_size"
  shows "\<exists>b'. readFd readv b = Ok (int (length data), b') \<and> buf_inv b'
      \<and> content b' = content b @ data \<and> writerIndex b' \<le> writerIndex b + length data"
proof -
  let ?w = "writableBytes b" and ?d = "take (writableBytes b) data"
  let ?b1 = "b\<lparr>vec := overwrite (writerIndex b) ?d (vec b),
                writerIndex := writerIndex b + length ?d\<rparr>"
  have fit: "length ?d \<le> ?w" by simp
  note store = store_at_end [OF assms(1) fit]
  show ?thesis
  proof (cases "length data \<le> ?w")
    case True
    with store assms(2) show ?thesis by (simp add: readFd_def Let_def)
  next
    case False
    with assms(1) have full: "writerIndex b + length ?d = length (vec b)"
      and len: "length (overwrite (writerIndex b) ?d (vec b)) = length (vec b)"
      by (auto simp: writable_room min_def buf_inv_def)
    have room: "writerIndex ?b1 + length (drop ?w data) \<le> max_size"
      using assms(3) False by simp
    obtain b2 where "append_bytes (drop ?w data) ?b1 = Ok b2" "buf_inv b2"
      "content b2 = content ?b1 @ drop ?w data" "writerIndex b2 \<le> writerIndex ?b1 + length (drop ?w data)"
      by (rule append_bytes_Ok [OF store(2) room])
    with store(1,3) False assms(2) full len show ?thesis
      by (simp add: readFd_def Let_def)
  qed
qed

lemma readFd_delivers:
  assumes "buf_inv b" and "readv (readFd_iov b) = SysOk data"
    and "length (vec b) + length data \<le> max_size"
  shows "\<exists>b'. readFd readv b = Ok (int (length data), b') \<and> buf_inv b'
      \<and> content b' = content b @ data"
  using readFd_load [of b readv data] assms by (auto simp: buf_inv_def)

lemma readFd_iov_total: "sum_list (readFd_iov b) \<le> max (writableBytes b) 131071"
  by (simp add: readFd_iov_def gExtraBufferLen_def Let_def)

lemma readFrom_delivers:
  assumes "buf_inv b" and "recvfrom 65536 = SysOk data" and "length data \<le> 65536"
    and "writerIndex b + 65536 \<le> max_size"
  shows "\<exists>b'. readFrom recvfrom b = Ok (int (length data), b') \<and> buf_inv b'
      \<and> content b' = content b @ data"
proof -
  obtain c where c: "ensureWritableBytes 65536 b = Ok c" "buf_inv c" "content c = content b"
    "65536 \<le> writableBytes c"
    using ensureWritableBytes_Ok [OF assms(1,4)] by metis
  with assms(3) have "length data \<le> writableBytes c" by simp
  from store_at_end [OF c(2) this] c assms(2) show ?thesis by (simp add: readFrom_def)
qed

section \<open>Properties\<close>

text \<open>
  C10. Any sequence of appends and retrievals that never asks for more than is there, and that
  does not grow the vector past its largest size, runs to the end without an assertion or
  exception, and the bytes retrieved followed by the bytes left are the bytes there were
  followed by the bytes appended: the buffer is a first-in first-out byte queue, whatever
  its internal moves and resizes.
\<close>

theorem buffer_fifo:
  assumes "buf_inv b" and "legal (length (content b)) ops"
    and "writerIndex b + length (pushed ops) \<le> max_size"
  shows "\<exists>out b'. run_queue append_bytes retrieveAsString ops b = Ok (out, b') \<and> buf_inv b'
      \<and> out @ content b' = content b @ pushed ops"
  using assms by (rule bq.run_total)

definition demo_buffer :: buffer where
  "demo_buffer = \<lparr>vec = [9, 1, 2, 0], readerIndex = 1, writerIndex = 3\<rparr>"

lemma demo_buffer_facts:
  "buf_inv demo_buffer" "content demo_buffer = [1, 2]" "writerIndex demo_buffer = 3"
  "vec demo_buffer = [9, 1, 2, 0]"
  by (simp_all add: demo_buffer_def buf_inv_def content_def max_size_def)

lemma buffer_fifo_witness:
  "\<exists>out b'. run_queue append_bytes retrieveAsString [Push [3, 4, 5], Pop 4] demo_buffer = Ok (out, b')
      \<and> buf_inv b' \<and> out @ content b' = [1, 2, 3, 4, 5]"
  using buffer_fifo [of demo_buffer "[Push [3, 4, 5], Pop 4]"]
  by (simp add: demo_buffer_facts max_size_def)

text \<open>
  Appending data to a well-formed buffer, whatever its size, never trips one of the
  assertions of \<open>makeSpace\<close> and \<open>ensureWritableBytes\<close> and never writes outside the vector: it
  either appends exactly the data and keeps the buffer well formed, or throws the length
  error of the vector, and the latter only when the vector would pass its largest size.
\<close>

theorem append_never_asserts:
  assumes "buf_inv b" and "length data \<le> max_size"
  shows "max_size < writerIndex b + length data \<and> append_bytes data b = Fail LengthError \<or>
    (\<exists>b'. append_bytes data b = Ok b' \<and> buf_inv b' \<and> content b' = content b @ data)"
  using append_bytes_result [OF assms] by blast

lemma append_never_asserts_witness:
  "\<exists>b'. append_bytes [3, 4, 5] demo_buffer = Ok b' \<and> buf_inv b' \<and> content b' = [1, 2, 3, 4, 5]"
  using append_never_asserts [of demo_buffer "[3, 4, 5]"]
  by (simp add: demo_buffer_facts max_size_def)

text \<open>
  An integer appended in network order behind any content is read back unchanged by the
  peek of its width once the content before it has been retrieved, for 64, 32 and 16 bits,
  and the bytes in the buffer are its bytes, most significant first.
\<close>

theorem append_peek_roundtrip:
  assumes "buf_inv b" and "writerIndex b + 8 \<le> max_size"
  shows "(\<exists>b1 b2. appendInt64 x b = Ok b1 \<and> retrieve (length (content b)) b1 = Ok b2
            \<and> content b2 = be_bytes x \<and> peekInt64 b2 = Ok x)
       \<and> (\<exists>b1 b2. appendInt32 y b = Ok b1 \<and> retrieve (length (content b)) b1 = Ok b2
            \<and> content b2 = be_bytes y \<and> peekInt32 b2 = Ok y)
       \<and> (\<exists>b1 b2. appendInt16 z b = Ok b1 \<and> retrieve (length (content b)) b1 = Ok b2
            \<and> content b2 = be_bytes z \<and> peekInt16 b2 = Ok z)"
proof -
  have behind: "\<exists>b1 b2. append_bytes bs b = Ok b1 \<and> retrieve (length (content b)) b1 = Ok b2
      \<and> buf_inv b2 \<and> content b2 = bs" if "length bs \<le> 8" for bs
  proof -
    from that assms(2) have "writerIndex b + length bs \<le> max_size" by simp
    then obtain b1 where b1: "append_bytes bs b = Ok b1" "buf_inv b1" "content b1 = content b @ bs"
      using append_bytes_Ok [OF assms(1)] by metis
    obtain b2 where "retrieve (length (content b)) b1 = Ok b2" "buf_inv b2"
      "content b2 = drop (length (content b)) (content b1)"
      by (rule retrieve_Ok [of b1 "length (content b)"]) (use b1 in auto)
    with b1 show ?thesis by auto
  qed
  show ?thesis
    using behind [of "be_bytes x"] behind [of "be_bytes y"] behind [of "be_bytes z"]
    by (auto simp: append_ints peekInt64_iff peekInt32_iff peekInt16_iff)
qed

lemma append_peek_roundtrip_witness:
  "\<exists>b1 b2. appendInt32 305419896 demo_buffer = Ok b1 \<and> retrieve 2 b1 = Ok b2
     \<and> content b2 = be_bytes (305419896 :: 32 word) \<and> peekInt32 b2 = Ok 305419896"
proof -
  have "writerIndex demo_buffer + 8 \<le> max_size" and "length (content demo_buffer) = 2"
    by (simp_all add: demo_buffer_facts max_size_def)
  with append_peek_roundtrip [of demo_buffer 0 305419896 0] show ?thesis
    by (simp only: demo_buffer_facts(1) simp_thms)
qed

text \<open>
  \<open>readInt32\<close> gives the value that \<open>peekInt32\<close> gives but takes 32 bytes, the number of
  its bits, out of the buffer: with fewer than 32 readable bytes it fails its assertion, even
  on a buffer that holds exactly the four bytes of an appended integer, and with more it
  discards 28 bytes that belong to what follows.
\<close>

theorem readInt32_takes_32_bytes:
  assumes "buf_inv b" and "4 \<le> length (content b)"
  shows "if length (content b) < 32 then readInt32 b = Fail AssertFail
         else \<exists>x b'. peekInt32 b = Ok x \<and> readInt32 b = Ok (x, b')
           \<and> content b' = drop 32 (content b)"
proof (cases "length (content b) < 32")
  case True
  with peekInt32_value [OF assms] retrieve_fails [OF assms(1) True] show ?thesis
    by (simp add: readInt32_def)
next
  case False
  then obtain b' where "retrieve 32 b = Ok b'" "content b' = drop 32 (content b)"
    using retrieve_Ok [OF assms(1), of 32] by (metis not_less)
  with False peekInt32_value [OF assms] show ?thesis by (simp add: readInt32_def)
qed

definition int_buffer :: buffer where
  "int_buffer = \<lparr>vec = [0, 0, 0, 7], readerIndex = 0, writerIndex = 4\<rparr>"

lemma readInt32_takes_32_bytes_witness:
  "content int_buffer = [0, 0, 0, 7] \<and> readInt32 int_buffer = Fail AssertFail"
proof -
  have "buf_inv int_buffer" and c: "content int_buffer = [0, 0, 0, 7]"
    by (simp_all add: int_buffer_def buf_inv_def content_def max_size_def)
  with readInt32_takes_32_bytes [of int_buffer] show ?thesis by simp
qed

text \<open>
  One \<open>readFd\<close> appends exactly the bytes that \<open>readv\<close> delivered, split over the free space
  and the extra buffer or not, and returns their number; on an error it returns \<open>-1\<close> and
  leaves the buffer as it is. It delivers at most as many bytes as the larger of the free
  space and 131071, the \<open>128k - 1\<close> of its comment. The hypothesis is the contract of
  \<open>readv\<close>, no more bytes than the areas hold, and that the vector stays under its largest size.
\<close>

theorem readFd_appends:
  assumes "buf_inv b"
    and "\<And>data. readv (readFd_iov b) = SysOk data \<Longrightarrow>
      length data \<le> sum_list (readFd_iov b) \<and> length (vec b) + length data \<le> max_size"
  shows "case readv (readFd_iov b) of
      SysErr e \<Rightarrow> readFd readv b = Ok (-1, b)
    | SysOk data \<Rightarrow> length data \<le> max (writableBytes b) 131071 \<and>
        (\<exists>b'. readFd readv b = Ok (int (length data), b') \<and> buf_inv b'
          \<and> content b' = content b @ data)"
proof (cases "readv (readFd_iov b)")
  case (SysErr e)
  then show ?thesis by (simp add: readFd_error)
next
  case (SysOk data)
  with assms readFd_delivers [OF assms(1), of readv data] readFd_iov_total [of b]
  show ?thesis by (simp add: le_trans)
qed

lemma readFd_appends_witness:
  "\<exists>b'. readFd (\<lambda>iov. SysOk [7, 8, 9]) demo_buffer = Ok (3, b')
     \<and> buf_inv b' \<and> content b' = [1, 2, 7, 8, 9]"
proof -
  have "3 \<le> sum_list (readFd_iov demo_buffer)"
    by (simp add: readFd_iov_def gExtraBufferLen_def Let_def)
  with readFd_appends [of demo_buffer "\<lambda>iov. SysOk [7, 8, 9]"] show ?thesis
    by (simp add: demo_buffer_facts max_size_def)
qed

end
