(* ===== verification/Handlers.thy ===== *)
theory Handlers
  imports NetBuffer
begin

text \<open>
  The message pipeline: \<open>net/Handler.h\<close>, \<open>net/Pipeline.cpp\<close> and
  \<open>net/handler/UnpackHandler.cpp\<close>. Handlers pass heap objects to each other by raw pointer
  and the pipeline owns the current one through a \<open>shared_ptr\<close>, so the model keeps an explicit
  store of the allocated objects: reading or deleting an object that is not in it is a fault.
\<close>

section \<open>Handler data\<close>

datatype HandlerStatus = SUCCESS | FAILED

text \<open>
  The two subclasses of \<open>HandlerData\<close>. The buffer pointer of \<open>BufferData\<close> always is the
  buffer being processed, which the state holds; \<open>BitsData\<close> points into its vector.
\<close>

datatype payload = BufferData nat | BitsData netstring

record hdata =
  hstatus :: HandlerStatus
  hpayload :: payload

record pstate =
  objs :: "nat \<Rightarrow> hdata option"
  nextPtr :: nat
  pbuf :: buffer

definition createData :: "payload \<Rightarrow> pstate \<Rightarrow> nat \<times> pstate" where
  "createData pl s =
     (nextPtr s, s\<lparr>objs := (objs s)(nextPtr s \<mapsto> \<lparr>hstatus = SUCCESS, hpayload = pl\<rparr>),
                   nextPtr := Suc (nextPtr s)\<rparr>)"

definition getObj :: "nat \<Rightarrow> pstate \<Rightarrow> hdata res" where
  "getObj p s = (case objs s p of None \<Rightarrow> Fail UseAfterFree | Some d \<Rightarrow> Ok d)"

definition setStatus :: "HandlerStatus \<Rightarrow> nat \<Rightarrow> pstate \<Rightarrow> pstate res" where
  "setStatus st p s =
     bindR (getObj p s) (\<lambda>d. Ok (s\<lparr>objs := (objs s)(p \<mapsto> d\<lparr>hstatus := st\<rparr>)\<rparr>))"

definition deleteObj :: "nat \<Rightarrow> pstate \<Rightarrow> pstate res" where
  "deleteObj p s = bindR (getObj p s) (\<lambda>_. Ok (s\<lparr>objs := (objs s)(p := None)\<rparr>))"

text \<open>A handler takes the pointer to its input and returns the pointer to its output.\<close>

type_synonym handler = "nat \<Rightarrow> pstate \<Rightarrow> (nat \<times> pstate) res"

section \<open>\<open>UnpackHandler\<close>\<close>

definition HeaderBits :: nat where
  "HeaderBits = 32"

definition unpack_package :: "32 word \<Rightarrow> handler" where
  "unpack_package sz p s =
     bindR (retrieve HeaderBits (pbuf s)) (\<lambda>b1.
       let (q, s1) = createData (BitsData \<lparr>ns_data = readerIndex b1, ns_length = unat sz\<rparr>)
                       (s\<lparr>pbuf := b1\<rparr>)
       in bindR (retrieve (unat sz) (pbuf s1)) (\<lambda>b2. Ok (q, s1\<lparr>pbuf := b2\<rparr>)))"

definition unpack_fail :: handler where
  "unpack_fail p s = bindR (setStatus FAILED p s) (\<lambda>s1. Ok (p, s1))"

definition unpack_process :: handler where
  "unpack_process p s =
     bindR (getObj p s) (\<lambda>d. case hpayload d of
         BitsData _ \<Rightarrow> Fail BadCast
       | BufferData _ \<Rightarrow>
           if HeaderBits < readableBytes (pbuf s) then
             bindR (peekInt32 (pbuf s)) (\<lambda>sz.
               if 0 < sint sz \<and> size_add (unat sz) HeaderBits \<le> readableBytes (pbuf s)
               then unpack_package sz p s
               else unpack_fail p s)
           else unpack_fail p s)"

section \<open>\<open>Pipeline\<close>\<close>

definition addLast :: "handler \<Rightarrow> handler list \<Rightarrow> handler list" where
  "addLast h hs = hs @ [h]"

definition addFirst :: "handler \<Rightarrow> handler list \<Rightarrow> handler list" where
  "addFirst h hs = (if hs = [] then addLast h hs else h # hs)"

text \<open>
  The loop of \<open>Pipeline::process\<close>. \<open>holder.reset(q)\<close> makes \<open>q\<close> the owned object and then
  deletes the object owned before, also when that is \<open>q\<close> itself.
\<close>

definition reset_holder :: "nat \<Rightarrow> nat \<Rightarrow> pstate \<Rightarrow> (nat \<times> pstate) res" where
  "reset_holder q holder s = bindR (deleteObj holder s) (\<lambda>s1. Ok (q, s1))"

primrec run_handlers :: "handler list \<Rightarrow> handler" where
  "run_handlers [] holder s = Ok (holder, s)"
| "run_handlers (h # hs) holder s =
     bindR (h holder s) (\<lambda>(q, s1).
       bindR (reset_holder q holder s1) (\<lambda>(holder', s2).
         bindR (getObj holder' s2) (\<lambda>d.
           if hstatus d \<noteq> SUCCESS then Ok (holder', s2) else run_handlers hs holder' s2)))"

definition pipeline_process :: "handler list \<Rightarrow> pstate \<Rightarrow> pstate res" where
  "pipeline_process hs s =
     (let (data, s1) = createData (BufferData (readableBytes (pbuf s))) s
      in bindR (run_handlers hs data s1) (\<lambda>(holder, s2). deleteObj holder s2))"

lemma addFirst_Cons: "addFirst h hs = h # hs"
  by (simp add: addFirst_def addLast_def)

section \<open>What the packet format is\<close>

text \<open>
  The abstract parser: 32 header bytes, of which the first four are the length of the package
  in network order and the other 28 are ignored, then the package.
\<close>

definition header_size :: "byte list \<Rightarrow> int" where
  "header_size bs = sint (networkToHost32 (of_mem (take 4 bs)))"

definition complete :: "byte list \<Rightarrow> bool" where
  "complete bs \<longleftrightarrow> 32 < length bs \<and> 0 < header_size bs \<and> nat (header_size bs) + 32 \<le> length bs"

definition package_of :: "byte list \<Rightarrow> byte list" where
  "package_of bs = take (nat (header_size bs)) (drop 32 bs)"

definition rest_of :: "byte list \<Rightarrow> byte list" where
  "rest_of bs = drop (32 + nat (header_size bs)) bs"

definition pstate_inv :: "pstate \<Rightarrow> bool" where
  "pstate_inv s \<longleftrightarrow> buf_inv (pbuf s) \<and> (\<forall>p. objs s p \<noteq> None \<longrightarrow> p < nextPtr s)"

lemma sint_pos_unat:
  assumes "0 < sint (w :: 32 word)"
  shows "int (unat w) = sint w"
proof -
  from assms have "0 \<le> sint w" by simp
  then have pos: "\<not> bit (uint w) 31" by (simp add: sint_uint)
  have "take_bit 32 (uint w) = take_bit 31 (uint w)"
    using take_bit_Suc_from_most [of 31 "uint w"] pos by simp
  moreover have "take_bit 32 (uint w) = uint w"
    by (rule bintr_uint) simp
  ultimately show ?thesis
    using pos by (simp add: sint_uint signed_take_bit_eq_if_positive)
qed

lemma header_size_unat:
  assumes "0 < header_size bs"
  shows "nat (header_size bs) = unat (networkToHost32 (of_mem (take 4 bs)))"
  using sint_pos_unat [of "networkToHost32 (of_mem (take 4 bs))"] assms
  unfolding header_size_def by (metis nat_int)

section \<open>\<open>UnpackHandler\<close> implements the format\<close>

lemma guard_complete:
  assumes "buf_inv b" and "32 < length (content b)"
  shows "(0 < sint (networkToHost32 (of_mem (take 4 (content b)))) \<and>
      size_add (unat (networkToHost32 (of_mem (take 4 (content b))))) 32 \<le> readableBytes b)
    \<longleftrightarrow> complete (content b)"
proof (cases "0 < header_size (content b)")
  case True
  have "unat (networkToHost32 (of_mem (take 4 (content b)))) \<le> max_size"
    by (rule le_trans [OF less_imp_le [OF unsigned_less]]) (simp add: max_size_def)
  then have "size_add (unat (networkToHost32 (of_mem (take 4 (content b))))) 32
      = nat (header_size (content b)) + 32"
    using True by (simp add: header_size_unat max_size_def)
  with True assms show ?thesis
    by (simp add: complete_def header_size_def readable_content)
next
  case False
  then show ?thesis by (simp add: complete_def header_size_def)
qed

lemma unpack_process_eq:
  assumes "buf_inv (pbuf s)" and "objs s p = Some d" and "hpayload d = BufferData n"
  shows "unpack_process p s =
    (if complete (content (pbuf s))
     then unpack_package (networkToHost32 (of_mem (take 4 (content (pbuf s))))) p s
     else unpack_fail p s)"
proof (cases "32 < length (content (pbuf s))")
  case True
  then have "4 \<le> length (content (pbuf s))" by simp
  with True assms guard_complete [OF assms(1) True] peekInt32_value [OF assms(1)]
  show ?thesis by (simp add: unpack_process_def getObj_def HeaderBits_def readable_content)
next
  case False
  with assms show ?thesis
    by (simp add: unpack_process_def getObj_def HeaderBits_def readable_content complete_def)
qed

lemma unpack_package_spec:
  assumes inv: "buf_inv (pbuf s)" and c: "complete (content (pbuf s))"
    and w: "w = networkToHost32 (of_mem (take 4 (content (pbuf s))))"
  shows "\<exists>v b'. unpack_package w p s = Ok (nextPtr s,
        s\<lparr>objs := (objs s)(nextPtr s \<mapsto> \<lparr>hstatus = SUCCESS, hpayload = BitsData v\<rparr>),
          nextPtr := Suc (nextPtr s), pbuf := b'\<rparr>)
      \<and> buf_inv b' \<and> vec b' = vec (pbuf s) \<and> content b' = rest_of (content (pbuf s))
      \<and> ns_toString (vec b') v = Ok (package_of (content (pbuf s)))"
proof -
  let ?b = "pbuf s" and ?n = "nat (header_size (content (pbuf s)))"
  have len: "?n + 32 \<le> length (content ?b)" and lt: "32 < length (content ?b)"
    and pos: "0 < header_size (content ?b)" using c by (simp_all add: complete_def)
  have n: "unat w = ?n" using header_size_unat [OF pos] w by simp
  let ?b1 = "?b\<lparr>readerIndex := readerIndex ?b + 32\<rparr>"
  have r1: "retrieve 32 ?b = Ok ?b1"
    using inv lt by (simp add: retrieve_def readable_content)
  from retrieve_OkD [OF r1 inv] have b1: "buf_inv ?b1" "content ?b1 = drop 32 (content ?b)" by simp_all
  have le: "?n \<le> length (content ?b1)" using b1(2) len by simp
  obtain b2 where b2: "retrieve ?n ?b1 = Ok b2" "buf_inv b2" "content b2 = drop ?n (content ?b1)"
    "vec b2 = vec ?b1"
    by (rule retrieve_Ok [OF b1(1) le])
  have "ns_toString (vec b2) \<lparr>ns_data = readerIndex ?b1, ns_length = ?n\<rparr> = peekBytes ?n ?b1"
    using b2(4) by (simp add: ns_toString_def peekBytes_def)
  also have "\<dots> = Ok (package_of (content ?b))"
    using peekBytes_content [OF b1(1), of ?n] b1(2) len by (simp add: package_of_def)
  finally have "ns_toString (vec b2) \<lparr>ns_data = readerIndex ?b1, ns_length = ?n\<rparr>
      = Ok (package_of (content ?b))" .
  with r1 b1 b2 n show ?thesis
    by (intro exI [of _ "\<lparr>ns_data = readerIndex ?b1, ns_length = ?n\<rparr>"] exI [of _ b2])
      (simp add: unpack_package_def HeaderBits_def createData_def rest_of_def add.commute)
qed

section \<open>The pipeline\<close>

text \<open>
  What every handler of the library does with the store: it keeps the objects that were there
  and returns either its own argument (changed or not) or a newly allocated object.
\<close>

definition owning_handler :: "handler \<Rightarrow> bool" where
  "owning_handler h \<longleftrightarrow> (\<forall>p s q s'. pstate_inv s \<longrightarrow> objs s p \<noteq> None \<longrightarrow> h p s = Ok (q, s') \<longrightarrow>
     pstate_inv s' \<and> (q = p \<or> objs s q = None) \<and> (\<exists>d. objs s' = (objs s)(q \<mapsto> d)))"

lemma owning_handlerD:
  assumes "owning_handler h" and "pstate_inv s" and "objs s p = Some d" and "h p s = Ok (q, s')"
  obtains e where "pstate_inv s'" and "q = p \<or> objs s q = None" and "objs s' = (objs s)(q \<mapsto> e)"
  using assms unfolding owning_handler_def by (metis option.distinct(1))

lemma createData_simps [simp]:
  "createData pl s = (nextPtr s, s\<lparr>objs := (objs s)(nextPtr s \<mapsto> \<lparr>hstatus = SUCCESS, hpayload = pl\<rparr>),
      nextPtr := Suc (nextPtr s)\<rparr>)"
  by (simp add: createData_def)

lemma reset_other:
  assumes "objs s p = Some d" and "objs s q = Some e" and "p \<noteq> q"
  shows "reset_holder q p s = Ok (q, s\<lparr>objs := (objs s)(p := None)\<rparr>)"
  using assms by (simp add: reset_holder_def deleteObj_def getObj_def)

lemma run_handlers_no_leak:
  assumes "\<forall>h \<in> set hs. owning_handler h" and "pstate_inv s" and "objs s p = Some d"
    and "run_handlers hs p s = Ok (q, s')"
  shows "\<exists>e. objs s' = ((objs s)(p := None))(q \<mapsto> e) \<and> (q = p \<or> objs s q = None)"
  using assms
proof (induction hs arbitrary: p d s)
  case Nil
  then show ?case by (auto intro!: exI [of _ d] simp: fun_eq_iff)
next
  case (Cons h hs)
  from Cons.prems(4) obtain r s1 where h: "h p s = Ok (r, s1)"
    and rest: "bindR (reset_holder r p s1) (\<lambda>(holder', s2). bindR (getObj holder' s2) (\<lambda>d.
        if hstatus d \<noteq> SUCCESS then Ok (holder', s2) else run_handlers hs holder' s2)) = Ok (q, s')"
    by auto
  have "owning_handler h" using Cons.prems(1) by simp
  then obtain e where inv1: "pstate_inv s1" and r: "r = p \<or> objs s r = None"
    and s1: "objs s1 = (objs s)(r \<mapsto> e)"
    using Cons.prems(2,3) h by (rule owning_handlerD)
  have "p \<noteq> r"
  proof
    assume "p = r"
    with s1 rest show False by (simp add: reset_holder_def deleteObj_def getObj_def)
  qed
  let ?s2 = "s1\<lparr>objs := (objs s1)(p := None)\<rparr>"
  have reset: "reset_holder r p s1 = Ok (r, ?s2)"
    using reset_other [of s1 p d r e] Cons.prems(3) s1 \<open>p \<noteq> r\<close> by simp
  have s2: "objs ?s2 r = Some e" using s1 \<open>p \<noteq> r\<close> by simp
  have new: "objs s r = None" using r \<open>p \<noteq> r\<close> by simp
  show ?case
  proof (cases "hstatus e = SUCCESS")
    case True
    with rest reset s2 have run: "run_handlers hs r ?s2 = Ok (q, s')" by (simp add: getObj_def)
    have "pstate_inv ?s2" using inv1 by (auto simp: pstate_inv_def)
    moreover have "\<forall>h \<in> set hs. owning_handler h" using Cons.prems(1) by simp
    ultimately obtain e' where s': "objs s' = ((objs ?s2)(r := None))(q \<mapsto> e')"
      and q: "q = r \<or> objs ?s2 q = None" using Cons.IH [OF _ _ s2 run] by blast
    have "objs s' = ((objs s)(p := None))(q \<mapsto> e')"
      using s' s1 new \<open>p \<noteq> r\<close> by (auto simp: fun_eq_iff)
    moreover have "q = p \<or> objs s q = None"
      using q new s1 by (auto split: if_splits)
    ultimately show ?thesis by blast
  next
    case False
    with rest reset s2 have "q = r" "s' = ?s2" by (simp_all add: getObj_def)
    with s1 new \<open>p \<noteq> r\<close> show ?thesis by (auto simp: fun_eq_iff)
  qed
qed

lemma pipeline_no_leak:
  assumes "pstate_inv s" and "\<forall>h \<in> set hs. owning_handler h" and "pipeline_process hs s = Ok s'"
  shows "objs s' = objs s"
proof -
  let ?d = "\<lparr>hstatus = SUCCESS, hpayload = BufferData (readableBytes (pbuf s))\<rparr>"
  let ?s1 = "s\<lparr>objs := (objs s)(nextPtr s \<mapsto> ?d), nextPtr := Suc (nextPtr s)\<rparr>"
  have new: "objs s (nextPtr s) = None" using assms(1) unfolding pstate_inv_def by blast
  have inv1: "pstate_inv ?s1" using assms(1) by (auto simp: pstate_inv_def less_Suc_eq)
  from assms(3) obtain q s2 where run: "run_handlers hs (nextPtr s) ?s1 = Ok (q, s2)"
    and del: "deleteObj q s2 = Ok s'" by (auto simp: pipeline_process_def)
  have "objs ?s1 (nextPtr s) = Some ?d" by simp
  from run_handlers_no_leak [OF assms(2) inv1 this run] obtain e where
    e: "objs s2 = ((objs ?s1)(nextPtr s := None))(q \<mapsto> e)" "q = nextPtr s \<or> objs ?s1 q = None" by blast
  with new del show ?thesis
    by (auto simp: deleteObj_def getObj_def fun_eq_iff)
qed

lemma unpack_owning: "owning_handler unpack_process"
  unfolding owning_handler_def
proof (intro allI impI)
  fix p s q s'
  assume inv: "pstate_inv s" and p: "objs s p \<noteq> None" and run: "unpack_process p s = Ok (q, s')"
  then obtain d where d: "objs s p = Some d" by blast
  with run obtain n where n: "hpayload d = BufferData n"
    by (cases "hpayload d") (simp_all add: unpack_process_def getObj_def)
  have b: "buf_inv (pbuf s)" using inv by (simp add: pstate_inv_def)
  show "pstate_inv s' \<and> (q = p \<or> objs s q = None) \<and> (\<exists>d. objs s' = (objs s)(q \<mapsto> d))"
  proof (cases "complete (content (pbuf s))")
    case True
    from unpack_package_spec [OF b True refl, of p] obtain v b' where
      "unpack_package (networkToHost32 (of_mem (take 4 (content (pbuf s))))) p s = Ok (nextPtr s,
        s\<lparr>objs := (objs s)(nextPtr s \<mapsto> \<lparr>hstatus = SUCCESS, hpayload = BitsData v\<rparr>),
          nextPtr := Suc (nextPtr s), pbuf := b'\<rparr>)" and "buf_inv b'" by blast
    moreover have "objs s (nextPtr s) = None" using inv unfolding pstate_inv_def by blast
    ultimately show ?thesis
      using unpack_process_eq [OF b d n] True run inv by (auto simp: pstate_inv_def less_Suc_eq)
  next
    case False
    with unpack_process_eq [OF b d n] run d
    have "q = p" and "s' = s\<lparr>objs := (objs s)(p \<mapsto> d\<lparr>hstatus := FAILED\<rparr>)\<rparr>"
      by (auto simp: unpack_fail_def setStatus_def getObj_def)
    with inv d show ?thesis by (auto simp: pstate_inv_def)
  qed
qed

section \<open>Properties\<close>

text \<open>
  On every input that does not hold a complete package (no header, a header with a length
  that is not positive, or a package not yet arrived in full) a pipeline whose first stage is
  \<open>UnpackHandler\<close> uses an object after it was deleted: the failing handler returns its own
  argument, and \<open>holder.reset\<close> deletes it while it keeps the pointer.
\<close>

theorem pipeline_incomplete_use_after_free:
  assumes "buf_inv (pbuf s)" and "\<not> complete (content (pbuf s))"
  shows "pipeline_process (addFirst unpack_process hs) s = Fail UseAfterFree"
proof -
  let ?d = "\<lparr>hstatus = SUCCESS, hpayload = BufferData (readableBytes (pbuf s))\<rparr>"
  let ?p = "nextPtr s"
  let ?s1 = "s\<lparr>objs := (objs s)(?p \<mapsto> ?d), nextPtr := Suc ?p\<rparr>"
  let ?s2 = "?s1\<lparr>objs := (objs ?s1)(?p \<mapsto> ?d\<lparr>hstatus := FAILED\<rparr>)\<rparr>"
  have "unpack_process ?p ?s1 = Ok (?p, ?s2)"
    using unpack_process_eq [of ?s1 ?p ?d] assms by (simp add: unpack_fail_def setStatus_def getObj_def)
  then show ?thesis
    by (simp add: pipeline_process_def addFirst_Cons reset_holder_def deleteObj_def getObj_def)
qed

definition demo_pstate :: pstate where
  "demo_pstate = \<lparr>objs = Map.empty, nextPtr = 1, pbuf = demo_buffer\<rparr>"

lemma pipeline_incomplete_use_after_free_witness:
  "pipeline_process [unpack_process] demo_pstate = Fail UseAfterFree"
  using pipeline_incomplete_use_after_free [of demo_pstate "[]"]
  by (simp add: demo_pstate_def demo_buffer_facts complete_def addFirst_Cons)

text \<open>
  On a complete package \<open>UnpackHandler\<close> implements the packet format: it returns a new
  object with status \<open>SUCCESS\<close> that views exactly the package, and takes the header and the
  package, and nothing else, out of the buffer.
\<close>

theorem unpack_delivers_package:
  assumes "buf_inv (pbuf s)" and "complete (content (pbuf s))"
    and "objs s p = Some d" and "hpayload d = BufferData n"
  shows "\<exists>v s'. unpack_process p s = Ok (nextPtr s, s')
      \<and> objs s' = (objs s)(nextPtr s \<mapsto> \<lparr>hstatus = SUCCESS, hpayload = BitsData v\<rparr>)
      \<and> ns_toString (vec (pbuf s')) v = Ok (package_of (content (pbuf s)))
      \<and> buf_inv (pbuf s') \<and> content (pbuf s') = rest_of (content (pbuf s))"
  using unpack_package_spec [OF assms(1,2) refl, of p] unpack_process_eq [OF assms(1,3,4)] assms(2)
  by auto

definition packet_buffer :: buffer where
  "packet_buffer = \<lparr>vec = [0, 0, 0, 2] @ replicate 28 0 @ [10, 11, 12],
                    readerIndex = 0, writerIndex = 35\<rparr>"

definition packet_pstate :: pstate where
  "packet_pstate = \<lparr>objs = [1 \<mapsto> \<lparr>hstatus = SUCCESS, hpayload = BufferData 35\<rparr>],
                    nextPtr = 2, pbuf = packet_buffer\<rparr>"

lemma packet_size: "header_size ([0, 0, 0, 2] @ bs) = 2"
proof -
  have "be_bytes (2 :: 32 word) = [0, 0, 0, 2]"
    by (simp add: be_bytes_def mem_bytes_def upt_rec)
  then have "networkToHost32 (of_mem [0, 0, 0, 2]) = 2"
    using ntoh_of_mem_be(2) [of 2] by simp
  then show ?thesis by (simp add: header_size_def)
qed

lemma unpack_delivers_package_witness:
  "\<exists>v s'. unpack_process 1 packet_pstate = Ok (2, s')
      \<and> ns_toString (vec (pbuf s')) v = Ok [10, 11] \<and> content (pbuf s') = [12]"
proof -
  let ?c = "[0, 0, 0, 2] @ replicate 28 0 @ [10, 11, 12]"
  have c: "content packet_buffer = ?c" and inv: "buf_inv packet_buffer"
    by (simp_all add: packet_buffer_def content_def buf_inv_def max_size_def)
  have "complete ?c" and "package_of ?c = [10, 11]" and "rest_of ?c = [12]"
    unfolding complete_def package_of_def rest_of_def packet_size
    by (simp_all add: numeral_eq_Suc)
  with unpack_delivers_package [of packet_pstate 1 "\<lparr>hstatus = SUCCESS, hpayload = BufferData 35\<rparr>" 35]
    c inv show ?thesis by (auto simp: packet_pstate_def)
qed

text \<open>
  Whatever the stages, as long as each of them returns its own argument or a newly
  allocated object and keeps the others: when a pipeline returns, it has freed exactly what
  was allocated while it ran.
\<close>

theorem pipeline_frees_what_it_allocates:
  assumes "pstate_inv s" and "\<forall>h \<in> set hs. owning_handler h" and "pipeline_process hs s = Ok s'"
  shows "objs s' = objs s"
  using assms by (rule pipeline_no_leak)

lemma pipeline_frees_what_it_allocates_witness:
  "\<exists>s'. pipeline_process [unpack_process] (packet_pstate\<lparr>objs := Map.empty\<rparr>) = Ok s'
      \<and> objs s' = Map.empty"
proof -
  let ?s = "packet_pstate\<lparr>objs := Map.empty\<rparr>"
  let ?d = "\<lparr>hstatus = SUCCESS, hpayload = BufferData (readableBytes (pbuf ?s))\<rparr>"
  let ?s1 = "?s\<lparr>objs := [2 \<mapsto> ?d], nextPtr := 3\<rparr>"
  let ?c = "[0, 0, 0, 2] @ replicate 28 0 @ [10, 11, 12]"
  have c: "content packet_buffer = ?c" and inv: "buf_inv packet_buffer"
    by (simp_all add: packet_buffer_def content_def buf_inv_def max_size_def)
  have "complete ?c" unfolding complete_def packet_size by (simp add: numeral_eq_Suc)
  then have full: "complete (content (pbuf ?s1))" and b: "buf_inv (pbuf ?s1)"
    using c inv by (simp_all add: packet_pstate_def)
  from unpack_package_spec [OF b full refl, of 2] unpack_process_eq [OF b, of 2 ?d] full
  obtain v b' where "unpack_process 2 ?s1 = Ok (3, ?s1\<lparr>objs := [2 \<mapsto> ?d,
      3 \<mapsto> \<lparr>hstatus = SUCCESS, hpayload = BitsData v\<rparr>], nextPtr := 4, pbuf := b'\<rparr>)" by auto
  then have "\<exists>s'. pipeline_process [unpack_process] ?s = Ok s'"
    by (simp add: pipeline_process_def packet_pstate_def reset_holder_def deleteObj_def getObj_def)
  then obtain s' where run: "pipeline_process [unpack_process] ?s = Ok s'" by blast
  have "pstate_inv ?s" using inv by (simp add: pstate_inv_def packet_pstate_def)
  from pipeline_frees_what_it_allocates [OF this _ run] run unpack_owning show ?thesis by simp
qed

end
