(* ===== verification/HeapArray.thy ===== *)
theory HeapArray
  imports Prelude "HOL-Library.Multiset"
begin

text \<open>
  Binary heaps in an array whose first element is at index 1, as \<open>net/TimerQueue.cpp\<close> keeps
  them: the two repair loops as functions on lists over an arbitrary key, and what they
  establish. Index 0 holds a dummy. The timer queue's own loops are shown to compute these
  functions in theory \<open>TimerQueue\<close>.
\<close>

definition swap :: "nat \<Rightarrow> nat \<Rightarrow> 'a list \<Rightarrow> 'a list" where
  "swap a b xs = xs[a := xs ! b, b := xs ! a]"

lemma length_swap [simp]: "length (swap a b xs) = length xs"
  by (simp add: swap_def)

lemma nth_swap:
  assumes "a < length xs" and "b < length xs" and "i < length xs"
  shows "swap a b xs ! i = (if i = b then xs ! a else if i = a then xs ! b else xs ! i)"
  using assms by (simp add: swap_def nth_list_update)

lemma tl_swap:
  assumes "0 < a" and "0 < b"
  shows "tl (swap a b xs) = swap (a - 1) (b - 1) (tl xs)"
  using assms by (cases xs; cases a; cases b) (auto simp: swap_def)

lemma mset_tl_swap [simp]:
  assumes "0 < a" and "0 < b" and "a < length xs" and "b < length xs"
  shows "mset (tl (swap a b xs)) = mset (tl xs)"
  using assms by (simp add: tl_swap) (simp add: swap_def mset_swap less_diff_conv2)

function sift_up :: "('a \<Rightarrow> 'k::linorder) \<Rightarrow> 'a list \<Rightarrow> nat \<Rightarrow> 'a list" where
  "sift_up key xs pos =
     (if 1 < pos \<and> key (xs ! pos) < key (xs ! (pos div 2))
      then sift_up key (swap pos (pos div 2) xs) (pos div 2) else xs)"
  by pat_completeness auto
termination
  by (relation "measure (\<lambda>(key, xs, pos). pos)") auto

definition sift_target :: "('a \<Rightarrow> 'k::linorder) \<Rightarrow> 'a list \<Rightarrow> nat \<Rightarrow> nat" where
  "sift_target key xs pos =
     (let left = 2 * pos; right = 2 * pos + 1;
          t1 = (if key (xs ! left) < key (xs ! pos) then left else pos)
      in if right < length xs \<and> key (xs ! right) < key (xs ! t1) then right else t1)"

lemma sift_target_cases:
  "sift_target key xs pos \<in> {pos, 2 * pos, 2 * pos + 1}"
  by (simp add: sift_target_def Let_def)

lemma sift_target_bound:
  "2 * pos < length xs \<Longrightarrow> sift_target key xs pos < length xs"
  by (auto simp: sift_target_def Let_def)

function sift_down :: "('a \<Rightarrow> 'k::linorder) \<Rightarrow> 'a list \<Rightarrow> nat \<Rightarrow> 'a list" where
  "sift_down key xs pos =
     (if length xs \<le> 2 * pos then xs
      else if sift_target key xs pos = pos then xs
      else sift_down key (swap pos (sift_target key xs pos) xs) (sift_target key xs pos))"
  by pat_completeness auto
termination
proof (relation "measure (\<lambda>(key, xs, pos). length xs - pos)", goal_cases)
  case 1
  then show ?case by simp
next
  case (2 key xs pos)
  then have "sift_target key xs pos < length xs" by (intro sift_target_bound) simp
  moreover have "pos < sift_target key xs pos"
    using sift_target_cases [of key xs pos] 2 by auto
  ultimately show ?case by simp
qed

declare sift_up.simps [simp del] sift_down.simps [simp del]

section \<open>The heap order and its two defects\<close>

definition ordered :: "('a \<Rightarrow> 'k::linorder) \<Rightarrow> 'a list \<Rightarrow> bool" where
  "ordered key xs \<longleftrightarrow> (\<forall>i. 2 \<le> i \<and> i < length xs \<longrightarrow> key (xs ! (i div 2)) \<le> key (xs ! i))"

definition ordered_but_up :: "('a \<Rightarrow> 'k::linorder) \<Rightarrow> 'a list \<Rightarrow> nat \<Rightarrow> bool" where
  "ordered_but_up key xs p \<longleftrightarrow> (\<forall>i. 2 \<le> i \<and> i < length xs \<longrightarrow>
     (i \<noteq> p \<longrightarrow> key (xs ! (i div 2)) \<le> key (xs ! i)) \<and>
     (i div 2 = p \<and> 2 \<le> p \<longrightarrow> key (xs ! (p div 2)) \<le> key (xs ! i)))"

definition ordered_but_down :: "('a \<Rightarrow> 'k::linorder) \<Rightarrow> 'a list \<Rightarrow> nat \<Rightarrow> bool" where
  "ordered_but_down key xs p \<longleftrightarrow> (\<forall>i. 2 \<le> i \<and> i < length xs \<longrightarrow>
     (i div 2 \<noteq> p \<longrightarrow> key (xs ! (i div 2)) \<le> key (xs ! i)) \<and>
     (i div 2 = p \<and> 2 \<le> p \<longrightarrow> key (xs ! (p div 2)) \<le> key (xs ! i)))"

lemma orderedD: "ordered key xs \<Longrightarrow> 2 \<le> i \<Longrightarrow> i < length xs \<Longrightarrow> key (xs ! (i div 2)) \<le> key (xs ! i)"
  by (simp add: ordered_def)

lemma ordered_root_min:
  assumes "ordered key xs" and "1 \<le> i" and "i < length xs"
  shows "key (xs ! 1) \<le> key (xs ! i)"
  using assms(2,3)
proof (induction i rule: less_induct)
  case (less i)
  show ?case
  proof (cases "i = 1")
    case False
    with less.prems have i: "2 \<le> i" "i div 2 < i" "1 \<le> i div 2" "i div 2 < length xs" by auto
    then have "key (xs ! 1) \<le> key (xs ! (i div 2))" using less.IH by blast
    also have "\<dots> \<le> key (xs ! i)" using assms(1) i(1) less.prems(2) by (rule orderedD)
    finally show ?thesis .
  qed simp
qed

section \<open>The repair loops\<close>

lemma length_sift_up [simp]: "length (sift_up key xs pos) = length xs"
proof (induction key xs pos rule: sift_up.induct)
  case (1 key xs pos)
  then show ?case by (subst sift_up.simps) auto
qed

lemma length_sift_down [simp]: "length (sift_down key xs pos) = length xs"
proof (induction key xs pos rule: sift_down.induct)
  case (1 key xs pos)
  then show ?case by (subst sift_down.simps) auto
qed

lemma mset_sift_up:
  assumes "pos < length xs"
  shows "mset (tl (sift_up key xs pos)) = mset (tl xs)"
  using assms
proof (induction key xs pos rule: sift_up.induct)
  case (1 key xs pos)
  show ?case
  proof (cases "1 < pos \<and> key (xs ! pos) < key (xs ! (pos div 2))")
    case True
    with 1 have "mset (tl (sift_up key (swap pos (pos div 2) xs) (pos div 2)))
        = mset (tl (swap pos (pos div 2) xs))" by simp
    with True 1(2) show ?thesis by (subst sift_up.simps) simp
  next
    case False
    then show ?thesis by (subst sift_up.simps) auto
  qed
qed

lemma mset_sift_down:
  assumes "0 < pos"
  shows "mset (tl (sift_down key xs pos)) = mset (tl xs)"
  using assms
proof (induction key xs pos rule: sift_down.induct)
  case (1 key xs pos)
  let ?t = "sift_target key xs pos"
  show ?case
  proof (cases "2 * pos < length xs \<and> ?t \<noteq> pos")
    case True
    then have t: "?t < length xs" "0 < ?t" "pos < length xs"
      using sift_target_bound [of pos xs key] sift_target_cases [of key xs pos] 1(2) by auto
    with True 1 have "mset (tl (sift_down key (swap pos ?t xs) ?t)) = mset (tl (swap pos ?t xs))"
      by simp
    with True t 1(2) show ?thesis by (subst sift_down.simps) simp
  next
    case False
    then show ?thesis by (subst sift_down.simps) auto
  qed
qed

lemma nth0_sift_up [simp]: "sift_up key xs pos ! 0 = xs ! 0"
proof (induction key xs pos rule: sift_up.induct)
  case (1 key xs pos)
  then show ?case by (subst sift_up.simps) (auto simp: swap_def nth_list_update)
qed

lemma up_step:
  assumes inv: "ordered_but_up key xs p" and p: "1 < p" "p < length xs"
    and less: "key (xs ! p) < key (xs ! (p div 2))"
  shows "ordered_but_up key (swap p (p div 2) xs) (p div 2)"
  unfolding ordered_but_up_def
proof (intro allI impI)
  let ?q = "p div 2" and ?ys = "swap p (p div 2) xs"
  have q: "?q < p" "1 \<le> ?q" "?q < length xs" "?q \<noteq> p" using p by auto
  fix i
  assume i: "2 \<le> i \<and> i < length ?ys"
  then have i': "2 \<le> i" "i < length xs" "i div 2 < length xs" "i div 2 \<noteq> i" by auto
  note nth = nth_swap [OF p(2) q(3)]
  have keep: "i \<noteq> p \<Longrightarrow> key (xs ! (i div 2)) \<le> key (xs ! i)"
    and grand: "i div 2 = p \<Longrightarrow> key (xs ! ?q) \<le> key (xs ! i)"
    using inv i' p unfolding ordered_but_up_def by auto
  have "i \<noteq> ?q \<Longrightarrow> key (?ys ! (i div 2)) \<le> key (?ys ! i)"
  proof -
    assume iq: "i \<noteq> ?q"
    consider "i = p" | "i \<noteq> p" "i div 2 = p" | "i \<noteq> p" "i div 2 = ?q"
      | "i \<noteq> p" "i div 2 \<noteq> p" "i div 2 \<noteq> ?q" by blast
    then show "key (?ys ! (i div 2)) \<le> key (?ys ! i)"
      using keep grand less iq i' q by cases (auto simp: nth)
  qed
  moreover have "key (?ys ! (?q div 2)) \<le> key (?ys ! i)" if "i div 2 = ?q" "2 \<le> ?q"
  proof -
    have top: "key (xs ! (?q div 2)) \<le> key (xs ! ?q)"
      using inv that q unfolding ordered_but_up_def by auto
    have "?q div 2 < length xs" "?q div 2 \<noteq> p" "?q div 2 \<noteq> ?q" using q that by auto
    moreover have "i \<noteq> ?q" using that i' by auto
    ultimately show ?thesis
      using top keep that i' q by (cases "i = p") (auto simp: nth)
  qed
  ultimately show "(i \<noteq> ?q \<longrightarrow> key (?ys ! (i div 2)) \<le> key (?ys ! i)) \<and>
      (i div 2 = ?q \<and> 2 \<le> ?q \<longrightarrow> key (?ys ! (?q div 2)) \<le> key (?ys ! i))" by blast
qed

lemma sift_up_ordered:
  assumes "ordered_but_up key xs pos" and "1 \<le> pos" and "pos < length xs"
  shows "ordered key (sift_up key xs pos)"
  using assms
proof (induction key xs pos rule: sift_up.induct)
  case (1 key xs pos)
  show ?case
  proof (cases "1 < pos \<and> key (xs ! pos) < key (xs ! (pos div 2))")
    case True
    then have "1 \<le> pos div 2" and "pos div 2 < length xs" using 1(4) by auto
    with True up_step [of key xs pos] 1 have
      "ordered key (sift_up key (swap pos (pos div 2) xs) (pos div 2))" by simp
    with True show ?thesis by (subst sift_up.simps) simp
  next
    case False
    with 1(2) have "ordered key xs" unfolding ordered_def ordered_but_up_def by force
    with False show ?thesis by (subst sift_up.simps) auto
  qed
qed

lemma target_le:
  assumes "2 * p < length xs"
  shows "key (xs ! sift_target key xs p) \<le> key (xs ! p)"
    and "key (xs ! sift_target key xs p) \<le> key (xs ! (2 * p))"
    and "2 * p + 1 < length xs \<Longrightarrow> key (xs ! sift_target key xs p) \<le> key (xs ! (2 * p + 1))"
  using assms by (auto simp: sift_target_def Let_def not_less)

lemma down_step:
  assumes inv: "ordered_but_down key xs p" and p: "1 \<le> p" "2 * p < length xs"
    and t: "t = sift_target key xs p" "t \<noteq> p"
  shows "ordered_but_down key (swap p t xs) t"
  unfolding ordered_but_down_def
proof (intro allI impI)
  let ?ys = "swap p t xs"
  have child: "t div 2 = p" "2 \<le> t" "t < length xs" "p < length xs" "p < t"
    using sift_target_cases [of key xs p] sift_target_bound [OF p(2), of key] t p by auto
  fix i
  assume i: "2 \<le> i \<and> i < length ?ys"
  then have i': "2 \<le> i" "i < length xs" "i div 2 < length xs" "i div 2 \<noteq> i" by auto
  note nth = nth_swap [OF child(4,3)]
  have keep: "i div 2 \<noteq> p \<Longrightarrow> key (xs ! (i div 2)) \<le> key (xs ! i)"
    using inv i' unfolding ordered_but_down_def by auto
  have least: "i div 2 = p \<Longrightarrow> key (xs ! t) \<le> key (xs ! i)" and top: "key (xs ! t) \<le> key (xs ! p)"
  proof -
    show "key (xs ! t) \<le> key (xs ! p)" using target_le(1) [OF p(2)] t(1) by simp
    assume "i div 2 = p"
    then have "i = 2 * p \<or> i = 2 * p + 1" by auto
    with target_le(2,3) [OF p(2), of key] t(1) i'(2) show "key (xs ! t) \<le> key (xs ! i)" by auto
  qed
  have "key (?ys ! (i div 2)) \<le> key (?ys ! i)" if "i div 2 \<noteq> t"
  proof (cases "i = p")
    case True
    then have "2 \<le> p" "p div 2 \<noteq> p" "p div 2 \<noteq> t" using i' child by auto
    moreover have "key (xs ! (p div 2)) \<le> key (xs ! t)"
      using inv child \<open>2 \<le> p\<close> unfolding ordered_but_down_def by auto
    ultimately show ?thesis using True i' child by (auto simp: nth)
  next
    case False
    with that keep least top i' child show ?thesis
      by (cases "i div 2 = p") (auto simp: nth)
  qed
  moreover have "key (?ys ! (t div 2)) \<le> key (?ys ! i)" if "i div 2 = t"
    using that keep i' child by (auto simp: nth)
  ultimately show "(i div 2 \<noteq> t \<longrightarrow> key (?ys ! (i div 2)) \<le> key (?ys ! i)) \<and>
      (i div 2 = t \<and> 2 \<le> t \<longrightarrow> key (?ys ! (t div 2)) \<le> key (?ys ! i))" by blast
qed

lemma sift_down_ordered:
  assumes "ordered_but_down key xs pos" and "1 \<le> pos"
  shows "ordered key (sift_down key xs pos)"
  using assms
proof (induction key xs pos rule: sift_down.induct)
  case (1 key xs pos)
  let ?t = "sift_target key xs pos"
  show ?case
  proof (cases "2 * pos < length xs \<and> ?t \<noteq> pos")
    case True
    with down_step [of key xs pos ?t] 1 sift_target_cases [of key xs pos]
    have "ordered key (sift_down key (swap pos ?t xs) ?t)" by auto
    with True show ?thesis by (subst sift_down.simps) simp
  next
    case False
    have "key (xs ! (i div 2)) \<le> key (xs ! i)" if i: "2 \<le> i" "i < length xs" for i
    proof (cases "i div 2 = pos")
      case True
      then have "i = 2 * pos \<or> i = 2 * pos + 1" by auto
      with i False target_le(2,3) [of pos xs key] True show ?thesis by auto
    next
      case neq: False
      with 1(2) i show ?thesis unfolding ordered_but_down_def by auto
    qed
    with False show ?thesis by (subst sift_down.simps) (auto simp: ordered_def)
  qed
qed

section \<open>Insertion, removal of the root, removal of a position\<close>

lemma insert_ordered:
  assumes "ordered key xs" and "xs \<noteq> []"
  shows "ordered key (sift_up key (xs @ [x]) (length xs))"
proof (rule sift_up_ordered)
  show "ordered_but_up key (xs @ [x]) (length xs)"
    using assms by (auto simp: ordered_def ordered_but_up_def nth_append)
qed (use assms in \<open>simp_all add: Suc_le_eq\<close>)

definition without :: "nat \<Rightarrow> 'a list \<Rightarrow> 'a list" where
  "without pos xs = butlast (swap pos (length xs - 1) xs)"

lemma length_without [simp]: "length (without pos xs) = length xs - 1"
  by (simp add: without_def)

lemma nth_without:
  assumes "pos < length xs" and "i < length xs - 1"
  shows "without pos xs ! i = (if i = pos then xs ! (length xs - 1) else xs ! i)"
  using assms by (simp add: without_def nth_butlast nth_swap)

lemma mset_without:
  assumes "0 < pos" and "pos < length xs"
  shows "mset (tl (without pos xs)) + {#xs ! pos#} = mset (tl xs)"
proof -
  let ?ys = "swap pos (length xs - 1) xs"
  have ne: "?ys \<noteq> []" "tl ?ys \<noteq> []" using assms by (auto simp: tl_Nil length_Suc_conv dest!: arg_cong [where f = length])
  have "mset (tl ?ys) = mset (butlast (tl ?ys) @ [last (tl ?ys)])" using ne(2) by simp
  also have "butlast (tl ?ys) = tl (without pos xs)" by (simp add: without_def butlast_tl)
  also have "last (tl ?ys) = xs ! pos"
    using ne(1) assms last_tl [OF disjI2 [OF ne(2)]] by (simp add: last_conv_nth nth_swap)
  finally show ?thesis using assms by simp
qed

lemma remove_root_ordered:
  assumes "ordered key xs"
  shows "ordered key (sift_down key (without 1 xs) 1)"
proof (rule sift_down_ordered)
  show "ordered_but_down key (without 1 xs) 1"
    unfolding ordered_but_down_def
  proof (intro allI impI)
    fix i
    assume i: "2 \<le> i \<and> i < length (without 1 xs)"
    then have "1 < length xs" by auto
    with i assms show "(i div 2 \<noteq> 1 \<longrightarrow> key (without 1 xs ! (i div 2)) \<le> key (without 1 xs ! i)) \<and>
        (i div 2 = 1 \<and> 2 \<le> (1::nat) \<longrightarrow> key (without 1 xs ! (1 div 2)) \<le> key (without 1 xs ! i))"
      by (auto simp: nth_without orderedD)
  qed
qed simp

text \<open>
  Repairing downwards only is enough at an inner position exactly when the element moved
  there, the last one, is not smaller than the parent of the position.
\<close>

lemma remove_at_ordered:
  assumes ord: "ordered key xs" and pos: "1 \<le> pos" "pos < length xs"
    and last: "2 \<le> pos \<Longrightarrow> pos < length xs - 1 \<Longrightarrow> key (xs ! (pos div 2)) \<le> key (xs ! (length xs - 1))"
  shows "ordered key (sift_down key (without pos xs) pos)"
proof (rule sift_down_ordered [OF _ pos(1)])
  show "ordered_but_down key (without pos xs) pos"
    unfolding ordered_but_down_def
  proof (intro allI impI)
    fix i
    assume "2 \<le> i \<and> i < length (without pos xs)"
    then have i: "2 \<le> i" "i < length xs - 1" "i < length xs" "i div 2 < length xs - 1" "i div 2 \<noteq> i"
      by auto
    have "key (without pos xs ! (i div 2)) \<le> key (without pos xs ! i)" if "i div 2 \<noteq> pos"
      using that i pos last orderedD [OF ord i(1,3)] by (auto simp: nth_without)
    moreover have "key (without pos xs ! (pos div 2)) \<le> key (without pos xs ! i)"
      if "i div 2 = pos" "2 \<le> pos"
    proof -
      have "key (xs ! (pos div 2)) \<le> key (xs ! pos)" using ord that pos by (simp add: orderedD)
      also have "\<dots> \<le> key (xs ! i)" using orderedD [OF ord i(1,3)] that by simp
      finally show ?thesis using that i pos by (auto simp: nth_without)
    qed
    ultimately show "(i div 2 \<noteq> pos \<longrightarrow> key (without pos xs ! (i div 2)) \<le> key (without pos xs ! i)) \<and>
        (i div 2 = pos \<and> 2 \<le> pos \<longrightarrow> key (without pos xs ! (pos div 2)) \<le> key (without pos xs ! i))"
      by blast
  qed
qed

end
