(* ===== verification/TimerQueue.thy ===== *)
theory TimerQueue
  imports HeapArray
begin

text \<open>
  The timer queue of an event loop: \<open>net/fd/Timer.h\<close>, \<open>net/fd/Timer.cpp\<close>,
  \<open>net/TimerQueue.cpp\<close> and the loop \<open>EventLoop::runTimers\<close> that drives it. Timers are heap
  objects reached through pointers from two places, the array heap \<open>_heap\<close> (ordered by
  timestamp, index 0 unused) and the owning map \<open>_timers\<close> by descriptor, so the model keeps
  their memory explicitly: what each address holds and which addresses are allocated.
  Milliseconds are integers of any size (\<open>long\<close> in the code; the clock is far from its limit) and
  positions in the heap naturals (\<open>int\<close> in the code; an array of 2^31 pointers would be needed).
\<close>

section \<open>State\<close>

record timer =
  tmFd :: "32 word"
  repeated :: bool
  heapIndex :: nat
  interval :: int
  timestamp :: int
  callback :: nat

type_synonym ptr = nat

record tqueue =
  counter :: "32 word"
  heap :: "ptr list"
  timers :: "32 word \<Rightarrow> ptr option"
  mem :: "ptr \<Rightarrow> timer"
  alive :: "ptr \<Rightarrow> bool"

definition FirstItem :: nat where
  "FirstItem = 1"

definition StartFd :: "32 word" where
  "StartFd = - 12345"

text \<open>\<open>std::vector<Timer*>(1)\<close> holds one null pointer.\<close>

definition newTimerQueue :: "(ptr \<Rightarrow> timer) \<Rightarrow> tqueue" where
  "newTimerQueue m = \<lparr>counter = StartFd, heap = replicate FirstItem 0, timers = Map.empty,
     mem = m, alive = (\<lambda>_. False)\<rparr>"

text \<open>
  The constructor of \<open>Timer\<close> leaves \<open>_heapIndex\<close> as the memory has it. \<open>delay\<close> is the
  interval in milliseconds, the result of the conversion \<open>(long)(delay * 1000)\<close>.
\<close>

definition newTimer :: "32 word \<Rightarrow> int \<Rightarrow> int \<Rightarrow> nat \<Rightarrow> timer \<Rightarrow> timer" where
  "newTimer fd delay now cb raw = \<lparr>tmFd = fd, repeated = False, heapIndex = heapIndex raw,
     interval = delay, timestamp = now + delay, callback = cb\<rparr>"

text \<open>\<open>p\<close> is the address the allocator returns, \<open>now\<close> the reading of the clock.\<close>

definition createTimer :: "ptr \<Rightarrow> int \<Rightarrow> int \<Rightarrow> nat \<Rightarrow> bool \<Rightarrow> tqueue \<Rightarrow> ptr \<times> tqueue" where
  "createTimer p now delay cb rep q =
     (let c = counter q - 1;
          t = (newTimer c delay now cb (mem q p))\<lparr>repeated := rep\<rparr>
      in (p, q\<lparr>counter := c, mem := (mem q)(p := t), alive := (alive q)(p := True)\<rparr>))"

section \<open>The heap\<close>

definition setHeapIndex :: "ptr \<Rightarrow> nat \<Rightarrow> tqueue \<Rightarrow> tqueue" where
  "setHeapIndex p i q = q\<lparr>mem := (mem q)(p := (mem q p)\<lparr>heapIndex := i\<rparr>)\<rparr>"

definition ts_at :: "tqueue \<Rightarrow> nat \<Rightarrow> int" where
  "ts_at q i = timestamp (mem q (heap q ! i))"

definition heapSwap :: "nat \<Rightarrow> nat \<Rightarrow> tqueue \<Rightarrow> tqueue" where
  "heapSwap posA posB q =
     (let q1 = q\<lparr>heap := (heap q)[posA := heap q ! posB, posB := heap q ! posA]\<rparr>;
          q2 = setHeapIndex (heap q1 ! posA) posA q1
      in setHeapIndex (heap q2 ! posB) posB q2)"

lemma heap_heapSwap [simp]: "heap (heapSwap a b q) = swap a b (heap q)"
  by (simp add: heapSwap_def setHeapIndex_def swap_def Let_def)

function heapUp :: "nat \<Rightarrow> tqueue \<Rightarrow> tqueue" where
  "heapUp pos q =
     (if 1 < pos then
        let parent = pos div 2
        in if ts_at q pos < ts_at q parent then heapUp parent (heapSwap pos parent q) else q
      else q)"
  by pat_completeness auto
termination
  by (relation "measure fst") auto

definition heapTarget :: "nat \<Rightarrow> tqueue \<Rightarrow> nat" where
  "heapTarget pos q =
     (let left = 2 * pos; right = left + 1;
          target = (if ts_at q left < ts_at q pos then left else pos)
      in if right < length (heap q)
         then (if ts_at q right < ts_at q target then right else target)
         else target)"

lemma heapTarget_sift: "heapTarget pos q = sift_target (\<lambda>p. timestamp (mem q p)) (heap q) pos"
  by (simp add: heapTarget_def sift_target_def ts_at_def Let_def)

function heapDown :: "nat \<Rightarrow> tqueue \<Rightarrow> tqueue" where
  "heapDown pos q =
     (if length (heap q) \<le> 2 * pos then q
      else let target = heapTarget pos q
           in if pos \<noteq> target then heapDown target (heapSwap pos target q) else q)"
  by pat_completeness auto
termination
proof (relation "measure (\<lambda>(pos, q). length (heap q) - pos)", goal_cases)
  case 1
  then show ?case by simp
next
  case (2 pos q t)
  then have "t < length (heap q)" and "pos < t"
    using sift_target_bound [of pos "heap q"]
      sift_target_cases [of "\<lambda>p. timestamp (mem q p)" "heap q" pos]
    by (auto simp: heapTarget_sift)
  then show ?case by simp
qed

declare heapUp.simps [simp del] heapDown.simps [simp del]

definition heapInsert :: "ptr \<Rightarrow> tqueue \<Rightarrow> tqueue" where
  "heapInsert p q =
     (let index = length (heap q); q1 = q\<lparr>heap := heap q @ [p]\<rparr>
      in heapUp index (setHeapIndex p index q1))"

text \<open>\<open>None\<close> is the null pointer of an empty heap.\<close>

definition heapPop :: "tqueue \<Rightarrow> ptr option \<times> tqueue" where
  "heapPop q =
     (if length (heap q) \<le> FirstItem then (None, q)
      else let q1 = heapSwap FirstItem (length (heap q) - 1) q;
               p = last (heap q1);
               q2 = q1\<lparr>heap := butlast (heap q1)\<rparr>
           in (Some p, heapDown FirstItem q2))"

definition heapDelete :: "nat \<Rightarrow> tqueue \<Rightarrow> bool \<times> tqueue" where
  "heapDelete pos q =
     (if pos \<le> 0 \<or> length (heap q) \<le> pos then (False, q)
      else let q1 = heapSwap pos (length (heap q) - 1) q;
               q2 = q1\<lparr>heap := butlast (heap q1)\<rparr>
           in (True, heapDown pos q2))"

section \<open>Operations\<close>

text \<open>Resetting the owning pointer of an entry deletes the timer it held before.\<close>

definition addTimer :: "ptr \<Rightarrow> tqueue \<Rightarrow> tqueue" where
  "addTimer p q =
     (let q1 = heapInsert p q; fd = tmFd (mem q1 p);
          q2 = (case timers q1 fd of None \<Rightarrow> q1 | Some r \<Rightarrow> q1\<lparr>alive := (alive q1)(r := False)\<rparr>)
      in q2\<lparr>timers := (timers q2)(fd \<mapsto> p)\<rparr>)"

definition cancelTimer :: "32 word \<Rightarrow> tqueue \<Rightarrow> tqueue" where
  "cancelTimer fd q =
     (case timers q fd of
        None \<Rightarrow> q
      | Some p \<Rightarrow>
          let pos = heapIndex (mem q p); q1 = snd (heapDelete pos q)
          in q1\<lparr>timers := (timers q1)(fd := None), alive := (alive q1)(p := False)\<rparr>)"

definition checkTimers :: "int \<Rightarrow> tqueue \<Rightarrow> bool" where
  "checkTimers now q = (if length (heap q) \<le> FirstItem then False else ts_at q FirstItem < now)"

text \<open>
  \<open>run\<close> is what calling a callback does to the queue: callbacks are client code. The result
  is the timer that fired, as it was when its callback was called. The null pointer of an
  empty heap and a descriptor without an owner are dereferenced by the code.
\<close>

definition popTimer :: "(nat \<Rightarrow> tqueue \<Rightarrow> tqueue) \<Rightarrow> int \<Rightarrow> tqueue \<Rightarrow> (timer \<times> tqueue) res" where
  "popTimer run now q =
     (case heapPop q of
        (None, q1) \<Rightarrow> Fail NullDeref
      | (Some p, q1) \<Rightarrow>
          let t = mem q1 p
          in if \<not> repeated t then
               case timers q1 (tmFd t) of
                 None \<Rightarrow> Fail NullDeref
               | Some r \<Rightarrow>
                   let q2 = q1\<lparr>timers := (timers q1)(tmFd t := None)\<rparr>;
                       q3 = run (callback (mem q2 r)) q2
                   in Ok (t, q3\<lparr>alive := (alive q3)(r := False)\<rparr>)
             else
               let q2 = q1\<lparr>mem := (mem q1)(p := t\<lparr>timestamp := now + interval t\<rparr>)\<rparr>;
                   q3 = heapInsert p q2
               in Ok (t, run (callback (mem q3 p)) q3))"

text \<open>
  \<open>EventLoop::runTimers\<close>. \<open>clock k\<close> is what the \<open>k\<close>-th reading of the clock returns;
  \<open>checkTimers\<close> reads it when the heap is not empty, \<open>popTimer\<close> when the timer repeats. The
  result is the list of the timers fired; \<open>None\<close> says that the fuel did not suffice.
\<close>

fun runTimers ::
  "nat \<Rightarrow> (nat \<Rightarrow> int) \<Rightarrow> (nat \<Rightarrow> tqueue \<Rightarrow> tqueue) \<Rightarrow> nat \<Rightarrow> tqueue \<Rightarrow> (timer list \<times> tqueue) res option"
where
  "runTimers 0 clock run k q = None"
| "runTimers (Suc fuel) clock run k q =
     (if checkTimers (clock k) q then
        case popTimer run (clock (Suc k)) q of
          Inl e \<Rightarrow> Some (Fail e)
        | Inr (t, q1) \<Rightarrow>
            (case runTimers fuel clock run (if repeated t then k + 2 else k + 1) q1 of
               None \<Rightarrow> None
             | Some (Inl e) \<Rightarrow> Some (Fail e)
             | Some (Inr (ts, q2)) \<Rightarrow> Some (Ok (t # ts, q2)))
      else Some (Ok ([], q)))"

section \<open>The loops compute the array algorithms\<close>

abbreviation deadline :: "tqueue \<Rightarrow> ptr \<Rightarrow> int" where
  "deadline q \<equiv> \<lambda>p. timestamp (mem q p)"

text \<open>Everything but the heap and the indices stored in the timers is as before.\<close>

definition same_timers :: "tqueue \<Rightarrow> tqueue \<Rightarrow> bool" where
  "same_timers q q' \<longleftrightarrow> counter q' = counter q \<and> timers q' = timers q \<and> alive q' = alive q \<and>
     (\<forall>p. mem q' p = (mem q p)\<lparr>heapIndex := heapIndex (mem q' p)\<rparr>)"

lemma same_timers_refl [simp]: "same_timers q q"
  by (simp add: same_timers_def)

lemma same_timers_trans [trans]: "same_timers q r \<Longrightarrow> same_timers r s \<Longrightarrow> same_timers q s"
  unfolding same_timers_def by (metis timer.surjective timer.update_convs(3))

lemma same_timersD:
  assumes "same_timers q q'"
  shows "timestamp (mem q' p) = timestamp (mem q p)" and "tmFd (mem q' p) = tmFd (mem q p)"
    and "repeated (mem q' p) = repeated (mem q p)" and "interval (mem q' p) = interval (mem q p)"
    and "callback (mem q' p) = callback (mem q p)"
    and "timers q' = timers q" and "alive q' = alive q" and "counter q' = counter q"
proof -
  have "mem q' p = (mem q p)\<lparr>heapIndex := heapIndex (mem q' p)\<rparr>"
    using assms unfolding same_timers_def by blast
  then have "timestamp (mem q' p) = timestamp ((mem q p)\<lparr>heapIndex := heapIndex (mem q' p)\<rparr>)"
    "tmFd (mem q' p) = tmFd ((mem q p)\<lparr>heapIndex := heapIndex (mem q' p)\<rparr>)"
    "repeated (mem q' p) = repeated ((mem q p)\<lparr>heapIndex := heapIndex (mem q' p)\<rparr>)"
    "interval (mem q' p) = interval ((mem q p)\<lparr>heapIndex := heapIndex (mem q' p)\<rparr>)"
    "callback (mem q' p) = callback ((mem q p)\<lparr>heapIndex := heapIndex (mem q' p)\<rparr>)" by metis+
  then show "timestamp (mem q' p) = timestamp (mem q p)" "tmFd (mem q' p) = tmFd (mem q p)"
    "repeated (mem q' p) = repeated (mem q p)" "interval (mem q' p) = interval (mem q p)"
    "callback (mem q' p) = callback (mem q p)" by simp_all
qed (use assms in \<open>simp_all add: same_timers_def\<close>)

lemma same_deadline: "same_timers q q' \<Longrightarrow> deadline q' = deadline q"
  by (rule ext) (rule same_timersD(1))

lemma same_setHeapIndex: "same_timers q (setHeapIndex p i q)"
  by (simp add: same_timers_def setHeapIndex_def)

lemma same_heap_update [simp]: "same_timers q (q\<lparr>heap := h\<rparr>)"
  by (simp add: same_timers_def)

lemma same_heapSwap: "same_timers q (heapSwap a b q)"
  unfolding heapSwap_def Let_def
  by (rule same_timers_trans [OF same_heap_update])
    (rule same_timers_trans [OF same_setHeapIndex same_setHeapIndex])

lemma heapUp_sim:
  "heap (heapUp pos q) = sift_up (deadline q) (heap q) pos \<and> same_timers q (heapUp pos q)"
proof (induction pos q rule: heapUp.induct)
  case (1 pos q)
  show ?case
  proof (cases "1 < pos \<and> ts_at q pos < ts_at q (pos div 2)")
    case True
    let ?q = "heapSwap pos (pos div 2) q"
    have "heap (heapUp (pos div 2) ?q) = sift_up (deadline q) (heap ?q) (pos div 2)"
      and "same_timers q (heapUp (pos div 2) ?q)"
      using 1 True same_timers_trans [OF same_heapSwap]
      by (auto simp: same_deadline [OF same_heapSwap, of pos "pos div 2" q])
    with True show ?thesis
      by (simp add: heapUp.simps [of pos q] sift_up.simps [of _ "heap q"] ts_at_def Let_def)
  next
    case False
    then show ?thesis
      by (auto simp: heapUp.simps [of pos q] sift_up.simps [of _ "heap q"] ts_at_def Let_def)
  qed
qed

lemma heapDown_sim:
  "heap (heapDown pos q) = sift_down (deadline q) (heap q) pos \<and> same_timers q (heapDown pos q)"
proof (induction pos q rule: heapDown.induct)
  case (1 pos q)
  let ?t = "heapTarget pos q"
  show ?case
  proof (cases "length (heap q) \<le> 2 * pos \<or> ?t = pos")
    case False
    let ?q = "heapSwap pos ?t q"
    have "heap (heapDown ?t ?q) = sift_down (deadline q) (heap ?q) ?t"
      and "same_timers q (heapDown ?t ?q)"
      using 1 False same_timers_trans [OF same_heapSwap]
      by (auto simp: same_deadline [OF same_heapSwap, of pos ?t q])
    with False show ?thesis
      by (simp add: heapDown.simps [of pos q] sift_down.simps [of _ "heap q" pos] heapTarget_sift
          Let_def)
  next
    case True
    then show ?thesis
      by (auto simp: heapDown.simps [of pos q] sift_down.simps [of _ "heap q" pos] heapTarget_sift
          Let_def)
  qed
qed

lemmas heap_heapUp = conjunct1 [OF heapUp_sim]
lemmas same_heapUp = conjunct2 [OF heapUp_sim]
lemmas heap_heapDown = conjunct1 [OF heapDown_sim]
lemmas same_heapDown = conjunct2 [OF heapDown_sim]

section \<open>The stored indices\<close>

definition index_ok :: "tqueue \<Rightarrow> bool" where
  "index_ok q \<longleftrightarrow> distinct (tl (heap q)) \<and>
     (\<forall>i. 1 \<le> i \<and> i < length (heap q) \<longrightarrow> heapIndex (mem q (heap q ! i)) = i)"

lemma tl_distinct_nth:
  assumes "distinct (tl xs)" and "1 \<le> i" and "i < length xs" and "1 \<le> j" and "j < length xs"
  shows "xs ! i = xs ! j \<longleftrightarrow> i = j"
  using assms by (cases xs; cases i; cases j) (auto simp: nth_eq_iff_index_eq)

lemma index_ok_heapSwap:
  assumes ok: "index_ok q" and a: "1 \<le> a" "a < length (heap q)" and b: "1 \<le> b" "b < length (heap q)"
  shows "index_ok (heapSwap a b q)"
proof -
  let ?q = "heapSwap a b q"
  have dist: "distinct (tl (heap q))" using ok by (simp add: index_ok_def)
  have "mset (tl (heap ?q)) = mset (tl (heap q))" using a b by simp
  then have "distinct (tl (heap ?q))" using dist mset_eq_imp_distinct_iff by blast
  moreover have "heapIndex (mem ?q (heap ?q ! i)) = i" if i: "1 \<le> i" "i < length (heap q)" for i
  proof -
    note nth = nth_swap [OF a(2) b(2)] and eq = tl_distinct_nth [OF dist]
    have m: "mem ?q p = (if p = heap q ! a then (mem q p)\<lparr>heapIndex := b\<rparr>
        else if p = heap q ! b then (mem q p)\<lparr>heapIndex := a\<rparr> else mem q p)" for p
      using a b by (simp add: heapSwap_def setHeapIndex_def Let_def nth_list_update)
    show ?thesis
      using i a b ok eq [OF i a] eq [OF i b] eq [OF a b]
      by (auto simp: nth m index_ok_def)
  qed
  ultimately show ?thesis by (simp add: index_ok_def)
qed

lemma index_ok_heapUp:
  assumes "index_ok q" and "pos < length (heap q)"
  shows "index_ok (heapUp pos q)"
  using assms
proof (induction pos q rule: heapUp.induct)
  case (1 pos q)
  show ?case
  proof (cases "1 < pos \<and> ts_at q pos < ts_at q (pos div 2)")
    case True
    then have half: "1 \<le> pos div 2" "pos div 2 < length (heap q)" using 1(3) by auto
    with 1 True index_ok_heapSwap [of q pos "pos div 2"]
    have "index_ok (heapUp (pos div 2) (heapSwap pos (pos div 2) q))" by simp
    with True show ?thesis by (subst heapUp.simps) (simp add: Let_def)
  next
    case False
    with 1(2) show ?thesis by (subst heapUp.simps) (auto simp: Let_def)
  qed
qed

lemma index_ok_heapDown:
  assumes "index_ok q" and "1 \<le> pos"
  shows "index_ok (heapDown pos q)"
  using assms
proof (induction pos q rule: heapDown.induct)
  case (1 pos q)
  let ?t = "heapTarget pos q"
  show ?case
  proof (cases "length (heap q) \<le> 2 * pos \<or> ?t = pos")
    case False
    then have t: "1 \<le> ?t" "?t < length (heap q)" "pos < length (heap q)"
      using 1(3) sift_target_bound [of pos "heap q"] sift_target_cases [of "deadline q" "heap q" pos]
      by (auto simp: heapTarget_sift)
    with 1 False index_ok_heapSwap [of q pos ?t]
    have "index_ok (heapDown ?t (heapSwap pos ?t q))" by simp
    with False show ?thesis by (subst heapDown.simps) (auto simp: Let_def)
  next
    case True
    with 1(2) show ?thesis by (subst heapDown.simps) (auto simp: Let_def)
  qed
qed

section \<open>Insertion and removal\<close>

abbreviation bag :: "tqueue \<Rightarrow> ptr multiset" where
  "bag q \<equiv> mset (tl (heap q))"

abbreviation queued :: "tqueue \<Rightarrow> ptr set" where
  "queued q \<equiv> set (tl (heap q))"

definition heap_ordered :: "tqueue \<Rightarrow> bool" where
  "heap_ordered q \<longleftrightarrow> ordered (deadline q) (heap q)"

lemma queued_bag: "p \<in> queued q \<longleftrightarrow> p \<in># bag q"
  by simp

lemma queued_nth: "p \<in> queued q \<longleftrightarrow> (\<exists>i. 1 \<le> i \<and> i < length (heap q) \<and> heap q ! i = p)"
proof (cases "heap q")
  case (Cons x xs)
  have "(\<exists>i<length xs. xs ! i = p) \<longleftrightarrow> (\<exists>i. 1 \<le> i \<and> i < length (x # xs) \<and> (x # xs) ! i = p)"
    by (rule iffI, metis One_nat_def Suc_less_eq Suc_le_mono le0 length_Cons nth_Cons_Suc)
      (metis One_nat_def Suc_le_D Suc_less_eq length_Cons nth_Cons_Suc)
  with Cons show ?thesis by (simp add: in_set_conv_nth)
qed simp

lemma heapInsert_spec:
  assumes ne: "heap q \<noteq> []" and ok: "index_ok q" and new: "p \<notin> queued q"
  defines "q' \<equiv> heapInsert p q"
  shows "bag q' = add_mset p (bag q)" and "index_ok q'" and "same_timers q q'"
    and "heap q' \<noteq> []" and "heap_ordered q \<Longrightarrow> heap_ordered q'"
proof -
  let ?n = "length (heap q)"
  let ?q1 = "setHeapIndex p ?n (q\<lparr>heap := heap q @ [p]\<rparr>)"
  have q': "q' = heapUp ?n ?q1" by (simp add: q'_def heapInsert_def Let_def)
  have h1: "heap ?q1 = heap q @ [p]" by (simp add: setHeapIndex_def)
  have same1: "same_timers q ?q1"
    by (rule same_timers_trans [OF same_heap_update same_setHeapIndex])
  then have "same_timers q (heapUp ?n ?q1)" using same_heapUp same_timers_trans by blast
  then show same: "same_timers q q'" by (simp add: q')
  have dl: "deadline ?q1 = deadline q" by (rule same_deadline [OF same1])
  have heap': "heap q' = sift_up (deadline q) (heap q @ [p]) ?n"
    unfolding q' heap_heapUp dl h1 ..
  have "mset (tl (heap q')) = mset (tl (heap q @ [p]))"
    unfolding heap' by (rule mset_sift_up) simp
  then show "bag q' = add_mset p (bag q)" using ne by simp
  have "heapIndex (mem ?q1 (heap ?q1 ! i)) = i" if "1 \<le> i" "i < length (heap ?q1)" for i
  proof (cases "i = ?n")
    case False
    with that h1 have i: "i < ?n" by simp
    then have "heap q ! i \<in> queued q" using that(1) by (auto simp: queued_nth)
    then have "heap q ! i \<noteq> p" using new by blast
    with i that ok h1 show ?thesis by (simp add: index_ok_def setHeapIndex_def nth_append)
  qed (simp add: setHeapIndex_def)
  moreover have "distinct (tl (heap ?q1))" using ne ok new h1 by (simp add: index_ok_def)
  ultimately have "index_ok ?q1" by (simp add: index_ok_def)
  then show "index_ok q'" unfolding q' by (rule index_ok_heapUp) (simp add: h1)
  have "length (heap q') = Suc ?n" using heap' by simp
  then show "heap q' \<noteq> []" by auto
  show "heap_ordered q'" if "heap_ordered q"
    using that ne unfolding heap_ordered_def heap' same_deadline [OF same] by (rule insert_ordered)
qed

definition removeAt :: "nat \<Rightarrow> tqueue \<Rightarrow> tqueue" where
  "removeAt pos q =
     (let q1 = heapSwap pos (length (heap q) - 1) q
      in heapDown pos (q1\<lparr>heap := butlast (heap q1)\<rparr>))"

lemma removeAt_spec:
  assumes ok: "index_ok q" and pos: "1 \<le> pos" "pos < length (heap q)"
  defines "q' \<equiv> removeAt pos q"
  shows "bag q = add_mset (heap q ! pos) (bag q')" and "index_ok q'" and "same_timers q q'"
    and "heap q' \<noteq> []"
    and "heap q' = sift_down (deadline q) (without pos (heap q)) pos"
proof -
  let ?n = "length (heap q) - 1"
  let ?q1 = "heapSwap pos ?n q"
  let ?q2 = "?q1\<lparr>heap := butlast (heap ?q1)\<rparr>"
  have n: "1 \<le> ?n" "?n < length (heap q)" using pos by auto
  have q': "q' = heapDown pos ?q2" by (simp add: q'_def removeAt_def Let_def)
  have same2: "same_timers q ?q2"
    using same_timers_trans [OF same_heapSwap same_heap_update] by blast
  then show same: "same_timers q q'" unfolding q' using same_heapDown same_timers_trans by blast
  have h2: "heap ?q2 = without pos (heap q)" by (simp add: without_def)
  show heap': "heap q' = sift_down (deadline q) (without pos (heap q)) pos"
    unfolding q' heap_heapDown h2 same_deadline [OF same2] ..
  have "bag q' = mset (tl (without pos (heap q)))"
    unfolding heap' using pos(1) by (intro mset_sift_down) simp
  then show "bag q = add_mset (heap q ! pos) (bag q')"
    using mset_without [of pos "heap q"] pos by simp
  have ok1: "index_ok ?q1" by (rule index_ok_heapSwap [OF ok pos n])
  then have "distinct (tl (heap ?q2))"
    unfolding index_ok_def by (simp add: distinct_butlast flip: butlast_tl)
  moreover have "\<forall>i. 1 \<le> i \<and> i < length (heap ?q2) \<longrightarrow> heapIndex (mem ?q2 (heap ?q2 ! i)) = i"
    using ok1 unfolding index_ok_def by (auto simp: nth_butlast)
  ultimately have "index_ok ?q2" by (simp add: index_ok_def)
  then show "index_ok q'" unfolding q' using pos(1) by (rule index_ok_heapDown)
  have "length (heap q') = ?n" using heap' by simp
  with n(1) show "heap q' \<noteq> []" by auto
qed

lemma heapPop_eq:
  assumes "1 < length (heap q)"
  shows "heapPop q = (Some (heap q ! 1), removeAt 1 q)"
proof -
  let ?n = "length (heap q) - 1"
  have "swap 1 ?n (heap q) \<noteq> []" using assms by (metis length_swap list.size(3) not_less_zero)
  then have "last (swap 1 ?n (heap q)) = heap q ! 1"
    using assms by (simp add: last_conv_nth nth_swap)
  with assms show ?thesis
    by (simp add: heapPop_def removeAt_def FirstItem_def Let_def)
qed

lemma heapDelete_eq:
  assumes "1 \<le> pos" and "pos < length (heap q)"
  shows "heapDelete pos q = (True, removeAt pos q)"
  using assms by (simp add: heapDelete_def removeAt_def Let_def)

lemma removeAt_root_ordered:
  assumes "index_ok q" and "1 < length (heap q)" and "heap_ordered q"
  shows "heap_ordered (removeAt 1 q)"
proof -
  note spec = removeAt_spec [OF assms(1) order_refl assms(2)]
  show ?thesis
    using assms(3) unfolding heap_ordered_def spec(5) same_deadline [OF spec(3)]
    by (rule remove_root_ordered)
qed

lemma removeAt_ordered:
  assumes "index_ok q" and "1 \<le> pos" and "pos < length (heap q)" and "heap_ordered q"
    and "2 \<le> pos \<Longrightarrow> pos < length (heap q) - 1 \<Longrightarrow>
      ts_at q (pos div 2) \<le> ts_at q (length (heap q) - 1)"
  shows "heap_ordered (removeAt pos q)"
proof -
  note spec = removeAt_spec [OF assms(1-3)]
  show ?thesis
    using assms(4) unfolding heap_ordered_def spec(5) same_deadline [OF spec(3)]
    by (rule remove_at_ordered) (use assms in \<open>simp_all add: ts_at_def\<close>)
qed

end
