(* ===== verification/DeadlineQueue.thy ===== *)
theory DeadlineQueue
  imports Prelude "HOL-Library.Multiset"
begin

text \<open>
  The contract between the event loop and its timer heap: a priority queue of items with a
  deadline. Taking an item out gives one with the smallest deadline, putting one in keeps the
  others. The heap of \<open>net/TimerQueue.cpp\<close> interprets the locale in theory \<open>TimerSpec\<close>.
\<close>

text \<open>Popping until nothing is left, or \<open>n\<close> items have come out.\<close>

primrec drain :: "('q \<Rightarrow> 'e option \<times> 'q) \<Rightarrow> nat \<Rightarrow> 'q \<Rightarrow> 'e list" where
  "drain pop 0 q = []"
| "drain pop (Suc n) q = (case pop q of (None, _) \<Rightarrow> [] | (Some e, q') \<Rightarrow> e # drain pop n q')"

locale deadline_queue =
  fixes inv :: "'q \<Rightarrow> bool"
    and items :: "'q \<Rightarrow> 'e multiset"
    and key :: "'e \<Rightarrow> int"
    and fresh :: "'e \<Rightarrow> 'q \<Rightarrow> bool"
    and put :: "'e \<Rightarrow> 'q \<Rightarrow> 'q"
    and pop :: "'q \<Rightarrow> 'e option \<times> 'q"
  assumes put: "inv q \<Longrightarrow> fresh e q \<Longrightarrow> inv (put e q) \<and> items (put e q) = add_mset e (items q)"
    and pop_empty: "inv q \<Longrightarrow> items q = {#} \<Longrightarrow> pop q = (None, q)"
    and pop_min: "inv q \<Longrightarrow> items q \<noteq> {#} \<Longrightarrow> \<exists>e q'. pop q = (Some e, q') \<and> inv q'
      \<and> items q = add_mset e (items q') \<and> (\<forall>x. x \<in># items q \<longrightarrow> key e \<le> key x)"
begin

lemma drain_all:
  assumes "inv q" and "size (items q) \<le> n"
  shows "sorted (map key (drain pop n q)) \<and> mset (drain pop n q) = items q"
  using assms
proof (induction n arbitrary: q)
  case (Suc n)
  show ?case
  proof (cases "items q = {#}")
    case True
    with Suc.prems pop_empty show ?thesis by simp
  next
    case False
    then obtain e q' where pop: "pop q = (Some e, q')" "inv q'" "items q = add_mset e (items q')"
      "\<forall>x. x \<in># items q \<longrightarrow> key e \<le> key x"
      using pop_min [OF Suc.prems(1)] by blast
    have IH: "sorted (map key (drain pop n q'))" "mset (drain pop n q') = items q'"
      using Suc.IH [OF pop(2)] Suc.prems(2) pop(3) by simp_all
    have "key e \<le> key x" if "x \<in> set (drain pop n q')" for x
    proof -
      have "x \<in># items q'" using that IH(2) by (metis set_mset_mset)
      then show ?thesis using pop(3,4) by simp
    qed
    then show ?thesis using pop(1,3) IH by simp
  qed
qed simp

text \<open>Items put into a queue come out with the others, in order.\<close>

lemma put_drain:
  assumes "inv q" and "fresh e q" and "size (items q) < n"
  shows "sorted (map key (drain pop n (put e q))) \<and> mset (drain pop n (put e q)) = add_mset e (items q)"
  using drain_all [of "put e q" n] put [OF assms(1,2)] assms(3) by simp

end

end
