(* ===== verification/TimerSpec.thy ===== *)
theory TimerSpec
  imports TimerQueue DeadlineQueue
begin

text \<open>
  The contract of the timer queue and its properties: the ownership invariant tying the heap
  to the owning map, the effect of every operation on it, the drain order, cancellation, and
  the loop \<open>EventLoop::runTimers\<close>.
\<close>

section \<open>The ownership invariant\<close>

text \<open>
  The heap and the owning map hold the same timers, each under its own descriptor, all
  allocated, and every timer stores its position in the heap.
\<close>

definition tq_inv :: "tqueue \<Rightarrow> bool" where
  "tq_inv q \<longleftrightarrow> heap q \<noteq> [] \<and> index_ok q \<and>
     (\<forall>p. p \<in> queued q \<longrightarrow> alive q p \<and> timers q (tmFd (mem q p)) = Some p) \<and>
     (\<forall>fd p. timers q fd = Some p \<longrightarrow> p \<in> queued q \<and> tmFd (mem q p) = fd)"

text \<open>The same with one timer \<open>p\<close> owned but out of the heap, as in the middle of a pop.\<close>

definition tq_inv_but :: "ptr \<Rightarrow> tqueue \<Rightarrow> bool" where
  "tq_inv_but p q \<longleftrightarrow> heap q \<noteq> [] \<and> index_ok q \<and> p \<notin> queued q \<and>
     (\<forall>r. r \<in> queued q \<or> r = p \<longrightarrow> alive q r \<and> timers q (tmFd (mem q r)) = Some r) \<and>
     (\<forall>fd r. timers q fd = Some r \<longrightarrow> (r \<in> queued q \<or> r = p) \<and> tmFd (mem q r) = fd)"

lemma index_ok_update [simp]:
  "index_ok (q\<lparr>timers := t\<rparr>) = index_ok q" "index_ok (q\<lparr>alive := a\<rparr>) = index_ok q"
  by (simp_all add: index_ok_def)

lemma ordered_cong:
  assumes "ordered k xs" and "\<And>x. x \<in> set (tl xs) \<Longrightarrow> k' x = k x"
  shows "ordered k' xs"
proof -
  have "k' (xs ! i) = k (xs ! i)" if "1 \<le> i" "i < length xs" for i
    using that assms(2) by (cases xs; cases i) auto
  then have "k' (xs ! (i div 2)) = k (xs ! (i div 2)) \<and> k' (xs ! i) = k (xs ! i)"
    if "2 \<le> i" "i < length xs" for i
    using that by auto
  with assms(1) show ?thesis by (simp add: ordered_def)
qed

lemma index_okD:
  assumes "index_ok q" and "1 \<le> i" and "i < length (heap q)"
  shows "heapIndex (mem q (heap q ! i)) = i"
  using assms by (simp add: index_ok_def)

lemma tq_inv_queuedD:
  assumes "tq_inv q" and "p \<in> queued q"
  shows "alive q p" and "timers q (tmFd (mem q p)) = Some p"
  using assms by (auto simp: tq_inv_def)

lemma tq_inv_ownedD:
  assumes "tq_inv q" and "timers q fd = Some p"
  shows "p \<in> queued q" and "tmFd (mem q p) = fd" and "alive q p"
  using assms by (auto simp: tq_inv_def)

lemma tq_inv_partsD:
  assumes "tq_inv q"
  shows "heap q \<noteq> []" and "index_ok q"
  using assms by (auto simp: tq_inv_def)

lemma tq_inv_new: "tq_inv (newTimerQueue m)"
  by (simp add: tq_inv_def newTimerQueue_def index_ok_def FirstItem_def)

lemma queued_pos:
  assumes "tq_inv q" and "p \<in> queued q"
  shows "1 \<le> heapIndex (mem q p)" and "heapIndex (mem q p) < length (heap q)"
    and "heap q ! heapIndex (mem q p) = p"
proof -
  obtain i where i: "1 \<le> i" "i < length (heap q)" "heap q ! i = p"
    using assms(2) by (auto simp: queued_nth)
  with assms(1) have "heapIndex (mem q p) = i" by (auto simp: tq_inv_def index_ok_def)
  with i show "1 \<le> heapIndex (mem q p)" "heapIndex (mem q p) < length (heap q)"
    "heap q ! heapIndex (mem q p) = p" by simp_all
qed

lemma nth_queued: "1 \<le> i \<Longrightarrow> i < length (heap q) \<Longrightarrow> heap q ! i \<in> queued q"
  unfolding queued_nth by blast

lemma removeAt_queued:
  assumes "index_ok q" and "1 \<le> pos" and "pos < length (heap q)"
  shows "queued (removeAt pos q) = queued q - {heap q ! pos}" and "heap q ! pos \<notin> queued (removeAt pos q)"
proof -
  note bag = removeAt_spec(1) [OF assms]
  have "distinct (tl (heap q))" using assms(1) by (simp add: index_ok_def)
  then have "count (bag q) (heap q ! pos) = 1"
    using nth_queued [OF assms(2,3)] by (simp add: distinct_count_atmost_1)
  with bag have "heap q ! pos \<notin># bag (removeAt pos q)"
    by (metis add_mset_remove_trivial count_add_mset count_eq_zero_iff add_diff_cancel_right' One_nat_def Suc_inject)
  then show new: "heap q ! pos \<notin> queued (removeAt pos q)" by simp
  have "queued q = insert (heap q ! pos) (queued (removeAt pos q))"
    using arg_cong [OF bag, of set_mset] by simp
  with new show "queued (removeAt pos q) = queued q - {heap q ! pos}" by auto
qed

lemma tq_inv_removeAt:
  assumes inv: "tq_inv q" and pos: "1 \<le> pos" "pos < length (heap q)"
  shows "tq_inv_but (heap q ! pos) (removeAt pos q)"
proof -
  note ix = tq_inv_partsD(2) [OF inv]
  note spec = removeAt_spec [OF ix pos] and set = removeAt_queued [OF ix pos]
    and in_q = nth_queued [OF pos]
  have sub: "r \<in> queued (removeAt pos q) \<or> r = heap q ! pos \<longleftrightarrow> r \<in> queued q" for r
    using in_q by (auto simp: set(1))
  show ?thesis
    unfolding tq_inv_but_def sub same_timersD(2,6,7) [OF spec(3)]
    using inv spec(2,4) set(2) unfolding tq_inv_def by blast
qed

lemma tq_inv_but_release:
  assumes "tq_inv_but p q"
  shows "tq_inv (q\<lparr>timers := (timers q)(tmFd (mem q p) := None)\<rparr>)"
proof -
  have fd: "tmFd (mem q r) = tmFd (mem q p) \<longleftrightarrow> r = p" if "r \<in> queued q \<or> r = p" for r
    using assms that unfolding tq_inv_but_def by (metis option.inject)
  have p: "p \<notin> queued q" "timers q (tmFd (mem q p)) = Some p"
    using assms by (auto simp: tq_inv_but_def)
  have "alive q r \<and> timers q (tmFd (mem q r)) = Some r \<and> tmFd (mem q r) \<noteq> tmFd (mem q p)"
    if "r \<in> queued q" for r
    using that assms fd [of r] p(1) unfolding tq_inv_but_def by blast
  moreover have "r \<in> queued q \<and> tmFd (mem q r) = x"
    if "timers q x = Some r" "x \<noteq> tmFd (mem q p)" for x r
    using that assms unfolding tq_inv_but_def by blast
  ultimately show ?thesis
    using assms by (simp add: tq_inv_def tq_inv_but_def)
qed

lemma tq_inv_free:
  assumes "tq_inv q" and "p \<notin> queued q"
  shows "tq_inv (q\<lparr>alive := (alive q)(p := False)\<rparr>)"
  using assms unfolding tq_inv_def by auto

lemma tq_inv_but_free:
  assumes "tq_inv_but p q"
  shows "tq_inv (q\<lparr>timers := (timers q)(tmFd (mem q p) := None), alive := (alive q)(p := False)\<rparr>)"
  using tq_inv_free [OF tq_inv_but_release [OF assms], of p] assms by (simp add: tq_inv_but_def)

lemma tq_inv_but_insert:
  assumes "tq_inv_but p q"
  shows "tq_inv (heapInsert p q)"
proof -
  have pre: "heap q \<noteq> []" "index_ok q" "p \<notin> queued q" using assms by (auto simp: tq_inv_but_def)
  note spec = heapInsert_spec [OF pre]
  have "queued (heapInsert p q) = insert p (queued q)"
    using arg_cong [OF spec(1), of set_mset] by simp
  with assms spec(2,4) show ?thesis
    unfolding tq_inv_but_def tq_inv_def by (simp add: same_timersD [OF spec(3)]) blast
qed

lemma tq_inv_but_restamp:
  assumes "tq_inv_but p q"
  shows "tq_inv_but p (q\<lparr>mem := (mem q)(p := (mem q p)\<lparr>timestamp := d\<rparr>)\<rparr>)"
proof -
  have "index_ok (q\<lparr>mem := (mem q)(p := (mem q p)\<lparr>timestamp := d\<rparr>)\<rparr>)"
    using assms unfolding tq_inv_but_def index_ok_def by auto
  with assms show ?thesis unfolding tq_inv_but_def by auto
qed


section \<open>The operations keep the invariant\<close>

lemma fresh_not_queued:
  assumes "tq_inv q" and "timers q (tmFd (mem q p)) = None"
  shows "p \<notin> queued q"
  using assms by (auto dest: tq_inv_queuedD(2))

lemma addTimer_eq:
  assumes "tq_inv q" and "timers q (tmFd (mem q p)) = None"
  shows "addTimer p q = (heapInsert p q)\<lparr>timers := (timers q)(tmFd (mem q p) \<mapsto> p)\<rparr>"
proof -
  note spec = heapInsert_spec [OF tq_inv_partsD [OF assms(1)] fresh_not_queued [OF assms]]
  show ?thesis using assms(2) by (simp add: addTimer_def Let_def same_timersD [OF spec(3)])
qed

lemma addTimer_spec:
  assumes inv: "tq_inv q" and new: "timers q (tmFd (mem q p)) = None" and live: "alive q p"
  shows "tq_inv (addTimer p q)" and "bag (addTimer p q) = add_mset p (bag q)"
    and "alive (addTimer p q) = alive q" and "deadline (addTimer p q) = deadline q"
    and "heap_ordered q \<Longrightarrow> heap_ordered (addTimer p q)"
    and "counter (addTimer p q) = counter q"
    and "timers (addTimer p q) = (timers q)(tmFd (mem q p) \<mapsto> p)"
    and "tmFd (mem (addTimer p q) r) = tmFd (mem q r)"
    and "interval (mem (addTimer p q) r) = interval (mem q r)"
    and "repeated (mem (addTimer p q) r) = repeated (mem q r)"
proof -
  note eq = addTimer_eq [OF inv new] and out = fresh_not_queued [OF inv new]
  note spec = heapInsert_spec [OF tq_inv_partsD [OF inv] out]
  note same = same_timersD [OF spec(3)]
  show bag: "bag (addTimer p q) = add_mset p (bag q)" using spec(1) by (simp add: eq)
  have q: "queued (heapInsert p q) = insert p (queued q)"
    using arg_cong [OF spec(1), of set_mset] by simp
  have "r \<noteq> p \<and> tmFd (mem q r) \<noteq> tmFd (mem q p)" if "r \<in> queued q" for r
    using tq_inv_queuedD [OF inv that] new by auto
  then show "tq_inv (addTimer p q)"
    using inv live spec(2,4) unfolding tq_inv_def eq by (auto simp: same q)
  show "alive (addTimer p q) = alive q" "deadline (addTimer p q) = deadline q"
    "counter (addTimer p q) = counter q" "timers (addTimer p q) = (timers q)(tmFd (mem q p) \<mapsto> p)"
    "tmFd (mem (addTimer p q) r) = tmFd (mem q r)"
    "interval (mem (addTimer p q) r) = interval (mem q r)"
    "repeated (mem (addTimer p q) r) = repeated (mem q r)"
    by (simp_all add: eq same)
  show "heap_ordered (addTimer p q)" if "heap_ordered q"
    using spec(5) [OF that] by (simp add: eq heap_ordered_def)
qed

lemma cancelTimer_eq:
  assumes inv: "tq_inv q" and own: "timers q fd = Some p"
  shows "cancelTimer fd q = (removeAt (heapIndex (mem q p)) q)\<lparr>timers := (timers q)(fd := None),
    alive := (alive q)(p := False)\<rparr>"
proof -
  note pos = queued_pos(1,2) [OF inv tq_inv_ownedD(1) [OF inv own]]
  show ?thesis
    using own heapDelete_eq [OF pos]
      same_timersD(6,7) [OF removeAt_spec(3) [OF tq_inv_partsD(2) [OF inv] pos]]
    by (simp add: cancelTimer_def Let_def)
qed

lemma cancelTimer_spec:
  assumes inv: "tq_inv q" and own: "timers q fd = Some p"
  shows "tq_inv (cancelTimer fd q)" and "bag q = add_mset p (bag (cancelTimer fd q))"
    and "alive (cancelTimer fd q) = (alive q)(p := False)"
    and "timers (cancelTimer fd q) = (timers q)(fd := None)"
    and "deadline (cancelTimer fd q) = deadline q"
    and "queued (cancelTimer fd q) = queued q - {p}"
    and "repeated (mem (cancelTimer fd q) r) = repeated (mem q r)"
proof -
  let ?pos = "heapIndex (mem q p)"
  note own' = tq_inv_ownedD [OF inv own]
  note pos = queued_pos [OF inv own'(1)] and eq = cancelTimer_eq [OF inv own]
  note spec = removeAt_spec [OF tq_inv_partsD(2) [OF inv] pos(1,2)]
  note but = tq_inv_removeAt [OF inv pos(1,2), unfolded pos(3)]
  show "bag q = add_mset p (bag (cancelTimer fd q))" using spec(1) by (simp add: eq pos(3))
  show "tq_inv (cancelTimer fd q)"
    using tq_inv_but_free [OF but] by (simp add: eq same_timersD [OF spec(3)] own'(2))
  show "queued (cancelTimer fd q) = queued q - {p}"
    using removeAt_queued(1) [OF tq_inv_partsD(2) [OF inv] pos(1,2)] by (simp add: eq pos(3))
  show "alive (cancelTimer fd q) = (alive q)(p := False)"
    "timers (cancelTimer fd q) = (timers q)(fd := None)" "deadline (cancelTimer fd q) = deadline q"
    "repeated (mem (cancelTimer fd q) r) = repeated (mem q r)"
    by (simp_all add: eq same_timersD [OF spec(3)])
qed

lemma cancelTimer_unknown: "timers q fd = None \<Longrightarrow> cancelTimer fd q = q"
  by (simp add: cancelTimer_def)

lemma tq_inv_cancelTimer: "tq_inv q \<Longrightarrow> tq_inv (cancelTimer fd q)"
  by (cases "timers q fd") (auto simp: cancelTimer_unknown cancelTimer_spec(1))


text \<open>
  \<open>EventLoop::addTimer\<close> on the loop's own thread: create the timer and queue it. \<open>p\<close> is the
  address that the allocator returns.
\<close>

definition schedule :: "ptr \<Rightarrow> int \<Rightarrow> int \<Rightarrow> nat \<Rightarrow> bool \<Rightarrow> tqueue \<Rightarrow> 32 word \<times> tqueue" where
  "schedule p now delay cb rep q =
     (let (t, q1) = createTimer p now delay cb rep q; q2 = addTimer t q1
      in (tmFd (mem q1 t), q2))"

lemma createTimer_spec:
  fixes now delay :: int and cb :: nat and rep :: bool
  assumes inv: "tq_inv q" and new: "\<not> alive q p"
  defines "q' \<equiv> snd (createTimer p now delay cb rep q)"
  shows "fst (createTimer p now delay cb rep q) = p" and "tq_inv q'" and "heap q' = heap q"
    and "timers q' = timers q" and "counter q' = counter q - 1"
    and "mem q' = (mem q)(p := mem q' p)" and "tmFd (mem q' p) = counter q - 1"
    and "timestamp (mem q' p) = now + delay" and "interval (mem q' p) = delay"
    and "repeated (mem q' p) = rep" and "alive q' = (alive q)(p := True)"
    and "heap_ordered q \<Longrightarrow> heap_ordered q'"
proof -
  have out: "p \<notin> queued q" using new tq_inv_queuedD(1) [OF inv] by blast
  show heap: "heap q' = heap q" and "timers q' = timers q" and "counter q' = counter q - 1"
    and mem: "mem q' = (mem q)(p := mem q' p)" and "tmFd (mem q' p) = counter q - 1"
    and "timestamp (mem q' p) = now + delay" and "interval (mem q' p) = delay"
    and "repeated (mem q' p) = rep" and "alive q' = (alive q)(p := True)"
    and "fst (createTimer p now delay cb rep q) = p"
    by (simp_all add: q'_def createTimer_def newTimer_def Let_def)
  have same: "mem q' r = mem q r" if "r \<in> queued q" for r
    using that out by (subst mem) auto
  have nth: "mem q' (heap q ! i) = mem q (heap q ! i)" if "1 \<le> i" "i < length (heap q)" for i
    using same [OF nth_queued [OF that]] .
  have "index_ok q'" using inv nth by (simp add: tq_inv_def index_ok_def heap)
  moreover have "timers q fd = Some r \<Longrightarrow> r \<in> queued q" for fd r using inv by (simp add: tq_inv_def)
  ultimately show "tq_inv q'"
    using inv same \<open>alive q' = _\<close> \<open>timers q' = _\<close> unfolding tq_inv_def heap by auto
  show "heap_ordered q'" if "heap_ordered q"
    using that same unfolding heap_ordered_def heap by (auto intro: ordered_cong)
qed

lemma schedule_spec:
  fixes now delay :: int and cb :: nat and rep :: bool
  assumes inv: "tq_inv q" and new: "\<not> alive q p" and unused: "timers q (counter q - 1) = None"
  defines "q' \<equiv> snd (schedule p now delay cb rep q)"
  shows "fst (schedule p now delay cb rep q) = counter q - 1" and "tq_inv q'"
    and "bag q' = add_mset p (bag q)" and "timers q' = (timers q)(counter q - 1 \<mapsto> p)"
    and "counter q' = counter q - 1" and "alive q' = (alive q)(p := True)"
    and "timestamp (mem q' r) = (if r = p then now + delay else timestamp (mem q r))"
    and "tmFd (mem q' r) = (if r = p then counter q - 1 else tmFd (mem q r))"
    and "heap_ordered q \<Longrightarrow> heap_ordered q'"
    and "interval (mem q' r) = (if r = p then delay else interval (mem q r))"
    and "repeated (mem q' r) = (if r = p then rep else repeated (mem q r))"
proof -
  let ?q1 = "snd (createTimer p now delay cb rep q)"
  note made = createTimer_spec [OF inv new, of now delay cb rep]
  have q': "q' = addTimer p ?q1" and fd: "fst (schedule p now delay cb rep q) = tmFd (mem ?q1 p)"
    using made(1) by (simp_all add: q'_def schedule_def split_beta)
  then show "fst (schedule p now delay cb rep q) = counter q - 1" by (simp add: made(7))
  have pre: "timers ?q1 (tmFd (mem ?q1 p)) = None" "alive ?q1 p" by (simp_all add: made(4,7,11) unused)
  note add = addTimer_spec [OF made(2) pre]
  have m: "mem ?q1 r = (if r = p then mem ?q1 p else mem q r)"
    by (subst made(6)) simp
  show "tq_inv q'" "bag q' = add_mset p (bag q)" "timers q' = (timers q)(counter q - 1 \<mapsto> p)"
    "counter q' = counter q - 1" "alive q' = (alive q)(p := True)"
    using add by (simp_all add: q' made(3,4,5,7,11))
  show "timestamp (mem q' r) = (if r = p then now + delay else timestamp (mem q r))"
    using fun_cong [OF add(4), of r] m made(8) by (simp add: q')
  show "tmFd (mem q' r) = (if r = p then counter q - 1 else tmFd (mem q r))"
    using add(8) m made(7) by (simp add: q')
  show "interval (mem q' r) = (if r = p then delay else interval (mem q r))"
    using add(9) m made(9) by (simp add: q')
  show "repeated (mem q' r) = (if r = p then rep else repeated (mem q r))"
    using add(10) m made(10) by (simp add: q')
  show "heap_ordered q'" if "heap_ordered q" unfolding q' by (rule add(5) [OF made(12) [OF that]])
qed

section \<open>Firing a timer\<close>

text \<open>
  What a callback may do to the queue: keep the invariant, and not queue an allocated timer
  that the queue does not own (clients see descriptors, never the pointers).
\<close>

definition run_ok :: "(nat \<Rightarrow> tqueue \<Rightarrow> tqueue) \<Rightarrow> bool" where
  "run_ok run \<longleftrightarrow> (\<forall>cb q. tq_inv q \<longrightarrow> tq_inv (run cb q) \<and>
     (\<forall>p. alive q p \<and> p \<notin> queued q \<longrightarrow> p \<notin> queued (run cb q)))"

lemma run_okD:
  assumes "run_ok run" and "tq_inv q"
  shows "tq_inv (run cb q)" and "alive q p \<Longrightarrow> p \<notin> queued q \<Longrightarrow> p \<notin> queued (run cb q)"
  using assms by (auto simp: run_ok_def)

text \<open>The timer that fires, as its callback sees it, and the two ways in which it fires.\<close>

definition first_timer :: "tqueue \<Rightarrow> timer" where
  "first_timer q = mem (removeAt 1 q) (heap q ! 1)"

definition fired_once :: "tqueue \<Rightarrow> tqueue" where
  "fired_once q = (removeAt 1 q)\<lparr>timers := (timers q)(tmFd (mem q (heap q ! 1)) := None)\<rparr>"

definition rearmed :: "int \<Rightarrow> tqueue \<Rightarrow> tqueue" where
  "rearmed d q = (let p = heap q ! 1; q1 = removeAt 1 q
     in heapInsert p (q1\<lparr>mem := (mem q1)(p := (mem q1 p)\<lparr>timestamp := d\<rparr>)\<rparr>))"

lemma first_timer_simps:
  assumes "tq_inv q" and "1 < length (heap q)"
  shows "timestamp (first_timer q) = timestamp (mem q (heap q ! 1))"
    and "tmFd (first_timer q) = tmFd (mem q (heap q ! 1))"
    and "repeated (first_timer q) = repeated (mem q (heap q ! 1))"
    and "interval (first_timer q) = interval (mem q (heap q ! 1))"
    and "callback (first_timer q) = callback (mem q (heap q ! 1))"
  by (simp_all only: first_timer_def
    same_timersD(1-5) [OF removeAt_spec(3) [OF tq_inv_partsD(2) [OF assms(1)] order_refl assms(2)]])

lemma popTimer_eq:
  assumes inv: "tq_inv q" and ne: "1 < length (heap q)"
  shows "popTimer run now q = (let t = first_timer q; p = heap q ! 1 in
     if repeated t then
       let q3 = rearmed (now + interval t) q in Ok (t, run (callback (mem q3 p)) q3)
     else let q3 = run (callback t) (fired_once q) in Ok (t, q3\<lparr>alive := (alive q3)(p := False)\<rparr>))"
proof -
  note same = same_timersD [OF removeAt_spec(3) [OF tq_inv_partsD(2) [OF inv] order_refl ne]]
  have "timers q (tmFd (mem q (heap q ! 1))) = Some (heap q ! 1)"
    by (rule tq_inv_queuedD(2) [OF inv nth_queued [OF order_refl ne]])
  then show ?thesis
    by (simp add: popTimer_def heapPop_eq [OF ne] first_timer_def fired_once_def rearmed_def Let_def
        same del: One_nat_def)
qed

lemma fired_once_spec:
  assumes inv: "tq_inv q" and ne: "1 < length (heap q)"
  shows "tq_inv (fired_once q)" and "bag q = add_mset (heap q ! 1) (bag (fired_once q))"
    and "heap q ! 1 \<notin> queued (fired_once q)" and "alive (fired_once q) = alive q"
    and "deadline (fired_once q) = deadline q"
    and "heap_ordered q \<Longrightarrow> heap_ordered (fired_once q)"
    and "repeated (mem (fired_once q) p) = repeated (mem q p)"
    and "interval (mem (fired_once q) p) = interval (mem q p)"
proof -
  note ok = tq_inv_partsD(2) [OF inv]
  note spec = removeAt_spec [OF ok order_refl ne]
  note same = same_timersD [OF spec(3)]
  note but = tq_inv_removeAt [OF inv order_refl ne]
  show "tq_inv (fired_once q)"
    using tq_inv_but_release [OF but] by (simp only: fired_once_def same)
  show "bag q = add_mset (heap q ! 1) (bag (fired_once q))"
    using spec(1) by (simp add: fired_once_def)
  show "heap q ! 1 \<notin> queued (fired_once q)"
    using but by (simp add: fired_once_def tq_inv_but_def)
  show "heap_ordered (fired_once q)" if "heap_ordered q"
    using removeAt_root_ordered [OF ok ne that] by (simp add: fired_once_def heap_ordered_def)
qed (simp_all add: fired_once_def
    same_timersD [OF removeAt_spec(3) [OF tq_inv_partsD(2) [OF inv] order_refl ne], unfolded One_nat_def])


lemma rearmed_spec:
  assumes inv: "tq_inv q" and ne: "1 < length (heap q)"
  shows "tq_inv (rearmed d q)" and "bag (rearmed d q) = bag q" and "alive (rearmed d q) = alive q"
    and "deadline (rearmed d q) = (deadline q)(heap q ! 1 := d)"
    and "heap_ordered q \<Longrightarrow> heap_ordered (rearmed d q)"
    and "repeated (mem (rearmed d q) p) = repeated (mem q p)"
    and "interval (mem (rearmed d q) p) = interval (mem q p)"
    and "timers (rearmed d q) = timers q" and "tmFd (mem (rearmed d q) p) = tmFd (mem q p)"
proof -
  let ?p = "heap q ! 1" and ?q1 = "removeAt 1 q"
  let ?q2 = "?q1\<lparr>mem := (mem ?q1)(?p := (mem ?q1 ?p)\<lparr>timestamp := d\<rparr>)\<rparr>"
  note ok = tq_inv_partsD(2) [OF inv]
  note spec = removeAt_spec [OF ok order_refl ne]
  note same = same_timersD [OF spec(3)]
  have but: "tq_inv_but ?p ?q2"
    by (rule tq_inv_but_restamp [OF tq_inv_removeAt [OF inv order_refl ne]])
  then have pre: "heap ?q2 \<noteq> []" "index_ok ?q2" "?p \<notin> queued ?q2"
    unfolding tq_inv_but_def by blast+
  note ins = heapInsert_spec [OF pre]
  have def: "rearmed d q = heapInsert ?p ?q2" by (simp add: rearmed_def Let_def)
  show "tq_inv (rearmed d q)" unfolding def by (rule tq_inv_but_insert [OF but])
  show "bag (rearmed d q) = bag q" using ins(1) spec(1) unfolding def by simp
  have mem2: "tmFd (mem ?q2 r) = tmFd (mem q r)" "repeated (mem ?q2 r) = repeated (mem q r)"
    "interval (mem ?q2 r) = interval (mem q r)" "timers ?q2 = timers q" "alive ?q2 = alive q"
    "timestamp (mem ?q2 r) = (if r = ?p then d else timestamp (mem q r))" for r
    by (simp_all add: same del: One_nat_def)
  show "alive (rearmed d q) = alive q" "repeated (mem (rearmed d q) p) = repeated (mem q p)"
    "interval (mem (rearmed d q) p) = interval (mem q p)" "timers (rearmed d q) = timers q"
    "tmFd (mem (rearmed d q) p) = tmFd (mem q p)"
    by (simp_all only: def same_timersD [OF ins(3)] mem2)
  show "deadline (rearmed d q) = (deadline q)(?p := d)"
    by (rule ext) (simp only: def same_timersD [OF ins(3)] mem2 fun_upd_apply)
  show "heap_ordered (rearmed d q)" if ord: "heap_ordered q"
  proof -
    have "ordered (deadline ?q1) (heap ?q1)"
      using removeAt_root_ordered [OF ok ne ord] by (simp add: heap_ordered_def)
    then have "ordered (deadline ?q2) (heap ?q1)"
      by (rule ordered_cong) (use pre(3) in \<open>auto simp del: One_nat_def\<close>)
    then have "heap_ordered ?q2" by (simp add: heap_ordered_def)
    then show ?thesis unfolding def by (rule ins(5))
  qed
qed


lemma rearmed_callback:
  assumes inv: "tq_inv q" and ne: "1 < length (heap q)"
  shows "callback (mem (rearmed d q) p) = callback (mem q p)" and "counter (rearmed d q) = counter q"
proof -
  let ?p = "heap q ! 1" and ?q1 = "removeAt 1 q"
  let ?q2 = "?q1\<lparr>mem := (mem ?q1)(?p := (mem ?q1 ?p)\<lparr>timestamp := d\<rparr>)\<rparr>"
  note same = same_timersD [OF removeAt_spec(3) [OF tq_inv_partsD(2) [OF inv] order_refl ne]]
  have "tq_inv_but ?p ?q2"
    by (rule tq_inv_but_restamp [OF tq_inv_removeAt [OF inv order_refl ne]])
  then have "heap ?q2 \<noteq> []" "index_ok ?q2" "?p \<notin> queued ?q2"
    unfolding tq_inv_but_def by blast+
  note ins = same_timersD [OF heapInsert_spec(3) [OF this]]
  have def: "rearmed d q = heapInsert ?p ?q2" by (simp add: rearmed_def Let_def)
  have "callback (mem ?q2 p) = callback (mem q p)" "counter ?q2 = counter q"
    by (simp_all add: same del: One_nat_def)
  then show "callback (mem (rearmed d q) p) = callback (mem q p)"
    and "counter (rearmed d q) = counter q"
    by (simp_all only: def ins)
qed

lemma first_is_min:
  assumes "heap_ordered q" and "p \<in> queued q"
  shows "timestamp (mem q (heap q ! 1)) \<le> timestamp (mem q p)"
  using assms ordered_root_min [of "deadline q" "heap q"] unfolding heap_ordered_def queued_nth by blast

lemma queued_nonempty: "p \<in> queued q \<Longrightarrow> 1 < length (heap q)"
  by (auto simp: queued_nth)

section \<open>The loop of due timers\<close>

abbreviation noop :: "nat \<Rightarrow> tqueue \<Rightarrow> tqueue" where
  "noop \<equiv> \<lambda>_ q. q"

definition after_pop :: "int \<Rightarrow> tqueue \<Rightarrow> tqueue" where
  "after_pop now q = (if repeated (first_timer q) then rearmed (now + interval (first_timer q)) q
     else (fired_once q)\<lparr>alive := (alive q)(heap q ! 1 := False)\<rparr>)"

lemma popTimer_noop:
  assumes "tq_inv q" and "1 < length (heap q)"
  shows "popTimer noop now q = Ok (first_timer q, after_pop now q)"
  by (simp add: popTimer_eq [OF assms] after_pop_def Let_def fired_once_spec(4) [OF assms]
      del: One_nat_def)

lemma after_pop_spec:
  assumes inv: "tq_inv q" and ne: "1 < length (heap q)"
  shows "tq_inv (after_pop now q)" and "heap_ordered q \<Longrightarrow> heap_ordered (after_pop now q)"
    and "bag (after_pop now q) = (if repeated (mem q (heap q ! 1)) then bag q
          else bag q - {#heap q ! 1#})"
    and "deadline (after_pop now q) = (if repeated (mem q (heap q ! 1))
          then (deadline q)(heap q ! 1 := now + interval (mem q (heap q ! 1))) else deadline q)"
    and "repeated (mem (after_pop now q) p) = repeated (mem q p)"
    and "interval (mem (after_pop now q) p) = interval (mem q p)"
    and "tmFd (mem (after_pop now q) p) = tmFd (mem q p)"
proof -
  note one = fired_once_spec [OF inv ne] and more = rearmed_spec [OF inv ne]
  note same = same_timersD [OF removeAt_spec(3) [OF tq_inv_partsD(2) [OF inv] order_refl ne]]
  note first = first_timer_simps [OF inv ne]
  show "tq_inv (after_pop now q)"
    using tq_inv_free [OF one(1,3)] more(1) one(4) by (simp add: after_pop_def del: One_nat_def)
  show "heap_ordered (after_pop now q)" if "heap_ordered q"
    using more(5) [OF that] one(6) [OF that] by (simp add: after_pop_def heap_ordered_def)
  show "bag (after_pop now q) = (if repeated (mem q (heap q ! 1)) then bag q
      else bag q - {#heap q ! 1#})"
    using more(2) one(2) by (simp add: after_pop_def first del: One_nat_def)
  show "deadline (after_pop now q) = (if repeated (mem q (heap q ! 1))
      then (deadline q)(heap q ! 1 := now + interval (mem q (heap q ! 1))) else deadline q)"
    using more(4) one(5) by (simp add: after_pop_def first del: One_nat_def)
  show "repeated (mem (after_pop now q) p) = repeated (mem q p)"
    "interval (mem (after_pop now q) p) = interval (mem q p)"
    "tmFd (mem (after_pop now q) p) = tmFd (mem q p)"
    using one(7,8) more(6,7,9) by (simp_all add: after_pop_def fired_once_def same del: One_nat_def)
qed

text \<open>How often the loop can go round at most while the clock stays under \<open>T\<close>.\<close>

definition budget :: "int \<Rightarrow> tqueue \<Rightarrow> nat" where
  "budget T q = (\<Sum>p\<in>#bag q. Suc (nat (T - timestamp (mem q p))))"

lemma checkTimers_iff: "checkTimers now q \<longleftrightarrow> 1 < length (heap q) \<and> timestamp (mem q (heap q ! 1)) < now"
  by (auto simp: checkTimers_def FirstItem_def ts_at_def)

lemma distinct_bag:
  assumes "tq_inv q"
  shows "distinct (tl (heap q))"
  using assms by (simp add: tq_inv_def index_ok_def)

lemma budget_after_pop:
  assumes inv: "tq_inv q" and ne: "1 < length (heap q)"
    and due: "timestamp (mem q (heap q ! 1)) < now" and later: "now \<le> now'" and T: "now' \<le> T"
    and nonneg: "0 \<le> interval (mem q (heap q ! 1))"
  shows "budget T (after_pop now' q) < budget T q"
proof -
  let ?p = "heap q ! 1" and ?f = "\<lambda>p. Suc (nat (T - timestamp (mem q p)))"
  note spec = after_pop_spec [OF inv ne, of now']
  note one = fired_once_spec [OF inv ne]
  have rest: "bag q = add_mset ?p (bag (fired_once q))" by (rule one(2))
  then have total: "budget T q = ?f ?p + (\<Sum>p\<in>#bag (fired_once q). ?f p)"
    by (simp only: budget_def image_mset_add_mset sum_mset.add_mset)
  show ?thesis
  proof (cases "repeated (mem q ?p)")
    case True
    then have dl: "timestamp (mem (after_pop now' q) r) =
        (if r = ?p then now' + interval (mem q ?p) else timestamp (mem q r))" for r
      using fun_cong [OF spec(4), of r] by (simp del: One_nat_def)
    have "(\<Sum>p\<in>#bag (fired_once q). Suc (nat (T - timestamp (mem (after_pop now' q) p)))) =
        (\<Sum>p\<in>#bag (fired_once q). ?f p)"
      using one(3) by (intro arg_cong [of _ _ sum_mset] image_mset_cong) (auto simp: dl simp del: One_nat_def)
    moreover have "bag (after_pop now' q) = add_mset ?p (bag (fired_once q))"
      using True spec(3) rest by simp
    ultimately have "budget T (after_pop now' q) =
        Suc (nat (T - (now' + interval (mem q ?p)))) + (\<Sum>p\<in>#bag (fired_once q). ?f p)"
      by (simp only: budget_def image_mset_add_mset sum_mset.add_mset dl if_True simp_thms)
    with total due later T nonneg show ?thesis by simp
  next
    case False
    then have "bag (after_pop now' q) = bag (fired_once q)"
      and dl: "timestamp (mem (after_pop now' q) r) = timestamp (mem q r)" for r
      using spec(3) rest fun_cong [OF spec(4), of r] by (simp_all del: One_nat_def)
    then have "budget T (after_pop now' q) = (\<Sum>p\<in>#bag (fired_once q). ?f p)"
      by (simp only: budget_def dl)
    with total show ?thesis by simp
  qed
qed


lemma runTimers_unfold:
  assumes "tq_inv q" and "checkTimers (clock k) q"
  shows "runTimers (Suc fuel) clock noop k q =
    (case runTimers fuel clock noop (if repeated (first_timer q) then k + 2 else k + 1)
       (after_pop (clock (Suc k)) q) of
       None \<Rightarrow> None
     | Some (Inl e) \<Rightarrow> Some (Fail e)
     | Some (Inr (ts, q2)) \<Rightarrow> Some (Ok (first_timer q # ts, q2)))"
  using assms(2) popTimer_noop [OF assms(1), of "clock (Suc k)"] by (simp add: checkTimers_iff)

lemma after_pop_lower:
  assumes inv: "tq_inv q" and ne: "1 < length (heap q)"
    and "\<And>p. p \<in> queued q \<Longrightarrow> b \<le> timestamp (mem q p)" and "b \<le> now"
    and "0 \<le> interval (mem q (heap q ! 1))" and "p \<in> queued (after_pop now q)"
  shows "p \<in> queued q" and "b \<le> timestamp (mem (after_pop now q) p)"
proof -
  note spec = after_pop_spec [OF inv ne, of now]
  show p: "p \<in> queued q"
    using assms(6) arg_cong [OF spec(3), of set_mset]
    by (auto split: if_splits dest: in_diffD simp del: One_nat_def)
  show "b \<le> timestamp (mem (after_pop now q) p)"
    using assms(3) [OF p] assms(4,5) fun_cong [OF spec(4), of p] by (auto simp del: One_nat_def)
qed

lemma runTimers_noop:
  assumes "tq_inv q" and "heap_ordered q" and "mono clock" and "\<And>j. clock j \<le> T"
    and "\<And>p. p \<in> queued q \<Longrightarrow> 0 \<le> interval (mem q p)" and "budget T q < fuel"
  shows "\<exists>ts q'. runTimers fuel clock noop k q = Some (Ok (ts, q')) \<and> tq_inv q' \<and> heap_ordered q' \<and>
      sorted (map timestamp ts) \<and>
      (\<forall>b. (\<forall>p. p \<in> queued q \<longrightarrow> b \<le> timestamp (mem q p)) \<and> b \<le> clock k \<longrightarrow>
         (\<forall>t. t \<in> set ts \<longrightarrow> b \<le> timestamp t)) \<and>
      (\<forall>p. p \<in> queued q' \<longrightarrow> clock k \<le> timestamp (mem q' p)) \<and>
      (\<forall>p. p \<in> queued q \<and> timestamp (mem q p) < clock k \<longrightarrow>
         (\<exists>t. t \<in> set ts \<and> tmFd t = tmFd (mem q p) \<and> timestamp t = timestamp (mem q p)))"
  using assms(1,2,5,6)
proof (induction fuel arbitrary: q k)
  case (Suc fuel)
  note inv = Suc.prems(1) and ord = Suc.prems(2)
  show ?case
  proof (cases "checkTimers (clock k) q")
    case False
    then have "clock k \<le> timestamp (mem q p)" if "p \<in> queued q" for p
      using queued_nonempty [OF that] first_is_min [OF ord that] unfolding checkTimers_iff by linarith
    then show ?thesis using False inv ord by (force simp: not_less [symmetric])
  next
    case True
    let ?p = "heap q ! 1" and ?q = "after_pop (clock (Suc k)) q"
    let ?k = "if repeated (first_timer q) then k + 2 else k + 1"
    have ne: "1 < length (heap q)" and due: "timestamp (mem q ?p) < clock k"
      using True by (auto simp: checkTimers_iff)
    have p: "?p \<in> queued q" by (rule nth_queued [OF order_refl ne])
    note spec = after_pop_spec [OF inv ne, of "clock (Suc k)"] and first = first_timer_simps [OF inv ne]
    have mono: "clock k \<le> clock (Suc k)" "clock k \<le> clock ?k"
      using assms(3) by (auto intro: monoD)
    note low = after_pop_lower [OF inv ne _ _ Suc.prems(3) [OF p]]
    have "0 \<le> interval (mem ?q r)" if "r \<in> queued ?q" for r
      using low(1) [OF _ order_trans that] low(1) [of "timestamp (mem q ?p)", OF first_is_min [OF ord] _ that]
        due mono(1) Suc.prems(3) by (simp add: spec(6))
    moreover have "budget T ?q < fuel"
      using budget_after_pop [OF inv ne due mono(1) assms(4) Suc.prems(3) [OF p]] Suc.prems(4) by simp
    ultimately obtain ts q' where IH: "runTimers fuel clock noop ?k ?q = Some (Ok (ts, q'))"
      "tq_inv q'" "heap_ordered q'" "sorted (map timestamp ts)"
      "\<And>b t. (\<And>p. p \<in> queued ?q \<Longrightarrow> b \<le> timestamp (mem ?q p)) \<Longrightarrow> b \<le> clock ?k \<Longrightarrow>
         t \<in> set ts \<Longrightarrow> b \<le> timestamp t"
      "\<And>p. p \<in> queued q' \<Longrightarrow> clock ?k \<le> timestamp (mem q' p)"
      "\<And>p. p \<in> queued ?q \<Longrightarrow> timestamp (mem ?q p) < clock ?k \<Longrightarrow>
         (\<exists>t. t \<in> set ts \<and> tmFd t = tmFd (mem ?q p) \<and> timestamp t = timestamp (mem ?q p))"
      using Suc.IH [OF spec(1) spec(2) [OF ord], of ?k] by blast
    have run: "runTimers (Suc fuel) clock noop k q = Some (Ok (first_timer q # ts, q'))"
      using IH(1) by (simp only: runTimers_unfold [of q clock k, OF inv True] option.case sum.case prod.case)
    have lower: "b \<le> timestamp t" if b: "\<And>p. p \<in> queued q \<Longrightarrow> b \<le> timestamp (mem q p)"
      and "b \<le> clock k" and "t \<in> set ts" for b t
      using low(2) [OF b] that(2) mono IH(5) [OF _ _ that(3)] by (meson order_trans)
    have "timestamp (first_timer q) \<le> timestamp t" if "t \<in> set ts" for t
      using lower [OF first_is_min [OF ord] _ that] due by (simp add: first(1) del: One_nat_def)
    then have sorted: "sorted (map timestamp (first_timer q # ts))" using IH(4) by simp
    have fired: "\<exists>t. t \<in> set (first_timer q # ts) \<and> tmFd t = tmFd (mem q r) \<and> timestamp t = timestamp (mem q r)"
      if r: "r \<in> queued q" "timestamp (mem q r) < clock k" for r
    proof (cases "r = ?p")
      case False
      have "r \<in># bag ?q" using r(1) False unfolding spec(3) by (simp add: in_diff_count)
      moreover have "timestamp (mem ?q r) = timestamp (mem q r)"
        using False fun_cong [OF spec(4), of r] by (simp del: One_nat_def split: if_splits)
      ultimately show ?thesis using IH(7) [of r] r(2) mono(2) by (auto simp: spec(7))
    qed (use first(1,2) in auto)
    have "clock k \<le> timestamp (mem q' r)" if "r \<in> queued q'" for r
      using IH(6) [OF that] mono(2) by simp
    moreover have "b \<le> timestamp t" if "\<forall>p. p \<in> queued q \<longrightarrow> b \<le> timestamp (mem q p)" "b \<le> clock k"
      "t \<in> set (first_timer q # ts)" for b t
      using that lower [of b t] p by (auto simp: first(1) simp del: One_nat_def)
    ultimately show ?thesis using run IH(2,3) sorted fired by blast
  qed
qed simp


text \<open>Firing keeps heap and owning map consistent whatever the deadlines are.\<close>

lemma popTimer_inv:
  assumes inv: "tq_inv q" and ne: "1 < length (heap q)" and run: "run_ok run"
  shows "\<exists>q'. popTimer run now q = Ok (first_timer q, q') \<and> tq_inv q'"
proof (cases "repeated (first_timer q)")
  case True
  then show ?thesis
    using run_okD(1) [OF run rearmed_spec(1) [OF inv ne]] by (simp add: popTimer_eq [OF inv ne] Let_def)
next
  case False
  let ?q3 = "run (callback (first_timer q)) (fired_once q)"
  note one = fired_once_spec [OF inv ne]
  have "heap q ! 1 \<notin> queued ?q3"
    using run_okD(2) [OF run one(1) _ one(3)] tq_inv_queuedD(1) [OF inv nth_queued [OF order_refl ne]] one(4) by simp
  then show ?thesis
    using tq_inv_free [OF run_okD(1) [OF run one(1)]] False by (simp add: popTimer_eq [OF inv ne] Let_def)
qed

lemma runTimers_safe:
  assumes "run_ok run" and "tq_inv q" and "runTimers fuel clock run k q = Some r"
  shows "\<exists>ts q' j. r = Ok (ts, q') \<and> tq_inv q' \<and> k \<le> j \<and> \<not> checkTimers (clock j) q'"
  using assms(2,3)
proof (induction fuel arbitrary: q k r)
  case (Suc fuel)
  show ?case
  proof (cases "checkTimers (clock k) q")
    case True
    then have "1 < length (heap q)" by (simp add: checkTimers_iff)
    then obtain q1 where q1: "popTimer run (clock (Suc k)) q = Ok (first_timer q, q1)" "tq_inv q1"
      using popTimer_inv [OF Suc.prems(1) _ assms(1)] by blast
    let ?k = "if repeated (first_timer q) then k + 2 else k + 1"
    obtain r1 where r1: "runTimers fuel clock run ?k q1 = Some r1" using Suc.prems(2) True q1(1) by (auto split: option.splits)
    then obtain ts q' j where "r1 = Ok (ts, q')" "tq_inv q'" "?k \<le> j" "\<not> checkTimers (clock j) q'"
      using Suc.IH [OF q1(2)] by blast
    moreover from this have "k \<le> j" by (simp split: if_splits)
    ultimately show ?thesis using Suc.prems(2) True q1(1) r1 by auto
  qed (use Suc.prems in auto)
qed simp

text \<open>Only the readings of the rounds matter.\<close>

lemma runTimers_cong:
  assumes "\<And>j. k \<le> j \<Longrightarrow> j \<le> k + 2 * fuel \<Longrightarrow> clock j = clock' j"
  shows "runTimers fuel clock run k q = runTimers fuel clock' run k q"
  using assms
proof (induction fuel arbitrary: q k)
  case (Suc fuel)
  have "clock k = clock' k" "clock (Suc k) = clock' (Suc k)" using Suc.prems by auto
  moreover have "runTimers fuel clock run (if b then k + 2 else k + 1) q1 = runTimers fuel clock' run (if b then k + 2 else k + 1) q1"
    for b q1 by (rule Suc.IH, rule Suc.prems) (simp_all split: if_splits)
  ultimately show ?case by (simp only: runTimers.simps)
qed simp

text \<open>One-shot timers: each round takes one away, whatever the clock shows.\<close>

lemma runTimers_one_shot:
  assumes "tq_inv q" and "heap_ordered q" and "\<And>p. p \<in> queued q \<Longrightarrow> \<not> repeated (mem q p)" and "length (heap q) \<le> fuel"
  shows "\<exists>ts q' j. runTimers fuel clock noop k q = Some (Ok (ts, q')) \<and> k \<le> j \<and> sorted (map timestamp ts) \<and>
      (\<forall>b. (\<forall>p. p \<in> queued q \<longrightarrow> b \<le> timestamp (mem q p)) \<longrightarrow> (\<forall>t. t \<in> set ts \<longrightarrow> b \<le> timestamp t)) \<and>
      (\<forall>p. p \<in> queued q \<longrightarrow> p \<in> queued q' \<and> clock j \<le> timestamp (mem q' p) \<or>
         (\<exists>t. t \<in> set ts \<and> tmFd t = tmFd (mem q p) \<and> timestamp t = timestamp (mem q p)))"
  using assms
proof (induction fuel arbitrary: q k)
  case 0
  then show ?case using tq_inv_partsD(1) [OF 0(1)] by simp
next
  case (Suc fuel)
  note inv = Suc.prems(1) and ord = Suc.prems(2)
  show ?case
  proof (cases "checkTimers (clock k) q")
    case False
    then have "clock k \<le> timestamp (mem q p)" if "p \<in> queued q" for p
      using queued_nonempty [OF that] first_is_min [OF ord that] unfolding checkTimers_iff by linarith
    then show ?thesis using False by (intro exI [of _ "[]"] exI [of _ q] exI [of _ k]) simp
  next
    case True
    let ?p = "heap q ! 1" and ?q = "after_pop (clock (Suc k)) q"
    have ne: "1 < length (heap q)" using True by (simp add: checkTimers_iff)
    have p: "?p \<in> queued q" by (rule nth_queued [OF order_refl ne])
    note spec = after_pop_spec [OF inv ne, of "clock (Suc k)"] and first = first_timer_simps [OF inv ne]
    have one: "\<not> repeated (first_timer q)" "\<not> repeated (mem q ?p)" using Suc.prems(3) [OF p] first(3) by simp_all
    have bag: "bag q = add_mset ?p (bag ?q)" 
      using fired_once_spec(2) [OF inv ne] one(1) by (simp only: after_pop_def if_False) simp
    have sub: "r \<in> queued q" if "r \<in> queued ?q" for r using that arg_cong [OF bag, of set_mset] by auto
    have len: "length (heap ?q) \<le> fuel"
    proof -
      have "length (tl (heap q)) = Suc (length (tl (heap ?q)))" using arg_cong [OF bag, of size] by simp
      then show ?thesis using Suc.prems(4) tq_inv_partsD(1) [OF spec(1)] by simp
    qed
    have dl: "timestamp (mem ?q r) = timestamp (mem q r)" for r
      using fun_cong [OF spec(4), of r] one(2) by (simp del: One_nat_def)
    obtain ts q' j where IH: "runTimers fuel clock noop (k + 1) ?q = Some (Ok (ts, q'))" "k + 1 \<le> j"
      "sorted (map timestamp ts)"
      "\<And>b t. (\<And>p. p \<in> queued ?q \<Longrightarrow> b \<le> timestamp (mem ?q p)) \<Longrightarrow> t \<in> set ts \<Longrightarrow> b \<le> timestamp t"
      "\<And>p. p \<in> queued ?q \<Longrightarrow> p \<in> queued q' \<and> clock j \<le> timestamp (mem q' p) \<or>
         (\<exists>t. t \<in> set ts \<and> tmFd t = tmFd (mem ?q p) \<and> timestamp t = timestamp (mem ?q p))"
      using Suc.IH [OF spec(1) spec(2) [OF ord] _ len, of "k + 1"] Suc.prems(3) sub spec(5) by blast
    have run: "runTimers (Suc fuel) clock noop k q = Some (Ok (first_timer q # ts, q'))"
      using IH(1) one(1) by (simp only: runTimers_unfold [of q clock k, OF inv True] option.case sum.case prod.case if_False)
    have lower: "b \<le> timestamp t" if "\<And>p. p \<in> queued q \<Longrightarrow> b \<le> timestamp (mem q p)" and "t \<in> set ts" for b t
      by (rule IH(4) [OF _ that(2)]) (simp add: dl that(1) sub)
    then have sorted: "sorted (map timestamp (first_timer q # ts))"
      using IH(3) first_is_min [OF ord] first(1) by (simp del: One_nat_def)
    have all: "r \<in> queued q' \<and> clock j \<le> timestamp (mem q' r) \<or>
        (\<exists>t. t \<in> set (first_timer q # ts) \<and> tmFd t = tmFd (mem q r) \<and> timestamp t = timestamp (mem q r))"
      if "r \<in> queued q" for r
    proof (cases "r = ?p")
      case False
      then have "r \<in> queued ?q" using that arg_cong [OF bag, of set_mset] by auto
      from IH(5) [OF this] show ?thesis by (auto simp: spec(7) dl)
    qed (use first(1,2) in auto)
    have low: "b \<le> timestamp t" if b: "\<forall>p. p \<in> queued q \<longrightarrow> b \<le> timestamp (mem q p)" and "t \<in> set (first_timer q # ts)" for b t
      using that(2) lower [of b t] b p by (auto simp: first(1) simp del: One_nat_def)
    show ?thesis using run sorted all low IH(2) by (intro exI [of _ "first_timer q # ts"] exI [of _ q'] exI [of _ j]) auto
  qed
qed


section \<open>The heap as a priority queue\<close>

text \<open>The items of the heap are its timers with their deadlines.\<close>

definition timer_items :: "tqueue \<Rightarrow> (ptr \<times> int) multiset" where
  "timer_items q = image_mset (\<lambda>p. (p, timestamp (mem q p))) (bag q)"

definition heap_ok :: "tqueue \<Rightarrow> bool" where
  "heap_ok q \<longleftrightarrow> heap q \<noteq> [] \<and> index_ok q \<and> heap_ordered q"

text \<open>Queueing a timer with a new deadline, as \<open>popTimer\<close> does when a timer repeats.\<close>

definition arm :: "ptr \<times> int \<Rightarrow> tqueue \<Rightarrow> tqueue" where
  "arm e q = heapInsert (fst e)
     (q\<lparr>mem := (mem q)(fst e := (mem q (fst e))\<lparr>timestamp := snd e\<rparr>)\<rparr>)"

definition take_first :: "tqueue \<Rightarrow> (ptr \<times> int) option \<times> tqueue" where
  "take_first q = (case heapPop q of
     (None, q1) \<Rightarrow> (None, q1) | (Some p, q1) \<Rightarrow> (Some (p, timestamp (mem q1 p)), q1))"

lemma restamp_ok:
  assumes "heap_ok q" and "p \<notin> queued q"
  shows "heap_ok (q\<lparr>mem := (mem q)(p := (mem q p)\<lparr>timestamp := d\<rparr>)\<rparr>)"
proof -
  let ?q = "q\<lparr>mem := (mem q)(p := (mem q p)\<lparr>timestamp := d\<rparr>)\<rparr>"
  have "ordered (deadline ?q) (heap q)"
    by (rule ordered_cong [of "deadline q"]) (use assms in \<open>auto simp: heap_ok_def heap_ordered_def\<close>)
  with assms(1) show ?thesis by (auto simp: heap_ok_def heap_ordered_def index_ok_def)
qed

interpretation tqh: deadline_queue heap_ok timer_items snd "\<lambda>e q. fst e \<notin> queued q" arm take_first
proof (unfold_locales, goal_cases)
  case (1 q e)
  let ?q = "q\<lparr>mem := (mem q)(fst e := (mem q (fst e))\<lparr>timestamp := snd e\<rparr>)\<rparr>"
  have ok: "heap_ok ?q" by (rule restamp_ok [OF 1])
  then have pre: "heap ?q \<noteq> []" "index_ok ?q" "fst e \<notin> queued ?q" using 1 by (auto simp: heap_ok_def)
  note ins = heapInsert_spec [OF pre]
  have "heap_ok (heapInsert (fst e) ?q)" using ins(2,4,5) ok unfolding heap_ok_def by blast
  moreover have "timer_items (heapInsert (fst e) ?q) = add_mset e (timer_items q)"
    using 1(2) unfolding timer_items_def ins(1) same_timersD(1) [OF ins(3)]
    by (auto intro!: image_mset_cong)
  ultimately show ?case by (simp add: arm_def)
next
  case (2 q)
  then have "length (heap q) \<le> 1" by (cases "heap q") (auto simp: timer_items_def)
  then show ?case by (simp add: take_first_def heapPop_def FirstItem_def)
next
  case (3 q)
  then have ne: "1 < length (heap q)"
    by (cases "heap q"; cases "tl (heap q)") (auto simp: timer_items_def heap_ok_def)
  have ok: "index_ok q" and ord: "heap_ordered q" using 3(1) by (auto simp: heap_ok_def)
  note spec = removeAt_spec [OF ok order_refl ne]
  have "take_first q = (Some (heap q ! 1, timestamp (mem q (heap q ! 1))), removeAt 1 q)"
    unfolding take_first_def heapPop_eq [OF ne] by (simp add: same_timersD(1) [OF spec(3)] del: One_nat_def)
  moreover have "heap_ok (removeAt 1 q)"
    using spec(2,4) removeAt_root_ordered [OF ok ne ord] by (simp add: heap_ok_def)
  moreover have "timer_items q = add_mset (heap q ! 1, timestamp (mem q (heap q ! 1))) (timer_items (removeAt 1 q))"
    unfolding timer_items_def same_timersD(1) [OF spec(3)] by (subst spec(1)) simp
  moreover have "timestamp (mem q (heap q ! 1)) \<le> snd x" if "x \<in># timer_items q" for x
    using that first_is_min [OF ord] by (auto simp: timer_items_def simp del: One_nat_def)
  ultimately show ?case by (metis snd_conv)
qed

section \<open>Descriptors and reachable states\<close>

text \<open>The descriptors in use are among the last \<open>n\<close> that the counter gave out.\<close>

definition fds_used :: "nat \<Rightarrow> tqueue \<Rightarrow> bool" where
  "fds_used n q \<longleftrightarrow> counter q = StartFd - of_nat n \<and>
     (\<forall>fd p. timers q fd = Some p \<longrightarrow> (\<exists>i. 1 \<le> i \<and> i \<le> n \<and> fd = StartFd - of_nat i))"

definition tq_ok :: "nat \<Rightarrow> tqueue \<Rightarrow> bool" where
  "tq_ok n q \<longleftrightarrow> tq_inv q \<and> (\<exists>m. m \<le> n \<and> fds_used m q)"

lemma tq_ok_new: "tq_ok n (newTimerQueue m)"
proof -
  have "fds_used 0 (newTimerQueue m)" by (simp add: fds_used_def newTimerQueue_def)
  then show ?thesis using tq_inv_new [of m] unfolding tq_ok_def by blast
qed

lemma tq_ok_mono: "tq_ok n q \<Longrightarrow> n \<le> k \<Longrightarrow> tq_ok k q"
  unfolding tq_ok_def by (meson order_trans)

lemma timer_fresh_fd:
  assumes "fds_used n q" and "Suc n < 2 ^ 32"
  shows "timers q (counter q - 1) = None"
proof (rule ccontr)
  assume "timers q (counter q - 1) \<noteq> None"
  with assms(1) obtain i where i: "1 \<le> i" "i \<le> n" "counter q - 1 = StartFd - of_nat i"
    unfolding fds_used_def by auto
  have "counter q = StartFd - of_nat n" using assms(1) by (simp add: fds_used_def)
  with i(3) have "StartFd - of_nat n - 1 = StartFd - (of_nat i :: 32 word)" by (simp only:)
  then have "StartFd - of_nat (Suc n) = StartFd - (of_nat i :: 32 word)"
    by (simp only: of_nat_Suc diff_diff_eq add.commute)
  then have "(of_nat (Suc n) :: 32 word) = of_nat i" by (simp only: diff_left_imp_eq)
  then have "unat (of_nat (Suc n) :: 32 word) = unat (of_nat i :: 32 word)" by (rule arg_cong)
  then have "Suc n mod 2 ^ 32 = i mod 2 ^ 32" by (simp only: unat_of_nat len_num1 len_bit0) simp
  then have "Suc n = i" using assms(2) i(2) by simp
  with i(2) show False by simp
qed

lemma tq_ok_schedule:
  assumes "tq_ok n q" and "Suc n < 2 ^ 32" and new: "\<not> alive q p"
  shows "tq_ok (Suc n) (snd (schedule p now delay cb rep q))" and "timers q (counter q - 1) = None"
proof -
  obtain m where m: "tq_inv q" "m \<le> n" "fds_used m q" using assms(1) unfolding tq_ok_def by blast
  show free: "timers q (counter q - 1) = None" using timer_fresh_fd [OF m(3)] m(2) assms(2) by simp
  note spec = schedule_spec [OF m(1) new free, of now delay cb rep]
  have "counter q - 1 = StartFd - of_nat (Suc m)" using m(3) by (simp add: fds_used_def)
  then have "fds_used (Suc m) (snd (schedule p now delay cb rep q))"
    using m(3) unfolding fds_used_def spec(4,5)
    by (auto split: if_splits intro: exI [of _ "Suc m"] le_SucI)
  then show "tq_ok (Suc n) (snd (schedule p now delay cb rep q))"
    using spec(2) m(2) unfolding tq_ok_def by (meson Suc_le_mono)
qed

lemma fds_used_sub:
  assumes "fds_used n q" and "counter q' = counter q"
    and "\<And>fd p. timers q' fd = Some p \<Longrightarrow> timers q fd = Some p"
  shows "fds_used n q'"
  using assms unfolding fds_used_def by fastforce

text \<open>What a client of the event loop, or one of its callbacks, does to the queue.\<close>

datatype action = Schedule ptr int int nat bool | Cancel "32 word"

text \<open>The allocator never returns the address of an object that is still allocated.\<close>

fun perform :: "action \<Rightarrow> tqueue \<Rightarrow> tqueue" where
  "perform (Schedule p now delay cb rep) q =
     (if alive q p then q else snd (schedule p now delay cb rep q))"
| "perform (Cancel fd) q = cancelTimer fd q"

lemma counter_cancelTimer: "tq_inv q \<Longrightarrow> counter (cancelTimer fd q) = counter q"
proof (cases "timers q fd")
  case (Some p)
  assume inv: "tq_inv q"
  note pos = queued_pos(1,2) [OF inv tq_inv_ownedD(1) [OF inv Some]]
  show ?thesis
    using same_timersD(8) [OF removeAt_spec(3) [OF tq_inv_partsD(2) [OF inv] pos]]
    by (simp add: cancelTimer_eq [OF inv Some])
qed (simp add: cancelTimer_unknown)

lemma perform_ok:
  assumes ok: "tq_ok n q" and n: "Suc n < 2 ^ 32"
  shows "tq_ok (Suc n) (perform a q)"
    and "alive q p \<Longrightarrow> p \<notin> queued q \<Longrightarrow> alive (perform a q) p \<and> p \<notin> queued (perform a q)"
proof -
  obtain m where m: "tq_inv q" "m \<le> n" "fds_used m q" using ok unfolding tq_ok_def by blast
  have "tq_ok (Suc n) (perform a q) \<and> (alive q p \<longrightarrow> p \<notin> queued q \<longrightarrow>
      alive (perform a q) p \<and> p \<notin> queued (perform a q))"
  proof (cases a)
    case (Schedule r now delay cb rep)
    show ?thesis
    proof (cases "alive q r")
      case False
      note new = tq_ok_schedule [OF ok n False]
      note spec = schedule_spec [OF m(1) False new(2), of now delay cb rep]
      have "queued (snd (schedule r now delay cb rep q)) = insert r (queued q)"
        using arg_cong [OF spec(3), of set_mset] by simp
      with False show ?thesis using new(1) by (auto simp: Schedule spec(6))
    qed (use ok tq_ok_mono in \<open>auto simp: Schedule\<close>)
  next
    case (Cancel fd)
    show ?thesis
    proof (cases "timers q fd")
      case (Some r)
      note spec = cancelTimer_spec [OF m(1) Some]
      have "fds_used m (cancelTimer fd q)"
        by (rule fds_used_sub [OF m(3) counter_cancelTimer [OF m(1)]])
          (simp add: spec(4) split: if_splits)
      then have "tq_ok (Suc n) (cancelTimer fd q)" using spec(1) m(2) unfolding tq_ok_def by (meson le_SucI)
      then show ?thesis using tq_inv_ownedD(1) [OF m(1) Some] by (auto simp: Cancel spec(3,6))
    qed (use ok tq_ok_mono in \<open>auto simp: Cancel cancelTimer_unknown\<close>)
  qed
  then show "tq_ok (Suc n) (perform a q)"
    and "alive q p \<Longrightarrow> p \<notin> queued q \<Longrightarrow> alive (perform a q) p \<and> p \<notin> queued (perform a q)" by blast+
qed

lemma perform_all_ok:
  assumes "tq_ok n q" and "n + length as < 2 ^ 32"
  shows "tq_ok (n + length as) (fold perform as q) \<and>
    (alive q p \<and> p \<notin> queued q \<longrightarrow> p \<notin> queued (fold perform as q))"
  using assms
proof (induction as arbitrary: n q)
  case (Cons a as)
  then have n: "Suc n < 2 ^ 32" by simp
  note step = perform_ok [OF Cons.prems(1) n]
  show ?case using Cons.IH [OF step(1)] Cons.prems(2) step(2) by auto
qed simp

text \<open>
  The states of a queue whose clients and callbacks work through the event loop: \<open>script cb\<close> is
  what callback \<open>cb\<close> does, \<open>n\<close> bounds the number of timers created.
\<close>

inductive tq_reach :: "(nat \<Rightarrow> action list) \<Rightarrow> nat \<Rightarrow> tqueue \<Rightarrow> bool" for script where
  start: "tq_reach script 0 (newTimerQueue m)"
| client: "tq_reach script n q \<Longrightarrow> tq_reach script (Suc n) (perform a q)"
| fire: "tq_reach script n q \<Longrightarrow> popTimer (\<lambda>cb. fold perform (script cb)) now q = Ok (t, q') \<Longrightarrow>
    tq_reach script (n + length (script (callback t))) q'"

lemma tq_ok_popTimer:
  assumes ok: "tq_ok n q" and n: "n + length (script (callback t)) < 2 ^ 32"
    and pop: "popTimer (\<lambda>cb. fold perform (script cb)) now q = Ok (t, q')"
  shows "tq_ok (n + length (script (callback t))) q'"
proof -
  obtain m where m: "tq_inv q" "m \<le> n" "fds_used m q" using ok unfolding tq_ok_def by blast
  have ne: "1 < length (heap q)"
  proof (rule ccontr)
    assume "\<not> 1 < length (heap q)"
    then show False using pop by (simp add: popTimer_def heapPop_def FirstItem_def)
  qed
  let ?run = "\<lambda>cb. fold perform (script cb)"
  let ?p = "heap q ! 1"
  note eq = popTimer_eq [OF m(1) ne, of ?run now] and first = first_timer_simps [OF m(1) ne]
  have t: "t = first_timer q" using pop unfolding eq by (simp add: Let_def split: if_splits)
  note same = same_timersD [OF removeAt_spec(3) [OF tq_inv_partsD(2) [OF m(1)] order_refl ne]]
  note more = rearmed_spec [OF m(1) ne] and one = fired_once_spec [OF m(1) ne]
  show ?thesis
  proof (cases "repeated t")
    case True
    let ?q3 = "rearmed (now + interval t) q"
    have "callback (mem ?q3 ?p) = callback t" and "counter ?q3 = counter q"
      using rearmed_callback [OF m(1) ne] by (simp_all only: t first)
    moreover have "q' = ?run (callback (mem ?q3 ?p)) ?q3"
      using pop True t unfolding eq by (simp add: Let_def)
    moreover have "tq_ok n ?q3"
      using more(1) m(2) fds_used_sub [OF m(3), of ?q3] \<open>counter ?q3 = _\<close> more(8)
      unfolding tq_ok_def by auto
    ultimately show ?thesis using perform_all_ok [of n ?q3 "script (callback t)"] n by simp
  next
    case False
    let ?q3 = "?run (callback t) (fired_once q)"
    have "fds_used m (fired_once q)"
      by (rule fds_used_sub [OF m(3)])
        (simp_all add: fired_once_def same del: One_nat_def split: if_splits)
    then have "tq_ok n (fired_once q)" using one(1) m(2) unfolding tq_ok_def by blast
    note all = perform_all_ok [OF this n, of ?p]
    have "alive (fired_once q) ?p \<and> ?p \<notin> queued (fired_once q)"
      using tq_inv_queuedD(1) [OF m(1) nth_queued [OF order_refl ne]] one(3,4) by simp
    with all have out: "?p \<notin> queued ?q3" and ok3: "tq_ok (n + length (script (callback t))) ?q3"
      by blast+
    have q': "q' = ?q3\<lparr>alive := (alive ?q3)(?p := False)\<rparr>"
      using pop False t unfolding eq by (simp add: Let_def)
    show ?thesis
      using ok3 tq_inv_free [OF _ out] unfolding tq_ok_def q' by (auto simp: fds_used_def)
  qed
qed

lemma tq_reach_ok: "tq_reach script n q \<Longrightarrow> n < 2 ^ 32 \<Longrightarrow> tq_ok n q"
proof (induction rule: tq_reach.induct)
  case (client n q a)
  then show ?case by (intro perform_ok(1)) auto
next
  case (fire n q now t q')
  then show ?case by (intro tq_ok_popTimer) auto
qed (rule tq_ok_new)

section \<open>Running on lists\<close>

text \<open>
  For one-shot timers and callbacks that leave the queue alone, filling a queue and running it
  dry are computations on the array alone.
\<close>

definition blank :: timer where
  "blank = \<lparr>tmFd = 0, repeated = False, heapIndex = 0, interval = 0, timestamp = 0, callback = 0\<rparr>"

definition queue_of :: "(ptr \<times> int) list \<Rightarrow> tqueue" where
  "queue_of ds = fold (\<lambda>(p, d). perform (Schedule p 0 d 0 False)) ds (newTimerQueue (\<lambda>_. blank))"

definition array_of :: "(ptr \<times> int) list \<Rightarrow> (ptr \<Rightarrow> int) \<times> ptr list" where
  "array_of ds = fold (\<lambda>(p, d) (f, h). (f(p := d), sift_up (f(p := d)) (h @ [p]) (length h))) ds
     (\<lambda>_. 0, [0])"

fun drain_array :: "nat \<Rightarrow> (ptr \<Rightarrow> int) \<Rightarrow> ptr list \<Rightarrow> int list" where
  "drain_array 0 f h = []"
| "drain_array (Suc n) f h =
     (if length h \<le> 1 then [] else f (h ! 1) # drain_array n f (sift_down f (without 1 h) 1))"

lemma heap_schedule:
  assumes inv: "tq_inv q" and new: "\<not> alive q p" and unused: "timers q (counter q - 1) = None"
  shows "heap (snd (schedule p now delay cb rep q)) =
    sift_up ((deadline q)(p := now + delay)) (heap q @ [p]) (length (heap q))"
proof -
  let ?q1 = "snd (createTimer p now delay cb rep q)"
  note made = createTimer_spec [OF inv new, of now delay cb rep]
  have pre: "timers ?q1 (tmFd (mem ?q1 p)) = None" by (simp add: made(4,7) unused)
  let ?n = "length (heap q)"
  let ?q2 = "setHeapIndex p ?n (?q1\<lparr>heap := heap ?q1 @ [p]\<rparr>)"
  have "same_timers ?q1 ?q2" by (rule same_timers_trans [OF same_heap_update same_setHeapIndex])
  then have "deadline ?q2 = deadline ?q1" by (rule same_deadline)
  also have "\<dots> = (deadline q)(p := now + delay)"
    by (rule ext, subst made(6)) (simp add: made(8))
  finally have "heap (heapUp ?n ?q2) = sift_up ((deadline q)(p := now + delay)) (heap q @ [p]) ?n"
    using made(3) by (simp add: heap_heapUp setHeapIndex_def)
  moreover have "snd (schedule p now delay cb rep q) = addTimer p ?q1"
    using made(1) by (simp add: schedule_def split_beta)
  ultimately show ?thesis
    by (simp add: addTimer_eq [OF made(2) pre] heapInsert_def Let_def made(3))
qed

lemma queue_of_spec:
  assumes "distinct (map fst ds)" and "length ds < 2 ^ 31"
  shows "tq_reach script (length ds) (queue_of ds) \<and> tq_inv (queue_of ds) \<and> heap_ordered (queue_of ds)
    \<and> fds_used (length ds) (queue_of ds) \<and> alive (queue_of ds) = (\<lambda>p. p \<in> fst ` set ds)
    \<and> deadline (queue_of ds) = fst (array_of ds) \<and> heap (queue_of ds) = snd (array_of ds)
    \<and> bag (queue_of ds) = mset (map fst ds)
    \<and> (\<forall>i. i < length ds \<longrightarrow> timers (queue_of ds) (StartFd - of_nat (Suc i)) = Some (fst (ds ! i)))
    \<and> (\<forall>r. \<not> repeated (mem (queue_of ds) r) \<and> interval (mem (queue_of ds) r) = fst (array_of ds) r)"
  using assms
proof (induction ds rule: rev_induct)
  case Nil
  have "tq_inv (queue_of [])" "tq_reach script 0 (queue_of [])"
    by (simp_all add: queue_of_def tq_inv_new tq_reach.start del: newTimerQueue_def)
  then show ?case
    by (simp add: queue_of_def array_of_def newTimerQueue_def FirstItem_def fds_used_def
        heap_ordered_def ordered_def blank_def)
next
  case (snoc x ds)
  obtain p d where x: "x = (p, d)" by fastforce
  let ?q = "queue_of ds"
  have IH: "tq_reach script (length ds) ?q" "tq_inv ?q" "heap_ordered ?q" "fds_used (length ds) ?q"
    "alive ?q = (\<lambda>p. p \<in> fst ` set ds)" "deadline ?q = fst (array_of ds)" "heap ?q = snd (array_of ds)"
    "bag ?q = mset (map fst ds)"
    "\<And>i. i < length ds \<Longrightarrow> timers ?q (StartFd - of_nat (Suc i)) = Some (fst (ds ! i))"
    "\<And>r. \<not> repeated (mem ?q r) \<and> interval (mem ?q r) = fst (array_of ds) r"
    using snoc by auto
  have new: "\<not> alive ?q p" using snoc.prems(1) by (auto simp: IH(5) x)
  have len: "Suc (length ds) < 2 ^ 32" using snoc.prems(2) by simp
  have ok: "tq_ok (length ds) ?q" using IH(2,4) unfolding tq_ok_def by blast
  note ok' = tq_ok_schedule [OF ok len new]
  have q': "queue_of (ds @ [x]) = snd (schedule p 0 d 0 False ?q)"
    using new by (simp add: queue_of_def x)
  note spec = schedule_spec [OF IH(2) new ok'(2), of 0 d 0 False, folded q']
  have cnt: "counter ?q - 1 = StartFd - of_nat (Suc (length ds))" using IH(4) by (simp add: fds_used_def)
  have "fds_used (Suc (length ds)) (queue_of (ds @ [x]))"
    using IH(4) unfolding fds_used_def spec(4,5) cnt by (fastforce intro: le_SucI split: if_splits)
  moreover have "tq_reach script (Suc (length ds)) (queue_of (ds @ [x]))"
    using tq_reach.client [OF IH(1), of "Schedule p 0 d 0 False"] new by (simp add: q')
  moreover have "deadline (queue_of (ds @ [x])) = fst (array_of (ds @ [x]))"
    using fun_cong [OF IH(6)] by (intro ext) (simp add: spec(7) [unfolded x] array_of_def x split_beta)
  moreover have "heap (queue_of (ds @ [x])) = snd (array_of (ds @ [x]))"
    unfolding q' heap_schedule [OF IH(2) new ok'(2)] by (simp add: IH(6,7) array_of_def x split_beta)
  moreover have "timers (queue_of (ds @ [x])) (StartFd - of_nat (Suc i)) = Some (fst ((ds @ [x]) ! i))"
    if i: "i < length (ds @ [x])" for i
    using i IH(9) [of i] ok'(2) unfolding spec(4) cnt by (cases "i = length ds") (auto simp: nth_append x)
  moreover have "\<not> repeated (mem (queue_of (ds @ [x])) r)
      \<and> interval (mem (queue_of (ds @ [x])) r) = fst (array_of (ds @ [x])) r" for r
    using IH(10) [of r] spec(10,11) [of r] by (simp add: array_of_def x split_beta)
  ultimately show ?case
    using spec(2,6) spec(9) [OF IH(3)] IH(5) spec(3) IH(8) by (auto simp: x)
qed


lemma heap_after_pop:
  assumes inv: "tq_inv q" and ne: "1 < length (heap q)" and "\<not> repeated (mem q (heap q ! 1))"
  shows "heap (after_pop now q) = sift_down (deadline q) (without 1 (heap q)) 1"
  using assms(3) removeAt_spec(5) [OF tq_inv_partsD(2) [OF inv] order_refl ne]
  by (simp add: after_pop_def fired_once_def first_timer_simps [OF inv ne] del: One_nat_def)

lemma runTimers_drain:
  assumes "tq_inv q" and "\<And>p. p \<in> queued q \<Longrightarrow> \<not> repeated (mem q p) \<and> timestamp (mem q p) < c"
    and "length (heap q) \<le> Suc n"
  shows "\<exists>ts q'. runTimers (Suc n) (\<lambda>_. c) noop k q = Some (Ok (ts, q'))
    \<and> map timestamp ts = drain_array n (deadline q) (heap q)"
  using assms
proof (induction n arbitrary: q k)
  case 0
  then have "\<not> checkTimers c q" by (auto simp: checkTimers_iff)
  then show ?case by simp
next
  case (Suc n)
  note inv = Suc.prems(1)
  show ?case
  proof (cases "1 < length (heap q)")
    case False
    then show ?thesis by (auto simp: checkTimers_iff)
  next
    case ne: True
    have one: "\<not> repeated (mem q (heap q ! 1))" and due: "timestamp (mem q (heap q ! 1)) < c"
      using Suc.prems(2) [OF nth_queued [OF order_refl ne]] by auto
    let ?q = "after_pop c q"
    note spec = after_pop_spec [OF inv ne, of c] and first = first_timer_simps [OF inv ne]
    have check: "checkTimers ((\<lambda>_. c) k) q" using ne due by (simp add: checkTimers_iff)
    have dl: "deadline ?q = deadline q" using spec(4) one by (simp del: One_nat_def)
    have "queued ?q \<subseteq> queued q"
      using arg_cong [OF spec(3), of set_mset] by (auto split: if_splits dest: in_diffD simp del: One_nat_def)
    then have "\<not> repeated (mem ?q p) \<and> timestamp (mem ?q p) < c" if "p \<in> queued ?q" for p
      using Suc.prems(2) [of p] that fun_cong [OF dl, of p] spec(5) by auto
    moreover have h: "heap ?q = sift_down (deadline q) (without 1 (heap q)) 1"
      by (rule heap_after_pop [OF inv ne one])
    moreover have "length (heap ?q) \<le> Suc n" using h Suc.prems(3) by simp
    ultimately obtain ts q' where "runTimers (Suc n) (\<lambda>_. c) noop (k + 1) ?q = Some (Ok (ts, q'))"
      "map timestamp ts = drain_array n (deadline q) (sift_down (deadline q) (without 1 (heap q)) 1)"
      using Suc.IH [OF spec(1), of "k + 1"] dl by auto
    then show ?thesis
      using ne one first(1,3) runTimers_unfold [of q "\<lambda>_. c" k "Suc n", OF inv check]
      by (simp del: runTimers.simps One_nat_def)
  qed
qed

text \<open>The queue of the counterexample and of the witnesses: seven one-shot timers.\<close>

definition seven :: "(ptr \<times> int) list" where
  "seven = [(1, 1), (2, 4), (3, 2), (4, 7), (5, 6), (6, 5), (7, 3)]"

lemma seven_array: "array_of seven =
    ((\<lambda>_. 0)(1 := 1, 2 := 4, 3 := 2, 4 := 7, 5 := 6, 6 := 5, 7 := 3), [0, 1, 2, 3, 4, 5, 6, 7])"
  by (simp add: seven_def array_of_def sift_up.simps)

lemma seven_drain:
  "drain_array 6 ((\<lambda>_. 0)(1 := 1, 2 := 4, 3 := 2, 4 := 7, 5 := 6, 6 := 5, 7 := 3)) [0, 1, 2, 3, 7, 5, 6]
    = [1, 2, 4, 3, 5, 6]"
  by (simp add: eval_nat_numeral without_def swap_def sift_down.simps sift_target_def)

lemma seven_ok:
  "tq_inv (queue_of seven)" "heap_ordered (queue_of seven)" "timers (queue_of seven) (StartFd - 4) = Some 4"
  "deadline (queue_of seven) = (\<lambda>_. 0)(1 := 1, 2 := 4, 3 := 2, 4 := 7, 5 := 6, 6 := 5, 7 := 3)"
  "heap (queue_of seven) = [0, 1, 2, 3, 4, 5, 6, 7]" "\<not> repeated (mem (queue_of seven) r)"
  "interval (mem (queue_of seven) r) = timestamp (mem (queue_of seven) r)"
  "tq_reach script 7 (queue_of seven)"
proof -
  have pre: "distinct (map fst seven)" "length seven < 2 ^ 31" by (simp_all add: seven_def)
  note spec = queue_of_spec [OF pre]
  have "\<forall>i. i < length seven \<longrightarrow>
      timers (queue_of seven) (StartFd - of_nat (Suc i)) = Some (fst (seven ! i))" using spec by blast
  from this [rule_format, of 3] show "timers (queue_of seven) (StartFd - 4) = Some 4"
    by (simp add: seven_def)
  show dl: "deadline (queue_of seven) = (\<lambda>_. 0)(1 := 1, 2 := 4, 3 := 2, 4 := 7, 5 := 6, 6 := 5, 7 := 3)"
    using spec by (simp only: seven_array fst_conv)
  show "heap (queue_of seven) = [0, 1, 2, 3, 4, 5, 6, 7]" using spec by (simp only: seven_array snd_conv)
  have "length seven = 7" by (simp add: seven_def)
  then show "tq_inv (queue_of seven)" "heap_ordered (queue_of seven)" "tq_reach script 7 (queue_of seven)"
    using spec by metis+
  have "\<not> repeated (mem (queue_of seven) r) \<and> interval (mem (queue_of seven) r) = fst (array_of seven) r"
    using spec by blast
  then show "\<not> repeated (mem (queue_of seven) r)"
    "interval (mem (queue_of seven) r) = timestamp (mem (queue_of seven) r)"
    using fun_cong [OF dl, of r] by (simp_all add: seven_array)
qed

section \<open>Properties\<close>

text \<open>
  C9. Firing the next timer of a queue in heap order never faults: it returns a queued timer
  with the smallest deadline of all, keeps heap and owning map consistent whatever the
  callback does within the queue's own interface, and a timer that does not repeat is neither
  queued nor allocated afterwards.
\<close>

theorem popTimer_fires_earliest:
  assumes inv: "tq_inv q" and ord: "heap_ordered q" and run: "run_ok run" and p: "p \<in> queued q"
  shows "\<exists>t q' r. popTimer run now q = Ok (t, q') \<and> tq_inv q' \<and> r \<in> queued q
    \<and> timestamp t = timestamp (mem q r) \<and> tmFd t = tmFd (mem q r) \<and> repeated t = repeated (mem q r)
    \<and> timestamp t \<le> timestamp (mem q p) \<and> (repeated t \<or> r \<notin> queued q' \<and> \<not> alive q' r)"
proof -
  let ?p = "heap q ! 1" and ?t = "first_timer q"
  have ne: "1 < length (heap q)" by (rule queued_nonempty [OF p])
  note first = first_timer_simps [OF inv ne] and pop = popTimer_eq [OF inv ne]
  have in_q: "?p \<in> queued q" by (rule nth_queued [OF order_refl ne])
  have le: "timestamp ?t \<le> timestamp (mem q p)" unfolding first by (rule first_is_min [OF ord p])
  show ?thesis
  proof (cases "repeated ?t")
    case True
    let ?q3 = "rearmed (now + interval ?t) q"
    have "popTimer run now q = Ok (?t, run (callback (mem ?q3 ?p)) ?q3)"
      using True by (simp add: pop Let_def)
    then show ?thesis
      using True in_q le first run_okD(1) [OF run rearmed_spec(1) [OF inv ne]] by blast
  next
    case False
    let ?q3 = "run (callback ?t) (fired_once q)"
    note one = fired_once_spec [OF inv ne]
    have "?p \<notin> queued ?q3"
      by (rule run_okD(2) [OF run one(1) _ one(3)]) (simp only: one(4) tq_inv_queuedD(1) [OF inv in_q])
    then have "tq_inv (?q3\<lparr>alive := (alive ?q3)(?p := False)\<rparr>)"
      "?p \<notin> queued (?q3\<lparr>alive := (alive ?q3)(?p := False)\<rparr>)"
      using tq_inv_free [OF run_okD(1) [OF run one(1)]] by simp_all
    moreover have "popTimer run now q = Ok (?t, ?q3\<lparr>alive := (alive ?q3)(?p := False)\<rparr>)"
      using False by (simp add: pop Let_def)
    moreover have "\<not> alive (?q3\<lparr>alive := (alive ?q3)(?p := False)\<rparr>) ?p" by simp
    ultimately show ?thesis using in_q le first by blast
  qed
qed

theorem popTimer_fires_earliest_witness:
  "\<exists>t q' r. popTimer noop 50 (queue_of seven) = Ok (t, q') \<and> tq_inv q' \<and> r \<in> queued (queue_of seven)
    \<and> timestamp t = timestamp (mem (queue_of seven) r) \<and> tmFd t = tmFd (mem (queue_of seven) r)
    \<and> repeated t = repeated (mem (queue_of seven) r) \<and> timestamp t \<le> timestamp (mem (queue_of seven) 7)
    \<and> (repeated t \<or> r \<notin> queued q' \<and> \<not> alive q' r)"
  by (rule popTimer_fires_earliest [OF seven_ok(1,2)]) (simp_all add: run_ok_def seven_ok(5))

text \<open>
  C31. Cancelling a timer takes exactly that timer out of the heap, frees it and forgets its
  descriptor; every other timer keeps its deadline and its place in the owning map. If the
  last timer of the array is not due before the parent of the cancelled one, the heap stays
  in order.
\<close>

theorem cancelTimer_removes_one:
  assumes inv: "tq_inv q" and own: "timers q fd = Some p"
  shows "tq_inv (cancelTimer fd q) \<and> bag q = add_mset p (bag (cancelTimer fd q))
    \<and> queued (cancelTimer fd q) = queued q - {p} \<and> alive (cancelTimer fd q) = (alive q)(p := False)
    \<and> timers (cancelTimer fd q) = (timers q)(fd := None)
    \<and> timestamp (mem (cancelTimer fd q) r) = timestamp (mem q r)
    \<and> (heap_ordered q \<and> timestamp (mem q (heap q ! (heapIndex (mem q p) div 2)))
          \<le> timestamp (mem q (last (heap q))) \<longrightarrow> heap_ordered (cancelTimer fd q))"
proof -
  note spec = cancelTimer_spec [OF inv own] and pos = queued_pos [OF inv tq_inv_ownedD(1) [OF inv own]]
  have "last (heap q) = heap q ! (length (heap q) - 1)"
    by (rule last_conv_nth) (rule tq_inv_partsD(1) [OF inv])
  then have "heap_ordered (cancelTimer fd q)" if "heap_ordered q"
    "timestamp (mem q (heap q ! (heapIndex (mem q p) div 2))) \<le> timestamp (mem q (last (heap q)))"
    using removeAt_ordered [OF tq_inv_partsD(2) [OF inv] pos(1,2) that(1)] that(2)
    by (simp add: cancelTimer_eq [OF inv own] ts_at_def heap_ordered_def)
  then show ?thesis using spec fun_cong [OF spec(5), of r] by blast
qed

theorem cancelTimer_removes_one_witness:
  "tq_inv (cancelTimer (StartFd - 4) (queue_of seven))
    \<and> bag (queue_of seven) = add_mset 4 (bag (cancelTimer (StartFd - 4) (queue_of seven)))
    \<and> alive (cancelTimer (StartFd - 4) (queue_of seven)) = (alive (queue_of seven))(4 := False)"
  using cancelTimer_removes_one [OF seven_ok(1,3)] by blast




text \<open>
  C21. Whatever clients and callbacks do through \<open>addTimer\<close> and \<open>cancelTimer\<close>, in a queue that
  has created fewer than 2^32 timers the heap and the owning map hold the same allocated
  timers, each under its own descriptor and with its position stored; and as long as a timer
  is queued, firing the next one does not fault.
\<close>

theorem reachable_queue_consistent:
  assumes "tq_reach script n q" and "n < 2 ^ 32"
  shows "tq_inv q \<and> (queued q \<noteq> {} \<longrightarrow>
    (\<exists>t q'. popTimer (\<lambda>cb. fold perform (script cb)) now q = Ok (t, q')))"
proof -
  have inv: "tq_inv q" using tq_reach_ok [OF assms] by (simp add: tq_ok_def)
  have "\<exists>t q'. popTimer (\<lambda>cb. fold perform (script cb)) now q = Ok (t, q')" if "p \<in> queued q" for p
    unfolding popTimer_eq [OF inv queued_nonempty [OF that]] Let_def
    by (cases "repeated (first_timer q)") simp_all
  with inv show ?thesis unfolding ex_in_conv [symmetric] by blast
qed

theorem reachable_queue_consistent_witness:
  "tq_inv (queue_of seven)
    \<and> (\<exists>t q'. popTimer (\<lambda>cb. fold perform ((\<lambda>_. [Cancel 7]) cb)) 3 (queue_of seven) = Ok (t, q'))"
  using reachable_queue_consistent [of "\<lambda>_. [Cancel 7]" 7, OF seven_ok(8)] by (simp add: seven_ok(5))

text \<open>
  C39. \<open>heapDelete\<close> moves the last timer into the hole and sifts it down, never up. A queue of
  seven timers due at 1, 4, 2, 7, 6, 5 and 3, built by \<open>addTimer\<close> alone and in heap order, is
  no longer in order once the timer due at 7 is cancelled, and then the timer due at 4 fires
  before the one due at 3.
\<close>

theorem cancelTimer_breaks_deadline_order:
  "tq_inv (queue_of seven) \<and> heap_ordered (queue_of seven)
    \<and> \<not> heap_ordered (cancelTimer (StartFd - 4) (queue_of seven))
    \<and> (\<exists>ts q'. runTimers 7 (\<lambda>_. 100) noop 0 (cancelTimer (StartFd - 4) (queue_of seven)) = Some (Ok (ts, q'))
         \<and> map timestamp ts = [1, 2, 4, 3, 5, 6])"
proof -
  let ?q = "queue_of seven" and ?q' = "cancelTimer (StartFd - 4) (queue_of seven)"
  note inv = seven_ok(1) and own = seven_ok(3) and h = seven_ok(5)
  note spec = cancelTimer_spec [OF inv own]
  have "heapIndex (mem ?q (heap ?q ! 4)) = 4"
    by (rule index_okD [OF tq_inv_partsD(2) [OF inv]]) (simp_all add: h)
  then have pos: "heapIndex (mem ?q 4) = 4" by (simp add: h)
  have dl: "deadline ?q' = deadline ?q" by (rule spec(5))
  have h': "heap ?q' = [0, 1, 2, 3, 7, 5, 6]"
    using removeAt_spec(5) [OF tq_inv_partsD(2) [OF inv], of 4]
    by (simp add: cancelTimer_eq [OF inv own] pos h without_def swap_def sift_down.simps)
  have "\<not> ordered (deadline ?q') (heap ?q')"
    unfolding ordered_def dl seven_ok(4) h' by (rule notI) (drule HOL.spec [of _ 4], simp)
  then have bad: "\<not> heap_ordered ?q'" by (simp only: heap_ordered_def not_False_eq_True)
  have live: "\<not> repeated (mem ?q' p) \<and> timestamp (mem ?q' p) < 100" for p
    using fun_cong [OF dl, of p] fun_cong [OF seven_ok(4), of p] spec(7) [of p] seven_ok(6) [of p]
    by simp
  have "length (heap ?q') \<le> Suc 6" by (simp add: h')
  note run = runTimers_drain [of ?q' 100 6 0, OF spec(1) live this]
  show ?thesis
    using inv seven_ok(2) bad run unfolding dl seven_ok(4) h' seven_drain by simp
qed


text \<open>
  Popping a heap in order until it is empty gives every queued timer exactly once, in the
  order of the deadlines.
\<close>

theorem heapPop_drains_in_order:
  assumes "tq_inv q" and "heap_ordered q" and "length (heap q) \<le> Suc n"
  shows "sorted (map snd (drain take_first n q))
    \<and> mset (drain take_first n q) = image_mset (\<lambda>p. (p, timestamp (mem q p))) (mset (tl (heap q)))"
proof -
  have "heap_ok q" using tq_inv_partsD [OF assms(1)] assms(2) by (simp add: heap_ok_def)
  moreover have "size (timer_items q) \<le> n" using assms(3) by (simp add: timer_items_def)
  ultimately show ?thesis using tqh.drain_all [of q n] by (simp only: timer_items_def)
qed

theorem heapPop_drains_in_order_witness:
  "sorted (map snd (drain take_first 7 (queue_of seven)))
    \<and> mset (drain take_first 7 (queue_of seven))
      = image_mset (\<lambda>p. (p, timestamp (mem (queue_of seven) p))) (mset (tl (heap (queue_of seven))))"
  by (rule heapPop_drains_in_order [OF seven_ok(1,2)]) (simp add: seven_ok(5))

text \<open>
  A repeated timer with a negative interval (\<open>addTimer\<close> checks no delay) keeps the loop in
  \<open>runTimers\<close> for ever: re-armed in the past, it is due again at the next reading of the clock,
  so no amount of rounds is enough.
\<close>

theorem negative_interval_never_returns:
  assumes "tq_inv q" and "heap_ordered q" and "mono clock"
    and "p \<in> queued q" and "repeated (mem q p)" and "interval (mem q p) < 0"
    and "timestamp (mem q p) < clock k"
  shows "runTimers fuel clock noop k q = None"
  using assms(1,2,4-7)
proof (induction fuel arbitrary: q k)
  case (Suc fuel)
  note inv = Suc.prems(1) and ord = Suc.prems(2) and p = Suc.prems(3)
  have ne: "1 < length (heap q)" by (rule queued_nonempty [OF p])
  let ?q = "after_pop (clock (Suc k)) q" and ?k = "if repeated (first_timer q) then k + 2 else k + 1"
  note spec = after_pop_spec [OF inv ne, of "clock (Suc k)"] and first = first_timer_simps [OF inv ne]
  have check: "checkTimers (clock k) q"
    using ne first_is_min [OF ord p] Suc.prems(6) by (simp add: checkTimers_iff del: One_nat_def)
  have clk: "clock k \<le> clock ?k" "clock (Suc k) \<le> clock (k + 2)" using assms(3) by (auto intro: monoD)
  have "p \<in># bag ?q" using p Suc.prems(4) unfolding spec(3) by (auto simp: in_diff_count)
  moreover have "timestamp (mem ?q p) < clock ?k"
    using fun_cong [OF spec(4), of p] clk Suc.prems(4-6) first(3) by (auto split: if_splits simp del: One_nat_def)
  ultimately have "runTimers fuel clock noop ?k ?q = None"
    using Suc.IH [OF spec(1) spec(2) [OF ord], of ?k] Suc.prems(4,5) spec(5,6) by simp
  then show ?case by (simp only: runTimers_unfold [of q clock k, OF inv check] option.case)
qed simp

theorem negative_interval_never_returns_witness:
  "runTimers 1000 (\<lambda>_. 50) noop 0 (snd (schedule 1 0 (- 1) 0 True (newTimerQueue (\<lambda>_. blank)))) = None"
proof -
  let ?q = "newTimerQueue (\<lambda>_. blank)"
  have pre: "tq_inv ?q" "\<not> alive ?q 1" "timers ?q (counter ?q - 1) = None" "heap_ordered ?q"
    using tq_inv_new by (simp_all add: newTimerQueue_def heap_ordered_def ordered_def FirstItem_def)
  note spec = schedule_spec [OF pre(1-3), of 0 "- 1" 0 True]
  have "1 \<in> queued (snd (schedule 1 0 (- 1) 0 True ?q))" using arg_cong [OF spec(3), of set_mset] by simp
  note queued = this
  show ?thesis
    by (rule negative_interval_never_returns [OF spec(2) spec(9) [OF pre(4)] _ queued])
      (simp_all add: spec(7,10,11) mono_def del: One_nat_def)
qed

end
