(* ===== verification/LoopTimers.thy ===== *)
theory LoopTimers
  imports TimerSpec
begin

text \<open>
  \<open>EventLoop::addTimer\<close> and \<open>EventLoop::cancelTimer\<close> called from any thread: the timer is created at once, but
  a thread other than the loop's only queues the functor that arms or cancels it. So there are timers
  that are allocated and not yet in the queue.
\<close>

section \<open>Operations\<close>

datatype timer_task = ArmTask ptr | CancelTask "32 word"

record tloop =
  ltid :: nat
  ltq :: tqueue
  ltasks :: "timer_task list"

definition newTimerLoop :: "nat \<Rightarrow> (ptr \<Rightarrow> timer) \<Rightarrow> tloop" where
  "newTimerLoop t m = \<lparr>ltid = t, ltq = newTimerQueue m, ltasks = []\<rparr>"

text \<open>
  \<open>addTimer\<close> on thread \<open>t\<close> up to its \<open>return\<close>: the address of the new timer, \<open>p\<close>, and the state. The \<open>return\<close>
  reads the timer again.
\<close>

definition loop_addTimer :: "nat \<Rightarrow> ptr \<Rightarrow> int \<Rightarrow> int \<Rightarrow> nat \<Rightarrow> bool \<Rightarrow> tloop \<Rightarrow> ptr \<times> tloop" where
  "loop_addTimer t p now delay cb rep s =
     (let (tm, q) = createTimer p now delay cb rep (ltq s); s1 = s\<lparr>ltq := q\<rparr>
      in (tm, if t = ltid s1 then s1\<lparr>ltq := addTimer tm (ltq s1)\<rparr> else s1\<lparr>ltasks := ltasks s1 @ [ArmTask tm]\<rparr>))"

definition addTimer_return :: "ptr \<Rightarrow> tloop \<Rightarrow> 32 word res" where
  "addTimer_return tm s = (if alive (ltq s) tm then Ok (tmFd (mem (ltq s) tm)) else Fail UseAfterFree)"

definition loop_cancelTimer :: "nat \<Rightarrow> 32 word \<Rightarrow> tloop \<Rightarrow> tloop" where
  "loop_cancelTimer t fd s =
     (if t = ltid s then s\<lparr>ltq := cancelTimer fd (ltq s)\<rparr> else s\<lparr>ltasks := ltasks s @ [CancelTask fd]\<rparr>)"

text \<open>The loop runs the first functor.\<close>

fun loop_run_task :: "tloop \<Rightarrow> tloop" where
  "loop_run_task s = (case ltasks s of
     [] \<Rightarrow> s
   | ArmTask p # ts \<Rightarrow> s\<lparr>ltasks := ts, ltq := addTimer p (ltq s)\<rparr>
   | CancelTask fd # ts \<Rightarrow> s\<lparr>ltasks := ts, ltq := cancelTimer fd (ltq s)\<rparr>)"

text \<open>One round of \<open>runTimers\<close>, with callbacks that leave the queue alone.\<close>

definition loop_fire :: "int \<Rightarrow> int \<Rightarrow> tloop \<Rightarrow> tloop res" where
  "loop_fire now now' s =
     (if checkTimers now (ltq s) then bindR (popTimer (\<lambda>_ q. q) now' (ltq s)) (\<lambda>(t, q). Ok (s\<lparr>ltq := q\<rparr>)) else Ok s)"

text \<open>What threads and the loop do, in any order; the allocator never returns an address in use.\<close>

datatype timer_op = Request nat ptr int int nat bool | Revoke nat "32 word" | RunTask | Fire int int

fun timer_do :: "timer_op \<Rightarrow> tloop \<Rightarrow> tloop res" where
  "timer_do (Request t p now delay cb rep) s =
     Ok (if alive (ltq s) p then s else snd (loop_addTimer t p now delay cb rep s))"
| "timer_do (Revoke t fd) s = Ok (loop_cancelTimer t fd s)"
| "timer_do RunTask s = Ok (loop_run_task s)"
| "timer_do (Fire now now') s = loop_fire now now' s"

primrec timer_run :: "timer_op list \<Rightarrow> tloop \<Rightarrow> tloop res" where
  "timer_run [] s = Ok s"
| "timer_run (x # xs) s = bindR (timer_do x s) (timer_run xs)"

fun requests :: "timer_op list \<Rightarrow> nat" where
  "requests [] = 0"
| "requests (Request t p now delay cb rep # xs) = Suc (requests xs)"
| "requests (_ # xs) = requests xs"

section \<open>The invariant\<close>

text \<open>The timers whose functor still waits.\<close>

fun arm_ptr :: "timer_task \<Rightarrow> ptr list" where
  "arm_ptr (ArmTask p) = [p]"
| "arm_ptr (CancelTask fd) = []"

definition waiting_ptrs :: "tloop \<Rightarrow> ptr list" where
  "waiting_ptrs s = concat (map arm_ptr (ltasks s))"

definition numbered :: "nat \<Rightarrow> 32 word \<Rightarrow> bool" where
  "numbered n fd \<longleftrightarrow> (\<exists>i. 1 \<le> i \<and> i \<le> n \<and> fd = StartFd - of_nat i)"

definition timers_inv :: "nat \<Rightarrow> tqueue \<Rightarrow> ptr list \<Rightarrow> bool" where
  "timers_inv n q ps \<longleftrightarrow> tq_inv q \<and> counter q = StartFd - of_nat n \<and> distinct ps
     \<and> (\<forall>fd p. timers q fd = Some p \<longrightarrow> numbered n fd)
     \<and> (\<forall>p \<in> set ps. p \<notin> queued q \<and> numbered n (tmFd (mem q p)) \<and> timers q (tmFd (mem q p)) = None)
     \<and> inj_on (\<lambda>p. tmFd (mem q p)) (set ps)
     \<and> (\<forall>p. alive q p \<longleftrightarrow> p \<in> set ps \<or> p \<in> queued q)"

lemma numbered_mono: "numbered m fd \<Longrightarrow> m \<le> n \<Longrightarrow> numbered n fd"
  unfolding numbered_def using order_trans by blast

lemma fresh_number: "Suc n < 2 ^ 32 \<Longrightarrow> \<not> numbered n (StartFd - of_nat n - 1)"
proof
  assume n: "Suc n < 2 ^ 32" and "numbered n (StartFd - of_nat n - 1)"
  then obtain i where i: "1 \<le> i" "i \<le> n" "StartFd - of_nat n - 1 = StartFd - (of_nat i :: 32 word)"
    by (auto simp: numbered_def)
  define q where "q = (newTimerQueue undefined)\<lparr>counter := StartFd - of_nat n, timers := [StartFd - of_nat i \<mapsto> 0]\<rparr>"
  have "fds_used n q" using i(1,2) by (auto simp: fds_used_def q_def split: if_splits)
  from timer_fresh_fd [OF this n] show False by (simp add: q_def i(3))
qed

lemma timers_invD:
  assumes "timers_inv n q ps"
  shows "tq_inv q" and "counter q = StartFd - of_nat n" and "distinct ps"
    and "timers q fd = Some p \<Longrightarrow> numbered n fd"
    and "p \<in> set ps \<Longrightarrow> p \<notin> queued q" and "p \<in> set ps \<Longrightarrow> numbered n (tmFd (mem q p))"
    and "p \<in> set ps \<Longrightarrow> timers q (tmFd (mem q p)) = None"
    and "inj_on (\<lambda>p. tmFd (mem q p)) (set ps)" and "alive q p \<longleftrightarrow> p \<in> set ps \<or> p \<in> queued q"
  using assms unfolding timers_inv_def by blast+

lemma timers_inv_create:
  assumes inv: "timers_inv n q ps" and new: "\<not> alive q p" and n: "Suc n < 2 ^ 32"
  shows "timers_inv (Suc n) (snd (createTimer p now delay cb rep q)) (ps @ [p])"
proof -
  let ?q = "snd (createTimer p now delay cb rep q)"
  note d = timers_invD [OF inv] and made = createTimer_spec [OF timers_invD(1) [OF inv] new, of now delay cb rep]
  have out: "p \<notin> set ps" "p \<notin> queued q" using new d(9) by blast+
  have fd: "tmFd (mem ?q p) = StartFd - of_nat n - 1" using made(7) d(2) by simp
  have old: "mem ?q r = mem q r" if "r \<noteq> p" for r using that by (subst made(6)) simp
  have num: "numbered (Suc n) (tmFd (mem ?q p))" unfolding fd numbered_def by (intro exI [of _ "Suc n"]) simp
  have fresh: "timers q (tmFd (mem ?q p)) = None" "tmFd (mem ?q p) \<noteq> tmFd (mem q r)" if "r \<in> set ps" for r
    using fresh_number [OF n] d(4) d(6) [OF that] unfolding fd by (metis option.exhaust, metis)
  have fresh0: "timers q (tmFd (mem ?q p)) = None"
    using fresh_number [OF n] d(4) unfolding fd by (metis option.exhaust)
  have q: "queued ?q = queued q" using made(3) by simp
  have eq: "tmFd (mem ?q r) = tmFd (mem q r)" if "r \<in> set ps" for r using old [of r] that out(1) by fastforce
  have "inj_on (\<lambda>r. tmFd (mem ?q r)) (set ps)" using d(8) eq by (simp add: inj_on_def)
  then have inj: "inj_on (\<lambda>r. tmFd (mem ?q r)) (set (ps @ [p]))"
    using fresh(2) not_sym [OF fresh(2)] eq out(1) by (auto simp: inj_on_def)
  show ?thesis unfolding timers_inv_def
  proof (intro conjI allI impI ballI)
    show "counter ?q = StartFd - of_nat (Suc n)" using made(5) d(2) by simp
    show "distinct (ps @ [p])" using d(3) out(1) by simp
    show "numbered (Suc n) fd" if "timers ?q fd = Some r" for fd r
      using that d(4) numbered_mono [of n fd "Suc n"] made(4) by simp
    fix r assume r: "r \<in> set (ps @ [p])"
    show "r \<notin> queued ?q" using r d(5) out(2) q by auto
    show "numbered (Suc n) (tmFd (mem ?q r))" using r num d(6) numbered_mono [of n _ "Suc n"] eq by auto
    show "timers ?q (tmFd (mem ?q r)) = None" using r fresh0 d(7) eq made(4) by auto
  qed (use made(2,11) inj d(9) q in auto)
qed

lemma timers_inv_add:
  assumes inv: "timers_inv n q (ps @ p # qs)"
  shows "timers_inv n (addTimer p q) (ps @ qs)"
proof -
  note d = timers_invD [OF inv]
  have live: "alive q p" and none: "timers q (tmFd (mem q p)) = None" using d(7,9) [of p] by simp_all
  note add = addTimer_spec [OF d(1) none live]
  have q: "queued (addTimer p q) = insert p (queued q)" using arg_cong [OF add(2), of set_mset] by simp
  have ne: "r \<noteq> p \<and> tmFd (mem q r) \<noteq> tmFd (mem q p)" if "r \<in> set (ps @ qs)" for r
  proof -
    have "r \<noteq> p" using d(3) that by auto
    moreover have "r \<in> set (ps @ p # qs)" "p \<in> set (ps @ p # qs)" using that by auto
    ultimately show ?thesis using d(8) unfolding inj_on_def by blast
  qed
  show ?thesis unfolding timers_inv_def
  proof (intro conjI allI impI ballI)
    show "numbered n fd" if "timers (addTimer p q) fd = Some r" for fd r
      using that d(4) d(6) [of p] by (auto simp: add(7) split: if_splits)
    fix r assume r: "r \<in> set (ps @ qs)"
    then have r': "r \<in> set (ps @ p # qs)" by auto
    show "r \<notin> queued (addTimer p q)" using d(5) [OF r'] ne [OF r] q by simp
    show "numbered n (tmFd (mem (addTimer p q) r))" using d(6) [OF r'] by (simp add: add(8))
    show "timers (addTimer p q) (tmFd (mem (addTimer p q) r)) = None" using d(7) [OF r'] ne [OF r] by (simp add: add(7,8))
  next
    show "inj_on (\<lambda>r. tmFd (mem (addTimer p q) r)) (set (ps @ qs))"
      using d(8) unfolding add(8) by (rule inj_on_subset) auto
    show "alive (addTimer p q) r \<longleftrightarrow> r \<in> set (ps @ qs) \<or> r \<in> queued (addTimer p q)" for r
      using d(9) [of r] add(3) q by auto
  qed (use add(1,6) d(2,3) in simp_all)
qed

text \<open>Taking a timer of the queue out and freeing it.\<close>

lemma timers_inv_remove:
  assumes inv: "timers_inv n q ps" and p: "p \<in> queued q" and q': "tq_inv q'" "counter q' = counter q"
    "queued q' = queued q - {p}" "alive q' = (alive q)(p := False)" "timers q' = (timers q)(tmFd (mem q p) := None)"
    "\<And>r. tmFd (mem q' r) = tmFd (mem q r)"
  shows "timers_inv n q' ps"
proof -
  note d = timers_invD [OF inv]
  have "p \<notin> set ps" using d(5) p by blast
  then show ?thesis unfolding timers_inv_def using q' d p by (auto split: if_splits)
qed

lemma timers_inv_cancel:
  assumes inv: "timers_inv n q ps"
  shows "timers_inv n (cancelTimer fd q) ps"
proof (cases "timers q fd")
  case None
  then show ?thesis using inv by (simp add: cancelTimer_unknown)
next
  case (Some p)
  note d = timers_invD [OF inv] and spec = cancelTimer_spec [OF timers_invD(1) [OF inv] Some]
  note own = tq_inv_ownedD [OF d(1) Some] and pos = queued_pos(1,2) [OF d(1) tq_inv_ownedD(1) [OF d(1) Some]]
  have fd: "tmFd (mem (cancelTimer fd q) r) = tmFd (mem q r)" for r
    using same_timersD(2) [OF removeAt_spec(3) [OF tq_inv_partsD(2) [OF d(1)] pos]]
    by (simp add: cancelTimer_eq [OF d(1) Some])
  show ?thesis
    by (rule timers_inv_remove [OF inv own(1) spec(1) counter_cancelTimer [OF d(1)] spec(6,3)])
      (simp_all add: spec(4) own(2) fd)
qed

lemma timers_inv_same:
  assumes inv: "timers_inv n q ps" and q': "tq_inv q'" "counter q' = counter q" "queued q' = queued q"
    "alive q' = alive q" "timers q' = timers q" "\<And>r. tmFd (mem q' r) = tmFd (mem q r)"
  shows "timers_inv n q' ps"
  using timers_invD [OF inv] q' unfolding timers_inv_def by auto

lemma due_nonempty: "checkTimers now q \<Longrightarrow> 1 < length (heap q)"
  by (simp add: checkTimers_def FirstItem_def split: if_splits)

lemma pop_quiet:
  assumes inv: "tq_inv q" and ne: "1 < length (heap q)"
  shows "popTimer (\<lambda>_ q. q) now q = Ok (first_timer q,
    if repeated (first_timer q) then rearmed (now + interval (first_timer q)) q
    else (fired_once q)\<lparr>alive := (alive q)(heap q ! 1 := False)\<rparr>)"
  by (simp add: popTimer_eq [OF inv ne] Let_def fired_once_spec(4) [OF inv ne] del: One_nat_def)

lemma timers_inv_fire:
  assumes inv: "timers_inv n q ps" and ne: "1 < length (heap q)"
  obtains t q' where "popTimer (\<lambda>_ q. q) now q = Ok (t, q')" and "timers_inv n q' ps"
proof -
  note d = timers_invD [OF inv]
  let ?p = "heap q ! 1"
  have p: "?p \<in> queued q" by (rule nth_queued [OF order_refl ne])
  note one = fired_once_spec [OF d(1) ne] and more = rearmed_spec [OF d(1) ne]
  note same = same_timersD [OF removeAt_spec(3) [OF tq_inv_partsD(2) [OF d(1)] order_refl ne]]
  have "timers_inv n (rearmed e q) ps" for e
    by (rule timers_inv_same [OF inv more(1) rearmed_callback(2) [OF d(1) ne]])
      (use arg_cong [OF more(2), of set_mset] more(3,8,9) in simp_all)
  moreover have "timers_inv n ((fired_once q)\<lparr>alive := (alive q)(?p := False)\<rparr>) ps"
  proof (rule timers_inv_remove [OF inv p])
    have "tq_inv ((fired_once q)\<lparr>alive := (alive (fired_once q))(?p := False)\<rparr>)"
      by (rule tq_inv_free [OF one(1,3)])
    then show "tq_inv ((fired_once q)\<lparr>alive := (alive q)(?p := False)\<rparr>)" by (simp only: one(4))
    have "queued q = insert ?p (queued (fired_once q))" using arg_cong [OF one(2), of set_mset] by simp
    then show "queued ((fired_once q)\<lparr>alive := (alive q)(?p := False)\<rparr>) = queued q - {?p}" using one(3) by auto
  qed (simp_all add: fired_once_def same del: One_nat_def)
  ultimately show ?thesis using pop_quiet [OF d(1) ne, of now] that by (metis (full_types))
qed

lemma timers_inv_new: "timers_inv 0 (newTimerQueue m) []"
  using tq_inv_new [of m] by (simp add: timers_inv_def newTimerQueue_def FirstItem_def)

lemma waiting_ptrs_simps [simp]:
  "waiting_ptrs (s\<lparr>ltq := q\<rparr>) = waiting_ptrs s"
  "waiting_ptrs (s\<lparr>ltq := q, ltasks := ts\<rparr>) = concat (map arm_ptr ts)"
  "waiting_ptrs (s\<lparr>ltasks := ts\<rparr>) = concat (map arm_ptr ts)"
  by (simp_all add: waiting_ptrs_def)

lemma timer_do_inv:
  assumes inv: "timers_inv n (ltq s) (waiting_ptrs s)" and n: "n + requests [x] < 2 ^ 32"
  shows "\<exists>s' k. timer_do x s = Ok s' \<and> k \<le> n + requests [x] \<and> timers_inv k (ltq s') (waiting_ptrs s')"
proof (cases x)
  case (Request t p now delay cb rep)
  show ?thesis
  proof (cases "alive (ltq s) p")
    case True
    then show ?thesis using inv Request by (auto intro: exI [of _ n])
  next
    case False
    let ?q = "snd (createTimer p now delay cb rep (ltq s))"
    have p: "fst (createTimer p now delay cb rep (ltq s)) = p" by (simp add: createTimer_def Let_def)
    have made: "timers_inv (Suc n) ?q (waiting_ptrs s @ [p])" using timers_inv_create [OF inv False] n Request by simp
    then have "timers_inv (Suc n) (addTimer p ?q) (waiting_ptrs s)" using timers_inv_add [of "Suc n" ?q "waiting_ptrs s" p "[]"] by simp
    then show ?thesis using made False Request p
      by (simp add: loop_addTimer_def split_beta Let_def) (auto simp: waiting_ptrs_def intro: exI [of _ "Suc n"])
  qed
next
  case (Revoke t fd)
  then show ?thesis using inv timers_inv_cancel [OF inv, of fd]
    by (auto simp: loop_cancelTimer_def waiting_ptrs_def)
next
  case RunTask
  show ?thesis
  proof (cases "ltasks s")
    case Nil
    then show ?thesis using inv RunTask by auto
  next
    case (Cons task ts)
    then have w: "waiting_ptrs s = arm_ptr task @ concat (map arm_ptr ts)" by (simp add: waiting_ptrs_def)
    show ?thesis
    proof (cases task)
      case (ArmTask p)
      then show ?thesis using timers_inv_add [of n "ltq s" "[]" p "concat (map arm_ptr ts)"] inv w Cons RunTask
        by (auto simp: waiting_ptrs_def)
    next
      case (CancelTask fd)
      then show ?thesis using timers_inv_cancel [OF inv, of fd] w Cons RunTask by (auto simp: waiting_ptrs_def)
    qed
  qed
next
  case (Fire now now')
  show ?thesis
  proof (cases "checkTimers now (ltq s)")
    case True
    obtain t q where "popTimer (\<lambda>_ q. q) now' (ltq s) = Ok (t, q)" "timers_inv n q (waiting_ptrs s)"
      by (rule timers_inv_fire [OF inv due_nonempty [OF True]])
    then show ?thesis using Fire True by (auto simp: loop_fire_def)
  next
    case False
    then show ?thesis using inv Fire by (auto simp: loop_fire_def)
  qed
qed

lemma timer_run_inv:
  assumes "timers_inv n (ltq s) (waiting_ptrs s)" and "n + requests xs < 2 ^ 32"
  shows "\<exists>s' k. timer_run xs s = Ok s' \<and> timers_inv k (ltq s') (waiting_ptrs s')"
  using assms
proof (induction xs arbitrary: n s)
  case (Cons x xs)
  have r: "requests (x # xs) = requests [x] + requests xs" by (cases x) simp_all
  with Cons.prems(2) have "n + requests [x] < 2 ^ 32" by linarith
  from timer_do_inv [OF Cons.prems(1) this] obtain s1 k where s1: "timer_do x s = Ok s1" "k \<le> n + requests [x]"
    "timers_inv k (ltq s1) (waiting_ptrs s1)" by blast
  have "k + requests xs < 2 ^ 32" using s1(2) Cons.prems(2) r by linarith
  from Cons.IH [OF s1(3) this] s1(1) show ?case by simp
qed auto

section \<open>Properties\<close>

text \<open>
  C17. No timer is lost, leaked or confused, whichever threads ask for it: in any interleaving of requests,
  cancellations, functors and expiries that creates fewer than 2^32 timers, every allocated timer
  either waits in exactly one functor or is in the queue, the queue is consistent, and no two allocated
  timers have the same descriptor.
\<close>

theorem timers_from_any_thread:
  assumes "requests xs < 2 ^ 32"
  shows "\<exists>s. timer_run xs (newTimerLoop t m) = Ok s \<and> tq_inv (ltq s) \<and> distinct (waiting_ptrs s)
    \<and> {p. alive (ltq s) p} = set (waiting_ptrs s) \<union> queued (ltq s) \<and> set (waiting_ptrs s) \<inter> queued (ltq s) = {}
    \<and> inj_on (\<lambda>p. tmFd (mem (ltq s) p)) {p. alive (ltq s) p}"
proof -
  have "timers_inv 0 (ltq (newTimerLoop t m)) (waiting_ptrs (newTimerLoop t m))"
    using timers_inv_new by (simp add: newTimerLoop_def waiting_ptrs_def)
  from timer_run_inv [OF this, of xs] assms obtain s k where s: "timer_run xs (newTimerLoop t m) = Ok s"
    "timers_inv k (ltq s) (waiting_ptrs s)" by auto
  note d = timers_invD [OF s(2)]
  have "p = r" if "alive (ltq s) p" "alive (ltq s) r" "tmFd (mem (ltq s) p) = tmFd (mem (ltq s) r)" for p r
  proof -
    have one: "q1 = q2" if "q1 \<in> queued (ltq s)" "tmFd (mem (ltq s) q1) = tmFd (mem (ltq s) q2)" "alive (ltq s) q2" for q1 q2
      using tq_inv_queuedD(2) [OF d(1) that(1)] d(7) [of q2] d(9) [of q2] that(2,3) tq_inv_queuedD(2) [OF d(1), of q2]
      by auto
    show ?thesis
    proof (cases "p \<in> queued (ltq s) \<or> r \<in> queued (ltq s)")
      case True
      then show ?thesis using one [of p r] one [of r p] that by metis
    next
      case False
      then have "p \<in> set (waiting_ptrs s)" "r \<in> set (waiting_ptrs s)" using d(9) that by blast+
      then show ?thesis using d(8) that(3) by (meson inj_onD)
    qed
  qed
  then have "inj_on (\<lambda>p. tmFd (mem (ltq s) p)) {p. alive (ltq s) p}" by (auto simp: inj_on_def)
  then show ?thesis using s(1) d(1,3,5,9) by blast
qed

lemma timers_from_any_thread_witness:
  "\<exists>s. timer_run [Request 2 5 0 10 1 False, Request 1 6 0 20 2 True, RunTask, Revoke 2 StartFd, Fire 30 30, RunTask]
      (newTimerLoop 1 (\<lambda>_. blank)) = Ok s
    \<and> tq_inv (ltq s) \<and> {p. alive (ltq s) p} = set (waiting_ptrs s) \<union> queued (ltq s)"
proof -
  have "requests [Request 2 5 0 10 1 False, Request 1 6 0 20 2 True, RunTask, Revoke 2 StartFd, Fire 30 30, RunTask] < 2 ^ 32"
    by simp
  from timers_from_any_thread [OF this, of 1 "\<lambda>_. blank"] show ?thesis by blast
qed

text \<open>
  \<open>addTimer\<close> reads the timer after giving it away: when another thread asks for a timer that does not
  repeat, the loop may arm it, fire it and free it before the caller gets to its \<open>return\<close>, which then
  reads freed memory. On the loop's own thread the call returns the timer's descriptor.
\<close>

theorem addTimer_return_use_after_free:
  assumes "t \<noteq> tid" and "now + delay < now'"
  shows "(\<exists>s. timer_run [Request t p now delay cb False, RunTask, Fire now' now''] (newTimerLoop tid m) = Ok s
      \<and> addTimer_return p s = Fail UseAfterFree)
    \<and> addTimer_return p (snd (loop_addTimer tid p now delay cb rep (newTimerLoop tid m))) = Ok (StartFd - 1)"
proof -
  let ?empty = "newTimerQueue m"
  have new: "tq_inv ?empty" "\<not> alive ?empty p" "timers ?empty (counter ?empty - 1) = None" "counter ?empty = StartFd" "bag ?empty = {#}"
    using tq_inv_new by (simp_all add: newTimerQueue_def FirstItem_def)
  note spec = schedule_spec [OF new(1-3), of now delay cb]
  have sch: "snd (schedule p now delay cb b ?empty) = addTimer p (snd (createTimer p now delay cb b ?empty))" for b
    by (simp add: schedule_def createTimer_def Let_def)
  let ?q = "snd (schedule p now delay cb False ?empty)"
  have q: "queued ?q = {p}" using arg_cong [OF spec(3), of set_mset] new(5) by simp
  then have ne: "1 < length (heap ?q)" using queued_nonempty [of p ?q] by simp
  then have top: "heap ?q ! 1 = p" using nth_queued [OF order_refl ne] q by simp
  have due: "checkTimers now' ?q" using ne top spec(7) [of False p] assms(2) by (simp add: checkTimers_iff del: One_nat_def)
  have "\<not> repeated (first_timer ?q)" using first_timer_simps(3) [OF spec(2) ne] top spec(11) [of False p] by simp
  then have fire: "loop_fire now' now'' \<lparr>ltid = tid, ltq = ?q, ltasks = []\<rparr>
      = Ok \<lparr>ltid = tid, ltq = (fired_once ?q)\<lparr>alive := (alive ?q)(p := False)\<rparr>, ltasks = []\<rparr>"
    using due pop_quiet [OF spec(2) ne, of now''] top by (simp add: loop_fire_def)
  have "loop_addTimer t p now delay cb False (newTimerLoop tid m)
      = (p, \<lparr>ltid = tid, ltq = snd (createTimer p now delay cb False ?empty), ltasks = [ArmTask p]\<rparr>)"
    using assms(1) by (simp add: loop_addTimer_def newTimerLoop_def createTimer_def Let_def)
  then have "timer_run [Request t p now delay cb False, RunTask, Fire now' now''] (newTimerLoop tid m)
      = Ok \<lparr>ltid = tid, ltq = (fired_once ?q)\<lparr>alive := (alive ?q)(p := False)\<rparr>, ltasks = []\<rparr>"
    using new(2) fire sch [of False] by (simp add: newTimerLoop_def)
  moreover have "snd (loop_addTimer tid p now delay cb rep (newTimerLoop tid m))
      = \<lparr>ltid = tid, ltq = snd (schedule p now delay cb rep ?empty), ltasks = []\<rparr>"
    using sch [of rep] by (simp add: loop_addTimer_def newTimerLoop_def createTimer_def Let_def)
  ultimately show ?thesis using spec(6,8) [of rep] new(4) by (simp add: addTimer_return_def)
qed

lemma addTimer_return_use_after_free_witness:
  "\<exists>s. timer_run [Request 2 5 0 10 1 False, RunTask, Fire 30 30] (newTimerLoop 1 (\<lambda>_. blank)) = Ok s
    \<and> addTimer_return 5 s = Fail UseAfterFree"
  using addTimer_return_use_after_free [of 2 1 0 10 30 5 1 30 "\<lambda>_. blank"] by simp

end
