(* ===== verification/Poller.thy ===== *)
theory Poller
  imports Prelude
begin

text \<open>
  Descriptors under watch: \<open>net/fd/IOFd.h\<close>, \<open>net/fd/IOFd.cpp\<close>, \<open>net/poller/EPollPoller.cpp\<close> and
  the two forwarding methods of \<open>EventLoop\<close>. An \<open>IOFd\<close> is an object of an explicit store, the
  epoll instance of a loop is the map of its registrations, which \<open>epoll_ctl\<close> changes as the
  manual page of \<open>epoll_ctl\<close> documents. The code ignores the result of \<open>epoll_ctl\<close>: the model
  counts the failing calls.
\<close>

section \<open>State\<close>

datatype Status = NEW | ADDED | DELETED

record iofd =
  fdno :: "32 word"
  handling :: bool
  events :: "32 word"
  revents :: "32 word"
  status :: Status
  looper :: "nat option"
  observer :: "nat option"
  readCallback :: "nat option"
  writeCallback :: "nat option"
  closeCallback :: "nat option"
  errorCallback :: "nat option"

text \<open>\<open>pfds\<close> is \<open>_fds\<close>, \<open>evsize\<close> the size of \<open>_events\<close>, the rest the kernel's side of the instance.\<close>

record epoller =
  pfds :: "32 word \<Rightarrow> nat option"
  evsize :: nat
  kernel :: "32 word \<Rightarrow> (32 word \<times> nat) option"
  badctl :: nat

text \<open>
  All descriptors and loops of a process as one thread sees them: \<open>here\<close> is the thread that
  runs, \<open>loop_tid\<close> the thread that created each loop.
\<close>

record netw =
  iofds :: "nat \<Rightarrow> iofd option"
  pollers :: "nat \<Rightarrow> epoller"
  loop_tid :: "nat \<Rightarrow> nat"
  here :: nat

definition POLLIN :: "32 word" where "POLLIN = 1"
definition POLLPRI :: "32 word" where "POLLPRI = 2"
definition POLLOUT :: "32 word" where "POLLOUT = 4"
definition POLLERR :: "32 word" where "POLLERR = 8"
definition POLLHUP :: "32 word" where "POLLHUP = 16"
definition POLLNVAL :: "32 word" where "POLLNVAL = 32"
definition POLLRDHUP :: "32 word" where "POLLRDHUP = 8192"

lemmas poll_bits = POLLIN_def POLLPRI_def POLLOUT_def POLLERR_def POLLHUP_def POLLNVAL_def POLLRDHUP_def

definition kReadEvent :: "32 word" where
  "kReadEvent = POLLIN OR POLLPRI"

definition kWriteEvent :: "32 word" where
  "kWriteEvent = POLLOUT"

definition isReading :: "iofd \<Rightarrow> bool" where
  "isReading f \<longleftrightarrow> events f AND kReadEvent \<noteq> 0"

definition isWriting :: "iofd \<Rightarrow> bool" where
  "isWriting f \<longleftrightarrow> events f AND kWriteEvent \<noteq> 0"

definition isNoneEvent :: "iofd \<Rightarrow> bool" where
  "isNoneEvent f \<longleftrightarrow> events f = 0"

text \<open>The constructor does not initialise \<open>_observer\<close>: it is what the memory held.\<close>

definition newIOFd :: "32 word \<Rightarrow> nat option \<Rightarrow> iofd" where
  "newIOFd fd raw = \<lparr>fdno = fd, handling = False, events = 0, revents = 0, status = NEW,
     looper = None, observer = raw, readCallback = None, writeCallback = None,
     closeCallback = None, errorCallback = None\<rparr>"

definition fdAt :: "nat \<Rightarrow> netw \<Rightarrow> iofd res" where
  "fdAt p w = (case iofds w p of None \<Rightarrow> Fail UseAfterFree | Some f \<Rightarrow> Ok f)"

definition putFd :: "nat \<Rightarrow> iofd \<Rightarrow> netw \<Rightarrow> netw" where
  "putFd p f w = w\<lparr>iofds := (iofds w)(p \<mapsto> f)\<rparr>"

section \<open>The poller\<close>

datatype ctl = EPOLL_CTL_ADD | EPOLL_CTL_MOD | EPOLL_CTL_DEL

text \<open>ADD fails on a registered descriptor, MOD and DEL on one that is not.\<close>

definition epoll_ctl :: "ctl \<Rightarrow> 32 word \<Rightarrow> 32 word \<times> nat \<Rightarrow> epoller \<Rightarrow> epoller" where
  "epoll_ctl operation fd event ep =
     (case (operation, kernel ep fd) of
        (EPOLL_CTL_ADD, None) \<Rightarrow> ep\<lparr>kernel := (kernel ep)(fd \<mapsto> event)\<rparr>
      | (EPOLL_CTL_MOD, Some _) \<Rightarrow> ep\<lparr>kernel := (kernel ep)(fd \<mapsto> event)\<rparr>
      | (EPOLL_CTL_DEL, Some _) \<Rightarrow> ep\<lparr>kernel := (kernel ep)(fd := None)\<rparr>
      | _ \<Rightarrow> ep\<lparr>badctl := Suc (badctl ep)\<rparr>)"

definition controlFd :: "ctl \<Rightarrow> nat \<Rightarrow> iofd \<Rightarrow> epoller \<Rightarrow> epoller" where
  "controlFd operation p f ep = epoll_ctl operation (fdno f) (events f, p) ep"

definition kInitEventListSize :: nat where
  "kInitEventListSize = 16"

definition newEPollPoller :: epoller where
  "newEPollPoller = \<lparr>pfds = Map.empty, evsize = kInitEventListSize, kernel = Map.empty, badctl = 0\<rparr>"

definition hasFd :: "nat \<Rightarrow> iofd \<Rightarrow> epoller \<Rightarrow> bool" where
  "hasFd p f ep \<longleftrightarrow> pfds ep (fdno f) = Some p"

definition poller_updateFd :: "nat \<Rightarrow> iofd \<Rightarrow> epoller \<Rightarrow> (iofd \<times> epoller) res" where
  "poller_updateFd p f ep =
     (case status f of
        NEW \<Rightarrow>
          assertR (pfds ep (fdno f) = None)
            (let f1 = f\<lparr>status := ADDED\<rparr>; ep1 = ep\<lparr>pfds := (pfds ep)(fdno f \<mapsto> p)\<rparr>
             in Ok (f1, controlFd EPOLL_CTL_ADD p f1 ep1))
      | DELETED \<Rightarrow>
          assertR (hasFd p f ep)
            (let f1 = f\<lparr>status := ADDED\<rparr> in Ok (f1, controlFd EPOLL_CTL_ADD p f1 ep))
      | ADDED \<Rightarrow>
          assertR (hasFd p f ep)
            (if isNoneEvent f then Ok (f\<lparr>status := DELETED\<rparr>, controlFd EPOLL_CTL_DEL p f ep)
             else Ok (f, controlFd EPOLL_CTL_MOD p f ep)))"

definition poller_removeFd :: "nat \<Rightarrow> iofd \<Rightarrow> epoller \<Rightarrow> (iofd \<times> epoller) res" where
  "poller_removeFd p f ep =
     (if \<not> hasFd p f ep then Ok (f, ep)
      else
        assertR (isNoneEvent f)
          (assertR (status f = ADDED \<or> status f = DELETED)
            (let ep1 = ep\<lparr>pfds := (pfds ep)(fdno f := None)\<rparr>;
                 ep2 = (if status f = ADDED then controlFd EPOLL_CTL_DEL p f ep1 else ep1)
             in Ok (f\<lparr>status := NEW\<rparr>, ep2))))"

text \<open>
  \<open>epoll_wait\<close> is a parameter: given the room in the array it returns the reported events, or
  an error. \<open>reserve\<close> changes the capacity of the array, not its size.
\<close>

fun setREvents :: "(32 word \<times> nat) list \<Rightarrow> netw \<Rightarrow> netw res" where
  "setREvents [] w = Ok w"
| "setREvents ((ev, p) # rest) w =
     bindR (fdAt p w) (\<lambda>f. setREvents rest (putFd p (f\<lparr>revents := ev\<rparr>) w))"

definition poller_poll ::
  "(nat \<Rightarrow> (32 word \<times> nat) list sys) \<Rightarrow> nat \<Rightarrow> nat list \<Rightarrow> netw \<Rightarrow> (nat list \<times> netw) res"
where
  "poller_poll epoll_wait l activeFds w =
     (case epoll_wait (evsize (pollers w l)) of
        SysErr e \<Rightarrow> Ok (activeFds, w)
      | SysOk evs \<Rightarrow>
          if evs = [] then Ok (activeFds, w)
          else bindR (setREvents evs w) (\<lambda>w1. Ok (List.map snd evs, w1)))"

section \<open>The loop's part\<close>

definition assertInLoopThread :: "nat \<Rightarrow> netw \<Rightarrow> netw res \<Rightarrow> netw res" where
  "assertInLoopThread l w k = (if loop_tid w l = here w then k else Fail FatalAbort)"

definition putPoller :: "nat \<Rightarrow> epoller \<Rightarrow> netw \<Rightarrow> netw" where
  "putPoller l ep w = w\<lparr>pollers := (pollers w)(l := ep)\<rparr>"

definition loop_updateFd :: "nat \<Rightarrow> nat \<Rightarrow> netw \<Rightarrow> netw res" where
  "loop_updateFd l p w =
     bindR (fdAt p w) (\<lambda>f. assertR (looper f = Some l) (assertInLoopThread l w
       (bindR (poller_updateFd p f (pollers w l)) (\<lambda>(f1, ep). Ok (putPoller l ep (putFd p f1 w))))))"

definition loop_removeFd :: "nat \<Rightarrow> nat \<Rightarrow> netw \<Rightarrow> netw res" where
  "loop_removeFd l p w =
     bindR (fdAt p w) (\<lambda>f. assertR (looper f = Some l) (assertInLoopThread l w
       (bindR (poller_removeFd p f (pollers w l)) (\<lambda>(f1, ep). Ok (putPoller l ep (putFd p f1 w))))))"

section \<open>The descriptor's part\<close>

definition fd_update :: "nat \<Rightarrow> netw \<Rightarrow> netw res" where
  "fd_update p w = bindR (fdAt p w) (\<lambda>f.
     case looper f of None \<Rightarrow> Fail NullDeref | Some l \<Rightarrow> loop_updateFd l p w)"

definition set_events :: "nat \<Rightarrow> iofd \<Rightarrow> 32 word \<Rightarrow> netw \<Rightarrow> netw res" where
  "set_events p f e w = fd_update p (putFd p (f\<lparr>events := e\<rparr>) w)"

definition enableRead :: "nat \<Rightarrow> netw \<Rightarrow> netw res" where
  "enableRead p w = bindR (fdAt p w) (\<lambda>f.
     if \<not> isReading f then set_events p f (events f OR kReadEvent) w else Ok w)"

definition enableWrite :: "nat \<Rightarrow> netw \<Rightarrow> netw res" where
  "enableWrite p w = bindR (fdAt p w) (\<lambda>f.
     if \<not> isWriting f then set_events p f (events f OR kWriteEvent) w else Ok w)"

definition disableRead :: "nat \<Rightarrow> netw \<Rightarrow> netw res" where
  "disableRead p w = bindR (fdAt p w) (\<lambda>f.
     if isReading f then set_events p f (events f AND NOT kReadEvent) w else Ok w)"

definition disableWrite :: "nat \<Rightarrow> netw \<Rightarrow> netw res" where
  "disableWrite p w = bindR (fdAt p w) (\<lambda>f.
     if isWriting f then set_events p f (events f AND NOT kWriteEvent) w else Ok w)"

definition disableAll :: "nat \<Rightarrow> netw \<Rightarrow> netw res" where
  "disableAll p w = bindR (fdAt p w) (\<lambda>f. if events f \<noteq> 0 then set_events p f 0 w else Ok w)"

definition detachInLoop :: "nat \<Rightarrow> netw \<Rightarrow> (bool \<times> netw) res" where
  "detachInLoop p w = bindR (fdAt p w) (\<lambda>f.
     case looper f of
       None \<Rightarrow> Ok (False, w)
     | Some l \<Rightarrow>
         bindR (assertInLoopThread l w (Ok w)) (\<lambda>w0.
         bindR (disableAll p w0) (\<lambda>w1.
         bindR (loop_removeFd l p w1) (\<lambda>w2.
         bindR (fdAt p w2) (\<lambda>f2. Ok (True, putFd p (f2\<lparr>looper := None\<rparr>) w2))))))"

definition attachInLoop :: "nat \<Rightarrow> nat \<Rightarrow> netw \<Rightarrow> netw res" where
  "attachInLoop l p w =
     bindR (assertInLoopThread l w (Ok w)) (\<lambda>w0.
     bindR (fdAt p w0) (\<lambda>f.
       if looper f = Some l then Ok w0
       else
         bindR (if looper f \<noteq> None then bindR (detachInLoop p w0) (\<lambda>(b, w1). Ok w1) else Ok w0) (\<lambda>w2.
         bindR (fdAt p w2) (\<lambda>f2.
           let w3 = putFd p (f2\<lparr>looper := Some l\<rparr>) w2
           in if events f2 \<noteq> 0 then fd_update p w3 else Ok w3))))"

text \<open>The destructor's assertions, then the memory is gone.\<close>

definition deleteIOFd :: "nat \<Rightarrow> netw \<Rightarrow> netw res" where
  "deleteIOFd p w = bindR (fdAt p w) (\<lambda>f.
     assertR (\<not> handling f) (assertR (status f \<noteq> ADDED) (assertR (looper f = None)
       (assertR (isNoneEvent f) (Ok (w\<lparr>iofds := (iofds w)(p := None)\<rparr>))))))"


section \<open>Dispatch\<close>

datatype hook = OnClose | OnError | OnRead | OnWrite

text \<open>
  What observers and callbacks do is client code: \<open>obs o h p\<close> is method \<open>h\<close> of observer \<open>o\<close>
  called with the descriptor at \<open>p\<close>, \<open>cb c\<close> is the call of callback \<open>c\<close>.
\<close>

definition fire ::
  "(nat \<Rightarrow> hook \<Rightarrow> nat \<Rightarrow> netw \<Rightarrow> netw res) \<Rightarrow> (nat \<Rightarrow> netw \<Rightarrow> netw res) \<Rightarrow> hook \<Rightarrow>
    (iofd \<Rightarrow> nat option) \<Rightarrow> nat \<Rightarrow> netw \<Rightarrow> netw res" where
  "fire obs cb h sel p w = bindR (fdAt p w) (\<lambda>f.
     case observer f of
       Some ob \<Rightarrow> obs ob h p w
     | None \<Rightarrow> (case sel f of None \<Rightarrow> Ok w | Some c \<Rightarrow> cb c w))"

definition fire_if ::
  "(nat \<Rightarrow> hook \<Rightarrow> nat \<Rightarrow> netw \<Rightarrow> netw res) \<Rightarrow> (nat \<Rightarrow> netw \<Rightarrow> netw res) \<Rightarrow> 32 word \<Rightarrow> hook \<Rightarrow>
    (iofd \<Rightarrow> nat option) \<Rightarrow> nat \<Rightarrow> netw \<Rightarrow> netw res" where
  "fire_if obs cb bits h sel p w = bindR (fdAt p w) (\<lambda>f.
     if revents f AND bits \<noteq> 0 then fire obs cb h sel p w else Ok w)"

definition handleEvent ::
  "(nat \<Rightarrow> hook \<Rightarrow> nat \<Rightarrow> netw \<Rightarrow> netw res) \<Rightarrow> (nat \<Rightarrow> netw \<Rightarrow> netw res) \<Rightarrow> nat \<Rightarrow> netw \<Rightarrow> netw res"
where
  "handleEvent obs cb p w = bindR (fdAt p w) (\<lambda>f.
     if revents f AND POLLHUP \<noteq> 0 \<and> revents f AND POLLIN = 0 then
       fire obs cb OnClose closeCallback p (putFd p (f\<lparr>handling := False, revents := 0\<rparr>) w)
     else
       bindR (fire_if obs cb (POLLERR OR POLLNVAL) OnError errorCallback p
                (putFd p (f\<lparr>handling := True\<rparr>) w)) (\<lambda>w1.
       bindR (fire_if obs cb (POLLIN OR POLLPRI OR POLLRDHUP) OnRead readCallback p w1) (\<lambda>w2.
       bindR (fire_if obs cb POLLOUT OnWrite writeCallback p w2) (\<lambda>w3.
       bindR (fdAt p w3) (\<lambda>f3. Ok (putFd p (f3\<lparr>handling := False, revents := 0\<rparr>) w3))))))"

text \<open>The descriptors of one round of \<open>EventLoop::start\<close>, in the order of the list.\<close>

fun handle_active ::
  "(nat \<Rightarrow> hook \<Rightarrow> nat \<Rightarrow> netw \<Rightarrow> netw res) \<Rightarrow> (nat \<Rightarrow> netw \<Rightarrow> netw res) \<Rightarrow> nat list \<Rightarrow> netw \<Rightarrow> netw res"
where
  "handle_active obs cb [] w = Ok w"
| "handle_active obs cb (p # ps) w = bindR (handleEvent obs cb p w) (handle_active obs cb ps)"

section \<open>The contract of a watched descriptor\<close>

text \<open>
  Between operations: a descriptor that belongs to no loop has no events and is new, one that
  belongs to a loop is registered with that loop's epoll instance, with its events, exactly
  when it has any; the poller's map knows the registered ones; no call of \<open>epoll_ctl\<close> failed.
\<close>

definition fd_ok :: "netw \<Rightarrow> nat \<Rightarrow> iofd \<Rightarrow> bool" where
  "fd_ok w p f \<longleftrightarrow> (case looper f of
     None \<Rightarrow> events f = 0 \<and> status f = NEW
   | Some l \<Rightarrow> (status f = ADDED \<longleftrightarrow> events f \<noteq> 0)
       \<and> (status f \<noteq> NEW \<longrightarrow> pfds (pollers w l) (fdno f) = Some p))"

definition poller_ok :: "netw \<Rightarrow> nat \<Rightarrow> bool" where
  "poller_ok w l \<longleftrightarrow> badctl (pollers w l) = 0 \<and> evsize (pollers w l) = kInitEventListSize \<and>
     (\<forall>fd. case pfds (pollers w l) fd of
        None \<Rightarrow> kernel (pollers w l) fd = None
      | Some p \<Rightarrow> \<exists>f. iofds w p = Some f \<and> fdno f = fd \<and> looper f = Some l \<and> status f \<noteq> NEW
          \<and> kernel (pollers w l) fd = (if status f = ADDED then Some (events f, p) else None))"

definition watch_inv :: "netw \<Rightarrow> bool" where
  "watch_inv w \<longleftrightarrow> (\<forall>p f. iofds w p = Some f \<longrightarrow> fd_ok w p f) \<and> (\<forall>l. poller_ok w l) \<and>
     (\<forall>p q f g. iofds w p = Some f \<and> iofds w q = Some g \<and> fdno f = fdno g \<longrightarrow> p = q)"

lemma watch_invD:
  assumes "watch_inv w"
  shows "iofds w p = Some f \<Longrightarrow> fd_ok w p f" and "poller_ok w l"
    and "iofds w p = Some f \<Longrightarrow> iofds w q = Some g \<Longrightarrow> fdno f = fdno g \<Longrightarrow> p = q"
  using assms unfolding watch_inv_def by blast+

lemma poller_okD:
  assumes "poller_ok w l"
  shows "badctl (pollers w l) = 0" and "evsize (pollers w l) = kInitEventListSize"
    and "pfds (pollers w l) fd = None \<Longrightarrow> kernel (pollers w l) fd = None"
    and "pfds (pollers w l) fd = Some p \<Longrightarrow> \<exists>f. iofds w p = Some f \<and> fdno f = fd \<and> looper f = Some l
      \<and> status f \<noteq> NEW \<and> kernel (pollers w l) fd = (if status f = ADDED then Some (events f, p) else None)"
proof -
  note ok = assms [unfolded poller_ok_def]
  show "badctl (pollers w l) = 0" "evsize (pollers w l) = kInitEventListSize" using ok by blast+
  note fd = ok [THEN conjunct2, THEN conjunct2, THEN spec, of fd]
  show "pfds (pollers w l) fd = None \<Longrightarrow> kernel (pollers w l) fd = None" using fd by simp
  show "pfds (pollers w l) fd = Some p \<Longrightarrow> \<exists>f. iofds w p = Some f \<and> fdno f = fd \<and> looper f = Some l
      \<and> status f \<noteq> NEW \<and> kernel (pollers w l) fd = (if status f = ADDED then Some (events f, p) else None)"
    using fd by (simp only: option.case)
qed

lemma put_simps [simp]:
  "iofds (putFd p f w) = (iofds w)(p \<mapsto> f)" "pollers (putFd p f w) = pollers w"
  "loop_tid (putFd p f w) = loop_tid w" "here (putFd p f w) = here w"
  "iofds (putPoller l ep w) = iofds w" "pollers (putPoller l ep w) = (pollers w)(l := ep)"
  "loop_tid (putPoller l ep w) = loop_tid w" "here (putPoller l ep w) = here w"
  by (simp_all add: putFd_def putPoller_def)

lemma fdAt_Some [simp]: "iofds w p = Some f \<Longrightarrow> fdAt p w = Ok f"
  by (simp add: fdAt_def)

lemma putFd_putFd [simp]: "putFd p f (putFd p g w) = putFd p f w"
  by (simp add: putFd_def)

lemma putFd_same [simp]: "iofds w p = Some f \<Longrightarrow> putFd p f w = w"
  by (simp add: putFd_def map_upd_triv)

text \<open>Replacing a descriptor and its loop's poller keeps the rest of the invariant.\<close>

lemma watch_inv_put:
  assumes inv: "watch_inv w" and f: "iofds w p = Some f" and same: "fdno g = fdno f"
    and keep: "looper f = Some l" "looper g \<in> {Some l, None}"
    and other: "\<And>fd. fd \<noteq> fdno f \<Longrightarrow> pfds ep fd = pfds (pollers w l) fd \<and> kernel ep fd = kernel (pollers w l) fd"
    and good: "badctl ep = 0" "evsize ep = kInitEventListSize"
    and own: "fd_ok (putPoller l ep (putFd p g w)) p g"
    and reg: "case pfds ep (fdno f) of None \<Rightarrow> kernel ep (fdno f) = None
      | Some r \<Rightarrow> r = p \<and> looper g = Some l \<and> status g \<noteq> NEW
          \<and> kernel ep (fdno f) = (if status g = ADDED then Some (events g, p) else None)"
  shows "watch_inv (putPoller l ep (putFd p g w))"
proof -
  let ?w = "putPoller l ep (putFd p g w)"
  note un = watch_invD(3) [OF inv]
  have "fd_ok ?w r h" if r: "iofds ?w r = Some h" for r h
  proof (cases "r = p")
    case True with r own show ?thesis by simp
  next
    case False
    then have h: "iofds w r = Some h" using r by simp
    then have "fdno h \<noteq> fdno f" using un [OF h f] False by blast
    then show ?thesis
      using watch_invD(1) [OF inv h] other [of "fdno h"]
      by (auto simp: fd_ok_def split: option.splits)
  qed
  moreover have "poller_ok ?w k" for k
  proof -
    have ok: "poller_ok w k" by (rule watch_invD(2) [OF inv])
    have "case pfds (pollers ?w k) fd of
        None \<Rightarrow> kernel (pollers ?w k) fd = None
      | Some r \<Rightarrow> \<exists>h. iofds ?w r = Some h \<and> fdno h = fd \<and> looper h = Some k \<and> status h \<noteq> NEW
          \<and> kernel (pollers ?w k) fd = (if status h = ADDED then Some (events h, r) else None)" for fd
    proof (cases "k = l \<and> fd = fdno f")
      case True with reg same show ?thesis by (auto split: option.splits)
    next
      case False
      then have eq: "pfds (pollers ?w k) fd = pfds (pollers w k) fd"
        "kernel (pollers ?w k) fd = kernel (pollers w k) fd" using other by auto
      show ?thesis
      proof (cases "pfds (pollers w k) fd")
        case None with poller_okD(3) [OF ok] eq show ?thesis by simp
      next
        case (Some r)
        then obtain h where h: "iofds w r = Some h" "fdno h = fd" "looper h = Some k" "status h \<noteq> NEW"
          "kernel (pollers w k) fd = (if status h = ADDED then Some (events h, r) else None)"
          using poller_okD(4) [OF ok] by blast
        then have "r \<noteq> p" using False f keep(1) by auto
        with h eq Some show ?thesis by simp
      qed
    qed
    then show ?thesis using ok good by (simp add: poller_ok_def)
  qed
  moreover have "r = q" if "iofds ?w r = Some h" "iofds ?w q = Some k" "fdno h = fdno k" for r q h k
    using that un f same by (auto split: if_splits)
  ultimately show ?thesis unfolding watch_inv_def by blast
qed


text \<open>Changing the events of an attached descriptor brings the registration in line.\<close>

lemma set_events_ok:
  assumes inv: "watch_inv w" and f: "iofds w p = Some f" and l: "looper f = Some l"
    and here: "loop_tid w l = here w" and e: "events f \<noteq> 0 \<or> e \<noteq> 0"
  shows "\<exists>g ep. set_events p f e w = Ok (putPoller l ep (putFd p g w)) \<and> watch_inv (putPoller l ep (putFd p g w))
    \<and> g = f\<lparr>events := e, status := (if e = 0 then DELETED else ADDED)\<rparr>"
proof -
  let ?f = "f\<lparr>events := e\<rparr>" and ?ep = "pollers w l"
  have ok: "fd_ok w p f" and pok: "poller_ok w l" using watch_invD(1,2) [OF inv] f by auto
  have run: "set_events p f e w =
      bindR (poller_updateFd p ?f ?ep) (\<lambda>(g, ep). Ok (putPoller l ep (putFd p g w)))"
    using l here
    by (simp add: set_events_def fd_update_def loop_updateFd_def assertInLoopThread_def)
  note okD = poller_okD [OF pok]
  have new: "pfds ?ep (fdno f) = None" if "status f = NEW"
  proof (rule ccontr)
    assume "pfds ?ep (fdno f) \<noteq> None"
    then obtain r g where "iofds w r = Some g" "fdno g = fdno f" "status g \<noteq> NEW"
      using okD(4) by blast
    then show False using watch_invD(3) [OF inv _ f, of r g] f that by auto
  qed
  have old: "pfds ?ep (fdno f) = Some p" if "status f \<noteq> NEW" using ok that l by (simp add: fd_ok_def)
  have reg: "kernel ?ep (fdno f) = (if status f = ADDED then Some (events f, p) else None)"
    using okD(3,4) [of "fdno f"] new old f by (cases "status f = NEW") auto
  have add: "status f = ADDED \<longleftrightarrow> events f \<noteq> 0" using ok l by (simp add: fd_ok_def)
  have nz: "status f = NEW \<Longrightarrow> e \<noteq> 0" using add e by auto
  define ep where "ep = (if status f = NEW then ?ep\<lparr>pfds := (pfds ?ep)(fdno f \<mapsto> p),
      kernel := (kernel ?ep)(fdno f \<mapsto> (e, p))\<rparr>
    else if e = 0 then ?ep\<lparr>kernel := (kernel ?ep)(fdno f := None)\<rparr>
    else ?ep\<lparr>kernel := (kernel ?ep)(fdno f \<mapsto> (e, p))\<rparr>)"
  let ?g = "f\<lparr>events := e, status := (if e = 0 then DELETED else ADDED)\<rparr>"
  have "poller_updateFd p ?f ?ep = Ok (?g, ep)"
    using new old reg add e by (cases "status f")
      (simp_all add: poller_updateFd_def controlFd_def epoll_ctl_def hasFd_def isNoneEvent_def ep_def Let_def)
  moreover have "watch_inv (putPoller l ep (putFd p ?g w))"
    by (rule watch_inv_put [OF inv f]) (use l okD(1,2) old nz in \<open>auto simp: ep_def fd_ok_def\<close>)
  ultimately show ?thesis using run by auto
qed

lemma or_nonzero: "(y :: 32 word) \<noteq> 0 \<Longrightarrow> x OR y \<noteq> 0"
  by (simp add: or_eq_0_iff)

lemma event_masks [simp]: "kReadEvent \<noteq> 0" "kWriteEvent \<noteq> 0"
  by (simp_all add: kReadEvent_def kWriteEvent_def poll_bits)


text \<open>Changes that concern neither the poller nor the loop.\<close>

lemma watch_inv_same:
  assumes inv: "watch_inv w" and f: "iofds w p = Some f"
    and same: "fdno g = fdno f" "events g = events f" "status g = status f" "looper g = looper f"
  shows "watch_inv (putFd p g w)"
proof -
  let ?w = "putFd p g w"
  have "fd_ok ?w r h" if "iofds ?w r = Some h" for r h
    using that watch_invD(1) [OF inv, of r h] watch_invD(1) [OF inv f] same
    by (auto simp: fd_ok_def split: option.splits if_splits)
  moreover have "poller_ok ?w k" for k
  proof -
    have ok: "poller_ok w k" by (rule watch_invD(2) [OF inv])
    have "case pfds (pollers w k) n of None \<Rightarrow> kernel (pollers w k) n = None
      | Some r \<Rightarrow> \<exists>h. iofds ?w r = Some h \<and> fdno h = n \<and> looper h = Some k \<and> status h \<noteq> NEW
          \<and> kernel (pollers w k) n = (if status h = ADDED then Some (events h, r) else None)" for n
    proof (cases "pfds (pollers w k) n")
      case (Some r)
      then obtain h where h: "iofds w r = Some h" "fdno h = n" "looper h = Some k" "status h \<noteq> NEW"
        "kernel (pollers w k) n = (if status h = ADDED then Some (events h, r) else None)"
        using poller_okD(4) [OF ok] by blast
      with f same have "iofds ?w r = Some (if r = p then g else h)" "fdno g = n \<or> r \<noteq> p" by auto
      with h f same Some show ?thesis by (auto split: if_splits)
    qed (use poller_okD(3) [OF ok] in simp)
    then show ?thesis unfolding poller_ok_def put_simps using poller_okD(1,2) [OF ok] by blast
  qed
  moreover have "r = q" if "iofds ?w r = Some h" "iofds ?w q = Some k" "fdno h = fdno k" for r q h k
    using that watch_invD(3) [OF inv] f same(1) by (auto split: if_splits)
  ultimately show ?thesis unfolding watch_inv_def by blast
qed

section \<open>Operation sequences\<close>

text \<open>What a process does to its descriptors, thread switches included.\<close>

datatype fd_op = EnableRead nat | EnableWrite nat | DisableRead nat | DisableWrite nat
  | DisableAll nat | Attach nat nat | Detach nat | Create nat "32 word" "nat option" | Destroy nat
  | RunOn nat

fun perform_fd :: "fd_op \<Rightarrow> netw \<Rightarrow> netw res" where
  "perform_fd (EnableRead p) w = enableRead p w"
| "perform_fd (EnableWrite p) w = enableWrite p w"
| "perform_fd (DisableRead p) w = disableRead p w"
| "perform_fd (DisableWrite p) w = disableWrite p w"
| "perform_fd (DisableAll p) w = disableAll p w"
| "perform_fd (Attach l p) w = attachInLoop l p w"
| "perform_fd (Detach p) w = bindR (detachInLoop p w) (\<lambda>(b, w1). Ok w1)"
| "perform_fd (Create p fd raw) w = Ok (putFd p (newIOFd fd raw) w)"
| "perform_fd (Destroy p) w = deleteIOFd p w"
| "perform_fd (RunOn t) w = Ok (w\<lparr>here := t\<rparr>)"

primrec perform_fds :: "fd_op list \<Rightarrow> netw \<Rightarrow> netw res" where
  "perform_fds [] w = Ok w"
| "perform_fds (a # as) w = bindR (perform_fd a w) (perform_fds as)"

text \<open>
  The clients' side of the contract: events are enabled on an attached descriptor, on the
  thread of its loop; a descriptor is attached to one loop; it is detached before it is
  deleted, and not deleted by its own callbacks. The kernel never gives out a descriptor that
  is open, the allocator no memory that is in use.
\<close>

definition on_thread :: "nat \<Rightarrow> netw \<Rightarrow> bool" where
  "on_thread p w \<longleftrightarrow> (\<exists>f. iofds w p = Some f \<and>
     (case looper f of None \<Rightarrow> True | Some l \<Rightarrow> loop_tid w l = here w))"

definition attached :: "nat \<Rightarrow> netw \<Rightarrow> bool" where
  "attached p w \<longleftrightarrow> (\<exists>f. iofds w p = Some f \<and> looper f \<noteq> None)"

fun allowed :: "fd_op \<Rightarrow> netw \<Rightarrow> bool" where
  "allowed (EnableRead p) w \<longleftrightarrow> on_thread p w \<and> attached p w"
| "allowed (EnableWrite p) w \<longleftrightarrow> on_thread p w \<and> attached p w"
| "allowed (DisableRead p) w \<longleftrightarrow> on_thread p w"
| "allowed (DisableWrite p) w \<longleftrightarrow> on_thread p w"
| "allowed (DisableAll p) w \<longleftrightarrow> on_thread p w"
| "allowed (Attach l p) w \<longleftrightarrow> loop_tid w l = here w \<and>
     (\<exists>f. iofds w p = Some f \<and> (looper f = None \<or> looper f = Some l))"
| "allowed (Detach p) w \<longleftrightarrow> on_thread p w"
| "allowed (Create p fd raw) w \<longleftrightarrow> iofds w p = None \<and> (\<forall>q g. iofds w q = Some g \<longrightarrow> fdno g \<noteq> fd)"
| "allowed (Destroy p) w \<longleftrightarrow> (\<exists>f. iofds w p = Some f \<and> looper f = None \<and> \<not> handling f)"
| "allowed (RunOn t) w \<longleftrightarrow> True"

lemma on_threadE:
  assumes "on_thread p w"
  obtains f where "iofds w p = Some f" and "\<And>l. looper f = Some l \<Longrightarrow> loop_tid w l = here w"
  using assms by (auto simp: on_thread_def split: option.splits)

text \<open>Every change of events is one of these.\<close>

lemma change_ok:
  assumes inv: "watch_inv w" and f: "iofds w p = Some f" and th: "on_thread p w"
    and need: "c \<Longrightarrow> looper f \<noteq> None \<and> (events f \<noteq> 0 \<or> e \<noteq> 0)"
  shows "\<exists>w'. (if c then set_events p f e w else Ok w) = Ok w' \<and> watch_inv w'"
proof (cases c)
  case True
  then obtain l where l: "looper f = Some l" using need by blast
  then have "loop_tid w l = here w" using th f by (auto simp: on_thread_def)
  moreover have "events f \<noteq> 0 \<or> e \<noteq> 0" using need [OF True] by blast
  ultimately show ?thesis using set_events_ok [OF inv f l] True by fastforce
qed (use inv in simp)

lemma unattached_idle:
  assumes "watch_inv w" and "iofds w p = Some f" and "looper f = None"
  shows "events f = 0" and "status f = NEW"
  using watch_invD(1) [OF assms(1,2)] assms(3) by (auto simp: fd_ok_def)

lemma event_change_ok:
  assumes inv: "watch_inv w" and th: "on_thread p w"
  shows "attached p w \<Longrightarrow> \<exists>w'. enableRead p w = Ok w' \<and> watch_inv w'"
    and "attached p w \<Longrightarrow> \<exists>w'. enableWrite p w = Ok w' \<and> watch_inv w'"
    and "\<exists>w'. disableRead p w = Ok w' \<and> watch_inv w'"
    and "\<exists>w'. disableWrite p w = Ok w' \<and> watch_inv w'"
    and "\<exists>w'. disableAll p w = Ok w' \<and> watch_inv w'"
proof -
  obtain f where f: "iofds w p = Some f" using th by (auto elim: on_threadE)
  note ch = change_ok [OF inv f th] and idle = unattached_idle(1) [OF inv f]
  show "\<exists>w'. enableRead p w = Ok w' \<and> watch_inv w'" if "attached p w"
    using ch [of "\<not> isReading f" "events f OR kReadEvent"] f that
    by (auto simp: enableRead_def attached_def or_nonzero)
  show "\<exists>w'. enableWrite p w = Ok w' \<and> watch_inv w'" if "attached p w"
    using ch [of "\<not> isWriting f" "events f OR kWriteEvent"] f that
    by (auto simp: enableWrite_def attached_def or_nonzero)
  have busy: "isReading f \<or> isWriting f \<or> events f \<noteq> 0 \<Longrightarrow> looper f \<noteq> None \<and> events f \<noteq> 0"
    using idle by (cases "events f = 0") (auto simp: isReading_def isWriting_def)
  show "\<exists>w'. disableRead p w = Ok w' \<and> watch_inv w'"
    using ch [of "isReading f" "events f AND NOT kReadEvent"] f busy by (auto simp: disableRead_def)
  show "\<exists>w'. disableWrite p w = Ok w' \<and> watch_inv w'"
    using ch [of "isWriting f" "events f AND NOT kWriteEvent"] f busy by (auto simp: disableWrite_def)
  show "\<exists>w'. disableAll p w = Ok w' \<and> watch_inv w'"
    using ch [of "events f \<noteq> 0" 0] f busy by (auto simp: disableAll_def)
qed

text \<open>Detaching: the registration goes away and the descriptor is new again.\<close>

lemma release_ok:
  assumes inv: "watch_inv w" and f: "iofds w p = Some f" and l: "looper f = Some l"
    and here: "loop_tid w l = here w" and idle: "events f = 0"
  shows "\<exists>ep. loop_removeFd l p w = Ok (putPoller l ep (putFd p (f\<lparr>status := NEW\<rparr>) w))
    \<and> watch_inv (putPoller l ep (putFd p (f\<lparr>status := NEW, looper := None\<rparr>) w))
    \<and> pfds ep (fdno f) = None \<and> kernel ep (fdno f) = None"
proof -
  let ?ep = "pollers w l"
  have ok: "fd_ok w p f" and pok: "poller_ok w l" using watch_invD(1,2) [OF inv] f by auto
  note okD = poller_okD [OF pok]
  have st: "status f \<noteq> ADDED" using ok l idle by (simp add: fd_ok_def)
  let ?ep' = "if status f = NEW then ?ep else ?ep\<lparr>pfds := (pfds ?ep)(fdno f := None)\<rparr>"
  have none: "pfds ?ep' (fdno f) = None \<and> kernel ?ep' (fdno f) = None"
  proof (cases "pfds ?ep (fdno f)")
    case None then show ?thesis using okD(3) by simp
  next
    case (Some r)
    then obtain g where g: "iofds w r = Some g" "fdno g = fdno f" "status g \<noteq> NEW"
      "kernel ?ep (fdno f) = (if status g = ADDED then Some (events g, r) else None)"
      using okD(4) by blast
    then have "g = f" using watch_invD(3) [OF inv g(1) f] f by auto
    with g st show ?thesis by simp
  qed
  have "loop_removeFd l p w = Ok (putPoller l ?ep' (putFd p (f\<lparr>status := NEW\<rparr>) w))"
  proof (cases "status f")
    case NEW
    then have same: "f\<lparr>status := NEW\<rparr> = f" by (cases f) simp
    have "\<not> hasFd p f ?ep" using none NEW by (simp add: hasFd_def)
    then have "poller_removeFd p f ?ep = Ok (f, ?ep)" by (simp add: poller_removeFd_def)
    then show ?thesis using f l here NEW same
      by (simp add: loop_removeFd_def assertInLoopThread_def)
  next
    case DELETED
    then have "hasFd p f ?ep" using ok l by (simp add: fd_ok_def hasFd_def)
    then have "poller_removeFd p f ?ep = Ok (f\<lparr>status := NEW\<rparr>, ?ep')"
      using DELETED idle by (simp add: poller_removeFd_def isNoneEvent_def)
    then show ?thesis using f l here
      by (simp add: loop_removeFd_def assertInLoopThread_def)
  qed (use st in simp)
  moreover have "watch_inv (putPoller l ?ep' (putFd p (f\<lparr>status := NEW, looper := None\<rparr>) w))"
    by (rule watch_inv_put [OF inv f _ l]) (use none okD(1,2) idle in \<open>auto simp: fd_ok_def\<close>)
  ultimately show ?thesis using none by blast
qed

lemma detach_ok:
  assumes inv: "watch_inv w" and th: "on_thread p w" and f: "iofds w p = Some f"
  shows "\<exists>b w' g. detachInLoop p w = Ok (b, w') \<and> watch_inv w' \<and> iofds w' p = Some g
    \<and> looper g = None \<and> status g = NEW \<and> events g = 0 \<and> handling g = handling f \<and> fdno g = fdno f
    \<and> here w' = here w \<and> loop_tid w' = loop_tid w"
proof (cases "looper f")
  case None
  then show ?thesis using f inv unattached_idle [OF inv f None] by (auto simp: detachInLoop_def)
next
  case (Some l)
  then have here: "loop_tid w l = here w" using th f by (auto simp: on_thread_def)
  have "\<exists>w1 g. disableAll p w = Ok w1 \<and> watch_inv w1 \<and> iofds w1 p = Some g \<and> looper g = Some l
      \<and> events g = 0 \<and> handling g = handling f \<and> fdno g = fdno f \<and> loop_tid w1 = loop_tid w \<and> here w1 = here w"
  proof (cases "events f = 0")
    case True
    then show ?thesis using f inv Some by (simp add: disableAll_def)
  next
    case False
    then show ?thesis using set_events_ok [OF inv f Some here, of 0] f Some
      by (auto simp: disableAll_def)
  qed
  then obtain w1 g where g: "disableAll p w = Ok w1" "watch_inv w1" "iofds w1 p = Some g"
    "looper g = Some l" "events g = 0" "handling g = handling f" "fdno g = fdno f"
    "loop_tid w1 l = here w1" "here w1 = here w" "loop_tid w1 = loop_tid w" using here by auto
  obtain ep where ep: "loop_removeFd l p w1 = Ok (putPoller l ep (putFd p (g\<lparr>status := NEW\<rparr>) w1))"
    "watch_inv (putPoller l ep (putFd p (g\<lparr>status := NEW, looper := None\<rparr>) w1))"
    using release_ok [OF g(2,3,4,8,5)] by blast
  have comm: "putFd p h (putPoller l ep (putFd p k w1)) = putPoller l ep (putFd p h w1)" for h k
    by (simp add: putFd_def putPoller_def)
  have "detachInLoop p w = Ok (True, putPoller l ep (putFd p (g\<lparr>status := NEW, looper := None\<rparr>) w1))"
    using f Some here g(1) ep(1) by (simp add: detachInLoop_def assertInLoopThread_def comm)
  then show ?thesis using ep(2) g(5-7,9,10) by auto
qed


text \<open>A descriptor that is new and idle may appear, go away and be attached.\<close>

lemma watch_inv_idle:
  assumes inv: "watch_inv w" and old: "\<And>f. iofds w p = Some f \<Longrightarrow> status f = NEW"
    and poll: "pollers w' = pollers w" and rest: "\<And>r. r \<noteq> p \<Longrightarrow> iofds w' r = iofds w r"
    and idle: "\<And>g. iofds w' p = Some g \<Longrightarrow> status g = NEW \<and> events g = 0"
    and fresh: "\<And>g q h. iofds w' p = Some g \<Longrightarrow> q \<noteq> p \<Longrightarrow> iofds w q = Some h \<Longrightarrow> fdno h \<noteq> fdno g"
  shows "watch_inv w'"
proof -
  have "fd_ok w' r h" if r: "iofds w' r = Some h" for r h
  proof (cases "r = p")
    case True
    then show ?thesis using idle r by (auto simp: fd_ok_def split: option.splits)
  next
    case False
    then show ?thesis using watch_invD(1) [OF inv, of r h] rest [OF False] r poll
      by (auto simp: fd_ok_def split: option.splits)
  qed
  moreover have "poller_ok w' k" for k
  proof -
    have ok: "poller_ok w k" by (rule watch_invD(2) [OF inv])
    have "case pfds (pollers w k) n of None \<Rightarrow> kernel (pollers w k) n = None
      | Some r \<Rightarrow> \<exists>h. iofds w' r = Some h \<and> fdno h = n \<and> looper h = Some k \<and> status h \<noteq> NEW
          \<and> kernel (pollers w k) n = (if status h = ADDED then Some (events h, r) else None)" for n
    proof (cases "pfds (pollers w k) n")
      case (Some r)
      then obtain h where h: "iofds w r = Some h" "fdno h = n" "looper h = Some k" "status h \<noteq> NEW"
        "kernel (pollers w k) n = (if status h = ADDED then Some (events h, r) else None)"
        using poller_okD(4) [OF ok] by blast
      then have "r \<noteq> p" using old by auto
      with h Some rest show ?thesis by simp
    qed (use poller_okD(3) [OF ok] in simp)
    then show ?thesis unfolding poller_ok_def poll using poller_okD(1,2) [OF ok] by blast
  qed
  moreover have "r = q" if e: "iofds w' r = Some h" "iofds w' q = Some k" "fdno h = fdno k" for r q h k
  proof (rule ccontr)
    assume "r \<noteq> q"
    then consider "r = p" "q \<noteq> p" | "q = p" "r \<noteq> p" | "r \<noteq> p" "q \<noteq> p" by blast
    then show False
    proof cases
      case 1 with fresh [of h q k] e rest [of q] show False by simp
    next
      case 2 with fresh [of k r h] e rest [of r] show False by simp
    next
      case 3 with watch_invD(3) [OF inv, of r h q k] e rest \<open>r \<noteq> q\<close> show False by simp
    qed
  qed
  ultimately show ?thesis unfolding watch_inv_def by blast
qed

lemma perform_fd_ok:
  assumes inv: "watch_inv w" and al: "allowed a w"
  shows "\<exists>w'. perform_fd a w = Ok w' \<and> watch_inv w'"
proof (cases a)
  case (Attach l p)
  then obtain f where f: "iofds w p = Some f" and l: "loop_tid w l = here w"
    and free: "looper f = None \<or> looper f = Some l" using al by auto
  show ?thesis
  proof (cases "looper f")
    case None
    note idle = unattached_idle [OF inv f None]
    have "watch_inv (putFd p (f\<lparr>looper := Some l\<rparr>) w)"
      by (rule watch_inv_idle [OF inv, of p]) (use f idle in \<open>auto dest: watch_invD(3) [OF inv _ f]\<close>)
    then show ?thesis
      using Attach f l None idle by (simp add: attachInLoop_def assertInLoopThread_def Let_def)
  next
    case (Some k)
    then show ?thesis using Attach f l free inv by (simp add: attachInLoop_def assertInLoopThread_def)
  qed
next
  case (Detach p)
  then obtain f where f: "iofds w p = Some f" using al by (auto elim: on_threadE)
  then show ?thesis using detach_ok [OF inv _ f] al Detach by auto
next
  case (Create p fd raw)
  have "watch_inv (putFd p (newIOFd fd raw) w)"
    by (rule watch_inv_idle [OF inv, of p]) (use al Create in \<open>auto simp: newIOFd_def\<close>)
  then show ?thesis using Create by simp
next
  case (Destroy p)
  then obtain f where f: "iofds w p = Some f" "looper f = None" "\<not> handling f" using al by auto
  note idle = unattached_idle [OF inv f(1,2)]
  have "watch_inv (w\<lparr>iofds := (iofds w)(p := None)\<rparr>)"
    by (rule watch_inv_idle [OF inv, of p]) (use f idle in auto)
  then show ?thesis using Destroy f idle by (simp add: deleteIOFd_def isNoneEvent_def)
next
  case (RunOn t)
  have "fd_ok (w\<lparr>here := t\<rparr>) r h = fd_ok w r h" "poller_ok (w\<lparr>here := t\<rparr>) k = poller_ok w k" for r h k
    by (cases w, simp only: fd_ok_def poller_ok_def netw.simps)+
  then have "watch_inv (w\<lparr>here := t\<rparr>)" using inv by (simp add: watch_inv_def)
  then show ?thesis using RunOn by simp
qed (use al event_change_ok [OF inv] in auto)

primrec all_allowed :: "fd_op list \<Rightarrow> netw \<Rightarrow> bool" where
  "all_allowed [] w \<longleftrightarrow> True"
| "all_allowed (a # as) w \<longleftrightarrow> allowed a w \<and> (\<forall>w'. perform_fd a w = Ok w' \<longrightarrow> all_allowed as w')"

lemma perform_fds_ok:
  assumes "watch_inv w" and "all_allowed as w"
  shows "\<exists>w'. perform_fds as w = Ok w' \<and> watch_inv w'"
  using assms
proof (induction as arbitrary: w)
  case (Cons a as)
  then obtain w1 where "perform_fd a w = Ok w1" "watch_inv w1"
    using perform_fd_ok [of w a] by auto
  with Cons show ?case by auto
qed simp

text \<open>What a loop's epoll instance should hold: the descriptors of the loop that want events.\<close>

definition interest :: "netw \<Rightarrow> nat \<Rightarrow> 32 word \<Rightarrow> 32 word \<Rightarrow> nat \<Rightarrow> bool" where
  "interest w l fd e p \<longleftrightarrow> (\<exists>f. iofds w p = Some f \<and> fdno f = fd \<and> looper f = Some l
     \<and> events f = e \<and> e \<noteq> 0)"

lemma registered_iff:
  assumes inv: "watch_inv w"
  shows "kernel (pollers w l) fd = Some (e, p) \<longleftrightarrow> interest w l fd e p"
proof
  note okD = poller_okD [OF watch_invD(2) [OF inv, of l]]
  assume k: "kernel (pollers w l) fd = Some (e, p)"
  then obtain r where r: "pfds (pollers w l) fd = Some r" using okD(3) by fastforce
  from okD(4) [OF this] obtain f where f: "iofds w r = Some f" "fdno f = fd" "looper f = Some l"
    "kernel (pollers w l) fd = (if status f = ADDED then Some (events f, r) else None)" by blast
  with k have "status f = ADDED" "r = p" "events f = e" by (auto split: if_splits)
  with f watch_invD(1) [OF inv f(1)] show "interest w l fd e p"
    by (auto simp: interest_def fd_ok_def)
next
  note okD = poller_okD [OF watch_invD(2) [OF inv, of l]]
  assume "interest w l fd e p"
  then obtain f where f: "iofds w p = Some f" "fdno f = fd" "looper f = Some l" "events f = e" "e \<noteq> 0"
    by (auto simp: interest_def)
  with watch_invD(1) [OF inv f(1)] have st: "status f = ADDED" and "pfds (pollers w l) fd = Some p"
    by (auto simp: fd_ok_def)
  with okD(4) [OF this(2)] f show "kernel (pollers w l) fd = Some (e, p)" by auto
qed


section \<open>Properties\<close>

text \<open>A process with no descriptors yet; loop \<open>l\<close> was created by thread \<open>l\<close>.\<close>

definition idle_net :: netw where
  "idle_net = \<lparr>iofds = Map.empty, pollers = (\<lambda>_. newEPollPoller), loop_tid = (\<lambda>l. l), here = 0\<rparr>"

lemma idle_net_inv: "watch_inv idle_net"
  by (simp add: watch_inv_def idle_net_def poller_ok_def newEPollPoller_def)

text \<open>
  C13. Whatever sequence of operations clients run on descriptors, on any threads, keeping their
  side of the contract: no assertion of \<open>IOFd\<close>, \<open>EventLoop\<close> or \<open>EPollPoller\<close> fails, no call of
  \<open>epoll_ctl\<close> fails (ADD, MOD and DEL always match the kernel's state), and afterwards the epoll
  instance of each loop holds exactly the descriptors of that loop that want events, with the
  events they want.
\<close>

theorem watched_descriptors_registered:
  assumes "watch_inv w" and "all_allowed as w"
  shows "\<exists>w'. perform_fds as w = Ok w' \<and> watch_inv w' \<and> (\<forall>l. badctl (pollers w' l) = 0
    \<and> (\<forall>fd e p. kernel (pollers w' l) fd = Some (e, p) \<longleftrightarrow> interest w' l fd e p))"
proof -
  obtain w' where w': "perform_fds as w = Ok w'" "watch_inv w'"
    using perform_fds_ok [OF assms] by blast
  then show ?thesis
    using registered_iff [OF w'(2)] poller_okD(1) [OF watch_invD(2) [OF w'(2)]] by blast
qed

definition demo_ops :: "fd_op list" where
  "demo_ops = [Create 1 7 None, Attach 0 1, EnableRead 1, DisableRead 1, EnableWrite 1]"

lemmas fd_op_simps = enableRead_def enableWrite_def disableRead_def disableWrite_def disableAll_def
  set_events_def fd_update_def loop_updateFd_def loop_removeFd_def poller_updateFd_def
  poller_removeFd_def controlFd_def epoll_ctl_def hasFd_def isNoneEvent_def isReading_def
  isWriting_def kReadEvent_def kWriteEvent_def poll_bits assertInLoopThread_def detachInLoop_def
  attachInLoop_def deleteIOFd_def newIOFd_def Let_def

theorem watched_descriptors_registered_witness:
  "\<exists>w'. perform_fds demo_ops idle_net = Ok w' \<and> watch_inv w' \<and> badctl (pollers w' 0) = 0"
proof -
  have "all_allowed demo_ops idle_net"
    by (simp add: demo_ops_def idle_net_def newEPollPoller_def fd_op_simps on_thread_def attached_def)
  then show ?thesis using watched_descriptors_registered [OF idle_net_inv] by blast
qed


text \<open>The methods that \<open>handleEvent\<close> calls for a set of reported events, in order.\<close>

definition calls :: "32 word \<Rightarrow> hook list" where
  "calls r = (if r AND POLLHUP \<noteq> 0 \<and> r AND POLLIN = 0 then [OnClose]
     else (if r AND (POLLERR OR POLLNVAL) \<noteq> 0 then [OnError] else [])
        @ (if r AND (POLLIN OR POLLPRI OR POLLRDHUP) \<noteq> 0 then [OnRead] else [])
        @ (if r AND POLLOUT \<noteq> 0 then [OnWrite] else []))"

text \<open>
  An observer that leaves the descriptor in place is told of the reported events in the
  order error, read, write, each at most once, while the descriptor is marked as handling; a
  hang-up without readable data is reported alone, after the mark and the events are cleared.
\<close>

theorem handleEvent_calls_in_order:
  assumes f: "iofds w p = Some f" and o: "observer f = Some ob"
    and obs: "\<And>h v g. iofds v p = Some g \<Longrightarrow> observer g = Some ob \<Longrightarrow> obs ob h p v = Ok (act h v) \<and>
      (\<exists>g'. iofds (act h v) p = Some g' \<and> observer g' = Some ob \<and> revents g' = revents g)"
  shows "handleEvent obs cb p w =
    (if calls (revents f) = [OnClose] then Ok (act OnClose (putFd p (f\<lparr>handling := False, revents := 0\<rparr>) w))
     else let w' = fold act (calls (revents f)) (putFd p (f\<lparr>handling := True\<rparr>) w)
       in bindR (fdAt p w') (\<lambda>g. Ok (putFd p (g\<lparr>handling := False, revents := 0\<rparr>) w')))"
proof -
  have step: "fire_if obs cb m h sel p v = Ok (if revents f AND m \<noteq> 0 then act h v else v)
      \<and> (\<exists>g'. iofds (if revents f AND m \<noteq> 0 then act h v else v) p = Some g' \<and> observer g' = Some ob
          \<and> revents g' = revents f)"
    if "iofds v p = Some g" "observer g = Some ob" "revents g = revents f" for m h sel v g
    using obs [OF that(1,2), of h] that by (auto simp: fire_if_def fire_def)
  let ?r = "revents f"
  show ?thesis
  proof (cases "?r AND POLLHUP \<noteq> 0 \<and> ?r AND POLLIN = 0")
    case True
    then have "calls ?r = [OnClose]" by (simp add: calls_def)
    then show ?thesis
      using True f o obs [of "putFd p (f\<lparr>handling := False, revents := 0\<rparr>) w" _ OnClose]
      by (simp add: handleEvent_def fire_def)
  next
    case False
    then have c: "calls ?r \<noteq> [OnClose]" by (auto simp: calls_def)
    let ?v0 = "putFd p (f\<lparr>handling := True\<rparr>) w"
    let ?v1 = "if ?r AND (POLLERR OR POLLNVAL) \<noteq> 0 then act OnError ?v0 else ?v0"
    let ?v2 = "if ?r AND (POLLIN OR POLLPRI OR POLLRDHUP) \<noteq> 0 then act OnRead ?v1 else ?v1"
    let ?v3 = "if ?r AND POLLOUT \<noteq> 0 then act OnWrite ?v2 else ?v2"
    have "calls ?r = (if ?r AND (POLLERR OR POLLNVAL) \<noteq> 0 then [OnError] else [])
        @ (if ?r AND (POLLIN OR POLLPRI OR POLLRDHUP) \<noteq> 0 then [OnRead] else [])
        @ (if ?r AND POLLOUT \<noteq> 0 then [OnWrite] else [])"
      unfolding calls_def using False by (rule if_not_P)
    then have fold: "fold act (calls ?r) ?v0 = ?v3" by simp
    have s1: "fire_if obs cb (POLLERR OR POLLNVAL) OnError errorCallback p ?v0 = Ok ?v1
        \<and> (\<exists>g'. iofds ?v1 p = Some g' \<and> observer g' = Some ob \<and> revents g' = ?r)"
      by (rule step [of _ "f\<lparr>handling := True\<rparr>"]) (use o in simp_all)
    then obtain g1 where g1: "iofds ?v1 p = Some g1" "observer g1 = Some ob" "revents g1 = ?r" by blast
    have s2: "fire_if obs cb (POLLIN OR POLLPRI OR POLLRDHUP) OnRead readCallback p ?v1 = Ok ?v2
        \<and> (\<exists>g'. iofds ?v2 p = Some g' \<and> observer g' = Some ob \<and> revents g' = ?r)"
      by (rule step [OF g1])
    then obtain g2 where g2: "iofds ?v2 p = Some g2" "observer g2 = Some ob" "revents g2 = ?r" by blast
    have s3: "fire_if obs cb POLLOUT OnWrite writeCallback p ?v2 = Ok ?v3"
      using step [OF g2] by blast
    have "handleEvent obs cb p w = bindR (fdAt p ?v3) (\<lambda>g. Ok (putFd p (g\<lparr>handling := False, revents := 0\<rparr>) ?v3))"
      by (simp only: handleEvent_def fdAt_Some [OF f] bindR_Ok if_not_P [OF False]
          s1 [THEN conjunct1] s2 [THEN conjunct1] s3)
    then show ?thesis using c fold by (simp only: if_False Let_def)
  qed
qed

theorem handleEvent_calls_in_order_witness:
  "handleEvent (\<lambda>_ h p v. Ok (case h of OnRead \<Rightarrow> v\<lparr>here := here v + 1\<rparr> | _ \<Rightarrow> v)) (\<lambda>_. Ok) 5
     (putFd 5 ((newIOFd 7 (Some 3))\<lparr>revents := POLLIN\<rparr>) idle_net)
   = Ok (putFd 5 (newIOFd 7 (Some 3)) idle_net\<lparr>here := 1\<rparr>)"
proof -
  let ?f = "(newIOFd 7 (Some 3))\<lparr>revents := POLLIN\<rparr>"
  have "calls POLLIN = [OnRead]" by (simp add: calls_def poll_bits)
  then show ?thesis
    using handleEvent_calls_in_order [of "putFd 5 ?f idle_net" 5 ?f 3
        "\<lambda>_ h p v. Ok (case h of OnRead \<Rightarrow> v\<lparr>here := here v + 1\<rparr> | _ \<Rightarrow> v)"
        "\<lambda>h v. case h of OnRead \<Rightarrow> v\<lparr>here := here v + 1\<rparr> | _ \<Rightarrow> v" "\<lambda>_. Ok"]
    by (simp add: newIOFd_def putFd_def idle_net_def split: hook.split)
qed

text \<open>
  A descriptor cannot be handed from one loop to another while it is attached: loops live on
  different threads, \<open>attachInLoop\<close> requires the new loop's thread and the detachment it makes
  requires the old one's, so the call always aborts.
\<close>

theorem attach_to_second_loop_aborts:
  assumes "iofds w p = Some f" and "looper f = Some k" and "loop_tid w k \<noteq> loop_tid w l"
  shows "attachInLoop l p w = Fail FatalAbort"
  using assms by (cases "loop_tid w l = here w")
    (auto simp: attachInLoop_def assertInLoopThread_def detachInLoop_def)

theorem attach_to_second_loop_aborts_witness:
  "attachInLoop 1 5 (putFd 5 ((newIOFd 7 None)\<lparr>looper := Some 0\<rparr>) idle_net) = Fail FatalAbort"
  by (rule attach_to_second_loop_aborts [of _ 5 "(newIOFd 7 None)\<lparr>looper := Some 0\<rparr>" 0])
    (simp_all add: idle_net_def)

text \<open>
  An observer that deletes the descriptor in its read method (as a failed connection attempt
  does in its write and error methods) trips the destructor's assertion, because the descriptor
  is marked as handling; deleting it in the close method is allowed once it is detached.
\<close>

theorem delete_while_handling_asserts:
  assumes f: "iofds w p = Some f" and o: "observer f = Some ob"
    and del: "\<And>h v. obs ob h p v = deleteIOFd p v" and some: "calls (revents f) \<noteq> []"
  shows "handleEvent obs cb p w =
    (if calls (revents f) = [OnClose] then deleteIOFd p (putFd p (f\<lparr>handling := False, revents := 0\<rparr>) w)
     else Fail AssertFail)"
proof (cases "revents f AND POLLHUP \<noteq> 0 \<and> revents f AND POLLIN = 0")
  case True
  then have "calls (revents f) = [OnClose]" by (simp add: calls_def)
  with True f o del show ?thesis by (simp add: handleEvent_def fire_def)
next
  case False
  have dead: "deleteIOFd p (putFd p (f\<lparr>handling := True\<rparr>) w) = Fail AssertFail"
    by (simp add: deleteIOFd_def)
  have eq: "calls (revents f) = (if revents f AND (POLLERR OR POLLNVAL) \<noteq> 0 then [OnError] else [])
        @ (if revents f AND (POLLIN OR POLLPRI OR POLLRDHUP) \<noteq> 0 then [OnRead] else [])
        @ (if revents f AND POLLOUT \<noteq> 0 then [OnWrite] else [])"
    unfolding calls_def using False by (rule if_not_P)
  then have c: "calls (revents f) \<noteq> [OnClose]" by (auto split: if_splits)
  let ?w = "putFd p (f\<lparr>handling := True\<rparr>) w"
  have fi: "fire_if obs cb m h sel p ?w = (if revents f AND m \<noteq> 0 then Fail AssertFail else Ok ?w)" for m h sel
    using o del dead by (simp add: fire_if_def fire_def)
  have "handleEvent obs cb p w = Fail AssertFail"
    using some unfolding eq
    by (cases "revents f AND (POLLERR OR POLLNVAL) = 0";
        cases "revents f AND (POLLIN OR POLLPRI OR POLLRDHUP) = 0"; cases "revents f AND POLLOUT = 0")
      (simp_all only: handleEvent_def fdAt_Some [OF f] bindR_Ok bindR_Fail if_not_P [OF False] fi simp_thms if_True if_False
        append_Nil)
  with c show ?thesis by simp
qed

theorem delete_while_handling_asserts_witness:
  "handleEvent (\<lambda>_ _. deleteIOFd) (\<lambda>_. Ok) 5 (putFd 5 ((newIOFd 7 (Some 3))\<lparr>revents := POLLOUT\<rparr>) idle_net)
    = Fail AssertFail"
proof -
  have "calls POLLOUT = [OnWrite]" by (simp add: calls_def poll_bits)
  then show ?thesis
    using delete_while_handling_asserts [of "putFd 5 ((newIOFd 7 (Some 3))\<lparr>revents := POLLOUT\<rparr>) idle_net" 5
        "(newIOFd 7 (Some 3))\<lparr>revents := POLLOUT\<rparr>" 3 "\<lambda>_ _. deleteIOFd" "\<lambda>_. Ok"]
    by (simp add: newIOFd_def)
qed

text \<open>
  A round of the loop works on raw pointers: when the handler of one descriptor of the round
  deletes another one whose turn has not come, the loop goes on to a deleted object.
\<close>

theorem active_descriptor_deleted_by_peer:
  assumes "handleEvent obs cb p w = Ok w'" and "iofds w' q = None"
  shows "handle_active obs cb (p # q # ps) w = Fail UseAfterFree"
  using assms by (simp add: handleEvent_def [of _ _ q] fdAt_def)

theorem active_descriptor_deleted_by_peer_witness:
  "handle_active (\<lambda>_ _ _. deleteIOFd 6) (\<lambda>_. Ok) [5, 6]
     (putFd 5 ((newIOFd 7 (Some 3))\<lparr>revents := POLLIN\<rparr>) (putFd 6 (newIOFd 8 None) idle_net)) = Fail UseAfterFree"
  by (rule active_descriptor_deleted_by_peer,
      simp add: handleEvent_def fire_if_def fire_def newIOFd_def poll_bits deleteIOFd_def isNoneEvent_def)
    simp


end
