(* ===== verification/EventLoop.thy ===== *)
theory EventLoop
  imports Poller "HOL-Library.Sublist"
begin

text \<open>
  The event loop, \<open>net/EventLoop.h\<close> and \<open>net/EventLoop.cpp\<close>: construction and destruction over the
  descriptors of theory \<open>Poller\<close>, and the loop as a step relation between its own thread and the
  threads that queue functors or stop it. The timers of a round are in theory \<open>TimerQueue\<close>.
\<close>

section \<open>Construction and destruction\<close>

text \<open>\<open>t_looperInThread\<close> is a thread-local pointer: one value per thread.\<close>

record loopsys =
  net :: netw
  t_looperInThread :: "nat \<Rightarrow> nat option"

text \<open>\<open>handleWakeupRead\<close> bound to the loop.\<close>

definition wakeup_callback :: "nat \<Rightarrow> nat" where
  "wakeup_callback l = l"

text \<open>
  \<open>l\<close> names the new loop, \<open>p\<close> is the address of its wakeup descriptor, \<open>fd\<close> what \<open>eventfd\<close>
  returns (\<open>SysErr\<close> aborts) and \<open>raw\<close> what the memory of the descriptor's observer holds.
\<close>

definition newEventLoop :: "nat \<Rightarrow> nat \<Rightarrow> 32 word sys \<Rightarrow> nat option \<Rightarrow> loopsys \<Rightarrow> loopsys res" where
  "newEventLoop l p evtfd raw s =
     (case evtfd of
        SysErr e \<Rightarrow> Fail FatalAbort
      | SysOk fd \<Rightarrow>
          let t = here (net s);
              w0 = putFd p (newIOFd fd raw)
                (putPoller l newEPollPoller ((net s)\<lparr>loop_tid := (loop_tid (net s))(l := t)\<rparr>))
          in if t_looperInThread s t \<noteq> None then Fail FatalAbort
             else bindR (attachInLoop l p w0) (\<lambda>w1.
                  bindR (enableRead p w1) (\<lambda>w2.
                  bindR (fdAt p w2) (\<lambda>f.
                    Ok (s\<lparr>net := putFd p (f\<lparr>readCallback := Some (wakeup_callback l)\<rparr>) w2,
                          t_looperInThread := (t_looperInThread s)(t \<mapsto> l)\<rparr>)))))"

text \<open>
  The destructor, then the deletion of \<open>_wakeupFd\<close>. \<open>finish\<close> is what the final \<open>runFunctors\<close> and \<open>runTimers\<close> do
  to the descriptors: functors and timers are client code; the two loops are \<open>runFunctors\<close> below and
  \<open>runTimers\<close> of theory \<open>TimerQueue\<close>.
\<close>

definition deleteEventLoop :: "(loopsys \<Rightarrow> loopsys res) \<Rightarrow> nat \<Rightarrow> nat \<Rightarrow> loopsys \<Rightarrow> loopsys res" where
  "deleteEventLoop finish l p s =
     bindR (assertInLoopThread l (net s) (Ok (net s))) (\<lambda>w0.
     bindR (detachInLoop p w0) (\<lambda>(b, w1).
     bindR (finish (s\<lparr>net := w1\<rparr>)) (\<lambda>s1.
     bindR (deleteIOFd p (net s1)) (\<lambda>w2. Ok (s1\<lparr>net := w2\<rparr>)))))"

section \<open>The loop as a machine\<close>

text \<open>
  Where the loop's thread is in \<open>start\<close>: about to test \<open>_quit\<close>, about to call \<open>poll\<close>, with the
  descriptors still to handle, about to take the functors, with the functors still to run,
  about to run the timers; the last two appear once more after the loop.
\<close>

datatype phase = NotStarted | TestQuit | AtPoll | Events "nat list" | TakeFunctors | Functors "nat list"
  | Timers | LastTake | LastFunctors "nat list" | Returned

record eloop =
  threadId :: nat
  quit :: bool
  looping :: bool
  in_round :: bool
  currentFd :: "nat option"
  functors :: "nat list"
  phase :: phase

definition newLoop :: "nat \<Rightarrow> eloop" where
  "newLoop t = \<lparr>threadId = t, quit = False, looping = False, in_round = False, currentFd = None,
     functors = [], phase = NotStarted\<rparr>"

definition queueInLoop :: "nat \<Rightarrow> eloop \<Rightarrow> eloop" where
  "queueInLoop f s = s\<lparr>functors := functors s @ [f]\<rparr>"

definition stopLoop :: "eloop \<Rightarrow> eloop" where
  "stopLoop s = s\<lparr>quit := True\<rparr>"

text \<open>\<open>run f\<close> is the call of functor \<open>f\<close>, client code.\<close>

definition runInLoop :: "(nat \<Rightarrow> eloop \<Rightarrow> eloop) \<Rightarrow> nat \<Rightarrow> nat \<Rightarrow> eloop \<Rightarrow> eloop" where
  "runInLoop run tid f s = (if threadId s = tid then run f s else queueInLoop f s)"

definition runFunctors :: "(nat \<Rightarrow> eloop \<Rightarrow> eloop) \<Rightarrow> eloop \<Rightarrow> eloop" where
  "runFunctors run s = fold run (functors s) (s\<lparr>functors := []\<rparr>)"

definition startLoop :: "eloop \<Rightarrow> eloop res" where
  "startLoop s = assertR (\<not> looping s) (assertR (\<not> quit s)
     (Ok (s\<lparr>quit := False, looping := True, phase := TestQuit\<rparr>)))"

text \<open>
  One step of the process. \<open>Queue t f\<close>: thread \<open>t\<close> calls \<open>queueInLoop\<close> (any thread, the loop's own
  while it runs a handler, a functor or a timer included); \<open>Stop\<close>: any thread calls \<open>stop\<close>; \<open>Run f\<close>:
  the loop's thread runs \<open>f\<close>; \<open>Own\<close>: another step of the loop's thread.
\<close>

datatype act = Queue nat nat | Stop | Run nat | Own

inductive estep :: "act \<Rightarrow> eloop \<Rightarrow> eloop \<Rightarrow> bool" where
  queue: "estep (Queue t f) s (queueInLoop f s)"
| stop: "estep Stop s (stopLoop s)"
| start: "phase s \<in> {NotStarted, Returned} \<Longrightarrow> startLoop s = Ok s' \<Longrightarrow> estep Own s s'"
| again: "phase s = TestQuit \<Longrightarrow> \<not> quit s \<Longrightarrow> estep Own s (s\<lparr>in_round := True, phase := AtPoll\<rparr>)"
| leave: "phase s = TestQuit \<Longrightarrow> quit s \<Longrightarrow> estep Own s (s\<lparr>phase := LastTake\<rparr>)"
| poll: "phase s = AtPoll \<Longrightarrow> estep Own s (s\<lparr>phase := Events ps\<rparr>)"
| event: "phase s = Events (p # ps) \<Longrightarrow> estep Own s (s\<lparr>currentFd := Some p, phase := Events ps\<rparr>)"
| handled: "phase s = Events [] \<Longrightarrow>
    estep Own s (s\<lparr>currentFd := None, in_round := False, phase := TakeFunctors\<rparr>)"
| swap: "phase s = TakeFunctors \<Longrightarrow> estep Own s (s\<lparr>functors := [], phase := Functors (functors s)\<rparr>)"
| run: "phase s = Functors (f # fs) \<Longrightarrow> estep (Run f) s (s\<lparr>phase := Functors fs\<rparr>)"
| ran: "phase s = Functors [] \<Longrightarrow> estep Own s (s\<lparr>phase := Timers\<rparr>)"
| timers: "phase s = Timers \<Longrightarrow> estep Own s (s\<lparr>phase := TestQuit\<rparr>)"
| last_swap: "phase s = LastTake \<Longrightarrow>
    estep Own s (s\<lparr>functors := [], phase := LastFunctors (functors s)\<rparr>)"
| last_run: "phase s = LastFunctors (f # fs) \<Longrightarrow> estep (Run f) s (s\<lparr>phase := LastFunctors fs\<rparr>)"
| return: "phase s = LastFunctors [] \<Longrightarrow> estep Own s (s\<lparr>looping := False, phase := Returned\<rparr>)"

inductive_cases estep_QueueE: "estep (Queue t f) s s'"
inductive_cases estep_RunE: "estep (Run f) s s'"
inductive_cases estep_OwnE: "estep Own s s'"
inductive_cases estep_StopE: "estep Stop s s'"

lemmas estep_cases = estep_QueueE estep_RunE estep_OwnE estep_StopE

inductive esteps :: "eloop \<Rightarrow> act list \<Rightarrow> eloop \<Rightarrow> bool" where
  none: "esteps s [] s"
| more: "esteps s as s' \<Longrightarrow> estep a s' s'' \<Longrightarrow> esteps s (as @ [a]) s''"

text \<open>What was queued and what was run, in order; the batch the loop's thread holds.\<close>

fun queued_in :: "act list \<Rightarrow> nat list" where
  "queued_in [] = []"
| "queued_in (Queue t f # as) = f # queued_in as"
| "queued_in (_ # as) = queued_in as"

fun run_in :: "act list \<Rightarrow> nat list" where
  "run_in [] = []"
| "run_in (Run f # as) = f # run_in as"
| "run_in (_ # as) = run_in as"

fun batch :: "phase \<Rightarrow> nat list" where
  "batch (Functors fs) = fs"
| "batch (LastFunctors fs) = fs"
| "batch _ = []"

lemma queued_in_append [simp]: "queued_in (as @ bs) = queued_in as @ queued_in bs"
  by (induction as rule: queued_in.induct) auto

lemma run_in_append [simp]: "run_in (as @ bs) = run_in as @ run_in bs"
  by (induction as rule: run_in.induct) auto

lemma estep_conserves:
  assumes "estep a s s'"
  shows "run_in [a] @ batch (phase s') @ functors s' = batch (phase s) @ functors s @ queued_in [a]"
  using assms
  by (cases rule: estep.cases) (auto simp: queueInLoop_def stopLoop_def startLoop_def assertR_eq_Ok)

lemma esteps_conserve:
  assumes "esteps s as s'"
  shows "run_in as @ batch (phase s') @ functors s' = batch (phase s) @ functors s @ queued_in as"
  using assms
proof (induction rule: esteps.induct)
  case (more s as s' a s'')
  from estep_conserves [OF more.hyps(2)] more.IH show ?case
    by (metis append.assoc queued_in_append run_in_append)
qed simp


section \<open>Rounds\<close>

text \<open>How far the functors \<open>F\<close> queued at the start of a round have come.\<close>

fun progress :: "nat list \<Rightarrow> act list \<Rightarrow> eloop \<Rightarrow> bool" where
  "progress F as s = (case phase s of
     NotStarted \<Rightarrow> False
   | TestQuit \<Rightarrow> prefix F (run_in as) \<or> Own \<notin> set as \<and> prefix F (functors s)
   | Functors fs \<Rightarrow> prefix F (run_in as @ fs)
   | LastFunctors fs \<Rightarrow> prefix F (run_in as @ fs)
   | Timers \<Rightarrow> prefix F (run_in as)
   | Returned \<Rightarrow> prefix F (run_in as)
   | _ \<Rightarrow> prefix F (run_in as @ functors s))"

lemma no_own_no_run:
  assumes "esteps s as s'" and "phase s = TestQuit" and "Own \<notin> set as"
  shows "run_in as = [] \<and> phase s' = TestQuit"
  using assms
proof (induction rule: esteps.induct)
  case (more s as s' a s'')
  then have IH: "run_in as = []" "phase s' = TestQuit" and "a \<noteq> Own" by auto
  from more.hyps(2) show ?case
    by (cases rule: estep.cases)
      (use IH \<open>a \<noteq> Own\<close> in \<open>auto simp: queueInLoop_def stopLoop_def\<close>)
qed simp

lemma progress_step:
  assumes "progress F as s" and "estep a s s'" and "Own \<notin> set as \<Longrightarrow> phase s = TestQuit \<Longrightarrow> run_in as = []"
  shows "progress F (as @ [a]) s'"
  using assms(2)
proof (cases rule: estep.cases)
  case (start)
  with assms(1) show ?thesis by (auto simp: startLoop_def assertR_eq_Ok)
next
  case (again)
  with assms(1,3) show ?thesis by (cases "prefix F (run_in as)") auto
next
  case (leave)
  with assms(1,3) show ?thesis by (cases "prefix F (run_in as)") auto
next
  case (queue t f)
  with assms(1) show ?thesis
    by (auto simp: queueInLoop_def split: phase.splits simp flip: append_assoc intro: prefix_prefix)
qed (use assms(1) in \<open>auto simp: stopLoop_def split: phase.splits\<close>)

lemma esteps_progress:
  assumes "esteps s as s'" and "phase s = TestQuit"
  shows "progress (functors s) as s'"
  using assms
proof (induction rule: esteps.induct)
  case (more s as s' a s'')
  show ?case
    by (rule progress_step [OF more.IH [OF more.prems] more.hyps(2)])
      (use no_own_no_run [OF more.hyps(1) more.prems] in blast)
qed simp

lemma quit_stays:
  assumes "esteps s as s'" and "quit s"
  shows "quit s'"
  using assms
proof (induction rule: esteps.induct)
  case (more s as s' a s'')
  from more.hyps(2) show ?case
    by (cases rule: estep.cases)
      (use more in \<open>auto simp: queueInLoop_def stopLoop_def startLoop_def assertR_eq_Ok\<close>)
qed simp

section \<open>Properties\<close>

text \<open>
  C15. However the loop's thread and the other threads interleave: the functors that have run,
  followed by those of the batch in hand and those still queued, are exactly the functors
  queued so far in the order of queueing. So each runs at most once, in order, and none is lost.
\<close>

theorem functors_run_once_in_order:
  assumes "esteps (newLoop t) as s"
  shows "run_in as @ batch (phase s) @ functors s = queued_in as"
  using esteps_conserve [OF assms] by (simp add: newLoop_def)

text \<open>A run for the witnesses: two functors from another thread, one round, a stop.\<close>

lemma demo_round:
  "\<exists>s. esteps (newLoop 1) [Own, Queue 2 7, Own, Own, Queue 2 8, Own, Own, Run 7, Run 8, Own, Own, Stop] s
    \<and> quit s \<and> phase s = TestQuit"
proof -
  let ?s1 = "(newLoop 1)\<lparr>looping := True, phase := TestQuit\<rparr>"
  have "esteps (newLoop 1) [Own] ?s1"
    by (rule more [OF none, simplified], rule estep.start) (simp_all add: newLoop_def startLoop_def)
  from more [OF this estep.queue [of 2 7]]
  have "esteps (newLoop 1) [Own, Queue 2 7] (queueInLoop 7 ?s1)" by simp
  from more [OF this estep.again]
  have "esteps (newLoop 1) [Own, Queue 2 7, Own] ((queueInLoop 7 ?s1)\<lparr>in_round := True, phase := AtPoll\<rparr>)"
    by (simp add: queueInLoop_def newLoop_def)
  from more [OF this estep.poll [of _ "[]"]]
  have "esteps (newLoop 1) [Own, Queue 2 7, Own, Own]
      ((queueInLoop 7 ?s1)\<lparr>in_round := True, phase := Events []\<rparr>)" by simp
  from more [OF this estep.queue [of 2 8]]
  have "esteps (newLoop 1) [Own, Queue 2 7, Own, Own, Queue 2 8]
      (queueInLoop 8 ((queueInLoop 7 ?s1)\<lparr>in_round := True, phase := Events []\<rparr>))" by simp
  from more [OF this estep.handled]
  have "esteps (newLoop 1) [Own, Queue 2 7, Own, Own, Queue 2 8, Own]
      ((newLoop 1)\<lparr>looping := True, functors := [7, 8], phase := TakeFunctors\<rparr>)"
    by (simp add: queueInLoop_def newLoop_def)
  from more [OF this estep.swap]
  have "esteps (newLoop 1) [Own, Queue 2 7, Own, Own, Queue 2 8, Own, Own]
      ((newLoop 1)\<lparr>looping := True, functors := [], phase := Functors [7, 8]\<rparr>)" by simp
  from more [OF this estep.run [of _ 7 "[8]"]]
  have "esteps (newLoop 1) [Own, Queue 2 7, Own, Own, Queue 2 8, Own, Own, Run 7]
      ((newLoop 1)\<lparr>looping := True, functors := [], phase := Functors [8]\<rparr>)" by simp
  from more [OF this estep.run [of _ 8 "[]"]]
  have "esteps (newLoop 1) [Own, Queue 2 7, Own, Own, Queue 2 8, Own, Own, Run 7, Run 8]
      ((newLoop 1)\<lparr>looping := True, functors := [], phase := Functors []\<rparr>)" by simp
  from more [OF this estep.ran]
  have "esteps (newLoop 1) [Own, Queue 2 7, Own, Own, Queue 2 8, Own, Own, Run 7, Run 8, Own]
      ((newLoop 1)\<lparr>looping := True, functors := [], phase := Timers\<rparr>)" by simp
  from more [OF this estep.timers]
  have "esteps (newLoop 1) [Own, Queue 2 7, Own, Own, Queue 2 8, Own, Own, Run 7, Run 8, Own, Own]
      ((newLoop 1)\<lparr>looping := True, functors := [], phase := TestQuit\<rparr>)" by simp
  from more [OF this estep.stop] show ?thesis by (auto simp: stopLoop_def)
qed

theorem functors_run_once_in_order_witness:
  "\<exists>as s. esteps (newLoop 1) as s \<and> run_in as = [7, 8] \<and> run_in as @ batch (phase s) @ functors s = [7, 8]"
  using demo_round functors_run_once_in_order [of 1 "[Own, Queue 2 7, Own, Own, Queue 2 8, Own, Own, Run 7, Run 8, Own, Own, Stop]"]
  by fastforce

text \<open>
  C25. No functor waits for ever: once the loop has come back to its test of \<open>_quit\<close>, or has
  returned, every functor that was queued when it was there before has run, whatever else was
  queued meanwhile and whether or not the loop was stopped.
\<close>

theorem functors_run_within_a_round:
  assumes "esteps s as s'" and "phase s = TestQuit" and "Own \<in> set as"
    and "phase s' = TestQuit \<or> phase s' = Returned"
  shows "prefix (functors s) (run_in as)"
  using esteps_progress [OF assms(1,2)] assms(3,4) by auto

text \<open>The demonstration run from its first test of \<open>_quit\<close> on.\<close>

definition at_test :: "nat list \<Rightarrow> bool \<Rightarrow> eloop" where
  "at_test fs q = (newLoop 1)\<lparr>quit := q, looping := True, functors := fs, phase := TestQuit\<rparr>"

lemma round_run:
  "esteps (at_test [7] False) [Own, Own, Own, Own, Run 7, Own, Own] (at_test [] False)"
proof -
  let ?s = "at_test [7] False"
  from more [OF none estep.again, of ?s]
  have "esteps ?s [Own] (?s\<lparr>in_round := True, phase := AtPoll\<rparr>)" by (simp add: at_test_def newLoop_def)
  from more [OF this estep.poll [of _ "[]"]]
  have "esteps ?s [Own, Own] (?s\<lparr>in_round := True, phase := Events []\<rparr>)" by simp
  from more [OF this estep.handled]
  have "esteps ?s [Own, Own, Own] (?s\<lparr>phase := TakeFunctors\<rparr>)" by (simp add: at_test_def newLoop_def)
  from more [OF this estep.swap]
  have "esteps ?s [Own, Own, Own, Own] (?s\<lparr>functors := [], phase := Functors [7]\<rparr>)"
    by (simp add: at_test_def newLoop_def)
  from more [OF this estep.run [of _ 7 "[]"]]
  have "esteps ?s [Own, Own, Own, Own, Run 7] (?s\<lparr>functors := [], phase := Functors []\<rparr>)" by simp
  from more [OF this estep.ran]
  have "esteps ?s [Own, Own, Own, Own, Run 7, Own] (?s\<lparr>functors := [], phase := Timers\<rparr>)" by simp
  from more [OF this estep.timers] show ?thesis by (simp add: at_test_def newLoop_def)
qed

theorem functors_run_within_a_round_witness:
  "prefix (functors (at_test [7] False)) (run_in [Own, Own, Own, Own, Run 7, Own, Own])"
  by (rule functors_run_within_a_round [OF round_run]) (simp_all add: at_test_def)

text \<open>The phases after the loop has seen \<open>_quit\<close>.\<close>

fun leaving :: "phase \<Rightarrow> bool" where
  "leaving TestQuit = True"
| "leaving LastTake = True"
| "leaving (LastFunctors fs) = True"
| "leaving Returned = True"
| "leaving _ = False"

text \<open>
  \<open>stop\<close> is final: nothing ever clears \<open>_quit\<close> again. A loop that tests it begins no further
  round, and a later \<open>start\<close>, like a \<open>start\<close> after an early \<open>stop\<close>, fails its assertion.
\<close>

theorem stopped_loop_never_restarts:
  assumes "esteps s as s'" and "quit s" and "leaving (phase s)"
  shows "quit s' \<and> leaving (phase s') \<and> startLoop s' = Fail AssertFail"
proof -
  have "quit s'" by (rule quit_stays [OF assms(1,2)])
  moreover have "leaving (phase s')"
    using assms
  proof (induction rule: esteps.induct)
    case (more s as s' a s'')
    note q = quit_stays [OF more.hyps(1) more.prems(1)]
    from more.hyps(2) show ?case
      by (cases rule: estep.cases)
        (use q more.IH [OF more.prems] in \<open>auto simp: queueInLoop_def stopLoop_def startLoop_def assertR_eq_Ok\<close>)
  qed simp
  ultimately show ?thesis by (simp add: startLoop_def assertR_def)
qed

lemma batch_run:
  assumes "phase s = LastFunctors fs"
  shows "\<exists>as. esteps s as (s\<lparr>looping := False, phase := Returned\<rparr>) \<and> run_in as = fs \<and> queued_in as = []"
proof -
  have "\<exists>as. esteps s as (s\<lparr>phase := LastFunctors (drop n fs)\<rparr>) \<and> run_in as = take n fs \<and> queued_in as = []"
    if "n \<le> length fs" for n
    using that
  proof (induction n)
    case 0
    have "s\<lparr>phase := LastFunctors fs\<rparr> = s" using assms by (cases s) simp
    then show ?case using none by fastforce
  next
    case (Suc n)
    then obtain as where as: "esteps s as (s\<lparr>phase := LastFunctors (drop n fs)\<rparr>)" "run_in as = take n fs"
      "queued_in as = []" by auto
    have "drop n fs = fs ! n # drop (Suc n) fs" using Suc.prems by (simp add: Cons_nth_drop_Suc)
    then have "esteps s (as @ [Run (fs ! n)]) (s\<lparr>phase := LastFunctors (drop (Suc n) fs)\<rparr>)"
      using more [OF as(1) estep.last_run [of _ "fs ! n" "drop (Suc n) fs"]] by simp
    moreover have "run_in (as @ [Run (fs ! n)]) = take (Suc n) fs"
      using as(2) Suc.prems by (simp add: take_Suc_conv_app_nth)
    ultimately show ?case using as(3) by (intro exI [of _ "as @ [Run (fs ! n)]"]) simp
  qed
  from this [of "length fs"] obtain as where "esteps s as (s\<lparr>phase := LastFunctors []\<rparr>)"
    "run_in as = fs" "queued_in as = []" by auto
  then show ?thesis using more [OF _ estep.return, of s as "s\<lparr>phase := LastFunctors []\<rparr>"]
    by (intro exI [of _ "as @ [Own]"]) simp
qed

text \<open>
  C35. A stopped loop returns: from its test of \<open>_quit\<close> its thread alone gets to the end of
  \<open>start\<close>, running exactly the functors that were still queued.
\<close>

theorem stopped_loop_returns:
  assumes "phase s = TestQuit" and "quit s"
  shows "\<exists>as. esteps s as (s\<lparr>functors := [], looping := False, phase := Returned\<rparr>)
    \<and> run_in as = functors s \<and> queued_in as = []"
proof -
  let ?s2 = "s\<lparr>functors := [], phase := LastFunctors (functors s)\<rparr>"
  have "esteps s [Own] (s\<lparr>phase := LastTake\<rparr>)" using more [OF none estep.leave [OF assms]] by simp
  from more [OF this estep.last_swap] have start: "esteps s [Own, Own] ?s2" by simp
  obtain as where as: "esteps ?s2 as (?s2\<lparr>looping := False, phase := Returned\<rparr>)"
    "run_in as = functors s" "queued_in as = []"
    using batch_run [of ?s2 "functors s"] by auto
  have "esteps s ([Own, Own] @ bs) s'" if "esteps ?s2 bs s'" for bs s'
    using that start
  proof (induction "?s2" bs s' rule: esteps.induct)
    case (more as' s' a s'')
    then show ?case using esteps.more by (metis append.assoc)
  qed simp
  from this [OF as(1)] as show ?thesis by (intro exI [of _ "[Own, Own] @ as"]) simp
qed

theorem stopped_loop_never_restarts_witness:
  "\<exists>as. leaving (phase (stopLoop (at_test [7] True))) \<and> esteps (at_test [7] True) as (stopLoop (at_test [7] True))
    \<and> startLoop (stopLoop (at_test [7] True)) = Fail AssertFail"
  using stopped_loop_never_restarts [OF more [OF none estep.stop], of "at_test [7] True"]
    more [OF none estep.stop, of "at_test [7] True"] by (auto simp: at_test_def)

theorem stopped_loop_returns_witness:
  "\<exists>as s'. esteps (at_test [7, 8] True) as s' \<and> phase s' = Returned \<and> run_in as = [7, 8]"
  using stopped_loop_returns [of "at_test [7, 8] True"] by (fastforce simp: at_test_def)

text \<open>
  A batch of functors is what it is when the loop takes it: \<open>runFunctors\<close> runs the functors
  queued so far once each, in order, and what they queue themselves waits for the next round.
  Here \<open>spawn f\<close> are the functors that \<open>f\<close> queues, by any means.
\<close>

theorem runFunctors_defers_new_functors:
  assumes "\<And>f s. run f s = s\<lparr>functors := functors s @ spawn f\<rparr>"
  shows "functors (runFunctors run s) = concat (map spawn (functors s))
    \<and> runFunctors run s = s\<lparr>functors := functors (runFunctors run s)\<rparr>"
proof -
  have "fold run fs v = v\<lparr>functors := functors v @ concat (map spawn fs)\<rparr>" for fs v
    by (induction fs arbitrary: v) (simp_all add: assms)
  then show ?thesis by (simp add: runFunctors_def)
qed

theorem runFunctors_defers_new_functors_witness:
  "functors (runFunctors (\<lambda>f s. s\<lparr>functors := functors s @ [f + 1]\<rparr>) (at_test [7, 20] False)) = [8, 21]"
  using runFunctors_defers_new_functors [of "\<lambda>f s. s\<lparr>functors := functors s @ [f + 1]\<rparr>" "\<lambda>f. [f + 1]"]
  by (simp add: at_test_def)

section \<open>One loop per thread\<close>

text \<open>A loop that no descriptor belongs to yet may start with an empty poller.\<close>

lemma watch_inv_fresh_loop:
  assumes inv: "watch_inv w" and free: "\<And>q g. iofds w q = Some g \<Longrightarrow> looper g \<noteq> Some l"
  shows "watch_inv (putPoller l newEPollPoller (w\<lparr>loop_tid := tids\<rparr>))"
proof -
  let ?v = "putPoller l newEPollPoller (w\<lparr>loop_tid := tids\<rparr>)"
  have "fd_ok ?v r h" if "iofds ?v r = Some h" for r h
    using that watch_invD(1) [OF inv, of r h] free [of r h]
    by (auto simp: fd_ok_def split: option.splits)
  moreover have "poller_ok ?v k" for k
  proof (cases "k = l")
    case True
    then show ?thesis by (simp add: poller_ok_def newEPollPoller_def)
  next
    case False
    then have eq: "pollers ?v k = pollers w k" "iofds ?v = iofds w" by simp_all
    show ?thesis using watch_invD(2) [OF inv, of k] unfolding poller_ok_def eq by blast
  qed
  moreover have "r = q" if "iofds ?v r = Some h" "iofds ?v q = Some k" "fdno h = fdno k" for r q h k
    using that watch_invD(3) [OF inv] by auto
  ultimately show ?thesis unfolding watch_inv_def by blast
qed

text \<open>
  A thread without a loop can create one: afterwards the wakeup descriptor is registered for
  reading with the new loop's epoll instance, and the invariant of all descriptors holds. Deleting
  the loop takes the registration back, but the thread is still marked as having a loop, so
  creating another loop on it aborts.
\<close>

theorem loop_created_once_per_thread:
  assumes inv: "watch_inv (net s)" and none: "t_looperInThread s (here (net s)) = None"
    and p: "iofds (net s) p = None" and fd: "\<And>q g. iofds (net s) q = Some g \<Longrightarrow> fdno g \<noteq> fd"
    and l: "\<And>q g. iofds (net s) q = Some g \<Longrightarrow> looper g \<noteq> Some l"
  shows "\<exists>s1 s2. newEventLoop l p (SysOk fd) raw s = Ok s1 \<and> watch_inv (net s1)
    \<and> kernel (pollers (net s1) l) fd = Some (kReadEvent, p)
    \<and> deleteEventLoop Ok l p s1 = Ok s2 \<and> watch_inv (net s2) \<and> kernel (pollers (net s2) l) fd = None
    \<and> newEventLoop k r (SysOk fd') raw' s2 = Fail FatalAbort"
proof -
  let ?t = "here (net s)" and ?ep = newEPollPoller
  let ?v = "putPoller l ?ep ((net s)\<lparr>loop_tid := (loop_tid (net s))(l := here (net s))\<rparr>)"
  let ?f = "newIOFd fd raw"
  let ?w0 = "putFd p ?f ?v"
  have vok: "watch_inv ?v" by (rule watch_inv_fresh_loop [OF inv l])
  have w0: "watch_inv ?w0"
    by (rule watch_inv_idle [OF vok, of p]) (use p fd in \<open>auto simp: newIOFd_def\<close>)
  let ?g = "?f\<lparr>looper := Some l\<rparr>"
  let ?w1 = "putFd p ?g ?w0"
  have att: "attachInLoop l p ?w0 = Ok ?w1"
    by (simp add: attachInLoop_def assertInLoopThread_def newIOFd_def)
  have w1: "watch_inv ?w1"
    by (rule watch_inv_idle [OF w0, of p]) (use p fd in \<open>auto simp: newIOFd_def\<close>)
  have g: "iofds ?w1 p = Some ?g" "looper ?g = Some l" "loop_tid ?w1 l = here ?w1" by simp_all
  let ?h = "?g\<lparr>events := kReadEvent, status := ADDED\<rparr>"
  obtain ep where ep: "set_events p ?g kReadEvent ?w1 = Ok (putPoller l ep (putFd p ?h ?w1))"
    "watch_inv (putPoller l ep (putFd p ?h ?w1))"
    using set_events_ok [OF w1 g, of kReadEvent] by auto
  let ?w2 = "putPoller l ep (putFd p ?h ?w1)"
  have en: "enableRead p ?w1 = Ok ?w2"
    using ep(1) by (simp add: enableRead_def isReading_def newIOFd_def)
  let ?w3 = "putFd p (?h\<lparr>readCallback := Some (wakeup_callback l)\<rparr>) ?w2"
  let ?s1 = "s\<lparr>net := ?w3, t_looperInThread := (t_looperInThread s)(?t \<mapsto> l)\<rparr>"
  have new: "newEventLoop l p (SysOk fd) raw s = Ok ?s1"
    using none att en by (simp add: newEventLoop_def Let_def)
  have w3: "watch_inv ?w3"
    by (rule watch_inv_same [OF ep(2), of p ?h]) simp_all
  have reg: "kernel (pollers ?w3 l) fd = Some (kReadEvent, p)"
    unfolding registered_iff [OF w3] interest_def by (simp add: newIOFd_def)
  have th: "on_thread p ?w3" by (simp add: on_thread_def)
  obtain b w' h' where d: "detachInLoop p ?w3 = Ok (b, w')" "watch_inv w'" "iofds w' p = Some h'"
    "looper h' = None" "status h' = NEW" "events h' = 0" "\<not> handling h'" "fdno h' = fd" "here w' = ?t"
    using detach_ok [OF w3 th, of "?h\<lparr>readCallback := Some (wakeup_callback l)\<rparr>"] by (auto simp: newIOFd_def)
  let ?w4 = "w'\<lparr>iofds := (iofds w')(p := None)\<rparr>"
  have gone: "kernel (pollers w' l) fd = None"
  proof (rule ccontr)
    assume "kernel (pollers w' l) fd \<noteq> None"
    then obtain e r where "interest w' l fd e r" using registered_iff [OF d(2)] by auto
    then obtain k where "iofds w' r = Some k" "fdno k = fd" "looper k = Some l" by (auto simp: interest_def)
    with watch_invD(3) [OF d(2) this(1) d(3)] d(3,4,8) show False by auto
  qed
  have "watch_inv ?w4" by (rule watch_inv_idle [OF d(2), of p]) (use d(3,5) in auto)
  moreover have "deleteEventLoop Ok l p ?s1 = Ok (?s1\<lparr>net := ?w4\<rparr>)"
    using d by (simp add: deleteEventLoop_def assertInLoopThread_def deleteIOFd_def isNoneEvent_def)
  moreover have "newEventLoop k r (SysOk fd') raw' (?s1\<lparr>net := ?w4\<rparr>) = Fail FatalAbort"
    using d(9) by (simp add: newEventLoop_def Let_def)
  ultimately show ?thesis using new w3 reg gone by (intro exI [of _ ?s1] exI [of _ "?s1\<lparr>net := ?w4\<rparr>"]) simp
qed


theorem loop_created_once_per_thread_witness:
  "\<exists>s1. newEventLoop 0 1 (SysOk 5) None \<lparr>net = idle_net, t_looperInThread = Map.empty\<rparr> = Ok s1
    \<and> kernel (pollers (net s1) 0) 5 = Some (kReadEvent, 1)"
proof -
  let ?s = "\<lparr>net = idle_net, t_looperInThread = Map.empty\<rparr>"
  have "watch_inv (net ?s)" "t_looperInThread ?s (here (net ?s)) = None" "iofds (net ?s) = Map.empty"
    by (simp_all add: idle_net_inv) (simp add: idle_net_def)
  then show ?thesis using loop_created_once_per_thread [of ?s 1 5 0 None 0 0 0 None] by (auto simp del: One_nat_def)
qed

end
