(* ===== verification/Threads.thy ===== *)
theory Threads
  imports EventLoop
begin

text \<open>
  The thread utilities and the loop cluster: \<open>base/CountDownLatch.cpp\<close>, \<open>base/ThreadPool.cpp\<close> and
  \<open>net/EventLoopCluster.cpp\<close>, as step relations over the interleavings of their threads. A step is
  what a thread does while it holds the object's mutex.
\<close>

section \<open>Count-down latch\<close>

text \<open>
  \<open>waiting\<close> are the threads blocked in \<open>wait\<close>, \<open>passed\<close> those that have returned from it. A notified
  thread tests the count again before it returns.
\<close>

record latch =
  lcount :: int
  waiting :: "nat set"
  notified :: "nat set"
  passed :: "nat set"

definition newLatch :: "int \<Rightarrow> latch" where
  "newLatch n = \<lparr>lcount = n, waiting = {}, notified = {}, passed = {}\<rparr>"

definition latch_wait :: "nat \<Rightarrow> latch \<Rightarrow> latch" where
  "latch_wait t s = (if lcount s = 0 then s\<lparr>passed := insert t (passed s)\<rparr>
     else s\<lparr>waiting := insert t (waiting s)\<rparr>)"

definition latch_wake :: "nat \<Rightarrow> latch \<Rightarrow> latch" where
  "latch_wake t s = latch_wait t (s\<lparr>notified := notified s - {t}\<rparr>)"

definition countDown :: "latch \<Rightarrow> latch" where
  "countDown s = (let s1 = s\<lparr>lcount := lcount s - 1\<rparr>
     in if lcount s1 = 0 then s1\<lparr>waiting := {}, notified := notified s1 \<union> waiting s1\<rparr> else s1)"

datatype latch_act = LWait nat | LWake nat | LDown

inductive latch_run :: "int \<Rightarrow> latch_act list \<Rightarrow> latch \<Rightarrow> bool" for n where
  new: "latch_run n [] (newLatch n)"
| wait: "latch_run n as s \<Longrightarrow> t \<notin> waiting s \<union> notified s \<union> passed s \<Longrightarrow>
    latch_run n (as @ [LWait t]) (latch_wait t s)"
| wake: "latch_run n as s \<Longrightarrow> t \<in> notified s \<Longrightarrow> latch_run n (as @ [LWake t]) (latch_wake t s)"
| down: "latch_run n as s \<Longrightarrow> latch_run n (as @ [LDown]) (countDown s)"

definition downs :: "latch_act list \<Rightarrow> nat" where
  "downs as = count_list as LDown"

lemma downs_simps [simp]:
  "downs [] = 0" "downs (as @ [LWait t]) = downs as" "downs (as @ [LWake t]) = downs as"
  "downs (as @ [LDown]) = Suc (downs as)"
  by (simp_all add: downs_def)

lemma latch_run_inv:
  assumes "latch_run n as s"
  shows "lcount s = n - int (downs as) \<and> (lcount s = 0 \<longrightarrow> waiting s = {})
    \<and> (passed s \<union> notified s \<noteq> {} \<longrightarrow> n \<le> int (downs as))"
  using assms
  by (induction rule: latch_run.induct)
    (auto simp: newLatch_def latch_wait_def latch_wake_def countDown_def Let_def)

text \<open>
  No thread gets past a latch for \<open>n\<close> events before \<open>n\<close> of them have happened, and when the
  \<open>n\<close>-th has happened no thread is left blocked: every one that waited has been notified.
\<close>

theorem latch_opens_at_zero:
  assumes "latch_run n as s"
  shows "(int (downs as) < n \<longrightarrow> passed s = {}) \<and> (int (downs as) = n \<longrightarrow> waiting s = {})"
  using latch_run_inv [OF assms] by auto

lemma latch_demo: "latch_run 1 [LWait 4, LDown] (countDown (latch_wait 4 (newLatch 1)))"
  using latch_run.down [OF latch_run.wait [OF latch_run.new, of 4 1]] by (simp add: newLatch_def)

theorem latch_opens_at_zero_witness:
  "waiting (countDown (latch_wait 4 (newLatch 1))) = {} \<and> notified (countDown (latch_wait 4 (newLatch 1))) = {4}"
  using latch_opens_at_zero [OF latch_demo] by (simp add: downs_def newLatch_def latch_wait_def countDown_def Let_def)

section \<open>Thread pool\<close>

text \<open>A worker is waiting for a task, runs one, or has left \<open>work\<close>.\<close>

datatype worker = Waiting | Working nat | Gone

record pool =
  stopped :: bool
  tasks :: "nat list"
  workers :: "worker list"
  inline :: "nat list"

definition newPool :: pool where
  "newPool = \<lparr>stopped = False, tasks = [], workers = [], inline = []\<rparr>"

definition startPool :: "nat \<Rightarrow> pool \<Rightarrow> pool res" where
  "startPool count s = assertR (workers s = []) (Ok (s\<lparr>workers := replicate count Waiting\<rparr>))"

text \<open>\<open>inline\<close> are the tasks that \<open>run\<close> executes itself, in the caller's thread.\<close>

definition runTask :: "nat \<Rightarrow> pool \<Rightarrow> pool" where
  "runTask t s =
     (if stopped s then s
      else if workers s = [] then s\<lparr>inline := inline s @ [t]\<rparr>
      else s\<lparr>tasks := tasks s @ [t]\<rparr>)"

text \<open>Worker \<open>i\<close> awake with the mutex held, and when its task has returned.\<close>

definition work_take :: "nat \<Rightarrow> pool \<Rightarrow> pool" where
  "work_take i s =
     (if stopped s then s\<lparr>workers := (workers s)[i := Gone]\<rparr>
      else case tasks s of
        [] \<Rightarrow> s
      | t # ts \<Rightarrow> s\<lparr>tasks := ts, workers := (workers s)[i := Working t]\<rparr>)"

definition work_end :: "nat \<Rightarrow> pool \<Rightarrow> pool" where
  "work_end i s = s\<lparr>workers := (workers s)[i := Gone]\<rparr>"

definition stopPool :: "pool \<Rightarrow> pool" where
  "stopPool s = s\<lparr>stopped := True\<rparr>"

text \<open>\<open>stop\<close> returns when every worker has left.\<close>

definition joined :: "pool \<Rightarrow> bool" where
  "joined s \<longleftrightarrow> set (workers s) \<subseteq> {Gone}"

datatype pool_act = Submit nat | Take nat | Finish nat | StopAll

inductive pool_run :: "nat \<Rightarrow> pool_act list \<Rightarrow> pool \<Rightarrow> bool" for n where
  begin_pool: "startPool n newPool = Ok s \<Longrightarrow> pool_run n [] s"
| submit: "pool_run n as s \<Longrightarrow> pool_run n (as @ [Submit t]) (runTask t s)"
| take_task: "pool_run n as s \<Longrightarrow> i < length (workers s) \<Longrightarrow> workers s ! i = Waiting \<Longrightarrow>
    pool_run n (as @ [Take i]) (work_take i s)"
| finish: "pool_run n as s \<Longrightarrow> i < length (workers s) \<Longrightarrow> workers s ! i = Working t \<Longrightarrow>
    pool_run n (as @ [Finish i]) (work_end i s)"
| stop: "pool_run n as s \<Longrightarrow> pool_run n (as @ [StopAll]) (stopPool s)"

text \<open>Tasks accepted into the queue, in order, and tasks begun by the workers.\<close>

fun submitted :: "pool_act list \<Rightarrow> nat list" where
  "submitted [] = []"
| "submitted (Submit t # as) = t # submitted as"
| "submitted (_ # as) = submitted as"

lemma submitted_append [simp]: "submitted (as @ bs) = submitted as @ submitted bs"
  by (induction as rule: submitted.induct) auto

definition idle_workers :: "pool \<Rightarrow> nat" where
  "idle_workers s = count_list (workers s) Waiting"

lemma count_list_update:
  assumes "i < length xs"
  shows "count_list (xs[i := y]) x = count_list xs x - (if xs ! i = x then 1 else 0) + (if y = x then 1 else 0)"
  using assms
proof (induction xs arbitrary: i)
  case (Cons z xs)
  show ?case
  proof (cases i)
    case (Suc j)
    have pos: "xs ! j = x \<Longrightarrow> count_list xs x > 0"
      using Cons.prems Suc by (metis count_list_0_iff gr_zeroI length_Cons not_less_eq nth_mem)
    then show ?thesis using Cons.IH [of j] Cons.prems Suc by auto
  qed simp
qed simp

lemma count_list_replicate: "count_list (replicate n x) x = n"
  by (induction n) auto

text \<open>Tasks accepted split into those begun, those queued and those dropped after \<open>stop\<close>.\<close>

definition pool_ok :: "nat \<Rightarrow> pool_act list \<Rightarrow> pool \<Rightarrow> nat list \<Rightarrow> nat list \<Rightarrow> bool" where
  "pool_ok n as s begun dropped \<longleftrightarrow> length (workers s) = n \<and> submitted as = begun @ tasks s @ dropped
     \<and> length begun + idle_workers s \<le> n \<and> (\<not> stopped s \<longrightarrow> dropped = [])"

lemma pool_run_inv:
  assumes "pool_run n as s" and "0 < n"
  shows "\<exists>begun dropped. pool_ok n as s begun dropped"
  using assms
proof (induction rule: pool_run.induct)
  case (begin_pool s)
  then have "pool_ok n [] s [] []"
    by (auto simp: pool_ok_def startPool_def assertR_eq_Ok newPool_def idle_workers_def count_list_replicate)
  then show ?case by blast
next
  case (submit as s t)
  then obtain b d where h: "pool_ok n as s b d" by auto
  then have "workers s \<noteq> []" using submit.prems by (auto simp: pool_ok_def)
  with h have "pool_ok n (as @ [Submit t]) (runTask t s) b (if stopped s then d @ [t] else d)"
    by (auto simp: pool_ok_def runTask_def idle_workers_def)
  then show ?case by blast
next
  case (take_task as s i)
  then obtain b d where h: "pool_ok n as s b d" by auto
  have less: "idle_workers (s\<lparr>workers := (workers s)[i := v]\<rparr>) = idle_workers s - 1"
    "idle_workers (s\<lparr>tasks := ts, workers := (workers s)[i := v]\<rparr>) = idle_workers s - 1"
    if "v \<noteq> Waiting" for v ts
    using take_task.hyps(2,3) that by (simp_all add: idle_workers_def count_list_update)
  have pos: "0 < idle_workers s"
    using take_task.hyps(2,3) by (metis count_list_0_iff gr_zeroI idle_workers_def nth_mem)
  show ?case
  proof (cases "stopped s \<or> tasks s = []")
    case True
    with h less(1) [of Gone] have "pool_ok n (as @ [Take i]) (work_take i s) b d"
      by (auto simp: pool_ok_def work_take_def)
    then show ?thesis by blast
  next
    case False
    then obtain t ts where t: "tasks s = t # ts" by (cases "tasks s") auto
    with False h less(2) [of "Working t" ts] pos
    have "pool_ok n (as @ [Take i]) (work_take i s) (b @ [t]) d"
      by (auto simp: pool_ok_def work_take_def)
    then show ?thesis by blast
  qed
next
  case (finish as s i t)
  then obtain b d where h: "pool_ok n as s b d" by auto
  have "idle_workers (work_end i s) = idle_workers s"
    using finish.hyps(2,3) by (simp add: work_end_def idle_workers_def count_list_update)
  with h have "pool_ok n (as @ [Finish i]) (work_end i s) b d"
    by (simp add: pool_ok_def) (simp add: work_end_def)
  then show ?case by blast
next
  case (stop as s)
  then obtain b d where "pool_ok n as s b d" by auto
  then have "pool_ok n (as @ [StopAll]) (stopPool s) b d"
    by (auto simp: pool_ok_def stopPool_def idle_workers_def)
  then show ?case by blast
qed

text \<open>
  A worker of the pool runs one task and leaves: in every run of a pool of \<open>n\<close> threads, the
  tasks that are begun are the first ones submitted, in order, and there are never more than \<open>n\<close>
  of them; once \<open>n\<close> have been begun, all later tasks stay in the queue for ever.
\<close>

theorem pool_begins_at_most_n_tasks:
  assumes "pool_run n as s" and "0 < n"
  shows "\<exists>begun dropped. submitted as = begun @ tasks s @ dropped \<and> length begun \<le> n
    \<and> (\<not> stopped s \<longrightarrow> dropped = [] \<and> length (tasks s) + n \<ge> length (submitted as))"
  using pool_run_inv [OF assms] unfolding pool_ok_def by fastforce

lemma pool_demo:
  "pool_run 1 [Submit 3, Submit 4, Take 0, Finish 0]
     \<lparr>stopped = False, tasks = [4], workers = [Gone], inline = []\<rparr>"
proof -
  have "pool_run 1 [] \<lparr>stopped = False, tasks = [], workers = [Waiting], inline = []\<rparr>"
    by (rule pool_run.begin_pool) (simp add: startPool_def newPool_def)
  from pool_run.submit [OF this, of 3]
  have "pool_run 1 [Submit 3] \<lparr>stopped = False, tasks = [3], workers = [Waiting], inline = []\<rparr>"
    by (simp add: runTask_def)
  from pool_run.submit [OF this, of 4]
  have "pool_run 1 [Submit 3, Submit 4] \<lparr>stopped = False, tasks = [3, 4], workers = [Waiting], inline = []\<rparr>"
    by (simp add: runTask_def)
  from pool_run.take_task [OF this, of 0]
  have "pool_run 1 [Submit 3, Submit 4, Take 0] \<lparr>stopped = False, tasks = [4], workers = [Working 3], inline = []\<rparr>"
    by (simp add: work_take_def)
  from pool_run.finish [OF this, of 0 3] show ?thesis by (simp add: work_end_def)
qed

theorem pool_begins_at_most_n_tasks_witness:
  "\<exists>s begun dropped. pool_run 1 [Submit 3, Submit 4, Take 0, Finish 0] s \<and> tasks s = [4]
    \<and> submitted [Submit 3, Submit 4, Take 0, Finish 0] = begun @ tasks s @ dropped \<and> length begun \<le> 1"
proof -
  have "tasks \<lparr>stopped = False, tasks = [4], workers = [Gone], inline = []\<rparr> = [4]" by simp
  then show ?thesis using pool_begins_at_most_n_tasks [OF pool_demo zero_less_one] pool_demo by blast
qed

section \<open>Loop cluster\<close>

text \<open>
  \<open>getNextLoop\<close>: the counter is an atomic \<open>int\<close> that wraps, the index is taken after conversion to
  \<open>size_t\<close>. \<open>n\<close> is the number of pairs; the result is the index of the pair, \<open>None\<close> the master loop.
\<close>

definition getNextLoop :: "nat \<Rightarrow> nat \<Rightarrow> 32 word \<Rightarrow> (nat option \<times> 32 word) res" where
  "getNextLoop threadCount n c =
     (if threadCount \<le> 1 then Ok (None, c)
      else assertR (n \<noteq> 0)
        (let c1 = c + 1 in Ok (Some (unat (scast c1 :: 64 word) mod n), c1)))"

fun next_loops :: "nat \<Rightarrow> nat \<Rightarrow> 32 word \<Rightarrow> nat \<Rightarrow> nat option list res" where
  "next_loops threadCount n c 0 = Ok []"
| "next_loops threadCount n c (Suc k) =
     bindR (getNextLoop threadCount n c) (\<lambda>(i, c1).
     bindR (next_loops threadCount n c1 k) (\<lambda>is. Ok (i # is)))"

lemma index_small:
  assumes "k < 2 ^ 31"
  shows "unat (scast (of_nat k :: 32 word) :: 64 word) = k"
proof -
  have "sint (of_nat k :: 32 word) = int k"
    using assms by (simp add: signed_of_nat signed_take_bit_int_eq_self)
  then have "scast (of_nat k :: 32 word) = (of_nat k :: 64 word)"
    by (simp only: scast_eq of_int_of_nat_eq)
  then show ?thesis using assms by (simp add: unat_of_nat)
qed

lemma next_loops_from:
  assumes "1 < threadCount" and "n \<noteq> 0" and "c + k < 2 ^ 31"
  shows "next_loops threadCount n (of_nat c) k = Ok (map (\<lambda>i. Some (i mod n)) [Suc c..<Suc (c + k)])"
  using assms(3)
proof (induction k arbitrary: c)
  case (Suc k)
  have "of_nat c + 1 = (of_nat (Suc c) :: 32 word)" by simp
  then have "getNextLoop threadCount n (of_nat c) = Ok (Some (Suc c mod n), of_nat (Suc c))"
    using assms(1,2) index_small [of "Suc c"] Suc.prems by (simp add: getNextLoop_def Let_def del: of_nat_Suc)
  moreover have "[Suc c..<Suc (c + Suc k)] = Suc c # [Suc (Suc c)..<Suc (Suc c + k)]"
    by (simp add: upt_conv_Cons)
  ultimately show ?case using Suc.IH [of "Suc c"] Suc.prems by (simp del: of_nat_Suc upt_Suc)
qed simp


lemma count_list_distinct: "distinct xs \<Longrightarrow> x \<in> set xs \<Longrightarrow> count_list xs x = 1"
  by (induction xs) (auto simp: count_list_0_iff)

lemma window_once:
  assumes "j < n"
  shows "count_list (map (\<lambda>i. Some (i mod n)) [a..<a + n]) (Some j) = 1"
proof (induction a)
  case 0
  have "map (\<lambda>i. Some (i mod n)) [0..<n] = map Some [0..<n]" by simp
  moreover have "count_list (map Some xs) (Some j) = count_list xs j" for xs by (induction xs) auto
  moreover have "distinct [0..<n]" "j \<in> set [0..<n]" using assms by simp_all
  then have "count_list [0..<n] j = 1" by (rule count_list_distinct)
  ultimately show ?case by (simp del: map_eq_conv)
next
  case (Suc a)
  let ?f = "\<lambda>i. Some (i mod n)"
  have e1: "map ?f [a..<a + n] = Some (a mod n) # map ?f [Suc a..<a + n]"
    using assms by (simp add: upt_conv_Cons)
  have e2: "map ?f [Suc a..<Suc a + n] = map ?f [Suc a..<a + n] @ [Some (a mod n)]"
    using assms by simp
  have "count_list (map ?f [Suc a..<Suc a + n]) (Some j) =
      count_list (map ?f [Suc a..<a + n]) (Some j) + (if a mod n = j then 1 else 0)"
    unfolding e2 by simp
  also have "\<dots> = count_list (map ?f [a..<a + n]) (Some j)" unfolding e1 by simp
  finally show ?case using Suc.IH by simp
qed

lemma windows_count:
  assumes "j < n"
  shows "count_list (map (\<lambda>i. Some (i mod n)) [a..<a + m * n]) (Some j) = m"
proof (induction m arbitrary: a)
  case (Suc m)
  have "[a..<a + Suc m * n] = [a..<a + n] @ [a + n..<(a + n) + m * n]"
    using upt_add_eq_append [of a "a + n" "m * n"] by (simp add: add.assoc)
  then show ?case using window_once [OF assms, of a] Suc.IH [of "a + n"] by (simp add: add.assoc)
qed simp

text \<open>
  The cluster hands its loops out evenly: any \<open>m * n\<close> consecutive calls of \<open>getNextLoop\<close> on \<open>n\<close>
  loops give each loop exactly \<open>m\<close> times, as long as the counter does not reach 2^31; with at most
  one thread every call gives the master loop.
\<close>

theorem getNextLoop_round_robin:
  assumes "1 < threadCount" and "j < n" and "c + m * n < 2 ^ 31"
  shows "\<exists>is. next_loops threadCount n (of_nat c) (m * n) = Ok is \<and> length is = m * n
    \<and> count_list is (Some j) = m \<and> next_loops 1 n (of_nat c) k = Ok (replicate k None)"
proof -
  have "next_loops 1 n d k = Ok (replicate k None)" for d
    by (induction k arbitrary: d) (simp_all add: getNextLoop_def)
  moreover have "n \<noteq> 0" using assms(2) by simp
  ultimately show ?thesis
    using next_loops_from [OF assms(1) _ assms(3)] windows_count [OF assms(2), of "Suc c" m]
    by (simp del: upt_Suc)
qed

theorem getNextLoop_round_robin_witness:
  "\<exists>is. next_loops 4 3 0 6 = Ok is \<and> count_list is (Some 2) = 2"
  using getNextLoop_round_robin [of 4 2 3 0 2 0] by auto

text \<open>
  A worker of a pair goes through \<open>work\<close>: the loop does not exist yet; it exists; \<open>onReady\<close> has been
  called; \<open>start\<close> of the loop runs; \<open>start\<close> has returned and the loop is gone. \<open>Aborted\<close> is a failed
  assertion. The master thread is in \<open>start\<close>, waiting for the latch, past it, or in \<open>stop\<close> at pair \<open>i\<close>.
\<close>

datatype wstate = Begun | Made | Ready | Inside | Ended | Aborted

record cpair =
  ploop :: "eloop option"
  pthread :: bool
  wstate :: wstate

datatype mstate = Created | AtLatch | Started | Stopping nat | Joining nat | Halted | MasterAborted

record cluster =
  threadCount :: nat
  clatch :: int
  pairs :: "cpair list"
  mstate :: mstate

definition newPair :: cpair where
  "newPair = \<lparr>ploop = None, pthread = True, wstate = Begun\<rparr>"

definition newCluster :: cluster where
  "newCluster = \<lparr>threadCount = 1, clatch = 0, pairs = [], mstate = Created\<rparr>"

definition clusterStart :: "nat \<Rightarrow> cluster \<Rightarrow> cluster" where
  "clusterStart count c =
     (if 1 < count then \<lparr>threadCount = count, clatch = int count, pairs = replicate count newPair, mstate = AtLatch\<rparr>
      else c\<lparr>threadCount := count, pairs := [], mstate := Started\<rparr>)"

text \<open>One step of worker \<open>i\<close> in \<open>Pair::work\<close>.\<close>

definition setPair :: "nat \<Rightarrow> cpair \<Rightarrow> cluster \<Rightarrow> cluster" where
  "setPair i p c = c\<lparr>pairs := (pairs c)[i := p]\<rparr>"

definition pair_work :: "nat \<Rightarrow> cluster \<Rightarrow> cluster option" where
  "pair_work i c =
     (let p = pairs c ! i in
      case (wstate p, ploop p) of
        (Begun, None) \<Rightarrow> Some (setPair i (p\<lparr>ploop := Some (newLoop i), wstate := Made\<rparr>) c)
      | (Begun, Some _) \<Rightarrow> Some (setPair i (p\<lparr>wstate := Aborted\<rparr>) c)
      | (Made, _) \<Rightarrow> Some (setPair i (p\<lparr>wstate := Ready\<rparr>) (c\<lparr>clatch := clatch c - 1\<rparr>))
      | (Ready, Some l) \<Rightarrow>
          (case startLoop l of
             Inl e \<Rightarrow> Some (setPair i (p\<lparr>wstate := Aborted\<rparr>) c)
           | Inr l' \<Rightarrow> Some (setPair i (p\<lparr>ploop := Some l', wstate := Inside\<rparr>) c))
      | (Inside, Some l) \<Rightarrow>
          (if quit l then Some (setPair i (p\<lparr>ploop := None, wstate := Ended\<rparr>) c) else None)
      | _ \<Rightarrow> None)"

text \<open>One step of the master thread in \<open>EventLoopCluster::start\<close> and \<open>stop\<close>.\<close>

definition master_step :: "cluster \<Rightarrow> cluster option" where
  "master_step c =
     (case mstate c of
        AtLatch \<Rightarrow> if clatch c = 0 then Some (c\<lparr>mstate := Started\<rparr>) else None
      | Stopping i \<Rightarrow>
          if i < length (pairs c) then
            (case ploop (pairs c ! i) of
               None \<Rightarrow> Some (c\<lparr>mstate := MasterAborted\<rparr>)
             | Some l \<Rightarrow> Some ((setPair i ((pairs c ! i)\<lparr>ploop := Some (stopLoop l)\<rparr>) c)\<lparr>mstate := Joining i\<rparr>))
          else if (\<exists>p \<in> set (pairs c). ploop p \<noteq> None \<or> pthread p) then Some (c\<lparr>mstate := MasterAborted\<rparr>)
          else Some (c\<lparr>pairs := [], mstate := Halted\<rparr>)
      | Joining i \<Rightarrow>
          if wstate (pairs c ! i) = Ended
          then Some ((setPair i ((pairs c ! i)\<lparr>pthread := False\<rparr>) c)\<lparr>mstate := Stopping (Suc i)\<rparr>)
          else None
      | _ \<Rightarrow> None)"

inductive cluster_run :: "nat \<Rightarrow> cluster \<Rightarrow> bool" for n where
  start: "cluster_run n (clusterStart n newCluster)"
| worker: "cluster_run n c \<Longrightarrow> i < length (pairs c) \<Longrightarrow> pair_work i c = Some c' \<Longrightarrow> cluster_run n c'"
| master: "cluster_run n c \<Longrightarrow> master_step c = Some c' \<Longrightarrow> cluster_run n c'"
| stop: "cluster_run n c \<Longrightarrow> mstate c = Started \<Longrightarrow> cluster_run n (c\<lparr>mstate := Stopping 0\<rparr>)"


section \<open>The cluster's states\<close>

definition unready :: "cpair list \<Rightarrow> int" where
  "unready ps = (\<Sum>p\<leftarrow>ps. if wstate p \<in> {Begun, Made} then 1 else 0)"

fun pair_ok :: "cpair \<Rightarrow> bool" where
  "pair_ok p \<longleftrightarrow> (case wstate p of
     Begun \<Rightarrow> ploop p = None \<and> pthread p
   | Ended \<Rightarrow> ploop p = None
   | Aborted \<Rightarrow> ploop p \<noteq> None
   | _ \<Rightarrow> ploop p \<noteq> None \<and> pthread p)"

text \<open>Before \<open>stop\<close> no loop has been told to quit.\<close>

definition unstopped :: "cpair \<Rightarrow> bool" where
  "unstopped p \<longleftrightarrow> wstate p \<notin> {Ended, Aborted} \<and> (\<forall>l. ploop p = Some l \<longrightarrow> \<not> quit l \<and> (looping l \<longrightarrow> wstate p = Inside))"

definition cluster_inv :: "cluster \<Rightarrow> bool" where
  "cluster_inv c \<longleftrightarrow> (\<forall>p \<in> set (pairs c). pair_ok p) \<and> clatch c = unready (pairs c)
     \<and> (mstate c = AtLatch \<or> mstate c = Started \<longrightarrow> (\<forall>p \<in> set (pairs c). unstopped p))
     \<and> (mstate c \<noteq> AtLatch \<longrightarrow> unready (pairs c) = 0)"

lemma unready_update:
  assumes "i < length ps"
  shows "unready (ps[i := p]) = unready ps - (if wstate (ps ! i) \<in> {Begun, Made} then 1 else 0)
    + (if wstate p \<in> {Begun, Made} then 1 else 0)"
  using assms
proof (induction ps arbitrary: i)
  case (Cons x ps)
  then show ?case by (cases i) (auto simp: unready_def)
qed simp

lemma unready_zero: "unready ps = 0 \<longleftrightarrow> (\<forall>p \<in> set ps. wstate p \<notin> {Begun, Made})"
proof -
  have "0 \<le> unready ps" for ps by (induction ps) (auto simp: unready_def)
  then show ?thesis by (induction ps) (auto simp: unready_def add_nonneg_eq_0_iff)
qed

lemma set_pairs: "(\<forall>q \<in> set (ps[i := p]). P q) \<Longrightarrow> i < length ps \<Longrightarrow> P p"
  by (metis nth_list_update_eq nth_mem length_list_update)

lemma all_update: "\<forall>q \<in> set ps. P q \<Longrightarrow> P p \<Longrightarrow> \<forall>q \<in> set (ps[i := p]). P q"
  using set_update_subset_insert [of ps i p] by blast

lemma worker_inv:
  assumes inv: "cluster_inv c" and i: "i < length (pairs c)" and step: "pair_work i c = Some c'"
  shows "cluster_inv c'"
proof -
  let ?p = "pairs c ! i"
  have p: "pair_ok ?p" and un: "mstate c = AtLatch \<or> mstate c = Started \<Longrightarrow> unstopped ?p"
    and r: "mstate c \<noteq> AtLatch \<Longrightarrow> wstate ?p \<notin> {Begun, Made}"
    using inv i by (auto simp: cluster_inv_def unready_zero)
  have keep: "cluster_inv (setPair i q (c\<lparr>clatch := k\<rparr>))"
    if "pair_ok q" "mstate c = AtLatch \<or> mstate c = Started \<Longrightarrow> unstopped q"
      "k = unready ((pairs c)[i := q])" "mstate c \<noteq> AtLatch \<Longrightarrow> k = 0" for q k
    using inv that all_update [of "pairs c" pair_ok q i] all_update [of "pairs c" unstopped q i]
    unfolding cluster_inv_def setPair_def by simp
  have lat: "clatch c = unready (pairs c)" "mstate c \<noteq> AtLatch \<Longrightarrow> clatch c = 0"
    using inv by (auto simp: cluster_inv_def)
  note ur = unready_update [OF i]
  have same: "c\<lparr>clatch := clatch c\<rparr> = c" by simp
  show ?thesis
  proof (cases "wstate ?p")
    case Begun
    then have "ploop ?p = None" using p by simp
    then have c': "c' = setPair i (?p\<lparr>ploop := Some (newLoop i), wstate := Made\<rparr>) (c\<lparr>clatch := clatch c\<rparr>)"
      using step Begun by (simp add: pair_work_def Let_def)
    show ?thesis unfolding c'
      by (rule keep) (use p Begun lat ur r in \<open>auto simp: unstopped_def newLoop_def\<close>)
  next
    case Made
    then have c': "c' = setPair i (?p\<lparr>wstate := Ready\<rparr>) (c\<lparr>clatch := clatch c - 1\<rparr>)"
      using step by (simp add: pair_work_def Let_def)
    show ?thesis unfolding c'
      by (rule keep) (use p Made lat ur r un in \<open>auto simp: unstopped_def\<close>)
  next
    case Ready
    then obtain l where l: "ploop ?p = Some l" using p by auto
    show ?thesis
    proof (cases "startLoop l")
      case (Inl e)
      then have c': "c' = setPair i (?p\<lparr>wstate := Aborted\<rparr>) (c\<lparr>clatch := clatch c\<rparr>)"
        using step Ready l by (simp add: pair_work_def Let_def)
      have "\<not> (mstate c = AtLatch \<or> mstate c = Started)"
        using Inl un l Ready by (auto simp: unstopped_def startLoop_def assertR_def split: if_splits)
      then show ?thesis unfolding c' by (intro keep) (use p Ready lat ur l in auto)
    next
      case (Inr l')
      then have c': "c' = setPair i (?p\<lparr>ploop := Some l', wstate := Inside\<rparr>) (c\<lparr>clatch := clatch c\<rparr>)"
        using step Ready l by (simp add: pair_work_def Let_def)
      have "\<not> quit l'" using Inr by (auto simp: startLoop_def assertR_def split: if_splits)
      then show ?thesis unfolding c' by (intro keep) (use p Ready lat ur l un in \<open>auto simp: unstopped_def\<close>)
    qed
  next
    case Inside
    then obtain l where l: "ploop ?p = Some l" using p by auto
    then have q: "quit l" and c': "c' = setPair i (?p\<lparr>ploop := None, wstate := Ended\<rparr>) (c\<lparr>clatch := clatch c\<rparr>)"
      using step Inside by (auto simp: pair_work_def Let_def split: if_splits)
    then have "\<not> (mstate c = AtLatch \<or> mstate c = Started)" using un l by (auto simp: unstopped_def)
    then show ?thesis unfolding c' by (intro keep) (use Inside lat ur in auto)
  qed (use step in \<open>simp_all add: pair_work_def Let_def split: option.splits\<close>)
qed


lemma master_inv:
  assumes inv: "cluster_inv c" and step: "master_step c = Some c'"
  shows "cluster_inv c'"
proof (cases "mstate c")
  case AtLatch
  then show ?thesis using inv step by (auto simp: master_step_def cluster_inv_def split: if_splits)
next
  case (Stopping i)
  show ?thesis
  proof (cases "i < length (pairs c) \<and> ploop (pairs c ! i) \<noteq> None")
    case True
    then obtain l where l: "ploop (pairs c ! i) = Some l" by auto
    let ?q = "(pairs c ! i)\<lparr>ploop := Some (stopLoop l)\<rparr>"
    have p: "pair_ok (pairs c ! i)" "wstate (pairs c ! i) \<notin> {Begun, Made}"
      using inv True Stopping by (auto simp: cluster_inv_def unready_zero)
    have "pair_ok ?q" using p l by (auto split: wstate.splits)
    moreover have "unready ((pairs c)[i := ?q]) = unready (pairs c)"
      using True by (simp add: unready_update)
    moreover have "c' = (setPair i ?q c)\<lparr>mstate := Joining i\<rparr>"
      using step Stopping True l by (simp add: master_step_def)
    ultimately show ?thesis
      using inv Stopping all_update [of "pairs c" pair_ok ?q i]
      by (simp add: cluster_inv_def setPair_def)
  next
    case False
    then show ?thesis
      using inv step Stopping
      by (auto simp: master_step_def cluster_inv_def unready_def split: if_splits)
  qed
next
  case (Joining i)
  then have e: "wstate (pairs c ! i) = Ended"
    and c': "c' = (setPair i ((pairs c ! i)\<lparr>pthread := False\<rparr>) c)\<lparr>mstate := Stopping (Suc i)\<rparr>"
    using step by (auto simp: master_step_def split: if_splits)
  let ?q = "(pairs c ! i)\<lparr>pthread := False\<rparr>"
  show ?thesis
  proof (cases "i < length (pairs c)")
    case True
    have "pair_ok (pairs c ! i)" using inv True by (auto simp: cluster_inv_def)
    then have "pair_ok ?q" using e by simp
    moreover have "unready ((pairs c)[i := ?q]) = unready (pairs c)" using True by (simp add: unready_update)
    ultimately show ?thesis
      using inv Joining c' all_update [of "pairs c" pair_ok ?q i]
      by (simp add: cluster_inv_def setPair_def)
  next
    case False
    then show ?thesis using inv Joining c' by (simp add: cluster_inv_def setPair_def list_update_beyond)
  qed
qed (use step in \<open>simp_all add: master_step_def\<close>)

lemma cluster_run_inv:
  assumes "cluster_run n c"
  shows "cluster_inv c"
  using assms
proof (induction rule: cluster_run.induct)
  case start
  have "unready (replicate n newPair) = int n"
    by (induction n) (simp_all add: unready_def newPair_def)
  then show ?case
    by (auto simp: clusterStart_def newCluster_def cluster_inv_def unready_def newPair_def unstopped_def)
next
  case (worker c i c')
  then show ?case using worker_inv by blast
next
  case (master c c')
  then show ?case using master_inv by blast
next
  case (stop c)
  then show ?case by (simp add: cluster_inv_def)
qed

text \<open>
  C34. \<open>EventLoopCluster::start\<close> returns only when every worker has created its loop: in every
  reachable state past the latch and before \<open>stop\<close> each pair has a loop, not told to quit, so
  \<open>getNextLoop\<close> never hands out a null pointer, and no thread has aborted.
\<close>

theorem started_cluster_has_loops:
  assumes "cluster_run n c" and "mstate c = Started"
  shows "\<forall>p \<in> set (pairs c). \<exists>l. ploop p = Some l \<and> \<not> quit l \<and> wstate p \<in> {Ready, Inside}"
proof
  fix p
  assume p: "p \<in> set (pairs c)"
  note inv = cluster_run_inv [OF assms(1)]
  have "pair_ok p" "unstopped p" "wstate p \<notin> {Begun, Made}"
    using inv p assms(2) by (auto simp: cluster_inv_def unready_zero)
  then show "\<exists>l. ploop p = Some l \<and> \<not> quit l \<and> wstate p \<in> {Ready, Inside}"
    by (cases "wstate p") (auto simp: unstopped_def)
qed

text \<open>Two workers that have reported ready and have not yet called \<open>start\<close> on their loops.\<close>

definition ready_pair :: "nat \<Rightarrow> cpair" where
  "ready_pair i = \<lparr>ploop = Some (newLoop i), pthread = True, wstate = Ready\<rparr>"

lemma both_ready:
  "cluster_run 2 \<lparr>threadCount = 2, clatch = 0, pairs = [ready_pair 0, ready_pair 1], mstate = Started\<rparr>"
proof -
  let ?c = "\<lambda>k ps m. \<lparr>threadCount = 2, clatch = k, pairs = ps, mstate = m\<rparr>"
  let ?m = "\<lambda>i. (ready_pair i)\<lparr>wstate := Made\<rparr>"
  note defs = pair_work_def newPair_def setPair_def ready_pair_def Let_def
  have "cluster_run 2 (?c 2 [newPair, newPair] AtLatch)"
    using cluster_run.start [of 2] by (simp add: clusterStart_def eval_nat_numeral)
  then have "cluster_run 2 (?c 2 [?m 0, newPair] AtLatch)"
    by (rule cluster_run.worker [where i = 0]) (simp_all add: defs)
  then have "cluster_run 2 (?c 2 [?m 0, ?m 1] AtLatch)"
    by (rule cluster_run.worker [where i = 1]) (simp_all add: defs)
  then have "cluster_run 2 (?c 1 [ready_pair 0, ?m 1] AtLatch)"
    by (rule cluster_run.worker [where i = 0]) (simp_all add: defs)
  then have "cluster_run 2 (?c 0 [ready_pair 0, ready_pair 1] AtLatch)"
    by (rule cluster_run.worker [where i = 1]) (simp_all add: defs)
  then show ?thesis by (rule cluster_run.master) (simp add: master_step_def)
qed

theorem started_cluster_has_loops_witness:
  "\<exists>l. ploop (ready_pair 0) = Some l \<and> \<not> quit l"
  using started_cluster_has_loops [OF both_ready] by (simp add: ready_pair_def)

text \<open>
  The latch opens before the workers call \<open>start\<close> on their loops: if \<open>stop\<close> comes first, it sets
  \<open>_quit\<close> and the worker's \<open>start\<close> fails its assertion. The run is one of a cluster of two threads.
\<close>

theorem stop_right_after_start_aborts:
  "\<exists>c. cluster_run 2 c \<and> mstate c = Joining 0 \<and> wstate (pairs c ! 0) = Aborted"
proof -
  let ?c = "\<lambda>ps m. \<lparr>threadCount = 2, clatch = 0, pairs = ps, mstate = m\<rparr>"
  let ?q = "(ready_pair 0)\<lparr>ploop := Some (stopLoop (newLoop 0))\<rparr>"
  have "cluster_run 2 (?c [ready_pair 0, ready_pair 1] (Stopping 0))"
    using cluster_run.stop [OF both_ready] by simp
  then have "cluster_run 2 (?c [?q, ready_pair 1] (Joining 0))"
    by (rule cluster_run.master) (simp add: master_step_def ready_pair_def setPair_def)
  then have "cluster_run 2 (?c [?q\<lparr>wstate := Aborted\<rparr>, ready_pair 1] (Joining 0))"
    by (rule cluster_run.worker [where i = 0])
      (simp_all add: pair_work_def ready_pair_def setPair_def stopLoop_def newLoop_def startLoop_def)
  then show ?thesis by (intro exI conjI) (assumption, simp_all)
qed

end
