(* ===== verification/StreamContract.thy ===== *)
theory StreamContract
  imports Prelude
begin

text \<open>
  The contract between whoever sends through a connection and the connection: bytes given to it are
  carried in order, none lost and none twice. Every operation keeps an invariant and adds exactly the
  bytes it is given to the end of the stream; the invariant has room for a number of bytes still to
  come. \<open>TcpConnection\<close> and the link of theory \<open>TcpStream\<close> interpret the locale.
\<close>

primrec run_steps :: "('op \<Rightarrow> 's \<Rightarrow> 's res) \<Rightarrow> 'op list \<Rightarrow> 's \<Rightarrow> 's res" where
  "run_steps step [] s = Ok s"
| "run_steps step (x # xs) s = bindR (step x s) (run_steps step xs)"

locale byte_stream =
  fixes inv :: "nat \<Rightarrow> 's \<Rightarrow> bool"
    and stream :: "'s \<Rightarrow> byte list"
    and allowed :: "'op \<Rightarrow> bool"
    and given :: "'op \<Rightarrow> byte list"
    and step :: "'op \<Rightarrow> 's \<Rightarrow> 's res"
  assumes step_ok: "inv (length (given x) + n) s \<Longrightarrow> allowed x \<Longrightarrow>
      \<exists>s'. step x s = Ok s' \<and> inv n s' \<and> stream s' = stream s @ given x"
begin

lemma run_ok:
  assumes "inv (length (concat (map given xs)) + n) s" and "list_all allowed xs"
  shows "\<exists>s'. run_steps step xs s = Ok s' \<and> inv n s' \<and> stream s' = stream s @ concat (map given xs)"
  using assms
proof (induction xs arbitrary: s)
  case (Cons x xs)
  have "inv (length (given x) + (length (concat (map given xs)) + n)) s" "allowed x"
    using Cons.prems by (simp_all add: add.assoc)
  from step_ok [OF this] obtain s1 where s1: "step x s = Ok s1" "inv (length (concat (map given xs)) + n) s1"
    "stream s1 = stream s @ given x" by blast
  show ?case using Cons.IH [OF s1(2)] Cons.prems(2) s1(1,3) by auto
qed simp

text \<open>A run that gives nothing changes nothing of the stream.\<close>

lemma run_silent:
  assumes "inv n s" and "list_all allowed xs" and "list_all (\<lambda>x. given x = []) xs"
  shows "\<exists>s'. run_steps step xs s = Ok s' \<and> inv n s' \<and> stream s' = stream s"
proof -
  have "concat (map given xs) = []" using assms(3) by (simp add: list_all_iff)
  then show ?thesis using run_ok [of xs n s] assms(1,2) by (simp del: concat_eq_Nil_conv)
qed

end

end
