(* ===== verification/TcpConnection.thy ===== *)
theory TcpConnection
  imports NetBuffer EventLoop StreamContract
begin

text \<open>
  One TCP connection: \<open>net/Connection.cpp\<close> and \<open>net/tcp/TcpConnection.cpp\<close> over the buffers of theory
  \<open>NetBuffer\<close> and the descriptors of theory \<open>Poller\<close>. The results of \<open>write\<close>, \<open>readv\<close> and \<open>shutdown\<close>
  and the effect of client callbacks are parameters; what was handed to the kernel and which
  callbacks were called is recorded.
\<close>

section \<open>The descriptor as the connection uses it\<close>

lemma mask_bits [simp]:
  fixes e :: "32 word"
  shows "(e OR kWriteEvent) AND kWriteEvent \<noteq> 0" "(e AND NOT kWriteEvent) AND kWriteEvent = 0"
    "(e OR kReadEvent) AND kReadEvent \<noteq> 0"
    "(e OR kWriteEvent) AND kReadEvent = e AND kReadEvent"
    "(e AND NOT kWriteEvent) AND kReadEvent = e AND kReadEvent"
    "(e OR kReadEvent) AND kWriteEvent = e AND kWriteEvent"
proof -
  have "(e OR k) AND k = k" "(e AND NOT k) AND k = 0" for k :: "32 word"
    by (auto simp: bit_eq_iff bit_simps)
  then show "(e OR kWriteEvent) AND kWriteEvent \<noteq> 0" "(e AND NOT kWriteEvent) AND kWriteEvent = 0"
    "(e OR kReadEvent) AND kReadEvent \<noteq> 0" by simp_all
  have z: "kWriteEvent AND kReadEvent = 0" "kReadEvent AND kWriteEvent = 0" "NOT kWriteEvent AND kReadEvent = kReadEvent"
    by (simp_all add: kWriteEvent_def kReadEvent_def poll_bits)
  then show "(e OR kWriteEvent) AND kReadEvent = e AND kReadEvent"
    "(e AND NOT kWriteEvent) AND kReadEvent = e AND kReadEvent"
    "(e OR kReadEvent) AND kWriteEvent = e AND kWriteEvent"
    by (simp_all add: bit.conj_disj_distrib2 and.assoc)
qed

text \<open>An attached descriptor of the running thread, with its interest in reading and writing.\<close>

definition watches :: "nat \<Rightarrow> nat \<Rightarrow> bool \<Rightarrow> bool \<Rightarrow> netw \<Rightarrow> bool" where
  "watches p l rd wr w \<longleftrightarrow> watch_inv w \<and> loop_tid w l = here w
     \<and> (\<exists>f. iofds w p = Some f \<and> looper f = Some l \<and> (isReading f \<longleftrightarrow> rd) \<and> (isWriting f \<longleftrightarrow> wr))"

lemma watchesE:
  assumes "watches p l rd wr w"
  obtains f where "iofds w p = Some f" and "looper f = Some l" and "isReading f \<longleftrightarrow> rd"
    and "isWriting f \<longleftrightarrow> wr" and "watch_inv w" and "loop_tid w l = here w"
  using assms by (auto simp: watches_def)

lemma watches_put:
  assumes "watch_inv (putPoller l ep (putFd p g w))" and "looper g = Some l" and "loop_tid w l = here w"
    and "isReading g \<longleftrightarrow> rd" and "isWriting g \<longleftrightarrow> wr"
  shows "watches p l rd wr (putPoller l ep (putFd p g w))"
  using assms by (simp add: watches_def)

lemma enableWrite_watches:
  assumes "watches p l rd wr w"
  obtains w' where "enableWrite p w = Ok w'" and "watches p l rd True w'"
proof -
  obtain f where f: "iofds w p = Some f" "looper f = Some l" "isReading f \<longleftrightarrow> rd" "isWriting f \<longleftrightarrow> wr"
    "watch_inv w" "loop_tid w l = here w" using assms by (rule watchesE)
  show ?thesis
  proof (cases "isWriting f")
    case True
    then have "enableWrite p w = Ok w" "wr" using f(1,4) by (simp_all add: enableWrite_def)
    with assms show ?thesis using that by simp
  next
    case False
    let ?e = "events f OR kWriteEvent"
    have "?e \<noteq> 0" by (rule or_nonzero) simp
    then obtain ep where ep: "set_events p f ?e w = Ok (putPoller l ep (putFd p (f\<lparr>events := ?e, status := ADDED\<rparr>) w))"
      "watch_inv (putPoller l ep (putFd p (f\<lparr>events := ?e, status := ADDED\<rparr>) w))"
      using set_events_ok [OF f(5,1,2,6), of ?e] by auto
    have "enableWrite p w = Ok (putPoller l ep (putFd p (f\<lparr>events := ?e, status := ADDED\<rparr>) w))"
      using False f(1) ep(1) by (simp add: enableWrite_def)
    moreover have "watches p l rd True (putPoller l ep (putFd p (f\<lparr>events := ?e, status := ADDED\<rparr>) w))"
      by (rule watches_put [OF ep(2) _ f(6)]) (use f(2,3) in \<open>simp_all add: isReading_def isWriting_def\<close>)
    ultimately show ?thesis by (rule that)
  qed
qed

lemma disableWrite_watches:
  assumes "watches p l rd wr w"
  obtains w' where "disableWrite p w = Ok w'" and "watches p l rd False w'"
proof -
  obtain f where f: "iofds w p = Some f" "looper f = Some l" "isReading f \<longleftrightarrow> rd" "isWriting f \<longleftrightarrow> wr"
    "watch_inv w" "loop_tid w l = here w" using assms by (rule watchesE)
  show ?thesis
  proof (cases "isWriting f")
    case False
    then have "disableWrite p w = Ok w" "\<not> wr" using f(1,4) by (simp_all add: disableWrite_def)
    with assms show ?thesis using that by simp
  next
    case True
    let ?e = "events f AND NOT kWriteEvent"
    let ?g = "f\<lparr>events := ?e, status := (if ?e = 0 then DELETED else ADDED)\<rparr>"
    have "events f \<noteq> 0" using True by (auto simp: isWriting_def)
    then obtain ep where ep: "set_events p f ?e w = Ok (putPoller l ep (putFd p ?g w))"
      "watch_inv (putPoller l ep (putFd p ?g w))"
      using set_events_ok [OF f(5,1,2,6), of ?e] by blast
    have "disableWrite p w = Ok (putPoller l ep (putFd p ?g w))"
      using True f(1) ep(1) by (simp add: disableWrite_def)
    moreover have "watches p l rd False (putPoller l ep (putFd p ?g w))"
      by (rule watches_put [OF ep(2) _ f(6)]) (use f(2,3) in \<open>simp_all add: isReading_def isWriting_def\<close>)
    ultimately show ?thesis by (rule that)
  qed
qed

text \<open>A new descriptor, attached and enabled for reading.\<close>

lemma attach_read_watches:
  assumes inv: "watch_inv w" and f: "iofds w p = Some f" "looper f = None" and here: "loop_tid w l = here w"
  obtains w1 w2 where "attachInLoop l p w = Ok w1" and "enableRead p w1 = Ok w2"
    and "watches p l True False w2" and "loop_tid w1 = loop_tid w" and "here w1 = here w"
proof -
  note idle = unattached_idle [OF inv f]
  let ?g = "f\<lparr>looper := Some l\<rparr>"
  let ?w1 = "putFd p ?g w"
  have att: "attachInLoop l p w = Ok ?w1"
    using f here idle(1) by (simp add: attachInLoop_def assertInLoopThread_def)
  have inv1: "watch_inv ?w1"
    by (rule watch_inv_idle [OF inv, of p]) (use f idle in \<open>auto dest: watch_invD(3) [OF inv _ f(1)]\<close>)
  let ?e = "events ?g OR kReadEvent"
  have "?e \<noteq> 0" by (rule or_nonzero) simp
  then obtain ep where ep: "set_events p ?g ?e ?w1 = Ok (putPoller l ep (putFd p (?g\<lparr>events := ?e, status := ADDED\<rparr>) ?w1))"
    "watch_inv (putPoller l ep (putFd p (?g\<lparr>events := ?e, status := ADDED\<rparr>) ?w1))"
    using set_events_ok [OF inv1, of p ?g l ?e] here by auto
  have "enableRead p ?w1 = Ok (putPoller l ep (putFd p (?g\<lparr>events := ?e, status := ADDED\<rparr>) ?w1))"
    using idle(1) ep(1) by (simp add: enableRead_def isReading_def)
  moreover have "watches p l True False (putPoller l ep (putFd p (?g\<lparr>events := ?e, status := ADDED\<rparr>) ?w1))"
    by (rule watches_put [OF ep(2)]) (use idle(1) here in \<open>simp_all add: isReading_def isWriting_def kReadEvent_def kWriteEvent_def poll_bits\<close>)
  ultimately show ?thesis using att that by simp
qed

section \<open>State\<close>

datatype conn_status = kDisconnected | kConnecting | kConnected | kDisconnecting

datatype conn_event = ConnectChange | RecvMessage | WriteComplete | CloseConn

text \<open>The functors a connection queues in its loop.\<close>

datatype conn_task = TaskClose | TaskShutdown | TaskSend "byte list" | TaskWriteComplete

record tcpconn =
  cnet :: netw
  csock :: nat
  cloop :: nat
  cstatus :: conn_status
  activedTime :: int
  inBuf :: buffer
  outBuf :: buffer
  hooked :: "conn_event set"
  ctrace :: "conn_event list"
  written :: "byte list"
  shut :: bool
  ctasks :: "conn_task list"

definition newTcpConnection :: "nat \<Rightarrow> nat \<Rightarrow> int \<Rightarrow> buffer \<Rightarrow> netw \<Rightarrow> tcpconn res" where
  "newTcpConnection p l now b w = bindR (fdAt p w) (\<lambda>f.
     Ok \<lparr>cnet = putFd p (f\<lparr>observer := Some p\<rparr>) w, csock = p, cloop = l, cstatus = kConnecting,
         activedTime = now, inBuf = b, outBuf = b, hooked = {}, ctrace = [], written = [], shut = False,
         ctasks = []\<rparr>)"

definition in_loop :: "tcpconn \<Rightarrow> 'a res \<Rightarrow> 'a res" where
  "in_loop c k = (if loop_tid (cnet c) (cloop c) = here (cnet c) then k else Fail FatalAbort)"

definition on_net :: "(netw \<Rightarrow> netw res) \<Rightarrow> tcpconn \<Rightarrow> tcpconn res" where
  "on_net f c = bindR (f (cnet c)) (\<lambda>w. Ok (c\<lparr>cnet := w\<rparr>))"

text \<open>A callback is called when it is set; \<open>cb ev\<close> is what it does.\<close>

definition call_back :: "(conn_event \<Rightarrow> tcpconn \<Rightarrow> tcpconn res) \<Rightarrow> conn_event \<Rightarrow> tcpconn \<Rightarrow> tcpconn res" where
  "call_back cb ev c = (if ev \<in> hooked c then cb ev (c\<lparr>ctrace := ctrace c @ [ev]\<rparr>) else Ok c)"

definition EWOULDBLOCK :: nat where "EWOULDBLOCK = 11"
definition EPIPE :: nat where "EPIPE = 32"
definition ECONNRESET :: nat where "ECONNRESET = 104"

section \<open>Operations\<close>

definition changeStatus :: "conn_status \<Rightarrow> tcpconn \<Rightarrow> tcpconn" where
  "changeStatus s c = c\<lparr>cstatus := s\<rparr>"

text \<open>\<open>writeInLoop\<close>: the kernel takes a prefix of the data or reports an error.\<close>

definition writeInLoop :: "(byte list \<Rightarrow> nat sys) \<Rightarrow> byte list \<Rightarrow> tcpconn \<Rightarrow> nat sys \<times> tcpconn" where
  "writeInLoop write data c =
     (case write data of
        SysErr e \<Rightarrow> (SysErr e, c)
      | SysOk n \<Rightarrow> (SysOk n, c\<lparr>written := written c @ take n data\<rparr>))"

text \<open>The end of \<open>sendInLoop\<close>: what is left goes to the output buffer.\<close>

definition buffer_rest :: "byte list \<Rightarrow> nat \<Rightarrow> nat \<Rightarrow> bool \<Rightarrow> tcpconn \<Rightarrow> tcpconn res" where
  "buffer_rest data nwrote remaining faultError c =
     assertR (remaining \<le> length data)
       (if \<not> faultError \<and> 0 < remaining then
          bindR (append_bytes (take remaining (drop nwrote data)) (outBuf c)) (\<lambda>b.
          bindR (fdAt (csock c) (cnet c)) (\<lambda>f.
            if \<not> isWriting f then on_net (enableWrite (csock c)) (c\<lparr>outBuf := b\<rparr>)
            else Ok (c\<lparr>outBuf := b\<rparr>)))
        else Ok c)"

definition sendInLoop :: "(byte list \<Rightarrow> nat sys) \<Rightarrow> byte list \<Rightarrow> tcpconn \<Rightarrow> tcpconn res" where
  "sendInLoop write data c = in_loop c (bindR (fdAt (csock c) (cnet c)) (\<lambda>f.
     if \<not> isWriting f \<and> readableBytes (outBuf c) = 0 then
       (case writeInLoop write data c of
          (SysOk nwrote, c1) \<Rightarrow>
            let remaining = size_sub (length data) nwrote
            in if remaining = 0 then
                 Ok (if WriteComplete \<in> hooked c1 then c1\<lparr>ctasks := ctasks c1 @ [TaskWriteComplete]\<rparr> else c1)
               else buffer_rest data nwrote remaining False c1
        | (SysErr e, c1) \<Rightarrow>
            buffer_rest data 0 (length data) (e \<noteq> EWOULDBLOCK \<and> (e = EPIPE \<or> e = ECONNRESET)) c1)
     else buffer_rest data 0 (length data) False c))"

definition closeInLoop :: "(conn_event \<Rightarrow> tcpconn \<Rightarrow> tcpconn res) \<Rightarrow> tcpconn \<Rightarrow> tcpconn res" where
  "closeInLoop cb c = in_loop c
     (bindR (on_net (\<lambda>w. bindR (detachInLoop (csock c) w) (\<lambda>(b, w1). Ok w1)) c) (\<lambda>c1.
      bindR (call_back cb ConnectChange (changeStatus kDisconnected c1)) (call_back cb CloseConn)))"

definition handleClose :: "(conn_event \<Rightarrow> tcpconn \<Rightarrow> tcpconn res) \<Rightarrow> tcpconn \<Rightarrow> tcpconn res" where
  "handleClose cb c = in_loop c
     (assertR (cstatus c = kConnected \<or> cstatus c = kDisconnecting) (closeInLoop cb c))"

text \<open>The socket error is read and logged.\<close>

definition handleError :: "tcpconn \<Rightarrow> tcpconn res" where
  "handleError c = in_loop c (Ok c)"

definition handleRead ::
  "(conn_event \<Rightarrow> tcpconn \<Rightarrow> tcpconn res) \<Rightarrow> (nat list \<Rightarrow> byte list sys) \<Rightarrow> int \<Rightarrow> tcpconn \<Rightarrow> tcpconn res" where
  "handleRead cb readv now c = in_loop c
     (bindR (readFd readv (inBuf c)) (\<lambda>(n, b).
        let c1 = c\<lparr>inBuf := b\<rparr>
        in if 0 < n then call_back cb RecvMessage (c1\<lparr>activedTime := now\<rparr>)
           else if n = 0 then handleClose cb c1
           else handleError c1))"

definition handleWrite ::
  "(conn_event \<Rightarrow> tcpconn \<Rightarrow> tcpconn res) \<Rightarrow> (byte list \<Rightarrow> nat sys) \<Rightarrow> tcpconn \<Rightarrow> tcpconn res" where
  "handleWrite cb write c = in_loop c (bindR (fdAt (csock c) (cnet c)) (\<lambda>f.
     if isWriting f then
       bindR (peekBytes (readableBytes (outBuf c)) (outBuf c)) (\<lambda>data.
         case writeInLoop write data c of
           (SysOk n, c1) \<Rightarrow>
             if 0 < n then
               bindR (retrieve n (outBuf c1)) (\<lambda>b.
                 if readableBytes b = 0 then
                   bindR (on_net (disableWrite (csock c1)) (c1\<lparr>outBuf := b\<rparr>)) (call_back cb WriteComplete)
                 else Ok (c1\<lparr>outBuf := b\<rparr>))
             else on_net (disableWrite (csock c1)) c1
         | (SysErr e, c1) \<Rightarrow> on_net (disableWrite (csock c1)) c1)
     else Ok c))"

definition onConnectEstablished :: "(conn_event \<Rightarrow> tcpconn \<Rightarrow> tcpconn res) \<Rightarrow> tcpconn \<Rightarrow> tcpconn res" where
  "onConnectEstablished cb c = in_loop c
     (bindR (on_net (attachInLoop (cloop c) (csock c)) (changeStatus kConnected c)) (\<lambda>c1.
      bindR (on_net (enableRead (csock c1)) c1) (call_back cb ConnectChange)))"

text \<open>The functor of \<open>shutdown\<close>; an error of the system call is fatal.\<close>

definition shutdownInLoop :: "unit sys \<Rightarrow> tcpconn \<Rightarrow> tcpconn res" where
  "shutdownInLoop sys_shutdown c = bindR (fdAt (csock c) (cnet c)) (\<lambda>f.
     if \<not> isWriting f then
       (case sys_shutdown of SysErr e \<Rightarrow> Fail FatalAbort | SysOk _ \<Rightarrow> Ok (c\<lparr>shut := True\<rparr>))
     else Ok c)"

text \<open>The methods any thread may call: in the loop's thread at once, else through its queue.\<close>

definition in_loop_thread :: "tcpconn \<Rightarrow> bool" where
  "in_loop_thread c \<longleftrightarrow> loop_tid (cnet c) (cloop c) = here (cnet c)"

definition close_conn :: "(conn_event \<Rightarrow> tcpconn \<Rightarrow> tcpconn res) \<Rightarrow> tcpconn \<Rightarrow> tcpconn res" where
  "close_conn cb c =
     (if cstatus c \<noteq> kConnected then Ok c
      else let c1 = changeStatus kDisconnecting c
           in if in_loop_thread c1 then closeInLoop cb c1 else Ok (c1\<lparr>ctasks := ctasks c1 @ [TaskClose]\<rparr>))"

definition shutdown_conn :: "unit sys \<Rightarrow> tcpconn \<Rightarrow> tcpconn res" where
  "shutdown_conn sys_shutdown c =
     (if cstatus c \<noteq> kConnected then Ok c
      else let c1 = changeStatus kDisconnecting c
           in if in_loop_thread c1 then shutdownInLoop sys_shutdown c1
              else Ok (c1\<lparr>ctasks := ctasks c1 @ [TaskShutdown]\<rparr>))"

definition send_conn :: "(byte list \<Rightarrow> nat sys) \<Rightarrow> byte list \<Rightarrow> tcpconn \<Rightarrow> tcpconn res" where
  "send_conn write data c =
     (if in_loop_thread c then sendInLoop write data c else Ok (c\<lparr>ctasks := ctasks c @ [TaskSend data]\<rparr>))"

text \<open>A queued functor when the loop runs it.\<close>

fun run_task ::
  "(conn_event \<Rightarrow> tcpconn \<Rightarrow> tcpconn res) \<Rightarrow> (byte list \<Rightarrow> nat sys) \<Rightarrow> unit sys \<Rightarrow> conn_task \<Rightarrow> tcpconn \<Rightarrow> tcpconn res" where
  "run_task cb write sys_shutdown TaskClose c = closeInLoop cb c"
| "run_task cb write sys_shutdown TaskShutdown c = shutdownInLoop sys_shutdown c"
| "run_task cb write sys_shutdown (TaskSend data) c = sendInLoop write data c"
| "run_task cb write sys_shutdown TaskWriteComplete c = call_back cb WriteComplete c"

text \<open>The methods of the observer, as the socket's \<open>handleEvent\<close> calls them.\<close>

fun conn_observer ::
  "(conn_event \<Rightarrow> tcpconn \<Rightarrow> tcpconn res) \<Rightarrow> (byte list \<Rightarrow> nat sys) \<Rightarrow> (nat list \<Rightarrow> byte list sys) \<Rightarrow> int \<Rightarrow>
     hook \<Rightarrow> tcpconn \<Rightarrow> tcpconn res" where
  "conn_observer cb write readv now OnRead c = handleRead cb readv now c"
| "conn_observer cb write readv now OnWrite c = handleWrite cb write c"
| "conn_observer cb write readv now OnError c = handleError c"
| "conn_observer cb write readv now OnClose c = handleClose cb c"

definition deleteTcpConnection :: "tcpconn \<Rightarrow> netw res" where
  "deleteTcpConnection c = assertR (cstatus c = kDisconnected) (deleteIOFd (csock c) (cnet c))"


section \<open>The output stream\<close>

text \<open>
  An established connection on its loop's thread: its socket is attached and read, both buffers
  are well formed, and it waits for the socket to become writable only with data to write.
\<close>

definition conn_ok :: "bool \<Rightarrow> tcpconn \<Rightarrow> bool" where
  "conn_ok wr c \<longleftrightarrow> watches (csock c) (cloop c) True wr (cnet c) \<and> buf_inv (inBuf c) \<and> buf_inv (outBuf c)
     \<and> (wr \<longrightarrow> content (outBuf c) \<noteq> [])"

text \<open>What the manual page of \<open>write\<close> promises, and an error that does not end the connection.\<close>

definition write_ok :: "(byte list \<Rightarrow> nat sys) \<Rightarrow> bool" where
  "write_ok write \<longleftrightarrow> (\<forall>d. case write d of SysOk n \<Rightarrow> n \<le> length d | SysErr e \<Rightarrow> e \<noteq> EPIPE \<and> e \<noteq> ECONNRESET)"

lemma write_okD:
  assumes "write_ok write"
  shows "write d = SysOk n \<Longrightarrow> n \<le> length d" and "write d = SysErr e \<Longrightarrow> e \<noteq> EPIPE \<and> e \<noteq> ECONNRESET"
  using assms [unfolded write_ok_def, THEN spec, of d] by simp_all

definition stream :: "tcpconn \<Rightarrow> byte list" where
  "stream c = written c @ content (outBuf c)"

lemma conn_okD:
  assumes "conn_ok wr c"
  shows "in_loop c k = k" and "buf_inv (outBuf c)" and "buf_inv (inBuf c)"
    and "watches (csock c) (cloop c) True wr (cnet c)" and "wr \<Longrightarrow> content (outBuf c) \<noteq> []"
    and "readableBytes (outBuf c) = length (content (outBuf c))"
  using assms by (auto simp: conn_ok_def in_loop_def watches_def readable_content)

lemma conn_ok_fd:
  assumes "conn_ok wr c"
  obtains f where "fdAt (csock c) (cnet c) = Ok f" and "isWriting f \<longleftrightarrow> wr"
  using conn_okD(4) [OF assms] by (auto simp: watches_def)

text \<open>Same connection but for its output side.\<close>

definition same_conn :: "tcpconn \<Rightarrow> tcpconn \<Rightarrow> bool" where
  "same_conn c c' \<longleftrightarrow> csock c' = csock c \<and> cloop c' = cloop c \<and> cstatus c' = cstatus c \<and> inBuf c' = inBuf c
     \<and> hooked c' = hooked c \<and> shut c' = shut c"

lemma buffer_rest_ok:
  assumes ok: "conn_ok wr c" and n: "nwrote \<le> length data" and more: "nwrote < length data"
    and room: "writerIndex (outBuf c) + length data \<le> max_size"
  obtains c' where "buffer_rest data nwrote (length data - nwrote) False c = Ok c'" and "conn_ok True c'"
    and "stream c' = stream c @ drop nwrote data" and "same_conn c c'" and "ctrace c' = ctrace c"
    and "writerIndex (outBuf c') \<le> writerIndex (outBuf c) + length data"
proof -
  let ?d = "drop nwrote data"
  have d: "take (length data - nwrote) ?d = ?d" by simp
  have "writerIndex (outBuf c) + length ?d \<le> max_size" using room by simp
  then obtain b where b: "append_bytes ?d (outBuf c) = Ok b" "buf_inv b" "content b = content (outBuf c) @ ?d"
    "writerIndex b \<le> writerIndex (outBuf c) + length ?d"
    by (rule append_bytes_Ok [OF conn_okD(2) [OF ok]])
  obtain f where f: "fdAt (csock c) (cnet c) = Ok f" "isWriting f \<longleftrightarrow> wr" using ok by (rule conn_ok_fd)
  have ne: "content b \<noteq> []" using b(3) more by simp
  obtain w where w: "(if \<not> isWriting f then on_net (enableWrite (csock c)) (c\<lparr>outBuf := b\<rparr>)
      else Ok (c\<lparr>outBuf := b\<rparr>)) = Ok (c\<lparr>outBuf := b, cnet := w\<rparr>)" "watches (csock c) (cloop c) True True w"
  proof (cases wr)
    case True
    have "c\<lparr>outBuf := b, cnet := cnet c\<rparr> = c\<lparr>outBuf := b\<rparr>" by simp
    with True f conn_okD(4) [OF ok] show ?thesis by (intro that [of "cnet c"]) simp_all
  next
    case False
    obtain w where w: "enableWrite (csock c) (cnet c) = Ok w" "watches (csock c) (cloop c) True True w"
      by (rule enableWrite_watches [OF conn_okD(4) [OF ok]])
    with False f(2) show ?thesis by (intro that [of w]) (simp_all add: on_net_def)
  qed
  let ?c = "c\<lparr>outBuf := b, cnet := w\<rparr>"
  have "buffer_rest data nwrote (length data - nwrote) False c = Ok ?c"
    using more b(1) f(1) w(1) by (simp add: buffer_rest_def d)
  moreover have "conn_ok True ?c" using w(2) b(2) ne conn_okD(3) [OF ok] by (simp add: conn_ok_def)
  moreover have "stream ?c = stream c @ ?d" using b(3) by (simp add: stream_def)
  ultimately show ?thesis using b(4) that [of ?c] by (simp add: same_conn_def)
qed

lemma sendInLoop_ok:
  assumes ok: "conn_ok wr c" and wok: "write_ok write"
    and room: "writerIndex (outBuf c) + length data \<le> max_size"
  obtains c' wr' where "sendInLoop write data c = Ok c'" and "conn_ok wr' c'"
    and "stream c' = stream c @ data" and "same_conn c c'" and "ctrace c' = ctrace c"
    and "writerIndex (outBuf c') \<le> writerIndex (outBuf c) + length data"
proof -
  obtain f where f: "fdAt (csock c) (cnet c) = Ok f" "isWriting f \<longleftrightarrow> wr" using ok by (rule conn_ok_fd)
  note loop = conn_okD(1) [OF ok] and len = conn_okD(6) [OF ok]
  show ?thesis
  proof (cases "data = [] \<or> \<not> (\<not> wr \<and> content (outBuf c) = [])")
    case busy: False
    then have free: "\<not> isWriting f \<and> readableBytes (outBuf c) = 0" using f len by simp
    show ?thesis
    proof (cases "write data")
      case (SysOk n)
      note n = write_okD(1) [OF wok SysOk]
      let ?c1 = "c\<lparr>written := written c @ take n data\<rparr>"
      have ok1: "conn_ok wr ?c1" using ok by (simp add: conn_ok_def)
      have st: "stream ?c1 = stream c @ take n data" using busy by (simp add: stream_def)
      show ?thesis
      proof (cases "n = length data")
        case True
        let ?c2 = "if WriteComplete \<in> hooked c then ?c1\<lparr>ctasks := ctasks ?c1 @ [TaskWriteComplete]\<rparr> else ?c1"
        have "sendInLoop write data c = Ok ?c2"
          using f(1) free SysOk True by (simp add: sendInLoop_def loop writeInLoop_def Let_def)
        moreover have "conn_ok wr ?c2" "stream ?c2 = stream c @ data"
          using ok1 st True by (auto simp: conn_ok_def stream_def)
        ultimately show ?thesis using that [of ?c2] by (auto simp: same_conn_def)
      next
        case False
        then have more: "n < length data" using n by simp
        obtain c' where c': "buffer_rest data n (length data - n) False ?c1 = Ok c'" "conn_ok True c'"
          "stream c' = stream ?c1 @ drop n data" "same_conn ?c1 c'" "ctrace c' = ctrace ?c1"
          "writerIndex (outBuf c') \<le> writerIndex (outBuf ?c1) + length data"
          using buffer_rest_ok [OF ok1 n more] room by auto
        have "sendInLoop write data c = Ok c'"
          using f(1) free SysOk more c'(1) by (simp add: sendInLoop_def loop writeInLoop_def Let_def)
        then show ?thesis using that c' st by (simp add: same_conn_def)
      qed
    next
      case (SysErr e)
      note e = write_okD(2) [OF wok SysErr]
      obtain c' where c': "buffer_rest data 0 (length data - 0) False c = Ok c'" "conn_ok True c'"
        "stream c' = stream c @ drop 0 data" "same_conn c c'" "ctrace c' = ctrace c"
        "writerIndex (outBuf c') \<le> writerIndex (outBuf c) + length data"
        using buffer_rest_ok [OF ok, of 0 data] room busy by auto
      have "sendInLoop write data c = Ok c'"
        using f(1) free SysErr e c'(1) by (simp add: sendInLoop_def loop writeInLoop_def)
      then show ?thesis using that c' by simp
    qed
  next
    case True
    show ?thesis
    proof (cases "data = []")
      case False
      then have not_free: "\<not> (\<not> isWriting f \<and> readableBytes (outBuf c) = 0)" using True f len by auto
      obtain c' where c': "buffer_rest data 0 (length data - 0) False c = Ok c'" "conn_ok True c'"
        "stream c' = stream c @ drop 0 data" "same_conn c c'" "ctrace c' = ctrace c"
        "writerIndex (outBuf c') \<le> writerIndex (outBuf c) + length data"
        using buffer_rest_ok [OF ok, of 0 data] room False by auto
      have "sendInLoop write data c = Ok c'"
        using f(1) not_free c'(1) by (simp add: sendInLoop_def loop del: de_Morgan_conj)
      then show ?thesis using that c' by simp
    next
      case empty: True
      obtain c' where "sendInLoop write data c = Ok c'" "conn_ok wr c'" "stream c' = stream c" "same_conn c c'"
        "ctrace c' = ctrace c" "outBuf c' = outBuf c"
      proof (cases "\<not> isWriting f \<and> readableBytes (outBuf c) = 0")
        case free: True
        show ?thesis
        proof (cases "write data")
          case (SysOk n)
          let ?c2 = "if WriteComplete \<in> hooked c then c\<lparr>ctasks := ctasks c @ [TaskWriteComplete]\<rparr> else c"
          have "n = 0" using write_okD(1) [OF wok SysOk] empty by simp
          then have "sendInLoop write data c = Ok ?c2"
            using f(1) free SysOk empty by (simp add: sendInLoop_def loop writeInLoop_def Let_def)
          moreover have "conn_ok wr ?c2" "stream ?c2 = stream c"
            using ok by (auto simp: conn_ok_def stream_def)
          ultimately show ?thesis using that [of ?c2] by (auto simp: same_conn_def)
        next
          case (SysErr e)
          then have "sendInLoop write data c = Ok c"
            using f(1) free empty by (simp add: sendInLoop_def loop writeInLoop_def buffer_rest_def)
          then show ?thesis using that ok by (simp add: same_conn_def)
        qed
      next
        case False
        then have "sendInLoop write data c = Ok c"
          by (simp only: sendInLoop_def loop f(1) bindR_Ok if_not_P [OF False])
            (simp add: empty buffer_rest_def)
        then show ?thesis using that ok by (simp add: same_conn_def)
      qed
      then show ?thesis using that empty by simp
    qed
  qed
qed


text \<open>Callbacks that leave the connection alone.\<close>

abbreviation quiet :: "conn_event \<Rightarrow> tcpconn \<Rightarrow> tcpconn res" where
  "quiet \<equiv> \<lambda>_ c. Ok c"

lemma handleWrite_ok:
  assumes ok: "conn_ok wr c" and wok: "write_ok write"
  obtains c' wr' where "handleWrite quiet write c = Ok c'" and "conn_ok wr' c'"
    and "stream c' = stream c" and "same_conn c c'" and "writerIndex (outBuf c') \<le> writerIndex (outBuf c)"
proof -
  obtain f where f: "fdAt (csock c) (cnet c) = Ok f" "isWriting f \<longleftrightarrow> wr" using ok by (rule conn_ok_fd)
  note loop = conn_okD(1) [OF ok] and len = conn_okD(6) [OF ok]
  show ?thesis
  proof (cases wr)
    case False
    then have "handleWrite quiet write c = Ok c" using f by (simp add: handleWrite_def loop)
    then show ?thesis using that [of c wr] ok by (simp add: same_conn_def)
  next
    case True
    let ?d = "content (outBuf c)"
    have peek: "peekBytes (readableBytes (outBuf c)) (outBuf c) = Ok ?d"
      using peekBytes_content [OF conn_okD(2) [OF ok], of "length ?d"] len by simp
    obtain w where w: "disableWrite (csock c) (cnet c) = Ok w" "watches (csock c) (cloop c) True False w"
      by (rule disableWrite_watches [OF conn_okD(4) [OF ok]])
    have start: "handleWrite quiet write c = (case writeInLoop write ?d c of
           (SysOk n, c1) \<Rightarrow>
             if 0 < n then
               bindR (retrieve n (outBuf c1)) (\<lambda>b.
                 if readableBytes b = 0 then
                   bindR (on_net (disableWrite (csock c1)) (c1\<lparr>outBuf := b\<rparr>)) (call_back quiet WriteComplete)
                 else Ok (c1\<lparr>outBuf := b\<rparr>))
             else on_net (disableWrite (csock c1)) c1
         | (SysErr e, c1) \<Rightarrow> on_net (disableWrite (csock c1)) c1)"
      using f True peek by (simp add: handleWrite_def loop)
    show ?thesis
    proof (cases "write ?d")
      case (SysErr e)
      then have "handleWrite quiet write c = Ok (c\<lparr>cnet := w\<rparr>)"
        by (simp add: start writeInLoop_def on_net_def w(1))
      moreover have "conn_ok False (c\<lparr>cnet := w\<rparr>)" using ok w(2) by (simp add: conn_ok_def)
      ultimately show ?thesis using that [of "c\<lparr>cnet := w\<rparr>" False] by (simp add: stream_def same_conn_def)
    next
      case (SysOk n)
      note n = write_okD(1) [OF wok SysOk]
      show ?thesis
      proof (cases "n = 0")
        case True
        then have "handleWrite quiet write c = Ok (c\<lparr>cnet := w\<rparr>)"
          using SysOk by (simp add: start writeInLoop_def on_net_def w(1))
        moreover have "conn_ok False (c\<lparr>cnet := w\<rparr>)" using ok w(2) by (simp add: conn_ok_def)
        ultimately show ?thesis using that [of "c\<lparr>cnet := w\<rparr>" False] by (simp add: stream_def same_conn_def)
      next
        case False
        obtain b where b: "retrieve n (outBuf c) = Ok b" "buf_inv b" "content b = drop n ?d"
          by (rule retrieve_Ok [OF conn_okD(2) [OF ok] n])
        have wi: "writerIndex b \<le> writerIndex (outBuf c)" by (rule retrieve_writerIndex [OF b(1)])
        have st: "(written c @ take n ?d) @ content b = stream c" using b(3) by (simp add: stream_def)
        let ?c1 = "c\<lparr>written := written c @ take n ?d, outBuf := b\<rparr>"
        show ?thesis
        proof (cases "readableBytes b = 0")
          case True
          let ?c2 = "?c1\<lparr>cnet := w\<rparr>"
          let ?c3 = "if WriteComplete \<in> hooked c then ?c2\<lparr>ctrace := ctrace c @ [WriteComplete]\<rparr> else ?c2"
          have "handleWrite quiet write c = Ok ?c3"
            using SysOk False True b(1) by (simp add: start writeInLoop_def on_net_def w(1) call_back_def)
          moreover have "conn_ok False ?c3" using ok w(2) b(2) by (simp add: conn_ok_def)
          moreover have "stream ?c3 = stream c" using st by (simp add: stream_def)
          ultimately show ?thesis using that [of ?c3 False] wi by (simp add: same_conn_def)
        next
          case more: False
          then have "handleWrite quiet write c = Ok ?c1"
            using SysOk False b(1) by (simp add: start writeInLoop_def)
          moreover have "conn_ok wr ?c1" using ok b(2) more readable_content [OF b(2)] by (simp add: conn_ok_def)
          moreover have "stream ?c1 = stream c" using st by (simp add: stream_def)
          ultimately show ?thesis using that [of ?c1 wr] wi by (simp add: same_conn_def)
        qed
      qed
    qed
  qed
qed

text \<open>Sends and writable sockets in any order, each with its own result of \<open>write\<close>.\<close>

datatype out_op = Send "byte list" "byte list \<Rightarrow> nat sys" | Writable "byte list \<Rightarrow> nat sys"

fun out_step :: "out_op \<Rightarrow> tcpconn \<Rightarrow> tcpconn res" where
  "out_step (Send data f) c = sendInLoop f data c"
| "out_step (Writable f) c = handleWrite quiet f c"

fun given_by :: "out_op \<Rightarrow> byte list" where
  "given_by (Send data f) = data"
| "given_by (Writable f) = []"

definition run_out :: "out_op list \<Rightarrow> tcpconn \<Rightarrow> tcpconn res" where
  "run_out = run_steps out_step"

definition sent_by :: "out_op list \<Rightarrow> byte list" where
  "sent_by xs = concat (map given_by xs)"

fun out_op_ok :: "out_op \<Rightarrow> bool" where
  "out_op_ok (Send data f) \<longleftrightarrow> write_ok f"
| "out_op_ok (Writable f) \<longleftrightarrow> write_ok f"

definition writes_ok :: "out_op list \<Rightarrow> bool" where
  "writes_ok xs \<longleftrightarrow> list_all out_op_ok xs"

lemma run_out_simps [simp]: "run_out [] c = Ok c" "run_out (x # xs) c = bindR (out_step x c) (run_out xs)"
  "sent_by [] = []" "sent_by (x # xs) = given_by x @ sent_by xs"
  "writes_ok []" "writes_ok (x # xs) \<longleftrightarrow> out_op_ok x \<and> writes_ok xs"
  by (simp_all add: run_out_def sent_by_def writes_ok_def)

text \<open>A connection in such a run: still the one it was at the start, with room for \<open>n\<close> more bytes.\<close>

definition out_inv :: "tcpconn \<Rightarrow> nat \<Rightarrow> tcpconn \<Rightarrow> bool" where
  "out_inv c0 n c \<longleftrightarrow> (\<exists>wr. conn_ok wr c) \<and> same_conn c0 c \<and> writerIndex (outBuf c) + n \<le> max_size"

interpretation tcp_out: byte_stream "out_inv c0" stream out_op_ok given_by out_step for c0
proof
  fix x n c
  assume inv: "out_inv c0 (length (given_by x) + n) c" and x: "out_op_ok x"
  then obtain wr where c: "conn_ok wr c" "same_conn c0 c" "writerIndex (outBuf c) + length (given_by x) + n \<le> max_size"
    by (auto simp: out_inv_def)
  have "\<exists>c' wr'. out_step x c = Ok c' \<and> conn_ok wr' c' \<and> stream c' = stream c @ given_by x \<and> same_conn c c'
    \<and> writerIndex (outBuf c') \<le> writerIndex (outBuf c) + length (given_by x)"
  proof (cases x)
    case (Send data f)
    then have "write_ok f" "writerIndex (outBuf c) + length data \<le> max_size" using x c(3) by simp_all
    from sendInLoop_ok [OF c(1) this] Send show ?thesis by (metis given_by.simps(1) out_step.simps(1))
  next
    case (Writable f)
    then have "write_ok f" using x by simp
    from handleWrite_ok [OF c(1) this] Writable show ?thesis
      by (metis add.right_neutral append.right_neutral given_by.simps(2) list.size(3) out_step.simps(2))
  qed
  then obtain c' wr' where c': "out_step x c = Ok c'" "conn_ok wr' c'" "stream c' = stream c @ given_by x" "same_conn c c'"
    "writerIndex (outBuf c') \<le> writerIndex (outBuf c) + length (given_by x)" by blast
  moreover have "same_conn c0 c'" using c(2) c'(4) by (simp add: same_conn_def)
  ultimately have "out_inv c0 n c'" using c(3) by (auto simp: out_inv_def)
  with c'(1,3) show "\<exists>c'. out_step x c = Ok c' \<and> out_inv c0 n c' \<and> stream c' = stream c @ given_by x" by blast
qed

lemma run_out_ok:
  assumes "conn_ok wr c" and "writes_ok xs" and "writerIndex (outBuf c) + length (sent_by xs) \<le> max_size"
  shows "\<exists>c' wr'. run_out xs c = Ok c' \<and> conn_ok wr' c' \<and> stream c' = stream c @ sent_by xs \<and> same_conn c c'"
proof -
  have "out_inv c (length (concat (map given_by xs)) + 0) c"
    using assms(1,3) by (auto simp: out_inv_def same_conn_def sent_by_def)
  from tcp_out.run_ok [OF this] assms(2) show ?thesis
    by (auto simp: run_out_def writes_ok_def out_inv_def sent_by_def)
qed

section \<open>Closing\<close>

lemma closeInLoop_watched:
  assumes "watches (csock c) (cloop c) rd wr (cnet c)"
  obtains w f where "closeInLoop quiet c = Ok (c\<lparr>cnet := w, cstatus := kDisconnected,
      ctrace := ctrace c @ (if ConnectChange \<in> hooked c then [ConnectChange] else [])
        @ (if CloseConn \<in> hooked c then [CloseConn] else [])\<rparr>)"
    and "iofds w (csock c) = Some f" and "looper f = None" and "events f = 0" and "watch_inv w"
    and "loop_tid w (cloop c) = here w" and "here w = here (cnet c)"
proof -
  obtain f where f: "iofds (cnet c) (csock c) = Some f" "looper f = Some (cloop c)" "watch_inv (cnet c)"
    "loop_tid (cnet c) (cloop c) = here (cnet c)" using assms by (auto simp: watches_def)
  have "on_thread (csock c) (cnet c)" using f by (simp add: on_thread_def)
  then obtain b w g where w: "detachInLoop (csock c) (cnet c) = Ok (b, w)" "watch_inv w"
    "iofds w (csock c) = Some g" "looper g = None" "events g = 0" "here w = here (cnet c)"
    "loop_tid w = loop_tid (cnet c)"
    using detach_ok [OF f(3) _ f(1)] by blast
  show ?thesis
    by (rule that [OF _ w(3,4,5,2)])
      (use w f(4) in \<open>simp_all add: closeInLoop_def in_loop_def on_net_def changeStatus_def call_back_def\<close>)
qed

section \<open>Properties\<close>

text \<open>
  C12. The bytes given to \<open>send\<close> reach the kernel in order, none lost and none twice: however sends
  and writable events alternate and however much of its argument each \<open>write\<close> takes (all, a part,
  none, a transient error), what was handed to the kernel followed by the output buffer is what
  it was before followed by everything sent, no assertion fails, and the socket is watched for
  writing only while there is something to write.
\<close>

theorem output_stream_intact:
  assumes "conn_ok wr c" and "writes_ok xs" and "writerIndex (outBuf c) + length (sent_by xs) \<le> max_size"
  shows "\<exists>c' wr'. run_out xs c = Ok c' \<and> conn_ok wr' c'
    \<and> written c' @ content (outBuf c') = written c @ content (outBuf c) @ sent_by xs"
  using run_out_ok [OF assms] by (auto simp: stream_def)

text \<open>
  Establishing a connection on its loop's thread: the socket is attached and watched for
  reading only, the status is \<open>kConnected\<close>, the change is reported once if a callback is set, and
  the connection satisfies the invariant of the output stream.
\<close>

theorem connection_established:
  assumes "watch_inv (cnet c)" and "iofds (cnet c) (csock c) = Some f" and "looper f = None"
    and "loop_tid (cnet c) (cloop c) = here (cnet c)" and "buf_inv (inBuf c)" and "buf_inv (outBuf c)"
  shows "\<exists>c'. onConnectEstablished quiet c = Ok c' \<and> conn_ok False c' \<and> cstatus c' = kConnected
    \<and> outBuf c' = outBuf c \<and> written c' = written c \<and> hooked c' = hooked c \<and> ctasks c' = ctasks c
    \<and> ctrace c' = ctrace c @ (if ConnectChange \<in> hooked c then [ConnectChange] else [])"
proof -
  obtain w1 w2 where w: "attachInLoop (cloop c) (csock c) (cnet c) = Ok w1" "enableRead (csock c) w1 = Ok w2"
    "watches (csock c) (cloop c) True False w2"
    using attach_read_watches [OF assms(1-4)] by blast
  let ?c = "c\<lparr>cstatus := kConnected, cnet := w2\<rparr>"
  let ?c' = "if ConnectChange \<in> hooked c then ?c\<lparr>ctrace := ctrace c @ [ConnectChange]\<rparr> else ?c"
  have "onConnectEstablished quiet c = Ok ?c'"
    using w(1,2) assms(4) by (simp add: onConnectEstablished_def in_loop_def on_net_def changeStatus_def call_back_def)
  moreover have "conn_ok False ?c'" using w(3) assms(5,6) by (simp add: conn_ok_def)
  ultimately show ?thesis by (intro exI [of _ ?c']) simp
qed

text \<open>A connection for the witnesses, before and after it is established.\<close>

definition demo_net :: netw where
  "demo_net = putFd 1 (newIOFd 7 (Some 1)) idle_net"

lemma demo_net_ok: "watch_inv demo_net"
  unfolding demo_net_def by (rule watch_inv_idle [OF idle_net_inv, of 1]) (auto simp: idle_net_def newIOFd_def)

definition demo_conn :: tcpconn where
  "demo_conn = \<lparr>cnet = demo_net, csock = 1, cloop = 0, cstatus = kConnecting, activedTime = 0,
     inBuf = \<lparr>vec = [0, 0], readerIndex = 0, writerIndex = 0\<rparr>,
     outBuf = \<lparr>vec = [0, 0], readerIndex = 0, writerIndex = 0\<rparr>,
     hooked = {ConnectChange, CloseConn}, ctrace = [], written = [], shut = False, ctasks = []\<rparr>"

theorem connection_established_witness:
  "\<exists>c'. onConnectEstablished quiet demo_conn = Ok c' \<and> conn_ok False c' \<and> cstatus c' = kConnected
    \<and> outBuf c' = outBuf demo_conn \<and> written c' = [] \<and> ctrace c' = [ConnectChange] \<and> hooked c' = {ConnectChange, CloseConn}"
proof -
  have pre: "watch_inv (cnet demo_conn)" "iofds (cnet demo_conn) (csock demo_conn) = Some (newIOFd 7 (Some 1))"
    "looper (newIOFd 7 (Some 1)) = None" "loop_tid (cnet demo_conn) (cloop demo_conn) = here (cnet demo_conn)"
    "buf_inv (inBuf demo_conn)" "buf_inv (outBuf demo_conn)"
    using demo_net_ok by (simp_all add: demo_conn_def buf_inv_def max_size_def)
      (simp_all add: demo_net_def idle_net_def newIOFd_def)
  have flds: "written demo_conn = []" "hooked demo_conn = {ConnectChange, CloseConn}" "ctrace demo_conn = []"
    by (simp_all add: demo_conn_def)
  show ?thesis using connection_established [OF pre] flds by auto
qed

lemma demo_established:
  obtains c where "conn_ok False c" and "cstatus c = kConnected" and "content (outBuf c) = []"
    and "writerIndex (outBuf c) = 0" and "written c = []" and "ctasks c = []" and "hooked c = {ConnectChange, CloseConn}"
    and "inBuf c = inBuf demo_conn"
proof -
  have "\<exists>c. conn_ok False c \<and> cstatus c = kConnected \<and> outBuf c = outBuf demo_conn \<and> written c = []
      \<and> ctasks c = [] \<and> hooked c = {ConnectChange, CloseConn} \<and> inBuf c = inBuf demo_conn"
  proof -
    obtain w1 w2 where w: "watches 1 0 True False w2"
      using attach_read_watches [OF demo_net_ok, of 1 "newIOFd 7 (Some 1)" 0]
      by (auto simp: demo_net_def idle_net_def newIOFd_def)
    then show ?thesis
      by (intro exI [of _ "demo_conn\<lparr>cnet := w2, cstatus := kConnected\<rparr>"])
        (simp add: conn_ok_def demo_conn_def buf_inv_def max_size_def)
  qed
  then show ?thesis using that by (auto simp: demo_conn_def content_def)
qed

theorem output_stream_intact_witness:
  "\<exists>c c'. run_out [Send [1, 2, 3] (\<lambda>d. SysOk (min 1 (length d))), Writable (\<lambda>d. SysErr EWOULDBLOCK),
      Send [4] (\<lambda>d. SysOk (length d)), Writable (\<lambda>d. SysOk (length d))] c = Ok c'
    \<and> written c' @ content (outBuf c') = [1, 2, 3, 4]"
proof -
  obtain c where c: "conn_ok False c" "content (outBuf c) = []" "writerIndex (outBuf c) = 0" "written c = []"
    by (rule demo_established)
  let ?xs = "[Send [1, 2, 3] (\<lambda>d. SysOk (min 1 (length d))), Writable (\<lambda>d. SysErr EWOULDBLOCK),
      Send [4] (\<lambda>d. SysOk (length d)), Writable (\<lambda>d. SysOk (length d))]"
  have "writes_ok ?xs" by (auto simp: writes_ok_def write_ok_def EWOULDBLOCK_def EPIPE_def ECONNRESET_def)
  moreover have "writerIndex (outBuf c) + length (sent_by ?xs) \<le> max_size" using c(3) by (simp add: max_size_def)
  ultimately show ?thesis using output_stream_intact [OF c(1)] c by fastforce
qed


text \<open>
  A failed write strands the output: when the socket is reported writable and \<open>write\<close> fails,
  be it with the transient \<open>EWOULDBLOCK\<close>, or takes nothing, writing is disabled while the output
  buffer still has data, so nothing is written until the next \<open>send\<close>.
\<close>

theorem failed_write_strands_output:
  assumes "conn_ok True c" and "wr (content (outBuf c)) = SysErr e \<or> wr (content (outBuf c)) = SysOk 0"
  shows "\<exists>c'. handleWrite quiet wr c = Ok c' \<and> conn_ok False c' \<and> outBuf c' = outBuf c
    \<and> content (outBuf c') \<noteq> [] \<and> handleWrite quiet wr' c' = Ok c'"
proof -
  obtain f where f: "fdAt (csock c) (cnet c) = Ok f" "isWriting f" using assms(1) by (auto elim: conn_ok_fd)
  note loop = conn_okD(1) [OF assms(1)] and len = conn_okD(6) [OF assms(1)]
  have peek: "peekBytes (readableBytes (outBuf c)) (outBuf c) = Ok (content (outBuf c))"
    using peekBytes_content [OF conn_okD(2) [OF assms(1)], of "length (content (outBuf c))"] len by simp
  obtain w where w: "disableWrite (csock c) (cnet c) = Ok w" "watches (csock c) (cloop c) True False w"
    by (rule disableWrite_watches [OF conn_okD(4) [OF assms(1)]])
  let ?c' = "c\<lparr>cnet := w\<rparr>"
  have ok': "conn_ok False ?c'" using assms(1) w(2) by (simp add: conn_ok_def)
  have run: "handleWrite quiet wr c = Ok ?c'"
  proof (cases "wr (content (outBuf c))")
    case (SysErr e')
    then show ?thesis using f peek w(1) by (simp add: handleWrite_def loop writeInLoop_def on_net_def)
  next
    case (SysOk n)
    then have "n = 0" using assms(2) by simp
    then show ?thesis using SysOk f peek w(1) by (simp add: handleWrite_def loop writeInLoop_def on_net_def)
  qed
  obtain g where "fdAt (csock ?c') (cnet ?c') = Ok g" "\<not> isWriting g" using ok' by (auto elim: conn_ok_fd)
  then have "handleWrite quiet wr' ?c' = Ok ?c'" using conn_okD(1) [OF ok'] by (simp add: handleWrite_def)
  then show ?thesis using run ok' conn_okD(5) [OF assms(1)] by (intro exI [of _ ?c']) simp
qed

lemma demo_pending:
  obtains c where "conn_ok True c" and "cstatus c = kConnected" and "content (outBuf c) = [1, 2, 3]" and "\<not> shut c"
    and "writerIndex (outBuf c) \<le> 3" and "hooked c = {ConnectChange, CloseConn}"
proof -
  have "\<exists>c. conn_ok True c \<and> cstatus c = kConnected
      \<and> outBuf c = \<lparr>vec = [1, 2, 3], readerIndex = 0, writerIndex = 3\<rparr> \<and> \<not> shut c \<and> hooked c = {ConnectChange, CloseConn}"
  proof -
    obtain w2 where "watches 1 0 True False w2"
      using attach_read_watches [OF demo_net_ok, of 1 "newIOFd 7 (Some 1)" 0]
      by (auto simp: demo_net_def idle_net_def newIOFd_def)
    then obtain w where w: "watches 1 0 True True w" by (rule enableWrite_watches)
    then show ?thesis
      by (intro exI [of _ "demo_conn\<lparr>cnet := w, cstatus := kConnected,
            outBuf := \<lparr>vec = [1, 2, 3], readerIndex = 0, writerIndex = 3\<rparr>\<rparr>"])
        (simp add: conn_ok_def demo_conn_def buf_inv_def max_size_def content_def)
  qed
  then show ?thesis using that by (auto simp: content_def)
qed

theorem failed_write_strands_output_witness:
  "\<exists>c c'. handleWrite quiet (\<lambda>_. SysErr EWOULDBLOCK) c = Ok c' \<and> content (outBuf c') = [1, 2, 3] \<and> conn_ok False c'"
proof -
  obtain c where c: "conn_ok True c" "content (outBuf c) = [1, 2, 3]" by (rule demo_pending)
  then show ?thesis using failed_write_strands_output [OF c(1), of "\<lambda>_. SysErr EWOULDBLOCK" EWOULDBLOCK] by fastforce
qed

text \<open>
  C40. \<open>shutdown\<close> with output still pending never shuts the socket down: it only leaves
  \<open>kConnected\<close>. Nothing that is sent or written afterwards makes up for it, and further calls of
  \<open>shutdown\<close> and \<open>close\<close> do nothing.
\<close>

theorem shutdown_with_pending_output_is_lost:
  assumes "conn_ok True c" and "cstatus c = kConnected" and "\<not> shut c" and "writes_ok xs"
    and "writerIndex (outBuf c) + length (sent_by xs) \<le> max_size"
  shows "\<exists>c1 c2. shutdown_conn s c = Ok c1 \<and> run_out xs c1 = Ok c2 \<and> \<not> shut c2
    \<and> cstatus c2 = kDisconnecting \<and> shutdown_conn s' c2 = Ok c2 \<and> close_conn quiet c2 = Ok c2"
proof -
  let ?c1 = "c\<lparr>cstatus := kDisconnecting\<rparr>"
  obtain f where f: "fdAt (csock c) (cnet c) = Ok f" "isWriting f" using assms(1) by (auto elim: conn_ok_fd)
  have "in_loop_thread c" using assms(1) by (simp add: conn_ok_def watches_def in_loop_thread_def)
  then have "shutdown_conn s c = Ok ?c1"
    using f assms(2) by (simp add: shutdown_conn_def changeStatus_def in_loop_thread_def shutdownInLoop_def)
  moreover have "conn_ok True ?c1" using assms(1) by (simp add: conn_ok_def)
  then obtain c2 where c2: "run_out xs ?c1 = Ok c2" "same_conn ?c1 c2"
    using run_out_ok [of True ?c1 xs] assms(4,5) by auto
  ultimately show ?thesis
    using assms(3) by (auto simp: same_conn_def shutdown_conn_def close_conn_def)
qed

theorem shutdown_with_pending_output_is_lost_witness:
  "\<exists>c c1 c2. content (outBuf c) = [1, 2, 3] \<and> shutdown_conn (SysOk ()) c = Ok c1
    \<and> run_out [Writable (\<lambda>d. SysOk (length d))] c1 = Ok c2 \<and> \<not> shut c2"
proof -
  obtain c where c: "conn_ok True c" "cstatus c = kConnected" "content (outBuf c) = [1, 2, 3]" "\<not> shut c"
    "writerIndex (outBuf c) \<le> 3" by (rule demo_pending)
  have "writes_ok [Writable (\<lambda>d. SysOk (length d))]" by (simp add: writes_ok_def write_ok_def)
  moreover have "writerIndex (outBuf c) + length (sent_by [Writable (\<lambda>d. SysOk (length d))]) \<le> max_size"
    using c(5) by (simp add: max_size_def)
  ultimately show ?thesis
    using shutdown_with_pending_output_is_lost [OF c(1,2,4), of _ "SysOk ()"] c(3) by blast
qed

text \<open>
  \<open>sendInLoop\<close> does not look at the status: on a closed connection whose socket does not take all
  the data at once it enables writing on a detached socket and dereferences a null loop.
\<close>

theorem send_after_close_crashes:
  assumes "conn_ok False c" and "content (outBuf c) = []" and "length data + writerIndex (outBuf c) \<le> max_size"
    and "wr data = SysErr EWOULDBLOCK" and "data \<noteq> []"
  shows "\<exists>c1. closeInLoop quiet c = Ok c1 \<and> cstatus c1 = kDisconnected \<and> sendInLoop wr data c1 = Fail NullDeref"
proof -
  obtain w f where w: "closeInLoop quiet c = Ok (c\<lparr>cnet := w, cstatus := kDisconnected,
      ctrace := ctrace c @ (if ConnectChange \<in> hooked c then [ConnectChange] else [])
        @ (if CloseConn \<in> hooked c then [CloseConn] else [])\<rparr>)"
    "iofds w (csock c) = Some f" "looper f = None" "events f = 0" "loop_tid w (cloop c) = here w"
    using closeInLoop_watched [OF conn_okD(4) [OF assms(1)]] by metis
  have "writerIndex (outBuf c) + length data \<le> max_size" using assms(3) by simp
  then obtain b where b: "append_bytes data (outBuf c) = Ok b"
    by (rule append_bytes_Ok [OF conn_okD(2) [OF assms(1)]])
  have "readableBytes (outBuf c) = 0" using conn_okD(6) [OF assms(1)] assms(2) by simp
  then show ?thesis
    using w b assms(4,5)
    by (simp add: sendInLoop_def in_loop_def isWriting_def writeInLoop_def buffer_rest_def EWOULDBLOCK_def
        EPIPE_def ECONNRESET_def on_net_def enableWrite_def set_events_def fd_update_def)
qed

theorem send_after_close_crashes_witness:
  "\<exists>c c1. closeInLoop quiet c = Ok c1 \<and> sendInLoop (\<lambda>_. SysErr EWOULDBLOCK) [5] c1 = Fail NullDeref"
proof -
  obtain c where c: "conn_ok False c" "content (outBuf c) = []" "writerIndex (outBuf c) = 0" by (rule demo_established)
  then show ?thesis
    using send_after_close_crashes [OF c(1,2), of "[5]" "\<lambda>_. SysErr EWOULDBLOCK"] by (auto simp: max_size_def)
qed

text \<open>
  A connection can be closed twice: when another thread calls \<open>close\<close> and the peer's end of file
  is read before the queued functor runs, the loop's thread closes the connection for the peer and
  then again for the functor, and both callbacks are called twice.
\<close>

theorem close_callbacks_called_twice:
  assumes ok: "conn_ok wr c" and st: "cstatus c = kConnected" and t: "t \<noteq> here (cnet c)"
    and hooks: "hooked c = {ConnectChange, CloseConn}"
    and eof: "readFd readv (inBuf c) = Ok (0, inBuf c)"
  shows "\<exists>c1 c2 c3. close_conn quiet (c\<lparr>cnet := (cnet c)\<lparr>here := t\<rparr>\<rparr>) = Ok c1
    \<and> handleRead quiet readv now (c1\<lparr>cnet := cnet c\<rparr>) = Ok c2 \<and> ctasks c2 = ctasks c @ [TaskClose]
    \<and> run_task quiet wx s TaskClose c2 = Ok c3
    \<and> ctrace c3 = ctrace c @ [ConnectChange, CloseConn, ConnectChange, CloseConn]"
proof -
  have th: "loop_tid (cnet c) (cloop c) = here (cnet c)" using conn_okD(4) [OF ok] by (simp add: watches_def)
  let ?c1 = "c\<lparr>cnet := (cnet c)\<lparr>here := t\<rparr>, cstatus := kDisconnecting, ctasks := ctasks c @ [TaskClose]\<rparr>"
  let ?d = "c\<lparr>cstatus := kDisconnecting, ctasks := ctasks c @ [TaskClose]\<rparr>"
  have c1: "close_conn quiet (c\<lparr>cnet := (cnet c)\<lparr>here := t\<rparr>\<rparr>) = Ok ?c1"
    using st t th by (simp add: close_conn_def changeStatus_def in_loop_thread_def)
  have d: "?c1\<lparr>cnet := cnet c\<rparr> = ?d" by simp
  have watched: "watches (csock ?d) (cloop ?d) True wr (cnet ?d)" using conn_okD(4) [OF ok] by simp
  obtain w f where w: "closeInLoop quiet ?d = Ok (?d\<lparr>cnet := w, cstatus := kDisconnected,
      ctrace := ctrace ?d @ (if ConnectChange \<in> hooked ?d then [ConnectChange] else [])
        @ (if CloseConn \<in> hooked ?d then [CloseConn] else [])\<rparr>)"
    "iofds w (csock ?d) = Some f" "looper f = None" "loop_tid w (cloop ?d) = here w"
    using closeInLoop_watched [OF watched] by metis
  let ?e = "?d\<lparr>cnet := w, cstatus := kDisconnected, ctrace := ctrace c @ [ConnectChange, CloseConn]\<rparr>"
  have closed: "closeInLoop quiet ?d = Ok ?e" using w(1) hooks by simp
  have "?d\<lparr>inBuf := inBuf c\<rparr> = ?d" by simp
  then have c2: "handleRead quiet readv now ?d = Ok ?e"
    using th eof closed by (simp add: handleRead_def in_loop_def handleClose_def)
  have "closeInLoop quiet ?e = Ok (?e\<lparr>ctrace := ctrace ?e @ [ConnectChange, CloseConn]\<rparr>)"
    using w(2-4) hooks by (simp add: closeInLoop_def in_loop_def on_net_def detachInLoop_def changeStatus_def call_back_def)
  then show ?thesis unfolding c1 using c2 d
    by (intro exI [of _ ?c1] exI [of _ ?e] exI [of _ "?e\<lparr>ctrace := ctrace ?e @ [ConnectChange, CloseConn]\<rparr>"]) simp
qed

theorem close_callbacks_called_twice_witness:
  "\<exists>c c1 c2 c3 t. close_conn quiet (c\<lparr>cnet := (cnet c)\<lparr>here := t\<rparr>\<rparr>) = Ok c1
    \<and> handleRead quiet (\<lambda>_. SysOk []) 5 (c1\<lparr>cnet := cnet c\<rparr>) = Ok c2
    \<and> run_task quiet (\<lambda>_. SysOk 0) (SysOk ()) TaskClose c2 = Ok c3
    \<and> ctrace c3 = ctrace c @ [ConnectChange, CloseConn, ConnectChange, CloseConn]"
proof -
  obtain c where c: "conn_ok False c" "cstatus c = kConnected" "hooked c = {ConnectChange, CloseConn}"
    "inBuf c = inBuf demo_conn" by (rule demo_established)
  have "readFd (\<lambda>_. SysOk []) (inBuf c) = Ok (0, inBuf c)"
    by (simp add: c(4) demo_conn_def readFd_def writableBytes_def copy_in_def overwrite_def)
  moreover have "Suc (here (cnet c)) \<noteq> here (cnet c)" by simp
  ultimately show ?thesis using close_callbacks_called_twice [OF c(1,2) _ c(3)] by metis
qed

end
