(* ===== verification/Logger.thy ===== *)
theory Logger
  imports Prelude "HOL-Library.Signed_Division" "HOL-Library.Sublist"
begin

text \<open>
  The asynchronous logger: \<open>base/AsyncLogger.h\<close>, \<open>base/AsyncLogger.cpp\<close> and the append-only file of
  \<open>base/FileUtils.cpp\<close>. The logger is a step relation between the threads that
  append lines, those that start and stop it, and its writing thread; its buffers live in a store,
  because the writing thread keeps two pointers to one buffer while it writes. \<open>fwrite\<close>, the clock
  and the formatted texts are parameters.
\<close>

section \<open>\<open>FixedBuffer\<close>\<close>

text \<open>
  \<open>SIZE\<close> is the template argument, 128 * 1024 in both uses; bytes not written yet are shown as zeros.
\<close>

record fixbuf =
  fdata :: string
  curr :: nat

definition newFixedBuffer :: "nat \<Rightarrow> fixbuf" where
  "newFixedBuffer SIZE = \<lparr>fdata = replicate SIZE (CHR 0x00), curr = 0\<rparr>"

definition fb_avail :: "fixbuf \<Rightarrow> nat" where
  "fb_avail b = size_sub (length (fdata b)) (curr b)"

definition fb_append :: "string \<Rightarrow> fixbuf \<Rightarrow> fixbuf res" where
  "fb_append bs b =
     (if length bs < fb_avail b then
        bindR (copy_in (curr b) bs (fdata b)) (\<lambda>d. Ok (b\<lparr>fdata := d, curr := curr b + length bs\<rparr>))
      else Ok b)"

definition fb_reset :: "fixbuf \<Rightarrow> fixbuf" where
  "fb_reset b = b\<lparr>curr := 0\<rparr>"

definition toString :: "fixbuf \<Rightarrow> string" where
  "toString b = take (curr b) (fdata b)"

definition fb_ok :: "nat \<Rightarrow> fixbuf \<Rightarrow> bool" where
  "fb_ok SIZE b \<longleftrightarrow> length (fdata b) = SIZE \<and> curr b \<le> SIZE"

lemma fb_new [simp]: "fb_ok SIZE (newFixedBuffer SIZE)" "toString (newFixedBuffer SIZE) = []"
  "fb_avail (newFixedBuffer SIZE) = SIZE" "length (fdata (newFixedBuffer SIZE)) = SIZE"
  by (simp_all add: fb_ok_def newFixedBuffer_def toString_def fb_avail_def)

lemma fb_reset_ok [simp]: "fb_ok SIZE b \<Longrightarrow> fb_ok SIZE (fb_reset b)" "toString (fb_reset b) = []"
  by (simp_all add: fb_ok_def fb_reset_def toString_def)

lemma fb_avail_ok: "fb_ok SIZE b \<Longrightarrow> fb_avail b = SIZE - length (toString b)"
  "fb_ok SIZE b \<Longrightarrow> length (toString b) = curr b"
  by (simp_all add: fb_ok_def fb_avail_def toString_def)

lemma fb_append_fits:
  assumes "fb_ok SIZE b" and "length bs < fb_avail b"
  obtains b' where "fb_append bs b = Ok b'" and "fb_ok SIZE b'" and "toString b' = toString b @ bs"
proof -
  have le: "curr b + length bs \<le> length (fdata b)" "curr b \<le> length (fdata b)"
    using assms by (simp_all add: fb_ok_def fb_avail_def)
  let ?b = "b\<lparr>fdata := overwrite (curr b) bs (fdata b), curr := curr b + length bs\<rparr>"
  have "fb_append bs b = Ok ?b" using assms(2) le by (simp add: fb_append_def)
  moreover have "fb_ok SIZE ?b" using assms(1) le by (simp add: fb_ok_def)
  moreover have "toString ?b = toString b @ bs" using le by (simp add: toString_def overwrite_def)
  ultimately show ?thesis by (rule that)
qed

lemma fb_append_full: "fb_avail b \<le> length bs \<Longrightarrow> fb_append bs b = Ok b"
  by (simp add: fb_append_def)

section \<open>\<open>AppendFile\<close>\<close>

text \<open>
  \<open>fw i bs\<close> is what the \<open>i\<close>th \<open>fwrite\<close> of an \<open>append\<close> returns for the bytes \<open>bs\<close>, at most their number; it
  stores that many. The loop gives up when it returns 0, and the rest of the bytes is dropped.
\<close>

definition file_write :: "(nat \<Rightarrow> string \<Rightarrow> nat) \<Rightarrow> nat \<Rightarrow> string \<Rightarrow> nat" where
  "file_write fw i bs = min (fw i bs) (length bs)"

function (sequential) append_more :: "(nat \<Rightarrow> string \<Rightarrow> nat) \<Rightarrow> nat \<Rightarrow> string \<Rightarrow> string \<Rightarrow> string" where
  "append_more fw i out [] = out"
| "append_more fw i out bs =
     (let x = file_write fw i bs
      in if x = 0 then out else append_more fw (Suc i) (out @ take x bs) (drop x bs))"
  by pat_completeness auto
termination by (relation "measure (\<lambda>(fw, i, out, bs). length bs)") auto

definition file_append :: "(nat \<Rightarrow> string \<Rightarrow> nat) \<Rightarrow> string \<Rightarrow> string \<Rightarrow> string" where
  "file_append fw out line =
     (let n = file_write fw 0 line in append_more fw 1 (out @ take n line) (drop n line))"

text \<open>\<open>fwrite\<close> of something writes at least one byte: it never fails.\<close>

definition fwrite_progress :: "(nat \<Rightarrow> string \<Rightarrow> nat) \<Rightarrow> bool" where
  "fwrite_progress fw \<longleftrightarrow> (\<forall>i bs. bs \<noteq> [] \<longrightarrow> 0 < fw i bs)"

lemma append_more_all:
  assumes "fwrite_progress fw"
  shows "append_more fw i out bs = out @ bs"
  using assms
  by (induction fw i out bs rule: append_more.induct) (auto simp: Let_def file_write_def fwrite_progress_def)

lemma append_more_prefix: "\<exists>k. \<forall>out. append_more fw i out bs = out @ take k bs"
proof (induction bs arbitrary: i rule: length_induct)
  case (1 bs)
  let ?x = "file_write fw i bs"
  show ?case
  proof (cases "bs = [] \<or> ?x = 0")
    case True
    then have "append_more fw i out bs = out @ take 0 bs" for out by (cases bs) (auto simp: Let_def)
    then show ?thesis by blast
  next
    case False
    then have "length (drop ?x bs) < length bs" by (cases bs) simp_all
    then obtain k where k: "\<And>out. append_more fw (Suc i) out (drop ?x bs) = out @ take k (drop ?x bs)" using 1 by blast
    have "append_more fw i out bs = out @ take (?x + k) bs" for out
      using False k [of "out @ take ?x bs"] by (cases bs) (simp_all add: Let_def take_add)
    then show ?thesis by blast
  qed
qed

lemma file_append_all [simp]: "fwrite_progress fw \<Longrightarrow> file_append fw out line = out @ line"
  by (simp add: file_append_def append_more_all)

text \<open>Whatever \<open>fwrite\<close> answers, a prefix of the line is added.\<close>

lemma file_append_prefix: "\<exists>k. \<forall>out. file_append fw out line = out @ take k line"
proof -
  let ?n = "file_write fw 0 line"
  obtain k where "\<And>out. append_more fw 1 out (drop ?n line) = out @ take k (drop ?n line)"
    using append_more_prefix by blast
  then have "file_append fw out line = out @ take (?n + k) line" for out
    by (simp add: file_append_def Let_def take_add)
  then show ?thesis by blast
qed

section \<open>The asynchronous logger\<close>

text \<open>
  Where the writing thread is in \<open>threadFunc\<close>: about to test \<open>_running\<close>, about to take the buffers
  (before or after the wait), about to write its \<open>i\<close>th buffer, gone.
\<close>

datatype writer = NoThread | AtTest | AtSwap | AtWrite nat

text \<open>
  \<open>store\<close> holds the buffers, a pointer is an index into it. \<open>logfile\<close> is what \<open>fwrite\<close> took and \<open>disk\<close> what
  was flushed. \<open>writeBuffers\<close>, \<open>emptyBuffer\<close> and \<open>writtenLen\<close> are the thread's local variables; \<open>writtenLen\<close> is an
  \<open>int\<close>, which wraps around.
\<close>

record alog =
  store :: "fixbuf list"
  currBuffer :: nat
  buffers :: "nat list"
  running :: bool
  logfile :: string
  disk :: string
  writer :: writer
  writeBuffers :: "nat list"
  emptyBuffer :: nat
  writtenLen :: "32 word"

definition newAsyncLogger :: "nat \<Rightarrow> alog" where
  "newAsyncLogger SIZE = \<lparr>store = [newFixedBuffer SIZE], currBuffer = 0, buffers = [], running = False,
     logfile = [], disk = [], writer = NoThread, writeBuffers = [], emptyBuffer = 0, writtenLen = 0\<rparr>"

definition rollover :: "nat \<Rightarrow> alog \<Rightarrow> alog" where
  "rollover SIZE s = s\<lparr>buffers := buffers s @ [currBuffer s], store := store s @ [newFixedBuffer SIZE],
     currBuffer := length (store s)\<rparr>"

definition append_line :: "nat \<Rightarrow> string \<Rightarrow> alog \<Rightarrow> alog res" where
  "append_line SIZE line s =
     (let s1 = (if fb_avail (store s ! currBuffer s) \<le> length line then rollover SIZE s else s)
      in bindR (fb_append line (store s1 ! currBuffer s1)) (\<lambda>b.
           Ok (s1\<lparr>store := (store s1)[currBuffer s1 := b]\<rparr>)))"

text \<open>\<open>start\<close>, with the first steps of \<open>threadFunc\<close> in the new thread.\<close>

definition start_logger :: "nat \<Rightarrow> alog \<Rightarrow> alog res" where
  "start_logger SIZE s = assertR (\<not> running s)
     (Ok (s\<lparr>running := True, store := store s @ [newFixedBuffer SIZE], emptyBuffer := length (store s),
            writeBuffers := [], writer := AtTest\<rparr>))"

text \<open>\<open>stop\<close> up to the \<open>join\<close>, which waits for the thread to leave its loop.\<close>

definition stop_logger :: "alog \<Rightarrow> alog" where
  "stop_logger s = (if \<not> running s then s else s\<lparr>running := False\<rparr>)"

text \<open>
  One step of \<open>threadFunc\<close>. The wait for the condition ends when it is notified, by its timeout or
  spuriously, and the buffers are taken in every case.
\<close>

fun thread_step :: "(nat \<Rightarrow> string \<Rightarrow> nat) \<Rightarrow> alog \<Rightarrow> alog res" where
  "thread_step fw s = (case writer s of
     NoThread \<Rightarrow> Ok s
   | AtTest \<Rightarrow>
       if running s then assertR (writeBuffers s = []) (Ok (s\<lparr>writer := AtSwap\<rparr>))
       else Ok (s\<lparr>writer := NoThread\<rparr>)
   | AtSwap \<Rightarrow>
       Ok (s\<lparr>writeBuffers := buffers s @ [currBuffer s], buffers := writeBuffers s,
             currBuffer := emptyBuffer s, emptyBuffer := currBuffer s, writtenLen := 0, writer := AtWrite 0\<rparr>)
   | AtWrite i \<Rightarrow>
       if i < length (writeBuffers s) then
         let b = store s ! (writeBuffers s ! i)
         in Ok (s\<lparr>writtenLen := writtenLen s + of_nat (curr b), logfile := file_append fw (logfile s) (toString b),
                  writer := AtWrite (Suc i)\<rparr>)
       else
         Ok (s\<lparr>disk := (if 0 <s writtenLen s then logfile s else disk s),
               store := (store s)[emptyBuffer s := fb_reset (store s ! emptyBuffer s)], writeBuffers := [],
               writer := AtTest\<rparr>))"

text \<open>
  The reachable states, with the lines appended so far. \<open>F\<close> are the behaviours of \<open>fwrite\<close> that may occur, each
  step of the writing thread has one of them. A second \<open>start\<close> waits for the thread that \<open>stop\<close> joins.
\<close>

inductive logs :: "nat \<Rightarrow> (nat \<Rightarrow> string \<Rightarrow> nat) set \<Rightarrow> alog \<Rightarrow> string list \<Rightarrow> bool" for SIZE F where
  new: "logs SIZE F (newAsyncLogger SIZE) []"
| append: "logs SIZE F s ls \<Longrightarrow> append_line SIZE l s = Ok s' \<Longrightarrow> logs SIZE F s' (ls @ [l])"
| start: "logs SIZE F s ls \<Longrightarrow> writer s = NoThread \<Longrightarrow> start_logger SIZE s = Ok s' \<Longrightarrow> logs SIZE F s' ls"
| stop: "logs SIZE F s ls \<Longrightarrow> logs SIZE F (stop_logger s) ls"
| thread: "logs SIZE F s ls \<Longrightarrow> fw \<in> F \<Longrightarrow> thread_step fw s = Ok s' \<Longrightarrow> logs SIZE F s' ls"

section \<open>Lines reach the file in order\<close>

definition to_write :: "alog \<Rightarrow> nat list" where
  "to_write s = (case writer s of AtWrite i \<Rightarrow> drop i (writeBuffers s) | _ \<Rightarrow> [])"

definition held :: "alog \<Rightarrow> nat list \<Rightarrow> string" where
  "held s ps = concat (map (\<lambda>p. toString (store s ! p)) ps)"

definition log_shape :: "alog \<Rightarrow> bool" where
  "log_shape s \<longleftrightarrow> (case writer s of
      NoThread \<Rightarrow> writeBuffers s = []
    | AtWrite i \<Rightarrow> i \<le> length (writeBuffers s) \<and> emptyBuffer s \<in> set (writeBuffers s)
    | _ \<Rightarrow> writeBuffers s = [] \<and> emptyBuffer s \<notin> set (buffers s @ [currBuffer s])
        \<and> toString (store s ! emptyBuffer s) = [])"

text \<open>
  What the file has of the text handed to it, one buffer after the other: of each buffer the part that
  \<open>fwrite\<close> took, all of it when \<open>fwrite\<close> does not fail.
\<close>

definition file_has :: "bool \<Rightarrow> string \<Rightarrow> string \<Rightarrow> bool" where
  "file_has exact f t \<longleftrightarrow> (\<exists>wr. f = concat (map (\<lambda>(b, k). take k b) wr) \<and> t = concat (map fst wr)) \<and> (exact \<longrightarrow> f = t)"

lemma file_has_Nil [simp]: "file_has exact [] []"
  by (auto simp: file_has_def intro: exI [of _ "[]"])

lemma file_has_append:
  assumes "file_has exact f t" and "exact \<Longrightarrow> fwrite_progress fw"
  shows "file_has exact (file_append fw f b) (t @ b)"
proof -
  obtain wr where wr: "f = concat (map (\<lambda>(b, k). take k b) wr)" "t = concat (map fst wr)"
    using assms(1) by (auto simp: file_has_def)
  obtain k where k: "file_append fw f b = f @ take k b" using file_append_prefix by blast
  have "file_append fw f b = concat (map (\<lambda>(b, k). take k b) (wr @ [(b, k)]))" "t @ b = concat (map fst (wr @ [(b, k)]))"
    using wr k by simp_all
  moreover have "file_append fw f b = t @ b" if exact using that assms by (simp add: file_has_def)
  ultimately show ?thesis unfolding file_has_def by blast
qed

definition log_inv :: "bool \<Rightarrow> nat \<Rightarrow> alog \<Rightarrow> string list \<Rightarrow> bool" where
  "log_inv exact SIZE s ls \<longleftrightarrow> (\<forall>b \<in> set (store s). fb_ok SIZE b)
     \<and> set (writeBuffers s @ buffers s @ [currBuffer s, emptyBuffer s]) \<subseteq> {..<length (store s)}
     \<and> distinct (writeBuffers s @ buffers s @ [currBuffer s]) \<and> log_shape s
     \<and> (\<exists>t. file_has exact (logfile s) t \<and> t @ held s (to_write s) @ held s (buffers s) @ held s [currBuffer s]
         = concat (filter (\<lambda>l. length l < SIZE) ls))
     \<and> prefix (disk s) (logfile s)"


lemma held_simps [simp]: "held s [] = []" "held s (p # ps) = toString (store s ! p) @ held s ps"
  "held s (ps @ qs) = held s ps @ held s qs"
  by (simp_all add: held_def)

lemma to_write_store [simp]: "to_write (s\<lparr>store := h\<rparr>) = to_write s"
  by (simp add: to_write_def cong: writer.case_cong)

lemma held_same: "(\<And>p. p \<in> set ps \<Longrightarrow> store s' ! p = store s ! p) \<Longrightarrow> held s' ps = held s ps"
  unfolding held_def by (rule arg_cong [where f = concat]) simp

lemma set_list_update_other: "\<forall>x\<in>set xs. P x \<Longrightarrow> P b \<Longrightarrow> \<forall>x\<in>set (xs[i := b]). P x"
  using set_update_subset_insert [of xs i b] by auto

lemmas log_inv_defs = log_inv_def log_shape_def to_write_def

lemma log_inv_new: "log_inv ex SIZE (newAsyncLogger SIZE) []"
  by (simp add: log_inv_defs newAsyncLogger_def)

lemma log_inv_rollover:
  assumes "log_inv ex SIZE s ls"
  shows "log_inv ex SIZE (rollover SIZE s) ls"
proof -
  let ?s = "rollover SIZE s"
  have sub: "set (writeBuffers s @ buffers s @ [currBuffer s, emptyBuffer s]) \<subseteq> {..<length (store s)}"
    using assms by (simp add: log_inv_def)
  have old: "store ?s ! p = store s ! p" if "p < length (store s)" for p
    using that by (simp add: rollover_def nth_append)
  have same: "held ?s ps = held s ps" if "set ps \<subseteq> {..<length (store s)}" for ps
    by (rule held_same) (use that old in blast)
  have fields: "to_write ?s = to_write s" "buffers ?s = buffers s @ [currBuffer s]" "currBuffer ?s = length (store s)"
    "store ?s = store s @ [newFixedBuffer SIZE]"
    by (simp_all add: rollover_def to_write_def cong: writer.case_cong)
  have "set (to_write s) \<subseteq> {..<length (store s)}"
    using sub by (auto simp: to_write_def split: writer.split dest: in_set_dropD)
  then have "held ?s (to_write ?s) = held s (to_write s)"
    unfolding fields by (rule same)
  moreover have "held ?s (buffers ?s) = held s (buffers s) @ held s [currBuffer s]"
    unfolding fields using sub by (subst same) simp_all
  moreover have "held ?s [currBuffer ?s] = []" by (simp add: fields)
  moreover have "log_shape ?s"
    using assms sub old by (auto simp: log_inv_def log_shape_def rollover_def split: writer.splits)
  moreover have "distinct (writeBuffers ?s @ buffers ?s @ [currBuffer ?s])"
    using assms sub by (auto simp: log_inv_def rollover_def)
  moreover have "set (writeBuffers ?s @ buffers ?s @ [currBuffer ?s, emptyBuffer ?s]) \<subseteq> {..<length (store ?s)}"
    using sub by (auto simp: rollover_def)
  moreover have "\<forall>b \<in> set (store ?s). fb_ok SIZE b" using assms by (simp add: log_inv_def rollover_def)
  moreover have "logfile ?s = logfile s" "disk ?s = disk s" "writer ?s = writer s" "writtenLen ?s = writtenLen s"
    by (simp_all add: rollover_def)
  ultimately show ?thesis using assms unfolding log_inv_def by simp
qed

text \<open>Text added to the current buffer.\<close>

lemma log_inv_put:
  assumes inv: "log_inv ex SIZE s ls" and b: "fb_ok SIZE b" "toString b = toString (store s ! currBuffer s) @ x"
    and ls': "concat (filter (\<lambda>l. length l < SIZE) ls') = concat (filter (\<lambda>l. length l < SIZE) ls) @ x"
  shows "log_inv ex SIZE (s\<lparr>store := (store s)[currBuffer s := b]\<rparr>) ls'"
proof -
  let ?s = "s\<lparr>store := (store s)[currBuffer s := b]\<rparr>"
  have d: "distinct (writeBuffers s @ buffers s @ [currBuffer s])" and lt: "currBuffer s < length (store s)"
    using inv by (simp_all add: log_inv_def)
  have "held ?s ps = held s ps" if "currBuffer s \<notin> set ps" for ps
  proof (rule held_same)
    fix p
    assume "p \<in> set ps"
    with that have "currBuffer s \<noteq> p" by auto
    then show "store ?s ! p = store s ! p" by simp
  qed
  moreover have "currBuffer s \<notin> set (to_write s)" "currBuffer s \<notin> set (buffers s)"
    using d by (auto simp: to_write_def split: writer.splits dest: in_set_dropD)
  ultimately have "held ?s (to_write ?s) = held s (to_write s)" "held ?s (buffers ?s) = held s (buffers s)"
    "held ?s [currBuffer ?s] = held s [currBuffer s] @ x"
    using lt b(2) by simp_all
  moreover have "log_shape ?s"
    using inv d by (auto simp: log_inv_def log_shape_def split: writer.splits)
  moreover have "\<forall>b \<in> set (store ?s). fb_ok SIZE b"
    using set_list_update_other [of "store s" "fb_ok SIZE" b] inv b(1) by (simp add: log_inv_def)
  ultimately show ?thesis using inv ls' unfolding log_inv_def by simp
qed

lemma fb_ok_curr: "log_inv ex SIZE s ls \<Longrightarrow> fb_ok SIZE (store s ! currBuffer s)"
  by (simp add: log_inv_def)

lemma append_line_ok:
  assumes inv: "log_inv ex SIZE s ls"
  obtains s' where "append_line SIZE l s = Ok s'" and "log_inv ex SIZE s' (ls @ [l])"
    and "logfile s' = logfile s" and "disk s' = disk s" and "writer s' = writer s"
proof -
  define s1 where "s1 = (if fb_avail (store s ! currBuffer s) \<le> length l then rollover SIZE s else s)"
  let ?b = "store s1 ! currBuffer s1"
  have inv1: "log_inv ex SIZE s1 ls" using inv by (simp add: s1_def log_inv_rollover)
  have b: "fb_ok SIZE ?b" using inv1 by (rule fb_ok_curr)
  have same: "logfile s1 = logfile s" "disk s1 = disk s" "writer s1 = writer s" by (simp_all add: s1_def rollover_def)
  have eq: "append_line SIZE l s = bindR (fb_append l ?b) (\<lambda>b. Ok (s1\<lparr>store := (store s1)[currBuffer s1 := b]\<rparr>))"
    by (simp add: append_line_def s1_def Let_def)
  show ?thesis
  proof (cases "length l < SIZE")
    case True
    then have "length l < fb_avail ?b" by (auto simp: s1_def rollover_def)
    then obtain b' where "fb_append l ?b = Ok b'" "fb_ok SIZE b'" "toString b' = toString ?b @ l"
      using fb_append_fits [OF b] by blast
    then show ?thesis using eq True same by (intro that [OF _ log_inv_put [OF inv1, of b' l]]) simp_all
  next
    case False
    then have "fb_append l ?b = Ok ?b"
      using fb_avail_ok [OF b] by (intro fb_append_full) simp
    then show ?thesis using eq False same b by (intro that [OF _ log_inv_put [OF inv1, of ?b "[]"]]) simp_all
  qed
qed


lemma log_inv_start:
  assumes inv: "log_inv ex SIZE s ls" and idle: "writer s = NoThread" and ok: "start_logger SIZE s = Ok s'"
  shows "log_inv ex SIZE s' ls"
proof -
  have s': "s' = s\<lparr>running := True, store := store s @ [newFixedBuffer SIZE], emptyBuffer := length (store s),
      writeBuffers := [], writer := AtTest\<rparr>"
    using ok by (simp add: start_logger_def assertR_eq_Ok)
  have sub: "set (buffers s @ [currBuffer s]) \<subseteq> {..<length (store s)}" using inv by (auto simp: log_inv_def)
  have same: "held s' ps = held s ps" if "set ps \<subseteq> {..<length (store s)}" for ps
  proof (rule held_same)
    fix p
    assume "p \<in> set ps"
    with that have "p < length (store s)" by auto
    then show "store s' ! p = store s ! p" by (simp add: s' nth_append)
  qed
  have "held s' (buffers s) = held s (buffers s)" using sub by (intro same) simp
  moreover have "held s' [currBuffer s] = held s [currBuffer s]" using sub by (intro same) simp
  moreover have "emptyBuffer s' \<notin> set (buffers s @ [currBuffer s])" using sub by (auto simp: s')
  moreover have "set (buffers s @ [currBuffer s, emptyBuffer s']) \<subseteq> {..<length (store s')}"
    using sub by (auto simp: s')
  ultimately show ?thesis
    using inv idle by (simp add: log_inv_defs s')
qed

lemma log_inv_stop: "log_inv ex SIZE s ls \<Longrightarrow> log_inv ex SIZE (stop_logger s) ls"
  by (simp add: stop_logger_def log_inv_defs held_def cong: writer.case_cong)

lemma log_inv_thread:
  assumes inv: "log_inv ex SIZE s ls" and fw: "ex \<Longrightarrow> fwrite_progress fw"
  obtains s' where "thread_step fw s = Ok s'" and "log_inv ex SIZE s' ls"
proof (cases "writer s")
  case NoThread
  then show ?thesis using inv that by simp
next
  case AtTest
  let ?s = "if running s then s\<lparr>writer := AtSwap\<rparr> else s\<lparr>writer := NoThread\<rparr>"
  have "thread_step fw s = Ok ?s" using inv AtTest by (simp add: log_inv_defs)
  moreover have "log_inv ex SIZE ?s ls" using inv AtTest by (simp add: log_inv_defs held_def)
  ultimately show ?thesis by (rule that)
next
  case AtSwap
  let ?s = "s\<lparr>writeBuffers := buffers s @ [currBuffer s], buffers := writeBuffers s,
    currBuffer := emptyBuffer s, emptyBuffer := currBuffer s, writtenLen := 0, writer := AtWrite 0\<rparr>"
  have "thread_step fw s = Ok ?s" using AtSwap by simp
  moreover have "log_inv ex SIZE ?s ls" using inv AtSwap by (simp add: log_inv_defs held_def)
  ultimately show ?thesis by (rule that)
next
  case (AtWrite i)
  show ?thesis
  proof (cases "i < length (writeBuffers s)")
    case True
    let ?b = "store s ! (writeBuffers s ! i)"
    define s' where "s' = s\<lparr>writtenLen := writtenLen s + of_nat (curr ?b),
      logfile := file_append fw (logfile s) (toString ?b), writer := AtWrite (Suc i)\<rparr>"
    have step: "thread_step fw s = Ok s'" using AtWrite True by (simp add: Let_def s'_def)
    have same: "held s' = held s" "store s' = store s" "writeBuffers s' = writeBuffers s" "buffers s' = buffers s"
      "currBuffer s' = currBuffer s" "emptyBuffer s' = emptyBuffer s" "disk s' = disk s" "writer s' = AtWrite (Suc i)"
      "logfile s' = file_append fw (logfile s) (toString ?b)"
      by (simp_all add: held_def fun_eq_iff s'_def)
    have tw: "to_write s = (writeBuffers s ! i) # to_write s'"
      using AtWrite True same by (simp add: to_write_def Cons_nth_drop_Suc)
    obtain k where k: "file_append fw (logfile s) (toString ?b) = logfile s @ take k (toString ?b)" using file_append_prefix by blast
    obtain t where t: "file_has ex (logfile s) t"
      "t @ held s (to_write s) @ held s (buffers s) @ held s [currBuffer s] = concat (filter (\<lambda>l. length l < SIZE) ls)"
      using inv by (auto simp: log_inv_def)
    have "file_has ex (logfile s') (t @ toString ?b)" unfolding same(9) by (rule file_has_append [OF t(1) fw])
    moreover have "(t @ toString ?b) @ held s' (to_write s') @ held s' (buffers s') @ held s' [currBuffer s']
        = concat (filter (\<lambda>l. length l < SIZE) ls)"
      using t(2) by (simp add: same tw)
    moreover have "prefix (disk s') (logfile s')" using inv by (simp add: log_inv_def same k)
    moreover have "log_shape s'" using inv AtWrite True by (simp add: log_inv_def log_shape_def same)
    ultimately have "log_inv ex SIZE s' ls" using inv unfolding log_inv_def same(2-6) by blast
    with step show ?thesis by (rule that)
  next
    case False
    let ?st = "(store s)[emptyBuffer s := fb_reset (store s ! emptyBuffer s)]"
    let ?s = "s\<lparr>disk := (if 0 <s writtenLen s then logfile s else disk s), store := ?st, writeBuffers := [], writer := AtTest\<rparr>"
    have step: "thread_step fw s = Ok ?s" using AtWrite False by simp
    have e: "emptyBuffer s \<in> set (writeBuffers s)" "emptyBuffer s < length (store s)"
      and d: "distinct (writeBuffers s @ buffers s @ [currBuffer s])" and i: "i = length (writeBuffers s)"
      using inv AtWrite False by (auto simp: log_inv_defs)
    have ne: "emptyBuffer s \<notin> set (buffers s @ [currBuffer s])" using e(1) d by auto
    have same: "held ?s ps = held s ps" if "emptyBuffer s \<notin> set ps" for ps
    proof (rule held_same)
      fix p
      assume "p \<in> set ps"
      with that have "emptyBuffer s \<noteq> p" by auto
      then show "store ?s ! p = store s ! p" by simp
    qed
    have "held ?s (buffers s) = held s (buffers s)" using ne by (intro same) simp
    moreover have "held ?s [currBuffer s] = held s [currBuffer s]" using ne by (intro same) simp
    moreover have "\<forall>b \<in> set ?st. fb_ok SIZE b"
      using set_list_update_other [of "store s" "fb_ok SIZE" "fb_reset (store s ! emptyBuffer s)"] inv e(2)
      by (simp add: log_inv_def)
    ultimately have "log_inv ex SIZE ?s ls"
      using inv AtWrite i e ne by (simp add: log_inv_defs)
    with step show ?thesis by (rule that)
  qed
qed

lemma logs_inv:
  assumes "logs SIZE F s ls" and "\<And>fw. ex \<Longrightarrow> fw \<in> F \<Longrightarrow> fwrite_progress fw"
  shows "log_inv ex SIZE s ls"
  using assms(1)
proof (induction rule: logs.induct)
  case new
  show ?case by (rule log_inv_new)
next
  case (append s ls l s')
  then show ?case using append_line_ok [of ex SIZE s ls l] by (metis Inr_inject)
next
  case (start s ls s')
  then show ?case using log_inv_start by blast
next
  case (stop s ls)
  then show ?case using log_inv_stop by blast
next
  case (thread s ls fw s')
  then show ?case using log_inv_thread [of ex SIZE s ls fw] assms(2) [of fw] by (metis Inr_inject)
qed

lemmas logs_inv_any = logs_inv [where ex = False, simplified]


text \<open>A run with buffers of 4 bytes and an \<open>fwrite\<close> that takes at most two bytes a call.\<close>

definition demo_fwrite :: "nat \<Rightarrow> string \<Rightarrow> nat" where
  "demo_fwrite i bs = min 2 (length bs)"

lemma demo_fwrite_progress: "fwrite_progress demo_fwrite"
  by (simp add: fwrite_progress_def demo_fwrite_def)

definition started_log :: "nat \<Rightarrow> alog" where
  "started_log SIZE = (newAsyncLogger SIZE)\<lparr>running := True,
     store := [newFixedBuffer SIZE, newFixedBuffer SIZE], emptyBuffer := 1, writer := AtTest\<rparr>"

lemma started_log: "logs SIZE F (started_log SIZE) []"
  by (rule logs.start [OF logs.new]) (simp_all add: start_logger_def started_log_def newAsyncLogger_def)

lemma logs_append:
  assumes "logs SIZE F s ls"
  shows "logs SIZE F (projr (append_line SIZE l s)) (ls @ [l])"
  using append_line_ok [OF logs_inv_any [OF assms], of l] logs.append [OF assms] by (metis sum.sel(2))

lemma logs_thread:
  assumes "logs SIZE F s ls" and "fw \<in> F"
  shows "logs SIZE F (projr (thread_step fw s)) ls"
  using log_inv_thread [OF logs_inv_any [OF assms(1)], of fw] logs.thread [OF assms] by (metis sum.sel(2))

definition demo_log :: alog where
  "demo_log = projr (append_line 4 ''abcd'' (projr (append_line 4 ''ab'' (started_log 4))))"

definition demo_log2 :: alog where
  "demo_log2 = projr (thread_step demo_fwrite (stop_logger demo_log))"

lemma demo_logs: "logs 4 {demo_fwrite} demo_log [''ab'', ''abcd'']"
  using logs_append [OF logs_append [OF started_log], of 4 "{demo_fwrite}" "''abcd''" "''ab''"]
  by (simp add: demo_log_def)

lemma demo_logs2: "logs 4 {demo_fwrite} demo_log2 [''ab'', ''abcd'']"
  unfolding demo_log2_def by (rule logs_thread [OF logs.stop [OF demo_logs]]) simp

lemmas demo_run = demo_log_def demo_log2_def started_log_def newAsyncLogger_def newFixedBuffer_def append_line_def
  fb_avail_def rollover_def fb_append_def overwrite_def stop_logger_def toString_def to_write_def

text \<open>
  At every moment, whatever the interleaving of appending, starting, stopping and writing, and as long as
  \<open>fwrite\<close> does not fail, the file followed by the buffers not written yet is the sequence of the appended
  lines in their order, without those of \<open>SIZE\<close> or more bytes, which the logger drops.
\<close>

theorem log_in_order:
  assumes "logs SIZE F s ls" and "\<And>fw. fw \<in> F \<Longrightarrow> fwrite_progress fw"
  shows "logfile s @ held s (to_write s @ buffers s @ [currBuffer s]) = concat (filter (\<lambda>l. length l < SIZE) ls)
    \<and> prefix (disk s) (logfile s)"
  using logs_inv [of SIZE F s ls True] assms by (auto simp: log_inv_def file_has_def)

lemma log_in_order_witness:
  "logfile demo_log @ held demo_log (to_write demo_log @ buffers demo_log @ [currBuffer demo_log]) = ''ab''"
  using log_in_order [OF demo_logs] demo_fwrite_progress by simp

text \<open>
  C33. In every reachable state, whatever \<open>fwrite\<close> answers: appending a line of any length, a step of the
  writing thread and \<open>stop\<close> do not fail, \<open>start\<close> fails its assertion exactly when the logger is running, and
  every buffer is within its bounds, so nothing is ever written behind one. \<open>stop\<close> has no failing branch.
\<close>

theorem logger_memory_safe:
  assumes "logs SIZE F s ls"
  shows "(\<exists>s1. append_line SIZE l s = Ok s1) \<and> (\<exists>s2. thread_step fw s = Ok s2)
    \<and> (if running s then start_logger SIZE s = Fail AssertFail else \<exists>s3. start_logger SIZE s = Ok s3)
    \<and> list_all (\<lambda>b. length (fdata b) = SIZE \<and> curr b \<le> SIZE) (store s)"
proof (intro conjI)
  have inv: "log_inv False SIZE s ls" using assms by (rule logs_inv_any)
  show "\<exists>s1. append_line SIZE l s = Ok s1" using append_line_ok [OF inv, of l] by blast
  show "\<exists>s2. thread_step fw s = Ok s2" using log_inv_thread [OF inv, of fw] by blast
  show "if running s then start_logger SIZE s = Fail AssertFail else \<exists>s3. start_logger SIZE s = Ok s3"
    by (simp add: start_logger_def)
  show "list_all (\<lambda>b. length (fdata b) = SIZE \<and> curr b \<le> SIZE) (store s)"
    using inv by (simp add: log_inv_def fb_ok_def list_all_iff)
qed

lemma logger_memory_safe_witness:
  "logs 4 {demo_fwrite} demo_log [''ab'', ''abcd''] \<and> (\<exists>s2. thread_step (\<lambda>_ _. 0) demo_log = Ok s2)
   \<and> list_all (\<lambda>b. length (fdata b) = 4 \<and> curr b \<le> 4) (store demo_log)"
  using logger_memory_safe [OF demo_logs, of "''ab''" "\<lambda>_ _. 0"] demo_logs by blast

text \<open>
  \<open>stop\<close> loses lines: for every line there is a run in which the logger is started, the line is
  appended, the logger is stopped, its thread has ended and the file on disk is empty.
\<close>

theorem stop_may_lose_lines:
  "F \<noteq> {} \<Longrightarrow> \<exists>s. logs SIZE F s [l] \<and> \<not> running s \<and> writer s = NoThread \<and> disk s = []"
proof -
  assume "F \<noteq> {}"
  then obtain fw where fw: "fw \<in> F" by blast
  let ?s0 = "started_log SIZE"
  have inv: "log_inv False SIZE ?s0 []" by (simp add: log_inv_defs started_log_def newAsyncLogger_def)
  obtain s1 where s1: "append_line SIZE l ?s0 = Ok s1" "disk s1 = disk ?s0" "writer s1 = writer ?s0"
    using append_line_ok [OF inv] by blast
  have "logs SIZE F (stop_logger s1) ([] @ [l])"
    by (rule logs.stop [OF logs.append [OF started_log s1(1)]])
  moreover have "thread_step fw (stop_logger s1) = Ok ((stop_logger s1)\<lparr>writer := NoThread\<rparr>)"
    using s1(3) by (simp add: stop_logger_def started_log_def)
  ultimately have "logs SIZE F ((stop_logger s1)\<lparr>writer := NoThread\<rparr>) [l]" using logs.thread [OF _ fw] by fastforce
  moreover have "\<not> running (stop_logger s1)" "disk (stop_logger s1) = []"
    using s1(2) by (simp_all add: stop_logger_def started_log_def newAsyncLogger_def)
  ultimately show ?thesis by (intro exI [of _ "(stop_logger s1)\<lparr>writer := NoThread\<rparr>"]) simp
qed

end
