(* ===== verification/Logging.thy ===== *)
theory Logging
  imports Logger
begin

text \<open>
  The line that \<open>log\<close> of \<open>base/Logging.cpp\<close> builds and hands to the asynchronous logger of theory
  \<open>Logger\<close>. What \<open>ctime\<close>, \<open>strerror_r\<close> and \<open>vsprintf\<close> deliver are parameters.
\<close>

section \<open>Levels\<close>

datatype LogLevel = DEBUG | INFO | WARN | ERROR | FATAL | COUNT

fun level_int :: "LogLevel \<Rightarrow> nat" where
  "level_int DEBUG = 0" | "level_int INFO = 1" | "level_int WARN = 2" | "level_int ERROR = 3"
| "level_int FATAL = 4" | "level_int COUNT = 5"

lemma level_int_inj: "level_int a = level_int b \<Longrightarrow> a = b"
  by (cases a; cases b) simp_all

text \<open>The enumeration is compared by its values.\<close>

instantiation LogLevel :: linorder
begin

definition less_eq_LogLevel :: "LogLevel \<Rightarrow> LogLevel \<Rightarrow> bool" where
  "less_eq_LogLevel a b \<longleftrightarrow> level_int a \<le> level_int b"

definition less_LogLevel :: "LogLevel \<Rightarrow> LogLevel \<Rightarrow> bool" where
  "less_LogLevel a b \<longleftrightarrow> level_int a < level_int b"

instance
  by standard (auto simp: less_eq_LogLevel_def less_LogLevel_def dest: level_int_inj)

end

lemmas level_defs = less_eq_LogLevel_def less_LogLevel_def

fun LogLevelName :: "LogLevel \<Rightarrow> string res" where
  "LogLevelName DEBUG = Ok ''DEBUG -''"
| "LogLevelName INFO = Ok ''INFO -''"
| "LogLevelName WARN = Ok ''WARN -''"
| "LogLevelName ERROR = Ok ''ERROR -''"
| "LogLevelName FATAL = Ok ''FATAL -''"
| "LogLevelName COUNT = Fail OutOfBounds"

section \<open>Integers\<close>

text \<open>The array \<open>digits\<close>: ten digits and the terminator.\<close>

definition digits :: string where
  "digits = ''0123456789'' @ [CHR 0x00]"

definition digit_at :: "int \<Rightarrow> char res" where
  "digit_at d = (if 0 \<le> d \<and> d < int (length digits) then Ok (digits ! nat d) else Fail OutOfBounds)"

lemma sdiv_10: "i sdiv 10 = (if 0 \<le> i then i div 10 else - ((- i) div 10))"
  for i :: int by (simp add: signed_divide_int_def sgn_if)

lemma smod_10: "i smod 10 = (if 0 \<le> i then i mod 10 else - ((- i) mod 10))"
  for i :: int by (auto simp: signed_modulo_int_def sgn_if)

text \<open>The loop of \<open>convert\<close>; \<open>%\<close> and \<open>/\<close> round towards zero. The result is in the order of writing.\<close>

function convert_digits :: "int \<Rightarrow> string res" where
  "convert_digits i = bindR (digit_at (i smod 10)) (\<lambda>c.
     let i' = i sdiv 10
     in if i' \<noteq> 0 then bindR (convert_digits i') (\<lambda>cs. Ok (c # cs)) else Ok [c])"
  by pat_completeness auto
termination
  by (relation "measure (\<lambda>i. nat \<bar>i\<bar>)") (auto simp: sdiv_10 split: if_splits)

declare convert_digits.simps [simp del]

definition convert :: "int \<Rightarrow> string res" where
  "convert v = bindR (convert_digits v) (\<lambda>cs. Ok (rev (cs @ (if v < 0 then ''-'' else []))))"

text \<open>The number that a string of decimal digits denotes.\<close>

definition digit_value :: "char \<Rightarrow> int" where
  "digit_value c = int (of_char c) - 48"

definition decimal :: "string \<Rightarrow> int" where
  "decimal cs = foldl (\<lambda>a c. 10 * a + digit_value c) 0 cs"

lemma digit_at_value: "0 \<le> d \<Longrightarrow> d < 10 \<Longrightarrow> \<exists>c. digit_at d = Ok c \<and> digit_value c = d"
proof -
  assume "0 \<le> d" "d < 10"
  then have "d \<in> {0, 1, 2, 3, 4, 5, 6, 7, 8, 9}" by simp presburger
  then show ?thesis
    by (elim insertE emptyE) (simp_all add: digit_at_def digits_def digit_value_def nat_eq_iff numeral_eq_Suc)
qed


lemma decimal_snoc: "decimal (cs @ [c]) = 10 * decimal cs + digit_value c"
  by (simp add: decimal_def)

lemma convert_digits_nonneg:
  assumes "0 \<le> v"
  obtains cs where "convert_digits v = Ok cs" and "decimal (rev cs) = v" and "v < 10 ^ length cs" and "cs \<noteq> []"
    and "10 \<le> v \<longrightarrow> 10 ^ (length cs - 1) \<le> v"
  using assms
proof (induction "nat v" arbitrary: v thesis rule: less_induct)
  case less
  obtain c where c: "digit_at (v smod 10) = Ok c" "digit_value c = v mod 10"
    using digit_at_value [of "v mod 10"] less.prems(2) by (auto simp: smod_10)
  show ?case
  proof (cases "v < 10")
    case True
    then have "convert_digits v = Ok [c]"
      using c(1) less.prems(2) by (subst convert_digits.simps) (simp add: sdiv_10)
    then show ?thesis using less.prems True c(2) by (auto simp: decimal_def)
  next
    case False
    then have "nat (v div 10) < nat v" "0 \<le> v div 10" "v div 10 \<noteq> 0" using less.prems(2) by auto
    then obtain cs where cs: "convert_digits (v div 10) = Ok cs" "decimal (rev cs) = v div 10"
      "v div 10 < 10 ^ length cs" "cs \<noteq> []" "10 \<le> v div 10 \<longrightarrow> 10 ^ (length cs - 1) \<le> v div 10"
      using less.hyps by blast
    have "convert_digits v = Ok (c # cs)"
      using c(1) cs(1) less.prems(2) \<open>v div 10 \<noteq> 0\<close> by (subst convert_digits.simps) (simp add: sdiv_10)
    moreover have "c # cs \<noteq> []" by simp
    moreover have "decimal (rev (c # cs)) = v" using cs(2) c(2) by (simp add: decimal_snoc)
    moreover have "v < 10 ^ length (c # cs)" using cs(3) by (simp add: div_less_iff_less_mult mult.commute)
    moreover have "10 ^ (length (c # cs) - 1) \<le> v"
    proof (cases "10 \<le> v div 10")
      case True
      have "10 ^ length cs = 10 * 10 ^ (length cs - 1)" using cs(4) by (cases cs) simp_all
      also have "\<dots> \<le> (v div 10) * 10" using cs(5) True by simp
      also have "\<dots> \<le> v" by simp
      finally show ?thesis by simp
    next
      case f: False
      have "convert_digits (v div 10) = Ok [hd cs]"
        using f cs(1) less.prems(2) \<open>0 \<le> v div 10\<close>
        by (subst (asm) convert_digits.simps, subst convert_digits.simps) (auto simp: sdiv_10)
      then have "length cs = 1" using cs(1) by (cases cs) auto
      then show ?thesis using False by simp
    qed
    ultimately show ?thesis using less.prems(1) by blast
  qed
qed

lemma convert_decimal_digits:
  assumes "0 \<le> v"
  shows "\<exists>cs. convert v = Ok cs \<and> decimal cs = v \<and> (if v < 10 then length cs = 1 else 10 ^ (length cs - 1) \<le> v)"
proof -
  obtain cs where cs: "convert_digits v = Ok cs" "decimal (rev cs) = v" "v < 10 ^ length cs" "cs \<noteq> []"
    "10 \<le> v \<longrightarrow> 10 ^ (length cs - 1) \<le> v" using convert_digits_nonneg [OF assms] by blast
  have "length cs = 1" if "v < 10"
    using cs(1) that assms by (subst (asm) convert_digits.simps) (auto simp: sdiv_10)
  then show ?thesis using assms cs by (intro exI [of _ "rev cs"]) (simp add: convert_def)
qed

text \<open>
  \<open>convert\<close> prints a number that is not negative in decimal: read back, the text gives the number,
  and it has no leading zero.
\<close>

theorem convert_decimal:
  assumes "0 \<le> v"
  shows "\<exists>cs. convert v = Ok cs \<and> decimal cs = v \<and> (if v < 10 then length cs = 1 else 10 ^ (length cs - 1) \<le> v)"
  using assms by (rule convert_decimal_digits)

lemma convert_decimal_witness: "\<exists>cs. convert 907 = Ok cs \<and> decimal cs = 907 \<and> 10 ^ (length cs - 1) \<le> (907 :: int)"
  using convert_decimal [of 907] by simp

text \<open>
  For every negative number \<open>convert\<close> reads the array of digits at a negative index.
\<close>

theorem convert_negative:
  assumes "v < 0"
  shows "convert v = Fail OutOfBounds"
proof -
  have "convert_digits v = Fail OutOfBounds"
    using assms
  proof (induction "nat (- v)" arbitrary: v rule: less_induct)
    case less
    show ?case
    proof (cases "v smod 10 < 0")
      case True
      then show ?thesis by (subst convert_digits.simps) (simp add: digit_at_def)
    next
      case False
      then have "(- v) mod 10 = 0" using less.prems by (simp add: smod_10)
      then have "10 \<le> - v" using less.prems by presburger
      then have "v sdiv 10 < 0" "nat (- (v sdiv 10)) < nat (- v)" using less.prems by (auto simp: sdiv_10)
      then have "convert_digits (v sdiv 10) = Fail OutOfBounds" using less.hyps by blast
      moreover have "\<exists>c. digit_at (v smod 10) = Ok c" using \<open>(- v) mod 10 = 0\<close> less.prems
        by (simp add: smod_10 digit_at_def digits_def)
      ultimately show ?thesis using \<open>v sdiv 10 < 0\<close> by (subst convert_digits.simps) auto
    qed
  qed
  then show ?thesis by (simp add: convert_def)
qed

lemma convert_negative_witness: "convert (- 5) = Fail OutOfBounds"
  using convert_negative [of "- 5"] by simp


section \<open>The line\<close>

text \<open>\<open>convert\<close> writes the digits and a terminator at the end of the buffer, then \<open>add\<close> moves over the digits.\<close>

definition kMaxNumericSize :: nat where "kMaxNumericSize = 32"

definition appendInteger :: "int \<Rightarrow> fixbuf \<Rightarrow> fixbuf res" where
  "appendInteger v b =
     (if kMaxNumericSize \<le> fb_avail b then
        bindR (convert v) (\<lambda>cs.
        bindR (copy_in (curr b) (cs @ [CHR 0x00]) (fdata b)) (\<lambda>d.
          Ok (b\<lparr>fdata := d, curr := curr b + length cs\<rparr>)))
      else Ok b)"

text \<open>\<open>find_last_of\<close> and \<open>rfind\<close> of one character: the last index at most \<open>n\<close> that holds it.\<close>

fun last_index :: "char \<Rightarrow> string \<Rightarrow> nat option" where
  "last_index c [] = None"
| "last_index c (x # xs) = (case last_index c xs of Some i \<Rightarrow> Some (Suc i) | None \<Rightarrow> if x = c then Some 0 else None)"

definition rfind :: "char \<Rightarrow> nat \<Rightarrow> string \<Rightarrow> nat option" where
  "rfind c n s = last_index c (take (Suc n) s)"

text \<open>The time of day is cut out of the text of \<open>ctime\<close>; a position that is not found makes a wild pointer.\<close>

definition appendTime :: "string \<Rightarrow> int \<Rightarrow> fixbuf \<Rightarrow> fixbuf res" where
  "appendTime timeStr fractional b =
     (case last_index (CHR '' '') timeStr of
        None \<Rightarrow> Fail OutOfBounds
      | Some endPos \<Rightarrow>
          (case rfind (CHR '' '') (size_sub endPos 1) timeStr of
             None \<Rightarrow> Fail OutOfBounds
           | Some starPos \<Rightarrow>
               bindR (fb_append (take (endPos - starPos) (drop starPos timeStr)) b) (\<lambda>b.
               bindR (fb_append '':'' b) (\<lambda>b.
               bindR (appendInteger fractional b) (fb_append '' '')))))"

text \<open>
  The call of \<open>log\<close> and what the environment delivers for it: the text of \<open>strerror_r\<close>, of \<open>ctime\<close> with the
  milliseconds, and of \<open>vsprintf\<close>, which stores it with its terminator in \<open>content\<close>.
\<close>

record log_call =
  level :: LogLevel
  srcfile :: string
  line :: int
  function_name :: "string option"
  error :: int
  error_text :: string
  timeStr :: string
  millis :: int
  content_text :: string

definition content_size :: nat where "content_size = 1024"

definition append_error :: "log_call \<Rightarrow> fixbuf \<Rightarrow> fixbuf res" where
  "append_error k b =
     (if error k \<noteq> 0 then
        bindR (fb_append '' '' b) (\<lambda>b.
        bindR (fb_append (error_text k) b) (\<lambda>b.
        bindR (fb_append '' errno('' b) (\<lambda>b.
        bindR (appendInteger (error k) b) (fb_append '') -''))))
      else Ok b)"

definition build_line :: "log_call \<Rightarrow> fixbuf \<Rightarrow> fixbuf res" where
  "build_line k b0 =
     bindR (LogLevelName (level k)) (\<lambda>nm.
     bindR (fb_append nm (fb_reset b0)) (\<lambda>b.
     bindR (append_error k b) (\<lambda>b.
     bindR (appendTime (timeStr k) (millis k) b) (\<lambda>b.
     bindR (fb_append ''- '' b) (\<lambda>b.
     bindR (fb_append (srcfile k) b) (\<lambda>b.
     bindR (fb_append ''('' b) (\<lambda>b.
     bindR (appendInteger (line k) b) (\<lambda>b.
     bindR (fb_append '')'' b) (\<lambda>b.
     bindR (case function_name k of None \<Rightarrow> Ok b | Some f \<Rightarrow> bindR (fb_append '' - '' b) (fb_append f)) (\<lambda>b.
     bindR (fb_append '': '' b) (\<lambda>b.
       if content_size \<le> length (content_text k) then Fail OutOfBounds
       else bindR (fb_append (content_text k) b) (fb_append [CHR 0x0A]))))))))))))"

text \<open>The result of \<open>log\<close>: the thread's buffer, the logger and whether the process aborts at the end.\<close>

definition log_msg :: "nat \<Rightarrow> LogLevel \<Rightarrow> log_call \<Rightarrow> fixbuf \<Rightarrow> alog \<Rightarrow> (fixbuf \<times> alog \<times> bool) res" where
  "log_msg SIZE gLogLevel k b0 s =
     (if level k < gLogLevel then Ok (b0, s, False)
      else bindR (build_line k b0) (\<lambda>b.
           bindR (append_line SIZE (toString b) s) (\<lambda>s1. Ok (b, s1, FATAL \<le> level k))))"


section \<open>What a line says\<close>

text \<open>A step that adds the text \<open>t\<close> to a buffer with room for it and for a number.\<close>

definition writes :: "nat \<Rightarrow> (fixbuf \<Rightarrow> fixbuf res) \<Rightarrow> string \<Rightarrow> bool" where
  "writes SIZE f t \<longleftrightarrow> (\<forall>b. fb_ok SIZE b \<and> length (toString b) + length t + kMaxNumericSize < SIZE \<longrightarrow>
     (\<exists>b'. f b = Ok b' \<and> fb_ok SIZE b' \<and> toString b' = toString b @ t))"

named_theorems writes_intros \<open>steps that add text\<close>

lemma writesE:
  assumes "writes SIZE f t" and "fb_ok SIZE b" and "length (toString b) + length t + kMaxNumericSize < SIZE"
  obtains b' where "f b = Ok b'" and "fb_ok SIZE b'" and "toString b' = toString b @ t"
  using assms unfolding writes_def by blast

lemma writes_append [writes_intros]: "writes SIZE (fb_append t) t"
  unfolding writes_def
proof (intro allI impI)
  fix b
  assume a: "fb_ok SIZE b \<and> length (toString b) + length t + kMaxNumericSize < SIZE"
  then have "length t < fb_avail b" using fb_avail_ok [of SIZE b] by (simp add: less_diff_conv)
  then show "\<exists>b'. fb_append t b = Ok b' \<and> fb_ok SIZE b' \<and> toString b' = toString b @ t"
    using a fb_append_fits by blast
qed

lemma writes_Ok [writes_intros]: "writes SIZE Ok []"
  by (simp add: writes_def)

lemma writes_bind [writes_intros]:
  assumes "writes SIZE f t" and "writes SIZE g u"
  shows "writes SIZE (\<lambda>b. bindR (f b) g) (t @ u)"
  unfolding writes_def
proof (intro allI impI)
  fix b
  assume a: "fb_ok SIZE b \<and> length (toString b) + length (t @ u) + kMaxNumericSize < SIZE"
  obtain b1 where b1: "f b = Ok b1" "fb_ok SIZE b1" "toString b1 = toString b @ t"
    using writesE [OF assms(1), of b] a by auto
  obtain b2 where "g b1 = Ok b2" "fb_ok SIZE b2" "toString b2 = toString b1 @ u"
    using writesE [OF assms(2) b1(2)] a b1(3) by auto
  then show "\<exists>b'. bindR (f b) g = Ok b' \<and> fb_ok SIZE b' \<and> toString b' = toString b @ t @ u"
    using b1 by auto
qed

definition shown :: "int \<Rightarrow> string" where
  "shown v = projr (convert v)"

lemma convert_int:
  assumes "0 \<le> v" and "v < 2 ^ 31"
  shows "convert v = Ok (shown v)" and "length (shown v) \<le> 10"
proof -
  obtain cs where cs: "convert_digits v = Ok cs" "10 \<le> v \<longrightarrow> 10 ^ (length cs - 1) \<le> v" "cs \<noteq> []"
    using convert_digits_nonneg [OF assms(1)] by blast
  show eq: "convert v = Ok (shown v)" using cs assms(1) by (simp add: convert_def shown_def)
  have len: "length (shown v) = length cs" using cs(1) assms(1) by (simp add: convert_def shown_def)
  have "length cs - 1 < 10"
  proof (rule ccontr)
    assume n: "\<not> length cs - 1 < 10"
    then have p: "(10 :: int) ^ 10 \<le> 10 ^ (length cs - 1)" by (intro power_increasing) simp_all
    moreover have "10 \<le> v"
    proof (rule ccontr)
      assume "\<not> 10 \<le> v"
      then have "convert_digits v = Ok [hd cs]"
        using cs(1) assms(1) by (subst (asm) convert_digits.simps, subst convert_digits.simps) (auto simp: sdiv_10)
      then have "cs = [hd cs]" using cs(1) by simp
      then have "length cs = 1" by (cases cs) auto
      with n show False by simp
    qed
    ultimately have "(10 :: int) ^ 10 \<le> v" using cs(2) by linarith
    then show False using assms(2) by simp
  qed
  then show "length (shown v) \<le> 10" using len by simp
qed

lemma writes_int [writes_intros]:
  assumes "0 \<le> v" and "v < 2 ^ 31"
  shows "writes SIZE (appendInteger v) (shown v)"
  unfolding writes_def
proof (intro allI impI)
  fix b
  assume a: "fb_ok SIZE b \<and> length (toString b) + length (shown v) + kMaxNumericSize < SIZE"
  note c = convert_int [OF assms]
  have le: "curr b + length (shown v @ [CHR 0x00]) \<le> length (fdata b)" "kMaxNumericSize \<le> fb_avail b"
    using a fb_avail_ok [of SIZE b] c(2) by (simp_all add: fb_ok_def kMaxNumericSize_def le_diff_conv2)
  let ?b = "b\<lparr>fdata := overwrite (curr b) (shown v @ [CHR 0x00]) (fdata b), curr := curr b + length (shown v)\<rparr>"
  have "appendInteger v b = Ok ?b" using le c(1) by (simp add: appendInteger_def)
  moreover have "fb_ok SIZE ?b" using a le by (simp add: fb_ok_def)
  moreover have "toString ?b = toString b @ shown v" using le by (simp add: toString_def overwrite_def)
  ultimately show "\<exists>b'. appendInteger v b = Ok b' \<and> fb_ok SIZE b' \<and> toString b' = toString b @ shown v" by blast
qed

text \<open>The time of day in a text of the form that \<open>ctime\<close> promises: a date, the time, the year.\<close>

lemma last_index_append: "c \<notin> set ys \<Longrightarrow> last_index c (xs @ c # ys) = Some (length xs)"
proof (induction xs)
  case Nil
  have "c \<notin> set zs \<Longrightarrow> last_index c zs = None" for zs by (induction zs) auto
  with Nil show ?case by simp
qed simp

lemma writes_time [writes_intros]:
  assumes "CHR '' '' \<notin> set clock" and "CHR '' '' \<notin> set year" and "0 \<le> ms" and "ms < 2 ^ 31"
  shows "writes SIZE (appendTime (date @ '' '' @ clock @ '' '' @ year) ms)
    (('' '' @ clock) @ '':'' @ shown ms @ '' '')"
proof -
  let ?t = "date @ '' '' @ clock @ '' '' @ year"
  have "last_index (CHR '' '') ?t = Some (length (date @ '' '' @ clock))"
    using last_index_append [OF assms(2), of "date @ '' '' @ clock"] by simp
  moreover have "rfind (CHR '' '') (length (date @ '' '' @ clock) - 1) ?t = Some (length date)"
    using last_index_append [OF assms(1), of date] by (simp add: rfind_def)
  ultimately have "appendTime ?t ms = (\<lambda>b. bindR (fb_append ('' '' @ clock) b) (\<lambda>b.
      bindR (fb_append '':'' b) (\<lambda>b. bindR (appendInteger ms b) (fb_append '' ''))))"
    by (simp add: appendTime_def fun_eq_iff)
  then show ?thesis using assms(3,4) by (simp only:) (intro writes_intros)
qed


text \<open>The text of a line, part by part.\<close>

definition level_text :: "LogLevel \<Rightarrow> string" where
  "level_text v = projr (LogLevelName v)"

definition error_part :: "log_call \<Rightarrow> string" where
  "error_part k = (if error k = 0 then [] else '' '' @ error_text k @ '' errno('' @ shown (error k) @ '') -'')"

definition function_part :: "log_call \<Rightarrow> string" where
  "function_part k = (case function_name k of None \<Rightarrow> [] | Some f \<Rightarrow> '' - '' @ f)"

definition expected_line :: "log_call \<Rightarrow> string \<Rightarrow> string" where
  "expected_line k clock = level_text (level k) @ error_part k @ (('' '' @ clock) @ '':'' @ shown (millis k) @ '' '') @ ''- ''
     @ srcfile k @ ''('' @ shown (line k) @ '')'' @ function_part k @ '': '' @ content_text k @ [CHR 0x0A]"

text \<open>What the callers and the C library guarantee of a call.\<close>

definition call_ok :: "log_call \<Rightarrow> string \<Rightarrow> string \<Rightarrow> string \<Rightarrow> bool" where
  "call_ok k date clock year \<longleftrightarrow> timeStr k = date @ '' '' @ clock @ '' '' @ year
     \<and> CHR '' '' \<notin> set clock \<and> CHR '' '' \<notin> set year \<and> level k \<noteq> COUNT
     \<and> 0 \<le> millis k \<and> millis k < 1000 \<and> 0 \<le> error k \<and> error k < 2 ^ 31 \<and> 0 \<le> line k \<and> line k < 2 ^ 31
     \<and> length (content_text k) < content_size"

lemma writes_error:
  assumes "0 \<le> error k" and "error k < 2 ^ 31"
  shows "writes SIZE (append_error k) (error_part k)"
proof (cases "error k = 0")
  case True
  then show ?thesis by (simp add: append_error_def error_part_def writes_def)
next
  case False
  then have eq: "append_error k = (\<lambda>b. bindR (fb_append '' '' b) (\<lambda>b. bindR (fb_append (error_text k) b) (\<lambda>b.
      bindR (fb_append '' errno('' b) (\<lambda>b. bindR (appendInteger (error k) b) (fb_append '') -'')))))"
    by (simp add: append_error_def fun_eq_iff)
  have "error_part k = '' '' @ error_text k @ '' errno('' @ shown (error k) @ '') -''"
    using False by (simp only: error_part_def if_False)
  then show ?thesis unfolding eq by (simp only:) (intro writes_intros assms)
qed

lemma writes_function:
  "writes SIZE (\<lambda>b. case function_name k of None \<Rightarrow> Ok b | Some f \<Rightarrow> bindR (fb_append '' - '' b) (fb_append f)) (function_part k)"
proof (cases "function_name k")
  case None
  then show ?thesis by (simp add: function_part_def writes_def)
next
  case (Some f)
  have "writes SIZE (\<lambda>b. bindR (fb_append '' - '' b) (fb_append f)) ('' - '' @ f)"
    by (intro writes_intros)
  with Some show ?thesis by (simp add: function_part_def)
qed

lemma build_line_writes:
  assumes "call_ok k date clock year" and "fb_ok SIZE b0" and "length (expected_line k clock) + kMaxNumericSize < SIZE"
  obtains b where "build_line k b0 = Ok b" and "fb_ok SIZE b" and "toString b = expected_line k clock"
proof -
  note ok = assms(1) [unfolded call_ok_def]
  let ?f = "\<lambda>b. bindR (fb_append (level_text (level k)) b) (\<lambda>b.
     bindR (append_error k b) (\<lambda>b.
     bindR (appendTime (timeStr k) (millis k) b) (\<lambda>b.
     bindR (fb_append ''- '' b) (\<lambda>b.
     bindR (fb_append (srcfile k) b) (\<lambda>b.
     bindR (fb_append ''('' b) (\<lambda>b.
     bindR (appendInteger (line k) b) (\<lambda>b.
     bindR (fb_append '')'' b) (\<lambda>b.
     bindR (case function_name k of None \<Rightarrow> Ok b | Some f \<Rightarrow> bindR (fb_append '' - '' b) (fb_append f)) (\<lambda>b.
     bindR (fb_append '': '' b) (\<lambda>b.
     bindR (fb_append (content_text k) b) (fb_append [CHR 0x0A])))))))))))"
  have eq: "build_line k b0 = ?f (fb_reset b0)"
    using ok by (cases "level k") (simp_all add: build_line_def level_text_def)
  have time: "writes SIZE (appendTime (timeStr k) (millis k)) (('' '' @ clock) @ '':'' @ shown (millis k) @ '' '')"
    using ok writes_time [of clock year "millis k" SIZE date] by simp
  have "writes SIZE ?f (expected_line k clock)"
    unfolding expected_line_def
    by (intro writes_intros writes_error writes_function time) (use ok in simp_all)
  from writesE [OF this, of "fb_reset b0"] show ?thesis
    using assms(2,3) eq that by auto
qed

text \<open>
  \<open>log\<close> hands exactly one line to the logger, made of the level, the error, the time, the file, the
  line number, the function and the text, and aborts the process just for \<open>FATAL\<close>.
\<close>

theorem log_writes_line:
  assumes "call_ok k date clock year" and "fb_ok SIZE b0" and "length (expected_line k clock) + kMaxNumericSize < SIZE"
    and "gLogLevel \<le> level k" and "logs SIZE F s ls"
  shows "\<exists>b s'. log_msg SIZE gLogLevel k b0 s = Ok (b, s', level k = FATAL) \<and> toString b = expected_line k clock
    \<and> append_line SIZE (expected_line k clock) s = Ok s'"
proof -
  obtain b where b: "build_line k b0 = Ok b" "toString b = expected_line k clock"
    using build_line_writes [OF assms(1-3)] by blast
  obtain s' where s': "append_line SIZE (expected_line k clock) s = Ok s'"
    using append_line_ok [OF logs_inv_any [OF assms(5)]] by blast
  have "FATAL \<le> level k \<longleftrightarrow> level k = FATAL"
    using assms(1) by (cases "level k") (simp_all add: call_ok_def less_eq_LogLevel_def)
  then show ?thesis using b s' assms(4) by (simp add: log_msg_def not_less [symmetric])
qed

text \<open>
  The line of \<open>LOG_FATAL\<close> never reaches the disk: when \<open>log\<close> has returned to its last action, the
  abort, the file is what it was before.
\<close>

theorem fatal_line_not_written:
  assumes "logs SIZE F s ls" and "log_msg SIZE gLogLevel k b0 s = Ok (b, s', True)"
  shows "logfile s' = logfile s \<and> disk s' = disk s \<and> FATAL \<le> level k"
proof -
  have "append_line SIZE (toString b) s = Ok s'" "FATAL \<le> level k"
    using assms(2) by (auto simp: log_msg_def split: if_splits)
  moreover obtain s1 where "append_line SIZE (toString b) s = Ok s1" "logfile s1 = logfile s" "disk s1 = disk s"
    using append_line_ok [OF logs_inv_any [OF assms(1)]] by blast
  ultimately show ?thesis by simp
qed


text \<open>A call as the macro \<open>LOG_ERROR\<close> makes it.\<close>

definition demo_call :: "LogLevel \<Rightarrow> log_call" where
  "demo_call v = \<lparr>level = v, srcfile = ''a.cpp'', line = 12, function_name = None, error = 2,
     error_text = ''No such file'', timeStr = ''Thu Nov 24'' @ '' '' @ ''18:22:48'' @ '' '' @ [CHR 0x0A], millis = 907,
     content_text = ''open failed''\<rparr>"

lemma demo_call_ok: "v \<noteq> COUNT \<Longrightarrow> call_ok (demo_call v) ''Thu Nov 24'' ''18:22:48'' [CHR 0x0A]"
  by (simp add: call_ok_def demo_call_def content_size_def)

lemma log_writes_line_witness:
  "\<exists>b s'. log_msg 300 INFO (demo_call ERROR) (newFixedBuffer 300) (started_log 300) = Ok (b, s', False)
    \<and> toString b = expected_line (demo_call ERROR) ''18:22:48''"
proof -
  have "length (shown 2) \<le> 10" "length (shown 907) \<le> 10" "length (shown 12) \<le> 10"
    by (rule convert_int(2); simp)+
  then have "length (expected_line (demo_call ERROR) ''18:22:48'') + kMaxNumericSize < 300"
    by (simp add: expected_line_def demo_call_def level_text_def error_part_def function_part_def kMaxNumericSize_def)
  from log_writes_line [OF demo_call_ok fb_new(1) this _ started_log, of INFO]
  show ?thesis by (auto simp: less_eq_LogLevel_def demo_call_def)
qed

lemma fatal_line_not_written_witness:
  "\<exists>b s'. log_msg 300 INFO (demo_call FATAL) (newFixedBuffer 300) (started_log 300) = Ok (b, s', True)
    \<and> disk s' = [] \<and> logfile s' = []"
proof -
  have inv: "log_inv False 300 (started_log 300) []"
    by (rule logs_inv_any [OF started_log [where F = "{}"]])
  have "length (shown 2) \<le> 10" "length (shown 907) \<le> 10" "length (shown 12) \<le> 10"
    by (rule convert_int(2); simp)+
  then have "length (expected_line (demo_call FATAL) ''18:22:48'') + kMaxNumericSize < 300"
    by (simp add: expected_line_def demo_call_def level_text_def error_part_def function_part_def kMaxNumericSize_def)
  then obtain b where b: "build_line (demo_call FATAL) (newFixedBuffer 300) = Ok b"
    using build_line_writes [OF demo_call_ok fb_new(1)] by (metis LogLevel.distinct(29))
  obtain s' where "append_line 300 (toString b) (started_log 300) = Ok s'"
    using append_line_ok [OF inv] by blast
  then have r: "log_msg 300 INFO (demo_call FATAL) (newFixedBuffer 300) (started_log 300) = Ok (b, s', True)"
    using b by (simp add: log_msg_def less_LogLevel_def less_eq_LogLevel_def demo_call_def)
  then show ?thesis
    using fatal_line_not_written [OF started_log [where F = "{}"] r] by (simp add: started_log_def newAsyncLogger_def)
qed

end
