(* ===== verification/LogFiles.thy ===== *)
theory LogFiles
  imports Logging
begin

text \<open>
  The files of the log: \<open>LogFile\<close> and \<open>setPath\<close> of \<open>base/AsyncLogger.cpp\<close>, opening and closing an
  \<open>AppendFile\<close> and \<open>create_directories\<close> of \<open>base/FileUtils.cpp\<close>, and \<open>LoggerLauncher\<close> of
  \<open>base/Logging.cpp\<close>, over the logger of theory \<open>Logger\<close>, whose writing thread writes to these files.
  The state of the file system is a value of any type; the shell (\<open>system\<close>) and \<open>fopen\<close> are functions
  on it and parameters.
\<close>

section \<open>Paths and directories\<close>

text \<open>\<open>find_last_of('/')\<close>; \<open>substr(0, npos)\<close> of a path without a slash is the whole path.\<close>

definition last_slash :: "string \<Rightarrow> nat option" where
  "last_slash path = (let name = takeWhile (\<lambda>c. c \<noteq> CHR ''/'') (rev path)
     in if length name < length path then Some (length path - length name - 1) else None)"

definition log_dirs :: "string \<Rightarrow> string" where
  "log_dirs path = (case last_slash path of None \<Rightarrow> path | Some pos \<Rightarrow> take pos path)"

text \<open>\<open>sys\<close> is \<open>system\<close>, with the status it returns.\<close>

definition create_directories :: "(string \<Rightarrow> 'd \<Rightarrow> int \<times> 'd) \<Rightarrow> string \<Rightarrow> 'd \<Rightarrow> bool \<times> 'd" where
  "create_directories sys dirs d = (let (errorno, d1) = sys (''mkdir -p '' @ dirs) d in (errorno \<noteq> - 1, d1))"

section \<open>\<open>AppendFile\<close> and \<open>LogFile\<close>\<close>

text \<open>
  \<open>opened\<close> says that \<open>_fd\<close> is not null, \<open>taken\<close> is what \<open>fwrite\<close> took of the lines since the file was
  opened. \<open>fo\<close> is \<open>fopen\<close> in mode \<open>a\<close>: whether it gives a stream.
\<close>

record append_file =
  opened :: bool
  taken :: string
  writtenBytes :: "32 word"

definition newAppendFile :: "(string \<Rightarrow> 'd \<Rightarrow> bool \<times> 'd) \<Rightarrow> string \<Rightarrow> 'd \<Rightarrow> append_file \<times> 'd" where
  "newAppendFile fo name d = (let (ok, d1) = fo name d
     in (\<lparr>opened = ok, taken = [], writtenBytes = 0\<rparr>, d1))"

definition appendFile_append :: "(nat \<Rightarrow> string \<Rightarrow> nat) \<Rightarrow> string \<Rightarrow> append_file \<Rightarrow> append_file res" where
  "appendFile_append fw bs f =
     (if opened f then
        Ok (f\<lparr>taken := file_append fw (taken f) bs, writtenBytes := writtenBytes f + of_nat (length bs)\<rparr>)
      else Fail NullDeref)"

text \<open>The destructor closes the stream; what it leaves is the text of the file.\<close>

definition deleteAppendFile :: "append_file \<Rightarrow> string res" where
  "deleteAppendFile f = (if opened f then Ok (taken f) else Fail NullDeref)"

record log_file =
  lpath :: string
  lfile :: append_file

definition newLogFile ::
  "(string \<Rightarrow> 'd \<Rightarrow> int \<times> 'd) \<Rightarrow> (string \<Rightarrow> 'd \<Rightarrow> bool \<times> 'd) \<Rightarrow> string \<Rightarrow> 'd \<Rightarrow> log_file \<times> 'd" where
  "newLogFile sys fo path d =
     (let (ok, d1) = create_directories sys (log_dirs path) d;
          (f, d2) = newAppendFile fo path d1
      in (\<lparr>lpath = path, lfile = f\<rparr>, d2))"

section \<open>The logger with its files\<close>

text \<open>
  \<open>fcore\<close> is the logger of theory \<open>Logger\<close>, \<open>flogfile\<close> its \<open>_file\<close>, \<open>fos\<close> the file system, \<open>flevel\<close> the
  level of \<open>setLogLevel\<close>; \<open>fpast\<close> keeps the texts of the files closed so far, in order.
\<close>

record 'd flog =
  fcore :: alog
  flogfile :: log_file
  fos :: 'd
  flevel :: LogLevel
  fpast :: "string list"

definition newFileLogger ::
  "nat \<Rightarrow> (string \<Rightarrow> 'd \<Rightarrow> int \<times> 'd) \<Rightarrow> (string \<Rightarrow> 'd \<Rightarrow> bool \<times> 'd) \<Rightarrow> string \<Rightarrow> 'd \<Rightarrow> 'd flog" where
  "newFileLogger SIZE sys fo path d = (let (lf, d1) = newLogFile sys fo path d
     in \<lparr>fcore = newAsyncLogger SIZE, flogfile = lf, fos = d1, flevel = DEBUG, fpast = []\<rparr>)"

text \<open>
  \<open>setPath\<close>: the new file is opened, then assigned, which closes the old one.
\<close>

definition setPath ::
  "(string \<Rightarrow> 'd \<Rightarrow> int \<times> 'd) \<Rightarrow> (string \<Rightarrow> 'd \<Rightarrow> bool \<times> 'd) \<Rightarrow> string \<Rightarrow> 'd flog \<Rightarrow> 'd flog res" where
  "setPath sys fo path x =
     (let (lf, d1) = newLogFile sys fo path (fos x)
      in bindR (deleteAppendFile (lfile (flogfile x))) (\<lambda>bs.
           Ok (x\<lparr>flogfile := lf, fos := d1, fpast := fpast x @ [bs]\<rparr>)))"

text \<open>
  A step of the writing thread. Writing a buffer goes to the file that is open, the rest is the step of
  theory \<open>Logger\<close>. \<open>fflush\<close> of a null stream is allowed, it flushes every stream.
\<close>

definition write_to_file :: "(nat \<Rightarrow> string \<Rightarrow> nat) \<Rightarrow> 'd flog \<Rightarrow> append_file res" where
  "write_to_file fw x = (case writer (fcore x) of
     AtWrite i \<Rightarrow>
       if i < length (writeBuffers (fcore x)) then
         appendFile_append fw (toString (store (fcore x) ! (writeBuffers (fcore x) ! i))) (lfile (flogfile x))
       else Ok (lfile (flogfile x))
   | _ \<Rightarrow> Ok (lfile (flogfile x)))"

definition file_thread_step :: "(nat \<Rightarrow> string \<Rightarrow> nat) \<Rightarrow> 'd flog \<Rightarrow> 'd flog res" where
  "file_thread_step fw x =
     bindR (write_to_file fw x) (\<lambda>f.
     bindR (thread_step fw (fcore x)) (\<lambda>c.
       Ok (x\<lparr>fcore := c, flogfile := (flogfile x)\<lparr>lfile := f\<rparr>\<rparr>)))"

text \<open>\<open>LoggerLauncher\<close>: its constructor and its destructor.\<close>

definition launch ::
  "nat \<Rightarrow> (string \<Rightarrow> 'd \<Rightarrow> int \<times> 'd) \<Rightarrow> (string \<Rightarrow> 'd \<Rightarrow> bool \<times> 'd) \<Rightarrow> string \<Rightarrow> LogLevel \<Rightarrow> 'd flog \<Rightarrow> 'd flog res" where
  "launch SIZE sys fo path lev x =
     bindR (setPath sys fo path (x\<lparr>flevel := lev\<rparr>)) (\<lambda>x1.
     bindR (start_logger SIZE (fcore x1)) (\<lambda>c. Ok (x1\<lparr>fcore := c\<rparr>)))"

definition unlaunch :: "'d flog \<Rightarrow> 'd flog" where
  "unlaunch x = x\<lparr>fcore := stop_logger (fcore x)\<rparr>"

text \<open>
  The reachable states with the lines appended so far. A logger is launched when no writing thread is
  there: \<open>setPath\<close> takes no lock and may not run beside it.
\<close>

inductive file_logs ::
  "nat \<Rightarrow> (nat \<Rightarrow> string \<Rightarrow> nat) set \<Rightarrow> (string \<Rightarrow> 'd \<Rightarrow> int \<times> 'd) \<Rightarrow> (string \<Rightarrow> 'd \<Rightarrow> bool \<times> 'd) \<Rightarrow> 'd flog \<Rightarrow> string list \<Rightarrow> bool"
  for SIZE F sys fo where
  new: "file_logs SIZE F sys fo (newFileLogger SIZE sys fo path d) []"
| append: "file_logs SIZE F sys fo x ls \<Longrightarrow> append_line SIZE l (fcore x) = Ok c
    \<Longrightarrow> file_logs SIZE F sys fo (x\<lparr>fcore := c\<rparr>) (ls @ [l])"
| launch: "file_logs SIZE F sys fo x ls \<Longrightarrow> writer (fcore x) = NoThread \<Longrightarrow> launch SIZE sys fo path lev x = Ok x1
    \<Longrightarrow> file_logs SIZE F sys fo x1 ls"
| unlaunch: "file_logs SIZE F sys fo x ls \<Longrightarrow> file_logs SIZE F sys fo (unlaunch x) ls"
| thread: "file_logs SIZE F sys fo x ls \<Longrightarrow> fw \<in> F \<Longrightarrow> file_thread_step fw x = Ok x1 \<Longrightarrow> file_logs SIZE F sys fo x1 ls"

section \<open>The files together are the log\<close>

definition files_text :: "'d flog \<Rightarrow> string" where
  "files_text x = concat (fpast x @ [taken (lfile (flogfile x))])"

lemma files_text_updates [simp]: "files_text (x\<lparr>fcore := c\<rparr>) = files_text x" "files_text (x\<lparr>flevel := v\<rparr>) = files_text x"
  by (simp_all add: files_text_def)

lemma newLogFile_empty: "newLogFile sys fo path d = (lf, d1) \<Longrightarrow> taken (lfile lf) = []"
  by (auto simp: newLogFile_def newAppendFile_def Let_def split: prod.splits)

lemma files_text_new: "files_text (newFileLogger SIZE sys fo path d) = []"
  by (auto simp: newFileLogger_def files_text_def newLogFile_empty split: prod.split)

lemma fcore_new [simp]: "fcore (newFileLogger SIZE sys fo path d) = newAsyncLogger SIZE"
  by (simp add: newFileLogger_def split: prod.split)

lemma setPath_Ok:
  assumes "setPath sys fo path x = Ok x1"
  shows "files_text x1 = files_text x" and "fcore x1 = fcore x"
  using assms by (auto simp: setPath_def deleteAppendFile_def files_text_def newLogFile_empty split: prod.splits if_splits)

lemma start_logger_logfile: "start_logger SIZE s = Ok s' \<Longrightarrow> logfile s' = logfile s"
  by (auto simp: start_logger_def assertR_eq_Ok)

lemma started_shape:
  "start_logger SIZE s = Ok s' \<Longrightarrow> writer s' = AtTest \<and> running s' \<and> writeBuffers s' = []"
  by (auto simp: start_logger_def assertR_eq_Ok)

lemma append_line_logfile: "append_line SIZE l s = Ok s' \<Longrightarrow> logfile s' = logfile s"
  by (auto simp: append_line_def Let_def rollover_def)

lemma stop_logger_logfile [simp]: "logfile (stop_logger s) = logfile s"
  by (simp add: stop_logger_def)

lemma thread_step_logfile: "thread_step fw s = Ok s' \<Longrightarrow>
    logfile s' = (case writer s of
        AtWrite i \<Rightarrow> if i < length (writeBuffers s)
          then file_append fw (logfile s) (toString (store s ! (writeBuffers s ! i))) else logfile s
      | _ \<Rightarrow> logfile s)"
  by (auto simp: Let_def assertR_eq_Ok split: writer.splits if_splits)

lemma launch_Ok:
  assumes "launch SIZE sys fo path lev x = Ok x1"
  shows "files_text x1 = files_text x" and "start_logger SIZE (fcore x) = Ok (fcore x1)"
proof -
  obtain x' c where x': "setPath sys fo path (x\<lparr>flevel := lev\<rparr>) = Ok x'" "start_logger SIZE (fcore x') = Ok c"
    "x1 = x'\<lparr>fcore := c\<rparr>"
    using assms by (auto simp: launch_def)
  note sp = setPath_Ok [OF x'(1)]
  show "files_text x1 = files_text x" using sp(1) x'(3) by simp
  show "start_logger SIZE (fcore x) = Ok (fcore x1)" using sp(2) x'(2,3) by simp
qed

lemma file_append_out: "file_append fw (a @ b) bs = a @ file_append fw b bs"
  using file_append_prefix [of fw bs] by force

text \<open>What \<open>fwrite\<close> takes of a buffer, the open file gets.\<close>

lemma file_thread_Ok:
  assumes ok: "file_thread_step fw x = Ok x1" and eq: "files_text x = logfile (fcore x)"
  shows "files_text x1 = logfile (fcore x1)" and "thread_step fw (fcore x) = Ok (fcore x1)"
proof -
  obtain f c where f: "write_to_file fw x = Ok f" "thread_step fw (fcore x) = Ok c"
    "x1 = x\<lparr>fcore := c, flogfile := (flogfile x)\<lparr>lfile := f\<rparr>\<rparr>"
    using ok by (auto simp: file_thread_step_def)
  then show "thread_step fw (fcore x) = Ok (fcore x1)" by simp
  have "concat (fpast x) @ taken f = logfile c"
    unfolding thread_step_logfile [OF f(2)] using f(1) eq
    by (auto simp: write_to_file_def appendFile_append_def files_text_def file_append_out [symmetric] split: writer.splits if_splits)
  then show "files_text x1 = logfile (fcore x1)" using f(3) by (simp add: files_text_def)
qed

text \<open>Every run with files is a run of the logger of theory \<open>Logger\<close>.\<close>

lemma file_logs_simulation:
  assumes "file_logs SIZE F sys fo x ls"
  shows "logs SIZE F (fcore x) ls \<and> files_text x = logfile (fcore x)"
  using assms
proof (induction rule: file_logs.induct)
  case (new path d)
  then show ?case by (simp add: logs.new files_text_new) (simp add: newAsyncLogger_def)
next
  case (append x ls l c)
  then show ?case using logs.append append_line_logfile by fastforce
next
  case (launch x ls path lev x1)
  note l = launch_Ok [OF launch.hyps(3)]
  show ?case using launch l logs.start [OF _ launch.hyps(2) l(2)] start_logger_logfile [OF l(2)] by simp
next
  case (unlaunch x ls)
  then show ?case using logs.stop by (auto simp: unlaunch_def)
next
  case (thread x ls fw x1)
  then show ?case using file_thread_Ok logs.thread by metis
qed

section \<open>Properties\<close>


text \<open>
  A small file system: the directories made so far. The shell makes every directory it is asked for,
  a file opens unless a directory has its name.
\<close>

definition demo_sys :: "string \<Rightarrow> string list \<Rightarrow> int \<times> string list" where
  "demo_sys cmd d = (0, drop 9 cmd # d)"

definition demo_fopen :: "string \<Rightarrow> string list \<Rightarrow> bool \<times> string list" where
  "demo_fopen path d = (path \<notin> set d, d)"

text \<open>
  A program that launches the logger, logs twice, ends the launcher between the two writes of the
  thread, and launches it again with another file.
\<close>

definition demo_launch :: "string \<Rightarrow> string list flog \<Rightarrow> string list flog" where
  "demo_launch path x = projr (launch 8 demo_sys demo_fopen path INFO x)"

definition demo_line :: "string \<Rightarrow> string list flog \<Rightarrow> string list flog" where
  "demo_line l x = x\<lparr>fcore := projr (append_line 8 l (fcore x))\<rparr>"

definition demo_thread :: "string list flog \<Rightarrow> string list flog" where
  "demo_thread x = projr (file_thread_step demo_fwrite x)"

lemma demo_steps:
  assumes "file_logs 8 {demo_fwrite} demo_sys demo_fopen x ls"
  shows "writer (fcore x) = NoThread \<Longrightarrow> isl (launch 8 demo_sys demo_fopen path INFO x) = False
      \<Longrightarrow> file_logs 8 {demo_fwrite} demo_sys demo_fopen (demo_launch path x) ls"
    and "isl (append_line 8 l (fcore x)) = False
      \<Longrightarrow> file_logs 8 {demo_fwrite} demo_sys demo_fopen (demo_line l x) (ls @ [l])"
    and "isl (file_thread_step demo_fwrite x) = False
      \<Longrightarrow> file_logs 8 {demo_fwrite} demo_sys demo_fopen (demo_thread x) ls"
  using assms unfolding demo_launch_def demo_line_def demo_thread_def
  by (metis file_logs.launch sum.collapse(2), metis file_logs.append sum.collapse(2), metis file_logs.thread sum.collapse(2) singletonI)

definition demo_start :: "string list flog" where
  "demo_start = newFileLogger 8 demo_sys demo_fopen ''log/game.log'' []"

definition demo_first :: "string list flog" where
  "demo_first = (demo_thread ^^ 4) (demo_line ''ab'' (demo_launch ''a/1'' demo_start))"

definition demo_second :: "string list flog" where
  "demo_second = (demo_thread ^^ 3) (demo_launch ''b/2'' (demo_thread (unlaunch (demo_line ''cde'' demo_first))))"

lemmas file_run = demo_launch_def demo_line_def demo_thread_def demo_sys_def demo_fopen_def
  newFileLogger_def newLogFile_def newAppendFile_def create_directories_def log_dirs_def last_slash_def setPath_def
  deleteAppendFile_def launch_def file_thread_step_def write_to_file_def appendFile_append_def unlaunch_def
  start_logger_def file_append_def file_write_def demo_fwrite_def fb_reset_def demo_run demo_start_def numeral_eq_Suc

lemma funpow_3: "(f ^^ 3) x = f (f (f x))" and funpow_4: "(f ^^ 4) x = f (f (f (f x)))"
  by (simp_all add: numeral_eq_Suc)

lemma demo_first: "file_logs 8 {demo_fwrite} demo_sys demo_fopen demo_first [''ab'']"
proof -
  have "file_logs 8 {demo_fwrite} demo_sys demo_fopen demo_start []"
    unfolding demo_start_def by (rule file_logs.new)
  then have "file_logs 8 {demo_fwrite} demo_sys demo_fopen (demo_launch ''a/1'' demo_start) []"
    by (rule demo_steps(1)) (simp_all add: file_run)
  then have "file_logs 8 {demo_fwrite} demo_sys demo_fopen (demo_line ''ab'' (demo_launch ''a/1'' demo_start)) ([] @ [''ab''])"
    by (rule demo_steps(2)) (simp add: file_run)
  then show ?thesis unfolding demo_first_def
    unfolding funpow_4 by (intro demo_steps(3); simp add: file_run)
qed

lemma demo_second: "file_logs 8 {demo_fwrite} demo_sys demo_fopen demo_second [''ab'', ''cde'']"
proof -
  have "file_logs 8 {demo_fwrite} demo_sys demo_fopen (demo_line ''cde'' demo_first) ([''ab''] @ [''cde''])"
    by (rule demo_steps(2) [OF demo_first]) (simp add: demo_first_def file_run)
  then have "file_logs 8 {demo_fwrite} demo_sys demo_fopen (demo_thread (unlaunch (demo_line ''cde'' demo_first))) ([''ab''] @ [''cde''])"
    by (intro demo_steps(3) file_logs.unlaunch) (simp_all add: demo_first_def file_run)
  then have "file_logs 8 {demo_fwrite} demo_sys demo_fopen
      (demo_launch ''b/2'' (demo_thread (unlaunch (demo_line ''cde'' demo_first)))) ([''ab''] @ [''cde''])"
    by (rule demo_steps(1)) (simp_all add: demo_first_def file_run)
  then show ?thesis unfolding demo_second_def
    unfolding funpow_3 by (intro demo_steps(3); simp add: demo_first_def file_run)
qed


text \<open>
  The second half of C18 needs its condition: a file that takes four bytes and then refuses loses the
  rest of the buffer, and the next buffer follows.
\<close>

lemma refused_write_drops_rest:
  "file_append (\<lambda>i bs. if i = 0 then 4 else 0) ''x'' ''abcdef'' = ''xabcd''"
  by (simp add: file_append_def file_write_def)

text \<open>The directories of a path are what is before its last slash.\<close>

lemma log_dirs_slash: "CHR ''/'' \<notin> set name \<Longrightarrow> log_dirs (dirs @ ''/'' @ name) = dirs"
proof -
  assume "CHR ''/'' \<notin> set name"
  then have "takeWhile (\<lambda>c. c \<noteq> CHR ''/'') (rev name @ ''/'' @ rev dirs) = rev name"
    by (subst takeWhile_append2) auto
  then show ?thesis by (simp add: log_dirs_def last_slash_def Let_def)
qed

lemma log_dirs_slashless: "CHR ''/'' \<notin> set path \<Longrightarrow> log_dirs path = path"
proof -
  assume "CHR ''/'' \<notin> set path"
  then have "takeWhile (\<lambda>c. c \<noteq> CHR ''/'') (rev path) = rev path"
    using takeWhile_eq_all_conv [of "\<lambda>c. c \<noteq> CHR ''/''" "rev path"] by auto
  then show ?thesis by (simp only: log_dirs_def last_slash_def Let_def) simp
qed

text \<open>
  A launched logger whose file could be opened writes: no step of its thread fails and the file stays
  open.
\<close>

theorem opened_log_never_fails:
  assumes run: "file_logs SIZE F sys fo x ls" and op: "opened (lfile (flogfile x))"
  shows "\<exists>x1. file_thread_step fw x = Ok x1 \<and> opened (lfile (flogfile x1))"
proof -
  have "log_inv False SIZE (fcore x) ls" using file_logs_simulation [OF run] logs_inv_any by blast
  then obtain c where c: "thread_step fw (fcore x) = Ok c" using log_inv_thread by blast
  have "\<exists>f. write_to_file fw x = Ok f \<and> opened f"
    using op by (cases "writer (fcore x)") (simp_all add: write_to_file_def appendFile_append_def)
  then obtain f where "write_to_file fw x = Ok f" "opened f" by blast
  then show ?thesis using c by (simp add: file_thread_step_def del: thread_step.simps)
qed

text \<open>
  A path without a slash breaks the log. \<open>LogFile\<close> then asks the shell for a directory of the name
  of the file. If the shell makes it and \<open>fopen\<close> refuses directories, the launch succeeds, the third
  step of the writing thread passes a null stream to \<open>fwrite\<close>, even when nothing was logged, and
  another \<open>setPath\<close> passes it to \<open>fclose\<close>.
\<close>

theorem slashless_path_breaks_log:
  assumes "CHR ''/'' \<notin> set path"
    and made: "is_dir path (snd (sys (''mkdir -p '' @ path) (fos x)))"
    and refused: "\<And>d. is_dir path d \<Longrightarrow> \<not> fst (fo path d)"
    and ok: "launch SIZE sys fo path lev x = Ok x1"
  shows "bindR (file_thread_step fw x1) (\<lambda>a. bindR (file_thread_step fw a) (file_thread_step fw)) = Fail NullDeref
    \<and> setPath sys fo other x1 = Fail NullDeref"
proof -
  have "\<not> fst (fo path (snd (sys (''mkdir -p '' @ path) (fos x))))" using made by (rule refused)
  then have shut: "\<not> opened (lfile (flogfile x1))"
    using ok log_dirs_slashless [OF assms(1)]
    by (auto simp: launch_def setPath_def newLogFile_def newAppendFile_def create_directories_def Let_def split: prod.splits)
  obtain s where s: "start_logger SIZE s = Ok (fcore x1)" using launch_Ok(2) [OF ok] by blast
  then have "bindR (file_thread_step fw x1) (\<lambda>a. bindR (file_thread_step fw a) (file_thread_step fw)) = Fail NullDeref"
    using shut started_shape [OF s] by (simp add: file_thread_step_def write_to_file_def appendFile_append_def)
  then show ?thesis using shut by (simp add: setPath_def deleteAppendFile_def split: prod.split)
qed

lemma slashless_path_breaks_log_witness:
  "setPath demo_sys demo_fopen ''a/1'' (demo_launch ''game.log'' demo_start) = Fail NullDeref
   \<and> bindR (file_thread_step demo_fwrite (demo_launch ''game.log'' demo_start))
       (\<lambda>a. bindR (file_thread_step demo_fwrite a) (file_thread_step demo_fwrite)) = Fail NullDeref"
proof -
  have "launch 8 demo_sys demo_fopen ''game.log'' INFO demo_start = Ok (demo_launch ''game.log'' demo_start)"
    by (simp add: file_run)
  from slashless_path_breaks_log [OF _ _ _ this, of "\<lambda>p d. p \<in> set d" demo_fwrite "''a/1''"]
  show ?thesis by (simp add: demo_sys_def demo_fopen_def)
qed

end
