(* ===== verification/InetAddress.thy ===== *)
theory InetAddress
  imports NetBytes Logging
begin

text \<open>
  \<open>net/InetAddress.h\<close> and \<open>net/InetAddress.cpp\<close>: an IPv4 address and port, kept in network order, and the
  text \<open>ip:port\<close> by which the servers know their connections. \<open>inet_pton\<close> and \<open>inet_ntop\<close> are parameters.
\<close>

section \<open>Addresses\<close>

text \<open>The fields of \<open>sockaddr_in\<close> the code uses, as they lie in memory.\<close>

record sockaddr_in =
  sin_family :: "16 word"
  sin_port :: "16 word"
  sin_addr :: "32 word"

definition AF_INET :: "16 word" where "AF_INET = 2"
definition INADDR_ANY :: "32 word" where "INADDR_ANY = 0"

definition inet_zero :: sockaddr_in where
  "inet_zero = \<lparr>sin_family = 0, sin_port = 0, sin_addr = 0\<rparr>"

definition inet_any :: "16 word \<Rightarrow> sockaddr_in" where
  "inet_any port = inet_zero\<lparr>sin_family := AF_INET, sin_addr := hostToNetwork32 INADDR_ANY,
     sin_port := hostToNetwork16 port\<rparr>"

text \<open>A text that is no address is logged and leaves the address 0.0.0.0.\<close>

definition inet_of :: "(string \<Rightarrow> 32 word option) \<Rightarrow> string \<Rightarrow> 16 word \<Rightarrow> sockaddr_in" where
  "inet_of inet_pton ip port =
     (let a = inet_zero\<lparr>sin_family := AF_INET, sin_port := hostToNetwork16 port\<rparr>
      in case inet_pton ip of None \<Rightarrow> a | Some n \<Rightarrow> a\<lparr>sin_addr := n\<rparr>)"

definition getFamily :: "sockaddr_in \<Rightarrow> 16 word" where
  "getFamily a = sin_family a"

definition getPortNetEndian :: "sockaddr_in \<Rightarrow> 16 word" where
  "getPortNetEndian a = sin_port a"

definition getPort :: "sockaddr_in \<Rightarrow> 16 word" where
  "getPort a = networkToHost16 (sin_port a)"

text \<open>\<open>inet_ntop\<close> fails when the text does not fit; the buffer then keeps its first byte, a terminator.\<close>

definition ip_text :: "(32 word \<Rightarrow> string) \<Rightarrow> nat \<Rightarrow> sockaddr_in \<Rightarrow> string" where
  "ip_text inet_ntop len a = (if length (inet_ntop (sin_addr a)) < len then inet_ntop (sin_addr a) else [])"

definition toIp :: "(32 word \<Rightarrow> string) \<Rightarrow> sockaddr_in \<Rightarrow> string" where
  "toIp inet_ntop a = ip_text inet_ntop 64 a"

text \<open>\<open>snprintf\<close> with \<open>%u\<close> prints the port in decimal, cut to the room that is left.\<close>

definition toIpPort :: "(32 word \<Rightarrow> string) \<Rightarrow> sockaddr_in \<Rightarrow> string" where
  "toIpPort inet_ntop a =
     (let buff = ip_text inet_ntop 64 a
      in buff @ take (64 - length buff - 1) ('':'' @ shown (uint (networkToHost16 (sin_port a)))))"

section \<open>Properties\<close>

lemma decimal_shown:
  assumes "0 \<le> v" and "v < 2 ^ 31"
  shows "decimal (shown v) = v"
proof -
  obtain cs where "convert_digits v = Ok cs" "decimal (rev cs) = v" using convert_digits_nonneg [OF assms(1)] by blast
  then show ?thesis using assms(1) by (simp add: shown_def convert_def)
qed

lemma networkToHost16_inj: "networkToHost16 v = networkToHost16 w \<longleftrightarrow> v = w"
proof
  assume "networkToHost16 v = networkToHost16 w"
  then have "bswap (bswap v) = bswap (bswap w)" by (simp add: networkToHost16_def)
  then show "v = w" by simp
qed simp

lemma uint16_bound: "uint (w :: 16 word) < 2 ^ 16"
  using uint_bounded [of w] by simp

lemma shown_port_inj: "shown (uint (v :: 16 word)) = shown (uint w) \<longleftrightarrow> v = w"
proof
  assume "shown (uint v) = shown (uint w)"
  moreover have "decimal (shown (uint u)) = uint u" for u :: "16 word"
    using uint16_bound [of u] by (intro decimal_shown) simp_all
  ultimately have "uint v = uint w" by metis
  then show "v = w" by (rule word_uint_eqI)
qed simp

text \<open>
  What the manual page of \<open>inet_ntop\<close> promises for IPv4: at most fifteen characters, digits and dots,
  different texts for different addresses.
\<close>

definition ntop_ok :: "(32 word \<Rightarrow> string) \<Rightarrow> bool" where
  "ntop_ok inet_ntop \<longleftrightarrow> inj inet_ntop \<and> (\<forall>n. length (inet_ntop n) \<le> 15 \<and> CHR '':'' \<notin> set (inet_ntop n))"

lemma toIpPort_plain:
  assumes "ntop_ok inet_ntop"
  shows "toIpPort inet_ntop a = inet_ntop (sin_addr a) @ '':'' @ shown (uint (getPort a))"
proof -
  have "length (inet_ntop (sin_addr a)) \<le> 15" using assms by (simp add: ntop_ok_def)
  moreover have "length (shown (uint (getPort a))) \<le> 10"
    using uint16_bound [of "getPort a"] by (intro convert_int(2)) simp_all
  ultimately show ?thesis by (simp add: toIpPort_def ip_text_def getPort_def)
qed

lemma split_at:
  assumes "s \<notin> set xs" and "s \<notin> set ys" and "xs @ [s] @ us = ys @ [s] @ vs"
  shows "xs = ys \<and> us = vs"
proof -
  have "takeWhile (\<lambda>c. c \<noteq> s) (zs @ [s] @ ws) = zs" if "s \<notin> set zs" for zs ws
    using that by (induction zs) auto
  then have "xs = ys" using assms by metis
  with assms(3) show ?thesis by simp
qed

text \<open>
  C32. The connection key identifies the peer: two addresses have the same text \<open>ip:port\<close> only if address
  and port are the same, so a server never confuses two peers; the text is never cut off.
\<close>

theorem toIpPort_identifies_peer:
  assumes "ntop_ok inet_ntop"
  shows "(toIpPort inet_ntop a = toIpPort inet_ntop b \<longleftrightarrow> sin_addr a = sin_addr b \<and> sin_port a = sin_port b)
    \<and> toIpPort inet_ntop a = toIp inet_ntop a @ '':'' @ shown (uint (getPort a))"
proof
  have ok: "CHR '':'' \<notin> set (inet_ntop n)" "inj inet_ntop" for n using assms by (simp_all add: ntop_ok_def)
  have port: "getPort a = getPort b \<longleftrightarrow> sin_port a = sin_port b"
    unfolding getPort_def by (rule networkToHost16_inj)
  show "toIpPort inet_ntop a = toIpPort inet_ntop b \<longleftrightarrow> sin_addr a = sin_addr b \<and> sin_port a = sin_port b"
  proof
    assume "toIpPort inet_ntop a = toIpPort inet_ntop b"
    then have "inet_ntop (sin_addr a) = inet_ntop (sin_addr b) \<and> shown (uint (getPort a)) = shown (uint (getPort b))"
      unfolding toIpPort_plain [OF assms] by (rule split_at [OF ok(1) ok(1)])
    then show "sin_addr a = sin_addr b \<and> sin_port a = sin_port b"
      using injD [OF ok(2)] port by (auto simp: shown_port_inj)
  qed (simp add: toIpPort_def ip_text_def)
  have "length (inet_ntop (sin_addr a)) \<le> 15" using assms by (simp add: ntop_ok_def)
  then show "toIpPort inet_ntop a = toIp inet_ntop a @ '':'' @ shown (uint (getPort a))"
    using toIpPort_plain [OF assms] by (simp add: toIp_def ip_text_def)
qed

text \<open>The dotted decimal form, for the witness: it is what \<open>inet_ntop\<close> produces.\<close>

lemma digit_at_digit:
  assumes "digit_at d = Ok c" and "d < 10"
  shows "c \<in> set ''0123456789''"
proof -
  have "0 \<le> d" using assms(1) by (simp add: digit_at_def split: if_splits)
  with assms(2) have "d \<in> {0, 1, 2, 3, 4, 5, 6, 7, 8, 9}" by simp presburger
  then show ?thesis using assms(1)
    by (elim insertE emptyE) (simp_all add: digit_at_def digits_def nat_eq_iff numeral_eq_Suc)
qed

lemma convert_digits_set: "convert_digits v = Ok cs \<Longrightarrow> 0 \<le> v \<Longrightarrow> set cs \<subseteq> set ''0123456789''"
proof (induction "nat v" arbitrary: v cs rule: less_induct)
  case less
  obtain c where c: "digit_at (v smod 10) = Ok c"
    using less.prems(1) by (subst (asm) convert_digits.simps) auto
  then have "digit_at (v mod 10) = Ok c" using less.prems(2) by (simp add: smod_10)
  moreover have "v mod 10 < 10" by (rule pos_mod_bound) simp
  ultimately have in_set: "c \<in> set ''0123456789''" by (rule digit_at_digit)
  show ?case
  proof (cases "v < 10")
    case True
    then have "cs = [c]" using less.prems c by (subst (asm) convert_digits.simps) (simp add: sdiv_10)
    then show ?thesis using in_set by simp
  next
    case False
    then have "v div 10 \<noteq> 0" using less.prems(2) by auto
    then obtain ds where ds: "convert_digits (v div 10) = Ok ds" "cs = c # ds"
      using less.prems c by (auto simp: convert_digits.simps [of v] sdiv_10 Let_def)
    have "set ds \<subseteq> set ''0123456789''"
      using less.hyps [OF _ ds(1)] False less.prems(2) by auto
    then show ?thesis using in_set ds(2) by simp
  qed
qed

definition shown_byte :: "byte \<Rightarrow> string" where
  "shown_byte b = shown (uint b)"

lemma uint8_bound: "uint (b :: byte) < 2 ^ 8"
  using uint_bounded [of b] by simp

lemma shown_byte_facts:
  shows "set (shown_byte b) \<subseteq> set ''0123456789''" and "length (shown_byte b) \<le> 3"
    and "shown_byte b = shown_byte c \<Longrightarrow> b = c"
proof -
  obtain cs where cs: "convert_digits (uint b) = Ok cs" using convert_digits_nonneg [of "uint b"] by auto
  then have eq: "shown_byte b = rev cs" by (simp add: shown_byte_def shown_def convert_def)
  show "set (shown_byte b) \<subseteq> set ''0123456789''" using convert_digits_set [OF cs] by (simp add: eq)
  obtain ds where ds: "convert (uint b) = Ok ds"
    "if uint b < 10 then length ds = 1 else 10 ^ (length ds - 1) \<le> uint b"
    using convert_decimal_digits [of "uint b"] by auto
  have "length ds - 1 < 3" if "\<not> uint b < 10"
  proof (rule ccontr)
    assume "\<not> length ds - 1 < 3"
    then have "(10 :: int) ^ 3 \<le> 10 ^ (length ds - 1)" by (intro power_increasing) simp_all
    also have "\<dots> \<le> uint b" using ds(2) that by simp
    finally show False using uint8_bound [of b] by simp
  qed
  then show "length (shown_byte b) \<le> 3" using ds by (cases "uint b < 10") (simp_all add: shown_byte_def shown_def)
  show "b = c" if "shown_byte b = shown_byte c"
  proof (rule word_uint_eqI)
    have "decimal (shown_byte b) = uint b" "decimal (shown_byte c) = uint c"
      using uint8_bound [of b] uint8_bound [of c] by (simp_all add: shown_byte_def decimal_shown)
    then show "uint b = uint c" using that by simp
  qed
qed

fun dotted :: "byte list \<Rightarrow> string" where
  "dotted [] = []"
| "dotted [b] = shown_byte b"
| "dotted (b # bs) = shown_byte b @ ''.'' @ dotted bs"

definition dotted_quad :: "32 word \<Rightarrow> string" where
  "dotted_quad n = dotted (mem_bytes n)"

lemma dotted_inj: "length bs = length cs \<Longrightarrow> dotted bs = dotted cs \<Longrightarrow> bs = cs"
proof (induction bs arbitrary: cs rule: dotted.induct)
  case (2 b)
  then obtain c where "cs = [c]" by (cases cs) auto
  with 2 shown_byte_facts(3) show ?case by auto
next
  case (3 b b' bs)
  then obtain c c' cs' where cs: "cs = c # c' # cs'" by (cases cs rule: remdups_adj.cases) auto
  have no: "CHR ''.'' \<notin> set (shown_byte x)" for x using shown_byte_facts(1) [of x] by auto
  have "shown_byte b @ ''.'' @ dotted (b' # bs) = shown_byte c @ ''.'' @ dotted (c' # cs')"
    using 3(3) by (simp add: cs)
  from split_at [OF no no this] have "shown_byte b = shown_byte c" "dotted (b' # bs) = dotted (c' # cs')" by auto
  moreover have "length (b' # bs) = length (c' # cs')" using 3(2) cs by simp
  ultimately have "b' # bs = c' # cs'" using 3(1) by blast
  with \<open>shown_byte b = shown_byte c\<close> shown_byte_facts(3) show ?case by (simp add: cs)
qed simp

lemma dotted_quad_ok: "ntop_ok dotted_quad"
proof -
  have four: "\<exists>a b c d. mem_bytes n = [a, b, c, d]" for n :: "32 word"
    by (rule exI, rule exI, rule exI, rule exI) (simp add: mem_bytes_def upt_rec)
  have "m = n" if "dotted_quad m = dotted_quad n" for m n
  proof -
    have "mem_bytes m = mem_bytes n" using that by (intro dotted_inj) (simp_all add: dotted_quad_def)
    then have "of_mem (mem_bytes m) = (of_mem (mem_bytes n) :: 32 word)" by simp
    then show ?thesis by simp
  qed
  moreover have "length (dotted_quad n) \<le> 15" for n
  proof -
    obtain a b c d where "mem_bytes n = [a, b, c, d]" using four by blast
    then show ?thesis
      using shown_byte_facts(2) [of a] shown_byte_facts(2) [of b] shown_byte_facts(2) [of c] shown_byte_facts(2) [of d]
      by (simp add: dotted_quad_def)
  qed
  moreover have "CHR '':'' \<notin> set (dotted_quad n)" for n
  proof -
    obtain a b c d where "mem_bytes n = [a, b, c, d]" using four by blast
    then show ?thesis
      using shown_byte_facts(1) [of a] shown_byte_facts(1) [of b] shown_byte_facts(1) [of c] shown_byte_facts(1) [of d]
      by (auto simp: dotted_quad_def)
  qed
  ultimately show ?thesis by (simp add: ntop_ok_def inj_def)
qed

lemma toIpPort_identifies_peer_witness:
  "toIpPort dotted_quad (inet_any 80) = toIp dotted_quad (inet_any 80) @ '':'' @ shown (uint (getPort (inet_any 80)))
    \<and> toIpPort dotted_quad (inet_any 80) \<noteq> toIpPort dotted_quad (inet_any 81)"
proof -
  have "getPort (inet_any 80) = 80" "getPort (inet_any 81) = 81"
    by (simp_all add: getPort_def inet_any_def inet_zero_def hostToNetwork16_def networkToHost16_def)
  then have "sin_port (inet_any 80) \<noteq> sin_port (inet_any 81)" by (auto simp: getPort_def)
  then show ?thesis using toIpPort_identifies_peer [OF dotted_quad_ok] by blast
qed

text \<open>
  A port survives the way through network order, whichever constructor stores it.
\<close>

theorem port_roundtrip:
  "getPort (inet_any port) = port \<and> getPort (inet_of inet_pton ip port) = port
   \<and> mem_bytes (getPortNetEndian (inet_any port)) = be_bytes port"
  by (simp add: getPort_def inet_any_def inet_of_def inet_zero_def getPortNetEndian_def hostToNetwork16_def
      networkToHost16_def be_bytes_def mem_bytes_bswap Let_def split: option.split)

end
