(* ===== verification/UdpConnection.thy ===== *)
theory UdpConnection
  imports TcpConnection
begin

text \<open>
  One UDP connection, \<open>net/udp/UdpConnection.cpp\<close>: a peer of the server's socket with its own
  buffers. Its tasks are the functors it queues in its loop; the result of \<open>sendto\<close> and the effect of
  client callbacks are parameters.
\<close>

section \<open>State and operations\<close>

datatype udp_task = UClose | UWrite | USend "byte list"

record udpconn =
  utid :: nat
  uhere :: nat
  ukey :: string
  connecting :: bool
  writing :: bool
  senderFd :: int
  uactived :: int
  uin :: buffer
  uout :: buffer
  uhooked :: "conn_event set"
  utrace :: "conn_event list"
  datagrams :: "byte list list"
  utasks :: "udp_task list"

text \<open>The constructor; \<open>_connecting\<close> and \<open>_senderFd\<close> are left as the memory holds them.\<close>

definition newUdpConnection :: "nat \<Rightarrow> nat \<Rightarrow> string \<Rightarrow> int \<Rightarrow> bool \<Rightarrow> int \<Rightarrow> buffer \<Rightarrow> udpconn" where
  "newUdpConnection t h key now raw_connecting raw_fd b = \<lparr>utid = t, uhere = h, ukey = key,
     connecting = raw_connecting, writing = False, senderFd = raw_fd, uactived = now, uin = b, uout = b,
     uhooked = {}, utrace = [], datagrams = [], utasks = []\<rparr>"

definition setSenderFd :: "int \<Rightarrow> udpconn \<Rightarrow> udpconn" where
  "setSenderFd fd c = c\<lparr>senderFd := fd\<rparr>"

definition in_udp_loop :: "udpconn \<Rightarrow> 'a res \<Rightarrow> 'a res" where
  "in_udp_loop c k = (if utid c = uhere c then k else Fail FatalAbort)"

definition udp_call :: "(conn_event \<Rightarrow> udpconn \<Rightarrow> udpconn res) \<Rightarrow> conn_event \<Rightarrow> udpconn \<Rightarrow> udpconn res" where
  "udp_call cb ev c = (if ev \<in> uhooked c then cb ev (c\<lparr>utrace := utrace c @ [ev]\<rparr>) else Ok c)"

definition udp_established :: "(conn_event \<Rightarrow> udpconn \<Rightarrow> udpconn res) \<Rightarrow> udpconn \<Rightarrow> udpconn res" where
  "udp_established cb c = in_udp_loop c (udp_call cb ConnectChange (c\<lparr>connecting := True\<rparr>))"

definition udp_closeInLoop :: "(conn_event \<Rightarrow> udpconn \<Rightarrow> udpconn res) \<Rightarrow> udpconn \<Rightarrow> udpconn res" where
  "udp_closeInLoop cb c = in_udp_loop c
     (bindR (udp_call cb ConnectChange (c\<lparr>connecting := False\<rparr>)) (udp_call cb CloseConn))"

definition udp_close :: "(conn_event \<Rightarrow> udpconn \<Rightarrow> udpconn res) \<Rightarrow> udpconn \<Rightarrow> udpconn res" where
  "udp_close cb c =
     (let c1 = c\<lparr>connecting := False\<rparr>
      in if utid c1 = uhere c1 then udp_closeInLoop cb c1 else Ok (c1\<lparr>utasks := utasks c1 @ [UClose]\<rparr>))"

definition udp_handleRead ::
  "(conn_event \<Rightarrow> udpconn \<Rightarrow> udpconn res) \<Rightarrow> int \<Rightarrow> byte list \<Rightarrow> udpconn \<Rightarrow> udpconn res" where
  "udp_handleRead cb now data c = in_udp_loop c
     (bindR (append_bytes data (uin c)) (\<lambda>b.
        let c1 = c\<lparr>uin := b, uactived := now\<rparr>
        in if RecvMessage \<in> uhooked c1 then udp_call cb RecvMessage c1
           else Ok (c1\<lparr>uin := retrieveAll (uin c1)\<rparr>)))"

text \<open>The kernel takes a prefix of the bytes as one datagram.\<close>

definition udp_handleWrite ::
  "(conn_event \<Rightarrow> udpconn \<Rightarrow> udpconn res) \<Rightarrow> (byte list \<Rightarrow> nat sys) \<Rightarrow> udpconn \<Rightarrow> udpconn res" where
  "udp_handleWrite cb sendto c = in_udp_loop c
     (if senderFd c = 0 then Ok c
      else bindR (peekBytes (readableBytes (uout c)) (uout c)) (\<lambda>data.
        case sendto data of
          SysErr e \<Rightarrow> Ok c
        | SysOk n \<Rightarrow>
            if 0 < n then
              bindR (retrieve n (uout c)) (\<lambda>b.
                let c1 = c\<lparr>uout := b, datagrams := datagrams c @ [take n data]\<rparr>
                in if readableBytes b = 0 then udp_call cb WriteComplete (c1\<lparr>writing := False\<rparr>)
                   else Ok (c1\<lparr>utasks := utasks c1 @ [UWrite]\<rparr>))
            else Ok (c\<lparr>datagrams := datagrams c @ [take n data]\<rparr>)))"

definition udp_sendInLoop ::
  "(conn_event \<Rightarrow> udpconn \<Rightarrow> udpconn res) \<Rightarrow> (byte list \<Rightarrow> nat sys) \<Rightarrow> byte list \<Rightarrow> udpconn \<Rightarrow> udpconn res" where
  "udp_sendInLoop cb sendto data c = in_udp_loop c
     (bindR (append_bytes data (uout c)) (\<lambda>b.
        if \<not> writing c then udp_handleWrite cb sendto (c\<lparr>uout := b, writing := True\<rparr>)
        else Ok (c\<lparr>uout := b\<rparr>)))"

text \<open>\<open>Connection::send\<close>.\<close>

definition udp_send ::
  "(conn_event \<Rightarrow> udpconn \<Rightarrow> udpconn res) \<Rightarrow> (byte list \<Rightarrow> nat sys) \<Rightarrow> byte list \<Rightarrow> udpconn \<Rightarrow> udpconn res" where
  "udp_send cb sendto data c =
     (if utid c = uhere c then udp_sendInLoop cb sendto data c
      else Ok (c\<lparr>utasks := utasks c @ [USend data]\<rparr>))"

text \<open>The loop takes the connection's first functor and runs it.\<close>

fun udp_run_next ::
  "(conn_event \<Rightarrow> udpconn \<Rightarrow> udpconn res) \<Rightarrow> (byte list \<Rightarrow> nat sys) \<Rightarrow> udpconn \<Rightarrow> udpconn res" where
  "udp_run_next cb sendto c = (case utasks c of
     [] \<Rightarrow> Ok c
   | UClose # ts \<Rightarrow> udp_closeInLoop cb (c\<lparr>utasks := ts\<rparr>)
   | UWrite # ts \<Rightarrow> udp_handleWrite cb sendto (c\<lparr>utasks := ts\<rparr>)
   | USend data # ts \<Rightarrow> udp_sendInLoop cb sendto data (c\<lparr>utasks := ts\<rparr>))"

section \<open>The output\<close>

text \<open>
  What a connection has taken over: the datagrams and then the buffer. The \<open>send\<close>s of other threads wait
  in the queue of the loop.
\<close>

definition udp_taken :: "udpconn \<Rightarrow> byte list" where
  "udp_taken c = concat (datagrams c) @ content (uout c)"

fun queued_sends :: "udp_task list \<Rightarrow> byte list list" where
  "queued_sends [] = []"
| "queued_sends (USend data # ts) = data # queued_sends ts"
| "queued_sends (UClose # ts) = queued_sends ts"
| "queued_sends (UWrite # ts) = queued_sends ts"

lemma queued_sends_append [simp]: "queued_sends (ts @ us) = queued_sends ts @ queued_sends us"
  by (induction ts rule: queued_sends.induct) simp_all

definition sendto_ok :: "(byte list \<Rightarrow> nat sys) \<Rightarrow> bool" where
  "sendto_ok sendto \<longleftrightarrow> (\<forall>d n. sendto d = SysOk n \<longrightarrow> n \<le> length d)"

abbreviation uquiet :: "conn_event \<Rightarrow> udpconn \<Rightarrow> udpconn res" where
  "uquiet \<equiv> \<lambda>_ c. Ok c"

lemma udp_handleWrite_ok:
  assumes loop: "utid c = uhere c" and b: "buf_inv (uout c)" and s: "sendto_ok sendto"
  obtains c' where "udp_handleWrite uquiet sendto c = Ok c'" and "udp_taken c' = udp_taken c" and "buf_inv (uout c')"
    and "utid c' = utid c" and "uhere c' = uhere c" and "writerIndex (uout c') \<le> writerIndex (uout c)"
    and "\<exists>ts. utasks c' = utasks c @ ts \<and> queued_sends ts = []"
proof -
  let ?d = "content (uout c)"
  have peek: "peekBytes (readableBytes (uout c)) (uout c) = Ok ?d"
    using peekBytes_content [OF b, of "length ?d"] readable_content [OF b] by simp
  show ?thesis
  proof (cases "senderFd c = 0")
    case True
    then have "udp_handleWrite uquiet sendto c = Ok c" using loop by (simp add: udp_handleWrite_def in_udp_loop_def)
    then show ?thesis using that b by simp
  next
    case fd: False
    show ?thesis
    proof (cases "sendto ?d")
      case (SysErr e)
      then have "udp_handleWrite uquiet sendto c = Ok c"
        using loop fd peek by (simp add: udp_handleWrite_def in_udp_loop_def)
      then show ?thesis using that b by simp
    next
      case (SysOk n)
      then have n: "n \<le> length ?d" using s by (simp add: sendto_ok_def)
      show ?thesis
      proof (cases "n = 0")
        case True
        then have "udp_handleWrite uquiet sendto c = Ok (c\<lparr>datagrams := datagrams c @ [[]]\<rparr>)"
          using loop fd peek SysOk by (simp add: udp_handleWrite_def in_udp_loop_def)
        then show ?thesis using that b by (simp add: udp_taken_def)
      next
        case False
        obtain q where q: "retrieve n (uout c) = Ok q" "buf_inv q" "content q = drop n ?d"
          by (rule retrieve_Ok [OF b n])
        have wi: "writerIndex q \<le> writerIndex (uout c)" by (rule retrieve_writerIndex [OF q(1)])
        let ?c1 = "c\<lparr>uout := q, datagrams := datagrams c @ [take n ?d]\<rparr>"
        have st: "concat (datagrams ?c1) @ content (uout ?c1) = concat (datagrams c) @ ?d" using q(3) by simp
        show ?thesis
        proof (cases "readableBytes q = 0")
          case True
          let ?c2 = "?c1\<lparr>writing := False\<rparr>"
          let ?c3 = "if WriteComplete \<in> uhooked c then ?c2\<lparr>utrace := utrace c @ [WriteComplete]\<rparr> else ?c2"
          have "udp_handleWrite uquiet sendto c = Ok ?c3"
            using loop fd peek SysOk False q(1) True by (simp add: udp_handleWrite_def in_udp_loop_def udp_call_def)
          then show ?thesis by (rule that) (use st q(2) wi in \<open>simp_all add: udp_taken_def\<close>)
        next
          case more: False
          let ?c2 = "?c1\<lparr>utasks := utasks c @ [UWrite]\<rparr>"
          have "udp_handleWrite uquiet sendto c = Ok ?c2"
            using loop fd peek SysOk False q(1) more by (simp add: udp_handleWrite_def in_udp_loop_def)
          then show ?thesis by (rule that) (use st q(2) wi in \<open>simp_all add: udp_taken_def\<close>)
        qed
      qed
    qed
  qed
qed


definition pending :: "udpconn \<Rightarrow> nat" where
  "pending c = writerIndex (uout c) + length (concat (queued_sends (utasks c)))"

definition udp_ok :: "udpconn \<Rightarrow> bool" where
  "udp_ok c \<longleftrightarrow> utid c = uhere c \<and> buf_inv (uout c)"

lemma udp_sendInLoop_ok:
  assumes ok: "udp_ok c" and s: "sendto_ok sendto" and room: "writerIndex (uout c) + length data \<le> max_size"
  obtains c' where "udp_sendInLoop uquiet sendto data c = Ok c'" and "udp_ok c'"
    and "udp_taken c' = udp_taken c @ data"
    and "pending c' \<le> pending c + length data" and "queued_sends (utasks c') = queued_sends (utasks c)"
proof -
  have loop: "utid c = uhere c" and b: "buf_inv (uout c)" using ok by (simp_all add: udp_ok_def)
  obtain q where q: "append_bytes data (uout c) = Ok q" "buf_inv q" "content q = content (uout c) @ data"
    "writerIndex q \<le> writerIndex (uout c) + length data" by (rule append_bytes_Ok [OF b room])
  show ?thesis
  proof (cases "writing c")
    case True
    let ?c = "c\<lparr>uout := q\<rparr>"
    have "udp_sendInLoop uquiet sendto data c = Ok ?c"
      using loop q(1) True by (simp add: udp_sendInLoop_def in_udp_loop_def)
    then show ?thesis by (rule that) (use loop q in \<open>simp_all add: udp_ok_def udp_taken_def pending_def\<close>)
  next
    case False
    let ?c = "c\<lparr>uout := q, writing := True\<rparr>"
    have c: "utid ?c = uhere ?c" "buf_inv (uout ?c)" using loop q(2) by simp_all
    obtain c' ts where c': "udp_handleWrite uquiet sendto ?c = Ok c'" "udp_taken c' = udp_taken ?c" "buf_inv (uout c')"
      "utid c' = utid ?c" "uhere c' = uhere ?c" "writerIndex (uout c') \<le> writerIndex (uout ?c)"
      "utasks c' = utasks ?c @ ts" "queued_sends ts = []"
      using udp_handleWrite_ok [OF c s] by metis
    have "udp_sendInLoop uquiet sendto data c = Ok c'"
      using loop q(1) False c'(1) by (simp add: udp_sendInLoop_def in_udp_loop_def)
    then show ?thesis
      by (rule that) (use loop c' q in \<open>simp_all add: udp_ok_def udp_taken_def pending_def del: concat_eq_Nil_conv\<close>)
  qed
qed

lemma udp_closeInLoop_ok:
  assumes "utid c = uhere c"
  obtains c' where "udp_closeInLoop uquiet c = Ok c'" and "udp_taken c' = udp_taken c" and "uout c' = uout c"
    and "utid c' = utid c" and "uhere c' = uhere c" and "utasks c' = utasks c"
  using that assms
  by (cases "ConnectChange \<in> uhooked c"; cases "CloseConn \<in> uhooked c")
    (auto simp: udp_closeInLoop_def in_udp_loop_def udp_call_def udp_taken_def)

lemma udp_run_next_ok:
  assumes ok: "udp_ok c" and s: "sendto_ok sendto" and room: "pending c \<le> max_size"
  obtains c' where "udp_run_next uquiet sendto c = Ok c'" and "udp_ok c'" and "pending c' \<le> pending c"
    and "queued_sends (utasks c') = queued_sends (utasks c) \<and> udp_taken c' = udp_taken c
      \<or> (\<exists>d. queued_sends (utasks c) = d # queued_sends (utasks c') \<and> udp_taken c' = udp_taken c @ d)"
proof (cases "utasks c")
  case Nil
  then show ?thesis using that [of c] ok by simp
next
  case (Cons t ts)
  let ?c = "c\<lparr>utasks := ts\<rparr>"
  have ok1: "utid ?c = uhere ?c" "buf_inv (uout ?c)" using ok by (simp_all add: udp_ok_def)
  show ?thesis
  proof (cases t)
    case UClose
    obtain c' where "udp_closeInLoop uquiet ?c = Ok c'" "udp_taken c' = udp_taken ?c" "uout c' = uout ?c"
      "utid c' = utid ?c" "uhere c' = uhere ?c" "utasks c' = utasks ?c"
      by (rule udp_closeInLoop_ok [OF ok1(1)])
    then show ?thesis
      by (intro that [of c']) (use Cons UClose ok in \<open>simp_all add: udp_taken_def pending_def udp_ok_def\<close>)
  next
    case UWrite
    obtain c' us where c': "udp_handleWrite uquiet sendto ?c = Ok c'" "udp_taken c' = udp_taken ?c" "buf_inv (uout c')"
      "utid c' = utid ?c" "uhere c' = uhere ?c" "writerIndex (uout c') \<le> writerIndex (uout ?c)"
      "utasks c' = utasks ?c @ us" "queued_sends us = []"
      using udp_handleWrite_ok [OF ok1 s] by metis
    then show ?thesis
      by (intro that [of c'])
        (use Cons UWrite ok in \<open>simp_all add: udp_taken_def pending_def udp_ok_def del: concat_eq_Nil_conv\<close>)
  next
    case (USend data)
    have "writerIndex (uout ?c) + length data \<le> max_size" using room Cons USend by (simp add: pending_def)
    then obtain c' where c': "udp_sendInLoop uquiet sendto data ?c = Ok c'" "udp_ok c'" "udp_taken c' = udp_taken ?c @ data"
      "pending c' \<le> pending ?c + length data" "queued_sends (utasks c') = queued_sends (utasks ?c)"
      using udp_sendInLoop_ok [of ?c sendto data] ok1 s by (auto simp: udp_ok_def)
    then show ?thesis
      by (intro that [of c'])
        (use Cons USend in \<open>simp_all add: udp_taken_def pending_def del: concat_eq_Nil_conv\<close>)
  qed
qed

text \<open>
  A run: thread \<open>t\<close>, not the loop's, sends; the loop's own thread sends; the loop runs the next functor;
  thread \<open>t\<close>, any thread, closes. Callbacks leave the connection alone. The code calls \<open>_writeCompleteCallback\<close> as
  the last action of a write, so a callback that sends is the loop's thread sending next.
\<close>

datatype udp_op = Post nat "byte list" | Own "byte list" "byte list \<Rightarrow> nat sys" | Next "byte list \<Rightarrow> nat sys" | Shut nat

fun udp_do :: "udp_op \<Rightarrow> udpconn \<Rightarrow> udpconn res" where
  "udp_do (Post t data) c =
     bindR (udp_send uquiet (\<lambda>_. SysOk 0) data (c\<lparr>uhere := t\<rparr>)) (\<lambda>c'. Ok (c'\<lparr>uhere := uhere c\<rparr>))"
| "udp_do (Own data sendto) c = udp_send uquiet sendto data c"
| "udp_do (Next sendto) c = udp_run_next uquiet sendto c"
| "udp_do (Shut t) c = bindR (udp_close uquiet (c\<lparr>uhere := t\<rparr>)) (\<lambda>c'. Ok (c'\<lparr>uhere := uhere c\<rparr>))"

primrec udp_runs :: "udp_op list \<Rightarrow> udpconn \<Rightarrow> udpconn res" where
  "udp_runs [] c = Ok c"
| "udp_runs (x # xs) c = bindR (udp_do x c) (udp_runs xs)"

fun own_sends :: "udp_op list \<Rightarrow> byte list list" where
  "own_sends [] = []"
| "own_sends (Own d f # xs) = d # own_sends xs"
| "own_sends (x # xs) = own_sends xs"

fun posted_sends :: "udp_op list \<Rightarrow> byte list list" where
  "posted_sends [] = []"
| "posted_sends (Post t d # xs) = d # posted_sends xs"
| "posted_sends (x # xs) = posted_sends xs"

definition udp_given :: "udp_op list \<Rightarrow> nat" where
  "udp_given xs = length (concat (own_sends xs)) + length (concat (posted_sends xs))"

lemma sends_Cons:
  "own_sends (x # xs) = own_sends [x] @ own_sends xs" "posted_sends (x # xs) = posted_sends [x] @ posted_sends xs"
  "udp_given (x # xs) = udp_given [x] + udp_given xs"
  by (cases x; simp add: udp_given_def)+

fun udp_op_ok :: "nat \<Rightarrow> udp_op \<Rightarrow> bool" where
  "udp_op_ok t (Post t' d) \<longleftrightarrow> t' \<noteq> t"
| "udp_op_ok t (Own d f) \<longleftrightarrow> sendto_ok f"
| "udp_op_ok t (Next f) \<longleftrightarrow> sendto_ok f"
| "udp_op_ok t (Shut t') \<longleftrightarrow> True"

lemma udp_utid:
  shows "udp_handleWrite uquiet s c = Ok c' \<Longrightarrow> utid c' = utid c"
    and "udp_sendInLoop uquiet s d c = Ok c' \<Longrightarrow> utid c' = utid c"
    and "udp_run_next uquiet s c = Ok c' \<Longrightarrow> utid c' = utid c"
proof -
  show w: "udp_handleWrite uquiet s c = Ok c' \<Longrightarrow> utid c' = utid c" for c
    by (auto simp: udp_handleWrite_def in_udp_loop_def udp_call_def Let_def split: if_splits sys.splits)
  show d: "udp_sendInLoop uquiet s d c = Ok c' \<Longrightarrow> utid c' = utid c" for c d
    by (auto simp: udp_sendInLoop_def in_udp_loop_def split: if_splits dest!: w)
  show "udp_run_next uquiet s c = Ok c' \<Longrightarrow> utid c' = utid c"
    by (auto simp: udp_closeInLoop_def in_udp_loop_def udp_call_def split: if_splits list.splits udp_task.splits dest!: w d)
qed

text \<open>One step: what it sends is queued, or taken over at once, or it takes over the first queued send.\<close>

lemma udp_do_ok:
  assumes ok: "udp_ok c" and x: "udp_op_ok (utid c) x" and room: "pending c + udp_given [x] \<le> max_size"
  obtains c' where "udp_do x c = Ok c'" and "udp_ok c'" and "pending c' \<le> pending c + udp_given [x]" and "utid c' = utid c"
    and "own_sends [x] = [] \<and> queued_sends (utasks c') = queued_sends (utasks c) @ posted_sends [x] \<and> udp_taken c' = udp_taken c
      \<or> posted_sends [x] = [] \<and> queued_sends (utasks c') = queued_sends (utasks c)
        \<and> (\<exists>d. own_sends [x] = [d] \<and> udp_taken c' = udp_taken c @ d)
      \<or> own_sends [x] = [] \<and> posted_sends [x] = []
        \<and> (\<exists>d. queued_sends (utasks c) = d # queued_sends (utasks c') \<and> udp_taken c' = udp_taken c @ d)"
proof (cases x)
  case (Post t data)
  let ?c = "c\<lparr>utasks := utasks c @ [USend data]\<rparr>"
  have "t \<noteq> utid c" using x Post by simp
  then have "udp_do x c = Ok ?c" using Post by (simp add: udp_send_def)
  then show ?thesis
    by (rule that) (use Post ok in \<open>simp_all add: udp_ok_def udp_taken_def pending_def udp_given_def\<close>)
next
  case (Own data s)
  then have s: "sendto_ok s" using x by simp
  have "writerIndex (uout c) + length data \<le> max_size" using room Own by (simp add: pending_def udp_given_def)
  then obtain c' where c': "udp_sendInLoop uquiet s data c = Ok c'" "udp_ok c'" "udp_taken c' = udp_taken c @ data"
    "pending c' \<le> pending c + length data" "queued_sends (utasks c') = queued_sends (utasks c)"
    by (rule udp_sendInLoop_ok [OF ok s])
  have "udp_do x c = Ok c'" using Own c'(1) ok by (simp add: udp_send_def udp_ok_def)
  then show ?thesis by (rule that) (use Own c' udp_utid(2) [OF c'(1)] in \<open>simp_all add: udp_given_def\<close>)
next
  case (Next s)
  then have s: "sendto_ok s" using x by simp
  have "pending c \<le> max_size" using room by simp
  then obtain c' where c': "udp_run_next uquiet s c = Ok c'" "udp_ok c'" "pending c' \<le> pending c"
    "queued_sends (utasks c') = queued_sends (utasks c) \<and> udp_taken c' = udp_taken c
      \<or> (\<exists>d. queued_sends (utasks c) = d # queued_sends (utasks c') \<and> udp_taken c' = udp_taken c @ d)"
    by (rule udp_run_next_ok [OF ok s])
  have "udp_do x c = Ok c'" using Next c'(1) by simp
  then show ?thesis by (rule that) (use Next c' udp_utid(3) [OF c'(1)] in auto)
next
  case (Shut t)
  show ?thesis
  proof (cases "t = utid c")
    case True
    let ?c = "c\<lparr>uhere := t, connecting := False\<rparr>"
    have loop: "utid ?c = uhere ?c" using True by simp
    obtain c1 where c1: "udp_closeInLoop uquiet ?c = Ok c1" "udp_taken c1 = udp_taken ?c" "uout c1 = uout ?c"
      "utid c1 = utid ?c" "uhere c1 = uhere ?c" "utasks c1 = utasks ?c" by (rule udp_closeInLoop_ok [OF loop])
    have "udp_do x c = Ok (c1\<lparr>uhere := uhere c\<rparr>)" using Shut True c1(1) by (simp add: udp_close_def)
    then show ?thesis
      by (rule that) (use Shut ok c1 in \<open>simp_all add: udp_ok_def udp_taken_def pending_def\<close>)
  next
    case False
    let ?c = "c\<lparr>connecting := False, utasks := utasks c @ [UClose]\<rparr>"
    have "udp_do x c = Ok ?c" using Shut False by (simp add: udp_close_def)
    then show ?thesis by (rule that) (use Shut ok in \<open>simp_all add: udp_ok_def udp_taken_def pending_def\<close>)
  qed
qed

text \<open>
  C23. No byte given to a UDP connection is lost, doubled or reordered inside the process. Take any run
  of sends of the loop's own thread, sends and closes of any threads and functors, whatever \<open>sendto\<close>
  answers, as long as everything sent fits a buffer and callbacks leave the connection alone. Then the
  sends taken over so far are an interleaving of all sends of the loop's thread and of the first of the
  queued ones, both in their order: the datagrams handed to the kernel followed by the output buffer
  have grown by exactly their bytes, and the other queued sends still wait, in their order.
\<close>

theorem udp_output_intact:
  assumes "udp_ok c" and "list_all (udp_op_ok (utid c)) xs" and "pending c + udp_given xs \<le> max_size"
  shows "\<exists>c' n es. udp_runs xs c = Ok c'
    \<and> es \<in> shuffles (own_sends xs) (take n (queued_sends (utasks c) @ posted_sends xs))
    \<and> concat (datagrams c') @ content (uout c') = concat (datagrams c) @ content (uout c) @ concat es
    \<and> queued_sends (utasks c') = drop n (queued_sends (utasks c) @ posted_sends xs)"
proof -
  have "\<exists>c' n es. udp_runs xs c = Ok c'
      \<and> es \<in> shuffles (own_sends xs) (take n (queued_sends (utasks c) @ posted_sends xs))
      \<and> udp_taken c' = udp_taken c @ concat es \<and> queued_sends (utasks c') = drop n (queued_sends (utasks c) @ posted_sends xs)"
    using assms
  proof (induction xs arbitrary: c)
    case Nil
    then show ?case by (intro exI [of _ c] exI [of _ 0] exI [of _ "[]"]) simp
  next
    case (Cons x xs)
    have x: "udp_op_ok (utid c) x" and xs: "list_all (udp_op_ok (utid c)) xs"
      and room: "pending c + udp_given [x] \<le> max_size" "pending c + udp_given [x] + udp_given xs \<le> max_size"
      using Cons.prems(2,3) sends_Cons(3) [of x xs] by simp_all
    obtain c1 where c1: "udp_do x c = Ok c1" "udp_ok c1" "pending c1 \<le> pending c + udp_given [x]" "utid c1 = utid c"
      and how: "own_sends [x] = [] \<and> queued_sends (utasks c1) = queued_sends (utasks c) @ posted_sends [x] \<and> udp_taken c1 = udp_taken c
        \<or> posted_sends [x] = [] \<and> queued_sends (utasks c1) = queued_sends (utasks c)
          \<and> (\<exists>d. own_sends [x] = [d] \<and> udp_taken c1 = udp_taken c @ d)
        \<or> own_sends [x] = [] \<and> posted_sends [x] = []
          \<and> (\<exists>d. queued_sends (utasks c) = d # queued_sends (utasks c1) \<and> udp_taken c1 = udp_taken c @ d)"
      by (rule udp_do_ok [OF Cons.prems(1) x room(1)])
    have "pending c1 + udp_given xs \<le> max_size" using c1(3) room(2) by linarith
    then obtain c' n es where IH: "udp_runs xs c1 = Ok c'"
      "es \<in> shuffles (own_sends xs) (take n (queued_sends (utasks c1) @ posted_sends xs))"
      "udp_taken c' = udp_taken c1 @ concat es" "queued_sends (utasks c') = drop n (queued_sends (utasks c1) @ posted_sends xs)"
      using Cons.IH [OF c1(2)] xs c1(4) by auto
    have run: "udp_runs (x # xs) c = Ok c'" using c1(1) IH(1) by simp
    note split = sends_Cons(1,2) [of x xs]
    from how show ?case
    proof (elim disjE conjE exE)
      assume a: "own_sends [x] = []" "queued_sends (utasks c1) = queued_sends (utasks c) @ posted_sends [x]" "udp_taken c1 = udp_taken c"
      show ?thesis by (intro exI [of _ c'] exI [of _ n] exI [of _ es]) (use run IH a split in simp)
    next
      fix d assume a: "posted_sends [x] = []" "queued_sends (utasks c1) = queued_sends (utasks c)"
        "own_sends [x] = [d]" "udp_taken c1 = udp_taken c @ d"
      show ?thesis
        by (intro exI [of _ c'] exI [of _ n] exI [of _ "d # es"]) (use run IH a split in \<open>auto intro: Cons_in_shuffles_leftI\<close>)
    next
      fix d assume a: "own_sends [x] = []" "posted_sends [x] = []"
        "queued_sends (utasks c) = d # queued_sends (utasks c1)" "udp_taken c1 = udp_taken c @ d"
      show ?thesis
        by (intro exI [of _ c'] exI [of _ "Suc n"] exI [of _ "d # es"]) (use run IH a split in \<open>auto intro: Cons_in_shuffles_rightI\<close>)
    qed
  qed
  then show ?thesis by (simp add: udp_taken_def)
qed

definition demo_udp :: udpconn where
  "demo_udp = setSenderFd 9 (newUdpConnection 0 0 ''10.0.0.1:53'' 0 False 0
     \<lparr>vec = [0, 0], readerIndex = 0, writerIndex = 0\<rparr>)"

lemma demo_udp_ok: "udp_ok demo_udp" "queued_sends (utasks demo_udp) = []" "pending demo_udp = 0"
  by (simp_all add: demo_udp_def udp_ok_def newUdpConnection_def setSenderFd_def buf_inv_def max_size_def pending_def)

lemma udp_output_intact_witness:
  "\<exists>c' n es. udp_runs [Post 3 [1, 2], Own [5] (\<lambda>d. SysOk (min 1 (length d))), Post 4 [7], Shut 0, Next (\<lambda>_. SysErr EWOULDBLOCK)] demo_udp = Ok c'
    \<and> es \<in> shuffles [[5]] (take n [[1, 2], [7]]) \<and> concat (datagrams c') @ content (uout c') = concat es
    \<and> queued_sends (utasks c') = drop n [[1, 2], [7]]"
proof -
  let ?xs = "[Post 3 [1, 2], Own [5] (\<lambda>d. SysOk (min 1 (length d))), Post 4 [7], Shut 0, Next (\<lambda>_. SysErr EWOULDBLOCK)]"
  have "list_all (udp_op_ok (utid demo_udp)) ?xs"
    by (simp add: sendto_ok_def demo_udp_def newUdpConnection_def setSenderFd_def)
  moreover have "pending demo_udp + udp_given ?xs \<le> max_size" by (simp add: demo_udp_ok udp_given_def max_size_def)
  moreover have "datagrams demo_udp = []" "content (uout demo_udp) = []"
    by (simp_all add: demo_udp_def newUdpConnection_def setSenderFd_def content_def)
  ultimately show ?thesis
    using udp_output_intact [OF demo_udp_ok(1), of ?xs] by (simp add: demo_udp_ok(2) del: udp_runs.simps udp_do.simps)
qed

text \<open>
  A UDP connection falls silent for good after one failure: when \<open>sendto\<close> fails or takes nothing
  during a send, \<open>_writing\<close> stays set and no functor is queued, so whatever is sent afterwards is only
  buffered and no datagram leaves, whatever the kernel would answer.
\<close>

theorem udp_silent_after_failure:
  assumes "udp_ok c" and "\<not> writing c" and "utasks c = []" and "senderFd c \<noteq> 0"
    and "sendto (content (uout c) @ data) = SysErr e"
    and "writerIndex (uout c) + length data + length (concat ds) \<le> max_size"
  shows "\<exists>c1 c2. udp_send uquiet sendto data c = Ok c1 \<and> udp_runs (concat (map (\<lambda>d. [Own d s, Next s]) ds)) c1 = Ok c2
    \<and> datagrams c2 = datagrams c \<and> content (uout c2) = content (uout c) @ data @ concat ds"
proof -
  have loop: "utid c = uhere c" and b: "buf_inv (uout c)" using assms(1) by (simp_all add: udp_ok_def)
  have "writerIndex (uout c) + length data \<le> max_size" using assms(6) by simp
  then obtain q where q: "append_bytes data (uout c) = Ok q" "buf_inv q" "content q = content (uout c) @ data"
    "writerIndex q \<le> writerIndex (uout c) + length data" by (rule append_bytes_Ok [OF b])
  let ?c1 = "c\<lparr>uout := q, writing := True\<rparr>"
  have peek: "peekBytes (readableBytes q) q = Ok (content q)"
    using peekBytes_content [OF q(2), of "length (content q)"] readable_content [OF q(2)] by simp
  have "udp_send uquiet sendto data c = Ok ?c1"
    using loop q(1,3) assms(2,4,5) peek
    by (simp add: udp_send_def udp_sendInLoop_def in_udp_loop_def udp_handleWrite_def)
  moreover have "\<exists>c2. udp_runs (concat (map (\<lambda>d. [Own d s, Next s]) ds)) c1 = Ok c2
      \<and> datagrams c2 = datagrams c1 \<and> content (uout c2) = content (uout c1) @ concat ds"
    if "udp_ok c1" "writing c1" "utasks c1 = []" "writerIndex (uout c1) + length (concat ds) \<le> max_size" for c1
    using that
  proof (induction ds arbitrary: c1)
    case Nil
    then show ?case by simp
  next
    case (Cons d ds)
    have b1: "buf_inv (uout c1)" "utid c1 = uhere c1" using Cons.prems(1) by (simp_all add: udp_ok_def)
    have "writerIndex (uout c1) + length d \<le> max_size" using Cons.prems(4) by simp
    then obtain r where r: "append_bytes d (uout c1) = Ok r" "buf_inv r" "content r = content (uout c1) @ d"
      "writerIndex r \<le> writerIndex (uout c1) + length d" by (rule append_bytes_Ok [OF b1(1)])
    let ?c2 = "c1\<lparr>uout := r\<rparr>"
    have step: "udp_do (Own d s) c1 = Ok ?c2" "udp_do (Next s) ?c2 = Ok ?c2"
      using r(1) b1(2) Cons.prems(2,3) by (simp_all add: udp_send_def udp_sendInLoop_def in_udp_loop_def)
    obtain c3 where "udp_runs (concat (map (\<lambda>d. [Own d s, Next s]) ds)) ?c2 = Ok c3"
      "datagrams c3 = datagrams ?c2" "content (uout c3) = content (uout ?c2) @ concat ds"
      using Cons.IH [of ?c2] Cons.prems r(2,4) b1(2) by (auto simp: udp_ok_def)
    then show ?case using step r(3) by simp
  qed
  from this [of ?c1] have "\<exists>c2. udp_runs (concat (map (\<lambda>d. [Own d s, Next s]) ds)) ?c1 = Ok c2
      \<and> datagrams c2 = datagrams c \<and> content (uout c2) = content (uout c) @ data @ concat ds"
    using loop q assms(3,6) by (simp add: udp_ok_def)
  ultimately show ?thesis by blast
qed


lemma udp_silent_after_failure_witness:
  "\<exists>c1 c2. udp_send uquiet (\<lambda>_. SysErr EWOULDBLOCK) [1] demo_udp = Ok c1
    \<and> udp_runs [Own [2] (\<lambda>d. SysOk (length d)), Next (\<lambda>d. SysOk (length d))] c1 = Ok c2
    \<and> datagrams c2 = [] \<and> content (uout c2) = [1, 2]"
proof -
  have "\<not> writing demo_udp" "utasks demo_udp = []" "senderFd demo_udp \<noteq> 0" "writerIndex (uout demo_udp) = 0"
    by (simp_all add: demo_udp_def newUdpConnection_def setSenderFd_def)
  then show ?thesis
    using udp_silent_after_failure [OF demo_udp_ok(1), of "\<lambda>_. SysErr EWOULDBLOCK" "[1]" EWOULDBLOCK "[[2]]" "\<lambda>d. SysOk (length d)"]
    by (simp add: max_size_def) (simp add: demo_udp_def newUdpConnection_def setSenderFd_def content_def)
qed

text \<open>
  A datagram is appended to what the client has left unread; without a message callback it is
  dropped, and in both cases the peer counts as alive from now on.
\<close>

theorem udp_datagram_received:
  assumes "utid c = uhere c" and "buf_inv (uin c)" and "writerIndex (uin c) + length data \<le> max_size"
  shows "\<exists>c'. udp_handleRead uquiet now data c = Ok c' \<and> uactived c' = now \<and> buf_inv (uin c')
    \<and> (if RecvMessage \<in> uhooked c
        then content (uin c') = content (uin c) @ data \<and> utrace c' = utrace c @ [RecvMessage]
        else content (uin c') = [] \<and> utrace c' = utrace c)"
proof -
  obtain q where q: "append_bytes data (uin c) = Ok q" "buf_inv q" "content q = content (uin c) @ data"
    using append_bytes_Ok [OF assms(2,3)] by blast
  have "buf_inv (retrieveAll q)" using q(2) by (rule retrieveAll_spec)
  then show ?thesis
    using assms(1) q by (simp add: udp_handleRead_def in_udp_loop_def udp_call_def Let_def)
qed

lemma udp_datagram_received_witness:
  "\<exists>c'. udp_handleRead uquiet 77 [1, 2] demo_udp = Ok c' \<and> uactived c' = 77 \<and> content (uin c') = []"
proof -
  have "utid demo_udp = uhere demo_udp" "buf_inv (uin demo_udp)" "writerIndex (uin demo_udp) + length [1, 2 :: byte] \<le> max_size"
    "RecvMessage \<notin> uhooked demo_udp"
    by (simp_all add: demo_udp_def newUdpConnection_def setSenderFd_def buf_inv_def max_size_def)
  then show ?thesis using udp_datagram_received [of demo_udp "[1, 2]" 77] by auto
qed

end
