(* ===== verification/Sockets.thy ===== *)
theory Sockets
  imports TcpConnection
begin

text \<open>
  Sockets and the two acceptors: \<open>net/fd/Socket.cpp\<close>, \<open>net/Acceptor.h\<close>, \<open>net/tcp/TcpAcceptor.cpp\<close> and
  \<open>net/udp/UdpAcceptor.cpp\<close> over the descriptors of theory \<open>Poller\<close>. The answers of the system calls are
  parameters.
\<close>

section \<open>\<open>Socket\<close>\<close>

text \<open>\<open>p\<close> is the address of the new object, \<open>raw\<close> what its memory holds where the observer will be.\<close>

definition socket_create :: "nat \<Rightarrow> 32 word sys \<Rightarrow> nat option \<Rightarrow> netw \<Rightarrow> netw res" where
  "socket_create p sys_socket raw w = (case sys_socket of
     SysErr e \<Rightarrow> Fail FatalAbort
   | SysOk fd \<Rightarrow> Ok (putFd p (newIOFd fd raw) w))"

text \<open>\<open>bind\<close> and \<open>listen\<close>: an error is fatal.\<close>

definition socket_checked :: "unit sys \<Rightarrow> netw \<Rightarrow> netw res" where
  "socket_checked ret w = (case ret of SysErr e \<Rightarrow> Fail FatalAbort | SysOk _ \<Rightarrow> Ok w)"

definition socket_accept :: "32 word sys \<Rightarrow> 32 word res" where
  "socket_accept sys_accept = (case sys_accept of SysErr e \<Rightarrow> Fail FatalAbort | SysOk connfd \<Rightarrow> Ok connfd)"

text \<open>The pending error of a socket; reading it clears it (\<open>SO_ERROR\<close>).\<close>

definition getSocketError :: "nat sys \<Rightarrow> nat" where
  "getSocketError sys_getsockopt = (case sys_getsockopt of SysErr e \<Rightarrow> e | SysOk optval \<Rightarrow> optval)"

definition setObserver :: "nat \<Rightarrow> nat option \<Rightarrow> netw \<Rightarrow> netw res" where
  "setObserver p ob w = bindR (fdAt p w) (\<lambda>f. Ok (putFd p (f\<lparr>observer := ob\<rparr>) w))"

section \<open>Opening and closing a watched socket\<close>

definition fresh_fd :: "nat \<Rightarrow> 32 word \<Rightarrow> netw \<Rightarrow> bool" where
  "fresh_fd p fd w \<longleftrightarrow> iofds w p = None \<and> (\<forall>q f. iofds w q = Some f \<longrightarrow> fdno f \<noteq> fd)"

lemma watch_inv_new:
  assumes "watch_inv w" and "fresh_fd p fd w" and "status g = NEW" and "events g = 0" and "fdno g = fd"
  shows "watch_inv (putFd p g w)"
  by (rule watch_inv_idle [OF assms(1), of p]) (use assms in \<open>auto simp: fresh_fd_def\<close>)

lemma attach_new:
  assumes inv: "watch_inv w" and f: "iofds w p = Some f" "looper f = None" and here: "loop_tid w l = here w"
  shows "attachInLoop l p w = Ok (putFd p (f\<lparr>looper := Some l\<rparr>) w)" and "watch_inv (putFd p (f\<lparr>looper := Some l\<rparr>) w)"
proof -
  note idle = unattached_idle [OF inv f]
  show "attachInLoop l p w = Ok (putFd p (f\<lparr>looper := Some l\<rparr>) w)"
    using f here idle(1) by (simp add: attachInLoop_def assertInLoopThread_def)
  show "watch_inv (putFd p (f\<lparr>looper := Some l\<rparr>) w)"
    by (rule watch_inv_idle [OF inv, of p]) (use f idle in \<open>auto dest: watch_invD(3) [OF inv _ f(1)]\<close>)
qed

text \<open>Enabling an attached descriptor for the first time.\<close>

lemma enable_new:
  assumes inv: "watch_inv w" and f: "iofds w p = Some f" "looper f = Some l" "events f = 0" and here: "loop_tid w l = here w"
  obtains w1 where "enableRead p w = Ok w1" and "watch_inv w1" and "here w1 = here w" and "loop_tid w1 = loop_tid w"
    and "iofds w1 p = Some (f\<lparr>events := kReadEvent, status := ADDED\<rparr>)" and "\<And>q. q \<noteq> p \<Longrightarrow> iofds w1 q = iofds w q"
proof -
  obtain ep where ep: "set_events p f kReadEvent w = Ok (putPoller l ep (putFd p (f\<lparr>events := kReadEvent, status := ADDED\<rparr>) w))"
    "watch_inv (putPoller l ep (putFd p (f\<lparr>events := kReadEvent, status := ADDED\<rparr>) w))"
    using set_events_ok [OF inv f(1,2) here, of kReadEvent] by auto
  have "enableRead p w = Ok (putPoller l ep (putFd p (f\<lparr>events := kReadEvent, status := ADDED\<rparr>) w))"
    using f ep(1) by (simp add: enableRead_def isReading_def)
  then show ?thesis by (rule that) (use ep(2) in simp_all)
qed

lemma enable_write_new:
  assumes inv: "watch_inv w" and f: "iofds w p = Some f" "looper f = Some l" "events f = 0" and here: "loop_tid w l = here w"
  obtains w1 where "enableWrite p w = Ok w1" and "watch_inv w1" and "here w1 = here w" and "loop_tid w1 = loop_tid w"
    and "iofds w1 p = Some (f\<lparr>events := kWriteEvent, status := ADDED\<rparr>)" and "\<And>q. q \<noteq> p \<Longrightarrow> iofds w1 q = iofds w q"
proof -
  obtain ep where ep: "set_events p f kWriteEvent w = Ok (putPoller l ep (putFd p (f\<lparr>events := kWriteEvent, status := ADDED\<rparr>) w))"
    "watch_inv (putPoller l ep (putFd p (f\<lparr>events := kWriteEvent, status := ADDED\<rparr>) w))"
    using set_events_ok [OF inv f(1,2) here, of kWriteEvent] by auto
  have "enableWrite p w = Ok (putPoller l ep (putFd p (f\<lparr>events := kWriteEvent, status := ADDED\<rparr>) w))"
    using f ep(1) by (simp add: enableWrite_def isWriting_def)
  then show ?thesis by (rule that) (use ep(2) in simp_all)
qed

text \<open>The two steps by which a socket that is not being handled goes away.\<close>

definition release_socket :: "nat \<Rightarrow> netw \<Rightarrow> netw res" where
  "release_socket p w = bindR (detachInLoop p w) (\<lambda>(b, w1). deleteIOFd p w1)"

text \<open>Other descriptors are left alone.\<close>

lemma release_socket_frame:
  assumes "release_socket p w = Ok w1" and "q \<noteq> p"
  shows "iofds w1 q = iofds w q"
proof -
  have upd: "iofds w' q = iofds v q" if "loop_updateFd l p v = Ok w'" for l v w'
    using that assms(2) by (auto simp: loop_updateFd_def assertInLoopThread_def assertR_eq_Ok split: if_splits)
  have rem: "iofds w' q = iofds v q" if "loop_removeFd l p v = Ok w'" for l v w'
    using that assms(2) by (auto simp: loop_removeFd_def assertInLoopThread_def assertR_eq_Ok split: if_splits)
  have dis: "iofds w' q = iofds v q" if "disableAll p v = Ok w'" for v w'
    using that assms(2)
    by (auto simp: disableAll_def set_events_def fd_update_def split: if_splits option.splits dest!: upd)
  have det: "iofds w' q = iofds v q" if "detachInLoop p v = Ok (b, w')" for b v w'
    using that assms(2)
    by (auto simp: detachInLoop_def assertInLoopThread_def split: if_splits option.splits dest!: rem dis)
  have del: "iofds w' q = iofds v q" if "deleteIOFd p v = Ok w'" for v w'
    using that assms(2) by (auto simp: deleteIOFd_def assertR_eq_Ok)
  show ?thesis using assms(1) by (auto simp: release_socket_def dest!: det del)
qed

lemma delete_idle:
  assumes inv: "watch_inv w" and f: "iofds w p = Some f" "looper f = None" "\<not> handling f"
  shows "deleteIOFd p w = Ok (w\<lparr>iofds := (iofds w)(p := None)\<rparr>)" and "watch_inv (w\<lparr>iofds := (iofds w)(p := None)\<rparr>)"
proof -
  note idle = unattached_idle [OF inv f(1,2)]
  show "watch_inv (w\<lparr>iofds := (iofds w)(p := None)\<rparr>)"
    by (rule watch_inv_idle [OF inv, of p]) (use f idle in auto)
  show "deleteIOFd p w = Ok (w\<lparr>iofds := (iofds w)(p := None)\<rparr>)"
    using f idle by (simp add: deleteIOFd_def isNoneEvent_def)
qed

lemma release_socket_ok:
  assumes inv: "watch_inv w" and f: "iofds w p = Some f" "\<not> handling f" and th: "on_thread p w"
  obtains w1 where "release_socket p w = Ok w1" and "watch_inv w1" and "iofds w1 p = None"
    and "here w1 = here w" and "loop_tid w1 = loop_tid w"
proof -
  obtain b w1 g where g: "detachInLoop p w = Ok (b, w1)" "watch_inv w1" "iofds w1 p = Some g" "looper g = None"
    "handling g = handling f" "here w1 = here w" "loop_tid w1 = loop_tid w"
    using detach_ok [OF inv th f(1)] by blast
  have "\<not> handling g" using g(5) f(2) by simp
  note d = delete_idle [OF g(2-4) this]
  show ?thesis by (rule that [of "w1\<lparr>iofds := (iofds w1)(p := None)\<rparr>"]) (use g d in \<open>simp_all add: release_socket_def\<close>)
qed

lemma release_handled_socket:
  assumes inv: "watch_inv w" and f: "iofds w p = Some f" "handling f" and th: "on_thread p w"
  shows "release_socket p w = Fail AssertFail"
proof -
  obtain b w1 g where g: "detachInLoop p w = Ok (b, w1)" "iofds w1 p = Some g" "handling g = handling f"
    using detach_ok [OF inv th f(1)] by blast
  then show ?thesis using f(2) by (simp add: release_socket_def deleteIOFd_def)
qed

section \<open>The acceptors\<close>

record acceptor =
  anet :: netw
  aloop :: nat
  listening :: bool
  asocket :: "nat option"
  acallback :: bool
  abuffer :: buffer

definition newAcceptor :: "nat \<Rightarrow> buffer \<Rightarrow> netw \<Rightarrow> acceptor" where
  "newAcceptor l b w = \<lparr>anet = w, aloop = l, listening = False, asocket = None, acallback = False, abuffer = b\<rparr>"

definition in_acceptor_loop :: "acceptor \<Rightarrow> 'a res \<Rightarrow> 'a res" where
  "in_acceptor_loop a k = (if loop_tid (anet a) (aloop a) = here (anet a) then k else Fail FatalAbort)"

text \<open>\<open>_socket.reset\<close> with a new socket deletes the old one, if there is one.\<close>

definition drop_old :: "nat option \<Rightarrow> netw \<Rightarrow> netw res" where
  "drop_old old w = (case old of None \<Rightarrow> Ok w | Some q \<Rightarrow> deleteIOFd q w)"

definition tcp_listenInLoop ::
  "nat \<Rightarrow> 32 word sys \<Rightarrow> nat option \<Rightarrow> unit sys \<Rightarrow> unit sys \<Rightarrow> acceptor \<Rightarrow> acceptor res" where
  "tcp_listenInLoop p sys_socket raw sys_bind sys_listen a = in_acceptor_loop a
     (if listening a then Ok a
      else
        bindR (socket_create p sys_socket raw (anet a)) (\<lambda>w.
        bindR (drop_old (asocket a) w) (\<lambda>w.
        bindR (setObserver p (Some p) w) (\<lambda>w.
        bindR (attachInLoop (aloop a) p w) (\<lambda>w.
        bindR (socket_checked sys_bind w) (\<lambda>w.
        bindR (enableRead p w) (\<lambda>w.
        bindR (socket_checked sys_listen w) (\<lambda>w.
          Ok (a\<lparr>anet := w, listening := True, asocket := Some p\<rparr>)))))))))"

definition udp_listenInLoop ::
  "nat \<Rightarrow> 32 word sys \<Rightarrow> nat option \<Rightarrow> unit sys \<Rightarrow> acceptor \<Rightarrow> acceptor res" where
  "udp_listenInLoop p sys_socket raw sys_bind a = in_acceptor_loop a
     (if listening a then Ok a
      else
        bindR (socket_create p sys_socket raw (anet a)) (\<lambda>w.
        bindR (drop_old (asocket a) w) (\<lambda>w.
        bindR (attachInLoop (aloop a) p w) (\<lambda>w.
        bindR (setObserver p (Some p) w) (\<lambda>w.
        bindR (socket_checked sys_bind w) (\<lambda>w.
        bindR (enableRead p w) (\<lambda>w.
          Ok (a\<lparr>anet := w, listening := True, asocket := Some p\<rparr>))))))))"

text \<open>\<open>stopInLoop\<close> is the same in both.\<close>

definition acceptor_stopInLoop :: "acceptor \<Rightarrow> acceptor res" where
  "acceptor_stopInLoop a = in_acceptor_loop a
     (let a1 = a\<lparr>listening := False\<rparr>
      in case asocket a1 of
           None \<Rightarrow> Ok a1
         | Some p \<Rightarrow> bindR (release_socket p (anet a1)) (\<lambda>w. Ok (a1\<lparr>anet := w, asocket := None\<rparr>)))"

text \<open>
  \<open>handleReadInLoop\<close> of the TCP acceptor: what becomes of the accepted descriptor. The branch for an
  error starts after \<open>Socket::accept\<close>, which does not return one.
\<close>

datatype accepted = HandedOver "32 word" | ClosedFd "32 word"

definition tcp_accept :: "32 word sys \<Rightarrow> acceptor \<Rightarrow> accepted res" where
  "tcp_accept sys_accept a = in_acceptor_loop a
     (if asocket a = None then Fail NullDeref
      else bindR (socket_accept sys_accept) (\<lambda>connfd.
             Ok (if acallback a then HandedOver connfd else ClosedFd connfd)))"

text \<open>
  \<open>handleReadInLoop\<close> of the UDP acceptor; \<open>recv\<close> is the message callback, which takes what it wants out of
  the buffer.
\<close>

definition udp_accept ::
  "(nat \<Rightarrow> byte list sys) \<Rightarrow> (buffer \<Rightarrow> buffer res) \<Rightarrow> acceptor \<Rightarrow> acceptor res" where
  "udp_accept recvfrom recv a = in_acceptor_loop a
     (if asocket a = None then Fail NullDeref
      else bindR (readFrom recvfrom (abuffer a)) (\<lambda>(n, b).
           bindR (if acallback a then recv b else Ok b) (\<lambda>b1. Ok (a\<lparr>abuffer := retrieveAll b1\<rparr>))))"


section \<open>Properties\<close>

lemma setObserver_ok [simp]: "iofds w p = Some f \<Longrightarrow> setObserver p ob w = Ok (putFd p (f\<lparr>observer := ob\<rparr>) w)"
  by (simp add: setObserver_def)

text \<open>
  The socket of a listening acceptor: attached to the acceptor's loop, watched for reading, observed by
  the acceptor, not being handled.
\<close>

definition listens :: "nat \<Rightarrow> acceptor \<Rightarrow> bool" where
  "listens p a \<longleftrightarrow> watch_inv (anet a) \<and> loop_tid (anet a) (aloop a) = here (anet a) \<and> listening a \<and> asocket a = Some p
     \<and> (\<exists>f. iofds (anet a) p = Some f \<and> looper f = Some (aloop a) \<and> events f = kReadEvent \<and> observer f = Some p
          \<and> \<not> handling f)"

lemma tcp_listen_ok:
  assumes inv: "watch_inv (anet a)" and here: "loop_tid (anet a) (aloop a) = here (anet a)"
    and idle: "\<not> listening a" "asocket a = None" and p: "fresh_fd p fd (anet a)"
  obtains a1 where "tcp_listenInLoop p (SysOk fd) raw (SysOk ()) (SysOk ()) a = Ok a1" and "listens p a1"
proof -
  let ?f = "(newIOFd fd raw)\<lparr>observer := Some p\<rparr>" and ?w = "anet a"
  let ?w0 = "putFd p ?f ?w"
  have w0: "watch_inv ?w0" "iofds ?w0 p = Some ?f" "looper ?f = None" "loop_tid ?w0 (aloop a) = here ?w0"
    using watch_inv_new [OF inv p, of ?f] here by (simp_all add: newIOFd_def)
  note att = attach_new [OF w0]
  let ?g = "?f\<lparr>looper := Some (aloop a)\<rparr>"
  let ?w1 = "putFd p ?g ?w0"
  have g: "iofds ?w1 p = Some ?g" "looper ?g = Some (aloop a)" "events ?g = 0" "loop_tid ?w1 (aloop a) = here ?w1"
    using here by (simp_all add: newIOFd_def)
  obtain w2 where w2: "enableRead p ?w1 = Ok w2" "watch_inv w2" "here w2 = here ?w1" "loop_tid w2 = loop_tid ?w1"
    "iofds w2 p = Some (?g\<lparr>events := kReadEvent, status := ADDED\<rparr>)"
    using enable_new [OF att(2) g] by blast
  have "tcp_listenInLoop p (SysOk fd) raw (SysOk ()) (SysOk ()) a = Ok (a\<lparr>anet := w2, listening := True, asocket := Some p\<rparr>)"
    using here idle att(1) w2(1) by (simp add: tcp_listenInLoop_def in_acceptor_loop_def socket_create_def drop_old_def socket_checked_def)
  then show ?thesis by (rule that) (use w2 here in \<open>simp add: listens_def newIOFd_def\<close>)
qed

lemma udp_listen_ok:
  assumes inv: "watch_inv (anet a)" and here: "loop_tid (anet a) (aloop a) = here (anet a)"
    and idle: "\<not> listening a" "asocket a = None" and p: "fresh_fd p fd (anet a)"
  obtains a1 where "udp_listenInLoop p (SysOk fd) raw (SysOk ()) a = Ok a1" and "listens p a1"
proof -
  let ?f = "newIOFd fd raw" and ?w = "anet a"
  let ?w0 = "putFd p ?f ?w"
  have w0: "watch_inv ?w0" "iofds ?w0 p = Some ?f" "looper ?f = None" "loop_tid ?w0 (aloop a) = here ?w0"
    using watch_inv_new [OF inv p, of ?f] here by (simp_all add: newIOFd_def)
  note att = attach_new [OF w0]
  let ?g = "?f\<lparr>looper := Some (aloop a), observer := Some p\<rparr>"
  let ?w1 = "putFd p ?g ?w"
  have old: "status f = NEW" if "iofds ?w0 p = Some f" for f using that by (auto simp: newIOFd_def)
  have "watch_inv ?w1"
    by (rule watch_inv_idle [OF w0(1) old, of p]) (use p in \<open>auto simp: newIOFd_def fresh_fd_def\<close>)
  moreover have g: "iofds ?w1 p = Some ?g" "looper ?g = Some (aloop a)" "events ?g = 0" "loop_tid ?w1 (aloop a) = here ?w1"
    using here by (simp_all add: newIOFd_def)
  ultimately obtain w2 where w2: "enableRead p ?w1 = Ok w2" "watch_inv w2" "here w2 = here ?w1" "loop_tid w2 = loop_tid ?w1"
    "iofds w2 p = Some (?g\<lparr>events := kReadEvent, status := ADDED\<rparr>)"
    using enable_new [OF _ g] by blast
  have "udp_listenInLoop p (SysOk fd) raw (SysOk ()) a = Ok (a\<lparr>anet := w2, listening := True, asocket := Some p\<rparr>)"
    using here idle att(1) w2(1) by (simp add: udp_listenInLoop_def in_acceptor_loop_def socket_create_def drop_old_def socket_checked_def)
  then show ?thesis by (rule that) (use w2 here in \<open>simp add: listens_def newIOFd_def\<close>)
qed

lemma stop_ok:
  assumes "listens p a"
  obtains a2 where "acceptor_stopInLoop a = Ok a2" and "watch_inv (anet a2)" and "iofds (anet a2) p = None"
    and "\<not> listening a2" and "asocket a2 = None"
proof -
  obtain f where f: "iofds (anet a) p = Some f" "looper f = Some (aloop a)" "\<not> handling f"
    and a: "watch_inv (anet a)" "loop_tid (anet a) (aloop a) = here (anet a)" "asocket a = Some p"
    using assms by (auto simp: listens_def)
  have "on_thread p (anet a)" using f a(2) by (simp add: on_thread_def)
  then obtain w where w: "release_socket p (anet a) = Ok w" "watch_inv w" "iofds w p = None"
    using release_socket_ok [OF a(1) f(1,3)] by blast
  have "acceptor_stopInLoop a = Ok (a\<lparr>listening := False, anet := w, asocket := None\<rparr>)"
    using a(2,3) w(1) by (simp add: acceptor_stopInLoop_def in_acceptor_loop_def)
  then show ?thesis by (rule that) (use w in simp_all)
qed

text \<open>
  In the loop's thread \<open>listenInLoop\<close> of both acceptors registers the new socket for reading with the
  acceptor as observer, a second call changes nothing, and \<open>stopInLoop\<close> unregisters and deletes the
  socket without an assertion failing.
\<close>

theorem acceptor_listens_and_stops:
  assumes "watch_inv (anet a)" and "loop_tid (anet a) (aloop a) = here (anet a)"
    and "\<not> listening a" and "asocket a = None" and "fresh_fd p fd (anet a)"
    and "lis \<in> {tcp_listenInLoop p (SysOk fd) raw (SysOk ()) (SysOk ()), udp_listenInLoop p (SysOk fd) raw (SysOk ())}"
  shows "\<exists>a1 a2. lis a = Ok a1 \<and> listens p a1 \<and> lis a1 = Ok a1
    \<and> acceptor_stopInLoop a1 = Ok a2 \<and> watch_inv (anet a2) \<and> iofds (anet a2) p = None \<and> \<not> listening a2 \<and> asocket a2 = None"
proof -
  obtain a1 where a1: "lis a = Ok a1" "listens p a1"
    using assms(6) tcp_listen_ok [OF assms(1-5)] udp_listen_ok [OF assms(1-5)] by blast
  have "lis a1 = Ok a1"
    using assms(6) a1(2) by (auto simp: listens_def tcp_listenInLoop_def udp_listenInLoop_def in_acceptor_loop_def)
  moreover obtain a2 where "acceptor_stopInLoop a1 = Ok a2" "watch_inv (anet a2)" "iofds (anet a2) p = None"
    "\<not> listening a2" "asocket a2 = None" by (rule stop_ok [OF a1(2)])
  ultimately show ?thesis using a1 by blast
qed

definition demo_acceptor :: acceptor where
  "demo_acceptor = newAcceptor 0 \<lparr>vec = [0, 0], readerIndex = 0, writerIndex = 0\<rparr> demo_net"

lemma acceptor_listens_and_stops_witness:
  "\<exists>a1 a2. tcp_listenInLoop 2 (SysOk 8) None (SysOk ()) (SysOk ()) demo_acceptor = Ok a1
    \<and> acceptor_stopInLoop a1 = Ok a2 \<and> iofds (anet a2) 2 = None"
proof -
  have "watch_inv (anet demo_acceptor)" "loop_tid (anet demo_acceptor) (aloop demo_acceptor) = here (anet demo_acceptor)"
    "\<not> listening demo_acceptor" "asocket demo_acceptor = None" "fresh_fd 2 8 (anet demo_acceptor)"
    using demo_net_ok by (auto simp: demo_acceptor_def newAcceptor_def demo_net_def idle_net_def newIOFd_def fresh_fd_def)
  from acceptor_listens_and_stops [OF this, of "tcp_listenInLoop 2 (SysOk 8) None (SysOk ()) (SysOk ())" None]
  show ?thesis by blast
qed

text \<open>
  The recovery from running out of descriptors is dead code: any error of \<open>accept\<close>, \<open>EMFILE\<close> or a
  transient one, ends the process before \<open>handleReadInLoop\<close> can look at it.
\<close>

theorem accept_error_is_fatal:
  assumes "listens p a"
  shows "tcp_accept (SysErr e) a = Fail FatalAbort"
  using assms by (simp add: listens_def tcp_accept_def in_acceptor_loop_def socket_accept_def)

text \<open>
  The message callback of the UDP acceptor sees each datagram alone, and whatever it leaves in the
  buffer is dropped before the next one.
\<close>

theorem udp_datagram_seen_alone:
  assumes "listens p a" and "acallback a" and "buf_inv (abuffer a)" and "content (abuffer a) = []"
    and "writerIndex (abuffer a) + 65536 \<le> max_size" and "recvfrom 65536 = SysOk data" and "length data \<le> 65536"
  shows "\<exists>b. buf_inv b \<and> content b = data
    \<and> (case recv b of Inl e \<Rightarrow> udp_accept recvfrom recv a = Fail e
        | Inr b1 \<Rightarrow> \<exists>a'. udp_accept recvfrom recv a = Ok a' \<and> content (abuffer a') = [])"
proof -
  obtain b where "readFrom recvfrom (abuffer a) = Ok (int (length data), b)" "buf_inv b" "content b = content (abuffer a) @ data"
    using readFrom_delivers [of "abuffer a" recvfrom data] assms(3,5-7) by blast
  then show ?thesis
    using assms(1,2,4) by (intro exI [of _ b]) (simp add: listens_def udp_accept_def in_acceptor_loop_def split: sum.split)
qed


lemma demo_listening: "\<exists>a1. listens 2 a1 \<and> abuffer a1 = abuffer demo_acceptor"
proof -
  let ?a = "demo_acceptor"
  have a: "watch_inv (anet ?a)" "loop_tid (anet ?a) (aloop ?a) = here (anet ?a)"
    "\<not> listening ?a" "asocket ?a = None" "fresh_fd 2 8 (anet ?a)"
    using demo_net_ok by (auto simp: demo_acceptor_def newAcceptor_def demo_net_def idle_net_def newIOFd_def fresh_fd_def)
  obtain a1 where "listens 2 a1" using tcp_listen_ok [OF a] by blast
  then show ?thesis by (intro exI [of _ "a1\<lparr>abuffer := abuffer ?a\<rparr>"]) (simp add: listens_def)
qed

lemma accept_error_is_fatal_witness: "\<exists>a. asocket a = Some 2 \<and> tcp_accept (SysErr 24) a = Fail FatalAbort"
  using demo_listening accept_error_is_fatal [of 2 _ 24] by (auto simp: listens_def)

lemma udp_datagram_seen_alone_witness:
  "\<exists>a a'. udp_accept (\<lambda>_. SysOk [1, 2]) Ok a = Ok a' \<and> content (abuffer a') = []"
proof -
  obtain a1 where a1: "listens 2 a1" "abuffer a1 = abuffer demo_acceptor" using demo_listening by blast
  let ?a = "a1\<lparr>acallback := True\<rparr>"
  have "listens 2 ?a" "acallback ?a" using a1(1) by (simp_all add: listens_def)
  moreover have "buf_inv (abuffer ?a)" "content (abuffer ?a) = []" "writerIndex (abuffer ?a) + 65536 \<le> max_size"
    using a1(2) by (simp_all add: demo_acceptor_def newAcceptor_def buf_inv_def max_size_def content_def)
  ultimately show ?thesis
    using udp_datagram_seen_alone [of 2 ?a "\<lambda>_. SysOk [1, 2]" "[1, 2]" Ok] by auto
qed

end
