(* ===== verification/SocketOptions.thy ===== *)
theory SocketOptions
  imports Sockets
begin

text \<open>
  What \<open>net/fd/Socket.cpp\<close> sets on a descriptor in the kernel: the flags a new socket gets, the four
  options, and the options an acceptor sets before it binds. The kernel's table of descriptors is part
  of the state; whether it grants an option is a parameter.
\<close>

section \<open>Flags and options\<close>

text \<open>The options \<open>SO_KEEPALIVE\<close>, \<open>TCP_NODELAY\<close>, \<open>SO_REUSEADDR\<close> and \<open>SO_REUSEPORT\<close>.\<close>

datatype sockopt = KeepAlive | NoDelay | ReuseAddr | ReusePort

record ksock =
  flflags :: "32 word"
  fdflags :: "32 word"
  kopts :: "sockopt \<Rightarrow> int"

type_synonym ksocks = "32 word \<Rightarrow> ksock option"

definition SOCK_NONBLOCK :: "32 word" where
  "SOCK_NONBLOCK = 2048"

definition FD_CLOEXEC :: "32 word" where
  "FD_CLOEXEC = 1"

text \<open>\<open>Socket::create\<close> after \<open>socket\<close>: both flags are read, completed and written back.\<close>

definition create_flags :: "32 word \<Rightarrow> ksocks \<Rightarrow> ksocks" where
  "create_flags fd K = (case K fd of
     None \<Rightarrow> K
   | Some k \<Rightarrow> K(fd \<mapsto> k\<lparr>flflags := or (flflags k) SOCK_NONBLOCK, fdflags := or (fdflags k) FD_CLOEXEC\<rparr>))"

text \<open>\<open>setsockopt\<close> of an integer option; \<open>grants\<close> says which options the kernel accepts.\<close>

definition setsockopt :: "(sockopt \<Rightarrow> bool) \<Rightarrow> 32 word \<Rightarrow> sockopt \<Rightarrow> int \<Rightarrow> ksocks \<Rightarrow> int \<times> ksocks" where
  "setsockopt grants fd opt optval K = (case K fd of
     None \<Rightarrow> (- 1, K)
   | Some k \<Rightarrow> if grants opt then (0, K(fd \<mapsto> k\<lparr>kopts := (kopts k)(opt := optval)\<rparr>)) else (- 1, K))"

definition setKeepAlive :: "(sockopt \<Rightarrow> bool) \<Rightarrow> 32 word \<Rightarrow> bool \<Rightarrow> ksocks \<Rightarrow> ksocks" where
  "setKeepAlive grants fd on K = snd (setsockopt grants fd KeepAlive (if on then 1 else 0) K)"

definition setTcpNoDelay :: "(sockopt \<Rightarrow> bool) \<Rightarrow> 32 word \<Rightarrow> bool \<Rightarrow> ksocks \<Rightarrow> ksocks" where
  "setTcpNoDelay grants fd on K = snd (setsockopt grants fd NoDelay (if on then 1 else 0) K)"

definition setReuseAddr :: "(sockopt \<Rightarrow> bool) \<Rightarrow> 32 word \<Rightarrow> bool \<Rightarrow> ksocks \<Rightarrow> ksocks" where
  "setReuseAddr grants fd on K = snd (setsockopt grants fd ReuseAddr (if on then 1 else 0) K)"

text \<open>\<open>setReusePort\<close> also says whether it logs that the option is not supported.\<close>

definition setReusePort :: "(sockopt \<Rightarrow> bool) \<Rightarrow> 32 word \<Rightarrow> bool \<Rightarrow> ksocks \<Rightarrow> bool \<times> ksocks" where
  "setReusePort grants fd on K =
     (let (ret, K1) = setsockopt grants fd ReusePort (if on then 1 else 0) K in (ret < 0 \<and> on, K1))"

text \<open>What an acceptor does to its new socket before \<open>bind\<close>.\<close>

definition listen_options :: "(sockopt \<Rightarrow> bool) \<Rightarrow> 32 word \<Rightarrow> bool \<Rightarrow> ksocks \<Rightarrow> bool \<times> ksocks" where
  "listen_options grants fd reusePort K = setReusePort grants fd reusePort (setReuseAddr grants fd True (create_flags fd K))"

section \<open>What a listening socket has\<close>

lemma create_flags_at: "K fd = Some k \<Longrightarrow>
    create_flags fd K = K(fd \<mapsto> k\<lparr>flflags := or (flflags k) SOCK_NONBLOCK, fdflags := or (fdflags k) FD_CLOEXEC\<rparr>)"
  by (simp add: create_flags_def)

text \<open>
  A socket that an acceptor binds does not block, is closed on \<open>exec\<close>, and has of the options it
  asked for those the kernel grants; its other flags and options and the other descriptors are as they were, and a
  refused \<open>SO_REUSEPORT\<close> is only reported.
\<close>

theorem listening_socket_options:
  assumes "K fd = Some k"
  shows "\<exists>k1 K1. listen_options grants fd reusePort K = (reusePort \<and> \<not> grants ReusePort, K1) \<and> K1 = K(fd \<mapsto> k1)
    \<and> and (flflags k1) SOCK_NONBLOCK = SOCK_NONBLOCK \<and> and (fdflags k1) FD_CLOEXEC = FD_CLOEXEC
    \<and> and (flflags k1) (not SOCK_NONBLOCK) = and (flflags k) (not SOCK_NONBLOCK)
    \<and> kopts k1 = (\<lambda>x. if x = ReuseAddr \<and> grants x then 1 else if x = ReusePort \<and> grants x then of_bool reusePort else kopts k x)"
proof -
  let ?k0 = "k\<lparr>flflags := or (flflags k) SOCK_NONBLOCK, fdflags := or (fdflags k) FD_CLOEXEC\<rparr>"
  let ?o = "\<lambda>x. if x = ReuseAddr \<and> grants x then 1 else if x = ReusePort \<and> grants x then of_bool reusePort else kopts k x"
  have bits: "and (or a b) b = b" "and (or a b) (not b) = and a (not b)" for a b :: "32 word"
    by (rule bit_word_eqI, auto simp: bit_simps)+
  have "listen_options grants fd reusePort K = (reusePort \<and> \<not> grants ReusePort, K(fd \<mapsto> ?k0\<lparr>kopts := ?o\<rparr>))"
    using assms
    by (auto simp: listen_options_def create_flags_at setReuseAddr_def setReusePort_def setsockopt_def Let_def fun_eq_iff
        intro!: ksock.equality)
  then show ?thesis by (intro exI [of _ "?k0\<lparr>kopts := ?o\<rparr>"]) (simp add: bits)
qed

lemma listening_socket_options_witness:
  "\<exists>k1 K1. listen_options (\<lambda>_. True) 7 True [7 \<mapsto> \<lparr>flflags = 2, fdflags = 0, kopts = (\<lambda>_. 0)\<rparr>] = (False, K1)
    \<and> K1 7 = Some k1 \<and> kopts k1 ReuseAddr = 1 \<and> kopts k1 ReusePort = 1 \<and> kopts k1 NoDelay = 0"
  using listening_socket_options [of "[7 \<mapsto> \<lparr>flflags = 2, fdflags = 0, kopts = (\<lambda>_. 0)\<rparr>]" 7 _ "\<lambda>_. True" True] by auto

end
