(* ===== verification/TcpConnector.thy ===== *)
theory TcpConnector
  imports Sockets
begin

text \<open>
  The client side of a TCP connection: \<open>net/tcp/TcpConnector.cpp\<close>, \<open>net/Client.cpp\<close> and
  \<open>net/tcp/TcpClient.cpp\<close>. The socket is a descriptor of theory \<open>Poller\<close>; retry timers and queued
  functors are counted or listed in the state, and running one is an operation.
\<close>

section \<open>The connector\<close>

datatype connector_status = CDisconnected | CConnecting | CConnected

datatype connector_task = QConnect | QDisconnect | QRetry

text \<open>
  \<open>soerr\<close> is the pending error of the socket, \<open>retryDelay\<close> the master's \<open>getReconnectDelay\<close> in milliseconds,
  \<open>retries\<close> the number of retry timers, \<open>handed\<close> the sockets given to the connected callback.
\<close>

record connector =
  knet :: netw
  kloop :: nat
  stopping :: bool
  kstatus :: connector_status
  ksocket :: "nat option"
  soerr :: nat
  retryDelay :: int
  retries :: nat
  kcallback :: bool
  handed :: "nat list"
  ktasks :: "connector_task list"

definition newTcpConnector :: "nat \<Rightarrow> int \<Rightarrow> netw \<Rightarrow> connector" where
  "newTcpConnector l delay w = \<lparr>knet = w, kloop = l, stopping = True, kstatus = CDisconnected, ksocket = None,
     soerr = 0, retryDelay = delay, retries = 0, kcallback = False, handed = [], ktasks = []\<rparr>"

definition deleteTcpConnector :: "connector \<Rightarrow> unit res" where
  "deleteTcpConnector c = assertR (stopping c) (assertR (ksocket c = None) (Ok ()))"

definition in_connector_loop :: "connector \<Rightarrow> 'a res \<Rightarrow> 'a res" where
  "in_connector_loop c k = (if loop_tid (knet c) (kloop c) = here (knet c) then k else Fail FatalAbort)"

definition EINPROGRESS :: nat where "EINPROGRESS = 115"
definition EINTR :: nat where "EINTR = 4"
definition EISCONN :: nat where "EISCONN = 106"
definition EAGAIN :: nat where "EAGAIN = 11"
definition EADDRINUSE :: nat where "EADDRINUSE = 98"
definition EADDRNOTAVAIL :: nat where "EADDRNOTAVAIL = 99"
definition ECONNREFUSED :: nat where "ECONNREFUSED = 111"
definition ENETUNREACH :: nat where "ENETUNREACH = 101"

lemmas connect_errors = EINPROGRESS_def EINTR_def EISCONN_def EAGAIN_def EADDRINUSE_def EADDRNOTAVAIL_def
  ECONNREFUSED_def ENETUNREACH_def

definition with_socket :: "connector \<Rightarrow> (nat \<Rightarrow> connector res) \<Rightarrow> connector res" where
  "with_socket c k = (case ksocket c of None \<Rightarrow> Fail NullDeref | Some p \<Rightarrow> k p)"

definition resetSocket :: "connector \<Rightarrow> connector res" where
  "resetSocket c = (case ksocket c of
     None \<Rightarrow> Ok c
   | Some p \<Rightarrow> bindR (release_socket p (knet c)) (\<lambda>w. Ok (c\<lparr>knet := w, ksocket := None\<rparr>)))"

definition onConnectingInLoop :: "connector \<Rightarrow> connector res" where
  "onConnectingInLoop c = with_socket c (\<lambda>p.
     bindR (setObserver p (Some p) (knet c)) (\<lambda>w.
     bindR (attachInLoop (kloop c) p w) (\<lambda>w.
     bindR (enableWrite p w) (\<lambda>w. Ok (c\<lparr>knet := w, kstatus := CConnecting\<rparr>)))))"

definition onRetryInLoop :: "connector \<Rightarrow> connector res" where
  "onRetryInLoop c = bindR (resetSocket (c\<lparr>kstatus := CDisconnected\<rparr>)) (\<lambda>c1.
     Ok (if 0 < retryDelay c1 then c1\<lparr>retries := Suc (retries c1)\<rparr> else c1))"

text \<open>
  The retry timer, and the functor of \<open>connect\<close>. \<open>p\<close> is the address of the new socket and \<open>err\<close> what
  \<open>connect\<close> reports, 0 for success.
\<close>

definition connectInLoop :: "nat \<Rightarrow> 32 word sys \<Rightarrow> nat option \<Rightarrow> nat \<Rightarrow> connector \<Rightarrow> connector res" where
  "connectInLoop p sys_socket raw err c = in_connector_loop c
     (if stopping c then Ok c
      else
        bindR (resetSocket c) (\<lambda>c1.
        bindR (socket_create p sys_socket raw (knet c1)) (\<lambda>w.
          let c2 = c1\<lparr>knet := w, ksocket := Some p, soerr := 0\<rparr>
          in if err \<in> {0, EINPROGRESS, EINTR, EISCONN} then onConnectingInLoop c2
             else if err \<in> {EAGAIN, EADDRINUSE, EADDRNOTAVAIL, ECONNREFUSED, ENETUNREACH} then onRetryInLoop c2
             else bindR (deleteIOFd p w) (\<lambda>w1. Ok (c2\<lparr>knet := w1, ksocket := None\<rparr>)))))"

definition disconnectInLoop :: "connector \<Rightarrow> connector res" where
  "disconnectInLoop c = in_connector_loop c (resetSocket (c\<lparr>kstatus := CDisconnected\<rparr>))"

definition connector_connect :: "nat \<Rightarrow> 32 word sys \<Rightarrow> nat option \<Rightarrow> nat \<Rightarrow> connector \<Rightarrow> connector res" where
  "connector_connect p sys_socket raw err c =
     (let c1 = c\<lparr>stopping := False\<rparr>
      in if loop_tid (knet c1) (kloop c1) = here (knet c1) then connectInLoop p sys_socket raw err c1
         else Ok (c1\<lparr>ktasks := ktasks c1 @ [QConnect]\<rparr>))"

definition connector_disconnect :: "connector \<Rightarrow> connector res" where
  "connector_disconnect c =
     (let c1 = c\<lparr>stopping := True\<rparr>
      in if loop_tid (knet c1) (kloop c1) = here (knet c1) then disconnectInLoop c1
         else Ok (c1\<lparr>ktasks := ktasks c1 @ [QDisconnect]\<rparr>))"

text \<open>
  Reading \<open>SO_ERROR\<close> clears it. The connected callback of \<open>TcpClient\<close> takes the socket out of the unique
  pointer; \<open>_connectedCallback\<close> that is not set leaves it.
\<close>

definition read_error :: "connector \<Rightarrow> nat \<times> connector" where
  "read_error c = (getSocketError (SysOk (soerr c)), c\<lparr>soerr := 0\<rparr>)"

definition connector_handleWrite :: "connector \<Rightarrow> connector res" where
  "connector_handleWrite c =
     (if kstatus c = CConnecting then
        with_socket c (\<lambda>p.
        bindR (detachInLoop p (knet c)) (\<lambda>(b, w).
          let (err, c1) = read_error (c\<lparr>knet := w\<rparr>)
          in if err \<noteq> 0 then onRetryInLoop c1
             else let c2 = c1\<lparr>kstatus := CConnected\<rparr>
                  in Ok (if kcallback c2 then c2\<lparr>handed := handed c2 @ [p], ksocket := None\<rparr> else c2)))
      else Ok (c\<lparr>kstatus := CDisconnected\<rparr>))"

definition connector_handleError :: "connector \<Rightarrow> connector res" where
  "connector_handleError c =
     (if kstatus c = CConnecting then
        with_socket c (\<lambda>p. let (err, c1) = read_error c in Ok (c1\<lparr>ktasks := ktasks c1 @ [QRetry]\<rparr>))
      else Ok c)"

definition connector_handleClose :: "connector \<Rightarrow> connector res" where
  "connector_handleClose c = Ok (if kstatus c = CConnecting then c\<lparr>ktasks := ktasks c @ [QRetry]\<rparr> else c)"

text \<open>The observer's methods.\<close>

fun connector_observer :: "hook \<Rightarrow> connector \<Rightarrow> connector res" where
  "connector_observer OnRead c = Ok c"
| "connector_observer OnWrite c = connector_handleWrite c"
| "connector_observer OnError c = connector_handleError c"
| "connector_observer OnClose c = connector_handleClose c"

text \<open>The loop runs the first functor.\<close>

fun connector_run_next :: "nat \<Rightarrow> 32 word sys \<Rightarrow> nat option \<Rightarrow> nat \<Rightarrow> connector \<Rightarrow> connector res" where
  "connector_run_next p sys_socket raw err c = (case ktasks c of
     [] \<Rightarrow> Ok c
   | QConnect # ts \<Rightarrow> connectInLoop p sys_socket raw err (c\<lparr>ktasks := ts\<rparr>)
   | QDisconnect # ts \<Rightarrow> disconnectInLoop (c\<lparr>ktasks := ts\<rparr>)
   | QRetry # ts \<Rightarrow> onRetryInLoop (c\<lparr>ktasks := ts\<rparr>))"

section \<open>Connecting, retrying, disconnecting\<close>

text \<open>
  Between the operations of the connector: a socket it holds exists and is not being handled, and while
  it is connecting the socket is attached to the loop and watched for writing.
\<close>

definition connector_ok :: "connector \<Rightarrow> bool" where
  "connector_ok c \<longleftrightarrow> watch_inv (knet c) \<and> loop_tid (knet c) (kloop c) = here (knet c)
     \<and> (case ksocket c of
          None \<Rightarrow> True
        | Some p \<Rightarrow> \<exists>f. iofds (knet c) p = Some f \<and> \<not> handling f
            \<and> (if kstatus c = CConnecting then looper f = Some (kloop c) \<and> events f = kWriteEvent else looper f = None))"

lemma connector_okD:
  assumes "connector_ok c"
  shows "watch_inv (knet c)" and "loop_tid (knet c) (kloop c) = here (knet c)" and "in_connector_loop c k = k"
    and "ksocket c = Some p \<Longrightarrow> \<exists>f. iofds (knet c) p = Some f \<and> \<not> handling f \<and> on_thread p (knet c)"
  using assms by (auto simp: connector_ok_def in_connector_loop_def on_thread_def split: if_splits)

lemma resetSocket_ok:
  assumes ok: "connector_ok c"
  obtains w where "resetSocket (c\<lparr>kstatus := st\<rparr>) = Ok (c\<lparr>kstatus := st, knet := w, ksocket := None\<rparr>)"
    and "watch_inv w" and "here w = here (knet c)" and "loop_tid w = loop_tid (knet c)"
    and "\<And>q. iofds w q = (if ksocket c = Some q then None else iofds (knet c) q)"
proof (cases "ksocket c")
  case None
  have "c\<lparr>kstatus := st, knet := knet c, ksocket := None\<rparr> = c\<lparr>kstatus := st\<rparr>" using None by (cases c) simp
  then show ?thesis using None connector_okD(1) [OF ok] by (intro that [of "knet c"]) (simp_all add: resetSocket_def)
next
  case (Some p)
  obtain f where f: "iofds (knet c) p = Some f" "\<not> handling f" "on_thread p (knet c)"
    using connector_okD(4) [OF ok Some] by blast
  obtain w where "release_socket p (knet c) = Ok w" "watch_inv w" "iofds w p = None" "here w = here (knet c)"
    "loop_tid w = loop_tid (knet c)" by (rule release_socket_ok [OF connector_okD(1) [OF ok] f])
  moreover have "iofds w q = (if ksocket c = Some q then None else iofds (knet c) q)" for q
    using calculation(1,3) release_socket_frame [of p "knet c" w q] Some by (cases "q = p") simp_all
  ultimately show ?thesis using Some by (intro that [of w]) (simp_all add: resetSocket_def)
qed


lemma fresh_fd_less:
  assumes "fresh_fd p fd w" and "\<And>q. iofds w' q = iofds w q \<or> iofds w' q = None"
  shows "fresh_fd p fd w'"
  using assms unfolding fresh_fd_def by (metis option.distinct(1))

lemma onConnecting_ok:
  assumes "watch_inv (knet c)" and "loop_tid (knet c) (kloop c) = here (knet c)" and "ksocket c = Some p"
    and "iofds (knet c) p = Some (newIOFd fd raw)"
  obtains c' where "onConnectingInLoop c = Ok c'" and "connector_ok c'" and "kstatus c' = CConnecting"
    and "ksocket c' = Some p" and "retries c' = retries c" and "stopping c' = stopping c"
    and "iofds (knet c') p \<noteq> None" and "\<And>q. q \<noteq> p \<Longrightarrow> iofds (knet c') q = iofds (knet c) q"
proof -
  let ?f = "(newIOFd fd raw)\<lparr>observer := Some p\<rparr>"
  let ?w = "putFd p ?f (knet c)"
  have "watch_inv ?w"
    by (rule watch_inv_idle [OF assms(1), of p]) (use assms(4) in \<open>auto simp: newIOFd_def dest: watch_invD(3) [OF assms(1)]\<close>)
  then have w: "watch_inv ?w" "iofds ?w p = Some ?f" "looper ?f = None" "loop_tid ?w (kloop c) = here ?w"
    using assms(2) by (simp_all add: newIOFd_def)
  note att = attach_new [OF w]
  let ?g = "?f\<lparr>looper := Some (kloop c)\<rparr>"
  let ?w1 = "putFd p ?g ?w"
  have g: "iofds ?w1 p = Some ?g" "looper ?g = Some (kloop c)" "events ?g = 0" "loop_tid ?w1 (kloop c) = here ?w1"
    using assms(2) by (simp_all add: newIOFd_def)
  obtain w2 where w2: "enableWrite p ?w1 = Ok w2" "watch_inv w2" "here w2 = here ?w1" "loop_tid w2 = loop_tid ?w1"
    "iofds w2 p = Some (?g\<lparr>events := kWriteEvent, status := ADDED\<rparr>)" "\<And>q. q \<noteq> p \<Longrightarrow> iofds w2 q = iofds ?w1 q"
    using enable_write_new [OF att(2) g] by blast
  have "onConnectingInLoop c = Ok (c\<lparr>knet := w2, kstatus := CConnecting\<rparr>)"
    using assms(3,4) att(1) w2(1) by (simp add: onConnectingInLoop_def with_socket_def)
  then show ?thesis
    by (rule that) (use w2 assms(2,3) in \<open>simp_all add: connector_ok_def newIOFd_def\<close>)
qed

lemma onRetry_ok:
  assumes "connector_ok c"
  obtains c' where "onRetryInLoop c = Ok c'" and "connector_ok c'" and "kstatus c' = CDisconnected" and "ksocket c' = None"
    and "retries c' = retries c + (if 0 < retryDelay c then 1 else 0)" and "stopping c' = stopping c"
    and "\<And>q. iofds (knet c') q = (if ksocket c = Some q then None else iofds (knet c) q)"
proof -
  obtain w where w: "resetSocket (c\<lparr>kstatus := CDisconnected\<rparr>) = Ok (c\<lparr>kstatus := CDisconnected, knet := w, ksocket := None\<rparr>)"
    "watch_inv w" "here w = here (knet c)" "loop_tid w = loop_tid (knet c)"
    "\<And>q. iofds w q = (if ksocket c = Some q then None else iofds (knet c) q)" using resetSocket_ok [OF assms] by blast
  let ?c = "c\<lparr>kstatus := CDisconnected, knet := w, ksocket := None\<rparr>"
  have "connector_ok ?c" using w connector_okD(2) [OF assms] by (simp add: connector_ok_def)
  then show ?thesis
    by (intro that [of "if 0 < retryDelay c then ?c\<lparr>retries := Suc (retries c)\<rparr> else ?c"])
      (use w(1,5) in \<open>simp_all add: onRetryInLoop_def connector_ok_def\<close>)
qed

text \<open>
  C22. An attempt to connect in the loop's thread. A connector that was told to stop does nothing. Otherwise
  the attempt ends, for every error number: when \<open>connect\<close> succeeds or is in progress the new socket is
  watched for writing and the connector is connecting; on the errors worth another try the connector has no
  socket and a retry is scheduled exactly when the client asked for one; on all other errors it has no
  socket and nothing is scheduled. No descriptor is leaked: the socket of an earlier attempt is deleted,
  the new one exists afterwards exactly when the connector holds it, and no other descriptor is touched.
\<close>

theorem connectInLoop_result:
  assumes "connector_ok c" and "fresh_fd p fd (knet c)"
  shows "\<exists>c'. connectInLoop p (SysOk fd) raw err c = Ok c' \<and> connector_ok c'
    \<and> (if stopping c then c' = c
       else (if err \<in> {0, EINPROGRESS, EINTR, EISCONN}
             then kstatus c' = CConnecting \<and> ksocket c' = Some p \<and> retries c' = retries c
             else ksocket c' = None \<and> retries c' = retries c +
               (if err \<in> {EAGAIN, EADDRINUSE, EADDRNOTAVAIL, ECONNREFUSED, ENETUNREACH} \<and> 0 < retryDelay c then 1 else 0))
         \<and> (iofds (knet c') p = None \<longleftrightarrow> ksocket c' = None)
         \<and> (\<forall>q. q \<noteq> p \<longrightarrow> iofds (knet c') q = (if ksocket c = Some q then None else iofds (knet c) q)))"
proof (cases "stopping c")
  case True
  then show ?thesis using assms(1) by (simp add: connectInLoop_def connector_okD(3))
next
  case False
  obtain w where w: "resetSocket c = Ok (c\<lparr>knet := w, ksocket := None\<rparr>)" "watch_inv w"
    "here w = here (knet c)" "loop_tid w = loop_tid (knet c)"
    "\<And>q. iofds w q = (if ksocket c = Some q then None else iofds (knet c) q)"
    using resetSocket_ok [OF assms(1), of "kstatus c"] by auto
  have fr: "fresh_fd p fd w" by (rule fresh_fd_less [OF assms(2)]) (simp add: w(5))
  let ?w = "putFd p (newIOFd fd raw) w"
  let ?c = "c\<lparr>knet := ?w, ksocket := Some p, soerr := 0\<rparr>"
  have inv: "watch_inv ?w" using watch_inv_new [OF w(2) fr, of "newIOFd fd raw"] by (simp add: newIOFd_def)
  have here: "loop_tid ?w (kloop c) = here ?w" using w(3,4) connector_okD(2) [OF assms(1)] by simp
  have run: "connectInLoop p (SysOk fd) raw err c =
      (if err \<in> {0, EINPROGRESS, EINTR, EISCONN} then onConnectingInLoop ?c
       else if err \<in> {EAGAIN, EADDRINUSE, EADDRNOTAVAIL, ECONNREFUSED, ENETUNREACH} then onRetryInLoop ?c
       else bindR (deleteIOFd p ?w) (\<lambda>w1. Ok (?c\<lparr>knet := w1, ksocket := None\<rparr>)))"
    using False w(1) by (simp add: connectInLoop_def connector_okD(3) [OF assms(1)] socket_create_def Let_def)
  show ?thesis
  proof (cases "err \<in> {0, EINPROGRESS, EINTR, EISCONN}")
    case True
    obtain c' where "onConnectingInLoop ?c = Ok c'" "connector_ok c'" "kstatus c' = CConnecting"
      "ksocket c' = Some p" "retries c' = retries ?c" "iofds (knet c') p \<noteq> None"
      "\<And>q. q \<noteq> p \<Longrightarrow> iofds (knet c') q = iofds (knet ?c) q"
      by (rule onConnecting_ok [of ?c p fd raw]) (use inv here in simp_all)
    then show ?thesis unfolding run if_P [OF True] if_not_P [OF False] using w(5) by (intro exI [of _ c']) simp
  next
    case no: False
    show ?thesis
    proof (cases "err \<in> {EAGAIN, EADDRINUSE, EADDRNOTAVAIL, ECONNREFUSED, ENETUNREACH}")
      case True
      let ?d = "?c\<lparr>kstatus := CDisconnected\<rparr>"
      have "onRetryInLoop ?c = onRetryInLoop ?d" by (simp add: onRetryInLoop_def)
      moreover have "connector_ok ?d" using inv here by (simp add: connector_ok_def newIOFd_def)
      then obtain c' where "onRetryInLoop ?d = Ok c'" "connector_ok c'" "ksocket c' = None"
        "retries c' = retries ?d + (if 0 < retryDelay ?d then 1 else 0)"
        "\<And>q. iofds (knet c') q = (if ksocket ?d = Some q then None else iofds (knet ?d) q)" using onRetry_ok by blast
      ultimately show ?thesis unfolding run if_not_P [OF no] if_P [OF True] if_not_P [OF \<open>\<not> stopping c\<close>]
        using True w(5) by (intro exI [of _ c']) simp
    next
      case other: False
      have "iofds ?w p = Some (newIOFd fd raw)" "looper (newIOFd fd raw) = None" "\<not> handling (newIOFd fd raw)"
        by (simp_all add: newIOFd_def)
      note d = delete_idle [OF inv this]
      show ?thesis unfolding run if_not_P [OF no] if_not_P [OF other] if_not_P [OF False]
        using other d here w(5) by (simp add: connector_ok_def)
    qed
  qed
qed


definition demo_connector :: connector where
  "demo_connector = (newTcpConnector 0 500 demo_net)\<lparr>stopping := False\<rparr>"

lemma demo_connector_ok: "connector_ok demo_connector" "\<not> stopping demo_connector" "fresh_fd 2 8 (knet demo_connector)"
  using demo_net_ok
  by (auto simp: demo_connector_def newTcpConnector_def connector_ok_def demo_net_def idle_net_def newIOFd_def fresh_fd_def)

lemma connectInLoop_result_witness:
  "\<exists>c c'. connectInLoop 2 (SysOk 8) None EINPROGRESS demo_connector = Ok c \<and> kstatus c = CConnecting
    \<and> connectInLoop 2 (SysOk 8) None ECONNREFUSED demo_connector = Ok c' \<and> ksocket c' = None \<and> retries c' = 1"
proof -
  have "retryDelay demo_connector = 500" "retries demo_connector = 0" "\<not> stopping demo_connector"
    by (simp_all add: demo_connector_def newTcpConnector_def)
  then show ?thesis
    using connectInLoop_result [OF demo_connector_ok(1,3), of None EINPROGRESS]
      connectInLoop_result [OF demo_connector_ok(1,3), of None ECONNREFUSED]
    by (auto simp: connect_errors)
qed

text \<open>
  \<open>disconnect\<close> in the loop's thread ends the attempt at any moment between two events: the socket is
  released, the connector may be destroyed, and a retry timer or functor that is still waiting does
  nothing.
\<close>

theorem disconnect_ends_attempt:
  assumes "connector_ok c"
  shows "\<exists>c'. connector_disconnect c = Ok c' \<and> connector_ok c' \<and> deleteTcpConnector c' = Ok ()
    \<and> connectInLoop p sys_socket raw err c' = Ok c'"
proof -
  let ?d = "c\<lparr>stopping := True\<rparr>"
  have "connector_ok ?d" using assms by (cases "ksocket c"; cases "kstatus c = CConnecting") (auto simp: connector_ok_def)
  then obtain w where w: "resetSocket (?d\<lparr>kstatus := CDisconnected\<rparr>) = Ok (?d\<lparr>kstatus := CDisconnected, knet := w, ksocket := None\<rparr>)"
    "watch_inv w" "here w = here (knet ?d)" "loop_tid w = loop_tid (knet ?d)" using resetSocket_ok [of ?d] by blast
  let ?c = "?d\<lparr>kstatus := CDisconnected, knet := w, ksocket := None\<rparr>"
  have "connector_disconnect c = Ok ?c"
    using w(1) connector_okD(2) [OF assms] by (simp add: connector_disconnect_def disconnectInLoop_def in_connector_loop_def)
  then show ?thesis
    using w connector_okD(2) [OF assms]
    by (simp add: connector_ok_def deleteTcpConnector_def connectInLoop_def in_connector_loop_def)
qed

lemma demo_connecting: "\<exists>c. connector_ok c \<and> kstatus c = CConnecting \<and> ksocket c = Some 2"
proof -
  let ?c = "demo_connector\<lparr>knet := putFd 2 (newIOFd 8 None) (knet demo_connector), ksocket := Some 2\<rparr>"
  have "watch_inv (knet ?c)"
    using watch_inv_new [OF connector_okD(1) [OF demo_connector_ok(1)] demo_connector_ok(3), of "newIOFd 8 None"]
    by (simp add: newIOFd_def)
  moreover have "loop_tid (knet ?c) (kloop ?c) = here (knet ?c)" using connector_okD(2) [OF demo_connector_ok(1)] by simp
  ultimately obtain c' where "connector_ok c'" "kstatus c' = CConnecting" "ksocket c' = Some 2"
    using onConnecting_ok [of ?c 2 8 None] by auto
  then show ?thesis by blast
qed

lemma disconnect_ends_attempt_witness:
  "\<exists>c c'. ksocket c = Some 2 \<and> connector_disconnect c = Ok c' \<and> ksocket c' = None \<and> deleteTcpConnector c' = Ok ()"
proof -
  obtain c where "connector_ok c" "ksocket c = Some 2" using demo_connecting by blast
  then show ?thesis using disconnect_ends_attempt [of c]
    by (simp add: deleteTcpConnector_def assertR_eq_Ok) blast
qed

text \<open>
  When a socket being connected becomes writable with a pending error, the connector deletes it
  inside its own \<open>handleEvent\<close> and the assertion of the descriptor's destructor fails.
\<close>

theorem failed_connect_asserts:
  assumes "connector_ok c" and "kstatus c = CConnecting" and "ksocket c = Some p" and "iofds (knet c) p = Some f"
    and "soerr c \<noteq> 0"
  shows "connector_handleWrite (c\<lparr>knet := putFd p (f\<lparr>handling := True\<rparr>) (knet c)\<rparr>) = Fail AssertFail"
proof -
  let ?w = "putFd p (f\<lparr>handling := True\<rparr>) (knet c)"
  have f: "looper f = Some (kloop c)" using assms(1-4) by (simp add: connector_ok_def)
  have inv: "watch_inv ?w" by (rule watch_inv_same [OF connector_okD(1) [OF assms(1)] assms(4)]) simp_all
  have th: "on_thread p ?w" using connector_okD(2) [OF assms(1)] f by (simp add: on_thread_def)
  have g: "iofds ?w p = Some (f\<lparr>handling := True\<rparr>)" by simp
  obtain b w1 g1 where w1: "detachInLoop p ?w = Ok (b, w1)" "watch_inv w1" "iofds w1 p = Some g1" "looper g1 = None" "handling g1"
    using detach_ok [OF inv th g] by auto
  have "on_thread p w1" using w1(3,4) by (simp add: on_thread_def)
  then have "release_socket p w1 = Fail AssertFail" using w1(2,3,5) by (intro release_handled_socket)
  then show ?thesis
    using assms(2,3,5) w1(1)
    by (simp add: connector_handleWrite_def with_socket_def read_error_def getSocketError_def onRetryInLoop_def resetSocket_def)
qed

text \<open>
  An error and writability in one event make the connector report a connection that failed:
  \<open>handleErrorInLoop\<close> reads the pending error, which clears it, and queues a retry; \<open>handleWriteInLoop\<close>
  then sees no error and hands the socket to the client. The queued retry schedules a second attempt
  for a client that believes to be connected.
\<close>

theorem failed_connect_reported_as_connected:
  assumes "connector_ok c" and "kstatus c = CConnecting" and "ksocket c = Some p" and "kcallback c" and "ktasks c = []"
    and "0 < retryDelay c"
  shows "\<exists>c1 c2 c3. connector_observer OnError c = Ok c1 \<and> connector_observer OnWrite c1 = Ok c2
    \<and> kstatus c2 = CConnected \<and> handed c2 = handed c @ [p]
    \<and> connector_run_next q sys_socket raw err c2 = Ok c3 \<and> kstatus c3 = CDisconnected \<and> retries c3 = Suc (retries c)"
proof -
  let ?c1 = "c\<lparr>soerr := 0, ktasks := [QRetry]\<rparr>"
  obtain f where f: "iofds (knet c) p = Some f" "on_thread p (knet c)"
    using connector_okD(4) [OF assms(1,3)] by blast
  obtain b w where w: "detachInLoop p (knet c) = Ok (b, w)" "watch_inv w"
    using detach_ok [OF connector_okD(1) [OF assms(1)] f(2,1)] by blast
  let ?c2 = "?c1\<lparr>knet := w, kstatus := CConnected, handed := handed c @ [p], ksocket := None\<rparr>"
  have "connector_observer OnError c = Ok ?c1"
    using assms(2,3,5) by (simp add: connector_handleError_def with_socket_def read_error_def)
  moreover have "connector_observer OnWrite ?c1 = Ok ?c2"
    using assms(2-4) w(1) by (simp add: connector_handleWrite_def with_socket_def read_error_def getSocketError_def)
  moreover have "connector_run_next q sys_socket raw err ?c2 = Ok (?c2\<lparr>ktasks := [], kstatus := CDisconnected, retries := Suc (retries c)\<rparr>)"
    using assms(6) by (simp add: onRetryInLoop_def resetSocket_def)
  ultimately show ?thesis
    by (intro exI [of _ ?c1] exI [of _ ?c2] exI [of _ "?c2\<lparr>ktasks := [], kstatus := CDisconnected, retries := Suc (retries c)\<rparr>"]) simp
qed


lemma connecting_with:
  "\<exists>c f. connector_ok c \<and> kstatus c = CConnecting \<and> ksocket c = Some 2 \<and> iofds (knet c) 2 = Some f
    \<and> soerr c = ECONNREFUSED \<and> kcallback c \<and> ktasks c = [] \<and> retryDelay c = 500 \<and> handed c = []"
proof -
  obtain c where c: "connector_ok c" "kstatus c = CConnecting" "ksocket c = Some 2" using demo_connecting by blast
  let ?c = "c\<lparr>soerr := ECONNREFUSED, kcallback := True, ktasks := [], retryDelay := 500, handed := []\<rparr>"
  have "connector_ok ?c" using c by (simp add: connector_ok_def)
  then show ?thesis using c(2,3) connector_okD(4) [OF c(1,3)] by (intro exI [of _ ?c]) auto
qed

lemma failed_connect_asserts_witness:
  "\<exists>c f. kstatus c = CConnecting \<and> soerr c = ECONNREFUSED
    \<and> connector_handleWrite (c\<lparr>knet := putFd 2 (f\<lparr>handling := True\<rparr>) (knet c)\<rparr>) = Fail AssertFail"
proof -
  obtain c f where c: "connector_ok c" "kstatus c = CConnecting" "ksocket c = Some 2" "iofds (knet c) 2 = Some f"
    "soerr c = ECONNREFUSED" using connecting_with by blast
  then have "soerr c \<noteq> 0" by (simp add: ECONNREFUSED_def)
  then show ?thesis using failed_connect_asserts [OF c(1-4)] c(2,5) by blast
qed

lemma failed_connect_reported_as_connected_witness:
  "\<exists>c c1 c2. soerr c = ECONNREFUSED \<and> connector_observer OnError c = Ok c1 \<and> connector_observer OnWrite c1 = Ok c2
    \<and> kstatus c2 = CConnected \<and> handed c2 = [2]"
proof -
  obtain c f where c: "connector_ok c" "kstatus c = CConnecting" "ksocket c = Some 2" "soerr c = ECONNREFUSED"
    "kcallback c" "ktasks c = []" "retryDelay c = 500" "handed c = []" using connecting_with by blast
  have "0 < retryDelay c" using c(7) by simp
  from failed_connect_reported_as_connected [OF c(1,2,3,5,6) this]
  obtain c1 c2 where "connector_observer OnError c = Ok c1" "connector_observer OnWrite c1 = Ok c2"
    "kstatus c2 = CConnected" "handed c2 = handed c @ [2]" by blast
  then show ?thesis using c(4,8) by (intro exI [of _ c] exI [of _ c1] exI [of _ c2]) simp
qed

section \<open>The client\<close>

text \<open>
  \<open>_connection\<close> is the address of the connection, \<open>bound\<close> the connections whose close callback is set; the
  calls on connections are recorded. \<open>caddr\<close> stands for \<open>_addr\<close>.
\<close>

datatype client_task = TConnect nat | TDisconnect | TClosed nat | TReconnect

datatype conn_call = Established nat | CloseCall nat

record client =
  conn_to :: connector
  connecting_flag :: bool
  connection :: "nat option"
  bound :: "nat set"
  caddr :: nat
  cdelay :: int
  client_tasks :: "client_task list"
  conn_calls :: "conn_call list"

definition newTcpClient :: "connector \<Rightarrow> client" where
  "newTcpClient k = \<lparr>conn_to = k, connecting_flag = False, connection = None, bound = {}, caddr = 0, cdelay = 0,
     client_tasks = [], conn_calls = []\<rparr>"

definition deleteTcpClient :: "client \<Rightarrow> unit res" where
  "deleteTcpClient c = assertR (\<not> connecting_flag c) (Ok ())"

definition client_in_loop :: "client \<Rightarrow> bool" where
  "client_in_loop c \<longleftrightarrow> loop_tid (knet (conn_to c)) (kloop (conn_to c)) = here (knet (conn_to c))"

text \<open>What the connector is told is a parameter: the definitions above, for the environment's answers.\<close>

definition client_connectInLoop :: "(connector \<Rightarrow> connector res) \<Rightarrow> nat \<Rightarrow> client \<Rightarrow> client res" where
  "client_connectInLoop attempt addr c =
     bindR (attempt ((conn_to c)\<lparr>kcallback := True\<rparr>)) (\<lambda>k. Ok (c\<lparr>conn_to := k, caddr := addr\<rparr>))"

definition client_connect :: "(connector \<Rightarrow> connector res) \<Rightarrow> nat \<Rightarrow> client \<Rightarrow> client res" where
  "client_connect attempt addr c =
     (if connecting_flag c then Ok c
      else let c1 = c\<lparr>connecting_flag := True\<rparr>
           in if client_in_loop c1 then client_connectInLoop attempt addr c1
              else Ok (c1\<lparr>client_tasks := client_tasks c1 @ [TConnect addr]\<rparr>))"

definition client_disconnectInLoop :: "client \<Rightarrow> client res" where
  "client_disconnectInLoop c =
     bindR (connector_disconnect (conn_to c)) (\<lambda>k.
       let c1 = c\<lparr>conn_to := k\<rparr>
       in Ok (case connection c1 of
                None \<Rightarrow> c1
              | Some q \<Rightarrow> c1\<lparr>bound := bound c1 - {q}, conn_calls := conn_calls c1 @ [CloseCall q], connection := None\<rparr>))"

definition client_disconnect :: "client \<Rightarrow> client res" where
  "client_disconnect c =
     (let c1 = c\<lparr>connecting_flag := False\<rparr>
      in if client_in_loop c1 then client_disconnectInLoop c1
         else Ok (c1\<lparr>client_tasks := client_tasks c1 @ [TDisconnect]\<rparr>))"

text \<open>\<open>q\<close> is the address of the new connection; the loop's thread runs the functor of the notification at once.\<close>

definition client_newConnection :: "nat \<Rightarrow> client \<Rightarrow> client" where
  "client_newConnection q c =
     c\<lparr>connection := Some q, bound := insert q (bound c), conn_calls := conn_calls c @ [Established q]\<rparr>"

definition client_removeConnection :: "nat \<Rightarrow> client \<Rightarrow> client res" where
  "client_removeConnection q c =
     (if client_in_loop c then
        assertR (connection c = Some q) (Ok (c\<lparr>bound := bound c - {q}, connection := None\<rparr>))
      else Fail FatalAbort)"

definition client_closedInLoop :: "nat \<Rightarrow> client \<Rightarrow> client res" where
  "client_closedInLoop q c = bindR (client_removeConnection q c) (\<lambda>c1.
     Ok (if connecting_flag c1 \<and> 0 < cdelay c1 then c1\<lparr>client_tasks := client_tasks c1 @ [TReconnect]\<rparr> else c1))"

definition client_onClosed :: "nat \<Rightarrow> client \<Rightarrow> client res" where
  "client_onClosed q c =
     (if client_in_loop c then client_closedInLoop q c
      else Ok (c\<lparr>client_tasks := client_tasks c @ [TClosed q]\<rparr>))"

fun client_run_next :: "(connector \<Rightarrow> connector res) \<Rightarrow> client \<Rightarrow> client res" where
  "client_run_next attempt c = (case client_tasks c of
     [] \<Rightarrow> Ok c
   | TConnect addr # ts \<Rightarrow> client_connectInLoop attempt addr (c\<lparr>client_tasks := ts\<rparr>)
   | TDisconnect # ts \<Rightarrow> client_disconnectInLoop (c\<lparr>client_tasks := ts\<rparr>)
   | TClosed q # ts \<Rightarrow> client_closedInLoop q (c\<lparr>client_tasks := ts\<rparr>)
   | TReconnect # ts \<Rightarrow> client_connect attempt (caddr c) (c\<lparr>client_tasks := ts\<rparr>))"

text \<open>
  Reconnecting never happens: after a connection of a client that wants to reconnect is closed, the
  queued functor finds \<open>_connecting\<close> still set and returns; the connector is not told, no connection
  and no task is left, and every later call of \<open>connect\<close> does nothing either.
\<close>

theorem reconnect_does_nothing:
  assumes "client_in_loop c" and "connection c = Some q" and "connecting_flag c" and "0 < cdelay c" and "client_tasks c = []"
  shows "\<exists>c1 c2. client_onClosed q c = Ok c1 \<and> client_tasks c1 = [TReconnect] \<and> client_run_next attempt c1 = Ok c2
    \<and> conn_to c2 = conn_to c \<and> connection c2 = None \<and> client_tasks c2 = [] \<and> client_connect attempt addr c2 = Ok c2"
proof -
  let ?c1 = "c\<lparr>bound := bound c - {q}, connection := None, client_tasks := [TReconnect]\<rparr>"
  have "client_onClosed q c = Ok ?c1"
    using assms by (simp add: client_onClosed_def client_closedInLoop_def client_removeConnection_def)
  moreover have "client_run_next attempt ?c1 = Ok (?c1\<lparr>client_tasks := []\<rparr>)"
    using assms(3) by (simp add: client_connect_def)
  ultimately show ?thesis using assms(3) by (simp add: client_connect_def)
qed

lemma reconnect_does_nothing_witness:
  "\<exists>c c1 c2. client_onClosed 5 c = Ok c1 \<and> client_run_next (connectInLoop 2 (SysOk 8) None 0) c1 = Ok c2
    \<and> connection c2 = None \<and> conn_to c2 = demo_connector"
proof -
  let ?c = "(client_newConnection 5 (newTcpClient demo_connector))\<lparr>connecting_flag := True, cdelay := 100\<rparr>"
  have "client_in_loop ?c" "connection ?c = Some 5" "connecting_flag ?c" "0 < cdelay ?c" "client_tasks ?c = []"
    "conn_to ?c = demo_connector"
    using connector_okD(2) [OF demo_connector_ok(1)]
    by (simp_all add: client_in_loop_def client_newConnection_def newTcpClient_def)
  then show ?thesis using reconnect_does_nothing [of ?c 5 "connectInLoop 2 (SysOk 8) None 0"] by metis
qed

text \<open>
  A disconnected client keeps nothing: in the loop's thread \<open>disconnect\<close> releases the connector's
  socket, unbinds and closes the connection once, and connector and client may be destroyed; the close
  of that connection no longer reaches the client.
\<close>

theorem client_disconnect_releases:
  assumes "connector_ok (conn_to c)" and "connection c = Some q"
  shows "\<exists>c'. client_disconnect c = Ok c' \<and> connection c' = None \<and> q \<notin> bound c'
    \<and> conn_calls c' = conn_calls c @ [CloseCall q] \<and> deleteTcpConnector (conn_to c') = Ok () \<and> deleteTcpClient c' = Ok ()"
proof -
  have "client_in_loop (c\<lparr>connecting_flag := False\<rparr>)" using connector_okD(2) [OF assms(1)] by (simp add: client_in_loop_def)
  moreover obtain k where "connector_disconnect (conn_to c) = Ok k" "deleteTcpConnector k = Ok ()"
    using disconnect_ends_attempt [OF assms(1)] by blast
  ultimately show ?thesis
    using assms(2) by (simp add: client_disconnect_def client_disconnectInLoop_def deleteTcpClient_def)
qed


lemma client_disconnect_releases_witness:
  "\<exists>c c'. client_disconnect c = Ok c' \<and> connection c = Some 5 \<and> conn_calls c' = [Established 5, CloseCall 5]
    \<and> deleteTcpClient c' = Ok ()"
proof -
  let ?c = "client_newConnection 5 (newTcpClient demo_connector)"
  have "connector_ok (conn_to ?c)" "connection ?c = Some 5" "conn_calls ?c = [Established 5]"
    using demo_connector_ok(1) by (simp_all add: client_newConnection_def newTcpClient_def)
  then show ?thesis using client_disconnect_releases [of ?c 5] by auto
qed

end
