(* ===== verification/Servers.thy ===== *)
theory Servers
  imports Sockets Threads "HOL-Library.AList"
begin

text \<open>
  The servers: \<open>net/Server.cpp\<close>, \<open>net/tcp/TcpServer.cpp\<close> and \<open>net/udp/UdpServer.cpp\<close> over the acceptors of
  theory \<open>Sockets\<close> and the loop cluster of theory \<open>Threads\<close>. Connections are objects in a store; what
  the server tells them is recorded in order, what they do with it is in theories \<open>TcpConnection\<close> and
  \<open>UdpConnection\<close>.
\<close>

section \<open>State\<close>

text \<open>
  The fields of a connection the server uses: its index, its loop (\<open>None\<close> is the server's own),
  whether its close callback is set, the descriptor it sends with (UDP), when it was last active (UDP).
\<close>

record peer =
  pindex :: string
  peer_loop :: "nat option"
  phook :: bool
  pfd :: int
  pactive :: int

datatype srv_task = StartTask nat | StopTask | RemoveTask nat

datatype peer_task = Establish | CloseCmd | Deliver "byte list"

text \<open>
  \<open>conns\<close> is \<open>_connections\<close>, in the order in which the hash map is traversed; \<open>objs\<close> all connections ever
  created; \<open>stasks\<close> the functors queued in the server's loop; \<open>ptasks\<close> the calls and functors given to
  connections; \<open>threads\<close>, \<open>npairs\<close> and \<open>counter\<close> belong to \<open>_cluster\<close>, \<open>checker\<close> and \<open>stimers\<close> to the
  expiry timer.
\<close>

record server =
  srunning :: bool
  acc :: acceptor
  conns :: "(string \<times> nat) list"
  objs :: "peer list"
  stasks :: "srv_task list"
  ptasks :: "(nat \<times> peer_task) list"
  threads :: nat
  npairs :: nat
  counter :: "32 word"
  checker :: nat
  stimers :: "nat list"

definition newServer :: "acceptor \<Rightarrow> server" where
  "newServer a = \<lparr>srunning = False, acc = a, conns = [], objs = [], stasks = [], ptasks = [], threads = 1,
     npairs = 0, counter = 0, checker = 0, stimers = []\<rparr>"

definition deleteServer :: "server \<Rightarrow> unit res" where
  "deleteServer s = assertR (\<not> srunning s) (Ok ())"

definition in_base :: "server \<Rightarrow> 'a res \<Rightarrow> 'a res" where
  "in_base s k = in_acceptor_loop (acc s) k"

definition on_peer :: "nat \<Rightarrow> (peer \<Rightarrow> peer) \<Rightarrow> server \<Rightarrow> server" where
  "on_peer p f s = s\<lparr>objs := (objs s)[p := f (objs s ! p)]\<rparr>"

definition tell :: "nat \<Rightarrow> peer_task \<Rightarrow> server \<Rightarrow> server" where
  "tell p t s = s\<lparr>ptasks := ptasks s @ [(p, t)]\<rparr>"

text \<open>The cluster's \<open>start\<close> and \<open>stop\<close>, which return when all loops are there or gone.\<close>

definition cluster_start :: "nat \<Rightarrow> server \<Rightarrow> server" where
  "cluster_start k s = s\<lparr>threads := k, npairs := (if 1 < k then k else 0)\<rparr>"

definition cluster_stop :: "server \<Rightarrow> server" where
  "cluster_stop s = s\<lparr>npairs := 0\<rparr>"

section \<open>\<open>Server\<close>\<close>

definition bindDefaultCallbacks :: "nat \<Rightarrow> server \<Rightarrow> server" where
  "bindDefaultCallbacks p = on_peer p (\<lambda>c. c\<lparr>phook := True\<rparr>)"

definition unbindDefaultCallbacks :: "nat \<Rightarrow> server \<Rightarrow> server" where
  "unbindDefaultCallbacks p = on_peer p (\<lambda>c. c\<lparr>phook := False\<rparr>)"

definition notifyConnectionEstablished :: "(nat \<Rightarrow> server \<Rightarrow> server) \<Rightarrow> nat \<Rightarrow> server \<Rightarrow> server" where
  "notifyConnectionEstablished bind p s = tell p Establish (bind p s)"

text \<open>The connection calls its close callback, if it is set.\<close>

definition onClosedInConnection :: "nat \<Rightarrow> server \<Rightarrow> server" where
  "onClosedInConnection p s = (if phook (objs s ! p) then s\<lparr>stasks := stasks s @ [RemoveTask p]\<rparr> else s)"

definition removeConnection :: "(nat \<Rightarrow> server \<Rightarrow> server) \<Rightarrow> nat \<Rightarrow> server \<Rightarrow> server" where
  "removeConnection unbind p s =
     (let s1 = unbind p s in s1\<lparr>conns := AList.delete (pindex (objs s1 ! p)) (conns s1)\<rparr>)"

text \<open>A new connection: its loop, the object, its place in the table.\<close>

definition addConnection :: "string \<Rightarrow> int \<Rightarrow> int \<Rightarrow> server \<Rightarrow> (nat \<times> server) res" where
  "addConnection key raw_fd now s =
     bindR (getNextLoop (threads s) (npairs s) (counter s)) (\<lambda>(l, c).
       let p = length (objs s)
       in Ok (p, s\<lparr>counter := c,
              objs := objs s @ [\<lparr>pindex = key, peer_loop = l, phook = False, pfd = raw_fd, pactive = now\<rparr>],
              conns := AList.update key p (conns s)\<rparr>))"

section \<open>\<open>TcpServer\<close>\<close>

definition tcp_startInLoop :: "(acceptor \<Rightarrow> acceptor res) \<Rightarrow> nat \<Rightarrow> server \<Rightarrow> server res" where
  "tcp_startInLoop listen k s =
     bindR (listen ((acc s)\<lparr>acallback := True\<rparr>)) (\<lambda>a. Ok ((cluster_start k s)\<lparr>acc := a\<rparr>))"

definition tcp_start :: "bool \<Rightarrow> (acceptor \<Rightarrow> acceptor res) \<Rightarrow> nat \<Rightarrow> server \<Rightarrow> server res" where
  "tcp_start il listen k s =
     (if srunning s then Ok s
      else let s1 = s\<lparr>srunning := True\<rparr>
           in if il then tcp_startInLoop listen k s1
              else Ok (s1\<lparr>stasks := stasks s1 @ [StartTask k]\<rparr>))"

definition closeAll :: "(nat \<Rightarrow> server \<Rightarrow> server) \<Rightarrow> server \<Rightarrow> server" where
  "closeAll unbind s = fold (\<lambda>(k, p). tell p CloseCmd \<circ> unbind p) (conns s) s"

definition tcp_stopInLoop :: "server \<Rightarrow> server res" where
  "tcp_stopInLoop s =
     bindR (acceptor_stopInLoop ((acc s)\<lparr>acallback := False\<rparr>)) (\<lambda>a.
       let s1 = closeAll unbindDefaultCallbacks (s\<lparr>acc := a\<rparr>)
       in Ok (cluster_stop (s1\<lparr>conns := []\<rparr>)))"

definition tcp_stop :: "bool \<Rightarrow> server \<Rightarrow> server res" where
  "tcp_stop il s =
     (let s1 = s\<lparr>srunning := False\<rparr>
      in if il then tcp_stopInLoop s1 else Ok (s1\<lparr>stasks := stasks s1 @ [StopTask]\<rparr>))"

text \<open>The acceptor's callback; \<open>key\<close> is the address as text.\<close>

definition tcp_newConnection :: "string \<Rightarrow> int \<Rightarrow> server \<Rightarrow> server res" where
  "tcp_newConnection key now s = in_base s
     (bindR (addConnection key 0 now s) (\<lambda>(p, s1). Ok (notifyConnectionEstablished bindDefaultCallbacks p s1)))"

text \<open>The server's loop runs the first functor.\<close>

fun tcp_run_next :: "(acceptor \<Rightarrow> acceptor res) \<Rightarrow> server \<Rightarrow> server res" where
  "tcp_run_next listen s = (case stasks s of
     [] \<Rightarrow> Ok s
   | StartTask k # ts \<Rightarrow> tcp_startInLoop listen k (s\<lparr>stasks := ts\<rparr>)
   | StopTask # ts \<Rightarrow> tcp_stopInLoop (s\<lparr>stasks := ts\<rparr>)
   | RemoveTask p # ts \<Rightarrow> in_base s (Ok (removeConnection unbindDefaultCallbacks p (s\<lparr>stasks := ts\<rparr>))))"

section \<open>\<open>UdpServer\<close>\<close>

definition ExpiredTime :: int where
  "ExpiredTime = 30 * 1000"

text \<open>
  \<open>fd\<close> is the descriptor of the acceptor's socket. The call is made while the acceptor handles a datagram
  it has just read from this socket, so \<open>getSocket()\<close> is not null.
\<close>

definition udp_bind :: "int \<Rightarrow> nat \<Rightarrow> server \<Rightarrow> server" where
  "udp_bind fd p s = on_peer p (\<lambda>c. c\<lparr>pfd := fd\<rparr>) (bindDefaultCallbacks p s)"

definition udp_unbind :: "nat \<Rightarrow> server \<Rightarrow> server" where
  "udp_unbind p s = on_peer p (\<lambda>c. c\<lparr>pfd := 0\<rparr>) (unbindDefaultCallbacks p s)"

text \<open>\<open>timer\<close> is the id of the new expiry timer.\<close>

definition udp_startInLoop :: "(acceptor \<Rightarrow> acceptor res) \<Rightarrow> nat \<Rightarrow> nat \<Rightarrow> server \<Rightarrow> server res" where
  "udp_startInLoop listen timer k s =
     bindR (listen ((acc s)\<lparr>acallback := True\<rparr>)) (\<lambda>a.
       Ok ((cluster_start k s)\<lparr>acc := a, checker := timer, stimers := stimers s @ [timer]\<rparr>))"

definition udp_start :: "bool \<Rightarrow> (acceptor \<Rightarrow> acceptor res) \<Rightarrow> nat \<Rightarrow> nat \<Rightarrow> server \<Rightarrow> server res" where
  "udp_start il listen timer k s =
     (if srunning s then Ok s
      else let s1 = s\<lparr>srunning := True\<rparr>
           in if il then udp_startInLoop listen timer k s1
              else Ok (s1\<lparr>stasks := stasks s1 @ [StartTask k]\<rparr>))"

definition udp_stopInLoop :: "server \<Rightarrow> server res" where
  "udp_stopInLoop s =
     bindR (acceptor_stopInLoop ((acc s)\<lparr>acallback := False\<rparr>)) (\<lambda>a.
       let s0 = s\<lparr>acc := a, stimers := (if checker s \<noteq> 0 then removeAll (checker s) (stimers s) else stimers s)\<rparr>;
           s1 = closeAll udp_unbind s0
       in Ok (cluster_stop (s1\<lparr>conns := []\<rparr>)))"

definition udp_stop :: "bool \<Rightarrow> server \<Rightarrow> server res" where
  "udp_stop il s =
     (let s1 = s\<lparr>srunning := False\<rparr>
      in if il then udp_stopInLoop s1 else Ok (s1\<lparr>stasks := stasks s1 @ [StopTask]\<rparr>))"

text \<open>The acceptor's callback: \<open>data\<close> is what it takes out of the buffer.\<close>

definition udp_recvMessage :: "int \<Rightarrow> string \<Rightarrow> int \<Rightarrow> byte list \<Rightarrow> server \<Rightarrow> server res" where
  "udp_recvMessage fd key now data s =
     bindR (case map_of (conns s) key of
              Some p \<Rightarrow> Ok (p, s)
            | None \<Rightarrow> bindR (addConnection key 0 now s) (\<lambda>(p, s1).
                Ok (p, notifyConnectionEstablished (udp_bind fd) p s1)))
       (\<lambda>(p, s1). Ok (tell p (Deliver data) s1))"

definition expired :: "int \<Rightarrow> server \<Rightarrow> string \<times> nat \<Rightarrow> bool" where
  "expired now s e \<longleftrightarrow> ExpiredTime < now - pactive (objs s ! snd e)"

definition udp_checkExpired :: "int \<Rightarrow> server \<Rightarrow> server" where
  "udp_checkExpired now s =
     (let deletes = filter (expired now s) (conns s);
          s1 = s\<lparr>conns := filter (\<lambda>e. \<not> expired now s e) (conns s)\<rparr>
      in fold (\<lambda>e. tell (snd e) CloseCmd) deletes s1)"

text \<open>The connection was active: its loop has run \<open>handleReadInLoop\<close>.\<close>

definition peer_active :: "nat \<Rightarrow> int \<Rightarrow> server \<Rightarrow> server" where
  "peer_active p now = on_peer p (\<lambda>c. c\<lparr>pactive := now\<rparr>)"

fun udps_run_next :: "(acceptor \<Rightarrow> acceptor res) \<Rightarrow> nat \<Rightarrow> server \<Rightarrow> server res" where
  "udps_run_next listen timer s = (case stasks s of
     [] \<Rightarrow> Ok s
   | StartTask k # ts \<Rightarrow> udp_startInLoop listen timer k (s\<lparr>stasks := ts\<rparr>)
   | StopTask # ts \<Rightarrow> udp_stopInLoop (s\<lparr>stasks := ts\<rparr>)
   | RemoveTask p # ts \<Rightarrow> Ok (removeConnection udp_unbind p (s\<lparr>stasks := ts\<rparr>)))"


section \<open>The table of connections\<close>

text \<open>
  Every entry of the table is under its connection's index, once, and its connection will report its
  close; the functors and calls concern existing connections.
\<close>

definition srv_inv :: "server \<Rightarrow> bool" where
  "srv_inv s \<longleftrightarrow> distinct (map fst (conns s))
     \<and> (\<forall>(k, p) \<in> set (conns s). p < length (objs s) \<and> pindex (objs s ! p) = k \<and> phook (objs s ! p))
     \<and> (\<forall>p. RemoveTask p \<in> set (stasks s) \<longrightarrow> p < length (objs s))
     \<and> (\<forall>(p, t) \<in> set (ptasks s). p < length (objs s))"

lemma srv_invD:
  assumes "srv_inv s"
  shows "distinct (map fst (conns s))"
    and "(k, p) \<in> set (conns s) \<Longrightarrow> p < length (objs s) \<and> pindex (objs s ! p) = k \<and> phook (objs s ! p)"
    and "RemoveTask p \<in> set (stasks s) \<Longrightarrow> p < length (objs s)"
    and "(p, t) \<in> set (ptasks s) \<Longrightarrow> p < length (objs s)"
  using assms by (auto simp: srv_inv_def)

lemma set_AList_update: "(k', v') \<in> set (AList.update k v al) \<Longrightarrow> distinct (map fst al) \<Longrightarrow>
  (k', v') = (k, v) \<or> (k' \<noteq> k \<and> (k', v') \<in> set al)"
proof (induction al)
  case (Cons e al)
  obtain a b where e: "e = (a, b)" by (cases e)
  show ?case
  proof (cases "a = k")
    case True
    with Cons.prems e have "(k', v') = (k, v) \<or> (k', v') \<in> set al" "k \<notin> fst ` set al" by auto
    then show ?thesis using e True by force
  next
    case False
    then show ?thesis using Cons e by auto
  qed
qed simp

lemma set_AList_delete: "(k', v') \<in> set (AList.delete k al) \<longleftrightarrow> k' \<noteq> k \<and> (k', v') \<in> set al"
  by (auto simp: AList.delete_eq)

lemma srv_inv_tell [inv_intros]: "srv_inv s \<Longrightarrow> p < length (objs s) \<Longrightarrow> srv_inv (tell p t s)"
  by (auto simp: srv_inv_def tell_def)

lemma tell_simps [simp]: "objs (tell p t s) = objs s" "conns (tell p t s) = conns s" "stasks (tell p t s) = stasks s"
  "ptasks (tell p t s) = ptasks s @ [(p, t)]" "acc (tell p t s) = acc s" "threads (tell p t s) = threads s"
  "npairs (tell p t s) = npairs s" "counter (tell p t s) = counter s" "srunning (tell p t s) = srunning s"
  by (simp_all add: tell_def)

lemma on_peer_simps [simp]: "length (objs (on_peer p f s)) = length (objs s)" "conns (on_peer p f s) = conns s"
  "stasks (on_peer p f s) = stasks s" "ptasks (on_peer p f s) = ptasks s" "acc (on_peer p f s) = acc s"
  "threads (on_peer p f s) = threads s" "npairs (on_peer p f s) = npairs s" "counter (on_peer p f s) = counter s"
  "srunning (on_peer p f s) = srunning s"
  by (simp_all add: on_peer_def)

lemma on_peer_nth: "objs (on_peer p f s) ! q = (if q = p \<and> p < length (objs s) then f (objs s ! p) else objs s ! q)"
  by (cases "p < length (objs s)") (auto simp: on_peer_def nth_list_update list_update_beyond)

lemma srv_inv_on_peer:
  assumes "srv_inv s" and "\<And>c. pindex (f c) = pindex c" and "p \<notin> snd ` set (conns s) \<or> (\<forall>c. phook c \<longrightarrow> phook (f c))"
  shows "srv_inv (on_peer p f s)"
proof -
  have "pindex (objs (on_peer p f s) ! q) = k \<and> phook (objs (on_peer p f s) ! q)" if "(k, q) \<in> set (conns s)" for k q
  proof -
    have q: "pindex (objs s ! q) = k" "phook (objs s ! q)" using srv_invD(2) [OF assms(1) that] by simp_all
    have "q \<in> snd ` set (conns s)" using that by force
    then have "q = p \<Longrightarrow> phook (f (objs s ! q))" using assms(3) q(2) by blast
    then show ?thesis using q assms(2) by (auto simp: on_peer_nth)
  qed
  then show ?thesis using assms(1) by (auto simp: srv_inv_def)
qed

section \<open>What the subclasses promise\<close>

text \<open>
  \<open>bindDefaultCallbacks\<close> and \<open>unbindDefaultCallbacks\<close> are virtual: \<open>UdpServer\<close> overrides them. \<open>Server\<close> relies on
  this contract: they set and clear the close callback of the one connection, and leave its index,
  its loop and its time of activity alone.
\<close>

definition sets_hook :: "bool \<Rightarrow> (peer \<Rightarrow> peer) \<Rightarrow> bool" where
  "sets_hook v f \<longleftrightarrow> (\<forall>c. pindex (f c) = pindex c \<and> peer_loop (f c) = peer_loop c \<and> pactive (f c) = pactive c
     \<and> phook (f c) = v)"

lemma on_peer_on_peer: "on_peer p f (on_peer p g s) = on_peer p (f \<circ> g) s"
  by (cases "p < length (objs s)") (simp_all add: on_peer_def list_update_beyond)

locale server_hooks =
  fixes bind :: "nat \<Rightarrow> server \<Rightarrow> server"
    and unbind :: "nat \<Rightarrow> server \<Rightarrow> server"
  assumes bind_hook: "\<exists>f. bind p s = on_peer p f s \<and> sets_hook True f"
    and unbind_hook: "\<exists>f. unbind p s = on_peer p f s \<and> sets_hook False f"
begin

lemma bindE:
  obtains f where "bind p s = on_peer p f s" and "\<And>c. pindex (f c) = pindex c" and "\<And>c. phook (f c)"
  using bind_hook [of p s] unfolding sets_hook_def by metis

lemma unbindE:
  obtains f where "unbind p s = on_peer p f s" and "\<And>c. pindex (f c) = pindex c" and "\<And>c. phook (f c) = False"
    and "\<And>c. peer_loop (f c) = peer_loop c" and "\<And>c. pactive (f c) = pactive c"
  using unbind_hook [of p s] unfolding sets_hook_def by metis

end

interpretation tcp_hooks: server_hooks bindDefaultCallbacks unbindDefaultCallbacks
proof
  fix p s
  show "\<exists>f. bindDefaultCallbacks p s = on_peer p f s \<and> sets_hook True f"
    by (intro exI [of _ "\<lambda>c. c\<lparr>phook := True\<rparr>"]) (simp add: bindDefaultCallbacks_def sets_hook_def)
  show "\<exists>f. unbindDefaultCallbacks p s = on_peer p f s \<and> sets_hook False f"
    by (intro exI [of _ "\<lambda>c. c\<lparr>phook := False\<rparr>"]) (simp add: unbindDefaultCallbacks_def sets_hook_def)
qed

interpretation udp_hooks: server_hooks "udp_bind fd" udp_unbind for fd
proof
  fix p s
  show "\<exists>f. udp_bind fd p s = on_peer p f s \<and> sets_hook True f"
    by (intro exI [of _ "(\<lambda>c. c\<lparr>pfd := fd\<rparr>) \<circ> (\<lambda>c. c\<lparr>phook := True\<rparr>)"])
      (simp add: udp_bind_def bindDefaultCallbacks_def on_peer_on_peer sets_hook_def)
  show "\<exists>f. udp_unbind p s = on_peer p f s \<and> sets_hook False f"
    by (intro exI [of _ "(\<lambda>c. c\<lparr>pfd := 0\<rparr>) \<circ> (\<lambda>c. c\<lparr>phook := False\<rparr>)"])
      (simp add: udp_unbind_def unbindDefaultCallbacks_def on_peer_on_peer sets_hook_def)
qed


section \<open>Operations keep the invariant\<close>

lemma srv_inv_fields:
  assumes "srv_inv s" and "conns s' = conns s" and "objs s' = objs s" and "set (stasks s') \<subseteq> set (stasks s)"
    and "ptasks s' = ptasks s"
  shows "srv_inv s'"
  using assms unfolding srv_inv_def by auto

context server_hooks
begin

lemma addConnection_inv:
  assumes "srv_inv s" and "addConnection key raw now s = Ok (p, s1)"
  shows "srv_inv (notifyConnectionEstablished bind p s1)" and "p = length (objs s)"
    and "conns (notifyConnectionEstablished bind p s1) = AList.update key p (conns s)"
    and "ptasks (notifyConnectionEstablished bind p s1) = ptasks s @ [(p, Establish)]"
    and "stasks (notifyConnectionEstablished bind p s1) = stasks s"
    and "length (objs (notifyConnectionEstablished bind p s1)) = Suc (length (objs s))"
    and "q < length (objs s) \<Longrightarrow> objs (notifyConnectionEstablished bind p s1) ! q = objs s ! q"
    and "pindex (objs (notifyConnectionEstablished bind p s1) ! p) = key"
    and "phook (objs (notifyConnectionEstablished bind p s1) ! p)"
proof -
  obtain l c where p: "p = length (objs s)" and s1: "s1 = s\<lparr>counter := c,
      objs := objs s @ [\<lparr>pindex = key, peer_loop = l, phook = False, pfd = raw, pactive = now\<rparr>],
      conns := AList.update key p (conns s)\<rparr>"
    using assms(2) by (auto simp: addConnection_def Let_def)
  obtain f where f: "bind p s1 = on_peer p f s1" "\<And>c. pindex (f c) = pindex c" "\<And>c. phook (f c)"
    using bindE by metis
  let ?s = "notifyConnectionEstablished bind p s1"
  have eq: "?s = tell p Establish (on_peer p f s1)" by (simp add: notifyConnectionEstablished_def f(1))
  show "p = length (objs s)" by (rule p)
  show conns: "conns ?s = AList.update key p (conns s)" and tasks: "ptasks ?s = ptasks s @ [(p, Establish)]"
    and st: "stasks ?s = stasks s" and len: "length (objs ?s) = Suc (length (objs s))" unfolding eq by (simp_all add: s1)
  show old: "objs ?s ! q = objs s ! q" if "q < length (objs s)" for q
    using that p unfolding eq by (simp add: s1 on_peer_nth nth_append)
  show new: "pindex (objs ?s ! p) = key" "phook (objs ?s ! p)"
    using p f(2,3) unfolding eq by (simp_all add: s1 on_peer_nth)
  have "q < length (objs ?s) \<and> pindex (objs ?s ! q) = k \<and> phook (objs ?s ! q)" if "(k, q) \<in> set (conns ?s)" for k q
  proof -
    have "(k, q) = (key, p) \<or> (k, q) \<in> set (conns s)"
      using set_AList_update [OF _ srv_invD(1) [OF assms(1)]] that unfolding conns by blast
    then show ?thesis using srv_invD(2) [OF assms(1), of k q] new p len old by auto
  qed
  moreover have "distinct (map fst (conns ?s))"
    unfolding conns using srv_invD(1) [OF assms(1)] by (rule AList.distinct_update)
  moreover have "q < length (objs ?s)" if "RemoveTask q \<in> set (stasks ?s)" for q
    using srv_invD(3) [OF assms(1), of q] that st len by simp
  moreover have "q < length (objs ?s)" if "(q, t) \<in> set (ptasks ?s)" for q t
    using srv_invD(4) [OF assms(1), of q t] that tasks len p by auto
  ultimately show "srv_inv ?s" unfolding srv_inv_def by blast
qed

lemma removeConnection_eq:
  obtains f where "removeConnection unbind p s = (on_peer p f s)\<lparr>conns := AList.delete (pindex (objs s ! p)) (conns s)\<rparr>"
    and "\<And>c. pindex (f c) = pindex c" and "\<And>c. peer_loop (f c) = peer_loop c" and "\<And>c. pactive (f c) = pactive c"
    and "\<And>c. phook (f c) = False"
proof -
  obtain f where f: "unbind p s = on_peer p f s" "\<And>c. pindex (f c) = pindex c" "\<And>c. phook (f c) = False"
    "\<And>c. peer_loop (f c) = peer_loop c" "\<And>c. pactive (f c) = pactive c" using unbindE by metis
  have "pindex (objs (unbind p s) ! p) = pindex (objs s ! p)" by (simp add: f(1,2) on_peer_nth)
  then show ?thesis using f by (intro that [of f]) (simp_all add: removeConnection_def Let_def)
qed

lemma removeConnection_inv:
  assumes inv: "srv_inv s"
  shows "srv_inv (removeConnection unbind p s)"
proof -
  obtain f where eq: "removeConnection unbind p s = (on_peer p f s)\<lparr>conns := AList.delete (pindex (objs s ! p)) (conns s)\<rparr>"
    and f: "\<And>c. pindex (f c) = pindex c" using removeConnection_eq by metis
  let ?s = "s\<lparr>conns := AList.delete (pindex (objs s ! p)) (conns s)\<rparr>"
  have "distinct (map fst (conns ?s))" using srv_invD(1) [OF inv] by (simp add: AList.distinct_delete)
  then have s: "srv_inv ?s" using inv by (auto simp: srv_inv_def set_AList_delete)
  moreover have "p \<notin> snd ` set (conns ?s)"
    using srv_invD(2) [OF inv] by (auto simp: set_AList_delete)
  ultimately have "srv_inv (on_peer p f ?s)" using f by (intro srv_inv_on_peer) auto
  moreover have "on_peer p f ?s = removeConnection unbind p s" by (simp add: eq on_peer_def)
  ultimately show ?thesis by simp
qed

end

lemma onClosed_inv: "srv_inv s \<Longrightarrow> p < length (objs s) \<Longrightarrow> srv_inv (onClosedInConnection p s)"
  by (auto simp: onClosedInConnection_def srv_inv_def)

text \<open>The end of \<open>stop\<close>: \<open>closeAll\<close> tells every connection of the table to close and unbinds it.\<close>

definition closed_down :: "(nat \<Rightarrow> server \<Rightarrow> server) \<Rightarrow> server \<Rightarrow> server" where
  "closed_down u s = cluster_stop ((closeAll u s)\<lparr>conns := []\<rparr>)"

context server_hooks
begin

lemma closeAll_result:
  assumes inv: "srv_inv s"
  shows "ptasks (closeAll unbind s) = ptasks s @ map (\<lambda>e. (snd e, CloseCmd)) (conns s)"
    and "conns (closeAll unbind s) = conns s" and "stasks (closeAll unbind s) = stasks s" and "acc (closeAll unbind s) = acc s"
    and "length (objs (closeAll unbind s)) = length (objs s)"
    and "pindex (objs (closeAll unbind s) ! q) = pindex (objs s ! q)"
    and "phook (objs (closeAll unbind s) ! q) \<longleftrightarrow> phook (objs s ! q) \<and> q \<notin> snd ` set (conns s)"
proof -
  let ?g = "fold (\<lambda>(k, p). tell p CloseCmd \<circ> unbind p)"
  have gen: "ptasks (?g es s) = ptasks s @ map (\<lambda>e. (snd e, CloseCmd)) es \<and> conns (?g es s) = conns s
      \<and> stasks (?g es s) = stasks s \<and> acc (?g es s) = acc s \<and> length (objs (?g es s)) = length (objs s)
      \<and> (\<forall>q. pindex (objs (?g es s) ! q) = pindex (objs s ! q)
           \<and> (phook (objs (?g es s) ! q) \<longleftrightarrow> phook (objs s ! q) \<and> q \<notin> snd ` set es))"
    if "snd ` set es \<subseteq> {..<length (objs s)}" for es s
    using that
  proof (induction es arbitrary: s)
    case (Cons e es)
    obtain k p where e: "e = (k, p)" by (cases e)
    obtain f where f: "unbind p s = on_peer p f s" "\<And>c. pindex (f c) = pindex c" "\<And>c. phook (f c) = False"
      using unbindE by metis
    let ?s = "tell p CloseCmd (on_peer p f s)"
    have "p < length (objs s)" using Cons.prems e by simp
    moreover have "snd ` set es \<subseteq> {..<length (objs ?s)}" using Cons.prems by simp
    note Cons.IH [OF this]
    ultimately show ?case using e f by (auto simp: on_peer_nth)
  qed simp
  have "snd ` set (conns s) \<subseteq> {..<length (objs s)}" using srv_invD(2) [OF inv] by force
  from gen [OF this]
  show "ptasks (closeAll unbind s) = ptasks s @ map (\<lambda>e. (snd e, CloseCmd)) (conns s)"
    "conns (closeAll unbind s) = conns s" "stasks (closeAll unbind s) = stasks s" "acc (closeAll unbind s) = acc s"
    "length (objs (closeAll unbind s)) = length (objs s)" "pindex (objs (closeAll unbind s) ! q) = pindex (objs s ! q)"
    "phook (objs (closeAll unbind s) ! q) \<longleftrightarrow> phook (objs s ! q) \<and> q \<notin> snd ` set (conns s)"
    unfolding closeAll_def by blast+
qed

lemma closeAll_frame: "srunning (closeAll unbind s) = srunning s" "stimers (closeAll unbind s) = stimers s"
proof -
  have "srunning (fold (\<lambda>(k, p). tell p CloseCmd \<circ> unbind p) es r) = srunning r
      \<and> stimers (fold (\<lambda>(k, p). tell p CloseCmd \<circ> unbind p) es r) = stimers r" for es r
  proof (induction es arbitrary: r)
    case (Cons e es)
    obtain k p where "e = (k, p)" by (cases e)
    moreover obtain f where "unbind p r = on_peer p f r" using unbindE by metis
    ultimately show ?case using Cons by (simp add: tell_def on_peer_def)
  qed simp
  then show "srunning (closeAll unbind s) = srunning s" "stimers (closeAll unbind s) = stimers s"
    unfolding closeAll_def by blast+
qed

lemma closed_down_inv:
  assumes "srv_inv s"
  shows "srv_inv (closed_down unbind s)"
  using closeAll_result [OF assms] srv_invD [OF assms] by (force simp: srv_inv_def cluster_stop_def closed_down_def)

text \<open>Each connection of the table is told once to close, nobody else is told anything.\<close>

lemma closed_down_calls:
  assumes inv: "srv_inv s"
  shows "map snd (filter (\<lambda>e. fst e = p) (ptasks (closed_down unbind s))) = map snd (filter (\<lambda>e. fst e = p) (ptasks s))
      @ (if p \<in> snd ` set (conns s) then [CloseCmd] else [])"
proof -
  have once: "filter (\<lambda>e. fst e = p) (map (\<lambda>e. (snd e, CloseCmd)) es) = (if p \<in> snd ` set es then [(p, CloseCmd)] else [])"
    if "distinct (map snd es)" for es
    using that by (induction es) auto
  have "distinct (map snd (conns s))"
  proof -
    have "inj_on snd (set (conns s))"
      using srv_invD(2) [OF inv] by (intro inj_onI prod_eqI) (metis prod.collapse)+
    then show ?thesis using srv_invD(1) [OF inv] by (simp add: distinct_map)
  qed
  from once [OF this] show ?thesis
    using closeAll_result(1) [OF inv] by (simp add: closed_down_def cluster_stop_def del: filter_map)
qed

end


section \<open>Runs\<close>

text \<open>
  What can happen to a server, in any order: its methods, a new peer, a datagram, the expiry timer, the
  close of a connection (which closes once), activity of a connection, the next functor of its loop.
\<close>

datatype tcps_op = TStart bool nat | TStop bool | TAccept string int | TClosed nat | TNext

datatype udps_op = UStart bool nat nat | UStop bool | URecv string int "byte list" | UExpire int | UActive nat int
  | UClosed nat | UNext nat

fun tcps_do :: "(acceptor \<Rightarrow> acceptor res) \<Rightarrow> tcps_op \<Rightarrow> server \<Rightarrow> server res" where
  "tcps_do listen (TStart il k) s = tcp_start il listen k s"
| "tcps_do listen (TStop il) s = tcp_stop il s"
| "tcps_do listen (TAccept key now) s = tcp_newConnection key now s"
| "tcps_do listen (TClosed p) s = Ok (if p < length (objs s) then onClosedInConnection p s else s)"
| "tcps_do listen TNext s = tcp_run_next listen s"

fun udps_do :: "(acceptor \<Rightarrow> acceptor res) \<Rightarrow> int \<Rightarrow> udps_op \<Rightarrow> server \<Rightarrow> server res" where
  "udps_do listen fd (UStart il timer k) s = udp_start il listen timer k s"
| "udps_do listen fd (UStop il) s = udp_stop il s"
| "udps_do listen fd (URecv key now data) s = udp_recvMessage fd key now data s"
| "udps_do listen fd (UExpire now) s = Ok (udp_checkExpired now s)"
| "udps_do listen fd (UActive p now) s = Ok (if p < length (objs s) then peer_active p now s else s)"
| "udps_do listen fd (UClosed p) s = Ok (if p < length (objs s) then onClosedInConnection p s else s)"
| "udps_do listen fd (UNext timer) s = udps_run_next listen timer s"

primrec tcps_run :: "(acceptor \<Rightarrow> acceptor res) \<Rightarrow> tcps_op list \<Rightarrow> server \<Rightarrow> server res" where
  "tcps_run listen [] s = Ok s"
| "tcps_run listen (x # xs) s = bindR (tcps_do listen x s) (tcps_run listen xs)"

primrec udps_run :: "(acceptor \<Rightarrow> acceptor res) \<Rightarrow> int \<Rightarrow> udps_op list \<Rightarrow> server \<Rightarrow> server res" where
  "udps_run listen fd [] s = Ok s"
| "udps_run listen fd (x # xs) s = bindR (udps_do listen fd x s) (udps_run listen fd xs)"

lemma tell_all: "fold (\<lambda>e. tell (f e) t) es s = s\<lparr>ptasks := ptasks s @ map (\<lambda>e. (f e, t)) es\<rparr>"
  by (induction es arbitrary: s) (simp_all add: tell_def)

lemma checkExpired_eq:
  "udp_checkExpired now s = s\<lparr>conns := filter (\<lambda>e. \<not> expired now s e) (conns s),
     ptasks := ptasks s @ map (\<lambda>e. (snd e, CloseCmd)) (filter (expired now s) (conns s))\<rparr>"
  by (simp add: udp_checkExpired_def tell_all)

lemma start_inv:
  assumes "srv_inv s"
  shows "tcp_startInLoop listen k s = Ok s' \<Longrightarrow> srv_inv s'" and "udp_startInLoop listen timer k s = Ok s' \<Longrightarrow> srv_inv s'"
  by (auto simp: tcp_startInLoop_def udp_startInLoop_def cluster_start_def intro: srv_inv_fields [OF assms])

lemma stop_D:
  shows "tcp_stopInLoop s = Ok s' \<Longrightarrow> \<exists>a. s' = closed_down unbindDefaultCallbacks (s\<lparr>acc := a\<rparr>)"
    and "udp_stopInLoop s = Ok s' \<Longrightarrow> \<exists>a ts. s' = closed_down udp_unbind (s\<lparr>acc := a, stimers := ts\<rparr>)"
  unfolding tcp_stopInLoop_def udp_stopInLoop_def closed_down_def Let_def by blast+

lemma stop_inv:
  assumes inv: "srv_inv s"
  shows "tcp_stopInLoop s = Ok s' \<Longrightarrow> srv_inv s'" and "udp_stopInLoop s = Ok s' \<Longrightarrow> srv_inv s'"
  by (auto dest!: stop_D intro!: tcp_hooks.closed_down_inv udp_hooks.closed_down_inv intro: srv_inv_fields [OF inv])

lemma tcp_newConnection_D:
  assumes "tcp_newConnection key now s = Ok s'"
  obtains p s1 where "addConnection key 0 now s = Ok (p, s1)" and "s' = notifyConnectionEstablished bindDefaultCallbacks p s1"
  using assms by (auto simp: tcp_newConnection_def in_base_def in_acceptor_loop_def split: if_splits)

lemma udp_recvMessage_D:
  assumes "udp_recvMessage fd key now data s = Ok s'"
  obtains (old) p where "map_of (conns s) key = Some p" and "s' = tell p (Deliver data) s"
  | (new) p s1 where "map_of (conns s) key = None" and "addConnection key 0 now s = Ok (p, s1)"
      and "s' = tell p (Deliver data) (notifyConnectionEstablished (udp_bind fd) p s1)"
  using assms by (cases "map_of (conns s) key") (auto simp: udp_recvMessage_def)

lemma peer_active_inv: "srv_inv s \<Longrightarrow> srv_inv (peer_active p now s)"
  unfolding peer_active_def by (rule srv_inv_on_peer) simp_all

lemma tcps_do_inv:
  assumes inv: "srv_inv s" and run: "tcps_do listen x s = Ok s'"
  shows "srv_inv s'"
proof (cases x)
  case (TStart il k)
  have "srv_inv (s\<lparr>srunning := True\<rparr>)" "srv_inv (s\<lparr>srunning := True, stasks := stasks s @ [StartTask k]\<rparr>)"
    using inv by (auto simp: srv_inv_def)
  then show ?thesis using run TStart inv by (auto simp: tcp_start_def Let_def dest: start_inv(1) split: if_splits)
next
  case (TStop il)
  have "srv_inv (s\<lparr>srunning := False\<rparr>)" "srv_inv (s\<lparr>srunning := False, stasks := stasks s @ [StopTask]\<rparr>)"
    using inv by (auto simp: srv_inv_def)
  then show ?thesis using run TStop by (auto simp: tcp_stop_def Let_def dest: stop_inv(1) split: if_splits)
next
  case (TAccept key now)
  then have "tcp_newConnection key now s = Ok s'" using run by simp
  then show ?thesis by (rule tcp_newConnection_D) (use tcp_hooks.addConnection_inv(1) [OF inv] in simp)
next
  case (TClosed p)
  then show ?thesis using run inv onClosed_inv by (auto split: if_splits)
next
  case TNext
  then have run': "tcp_run_next listen s = Ok s'" using run by simp
  show ?thesis
  proof (cases "stasks s")
    case (Cons t ts)
    have s: "srv_inv (s\<lparr>stasks := ts\<rparr>)" using inv Cons by (auto simp: srv_inv_def)
    then show ?thesis using run' Cons tcp_hooks.removeConnection_inv [OF s] start_inv(1) [OF s] stop_inv(1) [OF s]
      by (cases t) (auto simp: in_base_def in_acceptor_loop_def split: if_splits)
  qed (use run' inv in simp)
qed

lemma udps_do_inv:
  assumes inv: "srv_inv s" and run: "udps_do listen fd x s = Ok s'"
  shows "srv_inv s'"
proof (cases x)
  case (UStart il timer k)
  have "srv_inv (s\<lparr>srunning := True\<rparr>)" "srv_inv (s\<lparr>srunning := True, stasks := stasks s @ [StartTask k]\<rparr>)"
    using inv by (auto simp: srv_inv_def)
  then show ?thesis using run UStart inv by (auto simp: udp_start_def Let_def dest: start_inv(2) split: if_splits)
next
  case (UStop il)
  have "srv_inv (s\<lparr>srunning := False\<rparr>)" "srv_inv (s\<lparr>srunning := False, stasks := stasks s @ [StopTask]\<rparr>)"
    using inv by (auto simp: srv_inv_def)
  then show ?thesis using run UStop by (auto simp: udp_stop_def Let_def dest: stop_inv(2) split: if_splits)
next
  case (URecv key now data)
  then have "udp_recvMessage fd key now data s = Ok s'" using run by simp
  then show ?thesis
  proof (cases rule: udp_recvMessage_D)
    case (old p)
    then show ?thesis using srv_invD(2) [OF inv map_of_SomeD] inv by (auto intro: srv_inv_tell)
  next
    case (new p s1)
    note add = udp_hooks.addConnection_inv [OF inv new(2)]
    show ?thesis unfolding new(3) by (rule srv_inv_tell [OF add(1)]) (use add(2,6) in simp)
  qed
next
  case (UExpire now)
  have "distinct (map fst (filter P (conns s)))" for P
    using srv_invD(1) [OF inv] by (rule distinct_map_filter)
  moreover have "p < length (objs s)" if "(k, p) \<in> set (conns s)" for k p using srv_invD(2) [OF inv that] by simp
  ultimately show ?thesis using run UExpire inv by (fastforce simp: checkExpired_eq srv_inv_def)
next
  case (UActive p now)
  then show ?thesis using run inv peer_active_inv by (auto split: if_splits)
next
  case (UClosed p)
  then show ?thesis using run inv onClosed_inv by (auto split: if_splits)
next
  case (UNext timer)
  then have run': "udps_run_next listen timer s = Ok s'" using run by simp
  show ?thesis
  proof (cases "stasks s")
    case (Cons t ts)
    have s: "srv_inv (s\<lparr>stasks := ts\<rparr>)" using inv Cons by (auto simp: srv_inv_def)
    then show ?thesis using run' Cons udp_hooks.removeConnection_inv [OF s] start_inv(2) [OF s] stop_inv(2) [OF s]
      by (cases t) auto
  qed (use run' inv in simp)
qed

lemma new_server_inv: "srv_inv (newServer a)"
  by (simp add: srv_inv_def newServer_def)

lemma tcps_run_inv: "srv_inv s \<Longrightarrow> tcps_run listen xs s = Ok s' \<Longrightarrow> srv_inv s'"
  by (induction xs arbitrary: s) (auto dest: tcps_do_inv)

lemma udps_run_inv: "srv_inv s \<Longrightarrow> udps_run listen fd xs s = Ok s' \<Longrightarrow> srv_inv s'"
  by (induction xs arbitrary: s) (auto dest: udps_do_inv)


section \<open>What the connections are told\<close>

text \<open>One operation adds calls and perhaps a connection; indices never change.\<close>

definition extends :: "server \<Rightarrow> server \<Rightarrow> (nat \<times> peer_task) list \<Rightarrow> bool" where
  "extends s s' ts \<longleftrightarrow> ptasks s' = ptasks s @ ts \<and> (\<forall>(q, t) \<in> set ts. q < length (objs s'))
     \<and> (\<forall>q < length (objs s). pindex (objs s' ! q) = pindex (objs s ! q))
     \<and> (length (objs s') = length (objs s) \<and> Establish \<notin> snd ` set ts
        \<or> length (objs s') = Suc (length (objs s))
          \<and> (\<exists>us. ts = (length (objs s), Establish) # us \<and> Establish \<notin> snd ` set us))"

lemma extends_same:
  assumes "length (objs s') = length (objs s)" and "ptasks s' = ptasks s @ ts"
    and "\<And>q. pindex (objs s' ! q) = pindex (objs s ! q)"
    and "\<And>q t. (q, t) \<in> set ts \<Longrightarrow> q < length (objs s) \<and> t \<noteq> Establish"
  shows "extends s s' ts"
  using assms unfolding extends_def by fastforce

lemma extends_refl:
  assumes "objs s' = objs s" and "ptasks s' = ptasks s"
  shows "extends s s' []"
  by (rule extends_same) (use assms in simp_all)

definition datas :: "server \<Rightarrow> string \<Rightarrow> (nat \<times> peer_task) list \<Rightarrow> byte list list" where
  "datas s k ts = concat (map (\<lambda>(p, t). case t of Deliver d \<Rightarrow> if pindex (objs s ! p) = k then [d] else [] | _ \<Rightarrow> []) ts)"

lemma datas_append [simp]: "datas s k (ts @ us) = datas s k ts @ datas s k us" "datas s k [] = []"
  by (simp_all add: datas_def)

lemma datas_no: "(\<And>q t. (q, t) \<in> set ts \<Longrightarrow> \<forall>d. t \<noteq> Deliver d) \<Longrightarrow> datas s k ts = []"
  by (induction ts) (force simp: datas_def split: peer_task.split)+

lemma datas_same: "(\<And>q t. (q, t) \<in> set ts \<Longrightarrow> pindex (objs s' ! q) = pindex (objs s ! q)) \<Longrightarrow> datas s' k ts = datas s k ts"
proof (induction ts)
  case (Cons e ts)
  obtain q t where e: "e = (q, t)" by (cases e)
  then have "pindex (objs s' ! q) = pindex (objs s ! q)" using Cons.prems [of q t] by simp
  moreover have "datas s' k ts = datas s k ts" by (rule Cons.IH, rule Cons.prems, erule list.set_intros(2))
  ultimately show ?case using e by (simp add: datas_def)
qed simp

text \<open>What an operation delivers to the connections of the peer \<open>k\<close>.\<close>

definition recv_of :: "string \<Rightarrow> udps_op \<Rightarrow> byte list list" where
  "recv_of k x = (case x of URecv key now data \<Rightarrow> if key = k then [data] else [] | _ \<Rightarrow> [])"

context server_hooks
begin

lemma remove_extends: "extends s (removeConnection unbind p s) []"
proof -
  obtain f where "removeConnection unbind p s = (on_peer p f s)\<lparr>conns := AList.delete (pindex (objs s ! p)) (conns s)\<rparr>"
    "\<And>c. pindex (f c) = pindex c" using removeConnection_eq by metis
  then show ?thesis by (intro extends_same) (simp_all add: on_peer_nth)
qed

lemma add_extends:
  assumes "srv_inv s" and "addConnection key raw now s = Ok (p, s1)"
  shows "extends s (notifyConnectionEstablished bind p s1) [(p, Establish)]"
  using addConnection_inv [OF assms] by (simp add: extends_def)

lemma closed_down_extends:
  assumes inv: "srv_inv s"
  shows "extends s (closed_down unbind s) (map (\<lambda>e. (snd e, CloseCmd)) (conns s))"
proof (rule extends_same)
  note c = closeAll_result [OF inv]
  show "length (objs (closed_down unbind s)) = length (objs s)"
    "ptasks (closed_down unbind s) = ptasks s @ map (\<lambda>e. (snd e, CloseCmd)) (conns s)"
    "pindex (objs (closed_down unbind s) ! q) = pindex (objs s ! q)" for q
    using c(1,5) c(6) [of q] by (simp_all add: cluster_stop_def closed_down_def)
  show "q < length (objs s) \<and> t \<noteq> Establish" if "(q, t) \<in> set (map (\<lambda>e. (snd e, CloseCmd)) (conns s))" for q t
    using srv_invD(2) [OF inv] that by auto
qed

end

lemma onClosed_extends: "extends s (onClosedInConnection p s) []"
  by (rule extends_refl) (simp_all add: onClosedInConnection_def)

lemma start_extends:
  shows "tcp_startInLoop listen k s = Ok s' \<Longrightarrow> extends s s' []" and "udp_startInLoop listen timer k s = Ok s' \<Longrightarrow> extends s s' []"
  by (auto simp: tcp_startInLoop_def udp_startInLoop_def cluster_start_def intro!: extends_refl)

lemma stop_extends:
  assumes inv: "srv_inv s"
  shows "tcp_stopInLoop s = Ok s' \<Longrightarrow> \<exists>ts. extends s s' ts \<and> (\<forall>e \<in> set ts. snd e = CloseCmd)"
    and "udp_stopInLoop s = Ok s' \<Longrightarrow> \<exists>ts. extends s s' ts \<and> (\<forall>e \<in> set ts. snd e = CloseCmd)"
proof -
  have same: "extends r t ts \<Longrightarrow> objs r = objs s \<Longrightarrow> ptasks r = ptasks s \<Longrightarrow> extends s t ts" for r t ts
    by (simp add: extends_def)
  have inv': "srv_inv (s\<lparr>acc := a\<rparr>)" "srv_inv (s\<lparr>acc := a, stimers := ts\<rparr>)" for a ts using inv by (auto simp: srv_inv_def)
  show "\<exists>ts. extends s s' ts \<and> (\<forall>e \<in> set ts. snd e = CloseCmd)" if run: "tcp_stopInLoop s = Ok s'"
  proof -
    obtain a where s': "s' = closed_down unbindDefaultCallbacks (s\<lparr>acc := a\<rparr>)" using stop_D(1) [OF run] by blast
    show ?thesis unfolding s' using same [OF tcp_hooks.closed_down_extends [OF inv'(1)]] by (auto intro!: exI)
  qed
  show "\<exists>ts. extends s s' ts \<and> (\<forall>e \<in> set ts. snd e = CloseCmd)" if run: "udp_stopInLoop s = Ok s'"
  proof -
    obtain a ts where s': "s' = closed_down udp_unbind (s\<lparr>acc := a, stimers := ts\<rparr>)" using stop_D(2) [OF run] by blast
    show ?thesis unfolding s' using same [OF udp_hooks.closed_down_extends [OF inv'(2)]] by (auto intro!: exI)
  qed
qed

lemma tcps_do_extends:
  assumes inv: "srv_inv s" and run: "tcps_do listen x s = Ok s'"
  shows "\<exists>ts. extends s s' ts"
proof (cases x)
  case (TStart il k)
  then show ?thesis using run start_extends(1) [of listen k "s\<lparr>srunning := True\<rparr>" s']
    by (auto simp: tcp_start_def Let_def extends_def split: if_splits)
next
  case (TStop il)
  have "srv_inv (s\<lparr>srunning := False\<rparr>)" using inv by (auto simp: srv_inv_def)
  from stop_extends(1) [OF this, of s'] show ?thesis using run TStop
    by (auto simp: tcp_stop_def Let_def extends_def split: if_splits)
next
  case (TAccept key now)
  then have "tcp_newConnection key now s = Ok s'" using run by simp
  then show ?thesis by (rule tcp_newConnection_D) (use tcp_hooks.add_extends [OF inv] in blast)
next
  case (TClosed p)
  then show ?thesis using run onClosed_extends [of s p] extends_refl [of s s] by (auto split: if_splits)
next
  case TNext
  then have run': "tcp_run_next listen s = Ok s'" using run by simp
  show ?thesis
  proof (cases "stasks s")
    case Nil
    then show ?thesis using run' extends_refl [of s s] by auto
  next
    case (Cons t ts)
    let ?s = "s\<lparr>stasks := ts\<rparr>"
    have inv': "srv_inv ?s" using inv Cons by (auto simp: srv_inv_def)
    have "\<exists>us. extends ?s s' us"
      using run' Cons tcp_hooks.remove_extends [of ?s] start_extends(1) [of listen _ ?s s'] stop_extends(1) [OF inv', of s']
      by (cases t) (auto simp: in_base_def in_acceptor_loop_def split: if_splits)
    then show ?thesis by (simp add: extends_def)
  qed
qed

lemma udps_do_extends:
  assumes inv: "srv_inv s" and run: "udps_do listen fd x s = Ok s'"
  shows "\<exists>ts. extends s s' ts \<and> datas s' k ts = recv_of k x"
proof -
  have quiet: "\<exists>ts. extends s s' ts \<and> datas s' k ts = []"
    if "\<exists>ts. extends s s' ts \<and> (\<forall>e \<in> set ts. snd e = CloseCmd)"
    using that by (metis datas_no peer_task.distinct(5) snd_conv)
  show ?thesis
  proof (cases x)
    case (UStart il timer k')
    have "extends s s' []"
      using run UStart start_extends(2) [of listen timer k' "s\<lparr>srunning := True\<rparr>" s']
      by (auto simp: udp_start_def Let_def extends_def split: if_splits)
    then show ?thesis using UStart by (auto simp: recv_of_def)
  next
    case (UStop il)
    have "srv_inv (s\<lparr>srunning := False\<rparr>)" using inv by (auto simp: srv_inv_def)
    from stop_extends(2) [OF this, of s'] have "\<exists>ts. extends s s' ts \<and> (\<forall>e \<in> set ts. snd e = CloseCmd)"
      using run UStop by (auto simp: udp_stop_def Let_def extends_def split: if_splits)
    from quiet [OF this] show ?thesis using UStop by (simp add: recv_of_def)
  next
    case (URecv key now data)
    then have "udp_recvMessage fd key now data s = Ok s'" using run by simp
    then show ?thesis
    proof (cases rule: udp_recvMessage_D)
      case (old p)
      note p = srv_invD(2) [OF inv map_of_SomeD [OF old(1)]]
      have "extends s s' [(p, Deliver data)]" by (rule extends_same) (use p old(2) in auto)
      then show ?thesis using p old(2) URecv by (intro exI conjI) (auto simp: datas_def recv_of_def)
    next
      case (new p s1)
      let ?s = "notifyConnectionEstablished (udp_bind fd) p s1"
      note a = udp_hooks.addConnection_inv [OF inv new(2)]
      have "extends s s' [(p, Establish), (p, Deliver data)]"
        using udp_hooks.add_extends [OF inv new(2)] a(2,6) new(3) by (auto simp: extends_def)
      then show ?thesis using a(8) new(3) URecv by (intro exI conjI) (auto simp: datas_def recv_of_def)
    qed
  next
    case (UExpire now)
    have "extends s s' (map (\<lambda>e. (snd e, CloseCmd)) (filter (expired now s) (conns s)))"
      by (rule extends_same) (use run UExpire srv_invD(2) [OF inv] in \<open>auto simp: checkExpired_eq\<close>)
    then have "\<exists>ts. extends s s' ts \<and> (\<forall>e \<in> set ts. snd e = CloseCmd)" by (intro exI conjI) auto
    from quiet [OF this] show ?thesis using UExpire by (simp add: recv_of_def)
  next
    case (UActive p now)
    have "extends s s' []"
      by (rule extends_same) (use run UActive in \<open>auto simp: peer_active_def on_peer_nth split: if_splits\<close>)
    then show ?thesis using UActive by (auto simp: recv_of_def)
  next
    case (UClosed p)
    have "extends s s' []" using run UClosed onClosed_extends [of s p] extends_refl [of s s] by (auto split: if_splits)
    then show ?thesis using UClosed by (auto simp: recv_of_def)
  next
    case (UNext timer)
    then have run': "udps_run_next listen timer s = Ok s'" using run by simp
    have "\<exists>ts. extends s s' ts \<and> (\<forall>e \<in> set ts. snd e = CloseCmd)"
    proof (cases "stasks s")
      case Nil
      then show ?thesis using run' extends_refl [of s s] by auto
    next
      case (Cons t ts)
      let ?s = "s\<lparr>stasks := ts\<rparr>"
      have inv': "srv_inv ?s" using inv Cons by (auto simp: srv_inv_def)
      have "\<exists>us. extends ?s s' us \<and> (\<forall>e \<in> set us. snd e = CloseCmd)"
        using run' Cons udp_hooks.remove_extends [of ?s] start_extends(2) [of listen timer _ ?s s']
          stop_extends(2) [OF inv', of s']
        by (cases t) force+
      then show ?thesis by (simp add: extends_def)
    qed
    from quiet [OF this] show ?thesis using UNext by (simp add: recv_of_def)
  qed
qed

text \<open>
  C16. Every datagram of a peer is delivered to a connection of that peer, once and in the order of
  arrival, whatever else happens to the server in between, expiry and removal of connections included.
\<close>

theorem udp_datagrams_in_order:
  assumes "udps_run listen fd xs (newServer a) = Ok s"
  shows "datas s k (ptasks s) = concat (map (recv_of k) xs)"
proof -
  have "datas s' k (ptasks s') = datas s k (ptasks s) @ concat (map (recv_of k) xs)"
    if "srv_inv s" "udps_run listen fd xs s = Ok s'" for s s'
    using that
  proof (induction xs arbitrary: s)
    case (Cons x xs)
    then obtain s1 where s1: "udps_do listen fd x s = Ok s1" "udps_run listen fd xs s1 = Ok s'" by auto
    obtain ts where ts: "extends s s1 ts" "datas s1 k ts = recv_of k x"
      using udps_do_extends [OF Cons.prems(1) s1(1)] by blast
    have "datas s1 k (ptasks s) = datas s k (ptasks s)"
      by (rule datas_same) (use srv_invD(4) [OF Cons.prems(1)] ts(1) in \<open>auto simp: extends_def\<close>)
    moreover have "ptasks s1 = ptasks s @ ts" using ts(1) by (simp add: extends_def)
    moreover have "srv_inv s1" using udps_do_inv [OF Cons.prems(1) s1(1)] .
    ultimately show ?case using Cons.IH s1(2) ts(2) by simp
  qed simp
  from this [OF new_server_inv assms] show ?thesis by (simp add: newServer_def)
qed


definition peer_calls :: "nat \<Rightarrow> server \<Rightarrow> peer_task list" where
  "peer_calls p s = map snd (filter (\<lambda>e. fst e = p) (ptasks s))"

definition established_once :: "server \<Rightarrow> bool" where
  "established_once s \<longleftrightarrow> (\<forall>p < length (objs s). \<exists>ts. peer_calls p s = Establish # ts \<and> Establish \<notin> set ts)"

lemma established_extends:
  assumes inv: "srv_inv s" and est: "established_once s" and ext: "extends s s' ts"
  shows "established_once s'"
  unfolding established_once_def
proof (intro allI impI)
  fix p
  assume p: "p < length (objs s')"
  have calls: "peer_calls p s' = peer_calls p s @ map snd (filter (\<lambda>e. fst e = p) ts)"
    using ext by (simp add: peer_calls_def extends_def)
  show "\<exists>us. peer_calls p s' = Establish # us \<and> Establish \<notin> set us"
  proof (cases "p < length (objs s)")
    case True
    then obtain us where us: "peer_calls p s = Establish # us" "Establish \<notin> set us"
      using est by (auto simp: established_once_def)
    have "Establish \<notin> set (map snd (filter (\<lambda>e. fst e = p) ts))"
      using ext True by (auto simp: extends_def)
    then show ?thesis using us calls by simp
  next
    case False
    then have new: "p = length (objs s)" and "\<exists>us. ts = (length (objs s), Establish) # us \<and> Establish \<notin> snd ` set us"
      using ext p by (auto simp: extends_def)
    then obtain us where us: "ts = (p, Establish) # us" "Establish \<notin> snd ` set us" by blast
    have "peer_calls p s = []" using srv_invD(4) [OF inv] False by (force simp: peer_calls_def filter_empty_conv)
    then show ?thesis using calls us by auto
  qed
qed

lemma new_established: "established_once (newServer a)"
  by (simp add: established_once_def newServer_def)

lemma tcps_run_established:
  "srv_inv s \<Longrightarrow> established_once s \<Longrightarrow> tcps_run listen xs s = Ok s' \<Longrightarrow> established_once s'"
proof (induction xs arbitrary: s)
  case (Cons x xs)
  then obtain s1 where s1: "tcps_do listen x s = Ok s1" "tcps_run listen xs s1 = Ok s'" by auto
  then show ?case using Cons.IH tcps_do_inv [OF Cons.prems(1) s1(1)] tcps_do_extends [OF Cons.prems(1) s1(1)]
    established_extends [OF Cons.prems(1,2)] by blast
qed simp

lemma udps_run_established:
  "srv_inv s \<Longrightarrow> established_once s \<Longrightarrow> udps_run listen fd xs s = Ok s' \<Longrightarrow> established_once s'"
proof (induction xs arbitrary: s)
  case (Cons x xs)
  then obtain s1 where s1: "udps_do listen fd x s = Ok s1" "udps_run listen fd xs s1 = Ok s'" by auto
  then show ?case using Cons.IH udps_do_inv [OF Cons.prems(1) s1(1)] udps_do_extends [OF Cons.prems(1) s1(1)]
    established_extends [OF Cons.prems(1,2)] by blast
qed simp

text \<open>
  C19. In every run of a TCP or UDP server each entry of the table stands under its connection's own
  index, once, and its connection still reports its close; and every connection is told first, and
  only once, that it is established, before any data and any close.
\<close>

theorem server_connections_consistent:
  assumes "tcps_run listen xs (newServer a) = Ok s \<or> udps_run listen fd ys (newServer a) = Ok s"
  shows "distinct (map fst (conns s))
    \<and> list_all (\<lambda>(k, p). p < length (objs s) \<and> pindex (objs s ! p) = k \<and> phook (objs s ! p)) (conns s)
    \<and> list_all (\<lambda>p. hd (peer_calls p s) = Establish \<and> count_list (peer_calls p s) Establish = 1) [0..<length (objs s)]"
proof -
  have inv: "srv_inv s" and est: "established_once s"
    using assms tcps_run_inv [OF new_server_inv] udps_run_inv [OF new_server_inv]
      tcps_run_established [OF new_server_inv new_established] udps_run_established [OF new_server_inv new_established]
    by blast+
  have "hd (peer_calls p s) = Establish \<and> count_list (peer_calls p s) Establish = 1" if "p < length (objs s)" for p
    using est that by (fastforce simp: established_once_def)
  then show ?thesis using inv by (auto simp: srv_inv_def list_all_iff)
qed

text \<open>
  C30. The expiry timer removes exactly the peers that were silent for more than thirty seconds and tells
  each of them once to close; nobody else is touched.
\<close>

theorem udp_expiry_exact:
  assumes "udps_run listen fd xs (newServer a) = Ok s"
  shows "map_of (conns (udp_checkExpired now s)) k =
      (case map_of (conns s) k of
         None \<Rightarrow> None
       | Some p \<Rightarrow> if now - pactive (objs s ! p) > 30000 then None else Some p)
    \<and> count_list (ptasks (udp_checkExpired now s)) (p, CloseCmd) =
      count_list (ptasks s) (p, CloseCmd)
        + (if (\<exists>k. map_of (conns s) k = Some p) \<and> now - pactive (objs s ! p) > 30000 then 1 else 0)
    \<and> objs (udp_checkExpired now s) = objs s"
proof -
  have inv: "srv_inv s" using udps_run_inv [OF new_server_inv assms] .
  have d: "distinct (map fst (conns s))" by (rule srv_invD(1) [OF inv])
  have "map_of (filter (\<lambda>e. \<not> expired now s e) es) k = (case map_of es k of None \<Rightarrow> None
       | Some p \<Rightarrow> if now - pactive (objs s ! p) > 30000 then None else Some p)"
    if "distinct (map fst es)" for es
    using that by (induction es) (auto simp: expired_def ExpiredTime_def map_of_eq_None_iff split: option.splits)
  note table = this [OF d]
  have uniq: "e = e'" if "e \<in> set (conns s)" "e' \<in> set (conns s)" "snd e = snd e'" for e e'
  proof (rule prod_eqI)
    have "pindex (objs s ! snd x) = fst x" if "x \<in> set (conns s)" for x
      using srv_invD(2) [OF inv, of "fst x" "snd x"] that by simp
    then show "fst e = fst e'" using that by metis
  qed (rule that(3))
  have cnt: "count_list (map (\<lambda>e. (snd e, CloseCmd)) (filter (expired now s) es)) (p, CloseCmd) =
      (if \<exists>k. (k, p) \<in> set es \<and> ExpiredTime < now - pactive (objs s ! p) then 1 else 0)"
    if "distinct es" "set es \<subseteq> set (conns s)" for es
    using that
  proof (induction es)
    case (Cons e es)
    have "e' = e" if "e' \<in> set es" "snd e' = snd e" for e' using uniq [of e' e] Cons.prems(2) that by auto
    then have "\<not> (\<exists>k. (k, snd e) \<in> set es)" using Cons.prems(1) by fastforce
    then show ?case using Cons by (cases e) (auto simp: expired_def)
  qed simp
  have "distinct (conns s)" using d by (simp add: distinct_map)
  moreover have "(\<exists>k. map_of (conns s) k = Some p) \<longleftrightarrow> (\<exists>k. (k, p) \<in> set (conns s))" using d by simp
  ultimately show ?thesis
    using table cnt [of "conns s"] by (auto simp: checkExpired_eq ExpiredTime_def)
qed


section \<open>Which connections the table knows\<close>

text \<open>
  A run in which nothing overlaps: no address comes back while its old connection is in the table, no
  connection reports its close twice, the server is not stopped.
\<close>

fun polite :: "tcps_op \<Rightarrow> server \<Rightarrow> bool" where
  "polite (TAccept key now) s \<longleftrightarrow> map_of (conns s) key = None"
| "polite (TClosed p) s \<longleftrightarrow> RemoveTask p \<notin> set (stasks s)"
| "polite (TStop il) s \<longleftrightarrow> False"
| "polite (TStart il k) s \<longleftrightarrow> True"
| "polite TNext s \<longleftrightarrow> True"

primrec all_polite :: "(acceptor \<Rightarrow> acceptor res) \<Rightarrow> tcps_op list \<Rightarrow> server \<Rightarrow> bool" where
  "all_polite listen [] s \<longleftrightarrow> True"
| "all_polite listen (x # xs) s \<longleftrightarrow> polite x s
     \<and> (case tcps_do listen x s of Inl e \<Rightarrow> True | Inr s1 \<Rightarrow> all_polite listen xs s1)"

definition known :: "server \<Rightarrow> bool" where
  "known s \<longleftrightarrow> srv_inv s \<and> StopTask \<notin> set (stasks s)
     \<and> (\<forall>p. count_list (stasks s) (RemoveTask p) \<le> 1)
     \<and> (\<forall>p. RemoveTask p \<in> set (stasks s) \<longrightarrow> phook (objs s ! p))
     \<and> (\<forall>p < length (objs s). phook (objs s ! p) \<longrightarrow> map_of (conns s) (pindex (objs s ! p)) = Some p)"

lemma knownD:
  assumes "known s"
  shows "srv_inv s" and "StopTask \<notin> set (stasks s)" and "count_list (stasks s) (RemoveTask p) \<le> 1"
    and "RemoveTask p \<in> set (stasks s) \<Longrightarrow> phook (objs s ! p)"
    and "p < length (objs s) \<Longrightarrow> phook (objs s ! p) \<Longrightarrow> map_of (conns s) (pindex (objs s ! p)) = Some p"
  using assms by (auto simp: known_def)

lemma known_start:
  assumes "known s" and "tcp_startInLoop listen k s = Ok s'"
  shows "known s'"
  using assms by (auto simp: tcp_startInLoop_def cluster_start_def known_def srv_inv_def)

lemma known_accept:
  assumes k: "known s" and free: "map_of (conns s) key = None" and run: "tcp_newConnection key now s = Ok s'"
  shows "known s'"
proof -
  obtain p s1 where a: "addConnection key 0 now s = Ok (p, s1)" and s': "s' = notifyConnectionEstablished bindDefaultCallbacks p s1"
    using run by (rule tcp_newConnection_D)
  note add = tcp_hooks.addConnection_inv [OF knownD(1) [OF k] a]
  have "map_of (conns s') (pindex (objs s' ! q)) = Some q" if "q < length (objs s')" "phook (objs s' ! q)" for q
  proof (cases "q = p")
    case True
    then show ?thesis using add(3,8) unfolding s' by (simp add: AList.update_conv')
  next
    case False
    then have q: "q < length (objs s)" "objs s' ! q = objs s ! q" using that(1) add(2,6,7) unfolding s' by auto
    then have "map_of (conns s) (pindex (objs s ! q)) = Some q" using knownD(5) [OF k] that(2) by simp
    then show ?thesis using q add(3) free unfolding s' by (auto simp: AList.update_conv')
  qed
  moreover have "phook (objs s' ! q)" if "RemoveTask q \<in> set (stasks s')" for q
    using knownD(4) [OF k, of q] srv_invD(3) [OF knownD(1) [OF k], of q] that add(5,7) unfolding s' by simp
  ultimately show ?thesis
    using add(1,5) knownD(2,3) [OF k] unfolding s' known_def by simp
qed

lemma known_closed:
  assumes k: "known s" and p: "RemoveTask p \<notin> set (stasks s)" "p < length (objs s)"
  shows "known (onClosedInConnection p s)"
proof -
  have "count_list (stasks s) (RemoveTask p) = 0" using p(1) by (simp add: count_list_0_iff)
  then show ?thesis using onClosed_inv [OF knownD(1) [OF k] p(2)] k
    by (auto simp: known_def onClosedInConnection_def)
qed

lemma known_remove:
  assumes k: "known s" and ts: "stasks s = RemoveTask p # ts"
  shows "known (removeConnection unbindDefaultCallbacks p (s\<lparr>stasks := ts\<rparr>))"
proof -
  let ?s = "s\<lparr>stasks := ts\<rparr>"
  have inv: "srv_inv ?s" using knownD(1) [OF k] ts by (auto simp: srv_inv_def)
  obtain f where eq: "removeConnection unbindDefaultCallbacks p ?s =
      (on_peer p f ?s)\<lparr>conns := AList.delete (pindex (objs ?s ! p)) (conns ?s)\<rparr>"
    and f: "\<And>c. pindex (f c) = pindex c" "\<And>c. phook (f c) = False" using tcp_hooks.removeConnection_eq by metis
  have p: "p < length (objs s)" "phook (objs s ! p)"
    using srv_invD(3) [OF knownD(1) [OF k], of p] knownD(4) [OF k, of p] ts by simp_all
  have "RemoveTask p \<notin> set ts"
    using knownD(3) [OF k, of p] ts by (simp add: count_list_0_iff)
  then have "phook (objs s ! q) \<and> q \<noteq> p" if "RemoveTask q \<in> set ts" for q
    using knownD(4) [OF k, of q] that ts by auto
  moreover have "count_list ts (RemoveTask q) \<le> 1" for q
    using knownD(3) [OF k, of q] ts by (simp split: if_splits)
  moreover have "pindex (objs s ! q) \<noteq> pindex (objs s ! p)" if "q < length (objs s)" "phook (objs s ! q)" "q \<noteq> p" for q
    using knownD(5) [OF k that(1,2)] knownD(5) [OF k p] that(3) by auto
  ultimately show ?thesis
    using tcp_hooks.removeConnection_inv [OF inv, of p] knownD(2,5) [OF k] ts f
    by (auto simp: known_def eq on_peer_nth AList.delete_conv')
qed

lemma tcps_run_known:
  assumes "known s" and "all_polite listen xs s" and "tcps_run listen xs s = Ok s'"
  shows "known s'"
  using assms
proof (induction xs arbitrary: s)
  case (Cons x xs)
  obtain s1 where s1: "tcps_do listen x s = Ok s1" "tcps_run listen xs s1 = Ok s'" using Cons.prems(3) by auto
  have x: "polite x s" "all_polite listen xs s1" using Cons.prems(2) s1(1) by simp_all
  have "known s1"
  proof (cases x)
    case (TStart il k)
    have "known (s\<lparr>srunning := True\<rparr>)" "known (s\<lparr>srunning := True, stasks := stasks s @ [StartTask k]\<rparr>)"
      using Cons.prems(1) by (auto simp: known_def srv_inv_def)
    then show ?thesis using s1(1) TStart Cons.prems(1)
      by (auto simp: tcp_start_def Let_def dest: known_start split: if_splits)
  next
    case (TAccept key now)
    then show ?thesis using known_accept [OF Cons.prems(1)] x(1) s1(1) by simp
  next
    case (TClosed p)
    then show ?thesis using known_closed [OF Cons.prems(1)] Cons.prems(1) x(1) s1(1) by (auto split: if_splits)
  next
    case TNext
    show ?thesis
    proof (cases "stasks s")
      case (Cons t ts)
      have "known (s\<lparr>stasks := ts\<rparr>)" if "t = StartTask k" for k
        using \<open>known s\<close> Cons that by (auto simp: known_def srv_inv_def)
      moreover have "t \<noteq> StopTask" using knownD(2) [OF \<open>known s\<close>] Cons by auto
      ultimately show ?thesis using s1(1) TNext Cons known_remove [OF \<open>known s\<close>, of _ ts]
        by (cases t) (auto simp: in_base_def in_acceptor_loop_def dest: known_start split: if_splits)
    qed (use s1(1) TNext Cons.prems(1) in simp)
  qed (use x(1) in simp)
  then show ?case using Cons.IH x(2) s1(2) by blast
qed simp


text \<open>
  As long as no address returns while its old connection is still in the table and no connection
  closes twice, a TCP server knows all its open connections: each connection whose close callback is
  set is the one in the table under its address.
\<close>

theorem tcp_open_connections_known:
  assumes "tcps_run listen xs (newServer a) = Ok s" and "all_polite listen xs (newServer a)"
    and "p < length (objs s)" and "phook (objs s ! p)"
  shows "map_of (conns s) (pindex (objs s ! p)) = Some p"
proof -
  have "known (newServer a)" by (simp add: known_def new_server_inv) (simp add: newServer_def)
  from knownD(5) [OF tcps_run_known [OF this assms(2,1)] assms(3,4)] show ?thesis .
qed

text \<open>
  A UDP peer that comes back after its expiry is lost: the close of the old connection removes the
  entry of the new one, because entries are removed by index. The new connection stays open, is in no
  table, so it never expires and is not closed by \<open>stop\<close>, and the next datagram makes a third one.
\<close>

theorem udp_returning_peer_lost:
  "\<exists>s s'. udps_run listen fd [URecv k 0 d1, UExpire 30001, URecv k 30002 d2, UClosed 0, UNext t] (newServer a) = Ok s
    \<and> peer_calls 0 s = [Establish, Deliver d1, CloseCmd] \<and> peer_calls 1 s = [Establish, Deliver d2] \<and> phook (objs s ! 1)
    \<and> conns s = [] \<and> udps_do listen fd (URecv k 30003 d3) s = Ok s' \<and> map_of (conns s') k = Some 2"
  by (simp add: newServer_def udp_recvMessage_def addConnection_def getNextLoop_def notifyConnectionEstablished_def
      udp_bind_def bindDefaultCallbacks_def on_peer_def udp_checkExpired_def expired_def ExpiredTime_def
      onClosedInConnection_def removeConnection_def udp_unbind_def unbindDefaultCallbacks_def tell_def peer_calls_def
      numeral_2_eq_2)

text \<open>
  \<open>stop\<close> of a listening server in its loop closes its socket, tells every connection of the table once
  to close and every other one nothing, unbinds them, empties the table, stops the cluster, and leaves a
  server that may be destroyed; of a UDP server it also cancels the expiry timer.
\<close>

theorem server_stop_closes_all:
  assumes "tcps_run listen xs (newServer a) = Ok s \<or> udps_run listen fd ys (newServer a) = Ok s"
    and "listens q (acc s)" and "stop \<in> {tcp_stop True, udp_stop True}"
  shows "\<exists>s'. stop s = Ok s' \<and> iofds (anet (acc s')) q = None \<and> \<not> listening (acc s') \<and> conns s' = [] \<and> npairs s' = 0
    \<and> deleteServer s' = Ok ()
    \<and> peer_calls p s' = peer_calls p s @ (if \<exists>k. map_of (conns s) k = Some p then [CloseCmd] else [])
    \<and> (phook (objs s' ! p) \<longleftrightarrow> phook (objs s ! p) \<and> \<not> (\<exists>k. map_of (conns s) k = Some p))
    \<and> (stop = udp_stop True \<longrightarrow> checker s \<noteq> 0 \<longrightarrow> checker s \<notin> set (stimers s'))"
proof -
  have inv: "srv_inv s"
    using assms(1) tcps_run_inv [OF new_server_inv] udps_run_inv [OF new_server_inv] by blast
  let ?a = "(acc s)\<lparr>acallback := False\<rparr>"
  have "listens q ?a" using assms(2) by (simp add: listens_def)
  then obtain a2 where a2: "acceptor_stopInLoop ?a = Ok a2" "iofds (anet a2) q = None" "\<not> listening a2"
    by (rule stop_ok)
  let ?s = "\<lambda>ts. s\<lparr>srunning := False, acc := a2, stimers := ts\<rparr>"
  have inv': "srv_inv (?s ts)" for ts using inv by (auto simp: srv_inv_def)
  have "distinct (map fst (conns s))" by (rule srv_invD(1) [OF inv])
  then have mem: "(\<exists>k. map_of (conns s) k = Some p) \<longleftrightarrow> p \<in> snd ` set (conns s)" by force
  show ?thesis
  proof (cases "stop = udp_stop True")
    case True
    obtain ts where ts: "ts = (if checker s \<noteq> 0 then removeAll (checker s) (stimers s) else stimers s)" by blast
    have "stop s = Ok (closed_down udp_unbind (?s ts))"
      using True a2(1) by (simp add: ts udp_stop_def udp_stopInLoop_def Let_def closed_down_def)
    moreover have cancelled: "checker s \<noteq> 0 \<Longrightarrow> checker s \<notin> set ts" by (simp add: ts)
    ultimately show ?thesis unfolding mem
      using udp_hooks.closed_down_calls [OF inv', of p ts] udp_hooks.closeAll_result(4) [OF inv', of ts]
        udp_hooks.closeAll_result(7) [OF inv', of ts p] udp_hooks.closeAll_frame [of "?s ts"] a2(2,3) cancelled
      by (simp add: closed_down_def cluster_stop_def deleteServer_def peer_calls_def)
  next
    case False
    have "s\<lparr>srunning := False, acc := a2, stimers := stimers s\<rparr> = s\<lparr>srunning := False, acc := a2\<rparr>" by (cases s) simp
    then have "stop s = Ok (closed_down unbindDefaultCallbacks (?s (stimers s)))"
      using False assms(3) a2(1) by (simp add: tcp_stop_def tcp_stopInLoop_def Let_def closed_down_def)
    then show ?thesis unfolding mem using False
      tcp_hooks.closed_down_calls [OF inv', of p "stimers s"] tcp_hooks.closeAll_result(4) [OF inv', of "stimers s"]
      tcp_hooks.closeAll_result(7) [OF inv', of "stimers s" p] tcp_hooks.closeAll_frame [of "?s (stimers s)"] a2(2,3)
      by (simp add: closed_down_def cluster_stop_def deleteServer_def peer_calls_def)
  qed
qed

lemma accepts_loops:
  assumes "loop_tid (anet (acc s)) (aloop (acc s)) = here (anet (acc s))"
    and "next_loops (threads s) (npairs s) (counter s) (length ks) = Ok ls"
  shows "\<exists>s'. tcps_run listen (map (\<lambda>(k, t). TAccept k t) ks) s = Ok s'
    \<and> map peer_loop (objs s') = map peer_loop (objs s) @ ls"
  using assms
proof (induction ks arbitrary: s ls)
  case (Cons e ks)
  obtain k t where e: "e = (k, t)" by (cases e)
  obtain l c rest where l: "getNextLoop (threads s) (npairs s) (counter s) = Ok (l, c)"
    "next_loops (threads s) (npairs s) c (length ks) = Ok rest" "ls = l # rest"
    using Cons.prems(2) by auto
  let ?p = "length (objs s)"
  let ?s1 = "s\<lparr>counter := c, objs := objs s @ [\<lparr>pindex = k, peer_loop = l, phook = False, pfd = 0, pactive = t\<rparr>],
    conns := AList.update k ?p (conns s)\<rparr>"
  let ?s2 = "notifyConnectionEstablished bindDefaultCallbacks ?p ?s1"
  have run: "tcps_do listen (TAccept k t) s = Ok ?s2"
    using Cons.prems(1) l(1) by (simp add: tcp_newConnection_def in_base_def in_acceptor_loop_def addConnection_def Let_def)
  have "map peer_loop (objs ?s2) = map peer_loop (objs s) @ [l]"
    by (simp add: notifyConnectionEstablished_def bindDefaultCallbacks_def on_peer_def map_update list_update_append)
  moreover have "threads ?s2 = threads s" "npairs ?s2 = npairs s" "counter ?s2 = c" "acc ?s2 = acc s"
    by (simp_all add: notifyConnectionEstablished_def bindDefaultCallbacks_def)
  ultimately obtain s' where "tcps_run listen (map (\<lambda>(k, t). TAccept k t) ks) ?s2 = Ok s'"
    "map peer_loop (objs s') = (map peer_loop (objs s) @ [l]) @ rest"
    using Cons.IH [of ?s2 rest] Cons.prems(1) l(2) by auto
  then show ?case using run e l(3) by (simp del: tcps_do.simps)
qed simp

text \<open>
  New connections are spread evenly: on a server with \<open>n > 1\<close> loops any \<open>m * n\<close> accepts in a row give
  each loop exactly \<open>m\<close> connections, as long as the counter of the cluster stays below 2^31.
\<close>

theorem connections_spread_evenly:
  assumes "loop_tid (anet (acc s)) (aloop (acc s)) = here (anet (acc s))"
    and "threads s = n" and "npairs s = n" and "counter s = of_nat c" and "1 < n" and "j < n"
    and "length ks = m * n" and "c + m * n < 2 ^ 31"
  shows "\<exists>s'. tcps_run listen (map (\<lambda>(k, t). TAccept k t) ks) s = Ok s'
    \<and> count_list (map peer_loop (drop (length (objs s)) (objs s'))) (Some j) = m"
proof -
  let ?ls = "map (\<lambda>i. Some (i mod n)) [Suc c..<Suc (c + m * n)]"
  have "next_loops (threads s) (npairs s) (counter s) (length ks) = Ok ?ls"
    using next_loops_from [of n n c "m * n"] assms by simp
  from accepts_loops [OF assms(1) this] obtain s' where s': "tcps_run listen (map (\<lambda>(k, t). TAccept k t) ks) s = Ok s'"
    "map peer_loop (objs s') = map peer_loop (objs s) @ ?ls" by blast
  have "map peer_loop (drop (length (objs s)) (objs s')) = drop (length (objs s)) (map peer_loop (objs s'))"
    by (simp add: drop_map)
  also have "\<dots> = ?ls" using s'(2) by simp
  finally show ?thesis using s'(1) windows_count [OF assms(6), of "Suc c" m] by simp
qed


section \<open>Witnesses\<close>

definition demo_server :: server where
  "demo_server = newServer demo_acceptor"

lemma demo_server_loop: "loop_tid (anet (acc demo_server)) (aloop (acc demo_server)) = here (anet (acc demo_server))"
  by (simp add: demo_server_def newServer_def demo_acceptor_def newAcceptor_def demo_net_def idle_net_def)

lemmas server_ops = newServer_def udp_recvMessage_def tcp_newConnection_def addConnection_def getNextLoop_def
  notifyConnectionEstablished_def udp_bind_def bindDefaultCallbacks_def on_peer_def tell_def peer_calls_def
  onClosedInConnection_def removeConnection_def udp_unbind_def unbindDefaultCallbacks_def

definition demo_udp_ops :: "udps_op list" where
  "demo_udp_ops = [URecv ''a'' 0 [1], URecv ''b'' 20000 [2], URecv ''a'' 25000 [3]]"

definition demo_udp_state :: server where
  "demo_udp_state = projr (udps_run Ok 9 demo_udp_ops (newServer demo_acceptor))"

lemma demo_udp_run: "udps_run Ok 9 demo_udp_ops (newServer demo_acceptor) = Ok demo_udp_state"
  "conns demo_udp_state = [(''a'', 0), (''b'', 1)]" "length (objs demo_udp_state) = 2"
  "pactive (objs demo_udp_state ! 0) = 0" "pactive (objs demo_udp_state ! 1) = 20000"
  by (simp_all add: demo_udp_state_def demo_udp_ops_def server_ops)

lemma udp_datagrams_in_order_witness:
  "udps_run Ok 9 demo_udp_ops (newServer demo_acceptor) = Ok demo_udp_state
    \<and> datas demo_udp_state ''a'' (ptasks demo_udp_state) = [[1], [3]]"
  using udp_datagrams_in_order [OF demo_udp_run(1), of "''a''"] demo_udp_run(1) by (simp add: demo_udp_ops_def recv_of_def)

lemma server_connections_consistent_witness:
  "udps_run Ok 9 demo_udp_ops (newServer demo_acceptor) = Ok demo_udp_state \<and> distinct (map fst (conns demo_udp_state))
    \<and> hd (peer_calls 1 demo_udp_state) = Establish"
proof -
  have all: "distinct (map fst (conns demo_udp_state))"
    "list_all (\<lambda>p. hd (peer_calls p demo_udp_state) = Establish \<and> count_list (peer_calls p demo_udp_state) Establish = 1) [0..<2]"
    using server_connections_consistent [OF disjI2 [OF demo_udp_run(1)]] unfolding demo_udp_run(3) by blast+
  then have "hd (peer_calls 1 demo_udp_state) = Establish" by (simp add: list_all_iff)
  then show ?thesis using demo_udp_run(1) all(1) by blast
qed

lemma udp_expiry_exact_witness:
  "udps_run Ok 9 demo_udp_ops (newServer demo_acceptor) = Ok demo_udp_state
    \<and> map_of (conns (udp_checkExpired 40000 demo_udp_state)) ''a'' = None
    \<and> map_of (conns (udp_checkExpired 40000 demo_udp_state)) ''b'' = Some 1"
  using udp_expiry_exact [OF demo_udp_run(1), of 40000 "''a''" 0] udp_expiry_exact [OF demo_udp_run(1), of 40000 "''b''" 1]
  by (simp add: demo_udp_run del: One_nat_def)

definition demo_tcp_ops :: "tcps_op list" where
  "demo_tcp_ops = [TAccept ''a'' 0, TAccept ''b'' 0, TClosed 0, TNext, TAccept ''a'' 0]"

lemma tcp_open_connections_known_witness:
  "\<exists>s. tcps_run Ok demo_tcp_ops (newServer demo_acceptor) = Ok s \<and> all_polite Ok demo_tcp_ops (newServer demo_acceptor)
    \<and> map_of (conns s) ''a'' = Some 2"
proof -
  have loop: "in_base s k = k" if "acc s = demo_acceptor" for s k
    using demo_server_loop that by (simp add: in_base_def in_acceptor_loop_def demo_server_def newServer_def)
  have polite: "all_polite Ok demo_tcp_ops (newServer demo_acceptor)"
    by (simp add: demo_tcp_ops_def server_ops loop)
  have "\<exists>s. tcps_run Ok demo_tcp_ops (newServer demo_acceptor) = Ok s \<and> length (objs s) = 3
      \<and> phook (objs s ! 2) \<and> pindex (objs s ! 2) = ''a''"
    by (simp add: demo_tcp_ops_def server_ops loop)
  then obtain s where s: "tcps_run Ok demo_tcp_ops (newServer demo_acceptor) = Ok s" "length (objs s) = 3"
    "phook (objs s ! 2)" "pindex (objs s ! 2) = ''a''" by blast
  then show ?thesis using tcp_open_connections_known [OF s(1) polite, of 2] polite by auto
qed

lemma server_stop_closes_all_witness:
  "\<exists>a s s'. listens 2 a \<and> udps_run Ok 9 demo_udp_ops (newServer a) = Ok s \<and> udp_stop True s = Ok s' \<and> conns s' = []
    \<and> peer_calls 1 s' = [Establish, Deliver [2], CloseCmd]"
proof -
  obtain a where a: "listens 2 a" using demo_listening by blast
  have "\<exists>s. udps_run Ok 9 demo_udp_ops (newServer a) = Ok s \<and> acc s = a
      \<and> peer_calls 1 s = [Establish, Deliver [2]] \<and> map_of (conns s) ''b'' = Some 1"
    by (simp add: demo_udp_ops_def server_ops)
  then obtain s where s: "udps_run Ok 9 demo_udp_ops (newServer a) = Ok s" "acc s = a"
    "peer_calls 1 s = [Establish, Deliver [2]]" "map_of (conns s) ''b'' = Some 1" by blast
  have l: "listens 2 (acc s)" using a s(2) by simp
  have "\<exists>k. map_of (conns s) k = Some 1" using s(4) by blast
  then show ?thesis using server_stop_closes_all [OF disjI2 [OF s(1)] l, of "udp_stop True" 1] a s(1,3) by auto
qed

lemma connections_spread_evenly_witness:
  "\<exists>s'. tcps_run Ok (map (\<lambda>(k, t). TAccept k t) [(''a'', 0), (''b'', 0), (''c'', 0), (''d'', 0)]) (cluster_start 2 demo_server) = Ok s'
    \<and> count_list (map peer_loop (objs s')) (Some 1) = 2"
proof -
  let ?s = "cluster_start 2 demo_server" and ?ks = "[(''a'', 0), (''b'', 0), (''c'', 0), (''d'', 0 :: int)]"
  have "loop_tid (anet (acc ?s)) (aloop (acc ?s)) = here (anet (acc ?s))"
    using demo_server_loop by (simp add: cluster_start_def)
  moreover have "threads ?s = 2" "npairs ?s = 2" "counter ?s = of_nat 0" "objs ?s = []"
    by (simp_all add: cluster_start_def demo_server_def newServer_def)
  moreover have "(1 :: nat) < 2" "length ?ks = 2 * 2" "0 + 2 * 2 < (2 :: nat) ^ 31" by simp_all
  ultimately show ?thesis using connections_spread_evenly [of ?s 2 0 1 ?ks 2 Ok] by (auto simp del: One_nat_def)
qed

end
