(* ===== verification/TcpLifetime.thy ===== *)
theory TcpLifetime
  imports Servers
begin

text \<open>
  How long the connections of a TCP server live: the server's table (\<open>net/tcp/TcpServer.cpp\<close>) and its
  connections (\<open>net/tcp/TcpConnection.cpp\<close>) in their loops, composed from the models of theories \<open>Servers\<close> and
  \<open>TcpConnection\<close>. A connection is owned by shared pointers: the table, the functor that establishes it, its own
  queued functors and the server's functor that removes it. When the last one goes, the
  destructor runs, which asserts that the connection is disconnected and deletes its socket. A client that
  keeps a pointer of its own only delays that. The steps are those that open and close connections, in any order
  between the loops: accepting, \<open>start\<close> and \<open>stop\<close> of the server, \<open>close\<close> and \<open>shutdown\<close> by the client in any thread,
  hang-ups, functors, and the beginning and end of \<open>handleEvent\<close>, which the server's thread does not wait for.
  Sending and receiving are in theory \<open>TcpConnection\<close>. Callbacks of the client leave the connections alone.
\<close>

section \<open>State and operations\<close>

text \<open>
  \<open>tconn\<close> are the connection objects, \<open>est\<close> says that the functor that establishes a connection waits in its
  loop, \<open>busy\<close> are those whose event is being handled, \<open>gone\<close> those destroyed. Each connection has the
  descriptors of its own socket only, at address 1. \<open>missed\<close> is no part of the code: it keeps the connections the
  server has lost sight of, as \<open>misses\<close> below tells.
\<close>

record tcp_world =
  tsrv :: server
  tconn :: "nat \<Rightarrow> tcpconn"
  est :: "nat \<Rightarrow> bool"
  busy :: "nat set"
  gone :: "nat set"
  missed :: "nat set"

definition loop_no :: "nat option \<Rightarrow> nat" where
  "loop_no l = (case l of None \<Rightarrow> 0 | Some i \<Rightarrow> Suc i)"

definition conn_net :: "nat \<Rightarrow> 32 word \<Rightarrow> netw" where
  "conn_net l fd = putFd 1 (newIOFd fd None) (idle_net\<lparr>here := l\<rparr>)"

text \<open>\<open>createConnectionInLoop\<close>: the socket and the connection.\<close>

definition createConnection :: "nat \<Rightarrow> int \<Rightarrow> 32 word \<Rightarrow> tcpconn res" where
  "createConnection l now connfd =
     bindR (newBuffer kInitialSize) (\<lambda>b. newTcpConnection 1 l now b (conn_net l connfd))"

text \<open>The callbacks of a connection: the client's, and the server's close callback while it is set.\<close>

definition hooks_of :: "peer \<Rightarrow> tcpconn \<Rightarrow> tcpconn" where
  "hooks_of q c = c\<lparr>hooked := {ConnectChange, RecvMessage, WriteComplete} \<union> (if phook q then {CloseConn} else {})\<rparr>"

text \<open>A method of connection \<open>p\<close>; each call of its close callback is \<open>onClosedInConnection\<close> of the server.\<close>

definition with_conn :: "nat \<Rightarrow> (tcpconn \<Rightarrow> tcpconn res) \<Rightarrow> tcp_world \<Rightarrow> tcp_world res" where
  "with_conn p f w =
     (let c0 = hooks_of (objs (tsrv w) ! p) (tconn w p)
      in bindR (f c0) (\<lambda>c.
           Ok (w\<lparr>tconn := (tconn w)(p := c),
                 tsrv := (onClosedInConnection p ^^ (count_list (ctrace c) CloseConn - count_list (ctrace c0) CloseConn)) (tsrv w)\<rparr>)))"

text \<open>A method called in another thread than that of the connection's loop.\<close>

definition elsewhere :: "(tcpconn \<Rightarrow> tcpconn res) \<Rightarrow> tcpconn \<Rightarrow> tcpconn res" where
  "elsewhere f c = bindR (f (c\<lparr>cnet := (cnet c)\<lparr>here := Suc (here (cnet c))\<rparr>\<rparr>)) (\<lambda>c1.
     Ok (c1\<lparr>cnet := (cnet c1)\<lparr>here := here (cnet c)\<rparr>\<rparr>))"

text \<open>What a call of the server does: a new connection, or \<open>close\<close> in the server's thread.\<close>

fun tcp_hand_over :: "int \<Rightarrow> 32 word \<Rightarrow> nat \<times> peer_task \<Rightarrow> tcp_world \<Rightarrow> tcp_world res" where
  "tcp_hand_over now connfd (p, Establish) w =
     bindR (createConnection (loop_no (peer_loop (objs (tsrv w) ! p))) now connfd) (\<lambda>c.
       Ok (w\<lparr>tconn := (tconn w)(p := c), est := (est w)(p := True)\<rparr>))"
| "tcp_hand_over now connfd (p, CloseCmd) w =
     (if peer_loop (objs (tsrv w) ! p) = None then with_conn p (close_conn quiet) w
      else with_conn p (elsewhere (close_conn quiet)) w)"
| "tcp_hand_over now connfd (p, Deliver data) w = Ok w"

primrec tcp_hand_all :: "int \<Rightarrow> 32 word \<Rightarrow> (nat \<times> peer_task) list \<Rightarrow> tcp_world \<Rightarrow> tcp_world res" where
  "tcp_hand_all now connfd [] w = Ok w"
| "tcp_hand_all now connfd (t # ts) w = bindR (tcp_hand_over now connfd t w) (tcp_hand_all now connfd ts)"

text \<open>
  What the server loses sight of. A stop finds connections that are not connected yet or that the client has
  shut down: \<open>close\<close> does nothing to them, but they lose their close callback and their place in the table. An
  address that comes back while a connection with that address is still there takes its place in the table;
  the removal of the old connection then removes the entry of the new one.
\<close>

definition shut_down :: "tcpconn \<Rightarrow> bool" where
  "shut_down c \<longleftrightarrow> cstatus c = kDisconnecting \<and> TaskClose \<notin> set (ctasks c)"

definition stops_now :: "tcps_op \<Rightarrow> server \<Rightarrow> bool" where
  "stops_now x s \<longleftrightarrow> x = TStop True \<or> x = TNext \<and> stasks s \<noteq> [] \<and> hd (stasks s) = StopTask"

definition same_address :: "string \<Rightarrow> tcp_world \<Rightarrow> nat list" where
  "same_address key w = filter (\<lambda>p. p \<notin> gone w \<and> pindex (objs (tsrv w) ! p) = key) [0..<length (objs (tsrv w))]"

definition misses :: "tcps_op \<Rightarrow> tcp_world \<Rightarrow> nat list" where
  "misses x w = (case x of
      TAccept key now \<Rightarrow> if same_address key w = [] then [] else length (objs (tsrv w)) # same_address key w
    | _ \<Rightarrow> if stops_now x (tsrv w)
        then filter (\<lambda>p. p \<notin> gone w \<and> (est w p \<or> shut_down (tconn w p))) [0..<length (objs (tsrv w))] else [])"

definition tcp_srv_step :: "(acceptor \<Rightarrow> acceptor res) \<Rightarrow> 32 word \<Rightarrow> tcps_op \<Rightarrow> tcp_world \<Rightarrow> tcp_world res" where
  "tcp_srv_step listen connfd x w = bindR (tcps_do listen x (tsrv w)) (\<lambda>s.
     tcp_hand_all 0 connfd (drop (length (ptasks (tsrv w))) (ptasks s))
       (w\<lparr>tsrv := s, missed := missed w \<union> set (misses x w)\<rparr>))"

text \<open>The loop of connection \<open>p\<close> runs its next functor; \<open>sh\<close> is what \<open>::shutdown\<close> returns.\<close>

definition run_functor :: "unit sys \<Rightarrow> nat \<Rightarrow> tcp_world \<Rightarrow> tcp_world res" where
  "run_functor sh p w =
     (if est w p then with_conn p (onConnectEstablished quiet) (w\<lparr>est := (est w)(p := False)\<rparr>)
      else case ctasks (tconn w p) of
             [] \<Rightarrow> Ok w
           | t # ts \<Rightarrow> with_conn p (\<lambda>c. run_task quiet (\<lambda>_. SysErr 0) sh t (c\<lparr>ctasks := ts\<rparr>)) w)"

text \<open>
  The peer hangs up (\<open>POLLHUP\<close>, before \<open>handleEvent\<close> marks the socket) or ends its stream (a read of 0 bytes, inside
  \<open>handleEvent\<close>). The client closes or shuts down the connection, in its loop or in another thread.
\<close>

definition hang_up :: "nat \<Rightarrow> tcp_world \<Rightarrow> tcp_world res" where
  "hang_up p = with_conn p (handleClose quiet)"

definition user_close :: "bool \<Rightarrow> nat \<Rightarrow> tcp_world \<Rightarrow> tcp_world res" where
  "user_close il p = with_conn p (if il then close_conn quiet else elsewhere (close_conn quiet))"

definition user_shutdown :: "bool \<Rightarrow> unit sys \<Rightarrow> nat \<Rightarrow> tcp_world \<Rightarrow> tcp_world res" where
  "user_shutdown il sh p = with_conn p (if il then shutdown_conn sh else elsewhere (shutdown_conn sh))"

text \<open>\<open>handleEvent\<close> marks the socket of the connection, and takes the mark away when the observer has returned.\<close>

definition mark :: "bool \<Rightarrow> tcpconn \<Rightarrow> tcpconn res" where
  "mark h c = bindR (fdAt (csock c) (cnet c)) (\<lambda>f. Ok (c\<lparr>cnet := putFd (csock c) (f\<lparr>handling := h\<rparr>) (cnet c)\<rparr>))"

definition event_begins :: "nat \<Rightarrow> tcp_world \<Rightarrow> tcp_world res" where
  "event_begins p w = bindR (mark True (tconn w p)) (\<lambda>c. Ok (w\<lparr>tconn := (tconn w)(p := c), busy := insert p (busy w)\<rparr>))"

definition event_ends :: "nat \<Rightarrow> tcp_world \<Rightarrow> tcp_world res" where
  "event_ends p w = bindR (mark False (tconn w p)) (\<lambda>c. Ok (w\<lparr>tconn := (tconn w)(p := c), busy := busy w - {p}\<rparr>))"

definition reported :: "nat \<Rightarrow> tcp_world \<Rightarrow> bool" where
  "reported p w \<longleftrightarrow> (\<exists>f. iofds (cnet (tconn w p)) (csock (tconn w p)) = Some f \<and> looper f \<noteq> None)"

definition owned :: "nat \<Rightarrow> tcp_world \<Rightarrow> bool" where
  "owned p w \<longleftrightarrow> p \<in> snd ` set (conns (tsrv w)) \<or> est w p \<or> ctasks (tconn w p) \<noteq> [] \<or> RemoveTask p \<in> set (stasks (tsrv w))"

text \<open>The last owner has gone.\<close>

definition destroy :: "nat \<Rightarrow> tcp_world \<Rightarrow> tcp_world res" where
  "destroy p w = bindR (deleteTcpConnection (tconn w p)) (\<lambda>net.
     Ok (w\<lparr>tconn := (tconn w)(p := (tconn w p)\<lparr>cnet := net\<rparr>), gone := insert p (gone w)\<rparr>))"

definition new_tcp_world :: "acceptor \<Rightarrow> tcp_world" where
  "new_tcp_world a = \<lparr>tsrv = newServer a, tconn = (\<lambda>p. projr (createConnection 0 0 0)), est = (\<lambda>p. False), busy = {},
     gone = {}, missed = {}\<rparr>"

text \<open>
  The reachable states. A close of a connection reaches the server through its callback only, so \<open>TClosed\<close> is no step
  of its own. The loop of a connection runs no functor and begins no event while it handles one.
\<close>

inductive lives :: "(acceptor \<Rightarrow> acceptor res) \<Rightarrow> tcp_world \<Rightarrow> bool" for listen where
  new: "lives listen (new_tcp_world a)"
| server: "lives listen w \<Longrightarrow> (\<And>p. x \<noteq> TClosed p) \<Longrightarrow> tcp_srv_step listen connfd x w = Ok w' \<Longrightarrow> lives listen w'"
| task: "lives listen w \<Longrightarrow> p < length (objs (tsrv w)) \<Longrightarrow> p \<notin> gone w \<Longrightarrow> p \<notin> busy w \<Longrightarrow> run_functor sh p w = Ok w'
    \<Longrightarrow> lives listen w'"
| hangup: "lives listen w \<Longrightarrow> p < length (objs (tsrv w)) \<Longrightarrow> p \<notin> gone w \<Longrightarrow> reported p w \<Longrightarrow> hang_up p w = Ok w'
    \<Longrightarrow> lives listen w'"
| closing: "lives listen w \<Longrightarrow> p < length (objs (tsrv w)) \<Longrightarrow> p \<notin> gone w \<Longrightarrow> user_close il p w = Ok w' \<Longrightarrow> lives listen w'"
| shutting: "lives listen w \<Longrightarrow> p < length (objs (tsrv w)) \<Longrightarrow> p \<notin> gone w \<Longrightarrow> user_shutdown il sh p w = Ok w'
    \<Longrightarrow> lives listen w'"
| begins: "lives listen w \<Longrightarrow> p < length (objs (tsrv w)) \<Longrightarrow> p \<notin> gone w \<Longrightarrow> p \<notin> busy w \<Longrightarrow> reported p w
    \<Longrightarrow> event_begins p w = Ok w' \<Longrightarrow> lives listen w'"
| ends: "lives listen w \<Longrightarrow> p < length (objs (tsrv w)) \<Longrightarrow> p \<notin> gone w \<Longrightarrow> p \<in> busy w \<Longrightarrow> event_ends p w = Ok w'
    \<Longrightarrow> lives listen w'"
| destroyed: "lives listen w \<Longrightarrow> p < length (objs (tsrv w)) \<Longrightarrow> p \<notin> gone w \<Longrightarrow> \<not> owned p w \<Longrightarrow> destroy p w = Ok w'
    \<Longrightarrow> lives listen w'"

section \<open>One connection\<close>

text \<open>A connection on its loop's thread whose socket is attached to the loop, or not, and marked, or not.\<close>

definition sock_ok :: "bool \<Rightarrow> bool \<Rightarrow> tcpconn \<Rightarrow> bool" where
  "sock_ok att h c \<longleftrightarrow> watch_inv (cnet c) \<and> loop_tid (cnet c) (cloop c) = here (cnet c)
     \<and> (\<exists>f. iofds (cnet c) (csock c) = Some f \<and> looper f = (if att then Some (cloop c) else None) \<and> handling f = h)"

lemma sock_ok_hooks [simp]: "sock_ok att h (hooks_of q c) = sock_ok att h c" "cstatus (hooks_of q c) = cstatus c"
  "ctasks (hooks_of q c) = ctasks c" "ctrace (hooks_of q c) = ctrace c" "sock_ok att h (c\<lparr>ctasks := ts\<rparr>) = sock_ok att h c"
  "CloseConn \<in> hooked (hooks_of q c) \<longleftrightarrow> phook q"
  by (simp_all add: sock_ok_def hooks_of_def)

lemma createConnection_ok:
  obtains c where "createConnection l now connfd = Ok c" and "sock_ok False False c" and "cstatus c = kConnecting" and "ctasks c = []"
proof -
  obtain b where b: "newBuffer kInitialSize = Ok b"
    using newBuffer_ok [of kInitialSize] by (auto simp: kInitialSize_def max_size_def)
  have "watch_inv (idle_net\<lparr>here := l\<rparr>)"
    by (simp add: watch_inv_def idle_net_def poller_ok_def newEPollPoller_def)
  then have "watch_inv (putFd 1 (newIOFd connfd (Some 1)) (idle_net\<lparr>here := l\<rparr>))"
    by (rule watch_inv_idle [where p = 1]) (auto simp: idle_net_def newIOFd_def)
  then show ?thesis using b that
    by (simp add: createConnection_def newTcpConnection_def conn_net_def sock_ok_def fdAt_def putFd_def newIOFd_def idle_net_def)
qed

lemma establish_ok:
  assumes "sock_ok False h c"
  obtains c' where "onConnectEstablished quiet c = Ok c'" and "sock_ok True h c'" and "cstatus c' = kConnected"
    and "ctasks c' = ctasks c" and "count_list (ctrace c') CloseConn = count_list (ctrace c) CloseConn"
proof -
  obtain f where f: "watch_inv (cnet c)" "loop_tid (cnet c) (cloop c) = here (cnet c)" "iofds (cnet c) (csock c) = Some f"
    "looper f = None" "handling f = h" using assms by (auto simp: sock_ok_def)
  let ?g = "f\<lparr>looper := Some (cloop c)\<rparr>"
  let ?w1 = "putFd (csock c) ?g (cnet c)"
  note att = attach_new [OF f(1,3,4,2)]
  have g: "iofds ?w1 (csock c) = Some ?g" "looper ?g = Some (cloop c)" "events ?g = 0" "loop_tid ?w1 (cloop c) = here ?w1"
    using unattached_idle(1) [OF f(1,3,4)] f(2) by simp_all
  obtain w2 where w2: "enableRead (csock c) ?w1 = Ok w2" "watch_inv w2" "here w2 = here ?w1" "loop_tid w2 = loop_tid ?w1"
    "iofds w2 (csock c) = Some (?g\<lparr>events := kReadEvent, status := ADDED\<rparr>)"
    using enable_new [OF att(2) g] by blast
  let ?c = "c\<lparr>cstatus := kConnected, cnet := w2\<rparr>"
  let ?c' = "if ConnectChange \<in> hooked c then ?c\<lparr>ctrace := ctrace c @ [ConnectChange]\<rparr> else ?c"
  have "onConnectEstablished quiet c = Ok ?c'"
    using att(1) w2(1) f(2) by (simp add: onConnectEstablished_def in_loop_def on_net_def changeStatus_def call_back_def)
  then show ?thesis by (rule that) (use w2 f(2,5) in \<open>simp_all add: sock_ok_def\<close>)
qed

lemma close_ok:
  assumes "sock_ok att h c"
  obtains c' where "closeInLoop quiet c = Ok c'" and "sock_ok False h c'" and "cstatus c' = kDisconnected" and "ctasks c' = ctasks c"
    and "count_list (ctrace c') CloseConn = count_list (ctrace c) CloseConn + of_bool (CloseConn \<in> hooked c)"
proof -
  obtain f where f: "watch_inv (cnet c)" "loop_tid (cnet c) (cloop c) = here (cnet c)" "iofds (cnet c) (csock c) = Some f"
    "looper f = (if att then Some (cloop c) else None)" "handling f = h" using assms by (auto simp: sock_ok_def)
  have th: "on_thread (csock c) (cnet c)" using f by (simp add: on_thread_def)
  obtain b w g where w: "detachInLoop (csock c) (cnet c) = Ok (b, w)" "watch_inv w" "iofds w (csock c) = Some g" "looper g = None"
    "handling g = handling f" "here w = here (cnet c)" "loop_tid w = loop_tid (cnet c)"
    using detach_ok [OF f(1) th f(3)] by blast
  let ?c = "c\<lparr>cstatus := kDisconnected, cnet := w\<rparr>"
  let ?c1 = "if ConnectChange \<in> hooked c then ?c\<lparr>ctrace := ctrace c @ [ConnectChange]\<rparr> else ?c"
  let ?c' = "if CloseConn \<in> hooked c then ?c1\<lparr>ctrace := ctrace ?c1 @ [CloseConn]\<rparr> else ?c1"
  have "closeInLoop quiet c = Ok ?c'"
    using w(1) f(2) by (simp add: closeInLoop_def in_loop_def on_net_def changeStatus_def call_back_def)
  then show ?thesis by (rule that) (use w f(2,5) in \<open>simp_all add: sock_ok_def\<close>)
qed

lemma shutdown_ok:
  assumes "sock_ok att h c"
  shows "shutdownInLoop (SysOk ()) c = Ok c \<or> shutdownInLoop (SysOk ()) c = Ok (c\<lparr>shut := True\<rparr>)"
  using assms by (auto simp: sock_ok_def shutdownInLoop_def fdAt_def)

lemma mark_ok:
  assumes "sock_ok att h c"
  obtains c' where "mark h' c = Ok c'" and "sock_ok att h' c'" and "cstatus c' = cstatus c" and "ctasks c' = ctasks c"
proof -
  obtain f where f: "watch_inv (cnet c)" "iofds (cnet c) (csock c) = Some f" using assms by (auto simp: sock_ok_def)
  have "watch_inv (putFd (csock c) (f\<lparr>handling := h'\<rparr>) (cnet c))" by (rule watch_inv_same [OF f]) simp_all
  then show ?thesis using assms f(2)
    by (intro that [of "c\<lparr>cnet := putFd (csock c) (f\<lparr>handling := h'\<rparr>) (cnet c)\<rparr>"]) (auto simp: mark_def fdAt_def sock_ok_def)
qed

text \<open>The destructor passes unless the event of the socket is still being handled.\<close>

lemma destructor_ok:
  assumes "sock_ok False h c" and "cstatus c = kDisconnected"
  shows "if h then deleteTcpConnection c = Fail AssertFail else \<exists>net. deleteTcpConnection c = Ok net"
proof -
  obtain f where f: "watch_inv (cnet c)" "iofds (cnet c) (csock c) = Some f" "looper f = None" "handling f = h"
    using assms(1) by (auto simp: sock_ok_def)
  show ?thesis
  proof (cases h)
    case True
    then show ?thesis using f assms(2) by (simp add: deleteTcpConnection_def deleteIOFd_def fdAt_def)
  next
    case False
    then show ?thesis using delete_idle(1) [OF f(1-3)] f(4) assms(2) by (simp add: deleteTcpConnection_def)
  qed
qed

section \<open>The states of a connection\<close>

text \<open>
  A connection waits to be established, is established, has been told to close or is shut down, or is closed;
  \<open>e\<close> says that the functor that establishes it waits, \<open>h\<close> that its socket is marked. As long as nothing is queued
  that will close it, the server must know it (\<open>b\<close>), so that it is not lost before it is closed.
\<close>

definition conn_state :: "bool \<Rightarrow> bool \<Rightarrow> bool \<Rightarrow> tcpconn \<Rightarrow> bool" where
  "conn_state b e h c \<longleftrightarrow> (case cstatus c of
      kConnecting \<Rightarrow> e \<and> b \<and> \<not> h \<and> sock_ok False h c \<and> ctasks c = []
    | kConnected \<Rightarrow> \<not> e \<and> b \<and> sock_ok True h c \<and> ctasks c = []
    | kDisconnecting \<Rightarrow> \<not> e \<and> sock_ok True h c
        \<and> (ctasks c = [TaskClose] \<or> b \<and> (ctasks c = [] \<or> ctasks c = [TaskShutdown]))
    | kDisconnected \<Rightarrow> \<not> e \<and> sock_ok False h c \<and> set (ctasks c) \<subseteq> {TaskClose, TaskShutdown})"

lemma conn_state_mono: "conn_state b e h c \<Longrightarrow> (b \<Longrightarrow> b') \<Longrightarrow> conn_state b' e h c"
  by (auto simp: conn_state_def split: conn_status.splits)

lemma conn_state_closed: "conn_state b e h c \<Longrightarrow> cstatus c = kDisconnected \<Longrightarrow> conn_state b' e h c"
  by (simp add: conn_state_def)

lemma conn_state_hooks [simp]: "conn_state b e h (hooks_of q c) = conn_state b e h c"
  by (simp add: conn_state_def cong: conn_status.case_cong)

lemma conn_state_tasks: "conn_state b e h c \<Longrightarrow> set (ctasks c) \<subseteq> {TaskClose, TaskShutdown}"
  by (auto simp: conn_state_def split: conn_status.splits)

text \<open>
  What a method leaves: the state; the close callback is called exactly when the connection closes, and
  closed stays closed.
\<close>

definition leaves :: "bool \<Rightarrow> bool \<Rightarrow> (tcpconn \<Rightarrow> tcpconn res) \<Rightarrow> tcpconn \<Rightarrow> bool" where
  "leaves b h f c \<longleftrightarrow> (\<exists>c'. f c = Ok c' \<and> conn_state b False h c'
     \<and> (count_list (ctrace c) CloseConn < count_list (ctrace c') CloseConn \<or> cstatus c = kDisconnected \<longrightarrow> cstatus c' = kDisconnected)
     \<and> (CloseConn \<in> hooked c \<longrightarrow> cstatus c \<noteq> kDisconnected \<longrightarrow> cstatus c' = kDisconnected
          \<longrightarrow> count_list (ctrace c) CloseConn < count_list (ctrace c') CloseConn))"

lemma leaves_same: "conn_state b False h c \<Longrightarrow> f c = Ok c \<Longrightarrow> leaves b h f c"
  by (simp add: leaves_def)

lemma leaves_establish:
  assumes "conn_state b True h c"
  shows "leaves b h (onConnectEstablished quiet) (hooks_of q c)"
proof -
  have c: "sock_ok False h (hooks_of q c)" "ctasks c = []" b "cstatus c = kConnecting"
    using assms by (auto simp: conn_state_def split: conn_status.splits)
  show ?thesis by (rule establish_ok [OF c(1)]) (use c in \<open>auto simp: leaves_def conn_state_def\<close>)
qed

lemma leaves_close:
  assumes "sock_ok att h c" and "set (ctasks c) \<subseteq> {TaskClose, TaskShutdown}"
  shows "leaves b h (closeInLoop quiet) c"
  by (rule close_ok [OF assms(1)]) (use assms(2) in \<open>auto simp: leaves_def conn_state_def\<close>)

lemma leaves_task:
  assumes st: "conn_state b False h c" and t: "ctasks c = t # ts"
  shows "leaves b h (\<lambda>c. run_task quiet (\<lambda>_. SysErr 0) (SysOk ()) t (c\<lparr>ctasks := ts\<rparr>)) (hooks_of q c)"
proof -
  let ?c = "(hooks_of q c)\<lparr>ctasks := ts\<rparr>"
  have ts: "set ts \<subseteq> {TaskClose, TaskShutdown}" "t = TaskClose \<or> t = TaskShutdown"
    using conn_state_tasks [OF st] t by auto
  obtain att where att: "sock_ok att h c" using st by (auto simp: conn_state_def split: conn_status.splits)
  show ?thesis
  proof (cases "t = TaskClose")
    case True
    have "leaves b h (closeInLoop quiet) ?c" by (rule leaves_close [of att]) (use att ts(1) in simp_all)
    then show ?thesis using True by (simp add: leaves_def)
  next
    case False
    then have t': "t = TaskShutdown" using ts(2) by simp
    have st': "conn_state b False h ?c" using st t t' by (auto simp: conn_state_def split: conn_status.splits)
    have sh: "conn_state b False h (?c\<lparr>shut := True\<rparr>)"
      using st' by (simp add: conn_state_def sock_ok_def cong: conn_status.case_cong)
    have "sock_ok att h ?c" using att by simp
    from shutdown_ok [OF this] show ?thesis using st' sh t' by (auto simp: leaves_def)
  qed
qed

lemma leaves_hang_up:
  assumes st: "conn_state b e h c" and f: "iofds (cnet c) (csock c) = Some f" "looper f \<noteq> None"
  shows "leaves b' h (handleClose quiet) (hooks_of q c)" and "\<not> e"
proof -
  have "\<not> sock_ok False h' c" for h' using f by (auto simp: sock_ok_def)
  then have c: "sock_ok True h c" "cstatus c = kConnected \<or> cstatus c = kDisconnecting" "\<not> e"
    using st by (auto simp: conn_state_def split: conn_status.splits)
  then have "handleClose quiet (hooks_of q c) = closeInLoop quiet (hooks_of q c)"
    by (auto simp: handleClose_def in_loop_def sock_ok_def hooks_of_def)
  then show "leaves b' h (handleClose quiet) (hooks_of q c)"
    using leaves_close [of True h "hooks_of q c" b'] c conn_state_tasks [OF st] by (simp add: leaves_def)
  show "\<not> e" by (rule c(3))
qed

text \<open>
  \<open>close\<close>, in the connection's thread or another one: afterwards the connection needs no other owner than its
  functor, unless it has not been established yet or was shut down.
\<close>

lemma leaves_close_conn:
  assumes st: "conn_state b False h c" and b': "shut_down c \<Longrightarrow> b \<Longrightarrow> b'"
  shows "leaves b' h (close_conn quiet) (hooks_of q c)" and "leaves b' h (elsewhere (close_conn quiet)) (hooks_of q c)"
proof -
  let ?c = "hooks_of q c"
  have idle: "conn_state b' False h ?c" if "cstatus c \<noteq> kConnected"
    using st that b' by (cases "cstatus c") (auto simp: conn_state_def shut_down_def)
  have att: "sock_ok True h ?c" "ctasks c = []" if "cstatus c = kConnected"
    using st that by (simp_all add: conn_state_def)
  show "leaves b' h (close_conn quiet) ?c"
  proof (cases "cstatus c = kConnected")
    case True
    have "sock_ok True h (changeStatus kDisconnecting ?c)" using att(1) [OF True] by (simp add: sock_ok_def changeStatus_def)
    then have "leaves b' h (closeInLoop quiet) (changeStatus kDisconnecting ?c)"
      by (rule leaves_close) (use att(2) [OF True] in \<open>simp add: changeStatus_def\<close>)
    moreover have "close_conn quiet ?c = closeInLoop quiet (changeStatus kDisconnecting ?c)"
      using True att(1) by (simp add: close_conn_def Let_def in_loop_thread_def changeStatus_def sock_ok_def)
    ultimately show ?thesis using True by (simp add: leaves_def changeStatus_def)
  qed (use idle in \<open>simp add: leaves_def close_conn_def\<close>)
  show "leaves b' h (elsewhere (close_conn quiet)) ?c"
  proof (cases "cstatus c = kConnected")
    case True
    have t: "loop_tid (cnet ?c) (cloop ?c) = here (cnet ?c)" using att(1) [OF True] by (simp add: sock_ok_def)
    let ?c1 = "?c\<lparr>cstatus := kDisconnecting, ctasks := [TaskClose]\<rparr>"
    have "elsewhere (close_conn quiet) ?c = Ok ?c1"
      using True t att(2) [OF True]
      by (simp add: elsewhere_def close_conn_def Let_def in_loop_thread_def changeStatus_def)
    moreover have "sock_ok True h ?c1" using att(1) [OF True] by (simp add: sock_ok_def)
    ultimately show ?thesis using True by (simp add: leaves_def conn_state_def)
  qed (use idle in \<open>simp add: leaves_def elsewhere_def close_conn_def\<close>)
qed

text \<open>\<open>shutdown\<close>: a connection that was connected stays known to the server, and only a hang-up will close it.\<close>

lemma leaves_shutdown_conn:
  assumes st: "conn_state b False h c"
  shows "leaves b h (shutdown_conn (SysOk ())) (hooks_of q c)" and "leaves b h (elsewhere (shutdown_conn (SysOk ()))) (hooks_of q c)"
proof -
  let ?c = "hooks_of q c"
  have att: "sock_ok True h ?c" "ctasks c = []" b if "cstatus c = kConnected"
    using st that by (simp_all add: conn_state_def)
  show "leaves b h (shutdown_conn (SysOk ())) ?c"
  proof (cases "cstatus c = kConnected")
    case True
    let ?d = "changeStatus kDisconnecting ?c"
    have d: "sock_ok True h ?d" "cstatus ?d = kDisconnecting" "ctasks ?d = []" "ctrace ?d = ctrace c"
      using att [OF True] by (simp_all add: sock_ok_def changeStatus_def)
    have "shutdown_conn (SysOk ()) ?c = shutdownInLoop (SysOk ()) ?d"
      using True att(1) by (simp add: shutdown_conn_def Let_def in_loop_thread_def changeStatus_def sock_ok_def)
    moreover have "conn_state b False h ?d" "conn_state b False h (?d\<lparr>shut := True\<rparr>)"
      using d att(3) [OF True] by (simp_all add: conn_state_def sock_ok_def)
    ultimately show ?thesis using shutdown_ok [OF d(1)] True d(2,4) by (auto simp: leaves_def)
  qed (use st in \<open>simp add: leaves_def shutdown_conn_def\<close>)
  show "leaves b h (elsewhere (shutdown_conn (SysOk ()))) ?c"
  proof (cases "cstatus c = kConnected")
    case True
    have t: "loop_tid (cnet ?c) (cloop ?c) = here (cnet ?c)" using att(1) [OF True] by (simp add: sock_ok_def)
    let ?c1 = "?c\<lparr>cstatus := kDisconnecting, ctasks := [TaskShutdown]\<rparr>"
    have "elsewhere (shutdown_conn (SysOk ())) ?c = Ok ?c1"
      using True t att(2) [OF True]
      by (simp add: elsewhere_def shutdown_conn_def Let_def in_loop_thread_def changeStatus_def)
    moreover have "sock_ok True h ?c1" using att(1) [OF True] by (simp add: sock_ok_def)
    ultimately show ?thesis using True att(3) by (simp add: leaves_def conn_state_def)
  qed (use st in \<open>simp add: leaves_def elsewhere_def shutdown_conn_def\<close>)
qed

section \<open>The invariant\<close>

text \<open>The server knows a connection: it is in the table under its address, and its close is reported.\<close>

definition bound :: "server \<Rightarrow> nat \<Rightarrow> bool" where
  "bound s p \<longleftrightarrow> phook (objs s ! p) \<and> (pindex (objs s ! p), p) \<in> set (conns s)"

text \<open>
  \<open>X\<close> are connections a method is working on, \<open>P\<close> those a stopping server has dropped and not told yet. A
  connection is kept when it is one of these, or missed, or known to the server.
\<close>

definition kept :: "nat set \<Rightarrow> tcp_world \<Rightarrow> nat \<Rightarrow> bool" where
  "kept P w p \<longleftrightarrow> p \<in> P \<or> p \<in> missed w \<or> bound (tsrv w) p"

definition linv :: "nat set \<Rightarrow> nat set \<Rightarrow> tcp_world \<Rightarrow> bool" where
  "linv X P w \<longleftrightarrow> srv_inv (tsrv w) \<and> gone w \<union> busy w \<subseteq> {..<length (objs (tsrv w))}
     \<and> (\<forall>p < length (objs (tsrv w)). p \<notin> gone w \<longrightarrow> p \<notin> X \<longrightarrow> conn_state (kept P w p) (est w p) (p \<in> busy w) (tconn w p))
     \<and> (\<forall>p < length (objs (tsrv w)). \<forall>q < length (objs (tsrv w)). p \<notin> gone w \<longrightarrow> q \<notin> gone w \<longrightarrow> p \<notin> missed w
          \<longrightarrow> pindex (objs (tsrv w) ! p) = pindex (objs (tsrv w) ! q) \<longrightarrow> p = q)
     \<and> (\<forall>p. RemoveTask p \<in> set (stasks (tsrv w)) \<longrightarrow> p \<notin> gone w \<and> (p \<notin> X \<longrightarrow> cstatus (tconn w p) = kDisconnected))
     \<and> (\<forall>(k, p) \<in> set (conns (tsrv w)). p \<notin> gone w
          \<and> (p \<notin> X \<longrightarrow> cstatus (tconn w p) = kDisconnected \<longrightarrow> RemoveTask p \<in> set (stasks (tsrv w))))
     \<and> (\<forall>p. est w p \<longrightarrow> p < length (objs (tsrv w)))"

lemma linvD:
  assumes "linv X P w"
  shows "srv_inv (tsrv w)" and "gone w \<union> busy w \<subseteq> {..<length (objs (tsrv w))}"
    and "p < length (objs (tsrv w)) \<Longrightarrow> p \<notin> gone w \<Longrightarrow> p \<notin> X \<Longrightarrow> conn_state (kept P w p) (est w p) (p \<in> busy w) (tconn w p)"
    and "p < length (objs (tsrv w)) \<Longrightarrow> q < length (objs (tsrv w)) \<Longrightarrow> p \<notin> gone w \<Longrightarrow> q \<notin> gone w \<Longrightarrow> p \<notin> missed w
      \<Longrightarrow> pindex (objs (tsrv w) ! p) = pindex (objs (tsrv w) ! q) \<Longrightarrow> p = q"
    and "RemoveTask p \<in> set (stasks (tsrv w)) \<Longrightarrow> p \<notin> gone w"
    and "RemoveTask p \<in> set (stasks (tsrv w)) \<Longrightarrow> p \<notin> X \<Longrightarrow> cstatus (tconn w p) = kDisconnected"
    and "(k, p) \<in> set (conns (tsrv w)) \<Longrightarrow> p \<notin> gone w"
    and "est w p \<Longrightarrow> p < length (objs (tsrv w))"
    and "(k, p) \<in> set (conns (tsrv w)) \<Longrightarrow> p \<notin> X \<Longrightarrow> cstatus (tconn w p) = kDisconnected \<Longrightarrow> RemoveTask p \<in> set (stasks (tsrv w))"
  using assms unfolding linv_def by blast+

lemma linvI:
  assumes "srv_inv (tsrv w)" and "gone w \<union> busy w \<subseteq> {..<length (objs (tsrv w))}"
    and "\<And>p. p < length (objs (tsrv w)) \<Longrightarrow> p \<notin> gone w \<Longrightarrow> conn_state (kept P w p) (est w p) (p \<in> busy w) (tconn w p)"
    and "\<And>p q. p < length (objs (tsrv w)) \<Longrightarrow> q < length (objs (tsrv w)) \<Longrightarrow> p \<notin> gone w \<Longrightarrow> q \<notin> gone w \<Longrightarrow> p \<notin> missed w
      \<Longrightarrow> pindex (objs (tsrv w) ! p) = pindex (objs (tsrv w) ! q) \<Longrightarrow> p = q"
    and "\<And>p. RemoveTask p \<in> set (stasks (tsrv w)) \<Longrightarrow> p \<notin> gone w \<and> cstatus (tconn w p) = kDisconnected"
    and "\<And>k p. (k, p) \<in> set (conns (tsrv w)) \<Longrightarrow> p \<notin> gone w"
    and "\<And>p. est w p \<Longrightarrow> p < length (objs (tsrv w))"
    and "\<And>k p. (k, p) \<in> set (conns (tsrv w)) \<Longrightarrow> cstatus (tconn w p) = kDisconnected \<Longrightarrow> RemoveTask p \<in> set (stasks (tsrv w))"
  shows "linv {} P w"
  using assms unfolding linv_def by blast

lemma kept_mono: "kept P w p \<Longrightarrow> P \<subseteq> P' \<union> missed w \<Longrightarrow> kept P' w p"
  by (auto simp: kept_def)

lemma linv_mono: "linv X P w \<Longrightarrow> P \<subseteq> P' \<union> missed w \<Longrightarrow> linv X P' w"
  unfolding linv_def by (elim conjE, intro conjI) (blast intro: conn_state_mono kept_mono)+

lemma linv_new: "linv {} {} (new_tcp_world a)"
  by (simp add: linv_def new_tcp_world_def new_server_inv) (simp add: newServer_def)

lemma closed_funpow:
  "(onClosedInConnection p ^^ n) s = s\<lparr>stasks := stasks s @ (if phook (objs s ! p) then replicate n (RemoveTask p) else [])\<rparr>"
  by (induction n) (auto simp: onClosedInConnection_def replicate_append_same)

text \<open>A method of a connection.\<close>

definition same_world :: "nat \<Rightarrow> tcp_world \<Rightarrow> tcp_world \<Rightarrow> bool" where
  "same_world p w w' \<longleftrightarrow> est w' = est w \<and> gone w' = gone w \<and> busy w' = busy w \<and> missed w' = missed w
     \<and> objs (tsrv w') = objs (tsrv w) \<and> conns (tsrv w') = conns (tsrv w) \<and> (\<forall>q. q \<noteq> p \<longrightarrow> tconn w' q = tconn w q)"

lemma with_conn_linv:
  assumes inv: "linv {p} P w" and p: "p < length (objs (tsrv w))" "p \<notin> gone w" "\<not> est w p" and P: "P - {p} \<subseteq> P' \<union> missed w"
    and run: "leaves (kept P' w p) (p \<in> busy w) f (hooks_of (objs (tsrv w) ! p) (tconn w p))"
    and rem: "RemoveTask p \<in> set (stasks (tsrv w)) \<Longrightarrow> cstatus (tconn w p) = kDisconnected"
    and tab: "\<And>k. (k, p) \<in> set (conns (tsrv w)) \<Longrightarrow> cstatus (tconn w p) = kDisconnected \<Longrightarrow> RemoveTask p \<in> set (stasks (tsrv w))"
  shows "\<exists>w'. with_conn p f w = Ok w' \<and> linv {} P' w' \<and> same_world p w w'"
proof -
  let ?s = "tsrv w" and ?c0 = "hooks_of (objs (tsrv w) ! p) (tconn w p)"
  obtain c where c: "f ?c0 = Ok c" "conn_state (kept P' w p) False (p \<in> busy w) c"
    "count_list (ctrace ?c0) CloseConn < count_list (ctrace c) CloseConn \<or> cstatus (tconn w p) = kDisconnected
      \<longrightarrow> cstatus c = kDisconnected"
    "phook (objs ?s ! p) \<Longrightarrow> cstatus (tconn w p) \<noteq> kDisconnected \<Longrightarrow> cstatus c = kDisconnected
      \<Longrightarrow> count_list (ctrace ?c0) CloseConn < count_list (ctrace c) CloseConn"
    using run by (auto simp: leaves_def)
  define n where "n = count_list (ctrace c) CloseConn - count_list (ctrace ?c0) CloseConn"
  define s' where "s' = (onClosedInConnection p ^^ n) ?s"
  let ?w = "w\<lparr>tconn := (tconn w)(p := c), tsrv := s'\<rparr>"
  have same: "objs s' = objs ?s" "conns s' = conns ?s" "ptasks s' = ptasks ?s"
    and new: "\<And>t. t \<in> set (stasks s') \<longleftrightarrow> t \<in> set (stasks ?s) \<or> t = RemoveTask p \<and> phook (objs ?s ! p) \<and> 0 < n"
    by (auto simp: s'_def closed_funpow)
  have b: "kept P' ?w q = kept P' w q" for q by (simp add: kept_def bound_def same)
  have inv': "srv_inv s'" using linvD(1) [OF inv] p(1) by (auto simp: srv_inv_def same new)
  have dead: "cstatus c = kDisconnected" if "RemoveTask p \<in> set (stasks s')"
    using that rem c(3) by (auto simp: new n_def)
  have entry: "RemoveTask p \<in> set (stasks s')" if "(k, p) \<in> set (conns ?s)" "cstatus c = kDisconnected" for k
    using that tab [OF that(1)] c(4) srv_invD(2) [OF linvD(1) [OF inv] that(1)] by (auto simp: new n_def)
  have others: "conn_state (kept P' w q) (est w q) (q \<in> busy w) (tconn w q)"
    if "q < length (objs ?s)" "q \<notin> gone w" "q \<noteq> p" for q
    by (rule conn_state_mono [OF linvD(3) [OF inv that(1,2)]]) (use that(3) P in \<open>auto simp: kept_def\<close>)
  have "linv {} P' ?w"
  proof (rule linvI)
    show "srv_inv (tsrv ?w)" using inv' by simp
    show "gone ?w \<union> busy ?w \<subseteq> {..<length (objs (tsrv ?w))}" using linvD(2) [OF inv] by (simp add: same)
    show "conn_state (kept P' ?w q) (est ?w q) (q \<in> busy ?w) (tconn ?w q)"
      if "q < length (objs (tsrv ?w))" "q \<notin> gone ?w" for q
      using others [of q] that c(2) p(3) unfolding b by (cases "q = p") (simp_all add: same)
    show "q = r" if "q < length (objs (tsrv ?w))" "r < length (objs (tsrv ?w))" "q \<notin> gone ?w" "r \<notin> gone ?w" "q \<notin> missed ?w"
      "pindex (objs (tsrv ?w) ! q) = pindex (objs (tsrv ?w) ! r)" for q r
      by (rule linvD(4) [OF inv]) (use that in \<open>simp_all add: same\<close>)
    show "q \<notin> gone ?w \<and> cstatus (tconn ?w q) = kDisconnected" if q: "RemoveTask q \<in> set (stasks (tsrv ?w))" for q
    proof (cases "q = p")
      case False
      then have "RemoveTask q \<in> set (stasks ?s)" using q by (simp add: new)
      then show ?thesis using linvD(5,6) [OF inv, of q] False by simp
    qed (use dead q p(2) in simp)
    show "q \<notin> gone ?w" if "(k, q) \<in> set (conns (tsrv ?w))" for k q
      using linvD(7) [OF inv, of k q] that by (simp add: same)
    show "q < length (objs (tsrv ?w))" if "est ?w q" for q
      using linvD(8) [OF inv, of q] that by (simp add: same)
    show "RemoveTask q \<in> set (stasks (tsrv ?w))" if "(k, q) \<in> set (conns (tsrv ?w))" "cstatus (tconn ?w q) = kDisconnected" for k q
      using that linvD(9) [OF inv, of k q] entry [of k] by (cases "q = p") (simp_all add: same new)
  qed
  moreover have "with_conn p f w = Ok ?w" using c(1) by (simp add: with_conn_def Let_def s'_def n_def)
  ultimately show ?thesis using same(1,2) by (intro exI [of _ ?w]) (simp add: same_world_def)
qed

lemma linv_exclude: "linv {} P w \<Longrightarrow> linv {p} P w"
  by (auto simp: linv_def)

text \<open>A method called in a state where nothing else is going on.\<close>

lemma method_linv:
  assumes inv: "linv {} P w" and p: "p < length (objs (tsrv w))" "p \<notin> gone w" and e: "\<not> est w p"
    and P: "P - {p} \<subseteq> P' \<union> missed w"
    and run: "leaves (kept P' w p) (p \<in> busy w) f (hooks_of (objs (tsrv w) ! p) (tconn w p))"
  shows "\<exists>w'. with_conn p f w = Ok w' \<and> linv {} P' w' \<and> same_world p w w'"
  by (rule with_conn_linv [OF linv_exclude [OF inv] p e P run]) (use linvD(6,9) [OF inv] in simp_all)

text \<open>A method that leaves the connection as it is.\<close>

lemma idle_linv:
  assumes inv: "linv {} P w" and idle: "f (hooks_of (objs (tsrv w) ! p) (tconn w p)) = Ok (hooks_of (objs (tsrv w) ! p) (tconn w p))"
  shows "\<exists>w'. with_conn p f w = Ok w' \<and> linv {} P w' \<and> same_world p w w' \<and> tsrv w' = tsrv w"
proof -
  let ?w = "w\<lparr>tconn := (tconn w)(p := hooks_of (objs (tsrv w) ! p) (tconn w p))\<rparr>"
  have "with_conn p f w = Ok ?w" using idle by (simp add: with_conn_def Let_def)
  moreover have "linv {} P ?w" using inv by (auto simp: linv_def kept_def)
  ultimately show ?thesis by (intro exI [of _ ?w]) (simp add: same_world_def)
qed

lemma waiting:
  assumes "linv {} P w" and "p < length (objs (tsrv w))" "p \<notin> gone w"
  shows "est w p \<longleftrightarrow> cstatus (tconn w p) = kConnecting" and "est w p \<Longrightarrow> p \<notin> busy w"
  using linvD(3) [OF assms(1-3)] by (auto simp: conn_state_def split: conn_status.splits)

lemma run_functor_linv:
  assumes inv: "linv {} {} w" and p: "p < length (objs (tsrv w))" "p \<notin> gone w"
  shows "\<exists>w'. run_functor (SysOk ()) p w = Ok w' \<and> linv {} {} w'"
proof -
  have st: "conn_state (kept {} w p) (est w p) (p \<in> busy w) (tconn w p)" using linvD(3) [OF inv p] by simp
  show ?thesis
  proof (cases "est w p")
    case True
    let ?w = "w\<lparr>est := (est w)(p := False)\<rparr>"
    have kc: "cstatus (tconn w p) = kConnecting" using waiting(1) [OF inv p] True by simp
    have "linv {p} {} ?w" using inv by (auto simp: linv_def kept_def)
    moreover have "leaves (kept {} ?w p) (p \<in> busy ?w) (onConnectEstablished quiet) (hooks_of (objs (tsrv ?w) ! p) (tconn ?w p))"
      using leaves_establish st True by (simp add: kept_def)
    moreover have "RemoveTask p \<notin> set (stasks (tsrv w))" using linvD(6) [OF inv, of p] kc by auto
    ultimately have "\<exists>w'. with_conn p (onConnectEstablished quiet) ?w = Ok w' \<and> linv {} {} w'"
      using with_conn_linv [of p "{}" ?w "{}" "onConnectEstablished quiet"] p kc by fastforce
    then show ?thesis using True by (simp add: run_functor_def)
  next
    case e: False
    show ?thesis
    proof (cases "ctasks (tconn w p)")
      case Nil
      then show ?thesis using e inv by (simp add: run_functor_def)
    next
      case (Cons t ts)
      have "conn_state (kept {} w p) False (p \<in> busy w) (tconn w p)" using st e by simp
      from method_linv [OF inv p e _ leaves_task [OF this Cons]] show ?thesis using e Cons by (auto simp: run_functor_def)
    qed
  qed
qed

lemma hang_up_linv:
  assumes inv: "linv {} {} w" and p: "p < length (objs (tsrv w))" "p \<notin> gone w" and r: "reported p w"
  shows "\<exists>w'. hang_up p w = Ok w' \<and> linv {} {} w'"
proof -
  obtain f where f: "iofds (cnet (tconn w p)) (csock (tconn w p)) = Some f" "looper f \<noteq> None" using r by (auto simp: reported_def)
  have "conn_state (kept {} w p) (est w p) (p \<in> busy w) (tconn w p)" using linvD(3) [OF inv p] by simp
  note h = leaves_hang_up [OF this f]
  from method_linv [OF inv p h(2) _ h(1)] show ?thesis by (auto simp: hang_up_def)
qed

text \<open>\<open>close\<close> and \<open>shutdown\<close> do nothing to a connection that is not connected.\<close>

lemma close_idle:
  assumes "cstatus c \<noteq> kConnected" and "f = close_conn quiet \<or> f = elsewhere (close_conn quiet)
    \<or> f = shutdown_conn sh \<or> f = elsewhere (shutdown_conn sh)"
  shows "f (hooks_of q c) = Ok (hooks_of q c)"
  using assms by (auto simp: close_conn_def shutdown_conn_def elsewhere_def)

lemma user_close_linv:
  assumes inv: "linv {} {} w" and p: "p < length (objs (tsrv w))" "p \<notin> gone w"
  shows "\<exists>w'. user_close il p w = Ok w' \<and> linv {} {} w'" and "\<exists>w'. user_shutdown il (SysOk ()) p w = Ok w' \<and> linv {} {} w'"
proof -
  let ?f = "if il then close_conn quiet else elsewhere (close_conn quiet)"
    and ?g = "if il then shutdown_conn (SysOk ()) else elsewhere (shutdown_conn (SysOk ()))"
  have "(\<exists>w'. with_conn p ?f w = Ok w' \<and> linv {} {} w') \<and> (\<exists>w'. with_conn p ?g w = Ok w' \<and> linv {} {} w')"
  proof (cases "est w p")
    case False
    have st: "conn_state (kept {} w p) False (p \<in> busy w) (tconn w p)" using linvD(3) [OF inv p] False by simp
    have "leaves (kept {} w p) (p \<in> busy w) ?f (hooks_of (objs (tsrv w) ! p) (tconn w p))"
      "leaves (kept {} w p) (p \<in> busy w) ?g (hooks_of (objs (tsrv w) ! p) (tconn w p))"
      using leaves_close_conn [OF st, of "kept {} w p"] leaves_shutdown_conn [OF st] by simp_all
    then show ?thesis using method_linv [OF inv p False, of "{}"] by (meson Diff_subset empty_subsetI order_trans)
  next
    case True
    then have "cstatus (tconn w p) \<noteq> kConnected" using waiting(1) [OF inv p] by simp
    then have "?f (hooks_of (objs (tsrv w) ! p) (tconn w p)) = Ok (hooks_of (objs (tsrv w) ! p) (tconn w p))"
      "?g (hooks_of (objs (tsrv w) ! p) (tconn w p)) = Ok (hooks_of (objs (tsrv w) ! p) (tconn w p))"
      by (auto intro!: close_idle [where sh = "SysOk ()"])
    then show ?thesis using idle_linv [OF inv] by meson
  qed
  then show "\<exists>w'. user_close il p w = Ok w' \<and> linv {} {} w'" and "\<exists>w'. user_shutdown il (SysOk ()) p w = Ok w' \<and> linv {} {} w'"
    by (simp_all add: user_close_def user_shutdown_def)
qed

text \<open>A shutdown that succeeds: \<open>::shutdown\<close> returned no error, or it was not called.\<close>

lemma shutdown_answer:
  assumes "user_shutdown il sh p w = Ok w'"
  shows "user_shutdown il (SysOk ()) p w = Ok w'"
  using assms by (cases sh) (auto simp: user_shutdown_def with_conn_def Let_def shutdown_conn_def elsewhere_def shutdownInLoop_def
    split: if_splits)

lemma run_functor_answer:
  assumes "run_functor sh p w = Ok w'"
  shows "run_functor (SysOk ()) p w = Ok w'"
proof (cases "est w p \<or> ctasks (tconn w p) = []")
  case True
  then show ?thesis using assms by (auto simp: run_functor_def)
next
  case False
  then obtain t ts where t: "ctasks (tconn w p) = t # ts" by (auto simp: neq_Nil_conv)
  then show ?thesis using assms False
    by (cases t; cases sh) (auto simp: run_functor_def with_conn_def Let_def shutdownInLoop_def split: if_splits)
qed

text \<open>The marks.\<close>

lemma event_linv:
  assumes inv: "linv {} {} w" and p: "p < length (objs (tsrv w))" "p \<notin> gone w" and e: "\<not> est w p"
  shows "\<exists>w'. event_begins p w = Ok w' \<and> linv {} {} w'" and "\<exists>w'. event_ends p w = Ok w' \<and> linv {} {} w'"
proof -
  have st: "conn_state (kept {} w p) False (p \<in> busy w) (tconn w p)" using linvD(3) [OF inv p] e by simp
  then obtain att where "sock_ok att (p \<in> busy w) (tconn w p)" by (auto simp: conn_state_def split: conn_status.splits)
  note m = mark_ok [OF this]
  have run: "\<exists>c. mark h (tconn w p) = Ok c \<and> linv {} {} (w\<lparr>tconn := (tconn w)(p := c), busy := B\<rparr>)"
    if B: "\<And>q. q \<noteq> p \<Longrightarrow> q \<in> B \<longleftrightarrow> q \<in> busy w" "p \<in> B \<longleftrightarrow> h" for h B
  proof -
    obtain c where c: "mark h (tconn w p) = Ok c" "cstatus c = cstatus (tconn w p)" "ctasks c = ctasks (tconn w p)"
      "\<And>att. sock_ok att (p \<in> busy w) (tconn w p) \<Longrightarrow> sock_ok att h c"
    proof -
      obtain c where c: "mark h (tconn w p) = Ok c" "cstatus c = cstatus (tconn w p)" "ctasks c = ctasks (tconn w p)" by (rule m)
      have "sock_ok att h c" if a: "sock_ok att (p \<in> busy w) (tconn w p)" for att
        using mark_ok [OF a, of h] c(1) by (metis Inr_inject)
      then show thesis using c that by blast
    qed
    have st': "conn_state (kept {} w p) False h c"
      using st c(2-4) by (auto simp: conn_state_def split: conn_status.splits)
    have "conn_state (kept {} (w\<lparr>tconn := (tconn w)(p := c), busy := B\<rparr>) q) (est w q) (q \<in> B) (if q = p then c else tconn w q)"
      if "q < length (objs (tsrv w))" "q \<notin> gone w" for q
      using st' linvD(3) [OF inv, of q] that B e by (cases "q = p") (simp_all add: kept_def)
    moreover have "B \<subseteq> insert p (busy w)" using B by blast
    ultimately have "linv {} {} (w\<lparr>tconn := (tconn w)(p := c), busy := B\<rparr>)"
      using linvD(1,2,5,7,8) [OF inv] linvD(4,6,9) [OF inv] c(2) p
      by (intro linvI) (auto split: if_splits)
    then show ?thesis using c(1) by blast
  qed
  show "\<exists>w'. event_begins p w = Ok w' \<and> linv {} {} w'" using run [of "insert p (busy w)" True] by (auto simp: event_begins_def)
  show "\<exists>w'. event_ends p w = Ok w' \<and> linv {} {} w'" using run [of "busy w - {p}" False] by (auto simp: event_ends_def)
qed

text \<open>A connection without owners that the server has not missed is closed.\<close>

lemma unowned_closed:
  assumes inv: "linv {} {} w" and p: "p < length (objs (tsrv w))" "p \<notin> gone w" and free: "\<not> owned p w" "p \<notin> missed w"
  shows "cstatus (tconn w p) = kDisconnected"
    and "if p \<in> busy w then deleteTcpConnection (tconn w p) = Fail AssertFail else \<exists>net. deleteTcpConnection (tconn w p) = Ok net"
proof -
  have "\<not> est w p" "ctasks (tconn w p) = []" "\<not> kept {} w p"
    using free by (auto simp: owned_def kept_def bound_def image_iff)
  then have "cstatus (tconn w p) = kDisconnected \<and> sock_ok False (p \<in> busy w) (tconn w p)"
    using linvD(3) [OF inv p] by (auto simp: conn_state_def split: conn_status.splits)
  then show "cstatus (tconn w p) = kDisconnected"
    and "if p \<in> busy w then deleteTcpConnection (tconn w p) = Fail AssertFail else \<exists>net. deleteTcpConnection (tconn w p) = Ok net"
    using destructor_ok by blast+
qed

lemma destroy_linv:
  assumes inv: "linv {} {} w" and p: "p < length (objs (tsrv w))" "p \<notin> gone w" and free: "\<not> owned p w"
    and run: "destroy p w = Ok w'"
  shows "linv {} {} w'"
proof -
  obtain net where w': "w' = w\<lparr>tconn := (tconn w)(p := (tconn w p)\<lparr>cnet := net\<rparr>), gone := insert p (gone w)\<rparr>"
    using run by (auto simp: destroy_def)
  have "RemoveTask p \<notin> set (stasks (tsrv w))" "\<And>k. (k, p) \<notin> set (conns (tsrv w))"
    using free by (auto simp: owned_def image_iff)
  then show ?thesis unfolding w' using inv p by (auto simp: linv_def kept_def)
qed

section \<open>The server\<close>

text \<open>What an operation of the server does to the table, the connections and what they are told.\<close>

lemma tcps_do_cases:
  assumes inv: "srv_inv s" and run: "tcps_do listen x s = Ok s'" and x: "\<And>p. x \<noteq> TClosed p"
  obtains (other) "\<not> stops_now x s" "\<And>key now. x \<noteq> TAccept key now" "conns s' = conns s" "objs s' = objs s" "ptasks s' = ptasks s"
      "\<And>q. RemoveTask q \<in> set (stasks s') \<longleftrightarrow> RemoveTask q \<in> set (stasks s)"
  | (accept) key now where "x = TAccept key now" "conns s' = AList.update key (length (objs s)) (conns s)"
      "ptasks s' = ptasks s @ [(length (objs s), Establish)]" "stasks s' = stasks s" "length (objs s') = Suc (length (objs s))"
      "\<And>q. q < length (objs s) \<Longrightarrow> objs s' ! q = objs s ! q" "pindex (objs s' ! length (objs s)) = key"
      "phook (objs s' ! length (objs s))"
  | (stop) "stops_now x s" "conns s' = []"
      "ptasks s' = ptasks s @ map (\<lambda>e. (snd e, CloseCmd)) (conns s)" "length (objs s') = length (objs s)"
      "\<And>q. pindex (objs s' ! q) = pindex (objs s ! q)"
      "\<And>q. RemoveTask q \<in> set (stasks s') \<longleftrightarrow> RemoveTask q \<in> set (stasks s)"
  | (remove) p where "\<not> stops_now x s" "\<And>key now. x \<noteq> TAccept key now" "RemoveTask p \<in> set (stasks s)" "conns s' = AList.delete (pindex (objs s ! p)) (conns s)"
      "ptasks s' = ptasks s" "length (objs s') = length (objs s)" "\<And>q. pindex (objs s' ! q) = pindex (objs s ! q)"
      "\<And>q. q \<noteq> p \<Longrightarrow> phook (objs s' ! q) = phook (objs s ! q)" "stasks s = RemoveTask p # stasks s'"
proof -
  have stopped: thesis if t: "tcp_stopInLoop r = Ok s'" and r: "objs r = objs s" "conns r = conns s" "ptasks r = ptasks s"
      "\<And>q. RemoveTask q \<in> set (stasks r) \<longleftrightarrow> RemoveTask q \<in> set (stasks s)"
    and x: "stops_now x s" for r
  proof -
    obtain a where a: "s' = closed_down unbindDefaultCallbacks (r\<lparr>acc := a\<rparr>)" using stop_D(1) [OF t] by blast
    have "srv_inv (r\<lparr>acc := a\<rparr>)" using inv r unfolding srv_inv_def by auto
    note tcp_hooks.closeAll_result [OF this]
    then show thesis by (intro stop) (use x r in \<open>simp_all add: a closed_down_def cluster_stop_def\<close>)
  qed
  have started: thesis if t: "tcp_startInLoop listen k r = Ok s'" and r: "objs r = objs s" "conns r = conns s" "ptasks r = ptasks s"
      "\<And>q. RemoveTask q \<in> set (stasks r) \<longleftrightarrow> RemoveTask q \<in> set (stasks s)"
      and x: "\<not> stops_now x s" "\<And>key now. x \<noteq> TAccept key now" for r k
  proof -
    obtain a where "s' = (cluster_start k r)\<lparr>acc := a\<rparr>" using t unfolding tcp_startInLoop_def by blast
    then show thesis by (intro other) (simp_all add: cluster_start_def r x)
  qed
  show thesis
  proof (cases x)
    case (TStart il k)
    show thesis
    proof (cases "\<not> srunning s \<and> il")
      case True
      then show thesis using started [of k "s\<lparr>srunning := True\<rparr>"] run TStart by (simp add: tcp_start_def Let_def stops_now_def)
    next
      case False
      then show thesis by (intro other) (use run TStart in \<open>auto simp: tcp_start_def Let_def stops_now_def split: if_splits\<close>)
    qed
  next
    case (TStop il)
    show thesis
    proof (cases il)
      case True
      then show thesis using stopped [of "s\<lparr>srunning := False\<rparr>"] run TStop by (simp add: tcp_stop_def Let_def stops_now_def)
    next
      case False
      then show thesis by (intro other) (use run TStop in \<open>auto simp: tcp_stop_def Let_def stops_now_def\<close>)
    qed
  next
    case (TAccept key now)
    then have "tcp_newConnection key now s = Ok s'" using run by simp
    then obtain p s1 where a: "addConnection key 0 now s = Ok (p, s1)" "s' = notifyConnectionEstablished bindDefaultCallbacks p s1"
      by (rule tcp_newConnection_D)
    note c = tcp_hooks.addConnection_inv [OF inv a(1)]
    show thesis by (rule accept [OF TAccept]) (use c a(2) in simp_all)
  next
    case (TClosed p)
    then show thesis using x by simp
  next
    case TNext
    then have run': "tcp_run_next listen s = Ok s'" using run by simp
    show thesis
    proof (cases "stasks s")
      case Nil
      then show thesis by (intro other) (use run' TNext in \<open>simp_all add: stops_now_def\<close>)
    next
      case (Cons t ts)
      show thesis
      proof (cases t)
        case (StartTask k)
        then show thesis using started [of k "s\<lparr>stasks := ts\<rparr>"] run' Cons TNext by (simp add: stops_now_def)
      next
        case StopTask
        then show thesis using stopped [of "s\<lparr>stasks := ts\<rparr>"] run' Cons TNext by (simp add: stops_now_def)
      next
        case (RemoveTask p)
        let ?s = "s\<lparr>stasks := ts\<rparr>"
        have s': "s' = removeConnection unbindDefaultCallbacks p ?s"
          using run' Cons RemoveTask by (simp add: in_base_def in_acceptor_loop_def split: if_splits)
        obtain f where "s' = (on_peer p f ?s)\<lparr>conns := AList.delete (pindex (objs ?s ! p)) (conns ?s)\<rparr>"
          "\<And>c. pindex (f c) = pindex c" using tcp_hooks.removeConnection_eq [of p ?s] unfolding s' by metis
        then show thesis by (intro remove [of p]) (use Cons RemoveTask TNext in \<open>simp_all add: on_peer_nth stops_now_def\<close>)
      qed
    qed
  qed
qed

lemma set_AList_update_iff:
  assumes "distinct (map fst al)"
  shows "(k', v') \<in> set (AList.update k v al) \<longleftrightarrow> (if k' = k then v' = v else (k', v') \<in> set al)"
proof -
  have "map_of (AList.update k v al) k' = Some v' \<longleftrightarrow> (if k' = k then v' = v else map_of al k' = Some v')"
    by (auto simp: AList.update_conv)
  then show ?thesis using assms AList.distinct_update [OF assms] by (simp add: map_of_eq_Some_iff)
qed

lemma bound_cong: "objs s' ! p = objs s ! p \<Longrightarrow> (pindex (objs s ! p), p) \<in> set (conns s') \<longleftrightarrow> (pindex (objs s ! p), p) \<in> set (conns s)
    \<Longrightarrow> bound s' p = bound s p"
  by (simp add: bound_def)

text \<open>
  The connections the server has dropped close, one after the other, except those that wait to be
  established and those that were shut down, which are missed.
\<close>

lemma close_all_linv:
  assumes "linv {} P w" and "P \<subseteq> set ps \<union> missed w" and "distinct ps"
    and "\<And>p. p \<in> set ps \<Longrightarrow> p < length (objs (tsrv w)) \<and> p \<notin> gone w \<and> (est w p \<or> shut_down (tconn w p) \<longrightarrow> p \<in> missed w)"
  shows "\<exists>w'. tcp_hand_all now connfd (map (\<lambda>p. (p, CloseCmd)) ps) w = Ok w' \<and> linv {} {} w'
    \<and> est w' = est w \<and> gone w' = gone w \<and> busy w' = busy w \<and> missed w' = missed w
    \<and> objs (tsrv w') = objs (tsrv w) \<and> conns (tsrv w') = conns (tsrv w)
    \<and> (\<forall>q. shut_down (tconn w q) \<longrightarrow> shut_down (tconn w' q) \<and> ctasks (tconn w' q) = ctasks (tconn w q))"
  using assms
proof (induction ps arbitrary: P w)
  case Nil
  then have "linv {} {} w" using linv_mono by simp
  then show ?case by simp
next
  case (Cons p ps)
  note inv = Cons.prems(1)
  have p: "p < length (objs (tsrv w))" "p \<notin> gone w" "est w p \<or> shut_down (tconn w p) \<longrightarrow> p \<in> missed w"
    using Cons.prems(4) [of p] by simp_all
  have st: "conn_state (kept P w p) (est w p) (p \<in> busy w) (tconn w p)" using linvD(3) [OF inv p(1,2)] by simp
  have step: "\<exists>w1. with_conn p f w = Ok w1 \<and> linv {} (P - {p}) w1 \<and> same_world p w w1"
    if f: "f = close_conn quiet \<or> f = elsewhere (close_conn quiet)" for f
  proof (cases "est w p")
    case True
    then have "f (hooks_of (objs (tsrv w) ! p) (tconn w p)) = Ok (hooks_of (objs (tsrv w) ! p) (tconn w p))"
      using waiting(1) [OF inv p(1,2)] f by (intro close_idle [where sh = "SysOk ()"]) auto
    then obtain w1 where w1: "with_conn p f w = Ok w1" "linv {} P w1" "same_world p w w1" using idle_linv [OF inv] by blast
    have "P \<subseteq> (P - {p}) \<union> missed w1" using True p(3) w1(3) by (auto simp: same_world_def)
    then show ?thesis using w1 linv_mono [OF w1(2)] by blast
  next
    case False
    have "leaves (kept (P - {p}) w p) (p \<in> busy w) f (hooks_of (objs (tsrv w) ! p) (tconn w p))"
      using leaves_close_conn [of "kept P w p" "p \<in> busy w" "tconn w p" "kept (P - {p}) w p"] st f False p(3)
      by (auto simp: kept_def)
    from method_linv [OF inv p(1,2) False _ this] show ?thesis by blast
  qed
  define g where "g = (if peer_loop (objs (tsrv w) ! p) = None then close_conn quiet else elsewhere (close_conn quiet))"
  then have "g = close_conn quiet \<or> g = elsewhere (close_conn quiet)" by simp
  moreover have "tcp_hand_over now connfd (p, CloseCmd) w = with_conn p g w" by (simp add: g_def)
  ultimately obtain w1 where w1: "tcp_hand_over now connfd (p, CloseCmd) w = Ok w1" "linv {} (P - {p}) w1" "same_world p w w1"
    using step by metis
  note same = w1(3) [unfolded same_world_def]
  have shut: "shut_down (tconn w1 q) \<and> ctasks (tconn w1 q) = ctasks (tconn w q)" if "shut_down (tconn w q)" for q
  proof (cases "q = p")
    case True
    then have "g (hooks_of (objs (tsrv w) ! p) (tconn w p)) = Ok (hooks_of (objs (tsrv w) ! p) (tconn w p))"
      using that by (intro close_idle [where sh = "SysOk ()"]) (auto simp: shut_down_def g_def)
    then have "tconn w1 p = hooks_of (objs (tsrv w) ! p) (tconn w p)"
      using w1(1) by (auto simp: g_def with_conn_def Let_def split: if_splits)
    then show ?thesis using that True by (simp add: shut_down_def)
  qed (use that same in simp)
  have "P - {p} \<subseteq> set ps \<union> missed w1" using Cons.prems(2) same by auto
  moreover have "distinct ps" "p \<notin> set ps" using Cons.prems(3) by simp_all
  moreover have "q < length (objs (tsrv w1)) \<and> q \<notin> gone w1 \<and> (est w1 q \<or> shut_down (tconn w1 q) \<longrightarrow> q \<in> missed w1)"
    if "q \<in> set ps" for q
  proof -
    have "q \<noteq> p" using that \<open>p \<notin> set ps\<close> by blast
    then show ?thesis using Cons.prems(4) [of q] that same by simp
  qed
  ultimately obtain w' where "tcp_hand_all now connfd (map (\<lambda>p. (p, CloseCmd)) ps) w1 = Ok w'" "linv {} {} w'"
    "est w' = est w1" "gone w' = gone w1" "busy w' = busy w1" "missed w' = missed w1"
    "objs (tsrv w') = objs (tsrv w1)" "conns (tsrv w') = conns (tsrv w1)"
    "\<forall>q. shut_down (tconn w1 q) \<longrightarrow> shut_down (tconn w' q) \<and> ctasks (tconn w' q) = ctasks (tconn w1 q)"
    using Cons.IH [of "P - {p}" w1] w1(2) by blast
  then show ?case using w1(1) same shut by (simp del: tcp_hand_over.simps)
qed

lemma set_misses:
  "set (misses (TAccept key now) w) = (if \<exists>q < length (objs (tsrv w)). q \<notin> gone w \<and> pindex (objs (tsrv w) ! q) = key
     then insert (length (objs (tsrv w))) {q. q < length (objs (tsrv w)) \<and> q \<notin> gone w \<and> pindex (objs (tsrv w) ! q) = key} else {})"
  "stops_now x (tsrv w) \<Longrightarrow> set (misses x w) = {p. p < length (objs (tsrv w)) \<and> p \<notin> gone w \<and> (est w p \<or> shut_down (tconn w p))}"
  "\<not> stops_now x (tsrv w) \<Longrightarrow> (\<And>key now. x \<noteq> TAccept key now) \<Longrightarrow> misses x w = []"
  by (auto simp: misses_def same_address_def filter_empty_conv stops_now_def split: tcps_op.splits)

lemma accept_linv:
  assumes inv: "linv {} {} w" and s': "srv_inv s'"
    and step: "conns s' = AList.update key p (conns (tsrv w))" "stasks s' = stasks (tsrv w)"
      "length (objs s') = Suc p" "\<And>q. q < p \<Longrightarrow> objs s' ! q = objs (tsrv w) ! q"
      "pindex (objs s' ! p) = key" "phook (objs s' ! p)"
    and p: "p = length (objs (tsrv w))"
  shows "\<exists>w'. tcp_hand_all t connfd [(p, Establish)] (w\<lparr>tsrv := s', missed := missed w \<union> set (misses (TAccept key now) w)\<rparr>) = Ok w'
    \<and> linv {} {} w'"
proof -
  let ?s = "tsrv w" and ?M = "missed w \<union> set (misses (TAccept key now) w)"
  obtain c where c: "createConnection (loop_no (peer_loop (objs s' ! p))) t connfd = Ok c" "sock_ok False False c"
    "cstatus c = kConnecting" "ctasks c = []" by (rule createConnection_ok)
  let ?w = "w\<lparr>tsrv := s', missed := ?M, tconn := (tconn w)(p := c), est := (est w)(p := True)\<rparr>"
  note entries = set_AList_update_iff [OF srv_invD(1) [OF linvD(1) [OF inv]]]
  have p_new: "p \<notin> gone w" "p \<notin> busy w" using linvD(2) [OF inv] by (auto simp: p)
  have shared: "q \<in> ?M" "p \<in> ?M" if "q < p" "q \<notin> gone w" "pindex (objs ?s ! q) = key" for q
    using that p by (auto simp: set_misses(1))
  have new: "bound s' p" by (simp add: bound_def step(1,5,6) entries)
  have old: "kept {} ?w q" if "kept {} w q" "q < p" "q \<notin> gone w" for q
  proof (cases "pindex (objs ?s ! q) = key")
    case True
    then show ?thesis using shared [OF that(2,3)] by (simp add: kept_def)
  next
    case False
    then have "bound s' q = bound ?s q" by (intro bound_cong) (simp_all add: step(1,4) entries that)
    then show ?thesis using that(1) by (auto simp: kept_def)
  qed
  have "linv {} {} ?w"
  proof (rule linvI)
    show "srv_inv (tsrv ?w)" using s' by simp
    show "gone ?w \<union> busy ?w \<subseteq> {..<length (objs (tsrv ?w))}" using linvD(2) [OF inv] step(3) p by auto
    show "conn_state (kept {} ?w q) (est ?w q) (q \<in> busy ?w) (tconn ?w q)"
      if q: "q < length (objs (tsrv ?w))" "q \<notin> gone ?w" for q
    proof (cases "q = p")
      case True
      then show ?thesis using c(2-4) new p_new(2) by (simp add: conn_state_def kept_def)
    next
      case False
      then have "q < p" "q \<notin> gone w" using q step(3) by simp_all
      then have "conn_state (kept {} ?w q) (est w q) (q \<in> busy w) (tconn w q)"
        using conn_state_mono [OF linvD(3) [OF inv, of q] old [of q]] p by simp
      then show ?thesis using False by simp
    qed
    show "q = r" if q: "q < length (objs (tsrv ?w))" "r < length (objs (tsrv ?w))" "q \<notin> gone ?w" "r \<notin> gone ?w" "q \<notin> missed ?w"
      "pindex (objs (tsrv ?w) ! q) = pindex (objs (tsrv ?w) ! r)" for q r
    proof -
      have "q < p \<or> q = p" "r < p \<or> r = p" using q(1,2) step(3) by auto
      then show ?thesis using q(3-6) shared [of q] shared [of r] linvD(4) [OF inv, of q r] step(4,5) p by auto
    qed
    show "q \<notin> gone ?w \<and> cstatus (tconn ?w q) = kDisconnected" if "RemoveTask q \<in> set (stasks (tsrv ?w))" for q
      using that linvD(5,6) [OF inv, of q] srv_invD(3) [OF linvD(1) [OF inv], of q] step(2) p by auto
    show "q \<notin> gone ?w" if "(k, q) \<in> set (conns (tsrv ?w))" for k q
      using that linvD(7) [OF inv, of k q] p_new by (auto simp: step(1) entries split: if_splits)
    show "q < length (objs (tsrv ?w))" if "est ?w q" for q
      using that linvD(8) [OF inv, of q] step(3) p by (auto split: if_splits)
    show "RemoveTask q \<in> set (stasks (tsrv ?w))" if "(k, q) \<in> set (conns (tsrv ?w))" "cstatus (tconn ?w q) = kDisconnected" for k q
      using that linvD(9) [OF inv, of k q] c(3) step(2) by (auto simp: step(1) entries split: if_splits)
  qed
  then show ?thesis using c(1) by simp
qed

lemma remove_linv:
  assumes inv: "linv {} {} w" and s': "srv_inv s'"
    and step: "RemoveTask p \<in> set (stasks (tsrv w))" "conns s' = AList.delete (pindex (objs (tsrv w) ! p)) (conns (tsrv w))"
      "length (objs s') = length (objs (tsrv w))" "\<And>q. pindex (objs s' ! q) = pindex (objs (tsrv w) ! q)"
      "\<And>q. q \<noteq> p \<Longrightarrow> phook (objs s' ! q) = phook (objs (tsrv w) ! q)" "stasks (tsrv w) = RemoveTask p # stasks s'"
  shows "linv {} {} (w\<lparr>tsrv := s'\<rparr>)"
proof -
  let ?s = "tsrv w" and ?w = "w\<lparr>tsrv := s'\<rparr>"
  have p: "p < length (objs ?s)" "p \<notin> gone w" "cstatus (tconn w p) = kDisconnected"
    using srv_invD(3) [OF linvD(1) [OF inv] step(1)] linvD(5,6) [OF inv step(1)] by simp_all
  have other: "pindex (objs ?s ! q) \<noteq> pindex (objs ?s ! p)" if "q < length (objs ?s)" "q \<notin> gone w" "q \<noteq> p" "q \<notin> missed w" for q
    using linvD(4) [OF inv that(1) p(1) that(2) p(2) that(4)] that(3) by blast
  have old: "kept {} ?w q = kept {} w q" if "q < length (objs ?s)" "q \<notin> gone w" "q \<noteq> p" for q
    using other [OF that] step(5) [OF that(3)] by (auto simp: kept_def bound_def step(2,4) set_AList_delete)
  show ?thesis
  proof (rule linvI)
    show "srv_inv (tsrv ?w)" using s' by simp
    show "gone ?w \<union> busy ?w \<subseteq> {..<length (objs (tsrv ?w))}" using linvD(2) [OF inv] step(3) by simp
    show "conn_state (kept {} ?w q) (est ?w q) (q \<in> busy ?w) (tconn ?w q)"
      if "q < length (objs (tsrv ?w))" "q \<notin> gone ?w" for q
      using linvD(3) [OF inv, of q] that old [of q] p(3) step(3) by (cases "q = p") (auto intro: conn_state_closed)
    show "q = r" if "q < length (objs (tsrv ?w))" "r < length (objs (tsrv ?w))" "q \<notin> gone ?w" "r \<notin> gone ?w" "q \<notin> missed ?w"
      "pindex (objs (tsrv ?w) ! q) = pindex (objs (tsrv ?w) ! r)" for q r
      by (rule linvD(4) [OF inv]) (use that step(3,4) in simp_all)
    show "q \<notin> gone ?w \<and> cstatus (tconn ?w q) = kDisconnected" if "RemoveTask q \<in> set (stasks (tsrv ?w))" for q
      using that linvD(5,6) [OF inv, of q] step(6) by simp
    show "q \<notin> gone ?w" if "(k, q) \<in> set (conns (tsrv ?w))" for k q
      using that linvD(7) [OF inv, of k q] by (simp add: step(2) set_AList_delete)
    show "q < length (objs (tsrv ?w))" if "est ?w q" for q
      using that linvD(8) [OF inv, of q] step(3) by simp
    show "RemoveTask q \<in> set (stasks (tsrv ?w))" if q: "(k, q) \<in> set (conns (tsrv ?w))" "cstatus (tconn ?w q) = kDisconnected" for k q
    proof -
      have k: "k \<noteq> pindex (objs ?s ! p)" "(k, q) \<in> set (conns ?s)" using q(1) by (simp_all add: step(2) set_AList_delete)
      then have "q \<noteq> p" using srv_invD(2) [OF linvD(1) [OF inv]] by blast
      then show ?thesis using linvD(9) [OF inv k(2)] q(2) step(6) by simp
    qed
  qed
qed

text \<open>A stop: every connection of the table is dropped.\<close>

lemma table_distinct:
  assumes "srv_inv s"
  shows "distinct (map snd (conns s))"
proof -
  have "map fst (conns s) = map (\<lambda>p. pindex (objs s ! p)) (map snd (conns s))"
    using srv_invD(2) [OF assms] by (auto simp: comp_def)
  then show ?thesis using srv_invD(1) [OF assms] by (metis distinct_map)
qed

lemma stop_linv:
  assumes inv: "linv {} {} w" and s': "srv_inv s'"
    and step: "conns s' = []" "length (objs s') = length (objs (tsrv w))" "\<And>q. pindex (objs s' ! q) = pindex (objs (tsrv w) ! q)"
      "\<And>q. RemoveTask q \<in> set (stasks s') \<longleftrightarrow> RemoveTask q \<in> set (stasks (tsrv w))"
    and M: "missed w \<subseteq> M" "\<And>p. p < length (objs (tsrv w)) \<Longrightarrow> p \<notin> gone w \<Longrightarrow> est w p \<or> shut_down (tconn w p) \<Longrightarrow> p \<in> M"
  shows "\<exists>w'. tcp_hand_all t connfd (map (\<lambda>e. (snd e, CloseCmd)) (conns (tsrv w))) (w\<lparr>tsrv := s', missed := M\<rparr>) = Ok w'
    \<and> linv {} {} w' \<and> est w' = est w \<and> gone w' = gone w \<and> missed w' = M \<and> objs (tsrv w') = objs s' \<and> conns (tsrv w') = []
    \<and> (\<forall>q. shut_down (tconn w q) \<longrightarrow> shut_down (tconn w' q) \<and> ctasks (tconn w' q) = ctasks (tconn w q))"
proof -
  let ?P = "snd ` set (conns (tsrv w))" and ?w = "w\<lparr>tsrv := s', missed := M\<rparr>"
  have "linv {} ?P ?w"
  proof (rule linvI)
    show "conn_state (kept ?P ?w q) (est ?w q) (q \<in> busy ?w) (tconn ?w q)"
      if "q < length (objs (tsrv ?w))" "q \<notin> gone ?w" for q
    proof -
      have "conn_state (kept {} w q) (est w q) (q \<in> busy w) (tconn w q)" using linvD(3) [OF inv, of q] that step(2) by simp
      then have "conn_state (kept ?P ?w q) (est w q) (q \<in> busy w) (tconn w q)"
        by (rule conn_state_mono) (use M(1) in \<open>force simp: bound_def kept_def\<close>)
      then show ?thesis by simp
    qed
    show "q = r" if "q < length (objs (tsrv ?w))" "r < length (objs (tsrv ?w))" "q \<notin> gone ?w" "r \<notin> gone ?w" "q \<notin> missed ?w"
      "pindex (objs (tsrv ?w) ! q) = pindex (objs (tsrv ?w) ! r)" for q r
      by (rule linvD(4) [OF inv]) (use that step(2,3) M(1) in auto)
  qed (use s' linvD(2,5,6,8) [OF inv] step in auto)
  moreover have "?P \<subseteq> set (map snd (conns (tsrv w))) \<union> missed ?w" by auto
  moreover have "q < length (objs (tsrv ?w)) \<and> q \<notin> gone ?w \<and> (est ?w q \<or> shut_down (tconn ?w q) \<longrightarrow> q \<in> missed ?w)"
    if "q \<in> set (map snd (conns (tsrv w)))" for q
  proof -
    have "q < length (objs (tsrv w))" "q \<notin> gone w"
      using that linvD(7) [OF inv, of _ q] srv_invD(2) [OF linvD(1) [OF inv], of _ q] by auto
    then show ?thesis using M(2) [of q] step(2) by simp
  qed
  ultimately show ?thesis
    using close_all_linv [of ?P ?w "map snd (conns (tsrv w))" t connfd] table_distinct [OF linvD(1) [OF inv]] step(1)
    by (auto simp: comp_def)
qed

lemma srv_step_linv:
  assumes inv: "linv {} {} w" and x: "\<And>p. x \<noteq> TClosed p" and run: "tcps_do listen x (tsrv w) = Ok s'"
  shows "\<exists>w'. tcp_srv_step listen connfd x w = Ok w' \<and> linv {} {} w'
    \<and> (stops_now x (tsrv w) \<longrightarrow> est w' = est w \<and> gone w' = gone w \<and> missed w' = missed w \<union> set (misses x w)
        \<and> length (objs (tsrv w')) = length (objs (tsrv w)) \<and> conns (tsrv w') = []
        \<and> (\<forall>q. shut_down (tconn w q) \<longrightarrow> shut_down (tconn w' q) \<and> ctasks (tconn w' q) = ctasks (tconn w q)))"
proof -
  have s': "srv_inv s'" by (rule tcps_do_inv [OF linvD(1) [OF inv] run])
  show ?thesis using linvD(1) [OF inv] run x
  proof (cases rule: tcps_do_cases)
    case other
    have "linv {} {} (w\<lparr>tsrv := s'\<rparr>)" using inv s' other by (simp add: linv_def kept_def bound_def)
    then show ?thesis using run other(1,5) set_misses(3) [OF other(1,2)] by (simp add: tcp_srv_step_def)
  next
    case (accept key now)
    from accept_linv [OF inv s' accept(2,4-8) refl, of 0 connfd now]
    show ?thesis using run accept(1,3) by (simp add: tcp_srv_step_def stops_now_def)
  next
    case stop
    from stop_linv [OF inv s' stop(2,4-6), of "missed w \<union> set (misses x w)" 0 connfd] set_misses(2) [OF stop(1)]
    show ?thesis using run stop(3,4) by (auto simp: tcp_srv_step_def)
  next
    case (remove p)
    then show ?thesis using run remove_linv [OF inv s' remove(3,4,6-9)] set_misses(3) [OF remove(1,2)] by (simp add: tcp_srv_step_def)
  qed
qed

lemma lives_linv: "lives listen w \<Longrightarrow> linv {} {} w"
proof (induction rule: lives.induct)
  case (server w x connfd w')
  then obtain s' where "tcps_do listen x (tsrv w) = Ok s'" by (auto simp: tcp_srv_step_def)
  from srv_step_linv [OF server(4,2) this, of connfd] server(3) show ?case by auto
next
  case (task w p sh w')
  from run_functor_linv [OF task(6,2,3)] run_functor_answer [OF task(5)] show ?case by auto
next
  case (hangup w p w')
  from hang_up_linv [OF hangup(6,2,3,4)] hangup(5) show ?case by auto
next
  case (closing w p il w')
  from user_close_linv(1) [OF closing(5,2,3), of il] closing(4) show ?case by auto
next
  case (shutting w p il sh w')
  from user_close_linv(2) [OF shutting(5,2,3), of il] shutdown_answer [OF shutting(4)] show ?case by auto
next
  case (begins w p w')
  then have "\<not> est w p"
    using leaves_hang_up(2) [OF linvD(3) [OF begins(7,2,3)]] by (auto simp: reported_def)
  from event_linv(1) [OF begins(7,2,3) this] begins(6) show ?case by auto
next
  case (ends w p w')
  then have "\<not> est w p" using waiting(2) [OF ends(6,2,3)] by blast
  from event_linv(2) [OF ends(6,2,3) this] ends(5) show ?case by auto
qed (auto intro: linv_new destroy_linv)

section \<open>Properties\<close>


lemma with_conn_run:
  "with_conn p f w = Ok w' \<Longrightarrow> \<exists>c. f (hooks_of (objs (tsrv w) ! p) (tconn w p)) = Ok c \<and> tconn w' p = c \<and> est w' = est w
     \<and> gone w' = gone w \<and> conns (tsrv w') = conns (tsrv w)"
  by (auto simp: with_conn_def Let_def closed_funpow)

text \<open>What a stop leaves, whether it runs at once or as a functor of the server's loop.\<close>

lemma stop_results:
  assumes live: "lives listen w" and x: "stops_now x (tsrv w)" and run: "tcp_srv_step listen connfd x w = Ok w1"
  shows "linv {} {} w1" and "est w1 = est w" and "gone w1 = gone w" and "conns (tsrv w1) = []"
    and "length (objs (tsrv w1)) = length (objs (tsrv w))" and "missed w1 = missed w \<union> set (misses x w)"
    and "shut_down (tconn w q) \<Longrightarrow> shut_down (tconn w1 q) \<and> ctasks (tconn w1 q) = ctasks (tconn w q)"
proof -
  obtain s' where s': "tcps_do listen x (tsrv w) = Ok s'" using run by (auto simp: tcp_srv_step_def)
  have no: "x \<noteq> TClosed p" for p using x by (auto simp: stops_now_def)
  note r = srv_step_linv [OF lives_linv [OF live] no s', of connfd]
  show "linv {} {} w1" and "est w1 = est w" and "gone w1 = gone w" and "conns (tsrv w1) = []"
    and "length (objs (tsrv w1)) = length (objs (tsrv w))" and "missed w1 = missed w \<union> set (misses x w)"
    and "shut_down (tconn w q) \<Longrightarrow> shut_down (tconn w1 q) \<and> ctasks (tconn w1 q) = ctasks (tconn w q)"
    using r x run by auto
qed

text \<open>
  C29. A stop, at once in the server's thread or later as its functor, in any reachable state: the table is empty
  afterwards, and every connection that is left is closed once its loop has run its next functor, except
  those the server has missed: the ones that wait to be established or were shut down at this or an earlier stop, and
  those that shared their address with another connection. The next functor runs without a failed
  assertion if \<open>::shutdown\<close> succeeds.
\<close>

theorem tcp_stop_closes_connections:
  assumes "lives listen w" and "stops_now x (tsrv w)" and "tcp_srv_step listen connfd x w = Ok w1"
    and "p < length (objs (tsrv w1))" and "p \<notin> gone w1"
    and "p \<notin> missed w" and "\<not> est w p" and "\<not> shut_down (tconn w p)"
  shows "conns (tsrv w1) = [] \<and> (\<exists>w2. run_functor (SysOk ()) p w1 = Ok w2 \<and> cstatus (tconn w2 p) = kDisconnected)"
proof -
  note r = stop_results [OF assms(1-3)]
  have e: "\<not> est w1 p" using r(2) assms(7) by simp
  have "p \<notin> missed w1" using assms(6-8) unfolding r(6) set_misses(2) [OF assms(2)] by blast
  then have "\<not> kept {} w1 p" using r(4) by (simp add: kept_def bound_def)
  then have st: "conn_state False False (p \<in> busy w1) (tconn w1 p)"
    using linvD(3) [OF r(1) assms(4,5)] e by simp
  obtain w2 where w2: "run_functor (SysOk ()) p w1 = Ok w2" using run_functor_linv [OF r(1) assms(4,5)] by blast
  have "cstatus (tconn w2 p) = kDisconnected"
  proof (cases "ctasks (tconn w1 p)")
    case Nil
    then show ?thesis using w2 e st by (auto simp: run_functor_def conn_state_def split: conn_status.splits)
  next
    case (Cons t ts)
    let ?c = "hooks_of (objs (tsrv w1) ! p) (tconn w1 p)"
    have sane: "leaves False (p \<in> busy w1) (\<lambda>c. run_task quiet (\<lambda>_. SysErr 0) (SysOk ()) t (c\<lparr>ctasks := ts\<rparr>)) ?c"
      by (rule leaves_task [OF st Cons])
    have run: "with_conn p (\<lambda>c. run_task quiet (\<lambda>_. SysErr 0) (SysOk ()) t (c\<lparr>ctasks := ts\<rparr>)) w1 = Ok w2"
      using w2 e Cons by (simp add: run_functor_def)
    have "cstatus (tconn w2 p) = kDisconnected" if "cstatus (tconn w1 p) = kDisconnected"
      using sane that with_conn_run [OF run] by (auto simp: leaves_def)
    moreover have "cstatus (tconn w2 p) = kDisconnected" if "cstatus (tconn w1 p) \<noteq> kDisconnected"
    proof -
      have t: "t = TaskClose" "\<exists>att. sock_ok att (p \<in> busy w1) (tconn w1 p)"
        using st Cons that by (auto simp: conn_state_def split: conn_status.splits)
      then obtain att where att: "sock_ok att (p \<in> busy w1) (?c\<lparr>ctasks := ts\<rparr>)" by auto
      obtain c where "closeInLoop quiet (?c\<lparr>ctasks := ts\<rparr>) = Ok c" "cstatus c = kDisconnected" by (rule close_ok [OF att])
      then show ?thesis using with_conn_run [OF run] t(1) by auto
    qed
    ultimately show ?thesis by blast
  qed
  then show ?thesis using w2 r(4) by blast
qed

text \<open>
  C38. A server that is stopped while a connection waits to be established loses it: \<open>close\<close> does nothing to it,
  the functor that waits establishes it, nothing owns it afterwards, and the assertion of its destructor fails.
\<close>

theorem stop_strands_waiting_connection:
  assumes "lives listen w" and "est w p" and "p \<notin> gone w" and "tcp_srv_step listen connfd (TStop True) w = Ok w1"
  shows "\<exists>w2. run_functor sh p w1 = Ok w2 \<and> cstatus (tconn w2 p) = kConnected \<and> \<not> owned p w2 \<and> destroy p w2 = Fail AssertFail"
proof -
  have x: "stops_now (TStop True) (tsrv w)" by (simp add: stops_now_def)
  note r = stop_results [OF assms(1) x assms(4)]
  have p: "p < length (objs (tsrv w1))" "p \<notin> gone w1" "est w1 p"
    using linvD(8) [OF lives_linv [OF assms(1)] assms(2)] r(2,3,5) assms(2,3) by simp_all
  have c: "cstatus (tconn w1 p) = kConnecting" "sock_ok False False (tconn w1 p)" "ctasks (tconn w1 p) = []"
    using linvD(3) [OF r(1) p(1,2)] p(3) by (auto simp: conn_state_def split: conn_status.splits)
  have no: "RemoveTask p \<notin> set (stasks (tsrv w1))" using linvD(6) [OF r(1), of p] c(1) by auto
  let ?w = "w1\<lparr>est := (est w1)(p := False)\<rparr>"
  have "sock_ok False False (hooks_of (objs (tsrv w1) ! p) (tconn w1 p))" using c(2) by simp
  then obtain c' where c': "onConnectEstablished quiet (hooks_of (objs (tsrv w1) ! p) (tconn w1 p)) = Ok c'"
    "cstatus c' = kConnected" "ctasks c' = []" "count_list (ctrace c') CloseConn = count_list (ctrace (tconn w1 p)) CloseConn"
    by (rule establish_ok) (use c(3) in simp)
  let ?w2 = "?w\<lparr>tconn := (tconn w1)(p := c')\<rparr>"
  have "run_functor sh p w1 = Ok ?w2" using p(3) c'(1,4) by (simp add: run_functor_def with_conn_def Let_def)
  then show ?thesis using c'(2,3) r(4) no
    by (intro exI [of _ ?w2]) (simp add: owned_def destroy_def deleteTcpConnection_def)
qed

text \<open>The same happens at once to a connection that the client has shut down.\<close>

theorem stop_strands_shut_down_connection:
  assumes "lives listen w" and "p < length (objs (tsrv w))" and "p \<notin> gone w" and "shut_down (tconn w p)"
    and "ctasks (tconn w p) = []" and "tcp_srv_step listen connfd (TStop True) w = Ok w1"
  shows "\<not> owned p w1 \<and> destroy p w1 = Fail AssertFail"
proof -
  have x: "stops_now (TStop True) (tsrv w)" by (simp add: stops_now_def)
  note r = stop_results [OF assms(1) x assms(6)]
  have s: "cstatus (tconn w1 p) = kDisconnecting" "ctasks (tconn w1 p) = []"
    using r(7) [OF assms(4)] assms(5) by (simp_all add: shut_down_def)
  have "\<not> est w1 p" using waiting(1) [OF r(1), of p] assms(2,3) s(1) r(3,5) by simp
  moreover have "RemoveTask p \<notin> set (stasks (tsrv w1))" using linvD(6) [OF r(1), of p] s(1) by auto
  ultimately show ?thesis using s r(4) by (simp add: owned_def destroy_def deleteTcpConnection_def)
qed

section \<open>Witnesses\<close>

lemma accepted:
  fixes a :: acceptor
  assumes loop: "loop_tid (anet a) (aloop a) = here (anet a)"
  obtains w where "lives listen w" and "est w 0" and "gone w = {}" and "busy w = {}" and "missed w = {}" and "conns (tsrv w) = [(''a'', 0)]"
    and "length (objs (tsrv w)) = 1" and "stasks (tsrv w) = []" and "acc (tsrv w) = a" and "phook (objs (tsrv w) ! 0)"
    and "ctasks (tconn w 0) = []" and "sock_ok False False (tconn w 0)" and "peer_loop (objs (tsrv w) ! 0) = None"
proof -
  let ?start = "new_tcp_world a"
  have "\<exists>s. tcps_do listen (TAccept ''a'' 0) (newServer a) = Ok s \<and> conns s = [(''a'', 0)] \<and> length (objs s) = 1 \<and> stasks s = []
      \<and> acc s = a \<and> phook (objs s ! 0) \<and> ptasks s = [(0, Establish)] \<and> peer_loop (objs s ! 0) = None"
    using loop by (simp add: server_ops in_base_def in_acceptor_loop_def)
  then obtain s where s: "tcps_do listen (TAccept ''a'' 0) (newServer a) = Ok s" "conns s = [(''a'', 0)]" "length (objs s) = 1"
    "stasks s = []" "acc s = a" "phook (objs s ! 0)" "ptasks s = [(0, Establish)]" "peer_loop (objs s ! 0) = None" by blast
  obtain c where c: "createConnection (loop_no (peer_loop (objs s ! 0))) 0 7 = Ok c" "sock_ok False False c" "ctasks c = []"
    by (rule createConnection_ok)
  let ?w = "?start\<lparr>tsrv := s, tconn := (tconn ?start)(0 := c), est := (est ?start)(0 := True)\<rparr>"
  have w0: "tsrv ?start = newServer a" "gone ?start = {}" "busy ?start = {}" "missed ?start = {}" "ptasks (newServer a) = []"
    "objs (newServer a) = []" "misses (TAccept ''a'' 0) ?start = []"
    by (simp_all add: new_tcp_world_def newServer_def misses_def same_address_def)
  have run: "tcp_srv_step listen 7 (TAccept ''a'' 0) ?start = Ok ?w"
    using s(1,7) c(1) w0 by (simp add: tcp_srv_step_def del: tcps_do.simps)
  have "lives listen ?w" by (rule lives.server [OF lives.new _ run]) simp
  then show ?thesis by (rule that) (use s c w0 in simp_all)
qed

lemma established:
  fixes a :: acceptor
  assumes loop: "loop_tid (anet a) (aloop a) = here (anet a)"
  obtains w where "lives listen w" and "\<not> est w 0" and "gone w = {}" and "busy w = {}" and "missed w = {}" and "conns (tsrv w) = [(''a'', 0)]"
    and "length (objs (tsrv w)) = 1" and "stasks (tsrv w) = []" and "acc (tsrv w) = a" and "phook (objs (tsrv w) ! 0)"
    and "ctasks (tconn w 0) = []" and "sock_ok True False (tconn w 0)" and "cstatus (tconn w 0) = kConnected"
proof -
  obtain w where w: "lives listen w" "est w 0" "gone w = {}" "busy w = {}" "missed w = {}" "conns (tsrv w) = [(''a'', 0)]" "length (objs (tsrv w)) = 1"
    "stasks (tsrv w) = []" "acc (tsrv w) = a" "phook (objs (tsrv w) ! 0)" "ctasks (tconn w 0) = []" "sock_ok False False (tconn w 0)"
    using accepted [OF loop] by metis
  let ?c0 = "hooks_of (objs (tsrv w) ! 0) (tconn w 0)"
  obtain c where c: "onConnectEstablished quiet ?c0 = Ok c" "sock_ok True False c" "cstatus c = kConnected" "ctasks c = []"
    "count_list (ctrace c) CloseConn = count_list (ctrace (tconn w 0)) CloseConn"
    by (rule establish_ok [of False ?c0]) (use w(11,12) in simp_all)
  let ?w = "w\<lparr>est := (est w)(0 := False), tconn := (tconn w)(0 := c)\<rparr>"
  have run: "run_functor (SysOk ()) 0 w = Ok ?w" using w(2) c(1,5) by (simp add: run_functor_def with_conn_def Let_def)
  have "lives listen ?w" by (rule lives.task [OF w(1) _ _ _ run]) (simp_all add: w(3,4,7))
  then show ?thesis by (rule that) (use w c in simp_all)
qed

lemma abandoned:
  fixes a :: acceptor
  assumes loop: "loop_tid (anet a) (aloop a) = here (anet a)"
  obtains w where "lives listen w" and "gone w = {}" and "busy w = {}" and "missed w = {}" and "length (objs (tsrv w)) = 1"
    and "\<not> owned 0 w"
proof -
  obtain w where w: "lives listen w" "\<not> est w 0" "gone w = {}" "busy w = {}" "missed w = {}" "conns (tsrv w) = [(''a'', 0)]"
    "length (objs (tsrv w)) = 1" "stasks (tsrv w) = []" "acc (tsrv w) = a" "phook (objs (tsrv w) ! 0)"
    "ctasks (tconn w 0) = []" "sock_ok True False (tconn w 0)" "cstatus (tconn w 0) = kConnected"
    using established [OF loop] by metis
  let ?c0 = "hooks_of (objs (tsrv w) ! 0) (tconn w 0)"
  have at: "sock_ok True False ?c0" using w(12) by simp
  obtain c where c: "closeInLoop quiet ?c0 = Ok c" "ctasks c = []"
    "count_list (ctrace c) CloseConn = Suc (count_list (ctrace (tconn w 0)) CloseConn)"
    by (rule close_ok [OF at]) (use w(10,11) in simp)
  have rep: "reported 0 w" using w(12) by (auto simp: reported_def sock_ok_def)
  let ?s = "(tsrv w)\<lparr>stasks := [RemoveTask 0]\<rparr>"
  let ?w = "w\<lparr>tconn := (tconn w)(0 := c), tsrv := ?s\<rparr>"
  have "handleClose quiet ?c0 = closeInLoop quiet ?c0"
    using at w(13) by (auto simp: handleClose_def in_loop_def sock_ok_def hooks_of_def)
  then have "hang_up 0 w = Ok ?w" using c(1,3) w(8,10) by (simp add: hang_up_def with_conn_def Let_def onClosedInConnection_def)
  then have live: "lives listen ?w" by (rule lives.hangup [OF w(1) _ _ rep, rotated 2]) (simp_all add: w(3,7))
  let ?s' = "removeConnection unbindDefaultCallbacks 0 ((tsrv w)\<lparr>stasks := []\<rparr>)"
  have "pindex (objs (tsrv w) ! 0) = ''a''" using srv_invD(2) [OF linvD(1) [OF lives_linv [OF w(1)]], of "''a''" 0] w(6) by simp
  then have s': "conns ?s' = []" "stasks ?s' = []" "ptasks ?s' = ptasks (tsrv w)" "length (objs ?s') = 1"
    using w(6,7) by (simp_all add: removeConnection_def unbindDefaultCallbacks_def on_peer_nth)
  have "tcps_do listen TNext ?s = Ok ?s'" using w(9) loop by (simp add: in_base_def in_acceptor_loop_def)
  moreover have "misses TNext ?w = []" by (simp add: misses_def stops_now_def)
  ultimately have run: "tcp_srv_step listen 0 TNext ?w = Ok (?w\<lparr>tsrv := ?s'\<rparr>)" using s'(3) by (simp add: tcp_srv_step_def)
  have "lives listen (?w\<lparr>tsrv := ?s'\<rparr>)" by (rule lives.server [OF live _ run]) simp
  then show ?thesis by (rule that) (use s' w(2-5) c(2) in \<open>simp_all add: owned_def\<close>)
qed


lemma stop_possible:
  assumes "listens q (acc s)"
  shows "\<exists>s'. tcps_do listen (TStop True) s = Ok s'"
proof -
  have "listens q ((acc s)\<lparr>acallback := False\<rparr>)" using assms by (simp add: listens_def)
  then obtain a where "acceptor_stopInLoop ((acc s)\<lparr>acallback := False\<rparr>) = Ok a" by (rule stop_ok)
  then show ?thesis by (simp add: tcp_stop_def tcp_stopInLoop_def Let_def)
qed

lemma tcp_stop_closes_connections_witness:
  "\<exists>w w1 w2. lives Ok w \<and> cstatus (tconn w 0) = kConnected \<and> tcp_srv_step Ok 0 (TStop True) w = Ok w1 \<and> conns (tsrv w1) = []
    \<and> run_functor (SysOk ()) 0 w1 = Ok w2 \<and> cstatus (tconn w2 0) = kDisconnected"
proof -
  obtain a where a: "listens 2 a" using demo_listening by blast
  then have "loop_tid (anet a) (aloop a) = here (anet a)" by (simp add: listens_def)
  then obtain w where w: "lives Ok w" "\<not> est w 0" "gone w = {}" "missed w = {}" "length (objs (tsrv w)) = 1" "acc (tsrv w) = a"
    "cstatus (tconn w 0) = kConnected" using established by metis
  have x: "stops_now (TStop True) (tsrv w)" by (simp add: stops_now_def)
  obtain s' where "tcps_do Ok (TStop True) (tsrv w) = Ok s'" using stop_possible [of 2 "tsrv w" Ok] a w(6) by auto
  then obtain w1 where w1: "tcp_srv_step Ok 0 (TStop True) w = Ok w1" using srv_step_linv [OF lives_linv [OF w(1)]] by blast
  have "0 < length (objs (tsrv w1))" "0 \<notin> gone w1" "0 \<notin> missed w" "\<not> shut_down (tconn w 0)"
    using w(3-5,7) stop_results(3,5) [OF w(1) x w1] by (simp_all add: shut_down_def)
  from tcp_stop_closes_connections [OF w(1) x w1 this(1-3) w(2) this(4)] show ?thesis using w(1,7) w1(1) by blast
qed

lemma stop_strands_waiting_connection_witness:
  "\<exists>w w1 w2. lives Ok w \<and> tcp_srv_step Ok 0 (TStop True) w = Ok w1 \<and> run_functor (SysOk ()) 0 w1 = Ok w2 \<and> \<not> owned 0 w2
    \<and> destroy 0 w2 = Fail AssertFail"
proof -
  obtain a where a: "listens 2 a" using demo_listening by blast
  then have "loop_tid (anet a) (aloop a) = here (anet a)" by (simp add: listens_def)
  then obtain w where w: "lives Ok w" "est w 0" "gone w = {}" "acc (tsrv w) = a" using accepted by metis
  obtain s' where "tcps_do Ok (TStop True) (tsrv w) = Ok s'" using stop_possible [of 2 "tsrv w" Ok] a w(4) by auto
  then obtain w1 where w1: "tcp_srv_step Ok 0 (TStop True) w = Ok w1" using srv_step_linv [OF lives_linv [OF w(1)]] by blast
  have "0 \<notin> gone w" using w(3) by simp
  from stop_strands_waiting_connection [OF w(1,2) this w1] show ?thesis using w(1) w1 by blast
qed

lemma stop_strands_shut_down_connection_witness:
  "\<exists>w w1. lives Ok w \<and> tcp_srv_step Ok 0 (TStop True) w = Ok w1 \<and> \<not> owned 0 w1 \<and> destroy 0 w1 = Fail AssertFail"
proof -
  obtain a where a: "listens 2 a" using demo_listening by blast
  then have "loop_tid (anet a) (aloop a) = here (anet a)" by (simp add: listens_def)
  then obtain w where w: "lives Ok w" "gone w = {}" "length (objs (tsrv w)) = 1" "acc (tsrv w) = a"
    "ctasks (tconn w 0) = []" "sock_ok True False (tconn w 0)" "cstatus (tconn w 0) = kConnected" using established by metis
  let ?d = "changeStatus kDisconnecting (hooks_of (objs (tsrv w) ! 0) (tconn w 0))"
  have "sock_ok True False ?d" using w(6) by (simp add: sock_ok_def changeStatus_def hooks_of_def)
  from shutdown_ok [OF this] obtain c where c: "shutdownInLoop (SysOk ()) ?d = Ok c" "cstatus c = kDisconnecting" "ctasks c = []"
    "ctrace c = ctrace (tconn w 0)" using w(5) by (auto simp: changeStatus_def)
  have loop: "in_loop_thread ?d" using \<open>sock_ok True False ?d\<close> by (simp add: sock_ok_def in_loop_thread_def)
  let ?w = "w\<lparr>tconn := (tconn w)(0 := c)\<rparr>"
  have "user_shutdown True (SysOk ()) 0 w = Ok ?w"
    using w(7) c(1,4) loop by (simp add: user_shutdown_def with_conn_def shutdown_conn_def Let_def)
  then have live: "lives Ok ?w" by (rule lives.shutting [OF w(1), rotated 2]) (simp_all add: w(2,3))
  have sd: "shut_down (tconn ?w 0)" "ctasks (tconn ?w 0) = []" "0 < length (objs (tsrv ?w))" "0 \<notin> gone ?w"
    using c(2,3) w(2,3) by (simp_all add: shut_down_def)
  obtain s' where "tcps_do Ok (TStop True) (tsrv ?w) = Ok s'" using stop_possible [of 2 "tsrv ?w" Ok] a w(4) by auto
  then obtain w1 where w1: "tcp_srv_step Ok 0 (TStop True) ?w = Ok w1" using srv_step_linv [OF lives_linv [OF live]] by blast
  from stop_strands_shut_down_connection [OF live sd(3,4,1,2) w1] show ?thesis using live w1 by blast
qed

end
