(* ===== verification/UdpExchange.thy ===== *)
theory UdpExchange
  imports Servers UdpConnection
begin

text \<open>
  A UDP server at work: the acceptor that reads datagrams (\<open>net/udp/UdpAcceptor.cpp\<close>), the server's table
  (\<open>net/udp/UdpServer.cpp\<close>) and the connections of its peers (\<open>net/udp/UdpConnection.cpp\<close>) in their loops,
  composed from the models of theories \<open>Sockets\<close>, \<open>Servers\<close> and \<open>UdpConnection\<close>. The clients' message
  callback takes what it wants out of the connection's buffer.
\<close>

section \<open>Reading a datagram\<close>

text \<open>
  \<open>handleReadInLoop\<close> of the acceptor with \<open>recvMessageInLoop\<close> of the server as its callback. \<open>key\<close> is the
  text of the peer's address, the one of the zero address when \<open>recvfrom\<close> failed.
\<close>

definition udp_read :: "int \<Rightarrow> (nat \<Rightarrow> byte list sys) \<Rightarrow> string \<Rightarrow> int \<Rightarrow> server \<Rightarrow> server res" where
  "udp_read fd recvfrom key now s = in_acceptor_loop (acc s)
     (if asocket (acc s) = None then Fail NullDeref
      else bindR (readFrom recvfrom (abuffer (acc s))) (\<lambda>(n, b).
           bindR (if acallback (acc s) then
                    bindR (retrieveAllAsString b) (\<lambda>(copied, b1).
                    bindR (udp_recvMessage fd key now copied s) (\<lambda>s1. Ok (b1, s1)))
                  else Ok (b, s)) (\<lambda>(b1, s1).
             Ok (s1\<lparr>acc := (acc s1)\<lparr>abuffer := retrieveAll b1\<rparr>\<rparr>))))"

text \<open>
  The acceptor as observer of its descriptor: the other events are accepted in the loop's thread and
  have no effect, an error is read from the socket and logged.
\<close>

fun udp_acceptor_event :: "hook \<Rightarrow> int \<Rightarrow> (nat \<Rightarrow> byte list sys) \<Rightarrow> string \<Rightarrow> int \<Rightarrow> server \<Rightarrow> server res" where
  "udp_acceptor_event OnRead fd recvfrom key now s = udp_read fd recvfrom key now s"
| "udp_acceptor_event OnWrite fd recvfrom key now s = in_acceptor_loop (acc s) (Ok s)"
| "udp_acceptor_event OnClose fd recvfrom key now s = in_acceptor_loop (acc s) (Ok s)"
| "udp_acceptor_event OnError fd recvfrom key now s = in_acceptor_loop (acc s)
     (if asocket (acc s) = None then Fail NullDeref else Ok s)"

text \<open>What the callback is given.\<close>

definition datagram :: "(nat \<Rightarrow> byte list sys) \<Rightarrow> byte list" where
  "datagram recvfrom = (case recvfrom 65536 of SysErr e \<Rightarrow> [] | SysOk data \<Rightarrow> data)"

definition reader_ready :: "acceptor \<Rightarrow> bool" where
  "reader_ready a \<longleftrightarrow> buf_inv (abuffer a) \<and> readerIndex (abuffer a) = 0 \<and> writerIndex (abuffer a) = 0"

lemma reader_ready_retrieveAll: "buf_inv b \<Longrightarrow> reader_ready (a\<lparr>abuffer := retrieveAll b\<rparr>)"
  by (simp add: reader_ready_def) (simp add: retrieveAll_def kCheapPrepend_def)

lemma readFrom_datagram:
  assumes inv: "buf_inv b" and room: "writerIndex b + 65536 \<le> max_size" and len: "length (datagram recvfrom) \<le> 65536"
  obtains n b' where "readFrom recvfrom b = Ok (n, b')" and "buf_inv b'" and "content b' = content b @ datagram recvfrom"
proof (cases "recvfrom 65536")
  case (SysErr e)
  obtain c where "ensureWritableBytes 65536 b = Ok c" "buf_inv c" "content c = content b"
    using ensureWritableBytes_Ok [OF inv room] by metis
  with SysErr show ?thesis by (intro that [of "-1" c]) (simp_all add: readFrom_def datagram_def)
next
  case (SysOk data)
  with len have "length data \<le> 65536" by (simp add: datagram_def)
  from readFrom_delivers [of b recvfrom data, OF inv SysOk this room] SysOk show ?thesis
    using that by (auto simp: datagram_def)
qed

text \<open>Reading is what \<open>recvMessageInLoop\<close> makes of the datagram, and leaves the buffer empty.\<close>

lemma udp_read_eq:
  assumes ready: "reader_ready (acc s)" and len: "length (datagram recvfrom) \<le> 65536"
  obtains b where "buf_inv b" and "udp_read fd recvfrom key now s = in_acceptor_loop (acc s)
    (if asocket (acc s) = None then Fail NullDeref
     else bindR (if acallback (acc s) then udp_recvMessage fd key now (datagram recvfrom) s else Ok s) (\<lambda>s1.
       Ok (s1\<lparr>acc := (acc s1)\<lparr>abuffer := retrieveAll b\<rparr>\<rparr>)))"
proof -
  have b: "buf_inv (abuffer (acc s))" "writerIndex (abuffer (acc s)) + 65536 \<le> max_size" "content (abuffer (acc s)) = []"
    using ready by (simp_all add: reader_ready_def max_size_def content_def)
  obtain n b' where b': "readFrom recvfrom (abuffer (acc s)) = Ok (n, b')" "buf_inv b'" "content b' = datagram recvfrom"
    using readFrom_datagram [OF b(1,2) len] b(3) by (metis append_Nil)
  obtain b2 where b2: "retrieveAllAsString b' = Ok (datagram recvfrom, b2)" "buf_inv b2"
    using retrieveAsString_Ok [OF b'(2), of "length (content b')"] b' readable_content [OF b'(2)]
    by (metis order_refl retrieveAllAsString_def take_all)
  show ?thesis
  proof (rule that)
    show "buf_inv (if acallback (acc s) then b2 else b')" using b2(2) b'(2) by simp
    show "udp_read fd recvfrom key now s = in_acceptor_loop (acc s)
      (if asocket (acc s) = None then Fail NullDeref
       else bindR (if acallback (acc s) then udp_recvMessage fd key now (datagram recvfrom) s else Ok s) (\<lambda>s1.
         Ok (s1\<lparr>acc := (acc s1)\<lparr>abuffer := retrieveAll (if acallback (acc s) then b2 else b')\<rparr>\<rparr>)))"
      using b'(1) b2(1)
      by (cases "udp_recvMessage fd key now (datagram recvfrom) s") (simp_all add: udp_read_def in_acceptor_loop_def)
  qed
qed

lemma udp_read_Ok:
  assumes run: "udp_read fd recvfrom key now s = Ok s'" and ready: "reader_ready (acc s)"
    and len: "length (datagram recvfrom) \<le> 65536"
  obtains s1 b where "(if acallback (acc s) then udp_recvMessage fd key now (datagram recvfrom) s else Ok s) = Ok s1"
    and "s' = s1\<lparr>acc := (acc s1)\<lparr>abuffer := retrieveAll b\<rparr>\<rparr>" and "buf_inv b"
proof -
  obtain b where b: "buf_inv b" "udp_read fd recvfrom key now s = in_acceptor_loop (acc s)
    (if asocket (acc s) = None then Fail NullDeref
     else bindR (if acallback (acc s) then udp_recvMessage fd key now (datagram recvfrom) s else Ok s) (\<lambda>s1.
       Ok (s1\<lparr>acc := (acc s1)\<lparr>abuffer := retrieveAll b\<rparr>\<rparr>)))"
    by (rule udp_read_eq [OF ready len])
  then have "bindR (if acallback (acc s) then udp_recvMessage fd key now (datagram recvfrom) s else Ok s) (\<lambda>s1.
      Ok (s1\<lparr>acc := (acc s1)\<lparr>abuffer := retrieveAll b\<rparr>\<rparr>)) = Ok s'"
    using run by (simp add: in_acceptor_loop_def split: if_splits)
  then show ?thesis using that b(1) by blast
qed

section \<open>The server and its connections\<close>

text \<open>
  \<open>conn_of\<close> are the connection objects, \<open>work\<close> the functors queued in their loops, \<open>user_got\<close> what the
  message callback took from each. \<open>arrived\<close> is the history of the datagrams the server took, with the
  texts of their addresses.
\<close>

record udp_world =
  usrv :: server
  conn_of :: "nat \<Rightarrow> udpconn"
  work :: "nat \<Rightarrow> peer_task list"
  user_got :: "nat \<Rightarrow> byte list"
  arrived :: "(string \<times> byte list) list"

text \<open>
  The callbacks of a connection are those of the server's client; its close callback and the descriptor
  it sends with are the fields \<open>phook\<close> and \<open>pfd\<close> of theory \<open>Servers\<close>. Its functors run in its loop.
\<close>

definition seen_by :: "peer \<Rightarrow> udpconn \<Rightarrow> udpconn" where
  "seen_by q c = c\<lparr>uhere := utid c, senderFd := pfd q,
     uhooked := {ConnectChange, RecvMessage, WriteComplete} \<union> (if phook q then {CloseConn} else {})\<rparr>"

definition the_conn :: "nat \<Rightarrow> udp_world \<Rightarrow> udpconn" where
  "the_conn p w = seen_by (objs (usrv w) ! p) (conn_of w p)"

definition set_conn :: "nat \<Rightarrow> udpconn \<Rightarrow> udp_world \<Rightarrow> udp_world" where
  "set_conn p c w = w\<lparr>conn_of := (conn_of w)(p := c)\<rparr>"

text \<open>\<open>closeInLoop\<close> with the server's close callback.\<close>

definition close_peer :: "nat \<Rightarrow> udp_world \<Rightarrow> udp_world res" where
  "close_peer p w = bindR (udp_closeInLoop uquiet (the_conn p w)) (\<lambda>c.
     Ok ((set_conn p c w)\<lparr>usrv := onClosedInConnection p (usrv w)\<rparr>))"

text \<open>
  What a call of the server does to a connection: the new object and its first functor; \<open>close\<close>, which
  runs at once when the connection lives in the server's loop; a functor with a datagram.
\<close>

definition buffer0 :: buffer where
  "buffer0 = \<lparr>vec = replicate kInitialSize 0, readerIndex = 0, writerIndex = 0\<rparr>"

fun hand_over :: "int \<Rightarrow> nat \<times> peer_task \<Rightarrow> udp_world \<Rightarrow> udp_world res" where
  "hand_over now (p, Establish) w =
     (let c = newUdpConnection p p (pindex (objs (usrv w) ! p)) now False 0 buffer0
      in Ok ((set_conn p c w)\<lparr>work := (work w)(p := work w p @ [Establish])\<rparr>))"
| "hand_over now (p, CloseCmd) w =
     (let w1 = set_conn p ((conn_of w p)\<lparr>connecting := False\<rparr>) w
      in if peer_loop (objs (usrv w) ! p) = None then close_peer p w1
         else Ok (w1\<lparr>work := (work w)(p := work w p @ [CloseCmd])\<rparr>))"
| "hand_over now (p, Deliver data) w = Ok (w\<lparr>work := (work w)(p := work w p @ [Deliver data])\<rparr>)"

primrec hand_all :: "int \<Rightarrow> (nat \<times> peer_task) list \<Rightarrow> udp_world \<Rightarrow> udp_world res" where
  "hand_all now [] w = Ok w"
| "hand_all now (t # ts) w = bindR (hand_over now t w) (hand_all now ts)"

text \<open>An operation of the server, with the calls it makes.\<close>

definition srv_step :: "int \<Rightarrow> (server \<Rightarrow> server res) \<Rightarrow> udp_world \<Rightarrow> udp_world res" where
  "srv_step now f w = bindR (f (usrv w)) (\<lambda>s.
     hand_all now (drop (length (ptasks (usrv w))) (ptasks s)) (w\<lparr>usrv := s\<rparr>))"

text \<open>
  The loop of connection \<open>p\<close> runs its next functor. \<open>client\<close> is how much the message callback takes of
  what is in the buffer; it is the last thing \<open>handleReadInLoop\<close> calls.
\<close>

fun run_work :: "(nat \<Rightarrow> byte list \<Rightarrow> nat) \<Rightarrow> int \<Rightarrow> nat \<Rightarrow> peer_task \<Rightarrow> udp_world \<Rightarrow> udp_world res" where
  "run_work client now p Establish w =
     bindR (udp_established uquiet (the_conn p w)) (\<lambda>c. Ok (set_conn p c w))"
| "run_work client now p CloseCmd w = close_peer p w"
| "run_work client now p (Deliver data) w =
     bindR (udp_handleRead uquiet now data (the_conn p w)) (\<lambda>c.
     bindR (retrieveAsString (min (client p (content (uin c))) (length (content (uin c)))) (uin c)) (\<lambda>(x, b).
       Ok ((set_conn p (c\<lparr>uin := b\<rparr>) w)\<lparr>user_got := (user_got w)(p := user_got w p @ x),
             usrv := peer_active p now (usrv w)\<rparr>)))"

definition run_peer :: "(nat \<Rightarrow> byte list \<Rightarrow> nat) \<Rightarrow> int \<Rightarrow> nat \<Rightarrow> udp_world \<Rightarrow> udp_world res" where
  "run_peer client now p w = (case work w p of
     [] \<Rightarrow> Ok w
   | t # ts \<Rightarrow> run_work client now p t (w\<lparr>work := (work w)(p := ts)\<rparr>))"

datatype world_op = WStart bool nat nat | WStop bool | WExpire int | WLoop nat
  | WRead "nat \<Rightarrow> byte list sys" string int | WPeer int nat

text \<open>\<open>listen\<close> is how the acceptor starts to listen, \<open>fd\<close> the descriptor of its socket.\<close>

fun world_do ::
  "(acceptor \<Rightarrow> acceptor res) \<Rightarrow> int \<Rightarrow> (nat \<Rightarrow> byte list \<Rightarrow> nat) \<Rightarrow> world_op \<Rightarrow> udp_world \<Rightarrow> udp_world res" where
  "world_do listen fd client (WStart il timer k) w = srv_step 0 (udp_start il listen timer k) w"
| "world_do listen fd client (WStop il) w = srv_step 0 (udp_stop il) w"
| "world_do listen fd client (WExpire now) w = srv_step now (\<lambda>s. Ok (udp_checkExpired now s)) w"
| "world_do listen fd client (WLoop timer) w = srv_step 0 (udps_run_next listen timer) w"
| "world_do listen fd client (WRead recvfrom key now) w =
     srv_step now (udp_acceptor_event OnRead fd recvfrom key now)
       (if acallback (acc (usrv w)) then w\<lparr>arrived := arrived w @ [(key, datagram recvfrom)]\<rparr> else w)"
| "world_do listen fd client (WPeer now p) w = run_peer client now p w"

primrec world_run ::
  "(acceptor \<Rightarrow> acceptor res) \<Rightarrow> int \<Rightarrow> (nat \<Rightarrow> byte list \<Rightarrow> nat) \<Rightarrow> world_op list \<Rightarrow> udp_world \<Rightarrow> udp_world res" where
  "world_run listen fd client [] w = Ok w"
| "world_run listen fd client (x # xs) w = bindR (world_do listen fd client x w) (world_run listen fd client xs)"

definition new_world :: "acceptor \<Rightarrow> udp_world" where
  "new_world a = \<lparr>usrv = newServer a, conn_of = (\<lambda>p. newUdpConnection p p [] 0 False 0 buffer0), work = (\<lambda>p. []),
     user_got = (\<lambda>p. []), arrived = []\<rparr>"

section \<open>What goes where\<close>

fun task_bytes :: "peer_task \<Rightarrow> byte list" where
  "task_bytes (Deliver data) = data"
| "task_bytes Establish = []"
| "task_bytes CloseCmd = []"

definition bytes :: "peer_task list \<Rightarrow> byte list" where
  "bytes ts = concat (map task_bytes ts)"

lemma bytes_simps [simp]: "bytes [] = []" "bytes (t # ts) = task_bytes t @ bytes ts" "bytes (ts @ us) = bytes ts @ bytes us"
  by (simp_all add: bytes_def)

definition calls_to :: "nat \<Rightarrow> (nat \<times> peer_task) list \<Rightarrow> peer_task list" where
  "calls_to p ts = map snd (filter (\<lambda>e. fst e = p) ts)"

lemma calls_to_simps [simp]: "calls_to p [] = []" "calls_to p (ts @ us) = calls_to p ts @ calls_to p us"
  "calls_to p ((q, t) # ts) = (if q = p then t # calls_to p ts else calls_to p ts)"
  by (simp_all add: calls_to_def)

text \<open>What has come to connection \<open>p\<close> and where it is: taken by the client, in the buffer, in a functor.\<close>

definition reached :: "udp_world \<Rightarrow> nat \<Rightarrow> byte list" where
  "reached w p = user_got w p @ content (uin (conn_of w p)) @ bytes (work w p)"

definition room_taken :: "udp_world \<Rightarrow> nat \<Rightarrow> nat" where
  "room_taken w p = writerIndex (uin (conn_of w p)) + length (bytes (work w p))"

definition conns_ok :: "udp_world \<Rightarrow> bool" where
  "conns_ok w \<longleftrightarrow> (\<forall>p. buf_inv (uin (conn_of w p)) \<and> list_all (\<lambda>t. length (task_bytes t) \<le> max_size) (work w p))"

text \<open>Same server but for functors queued in its loop and for times.\<close>

definition same_server :: "server \<Rightarrow> server \<Rightarrow> bool" where
  "same_server s s' \<longleftrightarrow> acc s' = acc s \<and> ptasks s' = ptasks s \<and> length (objs s') = length (objs s)
     \<and> (\<forall>p. pindex (objs s' ! p) = pindex (objs s ! p))"

lemma same_server_refl [simp]: "same_server s s"
  by (simp add: same_server_def)

lemma same_server_trans: "same_server s s1 \<Longrightarrow> same_server s1 s2 \<Longrightarrow> same_server s s2"
  by (simp add: same_server_def)

lemma same_server_closed [simp]: "same_server s (onClosedInConnection p s)"
  by (simp add: same_server_def onClosedInConnection_def)

lemma same_server_active [simp]: "same_server s (peer_active p now s)"
  by (simp add: same_server_def peer_active_def on_peer_nth)

lemma set_conn_simps [simp]: "usrv (set_conn p c w) = usrv w" "work (set_conn p c w) = work w"
  "user_got (set_conn p c w) = user_got w" "arrived (set_conn p c w) = arrived w" "conn_of (set_conn p c w) = (conn_of w)(p := c)"
  by (simp_all add: set_conn_def)

lemma the_conn_uin [simp]: "uin (the_conn p w) = uin (conn_of w p)" "utid (the_conn p w) = uhere (the_conn p w)"
  by (simp_all add: the_conn_def seen_by_def)

text \<open>A step that leaves every connection's input alone, or moves it on.\<close>

definition moves :: "udp_world \<Rightarrow> udp_world \<Rightarrow> (nat \<times> peer_task) list \<Rightarrow> bool" where
  "moves w w' ts \<longleftrightarrow> (srv_inv (usrv w) \<longrightarrow> srv_inv (usrv w')) \<and> same_server (usrv w) (usrv w') \<and> arrived w' = arrived w
     \<and> (\<forall>p. reached w' p = reached w p @ bytes (calls_to p ts))
     \<and> (\<forall>p. room_taken w' p \<le> room_taken w p + length (bytes (calls_to p ts)))
     \<and> (\<forall>p. work w' p \<noteq> [] \<longrightarrow> work w p \<noteq> [] \<or> calls_to p ts \<noteq> [])
     \<and> (conns_ok w \<longrightarrow> conns_ok w')"

lemma close_peer_moves:
  assumes "p < length (objs (usrv w))"
  obtains w' where "close_peer p w = Ok w'" and "moves w w' []"
proof -
  let ?c = "the_conn p w"
  have "\<exists>c. udp_closeInLoop uquiet ?c = Ok c \<and> uin c = uin (conn_of w p)"
    by (simp add: udp_closeInLoop_def in_udp_loop_def udp_call_def)
  then obtain c where c: "udp_closeInLoop uquiet ?c = Ok c" "uin c = uin (conn_of w p)" by blast
  show ?thesis
  proof (rule that)
    show "close_peer p w = Ok ((set_conn p c w)\<lparr>usrv := onClosedInConnection p (usrv w)\<rparr>)"
      using c(1) by (simp add: close_peer_def)
    show "moves w ((set_conn p c w)\<lparr>usrv := onClosedInConnection p (usrv w)\<rparr>) []"
      using c(2) onClosed_inv [OF _ assms] by (simp add: moves_def reached_def room_taken_def conns_ok_def)
  qed
qed

lemma moves_trans:
  assumes "moves w w1 ts" and "moves w1 w2 us"
  shows "moves w w2 (ts @ us)"
proof -
  have "room_taken w2 p \<le> room_taken w p + length (bytes (calls_to p (ts @ us)))" for p
  proof -
    have "room_taken w2 p \<le> room_taken w1 p + length (bytes (calls_to p us))" using assms(2) by (simp add: moves_def)
    also have "room_taken w1 p \<le> room_taken w p + length (bytes (calls_to p ts))" using assms(1) by (simp add: moves_def)
    finally show ?thesis by simp
  qed
  then show ?thesis using assms same_server_trans by (auto simp: moves_def)
qed

lemma hand_over_moves:
  assumes run: "hand_over now (p, t) w = Ok w'" and p: "p < length (objs (usrv w))" and t: "length (task_bytes t) \<le> max_size"
    and new: "t = Establish \<Longrightarrow> reached w p = []"
  shows "moves w w' [(p, t)]"
proof (cases t)
  case Establish
  have "buf_inv buffer0" "content buffer0 = []" "writerIndex buffer0 = 0"
    by (simp_all add: buffer0_def buf_inv_def content_def kInitialSize_def max_size_def)
  then show ?thesis using run new Establish
    by (auto simp: moves_def reached_def room_taken_def conns_ok_def Let_def newUdpConnection_def)
next
  case (Deliver data)
  then show ?thesis using run t by (auto simp: moves_def reached_def room_taken_def conns_ok_def)
next
  case CloseCmd
  let ?w1 = "set_conn p ((conn_of w p)\<lparr>connecting := False\<rparr>) w"
  have "moves w ?w1 []" by (simp add: moves_def reached_def room_taken_def conns_ok_def)
  note tr = moves_trans [OF this, of _ "[]", simplified]
  show ?thesis
  proof (cases "peer_loop (objs (usrv w) ! p) = None")
    case True
    then have w': "close_peer p ?w1 = Ok w'" using run CloseCmd by simp
    obtain v where "close_peer p ?w1 = Ok v" "moves ?w1 v []" using close_peer_moves [of p ?w1] p by auto
    then have "moves w w' []" using w' tr by simp
    then show ?thesis using CloseCmd by (simp add: moves_def)
  next
    case False
    then show ?thesis using run CloseCmd by (auto simp: moves_def reached_def room_taken_def conns_ok_def)
  qed
qed

lemma moves_objs: "moves w w' ts \<Longrightarrow> length (objs (usrv w')) = length (objs (usrv w))"
  by (simp add: moves_def same_server_def)

lemma hand_all_moves:
  assumes "hand_all now ts w = Ok w'" and "list_all (\<lambda>(p, t). p < length (objs (usrv w)) \<and> length (task_bytes t) \<le> max_size) ts"
    and "Establish \<notin> snd ` set ts"
  shows "moves w w' ts"
  using assms
proof (induction ts arbitrary: w)
  case (Cons e ts)
  obtain p t where e: "e = (p, t)" by (cases e)
  obtain w1 where w1: "hand_over now (p, t) w = Ok w1" "hand_all now ts w1 = Ok w'" using Cons.prems(1) e by auto
  have m: "moves w w1 [(p, t)]" using hand_over_moves [OF w1(1)] Cons.prems e by auto
  have "moves w1 w' ts" by (rule Cons.IH [OF w1(2)]) (use Cons.prems moves_objs [OF m] in auto)
  from moves_trans [OF m this] show ?case using e by simp
qed (simp add: moves_def)

text \<open>The calls of an operation that may have made a connection.\<close>

lemma hand_new_moves:
  assumes run: "hand_all now ts w = Ok w'"
    and ok: "list_all (\<lambda>(p, t). p < length (objs (usrv w)) \<and> length (task_bytes t) \<le> max_size) ts"
    and new: "Establish \<in> snd ` set ts \<Longrightarrow> \<exists>p us. ts = (p, Establish) # us \<and> Establish \<notin> snd ` set us \<and> reached w p = []"
  shows "moves w w' ts"
proof (cases "Establish \<in> snd ` set ts")
  case True
  then obtain p us where us: "ts = (p, Establish) # us" "Establish \<notin> snd ` set us" "reached w p = []" using new by blast
  obtain w1 where w1: "hand_over now (p, Establish) w = Ok w1" "hand_all now us w1 = Ok w'" using run us(1) by auto
  have m: "moves w w1 [(p, Establish)]" by (rule hand_over_moves [OF w1(1)]) (use ok us in auto)
  have "moves w1 w' us" by (rule hand_all_moves [OF w1(2)]) (use ok us moves_objs [OF m] in auto)
  from moves_trans [OF m this] show ?thesis using us(1) by simp
next
  case False
  then show ?thesis by (rule hand_all_moves [OF run ok])
qed

lemma retrieveAsString_writerIndex: "retrieveAsString n b = Ok (x, b') \<Longrightarrow> writerIndex b' \<le> writerIndex b"
  by (auto simp: retrieveAsString_def assertR_eq_Ok dest: retrieve_writerIndex)

lemma deliver_moves:
  assumes ok: "conns_ok w" and wk: "work w p = Deliver data # ts"
  defines "w1 \<equiv> w\<lparr>work := (work w)(p := ts)\<rparr>"
  shows "(run_work client now p (Deliver data) w1 = Ok w' \<longrightarrow> moves w w' [])
    \<and> (room_taken w p \<le> max_size \<longrightarrow> (\<exists>w'. run_work client now p (Deliver data) w1 = Ok w'))"
proof -
  let ?b = "uin (conn_of w p)"
  have inv: "buf_inv ?b" and all: "list_all (\<lambda>t. length (task_bytes t) \<le> max_size) (work w p)"
    using ok by (simp_all add: conns_ok_def)
  have len: "length data \<le> max_size" and rest: "list_all (\<lambda>t. length (task_bytes t) \<le> max_size) ts"
    using all wk by simp_all
  from append_bytes_result [OF inv len] show ?thesis
  proof
    assume "max_size < writerIndex ?b + length data \<and> append_bytes data ?b = Fail LengthError"
    then show ?thesis using wk by (simp add: w1_def room_taken_def udp_handleRead_def in_udp_loop_def)
  next
    assume "\<exists>b'. append_bytes data ?b = Ok b' \<and> buf_inv b' \<and> content b' = content ?b @ data
       \<and> writerIndex b' \<le> writerIndex ?b + length data"
    then obtain b where b: "append_bytes data ?b = Ok b" "buf_inv b" "content b = content ?b @ data"
      "writerIndex b \<le> writerIndex ?b + length data" by blast
    let ?c = "(the_conn p w1)\<lparr>uin := b, uactived := now, utrace := utrace (the_conn p w1) @ [RecvMessage]\<rparr>"
    have rd: "udp_handleRead uquiet now data (the_conn p w1) = Ok ?c"
      using b(1) by (simp add: udp_handleRead_def in_udp_loop_def udp_call_def w1_def Let_def) (simp add: the_conn_def seen_by_def)
    let ?k = "min (client p (content b)) (length (content b))"
    obtain b2 where b2: "retrieveAsString ?k b = Ok (take ?k (content b), b2)" "buf_inv b2" "content b2 = drop ?k (content b)"
      using retrieveAsString_Ok [OF b(2), of ?k] by (metis min.cobounded2)
    have wi: "writerIndex b2 \<le> writerIndex b" by (rule retrieveAsString_writerIndex [OF b2(1)])
    let ?w = "(set_conn p (?c\<lparr>uin := b2\<rparr>) w1)\<lparr>user_got := (user_got w1)(p := user_got w1 p @ take ?k (content b)),
        usrv := peer_active p now (usrv w1)\<rparr>"
    have run: "run_work client now p (Deliver data) w1 = Ok ?w" using rd b2(1) by simp
    have whole: "take ?k (content b) @ content b2 = content ?b @ data" unfolding b2(3) append_take_drop_id by (rule b(3))
    have "reached ?w q = reached w q" for q
    proof (cases "q = p")
      case True
      have "reached ?w p = user_got w p @ (take ?k (content b) @ content b2) @ bytes ts" by (simp add: reached_def w1_def)
      also have "\<dots> = reached w p" unfolding whole using wk by (simp add: reached_def)
      finally show ?thesis using True by simp
    qed (simp add: reached_def w1_def)
    moreover have "room_taken ?w q \<le> room_taken w q" for q
      using wk wi b(4) by (cases "q = p") (simp_all add: room_taken_def w1_def)
    moreover have "conns_ok ?w" using ok b2(2) rest by (simp add: conns_ok_def w1_def)
    ultimately have "moves w ?w []" using peer_active_inv wk by (simp add: moves_def w1_def)
    with run show ?thesis by (metis Inr_inject)
  qed
qed

text \<open>A functor of a connection moves its bytes on; it always succeeds when the buffer can hold them.\<close>

lemma run_peer_moves:
  assumes ok: "conns_ok w" and p: "work w p \<noteq> [] \<Longrightarrow> p < length (objs (usrv w))"
  shows "run_peer client now p w = Ok w' \<Longrightarrow> moves w w' []"
    and "room_taken w p \<le> max_size \<Longrightarrow> \<exists>w'. run_peer client now p w = Ok w'"
proof -
  have inv: "buf_inv (uin (conn_of w p))" using ok by (simp add: conns_ok_def)
  have "(run_peer client now p w = Ok w' \<longrightarrow> moves w w' []) \<and> (room_taken w p \<le> max_size \<longrightarrow> (\<exists>w'. run_peer client now p w = Ok w'))"
  proof (cases "work w p")
    case Nil
    then show ?thesis by (auto simp: run_peer_def moves_def)
  next
    case (Cons t ts)
    let ?w1 = "w\<lparr>work := (work w)(p := ts)\<rparr>"
    have p': "p < length (objs (usrv w))" using p Cons by simp
    have "list_all (\<lambda>t. length (task_bytes t) \<le> max_size) (work w p)" using ok by (simp add: conns_ok_def)
    then have rest: "list_all (\<lambda>t. length (task_bytes t) \<le> max_size) ts" using Cons by simp
    then have w1: "moves w ?w1 []" if "task_bytes t = []"
      using Cons that by (auto simp: moves_def reached_def room_taken_def conns_ok_def)
    show ?thesis
    proof (cases t)
      case Establish
      have "moves w ?w1 []" using w1 Establish by simp
      moreover have "\<exists>c. udp_established uquiet (the_conn p ?w1) = Ok c \<and> uin c = uin (conn_of w p)"
        by (simp add: udp_established_def in_udp_loop_def udp_call_def)
      then obtain c where c: "udp_established uquiet (the_conn p ?w1) = Ok c" "uin c = uin (conn_of w p)" by blast
      moreover have "moves ?w1 (set_conn p c ?w1) []" using c(2) by (simp add: moves_def reached_def room_taken_def conns_ok_def)
      ultimately show ?thesis using Cons Establish moves_trans [of w ?w1 "[]" _ "[]"] by (auto simp: run_peer_def)
    next
      case CloseCmd
      have "moves w ?w1 []" using w1 CloseCmd by simp
      moreover obtain v where "close_peer p ?w1 = Ok v" "moves ?w1 v []" using close_peer_moves [of p ?w1] p' by auto
      ultimately show ?thesis using Cons CloseCmd moves_trans [of w ?w1 "[]" v "[]"] by (auto simp: run_peer_def)
    next
      case (Deliver data)
      then show ?thesis using deliver_moves [OF ok, of p data ts client now w'] Cons by (simp add: run_peer_def del: run_work.simps)
    qed
  qed
  then show "run_peer client now p w = Ok w' \<Longrightarrow> moves w w' []"
    and "room_taken w p \<le> max_size \<Longrightarrow> \<exists>w'. run_peer client now p w = Ok w'" by blast+
qed

section \<open>Every datagram on its way\<close>

definition world_inv :: "udp_world \<Rightarrow> bool" where
  "world_inv w \<longleftrightarrow> srv_inv (usrv w) \<and> reader_ready (acc (usrv w)) \<and> conns_ok w
     \<and> (\<forall>p. reached w p = bytes (calls_to p (ptasks (usrv w))))
     \<and> (\<forall>p. room_taken w p \<le> length (bytes (calls_to p (ptasks (usrv w)))))
     \<and> (\<forall>p. work w p \<noteq> [] \<longrightarrow> p < length (objs (usrv w)))
     \<and> (\<forall>k. datas (usrv w) k (ptasks (usrv w)) = map snd (filter (\<lambda>e. fst e = k) (arrived w)))"

lemma world_inv_new: "reader_ready a \<Longrightarrow> world_inv (new_world a)"
  by (simp add: world_inv_def new_world_def new_server_inv conns_ok_def reached_def room_taken_def newUdpConnection_def
      buffer0_def buf_inv_def content_def max_size_def kInitialSize_def) (simp add: newServer_def)

lemma calls_outside: "srv_inv s \<Longrightarrow> length (objs s) \<le> p \<Longrightarrow> calls_to p (ptasks s) = []"
  using srv_invD(4) [of s p] by (force simp: calls_to_def filter_empty_conv)

lemma Deliver_in_datas: "(p, Deliver d) \<in> set ts \<Longrightarrow> d \<in> set (datas s (pindex (objs s ! p)) ts)"
  by (force simp: datas_def)

lemma calls_to_in: "calls_to p ts \<noteq> [] \<Longrightarrow> \<exists>t. (p, t) \<in> set ts"
  by (force simp: calls_to_def filter_empty_conv)

text \<open>A step that does not touch the server.\<close>

lemma world_inv_moves:
  assumes inv: "world_inv w" and m: "moves w w' []"
  shows "world_inv w'"
proof -
  have ss: "acc (usrv w') = acc (usrv w)" "ptasks (usrv w') = ptasks (usrv w)"
    "length (objs (usrv w')) = length (objs (usrv w))" "\<And>p. pindex (objs (usrv w') ! p) = pindex (objs (usrv w) ! p)"
    "arrived w' = arrived w"
    using m by (simp_all add: moves_def same_server_def)
  have d: "datas (usrv w') k ts = datas (usrv w) k ts" for k ts by (rule datas_same) (rule ss(4))
  have r: "room_taken w' p \<le> room_taken w p" "reached w' p = reached w p" for p using m by (simp_all add: moves_def)
  have "room_taken w' p \<le> length (bytes (calls_to p (ptasks (usrv w))))" for p
    using r(1) [of p] inv by (meson le_trans world_inv_def)
  then show ?thesis using inv m by (auto simp: world_inv_def ss d r(2) moves_def)
qed

text \<open>A step of the server that makes the calls \<open>ts\<close>, and the connections' share of it.\<close>

lemma world_inv_server:
  assumes inv: "world_inv w" and s: "srv_inv s" "reader_ready (acc s)" and ext: "extends (usrv w) s ts"
    and d: "\<And>k. datas s k ts = map snd (filter (\<lambda>e. fst e = k) new)" and len: "\<forall>e \<in> set new. length (snd e) \<le> max_size"
    and run: "hand_all now ts (w\<lparr>arrived := arrived w @ new, usrv := s\<rparr>) = Ok w'"
  shows "world_inv w'"
proof -
  let ?w = "w\<lparr>arrived := arrived w @ new, usrv := s\<rparr>" and ?s = "usrv w"
  have pt: "ptasks s = ptasks ?s @ ts" using ext by (simp add: extends_def)
  have small: "length (task_bytes t) \<le> max_size" if "(p, t) \<in> set ts" for p t
  proof (cases t)
    case (Deliver data)
    then have "data \<in> set (datas s (pindex (objs s ! p)) ts)" using that Deliver_in_datas by blast
    then show ?thesis using d len Deliver by auto
  qed simp_all
  have old: "reached w p = []" if "length (objs ?s) \<le> p" for p
    using inv that calls_outside [of ?s p] by (auto simp: world_inv_def)
  have m: "moves ?w w' ts"
  proof (rule hand_new_moves [OF run])
    show "list_all (\<lambda>(p, t). p < length (objs (usrv ?w)) \<and> length (task_bytes t) \<le> max_size) ts"
      using ext small by (auto simp: extends_def list_all_iff)
    assume "Establish \<in> snd ` set ts"
    then obtain us where "ts = (length (objs ?s), Establish) # us" "Establish \<notin> snd ` set us"
      using ext by (auto simp: extends_def)
    then show "\<exists>p us. ts = (p, Establish) # us \<and> Establish \<notin> snd ` set us \<and> reached ?w p = []"
      using old by (auto simp: reached_def)
  qed
  have same: "datas s k (ptasks ?s) = datas ?s k (ptasks ?s)" for k
    by (rule datas_same) (use inv srv_invD(4) [of ?s] ext in \<open>auto simp: extends_def world_inv_def\<close>)
  have ss: "acc (usrv w') = acc s" "ptasks (usrv w') = ptasks s"
    "length (objs (usrv w')) = length (objs s)" "\<And>p. pindex (objs (usrv w') ! p) = pindex (objs s ! p)"
    "arrived w' = arrived w @ new" "srv_inv (usrv w')" "conns_ok w'"
    using m s inv by (simp_all add: moves_def same_server_def world_inv_def conns_ok_def)
  have ds: "datas (usrv w') k us = datas s k us" for k us by (rule datas_same) (rule ss(4))
  have r: "reached w' p = reached w p @ bytes (calls_to p ts)"
    "room_taken w' p \<le> room_taken w p + length (bytes (calls_to p ts))" for p
    using m by (simp_all add: moves_def reached_def room_taken_def)
  have "room_taken w' p \<le> length (bytes (calls_to p (ptasks s)))" for p
    using r(2) [of p] inv unfolding pt by (fastforce simp: world_inv_def intro: le_trans)
  moreover have "p < length (objs s)" if "work w' p \<noteq> []" for p
  proof -
    have "work w p \<noteq> [] \<or> calls_to p ts \<noteq> []" using m that by (simp add: moves_def)
    moreover have "length (objs ?s) \<le> length (objs s)" using ext by (auto simp: extends_def)
    ultimately show ?thesis using inv ext calls_to_in [of p ts] by (auto simp: extends_def world_inv_def dest: less_le_trans)
  qed
  ultimately show ?thesis using inv s ss r(1) ds same d by (simp add: world_inv_def pt)
qed

text \<open>The server's operations do not touch the acceptor's buffer.\<close>

definition keeps_buffer :: "(acceptor \<Rightarrow> acceptor res) \<Rightarrow> bool" where
  "keeps_buffer listen \<longleftrightarrow> (\<forall>a a'. listen a = Ok a' \<longrightarrow> abuffer a' = abuffer a)"

lemma udp_listen_keeps_buffer: "keeps_buffer (udp_listenInLoop q sock raw bnd)"
  by (auto simp: keeps_buffer_def udp_listenInLoop_def in_acceptor_loop_def split: if_splits)

lemma stop_keeps_buffer: "keeps_buffer acceptor_stopInLoop"
  by (auto simp: keeps_buffer_def acceptor_stopInLoop_def in_acceptor_loop_def Let_def split: if_splits option.splits)

lemma on_peer_acc [simp]: "acc (on_peer p f s) = acc s" "acc (tell p t s) = acc s" "acc (udp_unbind p s) = acc s"
  "acc (udp_bind fd p s) = acc s" "acc (removeConnection udp_unbind p s) = acc s"
  by (simp_all add: on_peer_def tell_def udp_unbind_def udp_bind_def bindDefaultCallbacks_def unbindDefaultCallbacks_def
      removeConnection_def Let_def)

lemma closeAll_acc: "acc (closeAll udp_unbind s) = acc s"
proof -
  have "acc (fold (\<lambda>(k, p). tell p CloseCmd \<circ> udp_unbind p) cs s) = acc s" for cs :: "(string \<times> nat) list"
    by (induction cs arbitrary: s) auto
  then show ?thesis by (simp add: closeAll_def)
qed

lemma startInLoop_buffer: "keeps_buffer listen \<Longrightarrow> udp_startInLoop listen timer k s = Ok s' \<Longrightarrow> abuffer (acc s') = abuffer (acc s)"
  by (auto simp: udp_startInLoop_def keeps_buffer_def cluster_start_def)

lemma stopInLoop_buffer: "udp_stopInLoop s = Ok s' \<Longrightarrow> abuffer (acc s') = abuffer (acc s)"
  using stop_keeps_buffer
  by (auto simp: udp_stopInLoop_def keeps_buffer_def cluster_stop_def closeAll_acc Let_def)

lemma recvMessage_acc: "udp_recvMessage fd key now data s = Ok s' \<Longrightarrow> acc s' = acc s"
  by (cases rule: udp_recvMessage_D, assumption) (auto simp: addConnection_def notifyConnectionEstablished_def Let_def)

lemma quiet_op_buffer:
  assumes listen: "keeps_buffer listen" and run: "udps_do listen fd x s = Ok s'" and x: "\<And>k now d. x \<noteq> URecv k now d"
  shows "abuffer (acc s') = abuffer (acc s)"
proof (cases x)
  case (UStart il timer k)
  with run startInLoop_buffer [OF listen] show ?thesis by (fastforce simp: udp_start_def Let_def split: if_splits)
next
  case (UStop il)
  with run stopInLoop_buffer show ?thesis by (fastforce simp: udp_stop_def Let_def split: if_splits)
next
  case (UExpire now)
  with run show ?thesis by (auto simp: checkExpired_eq)
next
  case (UActive p now)
  with run show ?thesis by (auto simp: peer_active_def split: if_splits)
next
  case (UClosed p)
  with run show ?thesis by (auto simp: onClosedInConnection_def split: if_splits)
next
  case (UNext timer)
  with run startInLoop_buffer [OF listen] stopInLoop_buffer show ?thesis
    by (fastforce split: list.splits srv_task.splits)
qed (use x in simp)

text \<open>Every operation keeps the invariant.\<close>

lemma quiet_op_inv:
  assumes inv: "world_inv w" and listen: "keeps_buffer listen" and x: "\<And>k now d. x \<noteq> URecv k now d"
    and run: "srv_step now (udps_do listen fd x) w = Ok w'"
  shows "world_inv w'"
proof -
  obtain s where s: "udps_do listen fd x (usrv w) = Ok s"
    "hand_all now (drop (length (ptasks (usrv w))) (ptasks s)) (w\<lparr>usrv := s\<rparr>) = Ok w'"
    using run by (auto simp: srv_step_def)
  have si: "srv_inv (usrv w)" using inv by (simp add: world_inv_def)
  have "recv_of k x = []" for k using x by (cases x) (auto simp: recv_of_def)
  then have "\<exists>ts. extends (usrv w) s ts \<and> datas s k ts = []" for k using udps_do_extends [OF si s(1), of k] by simp
  moreover have "ts = drop (length (ptasks (usrv w))) (ptasks s)" if "extends (usrv w) s ts" for ts
    using that by (simp add: extends_def)
  ultimately have ext: "extends (usrv w) s (drop (length (ptasks (usrv w))) (ptasks s))"
    "\<And>k. datas s k (drop (length (ptasks (usrv w))) (ptasks s)) = []" by metis+
  have "reader_ready (acc s)"
    using inv quiet_op_buffer [OF listen s(1) x] by (simp add: world_inv_def reader_ready_def)
  from world_inv_server [OF inv udps_do_inv [OF si s(1)] this ext(1), of "[]"] ext(2) s(2) show ?thesis by simp
qed

lemma udp_read_inv:
  assumes inv: "world_inv w" and len: "length (datagram recvfrom) \<le> 65536"
    and run: "world_do listen fd client (WRead recvfrom key now) w = Ok w'"
  shows "world_inv w'"
proof -
  let ?s = "usrv w" and ?new = "if acallback (acc (usrv w)) then [(key, datagram recvfrom)] else []"
  obtain s where s: "udp_read fd recvfrom key now ?s = Ok s"
    "hand_all now (drop (length (ptasks ?s)) (ptasks s)) (w\<lparr>arrived := arrived w @ ?new, usrv := s\<rparr>) = Ok w'"
    using run by (cases "acallback (acc ?s)") (auto simp: srv_step_def)
  have si: "srv_inv ?s" and ready: "reader_ready (acc ?s)" using inv by (simp_all add: world_inv_def)
  obtain s1 b where s1: "(if acallback (acc ?s) then udp_recvMessage fd key now (datagram recvfrom) ?s else Ok ?s) = Ok s1"
    "s = s1\<lparr>acc := (acc s1)\<lparr>abuffer := retrieveAll b\<rparr>\<rparr>" "buf_inv b"
    using udp_read_Ok [OF s(1) ready len] by blast
  have o: "objs s = objs s1" and same: "ptasks s = ptasks s1" "srv_inv s = srv_inv s1" "extends ?s s ts = extends ?s s1 ts" for ts
    by (simp_all add: s1(2) srv_inv_def extends_def)
  have d: "datas s k ts = datas s1 k ts" for k ts by (simp only: datas_def o)
  have ready': "reader_ready (acc s)" using reader_ready_retrieveAll [OF s1(3)] by (simp add: s1(2))
  have "srv_inv s1 \<and> (\<forall>k. \<exists>ts. extends ?s s1 ts \<and> datas s1 k ts = map snd (filter (\<lambda>e. fst e = k) ?new))"
  proof (cases "acallback (acc ?s)")
    case True
    then have r: "udps_do Ok fd (URecv key now (datagram recvfrom)) ?s = Ok s1" using s1(1) by simp
    have "\<exists>ts. extends ?s s1 ts \<and> datas s1 k ts = map snd (filter (\<lambda>e. fst e = k) ?new)" for k
      using udps_do_extends [OF si r, of k] True by (cases "key = k") (simp_all add: recv_of_def)
    then show ?thesis using udps_do_inv [OF si r] by blast
  next
    case False
    then have "s1 = ?s" using s1(1) by simp
    then show ?thesis using si False by (auto intro!: exI [of _ "[]"] extends_refl)
  qed
  moreover have "ts = drop (length (ptasks ?s)) (ptasks s)" if "extends ?s s1 ts" for ts
    using that by (simp add: extends_def same)
  ultimately have ext: "srv_inv s" "extends ?s s (drop (length (ptasks ?s)) (ptasks s))"
    "\<And>k. datas s k (drop (length (ptasks ?s)) (ptasks s)) = map snd (filter (\<lambda>e. fst e = k) ?new)"
    unfolding same d by metis+
  show ?thesis
    by (rule world_inv_server [OF inv ext(1) ready' ext(2,3) _ s(2)]) (use len in \<open>simp add: max_size_def\<close>)
qed

fun world_op_ok :: "world_op \<Rightarrow> bool" where
  "world_op_ok (WRead recvfrom key now) = (length (datagram recvfrom) \<le> 65536)"
| "world_op_ok _ = True"

lemma world_do_inv:
  assumes inv: "world_inv w" and listen: "keeps_buffer listen" and x: "world_op_ok x"
    and run: "world_do listen fd client x w = Ok w'"
  shows "world_inv w'"
proof (cases x)
  case (WStart il timer k)
  with run have "srv_step 0 (udps_do listen fd (UStart il timer k)) w = Ok w'" by (simp add: srv_step_def)
  then show ?thesis by (rule quiet_op_inv [OF inv listen, rotated]) simp
next
  case (WStop il)
  with run have "srv_step 0 (udps_do listen fd (UStop il)) w = Ok w'" by (simp add: srv_step_def)
  then show ?thesis by (rule quiet_op_inv [OF inv listen, rotated]) simp
next
  case (WExpire now)
  with run have "srv_step now (udps_do listen fd (UExpire now)) w = Ok w'" by (simp add: srv_step_def)
  then show ?thesis by (rule quiet_op_inv [OF inv listen, rotated]) simp
next
  case (WLoop timer)
  with run have "srv_step 0 (udps_do listen fd (UNext timer)) w = Ok w'" by (simp add: srv_step_def)
  then show ?thesis by (rule quiet_op_inv [OF inv listen, rotated]) simp
next
  case (WRead recvfrom key now)
  then show ?thesis using udp_read_inv [OF inv] run x by simp
next
  case (WPeer now p)
  have "moves w w' []"
    by (rule run_peer_moves(1)) (use inv run WPeer in \<open>auto simp: world_inv_def\<close>)
  then show ?thesis by (rule world_inv_moves [OF inv])
qed

lemma world_run_inv:
  assumes "world_inv w" and "keeps_buffer listen" and "list_all world_op_ok xs" and "world_run listen fd client xs w = Ok w'"
  shows "world_inv w'"
  using assms(1,3,4)
proof (induction xs arbitrary: w)
  case (Cons x xs)
  then obtain w1 where w1: "world_do listen fd client x w = Ok w1" "world_run listen fd client xs w1 = Ok w'" by auto
  show ?case using Cons.IH [OF world_do_inv [OF Cons.prems(1) assms(2) _ w1(1)] _ w1(2)] Cons.prems(2) by simp
qed simp

section \<open>Properties\<close>

text \<open>A peer with one connection gets all its datagrams through it.\<close>

lemma only_connection:
  assumes "\<forall>(q, t) \<in> set ts. pindex (objs s ! q) = k \<longleftrightarrow> q = p"
  shows "bytes (calls_to p ts) = concat (datas s k ts)"
  using assms(1)
proof (induction ts)
  case (Cons e ts)
  obtain q t where e: "e = (q, t)" by (cases e)
  have mine: "pindex (objs s ! q) = k \<longleftrightarrow> q = p" using Cons.prems e by simp
  have "concat (datas s k (e # ts)) = (if q = p then task_bytes t else []) @ concat (datas s k ts)"
    using mine by (cases t) (simp_all add: datas_def e)
  moreover have "bytes (calls_to p ts) = concat (datas s k ts)"
    by (rule Cons.IH) (use Cons.prems in simp)
  ultimately show ?case by (simp add: e)
qed simp

lemma length_concat_filter: "length (concat (map snd (filter P xs))) \<le> length (concat (map snd xs))"
  by (induction xs) auto

text \<open>
  C6. A UDP server at work, from the kernel's datagrams to the clients' callbacks: its acceptor reads
  datagrams, the server finds or makes the connection of each peer and hands it a copy, expiry and
  stopping close connections, and the loops of the connections run these functors whenever they do.
  For a peer that has had one connection only, what the callback has taken, what is in the
  connection's buffer and what waits in its loop is at every moment the bytes of all datagrams that arrived from
  this peer, in order: none is lost, repeated or mixed with another peer's. And the connection can go on, its
  next functor does not fail.
\<close>

theorem udp_peer_receives_its_datagrams:
  assumes "world_run (udp_listenInLoop q sock raw bnd) fd client xs (new_world a) = Ok w" and "list_all world_op_ok xs"
    and "reader_ready a" and "p < length (objs (usrv w))"
    and "list_all (\<lambda>r. pindex (objs (usrv w) ! r) = pindex (objs (usrv w) ! p) \<longrightarrow> r = p) [0..<length (objs (usrv w))]"
  shows "user_got w p @ content (uin (conn_of w p)) @ bytes (work w p)
      = concat (map snd (filter (\<lambda>e. fst e = pindex (objs (usrv w) ! p)) (arrived w)))
    \<and> (length (concat (map snd (arrived w))) \<le> max_size \<longrightarrow> (\<exists>w'. run_peer client now p w = Ok w'))"
proof -
  let ?s = "usrv w" and ?k = "pindex (objs (usrv w) ! p)"
  have inv: "world_inv w"
    by (rule world_run_inv [OF world_inv_new [OF assms(3)] udp_listen_keeps_buffer assms(2,1)])
  have one: "pindex (objs ?s ! r) = ?k \<longleftrightarrow> r = p" if "r < length (objs ?s)" for r
    using assms(5) that unfolding list_all_iff by (metis atLeastLessThan_iff le0 set_upt)
  have "\<forall>(r, t) \<in> set (ptasks ?s). pindex (objs ?s ! r) = ?k \<longleftrightarrow> r = p"
    using inv srv_invD(4) [of ?s] one unfolding world_inv_def by blast
  from only_connection [OF this] have all: "bytes (calls_to p (ptasks ?s)) = concat (map snd (filter (\<lambda>e. fst e = ?k) (arrived w)))"
    using inv by (simp add: world_inv_def)
  have "reached w p = bytes (calls_to p (ptasks ?s))" and room: "room_taken w p \<le> length (bytes (calls_to p (ptasks ?s)))"
    using inv by (simp_all add: world_inv_def)
  moreover have "\<exists>w'. run_peer client now p w = Ok w'" if "length (concat (map snd (arrived w))) \<le> max_size"
  proof (rule run_peer_moves(2))
    show "conns_ok w" using inv by (simp add: world_inv_def)
    show "room_taken w p \<le> max_size"
      using room that length_concat_filter [of "\<lambda>e. fst e = ?k" "arrived w"] unfolding all by linarith
  qed (use assms(4) in simp)
  ultimately show ?thesis unfolding all by (simp add: reached_def)
qed

text \<open>
  A run in which two peers send a datagram each and the first one's loop runs its two functors.
\<close>

definition demo_listener :: acceptor where
  "demo_listener = demo_acceptor\<lparr>listening := True, asocket := Some 2, acallback := True\<rparr>"

definition demo_exchange_ops :: "world_op list" where
  "demo_exchange_ops = [WRead (\<lambda>_. SysOk [1, 2]) ''a'' 5, WRead (\<lambda>_. SysOk [3]) ''b'' 6, WPeer 7 0, WPeer 8 0]"

lemma demo_ready: "reader_ready demo_listener"
  by (simp add: demo_listener_def demo_acceptor_def newAcceptor_def reader_ready_def buf_inv_def max_size_def)

definition demo_all :: "nat \<Rightarrow> byte list \<Rightarrow> nat" where
  "demo_all p bs = length bs"

abbreviation demo_world_run :: "world_op list \<Rightarrow> udp_world \<Rightarrow> udp_world res" where
  "demo_world_run \<equiv> world_run (udp_listenInLoop 2 (SysOk 8) None (SysOk ())) 9 demo_all"

lemma read_step:
  assumes "reader_ready (acc (usrv w))" and "loop_tid (anet (acc (usrv w))) (aloop (acc (usrv w))) = here (anet (acc (usrv w)))"
    and "asocket (acc (usrv w)) \<noteq> None" and "acallback (acc (usrv w))" and "length (datagram recvfrom) \<le> 65536"
    and "udp_recvMessage fd key now (datagram recvfrom) (usrv w) = Ok s"
  obtains b where "buf_inv b" and "world_do listen fd client (WRead recvfrom key now) w =
    hand_all now (drop (length (ptasks (usrv w))) (ptasks s))
      (w\<lparr>arrived := arrived w @ [(key, datagram recvfrom)], usrv := s\<lparr>acc := (acc s)\<lparr>abuffer := retrieveAll b\<rparr>\<rparr>\<rparr>)"
proof -
  obtain b where b: "buf_inv b" "udp_read fd recvfrom key now (usrv w) = in_acceptor_loop (acc (usrv w))
    (if asocket (acc (usrv w)) = None then Fail NullDeref
     else bindR (if acallback (acc (usrv w)) then udp_recvMessage fd key now (datagram recvfrom) (usrv w) else Ok (usrv w)) (\<lambda>s1.
       Ok (s1\<lparr>acc := (acc s1)\<lparr>abuffer := retrieveAll b\<rparr>\<rparr>)))"
    by (rule udp_read_eq [OF assms(1,5)])
  show ?thesis
    by (rule that [OF b(1)]) (use b(2) assms in \<open>simp add: in_acceptor_loop_def srv_step_def\<close>)
qed

text \<open>The world after the two datagrams, with any buffer in the acceptor.\<close>

definition demo_peer :: "string \<Rightarrow> int \<Rightarrow> peer" where
  "demo_peer k now = \<lparr>pindex = k, peer_loop = None, phook = True, pfd = 9, pactive = now\<rparr>"

definition demo_w1 :: "buffer \<Rightarrow> udp_world" where
  "demo_w1 b = \<lparr>usrv = (newServer (demo_listener\<lparr>abuffer := b\<rparr>))\<lparr>conns := [(''a'', 0)], objs := [demo_peer ''a'' 5],
       ptasks := [(0, Establish), (0, Deliver [1, 2])]\<rparr>,
     conn_of = (\<lambda>p. newUdpConnection p p [] 0 False 0 buffer0)(0 := newUdpConnection 0 0 ''a'' 5 False 0 buffer0),
     work = (\<lambda>p. [])(0 := [Establish, Deliver [1, 2]]), user_got = (\<lambda>p. []), arrived = [(''a'', [1, 2])]\<rparr>"

definition demo_w2 :: "buffer \<Rightarrow> udp_world" where
  "demo_w2 b = (demo_w1 b)\<lparr>usrv := (newServer (demo_listener\<lparr>abuffer := b\<rparr>))\<lparr>conns := [(''a'', 0), (''b'', 1)],
       objs := [demo_peer ''a'' 5, demo_peer ''b'' 6],
       ptasks := [(0, Establish), (0, Deliver [1, 2]), (1, Establish), (1, Deliver [3])]\<rparr>,
     conn_of := (conn_of (demo_w1 b))(1 := newUdpConnection 1 1 ''b'' 6 False 0 buffer0),
     work := (work (demo_w1 b))(1 := [Establish, Deliver [3]]), arrived := [(''a'', [1, 2]), (''b'', [3])]\<rparr>"

lemma demo_listener_here: "loop_tid (anet demo_listener) (aloop demo_listener) = here (anet demo_listener)"
  "asocket demo_listener = Some 2" "acallback demo_listener"
  using demo_server_loop by (simp_all add: demo_listener_def demo_server_def newServer_def)

lemma demo_reads:
  "\<exists>b. buf_inv b \<and> demo_world_run [WRead (\<lambda>_. SysOk [1, 2]) ''a'' 5, WRead (\<lambda>_. SysOk [3]) ''b'' 6] (new_world demo_listener) = Ok (demo_w2 (retrieveAll b))"
proof -
  let ?r1 = "\<lambda>_ :: nat. SysOk [1, 2] :: byte list sys" and ?r2 = "\<lambda>_ :: nat. SysOk [3] :: byte list sys"
  let ?l = "udp_listenInLoop 2 (SysOk 8) None (SysOk ())"
  have d: "datagram ?r1 = [1, 2]" "datagram ?r2 = [3]" by (simp_all add: datagram_def)
  let ?s1 = "\<lambda>a. (newServer a)\<lparr>conns := [(''a'', 0)], objs := [demo_peer ''a'' 5], ptasks := [(0, Establish), (0, Deliver [1, 2])]\<rparr>"
  have m1: "udp_recvMessage 9 ''a'' 5 [1, 2] (newServer demo_listener) = Ok (?s1 demo_listener)"
    by (simp add: server_ops demo_peer_def)
  obtain b1 where b1: "buf_inv b1" "world_do ?l 9 demo_all (WRead ?r1 ''a'' 5) (new_world demo_listener) = Ok (demo_w1 (retrieveAll b1))"
  proof (rule read_step [of "new_world demo_listener" ?r1 9 "''a''" 5 "?s1 demo_listener" ?l demo_all])
    fix b
    assume "buf_inv b" and "world_do ?l 9 demo_all (WRead ?r1 ''a'' 5) (new_world demo_listener) =
      hand_all 5 (drop (length (ptasks (usrv (new_world demo_listener)))) (ptasks (?s1 demo_listener)))
        ((new_world demo_listener)\<lparr>arrived := arrived (new_world demo_listener) @ [(''a'', datagram ?r1)],
          usrv := (?s1 demo_listener)\<lparr>acc := (acc (?s1 demo_listener))\<lparr>abuffer := retrieveAll b\<rparr>\<rparr>\<rparr>)"
    then show thesis using that
      by (simp add: new_world_def newServer_def d demo_w1_def demo_peer_def set_conn_def del: world_do.simps)
  qed (use m1 demo_ready demo_listener_here in \<open>simp_all add: new_world_def d\<close>, simp_all add: newServer_def)
  let ?a1 = "demo_listener\<lparr>abuffer := retrieveAll b1\<rparr>"
  let ?s2 = "\<lambda>a. (newServer a)\<lparr>conns := [(''a'', 0), (''b'', 1)], objs := [demo_peer ''a'' 5, demo_peer ''b'' 6],
    ptasks := [(0, Establish), (0, Deliver [1, 2]), (1, Establish), (1, Deliver [3])]\<rparr>"
  have m2: "udp_recvMessage 9 ''b'' 6 [3] (?s1 ?a1) = Ok (?s2 ?a1)"
    by (simp add: server_ops demo_peer_def)
  have ready: "reader_ready ?a1" by (rule reader_ready_retrieveAll [OF b1(1)])
  obtain b2 where b2: "buf_inv b2" "world_do ?l 9 demo_all (WRead ?r2 ''b'' 6) (demo_w1 (retrieveAll b1)) = Ok (demo_w2 (retrieveAll b2))"
  proof (rule read_step [of "demo_w1 (retrieveAll b1)" ?r2 9 "''b''" 6 "?s2 ?a1" ?l demo_all])
    fix b
    assume "buf_inv b" and "world_do ?l 9 demo_all (WRead ?r2 ''b'' 6) (demo_w1 (retrieveAll b1)) =
      hand_all 6 (drop (length (ptasks (usrv (demo_w1 (retrieveAll b1))))) (ptasks (?s2 ?a1)))
        ((demo_w1 (retrieveAll b1))\<lparr>arrived := arrived (demo_w1 (retrieveAll b1)) @ [(''b'', datagram ?r2)],
          usrv := (?s2 ?a1)\<lparr>acc := (acc (?s2 ?a1))\<lparr>abuffer := retrieveAll b\<rparr>\<rparr>\<rparr>)"
    then show thesis using that
      by (simp add: newServer_def d demo_w1_def demo_w2_def demo_peer_def set_conn_def del: world_do.simps)
  qed (use m2 ready demo_listener_here in \<open>simp_all add: demo_w1_def d\<close>, simp_all add: newServer_def)
  show ?thesis using b1(2) b2 by (intro exI [of _ b2]) (simp del: world_do.simps)
qed

lemma demo_udp_world: "\<exists>w. demo_world_run demo_exchange_ops (new_world demo_listener) = Ok w \<and> world_inv w
  \<and> arrived w = [(''a'', [1, 2]), (''b'', [3])] \<and> length (objs (usrv w)) = 2
  \<and> (\<forall>p. pindex (objs (usrv w) ! p) = pindex ([demo_peer ''a'' 5, demo_peer ''b'' 6] ! p))"
proof -
  obtain b where b: "demo_world_run [WRead (\<lambda>_. SysOk [1, 2]) ''a'' 5, WRead (\<lambda>_. SysOk [3]) ''b'' 6] (new_world demo_listener)
    = Ok (demo_w2 (retrieveAll b))" using demo_reads by blast
  let ?w = "demo_w2 (retrieveAll b)"
  have inv: "world_inv ?w"
    by (rule world_run_inv [OF world_inv_new [OF demo_ready] udp_listen_keeps_buffer _ b]) (simp add: datagram_def)
  have room: "room_taken ?w 0 \<le> max_size"
    by (simp add: room_taken_def demo_w2_def demo_w1_def newUdpConnection_def buffer0_def max_size_def)
  have n: "length (objs (usrv ?w)) = 2" by (simp add: demo_w2_def)
  have c: "conns_ok ?w" using inv by (simp add: world_inv_def)
  obtain w3 where w3: "run_peer demo_all 7 0 ?w = Ok w3" using run_peer_moves(2) [OF c _ room] n by fastforce
  have m3: "moves ?w w3 []" by (rule run_peer_moves(1) [OF c _ w3]) (use n in simp)
  have inv3: "world_inv w3" by (rule world_inv_moves [OF inv m3])
  have room3: "room_taken w3 0 \<le> max_size" using m3 room by (simp add: moves_def) (meson le_trans)
  have c3: "conns_ok w3" using inv3 by (simp add: world_inv_def)
  have n3: "length (objs (usrv w3)) = 2" using moves_objs [OF m3] n by simp
  obtain w4 where w4: "run_peer demo_all 8 0 w3 = Ok w4" using run_peer_moves(2) [OF c3 _ room3] n3 by fastforce
  have m4: "moves w3 w4 []" by (rule run_peer_moves(1) [OF c3 _ w4]) (use n3 in simp)
  have "demo_world_run demo_exchange_ops (new_world demo_listener) = Ok w4"
    using b w3 w4 by (auto simp: demo_exchange_ops_def simp del: world_do.simps(1-5))
  then show ?thesis using world_inv_moves [OF inv3 m4] m3 m4 n
    by (intro exI [of _ w4]) (simp add: moves_def same_server_def demo_w2_def)
qed

lemma udp_peer_receives_its_datagrams_witness:
  "\<exists>w. demo_world_run demo_exchange_ops (new_world demo_listener) = Ok w
    \<and> user_got w 0 @ content (uin (conn_of w 0)) @ bytes (work w 0) = [1, 2]"
proof -
  obtain w where w: "demo_world_run demo_exchange_ops (new_world demo_listener) = Ok w" "arrived w = [(''a'', [1, 2]), (''b'', [3])]"
    "length (objs (usrv w)) = 2" "\<And>p. pindex (objs (usrv w) ! p) = pindex ([demo_peer ''a'' 5, demo_peer ''b'' 6] ! p)"
    using demo_udp_world by blast
  have "list_all world_op_ok demo_exchange_ops" by (simp add: demo_exchange_ops_def datagram_def)
  from udp_peer_receives_its_datagrams [OF w(1) this demo_ready, of 0] w
  show ?thesis by (auto simp: demo_peer_def upt_rec numeral_2_eq_2)
qed

text \<open>
  A failed \<open>recvfrom\<close> is not noticed: the buffer is empty and the address is the zero address, for which the
  server makes a connection like for any peer, and hands it an empty datagram.
\<close>

theorem failed_receive_makes_connection:
  assumes "reader_ready (acc s)" and "asocket (acc s) \<noteq> None" and "acallback (acc s)"
    and "loop_tid (anet (acc s)) (aloop (acc s)) = here (anet (acc s))" and "recvfrom 65536 = SysErr e"
    and "map_of (conns s) zero = None" and "npairs s \<noteq> 0"
  shows "\<exists>s'. udp_read fd recvfrom zero now s = Ok s' \<and> map_of (conns s') zero = Some (length (objs s))
    \<and> ptasks s' = ptasks s @ [(length (objs s), Establish), (length (objs s), Deliver [])]"
proof -
  obtain b where b: "udp_read fd recvfrom zero now s = in_acceptor_loop (acc s)
    (if asocket (acc s) = None then Fail NullDeref
     else bindR (if acallback (acc s) then udp_recvMessage fd zero now (datagram recvfrom) s else Ok s) (\<lambda>s1.
       Ok (s1\<lparr>acc := (acc s1)\<lparr>abuffer := retrieveAll b\<rparr>\<rparr>)))"
    using udp_read_eq [OF assms(1), of recvfrom fd zero now] assms(5) by (auto simp: datagram_def)
  have d: "datagram recvfrom = []" using assms(5) by (simp add: datagram_def)
  have "\<exists>l c. getNextLoop (threads s) (npairs s) (counter s) = Ok (l, c)"
    using assms(7) by (simp add: getNextLoop_def Let_def)
  then obtain l c where l: "getNextLoop (threads s) (npairs s) (counter s) = Ok (l, c)" by blast
  then obtain s1 where s1: "udp_recvMessage fd zero now [] s = Ok s1" "map_of (conns s1) zero = Some (length (objs s))"
    "ptasks s1 = ptasks s @ [(length (objs s), Establish), (length (objs s), Deliver [])]"
    using assms(6) by (simp add: udp_recvMessage_def addConnection_def notifyConnectionEstablished_def udp_bind_def
        bindDefaultCallbacks_def on_peer_def tell_def update_conv Let_def)
  show ?thesis unfolding b using assms(2-4) s1 d by (simp add: in_acceptor_loop_def)
qed

lemma failed_receive_makes_connection_witness:
  "\<exists>s'. udp_read 9 (\<lambda>_. SysErr 11) ''0.0.0.0:0'' 5 ((newServer demo_listener)\<lparr>npairs := 1\<rparr>) = Ok s'
    \<and> map_of (conns s') ''0.0.0.0:0'' = Some 0"
  using failed_receive_makes_connection [of "(newServer demo_listener)\<lparr>npairs := 1\<rparr>" "\<lambda>_. SysErr 11" 11 "''0.0.0.0:0''" 9 5]
    demo_ready demo_listener_here by (auto simp: newServer_def)

end
