(* ===== verification/ParserContract.thy ===== *)
theory ParserContract
  imports Main
begin

text \<open>
  The contract of a packet format that is read from a growing stream: when the beginning of the stream
  holds a complete item, later bytes change neither the item nor what follows it. Then it does not
  matter into which pieces the stream is cut. \<open>UnpackHandler\<close>'s format interprets the locale in
  theory \<open>Packets\<close>.
\<close>

locale incremental_parser =
  fixes ready :: "'a list \<Rightarrow> bool"
    and item :: "'a list \<Rightarrow> 'i"
    and rest :: "'a list \<Rightarrow> 'a list"
    and items :: "'a list \<Rightarrow> 'i list"
    and left :: "'a list \<Rightarrow> 'a list"
  assumes items_ready: "ready bs \<Longrightarrow> items bs = item bs # items (rest bs) \<and> left bs = left (rest bs)"
    and items_stop: "\<not> ready bs \<Longrightarrow> items bs = [] \<and> left bs = bs"
    and rest_shorter: "ready bs \<Longrightarrow> length (rest bs) < length bs"
    and ready_append: "ready bs \<Longrightarrow> ready (bs @ cs) \<and> item (bs @ cs) = item bs \<and> rest (bs @ cs) = rest bs @ cs"
begin

lemma items_append: "items (bs @ cs) = items bs @ items (left bs @ cs) \<and> left (bs @ cs) = left (left bs @ cs)"
proof (induction bs rule: length_induct)
  case (1 bs)
  show ?case
  proof (cases "ready bs")
    case True
    with 1 rest_shorter have "items (rest bs @ cs) = items (rest bs) @ items (left (rest bs) @ cs)
      \<and> left (rest bs @ cs) = left (left (rest bs) @ cs)" by blast
    with True ready_append [OF True, of cs] items_ready [OF True] items_ready [of "bs @ cs"] show ?thesis by simp
  next
    case False
    then show ?thesis by (simp add: items_stop)
  qed
qed

lemma left_stuck: "\<not> ready (left bs)"
proof (induction bs rule: length_induct)
  case (1 bs)
  then show ?case using items_ready [of bs] items_stop [of bs] rest_shorter [of bs] by (cases "ready bs") simp_all
qed

text \<open>What has been read so far is never taken back.\<close>

lemma items_prefix: "\<exists>is. items (bs @ cs) = items bs @ is"
  using items_append by blast

end

end
