(* ===== verification/Packets.thy ===== *)
theory Packets
  imports Handlers ParserContract
begin

text \<open>
  The packet stream: \<open>Buffer::readFd\<close> and \<open>UnpackHandler::process\<close> together. TCP cuts the stream into
  pieces at will; what the handler makes of it is a pure function of the bytes, the parser \<open>packages\<close>.
\<close>

section \<open>The reference parser\<close>

function packages :: "byte list \<Rightarrow> byte list list" where
  "packages bs = (if complete bs then package_of bs # packages (rest_of bs) else [])"
  by pat_completeness auto
termination
  by (relation "measure length") (auto simp: complete_def rest_of_def)

function leftover :: "byte list \<Rightarrow> byte list" where
  "leftover bs = (if complete bs then leftover (rest_of bs) else bs)"
  by pat_completeness auto
termination
  by (relation "measure length") (auto simp: complete_def rest_of_def)

declare packages.simps [simp del] leftover.simps [simp del]

lemma packages_step:
  "complete bs \<Longrightarrow> packages bs = package_of bs # packages (rest_of bs)"
  "\<not> complete bs \<Longrightarrow> packages bs = []"
  "complete bs \<Longrightarrow> leftover bs = leftover (rest_of bs)"
  "\<not> complete bs \<Longrightarrow> leftover bs = bs"
  by (simp_all add: packages.simps [of bs] leftover.simps [of bs])

lemma length_rest: "complete bs \<Longrightarrow> length (rest_of bs) < length bs"
  by (auto simp: complete_def rest_of_def)

text \<open>Bytes that arrive behind a complete package do not change it.\<close>

lemma complete_append:
  assumes "complete bs"
  shows "complete (bs @ cs)" and "package_of (bs @ cs) = package_of bs" and "rest_of (bs @ cs) = rest_of bs @ cs"
proof -
  from assms have len: "32 < length bs" "nat (header_size bs) + 32 \<le> length bs" "0 < header_size bs"
    by (simp_all add: complete_def)
  then have h: "header_size (bs @ cs) = header_size bs" by (simp add: header_size_def)
  with len show "complete (bs @ cs)" by (simp add: complete_def)
  show "package_of (bs @ cs) = package_of bs" using len h by (simp add: package_of_def)
  show "rest_of (bs @ cs) = rest_of bs @ cs" using len h by (simp add: rest_of_def)
qed

interpretation packet_format: incremental_parser complete package_of rest_of packages leftover
  by unfold_locales (simp_all add: packages_step length_rest complete_append)

lemmas packages_append = packet_format.items_append

text \<open>What a sender makes of a package: its length in network order, 28 bytes nobody looks at, the package.\<close>

definition frame :: "byte list \<Rightarrow> byte list \<Rightarrow> byte list" where
  "frame pad p = be_bytes (of_nat (length p) :: 32 word) @ pad @ p"

definition framable :: "byte list \<times> byte list \<Rightarrow> bool" where
  "framable f \<longleftrightarrow> length (fst f) = 28 \<and> 0 < length (snd f) \<and> length (snd f) < 2 ^ 31"

lemma frame_parses:
  assumes "framable (pad, p)"
  shows "complete (frame pad p @ bs)" and "package_of (frame pad p @ bs) = p" and "rest_of (frame pad p @ bs) = bs"
proof -
  let ?w = "of_nat (length p) :: 32 word"
  have len: "length pad = 28" "0 < length p" "length p < 2 ^ 31" using assms by (simp_all add: framable_def)
  have "sint ?w = int (length p)"
    using len(3) by (simp add: signed_of_nat signed_take_bit_int_eq_self)
  moreover have "take 4 (frame pad p @ bs) = be_bytes ?w" by (simp add: frame_def)
  ultimately have h: "header_size (frame pad p @ bs) = int (length p)"
    using ntoh_of_mem_be(2) [of ?w] by (simp add: header_size_def)
  then show "complete (frame pad p @ bs)" "package_of (frame pad p @ bs) = p" "rest_of (frame pad p @ bs) = bs"
    using len by (simp_all add: complete_def package_of_def rest_of_def frame_def)
qed

lemma packages_frames:
  assumes "list_all framable fs"
  shows "packages (concat (map (\<lambda>(h, p). frame h p) fs) @ bs) = map snd fs @ packages bs"
    and "leftover (concat (map (\<lambda>(h, p). frame h p) fs) @ bs) = leftover bs"
  using assms by (induction fs) (auto simp: packages_step frame_parses)

section \<open>Receiving\<close>

text \<open>
  A client that gives the buffer to the handler, as a new \<open>BufferData\<close>, takes the package and deletes
  both objects; and a client that does so after every \<open>readFd\<close>, until the handler fails. A buffer of
  \<open>n\<close> bytes holds fewer than \<open>n\<close> packages, so \<open>n\<close> calls are enough.
\<close>

definition unpack_one :: "pstate \<Rightarrow> (byte list option \<times> pstate) res" where
  "unpack_one s =
     (let (p, s1) = createData (BufferData (readableBytes (pbuf s))) s
      in bindR (unpack_process p s1) (\<lambda>(q, s2).
         bindR (getObj q s2) (\<lambda>d.
           case hpayload d of
             BitsData v \<Rightarrow>
               bindR (ns_toString (vec (pbuf s2)) v) (\<lambda>bs.
               bindR (deleteObj p s2) (\<lambda>s3. bindR (deleteObj q s3) (\<lambda>s4. Ok (Some bs, s4))))
           | BufferData _ \<Rightarrow> bindR (deleteObj p s2) (\<lambda>s3. Ok (None, s3)))))"

primrec unpack_all :: "nat \<Rightarrow> pstate \<Rightarrow> (byte list list \<times> pstate) res" where
  "unpack_all 0 s = Ok ([], s)"
| "unpack_all (Suc n) s = bindR (unpack_one s) (\<lambda>(r, s1). case r of
     None \<Rightarrow> Ok ([], s1)
   | Some bs \<Rightarrow> bindR (unpack_all n s1) (\<lambda>(ps, s2). Ok (bs # ps, s2)))"

primrec receive :: "byte list list \<Rightarrow> pstate \<Rightarrow> (byte list list \<times> pstate) res" where
  "receive [] s = Ok ([], s)"
| "receive (d # ds) s =
     bindR (readFd (\<lambda>_. SysOk d) (pbuf s)) (\<lambda>(n, b).
     bindR (unpack_all (readableBytes b) (s\<lparr>pbuf := b\<rparr>)) (\<lambda>(ps, s1).
     bindR (receive ds s1) (\<lambda>(qs, s2). Ok (ps @ qs, s2))))"

text \<open>The state between two calls: the same objects, a buffer that has not grown.\<close>

definition after_unpack :: "pstate \<Rightarrow> pstate \<Rightarrow> bool" where
  "after_unpack s s' \<longleftrightarrow> pstate_inv s' \<and> objs s' = objs s \<and> writerIndex (pbuf s') \<le> writerIndex (pbuf s)"

lemma unpack_package_load:
  "unpack_package sz p s = Ok (q, s') \<Longrightarrow> writerIndex (pbuf s') \<le> writerIndex (pbuf s)"
  by (auto simp: unpack_package_def dest!: retrieve_writerIndex)

lemma pstate_fresh: "pstate_inv s \<Longrightarrow> nextPtr s \<le> p \<Longrightarrow> objs s p = None"
  unfolding pstate_inv_def by (meson leD)

lemma unpack_one_complete:
  assumes inv: "pstate_inv s" and c: "complete (content (pbuf s))"
  shows "\<exists>s'. unpack_one s = Ok (Some (package_of (content (pbuf s))), s') \<and> after_unpack s s'
    \<and> content (pbuf s') = rest_of (content (pbuf s))"
proof -
  let ?d = "\<lparr>hstatus = SUCCESS, hpayload = BufferData (readableBytes (pbuf s))\<rparr>" and ?p = "nextPtr s"
  let ?s1 = "s\<lparr>objs := (objs s)(?p \<mapsto> ?d), nextPtr := Suc ?p\<rparr>"
  let ?w = "networkToHost32 (of_mem (take 4 (content (pbuf s))))"
  have b: "buf_inv (pbuf ?s1)" using inv by (simp add: pstate_inv_def)
  have new: "objs s ?p = None" "objs s (Suc ?p) = None" using pstate_fresh [OF inv] by simp_all
  obtain v b' where u: "unpack_package ?w ?p ?s1 = Ok (Suc ?p,
        ?s1\<lparr>objs := (objs ?s1)(Suc ?p \<mapsto> \<lparr>hstatus = SUCCESS, hpayload = BitsData v\<rparr>), nextPtr := Suc (Suc ?p), pbuf := b'\<rparr>)"
    and b': "buf_inv b'" "content b' = rest_of (content (pbuf s))" "ns_toString (vec b') v = Ok (package_of (content (pbuf s)))"
    using unpack_package_spec [OF b, of ?w ?p] c by auto
  have p: "unpack_process ?p ?s1 = unpack_package ?w ?p ?s1"
    using unpack_process_eq [OF b, of ?p ?d] c by simp
  have load: "writerIndex b' \<le> writerIndex (pbuf s)" using unpack_package_load [OF u] by simp
  let ?s' = "s\<lparr>nextPtr := Suc (Suc ?p), pbuf := b'\<rparr>"
  let ?e = "\<lparr>hstatus = SUCCESS, hpayload = BitsData v\<rparr>"
  let ?s2 = "?s1\<lparr>objs := (objs ?s1)(Suc ?p \<mapsto> ?e), nextPtr := Suc (Suc ?p), pbuf := b'\<rparr>"
  let ?s3 = "?s2\<lparr>objs := (objs ?s2)(?p := None)\<rparr>"
  have "(objs ?s3)(Suc ?p := None) = objs s" using new by (auto simp: fun_eq_iff)
  then have s4: "?s3\<lparr>objs := (objs ?s3)(Suc ?p := None)\<rparr> = ?s'" by simp
  have "unpack_one s = bindR (deleteObj (Suc ?p) ?s3) (\<lambda>s4. Ok (Some (package_of (content (pbuf s))), s4))"
    using b'(3) by (simp add: unpack_one_def p u getObj_def deleteObj_def [of ?p])
  also have "deleteObj (Suc ?p) ?s3 = Ok (?s3\<lparr>objs := (objs ?s3)(Suc ?p := None)\<rparr>)"
    by (simp add: deleteObj_def getObj_def)
  finally have "unpack_one s = Ok (Some (package_of (content (pbuf s))), ?s')" unfolding s4 by simp
  moreover have "after_unpack s ?s'"
    using inv b'(1) load by (auto simp: after_unpack_def pstate_inv_def less_Suc_eq)
  ultimately show ?thesis using b'(2) by auto
qed

lemma unpack_one_incomplete:
  assumes inv: "pstate_inv s" and c: "\<not> complete (content (pbuf s))"
  shows "\<exists>s'. unpack_one s = Ok (None, s') \<and> after_unpack s s' \<and> pbuf s' = pbuf s"
proof -
  let ?d = "\<lparr>hstatus = SUCCESS, hpayload = BufferData (readableBytes (pbuf s))\<rparr>" and ?p = "nextPtr s"
  let ?s1 = "s\<lparr>objs := (objs s)(?p \<mapsto> ?d), nextPtr := Suc ?p\<rparr>"
  have b: "buf_inv (pbuf ?s1)" using inv by (simp add: pstate_inv_def)
  have new: "objs s ?p = None" using pstate_fresh [OF inv] by simp
  have p: "unpack_process ?p ?s1 = unpack_fail ?p ?s1"
    using unpack_process_eq [OF b, of ?p ?d] c by simp
  have "unpack_one s = Ok (None, s\<lparr>nextPtr := Suc ?p\<rparr>)"
    using new by (simp add: unpack_one_def p unpack_fail_def setStatus_def getObj_def deleteObj_def) (simp add: fun_upd_idem)
  moreover have "after_unpack s (s\<lparr>nextPtr := Suc ?p\<rparr>)"
    using inv by (auto simp: after_unpack_def pstate_inv_def less_Suc_eq)
  ultimately show ?thesis by auto
qed

lemma unpack_all_result:
  assumes "pstate_inv s" and "length (content (pbuf s)) \<le> n"
  shows "\<exists>s'. unpack_all n s = Ok (packages (content (pbuf s)), s') \<and> after_unpack s s'
    \<and> content (pbuf s') = leftover (content (pbuf s))"
  using assms
proof (induction n arbitrary: s)
  case 0
  then show ?case by (simp add: packages_step complete_def after_unpack_def)
next
  case (Suc n)
  show ?case
  proof (cases "complete (content (pbuf s))")
    case True
    obtain s1 where s1: "unpack_one s = Ok (Some (package_of (content (pbuf s))), s1)" "after_unpack s s1"
      "content (pbuf s1) = rest_of (content (pbuf s))"
      using unpack_one_complete [OF Suc.prems(1) True] by blast
    have "pstate_inv s1" "length (content (pbuf s1)) \<le> n"
      using s1(2,3) Suc.prems(2) length_rest [OF True] by (simp_all add: after_unpack_def)
    from Suc.IH [OF this] obtain s2 where s2: "unpack_all n s1 = Ok (packages (content (pbuf s1)), s2)" "after_unpack s1 s2"
      "content (pbuf s2) = leftover (content (pbuf s1))" by blast
    have "after_unpack s s2" using s1(2) s2(2) by (simp add: after_unpack_def)
    then show ?thesis using s1 s2 True by (simp add: packages_step)
  next
    case False
    then show ?thesis using unpack_one_incomplete [OF Suc.prems(1) False] by (auto simp: packages_step)
  qed
qed

lemmas leftover_incomplete = packet_format.left_stuck

lemma receive_result:
  assumes "pstate_inv s" and "\<not> complete (content (pbuf s))"
    and "writerIndex (pbuf s) + length (concat ds) \<le> max_size"
  shows "\<exists>s'. receive ds s = Ok (packages (content (pbuf s) @ concat ds), s') \<and> objs s' = objs s
    \<and> content (pbuf s') = leftover (content (pbuf s) @ concat ds)"
  using assms
proof (induction ds arbitrary: s)
  case Nil
  then show ?case by (simp add: packages_step)
next
  case (Cons d ds)
  let ?c = "content (pbuf s)"
  have "buf_inv (pbuf s)" using Cons.prems(1) by (simp add: pstate_inv_def)
  then obtain b where b: "readFd (\<lambda>_. SysOk d) (pbuf s) = Ok (int (length d), b)" "buf_inv b" "content b = ?c @ d"
    "writerIndex b \<le> writerIndex (pbuf s) + length d"
    using readFd_load [of "pbuf s" "\<lambda>_. SysOk d" d] Cons.prems(3) by auto
  let ?s1 = "s\<lparr>pbuf := b\<rparr>"
  have "pstate_inv ?s1" "length (content (pbuf ?s1)) \<le> readableBytes b"
    using Cons.prems(1) b(2) by (simp_all add: pstate_inv_def readable_content)
  from unpack_all_result [OF this] b(3) obtain s2 where
    s2: "unpack_all (readableBytes b) ?s1 = Ok (packages (?c @ d), s2)" "after_unpack ?s1 s2"
      "content (pbuf s2) = leftover (?c @ d)" by auto
  have "pstate_inv s2" "objs s2 = objs s" "writerIndex (pbuf s2) + length (concat ds) \<le> max_size"
    using s2(2) b(4) Cons.prems(3) by (simp_all add: after_unpack_def)
  moreover have "\<not> complete (content (pbuf s2))" using s2(3) by (simp add: leftover_incomplete)
  ultimately obtain s3 where s3: "receive ds s2 = Ok (packages (leftover (?c @ d) @ concat ds), s3)" "objs s3 = objs s"
    "content (pbuf s3) = leftover (leftover (?c @ d) @ concat ds)"
    using Cons.IH [of s2] s2(3) by auto
  have "packages ((?c @ d) @ concat ds) = packages (?c @ d) @ packages (leftover (?c @ d) @ concat ds)"
    "leftover ((?c @ d) @ concat ds) = leftover (leftover (?c @ d) @ concat ds)"
    using packages_append [of "?c @ d" "concat ds"] by blast+
  then show ?case using b(1) s2(1) s3 by simp
qed


section \<open>Properties\<close>

text \<open>
  C11. The handler is equivalent to the parser \<open>packages\<close> on byte lists, however the stream is cut: a
  client that unpacks after every \<open>readFd\<close> gets exactly the packages of the whole stream, in order,
  and is left with its unfinished tail; no call fails and no object is leaked.
\<close>

theorem unpack_ignores_fragmentation:
  assumes "pstate_inv s" and "\<not> complete (content (pbuf s))"
    and "writerIndex (pbuf s) + length (concat ds) \<le> max_size"
  shows "\<exists>s'. receive ds s = Ok (packages (content (pbuf s) @ concat ds), s') \<and> objs s' = objs s
    \<and> content (pbuf s') = leftover (content (pbuf s) @ concat ds)"
  using assms by (rule receive_result)

definition empty_pstate :: pstate where
  "empty_pstate = \<lparr>objs = Map.empty, nextPtr = 1, pbuf = \<lparr>vec = [], readerIndex = 0, writerIndex = 0\<rparr>\<rparr>"

lemma empty_pstate_ok: "pstate_inv empty_pstate" "content (pbuf empty_pstate) = []" "writerIndex (pbuf empty_pstate) = 0"
  "objs empty_pstate = Map.empty"
  by (simp_all add: empty_pstate_def pstate_inv_def buf_inv_def content_def)

lemma unpack_ignores_fragmentation_witness:
  "\<exists>s'. receive [[0, 0], [0, 2] @ replicate 28 0, [10], [11, 12]] empty_pstate = Ok ([[10, 11]], s')
    \<and> content (pbuf s') = [12]"
proof -
  let ?bs = "[0, 0, 0, 2] @ replicate 28 0 @ [10, 11, 12]"
  have "complete ?bs" "package_of ?bs = [10, 11]" "rest_of ?bs = [12]"
    unfolding complete_def package_of_def rest_of_def packet_size by (simp_all add: numeral_eq_Suc)
  moreover have "\<not> complete [12]" "\<not> complete []" by (simp_all add: complete_def)
  ultimately have p: "packages ?bs = [[10, 11]]" "leftover ?bs = [12]" "\<not> complete []"
    using packages_step(2,4) [of "[12]"] packages_step(1,3) [of ?bs] by simp_all
  let ?ds = "[[0, 0], [0, 2] @ replicate 28 0, [10], [11, 12]]"
  have ds: "concat ?ds = ?bs" by simp
  then have "length (concat ?ds) = 35" by (simp only: ds) simp
  then have len: "writerIndex (pbuf empty_pstate) + length (concat ?ds) \<le> max_size"
    by (simp only: empty_pstate_ok) (simp add: max_size_def)
  have "\<not> complete (content (pbuf empty_pstate))" using p(3) by (simp add: empty_pstate_ok)
  from unpack_ignores_fragmentation [OF empty_pstate_ok(1) this len, unfolded ds] p(1,2)
  show ?thesis by (simp add: empty_pstate_ok del: receive.simps) blast
qed

text \<open>
  C24. Packages survive the way: framed by the sender, cut into any pieces by the network, read and
  unpacked, they come out unchanged, in order and complete.
\<close>

theorem packages_roundtrip:
  assumes "list_all framable fs" and "concat ds = concat (map (\<lambda>(pad, p). frame pad p) fs)"
    and "pstate_inv s" and "content (pbuf s) = []" and "writerIndex (pbuf s) + length (concat ds) \<le> max_size"
  shows "\<exists>s'. receive ds s = Ok (map snd fs, s') \<and> objs s' = objs s \<and> content (pbuf s') = []"
proof -
  have "\<not> complete []" by (simp add: complete_def)
  with receive_result [OF assms(3) _ assms(5)] packages_frames [OF assms(1), of "[]"] assms(2,4)
  show ?thesis by (simp add: packages_step)
qed

lemma packages_roundtrip_witness:
  "\<exists>s'. receive [take 20 (frame (replicate 28 7) [1, 2]), drop 20 (frame (replicate 28 7) [1, 2]) @ frame (replicate 28 0) [3]]
    empty_pstate = Ok ([[1, 2], [3]], s')"
proof -
  let ?fs = "[(replicate 28 7, [1, 2]), (replicate 28 0, [3])]"
  let ?ds = "[take 20 (frame (replicate 28 7) [1, 2]), drop 20 (frame (replicate 28 7) [1, 2]) @ frame (replicate 28 0) [3]]"
  have fs: "list_all framable ?fs" by (simp add: framable_def)
  have ds: "concat ?ds = concat (map (\<lambda>(pad, p). frame pad p) ?fs)" by simp
  have "length (concat ?ds) = 67" unfolding ds by (simp add: frame_def)
  then have "writerIndex (pbuf empty_pstate) + length (concat ?ds) \<le> max_size" by (simp add: empty_pstate_ok max_size_def)
  from packages_roundtrip [OF fs ds empty_pstate_ok(1,2) this] show ?thesis by auto
qed

end
