(* ===== verification/TcpStream.thy ===== *)
theory TcpStream
  imports TcpConnection
begin

text \<open>
  Two ends of one TCP connection: the \<open>TcpConnection\<close> that sends, the \<open>TcpConnection\<close> that receives, and
  between them what TCP promises: the receiver's kernel delivers, in pieces of any size, a prefix of
  the bytes the sender's kernel took.
\<close>

section \<open>A link\<close>

text \<open>\<open>delivered\<close> bytes of what the sender wrote have been read; \<open>got\<close> is what the receiving client took out of the buffer.\<close>

record link =
  sender :: tcpconn
  receiver :: tcpconn
  delivered :: nat
  got :: "byte list"

definition in_flight :: "link \<Rightarrow> byte list" where
  "in_flight l = drop (delivered l) (written (sender l))"

text \<open>\<open>readv\<close> on the receiver's socket when the kernel has at most \<open>k\<close> bytes at hand.\<close>

definition link_readv :: "nat \<Rightarrow> link \<Rightarrow> nat list \<Rightarrow> byte list sys" where
  "link_readv k l iov =
     (let d = take (min k (sum_list iov)) (in_flight l) in if d = [] then SysErr EWOULDBLOCK else SysOk d)"

text \<open>The sender sends or its socket is writable; the receiver's socket is readable; the client takes up to \<open>n\<close> bytes.\<close>

datatype link_op = Out out_op | Readable nat int | Take nat

fun link_step :: "link_op \<Rightarrow> link \<Rightarrow> link res" where
  "link_step (Out x) l = bindR (out_step x (sender l)) (\<lambda>c. Ok (l\<lparr>sender := c\<rparr>))"
| "link_step (Readable k now) l =
     bindR (handleRead quiet (link_readv k l) now (receiver l)) (\<lambda>c.
       Ok (l\<lparr>receiver := c, delivered := delivered l +
         (case link_readv k l (readFd_iov (inBuf (receiver l))) of SysErr e \<Rightarrow> 0 | SysOk d \<Rightarrow> length d)\<rparr>))"
| "link_step (Take n) l =
     bindR (retrieveAsString (min n (readableBytes (inBuf (receiver l)))) (inBuf (receiver l))) (\<lambda>(bs, b).
       Ok (l\<lparr>receiver := (receiver l)\<lparr>inBuf := b\<rparr>, got := got l @ bs\<rparr>))"

definition link_run :: "link_op list \<Rightarrow> link \<Rightarrow> link res" where
  "link_run = run_steps link_step"

fun link_given :: "link_op \<Rightarrow> byte list" where
  "link_given (Out x) = given_by x"
| "link_given (Readable k now) = []"
| "link_given (Take n) = []"

fun link_op_ok :: "link_op \<Rightarrow> bool" where
  "link_op_ok (Out x) \<longleftrightarrow> out_op_ok x"
| "link_op_ok (Readable k now) \<longleftrightarrow> True"
| "link_op_ok (Take n) \<longleftrightarrow> True"

definition link_sent :: "link_op list \<Rightarrow> byte list" where
  "link_sent xs = concat (map link_given xs)"

section \<open>The invariant\<close>

text \<open>\<open>n\<close> is how many bytes may still be sent.\<close>

definition link_ok :: "nat \<Rightarrow> link \<Rightarrow> bool" where
  "link_ok n l \<longleftrightarrow> (\<exists>wr. conn_ok wr (sender l)) \<and> (\<exists>wr. conn_ok wr (receiver l))
     \<and> delivered l \<le> length (written (sender l))
     \<and> writerIndex (outBuf (sender l)) + n \<le> max_size
     \<and> writerIndex (inBuf (receiver l)) + length (in_flight l) + length (content (outBuf (sender l))) + n \<le> max_size"

definition carried :: "link \<Rightarrow> byte list" where
  "carried l = got l @ content (inBuf (receiver l)) @ in_flight l @ content (outBuf (sender l))"

lemma conn_ok_inBuf: "conn_ok wr c \<Longrightarrow> buf_inv b \<Longrightarrow> conn_ok wr (c\<lparr>inBuf := b\<rparr>)"
  by (simp add: conn_ok_def)

text \<open>A read that delivers bytes, and one that finds none.\<close>

lemma handleRead_data:
  assumes ok: "conn_ok wr c" and r: "readv (readFd_iov (inBuf c)) = SysOk d" and ne: "d \<noteq> []"
    and room: "writerIndex (inBuf c) + length d \<le> max_size"
  obtains c' where "handleRead quiet readv now c = Ok c'" and "conn_ok wr c'"
    and "content (inBuf c') = content (inBuf c) @ d" and "writerIndex (inBuf c') \<le> writerIndex (inBuf c) + length d"
    and "outBuf c' = outBuf c" and "written c' = written c" and "activedTime c' = now"
proof -
  obtain b where b: "readFd readv (inBuf c) = Ok (int (length d), b)" "buf_inv b" "content b = content (inBuf c) @ d"
    "writerIndex b \<le> writerIndex (inBuf c) + length d"
    using readFd_load [of "inBuf c" readv d] conn_okD(3) [OF ok] r room by blast
  let ?c = "c\<lparr>inBuf := b, activedTime := now\<rparr>"
  let ?c' = "if RecvMessage \<in> hooked c then ?c\<lparr>ctrace := ctrace c @ [RecvMessage]\<rparr> else ?c"
  have "handleRead quiet readv now c = Ok ?c'"
    using b(1) ne by (simp add: handleRead_def conn_okD(1) [OF ok] call_back_def)
  moreover have "conn_ok wr ?c'" using ok b(2) by (simp add: conn_ok_def)
  ultimately show ?thesis using b(3,4) that [of ?c'] by simp
qed

lemma handleRead_nothing:
  assumes ok: "conn_ok wr c" and r: "readv (readFd_iov (inBuf c)) = SysErr e"
  shows "handleRead quiet readv now c = Ok c"
  using readFd_error [of readv "inBuf c", OF r] by (simp add: handleRead_def handleError_def conn_okD(1) [OF ok])

text \<open>The kernel never gives bytes back.\<close>

lemma buffer_rest_written: "buffer_rest data n r e c = Ok c' \<Longrightarrow> written c' = written c"
  by (auto simp: buffer_rest_def on_net_def assertR_eq_Ok split: if_splits)

lemma on_net_written: "on_net f c = Ok c' \<Longrightarrow> written c' = written c"
  by (auto simp: on_net_def)

lemma call_back_quiet: "call_back quiet ev c = Ok c' \<Longrightarrow> written c' = written c"
  by (auto simp: call_back_def split: if_splits)

lemma in_loop_OkD: "in_loop c k = Ok x \<Longrightarrow> k = Ok x"
  by (simp add: in_loop_def split: if_splits)

lemma sendInLoop_written: "sendInLoop write data c = Ok c' \<Longrightarrow> \<exists>bs. written c' = written c @ bs"
  by (auto simp: sendInLoop_def writeInLoop_def Let_def
      dest!: in_loop_OkD buffer_rest_written split: if_splits sys.splits)

lemma handleWrite_written: "handleWrite quiet write c = Ok c' \<Longrightarrow> \<exists>bs. written c' = written c @ bs"
  by (auto simp: handleWrite_def writeInLoop_def
      dest!: in_loop_OkD on_net_written call_back_quiet split: if_splits sys.splits)

section \<open>Every step keeps the stream\<close>

lemma out_link:
  assumes ok: "link_ok (length (given_by x) + n) l" and x: "out_op_ok x"
  shows "\<exists>l'. link_step (Out x) l = Ok l' \<and> link_ok n l' \<and> carried l' = carried l @ given_by x"
proof -
  let ?s = "sender l"
  have "out_inv ?s (length (given_by x) + n) ?s" using ok by (auto simp: link_ok_def out_inv_def same_conn_def)
  from tcp_out.step_ok [OF this x] obtain c where
    c: "out_step x ?s = Ok c" "out_inv ?s n c" "stream c = stream ?s @ given_by x" by blast
  obtain bs where bs: "written c = written ?s @ bs"
    using c(1) by (cases x) (auto dest: sendInLoop_written handleWrite_written)
  let ?l = "l\<lparr>sender := c\<rparr>"
  have out: "bs @ content (outBuf c) = content (outBuf ?s) @ given_by x" using c(3) bs by (simp add: stream_def)
  have fl: "in_flight ?l = in_flight l @ bs" using bs ok by (simp add: in_flight_def link_ok_def)
  have "length bs + length (content (outBuf c)) = length (content (outBuf ?s)) + length (given_by x)"
    using arg_cong [OF out, of length] by simp
  then have "link_ok n ?l" using ok c(2) bs fl by (auto simp: link_ok_def out_inv_def)
  moreover have "carried ?l = carried l @ given_by x" using fl out by (simp add: carried_def)
  ultimately show ?thesis using c(1) by simp
qed

lemma readable_link:
  assumes ok: "link_ok n l"
  shows "\<exists>l'. link_step (Readable k now) l = Ok l' \<and> link_ok n l' \<and> carried l' = carried l"
proof -
  let ?r = "receiver l" and ?d = "take (min k (sum_list (readFd_iov (inBuf (receiver l))))) (in_flight l)"
  obtain wr where r: "conn_ok wr ?r" using ok by (auto simp: link_ok_def)
  show ?thesis
  proof (cases "?d = []")
    case True
    then have rv: "link_readv k l (readFd_iov (inBuf ?r)) = SysErr EWOULDBLOCK" by (simp add: link_readv_def)
    have "link_step (Readable k now) l = Ok (l\<lparr>receiver := ?r, delivered := delivered l + 0\<rparr>)"
      by (simp add: handleRead_nothing [of wr ?r "link_readv k l", OF r rv] rv)
    then have "link_step (Readable k now) l = Ok l" by simp
    then show ?thesis using ok by simp
  next
    case False
    then have rv: "link_readv k l (readFd_iov (inBuf ?r)) = SysOk ?d" by (simp add: link_readv_def Let_def)
    have "length ?d \<le> length (in_flight l)" by simp
    then have room: "writerIndex (inBuf ?r) + length ?d \<le> max_size" using ok unfolding link_ok_def by linarith
    obtain c where c: "handleRead quiet (link_readv k l) now ?r = Ok c" "conn_ok wr c"
      "content (inBuf c) = content (inBuf ?r) @ ?d" "writerIndex (inBuf c) \<le> writerIndex (inBuf ?r) + length ?d"
      by (rule handleRead_data [where readv = "link_readv k l" and d = ?d and now = now, OF r rv False room])
    let ?l = "l\<lparr>receiver := c, delivered := delivered l + length ?d\<rparr>"
    have "in_flight ?l = drop (min k (sum_list (readFd_iov (inBuf ?r)))) (in_flight l)"
      by (simp add: in_flight_def min_def add.commute)
    then have fl: "in_flight l = ?d @ in_flight ?l" by simp
    have "length (in_flight l) = length ?d + length (in_flight ?l)" using arg_cong [OF fl, of length] by simp
    moreover have "delivered l + length ?d \<le> length (written (sender l))"
      using ok unfolding link_ok_def in_flight_def length_take length_drop by linarith
    ultimately have "link_ok n ?l" using ok c(2,4) by (auto simp: link_ok_def)
    moreover have "carried ?l = carried l" using c(3) fl by (simp add: carried_def)
    moreover have "link_step (Readable k now) l = Ok ?l" using c(1) rv by simp
    ultimately show ?thesis by blast
  qed
qed

lemma take_link:
  assumes ok: "link_ok n l"
  shows "\<exists>l'. link_step (Take k) l = Ok l' \<and> link_ok n l' \<and> carried l' = carried l"
proof -
  let ?r = "receiver l" and ?k = "min k (readableBytes (inBuf (receiver l)))"
  obtain wr where r: "conn_ok wr ?r" using ok by (auto simp: link_ok_def)
  note inv = conn_okD(3) [OF r]
  have "?k \<le> length (content (inBuf ?r))" using inv by (simp add: readable_content)
  then obtain b where b: "retrieveAsString ?k (inBuf ?r) = Ok (take ?k (content (inBuf ?r)), b)" "buf_inv b"
    "content b = drop ?k (content (inBuf ?r))" "writerIndex b \<le> writerIndex (inBuf ?r)"
    using bq.pop_Ok [OF inv] by blast
  let ?l = "l\<lparr>receiver := ?r\<lparr>inBuf := b\<rparr>, got := got l @ take ?k (content (inBuf ?r))\<rparr>"
  have "link_step (Take k) l = Ok ?l" using b(1) by simp
  moreover have "link_ok n ?l" using ok b(4) conn_ok_inBuf [OF r b(2)] by (auto simp: link_ok_def in_flight_def)
  moreover have "carried ?l = carried l" using b(3) by (simp add: carried_def in_flight_def)
  ultimately show ?thesis by blast
qed

interpretation tcp_link: byte_stream link_ok carried link_op_ok link_given link_step
proof
  fix x n l
  assume "link_ok (length (link_given x) + n) l" and "link_op_ok x"
  then show "\<exists>l'. link_step x l = Ok l' \<and> link_ok n l' \<and> carried l' = carried l @ link_given x"
    using out_link [of _ n l] readable_link [of n l] take_link [of n l]
    by (cases x) (simp_all del: link_step.simps)
qed

section \<open>Property\<close>

text \<open>
  C1. From \<open>send\<close> to the receiving client the byte stream arrives intact: however sends, writable and
  readable events and the client's reads interleave, whatever each \<open>write\<close> takes and in whatever
  pieces the network delivers, what the receiver got, its input buffer, what is under way and the
  sender's output buffer are together what they were before and what was sent, in order.
\<close>

theorem stream_end_to_end:
  assumes "link_ok (length (link_sent xs)) l" and "list_all link_op_ok xs"
  shows "\<exists>l'. link_run xs l = Ok l' \<and> link_ok 0 l'
    \<and> got l' @ content (inBuf (receiver l')) @ in_flight l' @ content (outBuf (sender l'))
      = got l @ content (inBuf (receiver l)) @ in_flight l @ content (outBuf (sender l)) @ link_sent xs"
  using tcp_link.run_ok [of xs 0 l] assms by (simp add: carried_def link_run_def link_sent_def)

lemma demo_link:
  assumes "n \<le> max_size"
  obtains c where "link_ok n \<lparr>sender = c, receiver = c, delivered = 0, got = []\<rparr>"
    and "carried \<lparr>sender = c, receiver = c, delivered = 0, got = []\<rparr> = []"
proof -
  obtain c where c: "conn_ok False c" "content (outBuf c) = []" "writerIndex (outBuf c) = 0" "written c = []"
    "inBuf c = inBuf demo_conn"
    by (rule demo_established)
  have "content (inBuf c) = []" "writerIndex (inBuf c) = 0" using c(5) by (simp_all add: demo_conn_def content_def)
  then show ?thesis using c assms by (intro that [of c]) (auto simp: link_ok_def carried_def in_flight_def)
qed

lemma stream_end_to_end_witness:
  "\<exists>l l'. link_run [Out (Send [1, 2, 3] (\<lambda>d. SysOk (min 1 (length d)))), Readable 5 7,
      Out (Writable (\<lambda>d. SysOk (length d))), Take 1, Out (Send [4] (\<lambda>d. SysErr EWOULDBLOCK)), Readable 1 8] l = Ok l'
    \<and> got l' @ content (inBuf (receiver l')) @ in_flight l' @ content (outBuf (sender l')) = [1, 2, 3, 4]"
proof -
  let ?xs = "[Out (Send [1, 2, 3] (\<lambda>d. SysOk (min 1 (length d)))), Readable 5 7,
      Out (Writable (\<lambda>d. SysOk (length d))), Take 1, Out (Send [4] (\<lambda>d. SysErr EWOULDBLOCK)), Readable 1 8]"
  obtain c where c: "link_ok 4 \<lparr>sender = c, receiver = c, delivered = 0, got = []\<rparr>"
    "carried \<lparr>sender = c, receiver = c, delivered = 0, got = []\<rparr> = []"
    by (rule demo_link [of 4]) (simp add: max_size_def)
  have sent: "link_sent ?xs = [1, 2, 3, 4]" by (simp add: link_sent_def)
  have w: "list_all link_op_ok ?xs" by (simp add: write_ok_def EWOULDBLOCK_def EPIPE_def ECONNRESET_def)
  let ?l = "\<lparr>sender = c, receiver = c, delivered = 0, got = []\<rparr>"
  have "link_ok (length (link_sent ?xs)) ?l" unfolding sent using c(1) by (simp add: eval_nat_numeral)
  from stream_end_to_end [OF this w] c(2)
  show ?thesis unfolding sent carried_def by auto
qed

end
