(* ===== verification/Binder.thy ===== *)
theory Binder
  imports Prelude
begin

text \<open>
  \<open>base/ObjectBinder.h\<close>: a slot that holds a copy of a \<open>shared_ptr\<close>, a \<open>weak_ptr\<close> or a raw pointer behind a
  \<open>void*\<close>, with the function that deletes what the slot owns. The state keeps the allocated cells and
  the number of owners of every shared object.
\<close>

section \<open>State and operations\<close>

datatype cell = SharedCell nat | WeakCell nat | RawCell nat

datatype cell_kind = KShared | KWeak | KRaw

fun kind_of :: "cell \<Rightarrow> cell_kind" where
  "kind_of (SharedCell x) = KShared"
| "kind_of (WeakCell x) = KWeak"
| "kind_of (RawCell x) = KRaw"

record cells =
  cell_at :: "nat \<Rightarrow> cell option"
  owners :: "nat \<Rightarrow> nat"

record objbinder =
  bpointer :: "nat option"
  deleter :: "cell_kind option"

definition newBinder :: objbinder where
  "newBinder = \<lparr>bpointer = None, deleter = None\<rparr>"

text \<open>\<open>p\<close> is the address of the new cell, \<open>x\<close> the object.\<close>

definition bindShared :: "nat \<Rightarrow> nat \<Rightarrow> objbinder \<times> cells \<Rightarrow> objbinder \<times> cells" where
  "bindShared p x = (\<lambda>(b, h). (b\<lparr>bpointer := Some p, deleter := Some KShared\<rparr>,
     h\<lparr>cell_at := (cell_at h)(p \<mapsto> SharedCell x), owners := (owners h)(x := Suc (owners h x))\<rparr>))"

definition bindWeak :: "nat \<Rightarrow> nat \<Rightarrow> objbinder \<times> cells \<Rightarrow> objbinder \<times> cells" where
  "bindWeak p x = (\<lambda>(b, h). (b\<lparr>bpointer := Some p, deleter := Some KWeak\<rparr>,
     h\<lparr>cell_at := (cell_at h)(p \<mapsto> WeakCell x)\<rparr>))"

text \<open>A raw object is its own cell.\<close>

definition bindRaw :: "nat \<Rightarrow> objbinder \<times> cells \<Rightarrow> objbinder \<times> cells" where
  "bindRaw p = (\<lambda>(b, h). (b\<lparr>bpointer := Some p, deleter := Some KRaw\<rparr>, h))"

text \<open>Deleting a cell as the kind \<open>k\<close>.\<close>

definition PointerDeleter :: "cell_kind \<Rightarrow> nat \<Rightarrow> cells \<Rightarrow> cells res" where
  "PointerDeleter k p h = (case cell_at h p of
     None \<Rightarrow> Fail UseAfterFree
   | Some c \<Rightarrow>
       if kind_of c \<noteq> k then Fail BadCast
       else let h1 = h\<lparr>cell_at := (cell_at h)(p := None)\<rparr>
            in Ok (case c of SharedCell x \<Rightarrow> h1\<lparr>owners := (owners h1)(x := owners h1 x - 1)\<rparr> | _ \<Rightarrow> h1))"

definition unbindObject :: "objbinder \<times> cells \<Rightarrow> (objbinder \<times> cells) res" where
  "unbindObject = (\<lambda>(b, h). case bpointer b of
     None \<Rightarrow> Ok (b, h)
   | Some p \<Rightarrow> (case deleter b of
       None \<Rightarrow> Fail NullDeref
     | Some k \<Rightarrow> bindR (PointerDeleter k p h) (\<lambda>h1. Ok (b\<lparr>bpointer := None\<rparr>, h1))))"

definition deleteBinder :: "objbinder \<times> cells \<Rightarrow> cells res" where
  "deleteBinder s = bindR (unbindObject s) (\<lambda>(b, h). Ok h)"

text \<open>The casts are unchecked; a weak pointer gives its object only while somebody owns it.\<close>

definition cast_cell :: "cell_kind \<Rightarrow> objbinder \<times> cells \<Rightarrow> cell res" where
  "cast_cell k = (\<lambda>(b, h). case bpointer b of
     None \<Rightarrow> Fail NullDeref
   | Some p \<Rightarrow> (case cell_at h p of
       None \<Rightarrow> Fail UseAfterFree
     | Some c \<Rightarrow> if kind_of c = k then Ok c else Fail BadCast))"

definition objectFromShared :: "objbinder \<times> cells \<Rightarrow> nat res" where
  "objectFromShared s = bindR (cast_cell KShared s) (\<lambda>c. case c of SharedCell x \<Rightarrow> Ok x | _ \<Rightarrow> Fail BadCast)"

definition objectFromWeak :: "objbinder \<times> cells \<Rightarrow> nat option res" where
  "objectFromWeak s = bindR (cast_cell KWeak s) (\<lambda>c. case c of
     WeakCell x \<Rightarrow> Ok (if 0 < owners (snd s) x then Some x else None) | _ \<Rightarrow> Fail BadCast)"

definition objectFromRaw :: "objbinder \<times> cells \<Rightarrow> nat option" where
  "objectFromRaw s = bpointer (fst s)"

section \<open>Balance\<close>

lemma bind_shared_balanced:
  assumes "bpointer b = None" and "cell_at h p = None"
  shows "objectFromShared (bindShared p x (b, h)) = Ok x"
    and "owners (snd (bindShared p x (b, h))) x = Suc (owners h x)"
    and "deleteBinder (bindShared p x (b, h)) = Ok h"
proof -
  show "objectFromShared (bindShared p x (b, h)) = Ok x"
    by (simp add: bindShared_def objectFromShared_def cast_cell_def)
  show "owners (snd (bindShared p x (b, h))) x = Suc (owners h x)" by (simp add: bindShared_def)
  have "(cell_at h)(p := None) = cell_at h" using assms(2) by auto
  then show "deleteBinder (bindShared p x (b, h)) = Ok h"
    by (simp add: bindShared_def deleteBinder_def unbindObject_def PointerDeleter_def Let_def)
qed

lemma bind_weak_balanced:
  assumes "bpointer b = None" and "cell_at h p = None"
  shows "objectFromWeak (bindWeak p x (b, h)) = Ok (if 0 < owners h x then Some x else None)"
    and "deleteBinder (bindWeak p x (b, h)) = Ok h"
proof -
  show "objectFromWeak (bindWeak p x (b, h)) = Ok (if 0 < owners h x then Some x else None)"
    by (simp add: bindWeak_def objectFromWeak_def cast_cell_def)
  have "(cell_at h)(p := None) = cell_at h" using assms(2) by auto
  then show "deleteBinder (bindWeak p x (b, h)) = Ok h"
    by (simp add: bindWeak_def deleteBinder_def unbindObject_def PointerDeleter_def Let_def)
qed

text \<open>
  Binding a second time forgets the first cell without deleting it: the first object keeps an owner
  for ever, even when the slot itself is gone.
\<close>

theorem rebinding_leaks:
  assumes "bpointer b = None" and "cell_at h p = None" and "cell_at h q = None" and "p \<noteq> q" and "x \<noteq> y"
  shows "\<exists>h'. deleteBinder (bindShared q y (bindShared p x (b, h))) = Ok h' \<and> cell_at h' p = Some (SharedCell x)
    \<and> owners h' x = Suc (owners h x) \<and> owners h' y = owners h y"
  using assms by (simp add: bindShared_def deleteBinder_def unbindObject_def PointerDeleter_def Let_def)

end
