(* ===== verification/KcpSegment.thy ===== *)
theory KcpSegment
  imports NetBytes
begin

text \<open>
  The segments of KCP, the ARQ protocol of \<open>third/ikcp.h\<close> and \<open>third/ikcp.cpp\<close>: their fields, their layout in
  a datagram, and the comparison of sequence numbers and times that wrap around. The host is
  little-endian, so \<open>ikcp_encode32u\<close> stores an integer as it lies in memory.
\<close>

section \<open>Constants\<close>

type_synonym u32 = "32 word"

definition IKCP_RTO_NDL :: int where "IKCP_RTO_NDL = 30"
definition IKCP_RTO_MIN :: int where "IKCP_RTO_MIN = 100"
definition IKCP_RTO_DEF :: int where "IKCP_RTO_DEF = 200"
definition IKCP_RTO_MAX :: u32 where "IKCP_RTO_MAX = 60000"
definition IKCP_CMD_PUSH :: u32 where "IKCP_CMD_PUSH = 81"
definition IKCP_CMD_ACK :: u32 where "IKCP_CMD_ACK = 82"
definition IKCP_CMD_WASK :: u32 where "IKCP_CMD_WASK = 83"
definition IKCP_CMD_WINS :: u32 where "IKCP_CMD_WINS = 84"
definition IKCP_ASK_SEND :: u32 where "IKCP_ASK_SEND = 1"
definition IKCP_ASK_TELL :: u32 where "IKCP_ASK_TELL = 2"
definition IKCP_WND_SND :: u32 where "IKCP_WND_SND = 32"
definition IKCP_WND_RCV :: u32 where "IKCP_WND_RCV = 32"
definition IKCP_MTU_DEF :: u32 where "IKCP_MTU_DEF = 1400"
definition IKCP_INTERVAL :: u32 where "IKCP_INTERVAL = 100"
definition IKCP_OVERHEAD :: nat where "IKCP_OVERHEAD = 24"
definition IKCP_DEADLINK :: u32 where "IKCP_DEADLINK = 20"
definition IKCP_THRESH_INIT :: u32 where "IKCP_THRESH_INIT = 2"
definition IKCP_THRESH_MIN :: u32 where "IKCP_THRESH_MIN = 2"
definition IKCP_PROBE_INIT :: u32 where "IKCP_PROBE_INIT = 7000"
definition IKCP_PROBE_LIMIT :: u32 where "IKCP_PROBE_LIMIT = 120000"

lemmas kcp_commands = IKCP_CMD_PUSH_def IKCP_CMD_ACK_def IKCP_CMD_WASK_def IKCP_CMD_WINS_def

section \<open>Encoding\<close>

definition ikcp_encode8u :: "8 word \<Rightarrow> byte list" where
  "ikcp_encode8u c = [c]"

definition ikcp_encode16u :: "16 word \<Rightarrow> byte list" where
  "ikcp_encode16u w = mem_bytes w"

definition ikcp_encode32u :: "u32 \<Rightarrow> byte list" where
  "ikcp_encode32u l = mem_bytes l"

text \<open>Reading behind the bytes given is a fault; the rest is what the returned pointer points to.\<close>

definition decode_bytes :: "nat \<Rightarrow> byte list \<Rightarrow> ('a::len word \<times> byte list) res" where
  "decode_bytes n p = (if n \<le> length p then Ok (of_mem (take n p), drop n p) else Fail OutOfBounds)"

definition ikcp_decode8u :: "byte list \<Rightarrow> (8 word \<times> byte list) res" where
  "ikcp_decode8u p = decode_bytes 1 p"

definition ikcp_decode16u :: "byte list \<Rightarrow> (16 word \<times> byte list) res" where
  "ikcp_decode16u p = decode_bytes 2 p"

definition ikcp_decode32u :: "byte list \<Rightarrow> (u32 \<times> byte list) res" where
  "ikcp_decode32u p = decode_bytes 4 p"

lemma decode_encode8u [simp]: "ikcp_decode8u (ikcp_encode8u c @ p) = Ok (c, p)"
  by (simp add: ikcp_decode8u_def ikcp_encode8u_def decode_bytes_def)

lemma decode_encode16u [simp]: "ikcp_decode16u (ikcp_encode16u w @ p) = Ok (w, p)"
  by (simp add: ikcp_decode16u_def ikcp_encode16u_def decode_bytes_def)

lemma decode_encode32u [simp]: "ikcp_decode32u (ikcp_encode32u l @ p) = Ok (l, p)"
  by (simp add: ikcp_decode32u_def ikcp_encode32u_def decode_bytes_def)

lemma length_encode [simp]:
  "length (ikcp_encode8u c) = 1" "length (ikcp_encode16u w) = 2" "length (ikcp_encode32u l) = 4"
  by (simp_all add: ikcp_encode8u_def ikcp_encode16u_def ikcp_encode32u_def)

section \<open>Sequence numbers and times\<close>

definition itimediff :: "u32 \<Rightarrow> u32 \<Rightarrow> int" where
  "itimediff later earlier = sint (later - earlier)"

definition ibound :: "u32 \<Rightarrow> u32 \<Rightarrow> u32 \<Rightarrow> u32" where
  "ibound lower middle upper = min (max lower middle) upper"

lemma itimediff_exact:
  assumes "- (2 ^ 31) \<le> a - b" and "a - b < 2 ^ 31"
  shows "itimediff (of_int a) (of_int b) = a - b"
proof -
  have "itimediff (of_int a) (of_int b) = sint (of_int (a - b) :: u32)" by (simp add: itimediff_def)
  also have "\<dots> = signed_take_bit 31 (a - b)" by (simp only: signed_of_int) simp
  also have "\<dots> = a - b" using assms by (intro signed_take_bit_int_eq_self) simp_all
  finally show ?thesis .
qed

lemma itimediff_near:
  assumes "i < 2 ^ 31" and "j < 2 ^ 31"
  shows "itimediff (of_nat i) (of_nat j) = int i - int j"
  using itimediff_exact [of "int i" "int j"] assms by simp

lemma of_nat_u32_eq:
  assumes "i < 2 ^ 31" and "j < 2 ^ 31"
  shows "(of_nat i :: u32) = of_nat j \<longleftrightarrow> i = j"
  using itimediff_near [OF assms] by (auto simp: itimediff_def)

lemma itimediff_trans:
  assumes "- (2 ^ 31) \<le> itimediff a b + itimediff b c" and "itimediff a b + itimediff b c < 2 ^ 31"
  shows "itimediff a c = itimediff a b + itimediff b c"
proof -
  have "a - c = of_int (itimediff a b + itimediff b c)" by (simp add: itimediff_def)
  then have "itimediff a c = itimediff (of_int (itimediff a b + itimediff b c)) (of_int 0)"
    unfolding itimediff_def [of a c] itimediff_def [of "of_int (itimediff a b + itimediff b c)"] by simp
  also have "\<dots> = itimediff a b + itimediff b c - 0" using assms by (intro itimediff_exact) simp_all
  finally show ?thesis by simp
qed

lemma itimediff_range: "- (2 ^ 31) \<le> itimediff a b" "itimediff a b < 2 ^ 31"
  using sint_greater_eq [of "a - b"] sint_less [of "a - b"] by (simp_all add: itimediff_def)

lemma itimediff_swap: "- (2 ^ 31) < itimediff a b \<Longrightarrow> itimediff b a = - itimediff a b"
proof -
  assume "- (2 ^ 31) < itimediff a b"
  then have "itimediff (of_int (- itimediff a b)) (of_int 0) = - itimediff a b - 0"
    using itimediff_range [of a b] by (intro itimediff_exact) linarith+
  moreover have "itimediff (of_int (- itimediff a b)) (of_int 0) = itimediff b a" by (simp add: itimediff_def)
  ultimately show ?thesis by simp
qed

section \<open>Segments\<close>

record kseg =
  s_conv :: u32
  s_cmd :: u32
  s_frg :: u32
  s_wnd :: u32
  s_ts :: u32
  s_sn :: u32
  s_una :: u32
  s_len :: u32
  s_resendts :: u32
  s_rto :: u32
  s_fastack :: u32
  s_xmit :: u32
  s_data :: "byte list"

text \<open>A segment of \<open>ikcp_send\<close>: the other fields are set when it gets its number.\<close>

definition new_seg :: "u32 \<Rightarrow> byte list \<Rightarrow> kseg" where
  "new_seg f bs = \<lparr>s_conv = 0, s_cmd = 0, s_frg = f, s_wnd = 0, s_ts = 0, s_sn = 0, s_una = 0,
     s_len = of_nat (length bs), s_resendts = 0, s_rto = 0, s_fastack = 0, s_xmit = 0, s_data = bs\<rparr>"

definition ikcp_encode_seg :: "kseg \<Rightarrow> byte list" where
  "ikcp_encode_seg seg =
     ikcp_encode32u (s_conv seg) @ ikcp_encode8u (ucast (s_cmd seg)) @ ikcp_encode8u (ucast (s_frg seg)) @
     ikcp_encode16u (ucast (s_wnd seg)) @ ikcp_encode32u (s_ts seg) @ ikcp_encode32u (s_sn seg) @
     ikcp_encode32u (s_una seg) @ ikcp_encode32u (s_len seg)"

lemma length_encode_seg [simp]: "length (ikcp_encode_seg seg) = IKCP_OVERHEAD"
  by (simp add: ikcp_encode_seg_def IKCP_OVERHEAD_def)

record khdr =
  h_cmd :: "8 word"
  h_frg :: "8 word"
  h_wnd :: "16 word"
  h_ts :: u32
  h_sn :: u32
  h_una :: u32
  h_len :: u32

text \<open>The header behind \<open>conv\<close>, as \<open>ikcp_input\<close> reads it.\<close>

definition decode_header :: "byte list \<Rightarrow> (khdr \<times> byte list) res" where
  "decode_header p0 =
     bindR (ikcp_decode8u p0) (\<lambda>(cmd, p1). bindR (ikcp_decode8u p1) (\<lambda>(frg, p2).
     bindR (ikcp_decode16u p2) (\<lambda>(wnd, p3). bindR (ikcp_decode32u p3) (\<lambda>(ts, p4).
     bindR (ikcp_decode32u p4) (\<lambda>(sn, p5). bindR (ikcp_decode32u p5) (\<lambda>(una, p6).
     bindR (ikcp_decode32u p6) (\<lambda>(len, p7).
       Ok (\<lparr>h_cmd = cmd, h_frg = frg, h_wnd = wnd, h_ts = ts, h_sn = sn, h_una = una, h_len = len\<rparr>, p7))))))))"

definition header_of :: "kseg \<Rightarrow> khdr" where
  "header_of seg = \<lparr>h_cmd = ucast (s_cmd seg), h_frg = ucast (s_frg seg), h_wnd = ucast (s_wnd seg), h_ts = s_ts seg,
     h_sn = s_sn seg, h_una = s_una seg, h_len = s_len seg\<rparr>"

lemma decode_encode_seg:
  "\<exists>p. ikcp_decode32u (ikcp_encode_seg seg @ bs) = Ok (s_conv seg, p) \<and> decode_header p = Ok (header_of seg, bs)"
  by (simp add: ikcp_encode_seg_def decode_header_def header_of_def)

text \<open>Enough bytes are read without a fault.\<close>

lemma decode_bytes_ok: "n \<le> length p \<Longrightarrow> decode_bytes n p = Ok (of_mem (take n p), drop n p)"
  by (simp add: decode_bytes_def)

lemma decode_header_ok:
  assumes "20 \<le> length p"
  shows "\<exists>h. decode_header p = Ok (h, drop 20 p)"
  using assms by (simp add: decode_header_def ikcp_decode8u_def ikcp_decode16u_def ikcp_decode32u_def decode_bytes_ok)

definition ikcp_getconv :: "byte list \<Rightarrow> u32 res" where
  "ikcp_getconv p = bindR (ikcp_decode32u p) (\<lambda>(conv, p1). Ok conv)"

lemma getconv_encode_seg [simp]: "ikcp_getconv (ikcp_encode_seg seg @ bs) = Ok (s_conv seg)"
  by (simp add: ikcp_getconv_def ikcp_encode_seg_def)

end
