(* ===== verification/Kcp.thy ===== *)
theory Kcp
  imports KcpSegment "HOL-Library.Signed_Division"
begin

text \<open>
  The operations of KCP, \<open>third/ikcp.cpp\<close>. The doubly linked queues are lists of segments (in memory: \<open>KcpHeap\<close>), front first; a
  segment is in one queue at a time. Counters of list cells and buffer sizes are natural numbers, all
  other integers have their width; \<open>IINT32\<close> values are integers with the wrap-around of the target written
  out as \<open>i32\<close>. Allocation succeeds, log texts are left out, and \<open>ikcp_output\<close> collects the datagrams.
\<close>

section \<open>The control block\<close>

record ikcpcb =
  kconv :: u32
  kmtu :: u32
  kmss :: u32
  kstate :: int
  snd_una :: u32
  snd_nxt :: u32
  rcv_nxt :: u32
  ssthresh :: u32
  rx_rttval :: int
  rx_srtt :: int
  rx_rto :: int
  rx_minrto :: int
  snd_wnd :: u32
  rcv_wnd :: u32
  rmt_wnd :: u32
  cwnd :: u32
  kprobe :: u32
  kcurrent :: u32
  kinterval :: u32
  ts_flush :: u32
  kxmit :: u32
  nrcv_buf :: nat
  nsnd_buf :: nat
  nrcv_que :: nat
  nsnd_que :: nat
  nodelay :: u32
  updated :: bool
  ts_probe :: u32
  probe_wait :: u32
  dead_link :: u32
  kincr :: u32
  snd_queue :: "kseg list"
  rcv_queue :: "kseg list"
  snd_buf :: "kseg list"
  rcv_buf :: "kseg list"
  acklist :: "(u32 \<times> u32) list"
  ackcount :: nat
  ackblock :: nat
  kbuffer :: nat
  fastresend :: int
  nocwnd :: int
  kstream :: int
  koutput :: bool

text \<open>The size of the output buffer that \<open>ikcp_create\<close> and \<open>ikcp_setmtu\<close> allocate.\<close>

definition buffer_size :: "u32 \<Rightarrow> nat" where
  "buffer_size mtu = unat ((mtu + of_nat IKCP_OVERHEAD) * 3)"

definition ikcp_create :: "u32 \<Rightarrow> ikcpcb" where
  "ikcp_create conv = \<lparr>kconv = conv, kmtu = IKCP_MTU_DEF, kmss = IKCP_MTU_DEF - of_nat IKCP_OVERHEAD, kstate = 0,
     snd_una = 0, snd_nxt = 0, rcv_nxt = 0, ssthresh = IKCP_THRESH_INIT,
     rx_rttval = 0, rx_srtt = 0, rx_rto = IKCP_RTO_DEF, rx_minrto = IKCP_RTO_MIN,
     snd_wnd = IKCP_WND_SND, rcv_wnd = IKCP_WND_RCV, rmt_wnd = IKCP_WND_RCV, cwnd = 0, kprobe = 0,
     kcurrent = 0, kinterval = IKCP_INTERVAL, ts_flush = IKCP_INTERVAL, kxmit = 0,
     nrcv_buf = 0, nsnd_buf = 0, nrcv_que = 0, nsnd_que = 0, nodelay = 0, updated = False,
     ts_probe = 0, probe_wait = 0, dead_link = IKCP_DEADLINK, kincr = 0,
     snd_queue = [], rcv_queue = [], snd_buf = [], rcv_buf = [], acklist = [], ackcount = 0, ackblock = 0,
     kbuffer = buffer_size IKCP_MTU_DEF, fastresend = 0, nocwnd = 0, kstream = 0, koutput = False\<rparr>"

definition ikcp_setoutput :: "bool \<Rightarrow> ikcpcb \<Rightarrow> ikcpcb" where
  "ikcp_setoutput out k = k\<lparr>koutput := out\<rparr>"

text \<open>All segments are deleted, then the buffers and the block itself; nothing of it may be used any more.\<close>

definition ikcp_release :: "ikcpcb \<Rightarrow> ikcpcb" where
  "ikcp_release k = k\<lparr>snd_buf := [], rcv_buf := [], snd_queue := [], rcv_queue := [], nrcv_buf := 0, nsnd_buf := 0,
     nrcv_que := 0, nsnd_que := 0, ackcount := 0, kbuffer := 0, acklist := []\<rparr>"

section \<open>Receiving messages\<close>

text \<open>The length of the fragments up to the last one of a message, in the arithmetic of \<open>int\<close> and \<open>IUINT32\<close>.\<close>

fun sum_message :: "kseg list \<Rightarrow> u32" where
  "sum_message [] = 0"
| "sum_message (seg # ss) = (if s_frg seg = 0 then s_len seg else s_len seg + sum_message ss)"

definition ikcp_peeksize :: "ikcpcb \<Rightarrow> int" where
  "ikcp_peeksize k = (case rcv_queue k of
     [] \<Rightarrow> -1
   | seg # ss \<Rightarrow>
       if s_frg seg = 0 then sint (s_len seg)
       else if nrcv_que k < unat (s_frg seg + 1) then -1
       else sint (sum_message (rcv_queue k)))"

text \<open>The fragments of the first message, and what is behind them.\<close>

fun first_message :: "kseg list \<Rightarrow> kseg list \<times> kseg list" where
  "first_message [] = ([], [])"
| "first_message (seg # ss) =
     (if s_frg seg = 0 then ([seg], ss) else let (ms, rest) = first_message ss in (seg # ms, rest))"

text \<open>Segments whose turn has come move from \<open>rcv_buf\<close> to \<open>rcv_queue\<close>.\<close>

function move_ready :: "ikcpcb \<Rightarrow> ikcpcb" where
  "move_ready k = (case rcv_buf k of
     [] \<Rightarrow> k
   | seg # ss \<Rightarrow>
       if s_sn seg = rcv_nxt k \<and> nrcv_que k < unat (rcv_wnd k)
       then move_ready (k\<lparr>rcv_buf := ss, nrcv_buf := nrcv_buf k - 1, rcv_queue := rcv_queue k @ [seg],
              nrcv_que := nrcv_que k + 1, rcv_nxt := rcv_nxt k + 1\<rparr>)
       else k)"
  by pat_completeness auto
termination
  by (relation "measure (\<lambda>k. length (rcv_buf k))") auto

declare move_ready.simps [simp del]

definition read_mem :: "nat \<Rightarrow> byte list \<Rightarrow> byte list res" where
  "read_mem n buf = (if n \<le> length buf then Ok (take n buf) else Fail OutOfBounds)"

text \<open>
  The copies of the merge loop: \<open>room\<close> bytes of the user's buffer are left, and nothing in the loop
  compares them with the length of a fragment.
\<close>

definition copy_fragment :: "int \<Rightarrow> kseg \<Rightarrow> byte list res" where
  "copy_fragment room seg = bindR (read_mem (unat (s_len seg)) (s_data seg)) (\<lambda>bs.
     if room < int (length bs) then Fail OutOfBounds else Ok bs)"

primrec copy_out :: "int \<Rightarrow> kseg list \<Rightarrow> byte list res" where
  "copy_out room [] = Ok []"
| "copy_out room (seg # ss) = bindR (copy_fragment room seg) (\<lambda>bs.
     bindR (copy_out (room - int (length bs)) ss) (\<lambda>cs. Ok (bs @ cs)))"

text \<open>
  The result is the value returned, the bytes copied to the user's buffer of \<open>\<bar>len\<bar>\<close> bytes, and the state; a
  negative \<open>len\<close> only peeks.
\<close>

definition ikcp_recv :: "int \<Rightarrow> ikcpcb \<Rightarrow> (int \<times> byte list \<times> ikcpcb) res" where
  "ikcp_recv len k =
     (let peeksize = ikcp_peeksize k in
      if rcv_queue k = [] then Ok (-1, [], k)
      else if peeksize < 0 then Ok (-2, [], k)
      else if \<bar>len\<bar> < peeksize then Ok (-3, [], k)
      else
        let recover = unat (rcv_wnd k) \<le> nrcv_que k;
            (ms, rest) = first_message (rcv_queue k);
            total = sint (sum_message (rcv_queue k));
            k1 = (if len < 0 then k else k\<lparr>rcv_queue := rest, nrcv_que := nrcv_que k - length ms\<rparr>);
            k2 = move_ready k1;
            k3 = (if nrcv_que k2 < unat (rcv_wnd k2) \<and> recover then k2\<lparr>kprobe := kprobe k2 OR IKCP_ASK_TELL\<rparr> else k2)
        in bindR (copy_out \<bar>len\<bar> ms) (\<lambda>bs. assertR (total = peeksize) (Ok (total, bs, k3))))"

section \<open>Sending messages\<close>

text \<open>The last \<open>r\<close> fragments; \<open>len\<close> bytes are left.\<close>

primrec send_fragments :: "nat \<Rightarrow> byte list \<Rightarrow> nat \<Rightarrow> ikcpcb \<Rightarrow> ikcpcb res" where
  "send_fragments 0 buf len k = Ok k"
| "send_fragments (Suc r) buf len k =
     (let size = (if unat (kmss k) < len then unat (kmss k) else len) in
      bindR (read_mem size buf) (\<lambda>bs.
        send_fragments r (drop size buf) (len - size)
          (k\<lparr>snd_queue := snd_queue k @ [new_seg (if kstream k = 0 then of_nat r else 0) bs],
             nsnd_que := nsnd_que k + 1\<rparr>)))"

text \<open>In streaming mode the last segment of the queue is replaced by a longer one; the result says how many bytes it took.\<close>

definition extend_last :: "byte list \<Rightarrow> nat \<Rightarrow> ikcpcb \<Rightarrow> (nat \<times> ikcpcb) res" where
  "extend_last buf len k =
     (if snd_queue k = [] \<or> \<not> s_len (last (snd_queue k)) < kmss k then Ok (0, k)
      else
        let old = last (snd_queue k); capacity = unat (kmss k - s_len old);
            extend = (if len < capacity then len else capacity)
        in bindR (read_mem extend buf) (\<lambda>bs.
             Ok (extend, k\<lparr>snd_queue := butlast (snd_queue k) @ [new_seg 0 (s_data old @ bs)]\<rparr>)))"

definition fragment_count :: "nat \<Rightarrow> u32 \<Rightarrow> nat" where
  "fragment_count len mss =
     (let c = (if len \<le> unat mss then 1 else unat ((of_nat len + mss - 1) div mss)) in if c = 0 then 1 else c)"

definition send_rest :: "byte list \<Rightarrow> nat \<Rightarrow> ikcpcb \<Rightarrow> (int \<times> ikcpcb) res" where
  "send_rest buf len k =
     (if 255 < fragment_count len (kmss k) then Ok (-2, k)
      else bindR (send_fragments (fragment_count len (kmss k)) buf len k) (\<lambda>k1. Ok (0, k1)))"

definition ikcp_send :: "byte list \<Rightarrow> int \<Rightarrow> ikcpcb \<Rightarrow> (int \<times> ikcpcb) res" where
  "ikcp_send buf len k = assertR (0 < kmss k)
     (if len < 0 then Ok (-1, k)
      else if kstream k \<noteq> 0 then
        bindR (extend_last buf (nat len) k) (\<lambda>(taken, k1).
          if len - int taken \<le> 0 then Ok (0, k1) else send_rest (drop taken buf) (nat len - taken) k1)
      else send_rest buf (nat len) k)"

section \<open>Parsing datagrams\<close>

definition i32 :: "int \<Rightarrow> int" where
  "i32 x = signed_take_bit 31 x"

definition ikcp_update_ack :: "int \<Rightarrow> ikcpcb \<Rightarrow> ikcpcb" where
  "ikcp_update_ack rtt k =
     (let k1 =
        (if rx_srtt k = 0 then k\<lparr>rx_srtt := rtt, rx_rttval := rtt sdiv 2\<rparr>
         else
           let delta = \<bar>i32 (rtt - rx_srtt k)\<bar>;
               rttval = i32 ((i32 (3 * rx_rttval k) + delta) sdiv 4);
               srtt = i32 (i32 (7 * rx_srtt k) + rtt) sdiv 8
           in k\<lparr>rx_rttval := rttval, rx_srtt := (if srtt < 1 then 1 else srtt)\<rparr>);
          rto = of_int (rx_srtt k1) + max (kinterval k1) (of_int (4 * rx_rttval k1))
      in k1\<lparr>rx_rto := sint (ibound (of_int (rx_minrto k1)) rto IKCP_RTO_MAX)\<rparr>)"

definition ikcp_shrink_buf :: "ikcpcb \<Rightarrow> ikcpcb" where
  "ikcp_shrink_buf k = k\<lparr>snd_una := (case snd_buf k of seg # ss \<Rightarrow> s_sn seg | [] \<Rightarrow> snd_nxt k)\<rparr>"

definition acceptable_ack :: "u32 \<Rightarrow> ikcpcb \<Rightarrow> bool" where
  "acceptable_ack sn k \<longleftrightarrow> \<not> (itimediff sn (snd_una k) < 0 \<or> itimediff sn (snd_nxt k) \<ge> 0)"

text \<open>The segment with the number \<open>sn\<close> is taken out of the list; the result says whether it was there.\<close>

fun delete_acked :: "u32 \<Rightarrow> kseg list \<Rightarrow> bool \<times> kseg list" where
  "delete_acked sn [] = (False, [])"
| "delete_acked sn (seg # ss) =
     (if sn = s_sn seg then (True, ss)
      else if itimediff sn (s_sn seg) < 0 then (False, seg # ss)
      else let (found, rest) = delete_acked sn ss in (found, seg # rest))"

definition ikcp_parse_ack :: "u32 \<Rightarrow> ikcpcb \<Rightarrow> ikcpcb" where
  "ikcp_parse_ack sn k =
     (if \<not> acceptable_ack sn k then k
      else let (found, rest) = delete_acked sn (snd_buf k)
           in k\<lparr>snd_buf := rest, nsnd_buf := (if found then nsnd_buf k - 1 else nsnd_buf k)\<rparr>)"

function ikcp_parse_una :: "u32 \<Rightarrow> ikcpcb \<Rightarrow> ikcpcb" where
  "ikcp_parse_una una k = (case snd_buf k of
     [] \<Rightarrow> k
   | seg # ss \<Rightarrow>
       if 0 < itimediff una (s_sn seg) then ikcp_parse_una una (k\<lparr>snd_buf := ss, nsnd_buf := nsnd_buf k - 1\<rparr>) else k)"
  by pat_completeness auto
termination
  by (relation "measure (\<lambda>(una, k). length (snd_buf k))") auto

declare ikcp_parse_una.simps [simp del]

fun count_skipped :: "u32 \<Rightarrow> kseg list \<Rightarrow> kseg list" where
  "count_skipped sn [] = []"
| "count_skipped sn (seg # ss) =
     (if itimediff sn (s_sn seg) < 0 then seg # ss
      else (if sn \<noteq> s_sn seg then seg\<lparr>s_fastack := s_fastack seg + 1\<rparr> else seg) # count_skipped sn ss)"

definition ikcp_parse_fastack :: "u32 \<Rightarrow> ikcpcb \<Rightarrow> ikcpcb" where
  "ikcp_parse_fastack sn k =
     (if \<not> acceptable_ack sn k then k else k\<lparr>snd_buf := count_skipped sn (snd_buf k)\<rparr>)"

text \<open>The first power of two from \<open>b\<close> on that is large enough.\<close>

function new_block :: "nat \<Rightarrow> nat \<Rightarrow> nat" where
  "new_block b newsize = (if 0 < b \<and> b < newsize then new_block (2 * b) newsize else b)"
  by pat_completeness auto
termination
  by (relation "measure (\<lambda>(b, newsize). newsize - b)") auto

declare new_block.simps [simp del]

definition ikcp_ack_push :: "u32 \<Rightarrow> u32 \<Rightarrow> ikcpcb \<Rightarrow> ikcpcb res" where
  "ikcp_ack_push sn ts k =
     (let newsize = ackcount k + 1;
          k1 = (if ackblock k < newsize then k\<lparr>ackblock := new_block 8 newsize\<rparr> else k)
      in if ackcount k1 < ackblock k1 then Ok (k1\<lparr>acklist := take (ackcount k1) (acklist k1) @ [(sn, ts)], ackcount := newsize\<rparr>)
         else Fail OutOfBounds)"

text \<open>
  The buffer is searched from its end for the segment to insert behind; on the reversed list, \<open>None\<close> says
  that the number is there already.
\<close>

fun insert_from_end :: "kseg \<Rightarrow> kseg list \<Rightarrow> kseg list option" where
  "insert_from_end new [] = Some [new]"
| "insert_from_end new (seg # ss) =
     (if s_sn seg = s_sn new then None
      else if 0 < itimediff (s_sn new) (s_sn seg) then Some (new # seg # ss)
      else map_option ((#) seg) (insert_from_end new ss))"

definition ikcp_parse_data :: "kseg \<Rightarrow> ikcpcb \<Rightarrow> ikcpcb" where
  "ikcp_parse_data new k =
     (if itimediff (s_sn new) (rcv_nxt k + rcv_wnd k) \<ge> 0 \<or> itimediff (s_sn new) (rcv_nxt k) < 0 then k
      else move_ready (case insert_from_end new (rev (rcv_buf k)) of
             None \<Rightarrow> k
           | Some ss \<Rightarrow> k\<lparr>rcv_buf := rev ss, nrcv_buf := nrcv_buf k + 1\<rparr>))"

text \<open>A segment is allocated with the size \<open>(int) len\<close>, so a length from 2^31 on does not fit.\<close>

definition received_segment :: "u32 \<Rightarrow> khdr \<Rightarrow> byte list \<Rightarrow> kseg res" where
  "received_segment conv h buf =
     (if sint (h_len h) < 0 then Fail OutOfBounds
      else bindR (read_mem (unat (h_len h)) buf) (\<lambda>bs.
        Ok \<lparr>s_conv = conv, s_cmd = ucast (h_cmd h), s_frg = ucast (h_frg h), s_wnd = ucast (h_wnd h), s_ts = h_ts h,
            s_sn = h_sn h, s_una = h_una h, s_len = h_len h, s_resendts = 0, s_rto = 0, s_fastack = 0, s_xmit = 0,
            s_data = bs\<rparr>))"

definition input_push :: "u32 \<Rightarrow> khdr \<Rightarrow> byte list \<Rightarrow> ikcpcb \<Rightarrow> ikcpcb res" where
  "input_push conv h buf k =
     (if itimediff (h_sn h) (rcv_nxt k + rcv_wnd k) < 0 then
        bindR (ikcp_ack_push (h_sn h) (h_ts h) k) (\<lambda>k1.
          if 0 \<le> itimediff (h_sn h) (rcv_nxt k1) then
            bindR (received_segment conv h buf) (\<lambda>seg. Ok (ikcp_parse_data seg k1))
          else Ok k1)
      else Ok k)"

definition input_ack :: "khdr \<Rightarrow> ikcpcb \<Rightarrow> ikcpcb" where
  "input_ack h k =
     (let k1 = (if 0 \<le> itimediff (kcurrent k) (h_ts h) then ikcp_update_ack (itimediff (kcurrent k) (h_ts h)) k else k)
      in ikcp_shrink_buf (ikcp_parse_ack (h_sn h) k1))"

text \<open>The largest number acknowledged so far, \<open>None\<close> while there is none (\<open>flag\<close> is 0).\<close>

definition next_maxack :: "u32 \<Rightarrow> u32 option \<Rightarrow> u32 option" where
  "next_maxack sn m = (case m of None \<Rightarrow> Some sn | Some a \<Rightarrow> Some (if 0 < itimediff sn a then sn else a))"

definition known_command :: "8 word \<Rightarrow> bool" where
  "known_command cmd \<longleftrightarrow> (ucast cmd :: u32) \<in> {IKCP_CMD_PUSH, IKCP_CMD_ACK, IKCP_CMD_WASK, IKCP_CMD_WINS}"

text \<open>What a segment does once its header is accepted; \<open>buf\<close> starts with its data.\<close>

definition input_command :: "khdr \<Rightarrow> byte list \<Rightarrow> u32 option \<times> ikcpcb \<Rightarrow> (u32 option \<times> ikcpcb) res" where
  "input_command h buf = (\<lambda>(m, k0).
     let k = ikcp_shrink_buf (ikcp_parse_una (h_una h) (k0\<lparr>rmt_wnd := ucast (h_wnd h)\<rparr>));
         cmd = ucast (h_cmd h) :: u32
     in if cmd = IKCP_CMD_ACK then Ok (next_maxack (h_sn h) m, input_ack h k)
        else if cmd = IKCP_CMD_PUSH then bindR (input_push (kconv k) h buf k) (\<lambda>k1. Ok (m, k1))
        else if cmd = IKCP_CMD_WASK then Ok (m, k\<lparr>kprobe := kprobe k OR IKCP_ASK_TELL\<rparr>)
        else Ok (m, k))"

lemma bindR_cong [fundef_cong]:
  "m = m' \<Longrightarrow> (\<And>x. m' = Ok x \<Longrightarrow> k x = k' x) \<Longrightarrow> bindR m k = bindR m' k'"
  by (cases m') simp_all

text \<open>The loop over the segments of a datagram; a code other than 0 is returned at once.\<close>

function input_segments :: "byte list \<Rightarrow> int \<Rightarrow> u32 option \<times> ikcpcb \<Rightarrow> (int \<times> u32 option \<times> ikcpcb) res" where
  "input_segments buf sz s =
     (if sz < int IKCP_OVERHEAD then Ok (0, s)
      else bindR (ikcp_decode32u buf) (\<lambda>(conv, buf1).
        if conv \<noteq> kconv (snd s) then Ok (-1, s)
        else bindR (decode_header buf1) (\<lambda>(h, buf2).
          if sz - int IKCP_OVERHEAD < uint (h_len h) then Ok (-2, s)
          else if \<not> known_command (h_cmd h) then Ok (-3, s)
          else bindR (input_command h buf2 s) (\<lambda>s1.
            input_segments (drop (unat (h_len h)) buf2) (sz - int IKCP_OVERHEAD - uint (h_len h)) s1))))"
  by pat_completeness auto
termination
proof (relation "measure (\<lambda>(buf, sz, s). nat sz)", goal_cases)
  case (2 buf sz s x conv buf1 y h buf2 z)
  moreover have "- 24 < uint (h_len h)" by (rule less_le_trans [of _ 0]) simp_all
  ultimately show ?case by (simp add: IKCP_OVERHEAD_def)
qed simp

declare input_segments.simps [simp del]

text \<open>The congestion window grows when new data was acknowledged.\<close>

definition grow_cwnd :: "ikcpcb \<Rightarrow> ikcpcb" where
  "grow_cwnd k =
     (if cwnd k < rmt_wnd k then
        let mss = kmss k;
            k1 = (if cwnd k < ssthresh k then k\<lparr>cwnd := cwnd k + 1, kincr := kincr k + mss\<rparr>
                  else
                    let i0 = (if kincr k < mss then mss else kincr k);
                        i1 = i0 + ((mss * mss) div i0 + mss div 16)
                    in k\<lparr>kincr := i1, cwnd := (if (cwnd k + 1) * mss \<le> i1 then cwnd k + 1 else cwnd k)\<rparr>)
        in if rmt_wnd k1 < cwnd k1 then k1\<lparr>cwnd := rmt_wnd k1, kincr := rmt_wnd k1 * mss\<rparr> else k1
      else k)"

text \<open>A null pointer gives -1 as a short datagram does.\<close>

definition ikcp_input :: "byte list \<Rightarrow> int \<Rightarrow> ikcpcb \<Rightarrow> (int \<times> ikcpcb) res" where
  "ikcp_input buf sz k =
     (if sz < int IKCP_OVERHEAD then Ok (-1, k)
      else bindR (input_segments buf sz (None, k)) (\<lambda>(r, m, k1).
        if r \<noteq> 0 then Ok (r, k1)
        else
          let k2 = (case m of None \<Rightarrow> k1 | Some a \<Rightarrow> ikcp_parse_fastack a k1)
          in Ok (0, if 0 < itimediff (snd_una k2) (snd_una k) then grow_cwnd k2 else k2)))"

section \<open>Flushing\<close>

text \<open>
  \<open>pend\<close> is what lies in the output buffer before \<open>ptr\<close>, \<open>outs\<close> the datagrams given to \<open>ikcp_output\<close>.
\<close>

record kout =
  pend :: "byte list"
  outs :: "byte list list"

definition ikcp_output :: "ikcpcb \<Rightarrow> kout \<Rightarrow> kout res" where
  "ikcp_output k w = assertR (koutput k) (Ok (if pend w = [] then w else w\<lparr>outs := outs w @ [pend w]\<rparr>))"

text \<open>What would make the datagram longer than \<open>mtu\<close> starts a new one.\<close>

definition make_room :: "ikcpcb \<Rightarrow> nat \<Rightarrow> kout \<Rightarrow> kout res" where
  "make_room k need w =
     (if sint (kmtu k) < int (length (pend w)) + int need
      then bindR (ikcp_output k w) (\<lambda>w1. Ok (w1\<lparr>pend := []\<rparr>)) else Ok w)"

definition put_bytes :: "ikcpcb \<Rightarrow> byte list \<Rightarrow> kout \<Rightarrow> kout res" where
  "put_bytes k bs w =
     (if length (pend w) + length bs \<le> kbuffer k then Ok (w\<lparr>pend := pend w @ bs\<rparr>) else Fail OutOfBounds)"

definition put_header :: "ikcpcb \<Rightarrow> kseg \<Rightarrow> kout \<Rightarrow> kout res" where
  "put_header k seg w = bindR (make_room k IKCP_OVERHEAD w) (put_bytes k (ikcp_encode_seg seg))"

definition ikcp_wnd_unused :: "ikcpcb \<Rightarrow> u32" where
  "ikcp_wnd_unused k = (if nrcv_que k < unat (rcv_wnd k) then rcv_wnd k - of_nat (nrcv_que k) else 0)"

text \<open>The segment on the stack of \<open>ikcp_flush\<close>.\<close>

definition control_seg :: "u32 \<Rightarrow> u32 \<Rightarrow> u32 \<Rightarrow> ikcpcb \<Rightarrow> kseg" where
  "control_seg cmd sn ts k = (new_seg 0 [])\<lparr>s_conv := kconv k, s_cmd := cmd, s_wnd := ikcp_wnd_unused k,
     s_una := rcv_nxt k, s_sn := sn, s_ts := ts\<rparr>"

primrec flush_acks :: "ikcpcb \<Rightarrow> (u32 \<times> u32) list \<Rightarrow> kout \<Rightarrow> kout res" where
  "flush_acks k [] w = Ok w"
| "flush_acks k (a # as) w =
     bindR (put_header k (control_seg IKCP_CMD_ACK (fst a) (snd a) k) w) (flush_acks k as)"

definition update_probe :: "ikcpcb \<Rightarrow> ikcpcb" where
  "update_probe k =
     (if rmt_wnd k = 0 then
        if probe_wait k = 0 then k\<lparr>probe_wait := IKCP_PROBE_INIT, ts_probe := kcurrent k + IKCP_PROBE_INIT\<rparr>
        else if 0 \<le> itimediff (kcurrent k) (ts_probe k) then
          let w0 = (if probe_wait k < IKCP_PROBE_INIT then IKCP_PROBE_INIT else probe_wait k);
              w1 = w0 + w0 div 2;
              w2 = (if IKCP_PROBE_LIMIT < w1 then IKCP_PROBE_LIMIT else w1)
          in k\<lparr>probe_wait := w2, ts_probe := kcurrent k + w2, kprobe := kprobe k OR IKCP_ASK_SEND\<rparr>
        else k
      else k\<lparr>ts_probe := 0, probe_wait := 0\<rparr>)"

text \<open>The number and the time of the last acknowledgement stay in the segment.\<close>

definition last_ack :: "ikcpcb \<Rightarrow> u32 \<times> u32" where
  "last_ack k = (if ackcount k = 0 then (0, 0) else acklist k ! (ackcount k - 1))"

definition flush_probe :: "u32 \<Rightarrow> u32 \<Rightarrow> u32 \<times> u32 \<Rightarrow> ikcpcb \<Rightarrow> kout \<Rightarrow> kout res" where
  "flush_probe ask cmd a k w =
     (if kprobe k AND ask \<noteq> 0 then put_header k (control_seg cmd (fst a) (snd a) k) w else Ok w)"

definition flush_window :: "ikcpcb \<Rightarrow> u32" where
  "flush_window k =
     (let c = min (snd_wnd k) (rmt_wnd k) in if nocwnd k = 0 then min (cwnd k) c else c)"

text \<open>Segments that fit the window get their number and move from \<open>snd_queue\<close> to \<open>snd_buf\<close>.\<close>

definition numbered_seg :: "ikcpcb \<Rightarrow> kseg \<Rightarrow> kseg" where
  "numbered_seg k seg = seg\<lparr>s_conv := kconv k, s_cmd := IKCP_CMD_PUSH, s_wnd := ikcp_wnd_unused k, s_ts := kcurrent k,
     s_sn := snd_nxt k, s_una := rcv_nxt k, s_resendts := kcurrent k, s_rto := of_int (rx_rto k), s_fastack := 0,
     s_xmit := 0\<rparr>"

function move_to_buf :: "u32 \<Rightarrow> ikcpcb \<Rightarrow> ikcpcb" where
  "move_to_buf wnd k =
     (if itimediff (snd_nxt k) (snd_una k + wnd) < 0 then
        case snd_queue k of
          [] \<Rightarrow> k
        | seg # ss \<Rightarrow>
            move_to_buf wnd (k\<lparr>snd_queue := ss, snd_buf := snd_buf k @ [numbered_seg k seg], nsnd_que := nsnd_que k - 1,
              nsnd_buf := nsnd_buf k + 1, snd_nxt := snd_nxt k + 1\<rparr>)
      else k)"
  by pat_completeness auto
termination
  by (relation "measure (\<lambda>(wnd, k). length (snd_queue k))") auto

declare move_to_buf.simps [simp del]

datatype send_reason = FirstTime | TimedOut | Skipped | NotNow

definition send_reason :: "u32 \<Rightarrow> u32 \<Rightarrow> kseg \<Rightarrow> send_reason" where
  "send_reason current resent seg =
     (if s_xmit seg = 0 then FirstTime
      else if 0 \<le> itimediff current (s_resendts seg) then TimedOut
      else if resent \<le> s_fastack seg then Skipped
      else NotNow)"

definition resent_limit :: "ikcpcb \<Rightarrow> u32" where
  "resent_limit k = (if 0 < fastresend k then of_int (fastresend k) else 0xffffffff)"

text \<open>The times and counters of a segment that is sent, then the fields that are always brought up to date.\<close>

fun retimed :: "ikcpcb \<Rightarrow> send_reason \<Rightarrow> kseg \<Rightarrow> kseg" where
  "retimed k FirstTime seg =
     (let rto = of_int (rx_rto k); rtomin = (if nodelay k = 0 then of_int (rx_rto k div 8) else 0)
      in seg\<lparr>s_xmit := s_xmit seg + 1, s_rto := rto, s_resendts := kcurrent k + rto + rtomin\<rparr>)"
| "retimed k TimedOut seg =
     (let rto = s_rto seg + of_int (if nodelay k = 0 then rx_rto k else rx_rto k sdiv 2)
      in seg\<lparr>s_xmit := s_xmit seg + 1, s_rto := rto, s_resendts := kcurrent k + rto\<rparr>)"
| "retimed k Skipped seg =
     seg\<lparr>s_xmit := s_xmit seg + 1, s_fastack := 0, s_resendts := kcurrent k + s_rto seg\<rparr>"
| "retimed k NotNow seg = seg"

definition refreshed :: "ikcpcb \<Rightarrow> send_reason \<Rightarrow> kseg \<Rightarrow> kseg" where
  "refreshed k why seg =
     (retimed k why seg)\<lparr>s_ts := kcurrent k, s_wnd := ikcp_wnd_unused k, s_una := rcv_nxt k\<rparr>"

definition put_segment :: "ikcpcb \<Rightarrow> kseg \<Rightarrow> kout \<Rightarrow> kout res" where
  "put_segment k seg w =
     bindR (make_room k (IKCP_OVERHEAD + unat (s_len seg)) w) (\<lambda>w1.
     bindR (put_bytes k (ikcp_encode_seg seg) w1) (\<lambda>w2.
       if 0 < s_len seg then bindR (read_mem (unat (s_len seg)) (s_data seg)) (\<lambda>bs. put_bytes k bs w2) else Ok w2))"

text \<open>The loop over \<open>snd_buf\<close>: the segments as they are then, why each was sent or not, and the output.\<close>

primrec flush_segments :: "ikcpcb \<Rightarrow> kseg list \<Rightarrow> kout \<Rightarrow> ((send_reason \<times> kseg) list \<times> kout) res" where
  "flush_segments k [] w = Ok ([], w)"
| "flush_segments k (seg # ss) w =
     (let why = send_reason (kcurrent k) (resent_limit k) seg in
      if why = NotNow then bindR (flush_segments k ss w) (\<lambda>(rs, w1). Ok ((why, seg) # rs, w1))
      else let seg1 = refreshed k why seg in
        bindR (put_segment k seg1 w) (\<lambda>w1. bindR (flush_segments k ss w1) (\<lambda>(rs, w2). Ok ((why, seg1) # rs, w2))))"

definition at_least_min :: "u32 \<Rightarrow> u32" where
  "at_least_min t = (if t < IKCP_THRESH_MIN then IKCP_THRESH_MIN else t)"

text \<open>The congestion window after the loop; \<open>wnd\<close> is the window used.\<close>

definition adapt_cwnd :: "u32 \<Rightarrow> send_reason list \<Rightarrow> ikcpcb \<Rightarrow> ikcpcb" where
  "adapt_cwnd wnd whys k0 =
     (let k1 = (if Skipped \<in> set whys then
                  let t = at_least_min ((snd_nxt k0 - snd_una k0) div 2); c = t + resent_limit k0
                  in k0\<lparr>ssthresh := t, cwnd := c, kincr := c * kmss k0\<rparr>
                else k0);
          k2 = (if TimedOut \<in> set whys then k1\<lparr>ssthresh := at_least_min (wnd div 2), cwnd := 1, kincr := kmss k1\<rparr>
                else k1)
      in if cwnd k2 < 1 then k2\<lparr>cwnd := 1, kincr := kmss k2\<rparr> else k2)"

definition ikcp_flush :: "ikcpcb \<Rightarrow> (byte list list \<times> ikcpcb) res" where
  "ikcp_flush k =
     (if \<not> updated k then Ok ([], k)
      else
        let a = last_ack k in
        bindR (flush_acks k (take (ackcount k) (acklist k)) \<lparr>pend = [], outs = []\<rparr>) (\<lambda>w1.
        let k1 = update_probe (k\<lparr>ackcount := 0\<rparr>) in
        bindR (flush_probe IKCP_ASK_SEND IKCP_CMD_WASK a k1 w1) (\<lambda>w2.
        bindR (flush_probe IKCP_ASK_TELL IKCP_CMD_WINS a k1 w2) (\<lambda>w3.
        let wnd = flush_window k1; k2 = move_to_buf wnd (k1\<lparr>kprobe := 0\<rparr>) in
        bindR (flush_segments k2 (snd_buf k2) w3) (\<lambda>(rs, w4).
        bindR (if pend w4 = [] then Ok w4 else ikcp_output k2 w4) (\<lambda>w5.
        let dead = list_ex (\<lambda>(why, seg). why \<noteq> NotNow \<and> dead_link k2 \<le> s_xmit seg) rs;
            k3 = k2\<lparr>snd_buf := map snd rs, kxmit := kxmit k2 + of_nat (length (filter (\<lambda>r. fst r = TimedOut) rs)),
                   kstate := (if dead then -1 else kstate k2)\<rparr>
        in Ok (outs w5, adapt_cwnd wnd (map fst rs) k3)))))))"

section \<open>Time and configuration\<close>

definition ikcp_update :: "u32 \<Rightarrow> ikcpcb \<Rightarrow> (byte list list \<times> ikcpcb) res" where
  "ikcp_update current k0 =
     (let k = k0\<lparr>kcurrent := current\<rparr>;
          k1 = (if updated k then k else k\<lparr>updated := True, ts_flush := current\<rparr>);
          slap0 = itimediff current (ts_flush k1);
          far = 10000 \<le> slap0 \<or> slap0 < -10000;
          k2 = (if far then k1\<lparr>ts_flush := current\<rparr> else k1);
          slap = (if far then 0 else slap0)
      in if 0 \<le> slap then
           let t = ts_flush k2 + kinterval k2;
               t1 = (if 0 \<le> itimediff current t then current + kinterval k2 else t)
           in ikcp_flush (k2\<lparr>ts_flush := t1\<rparr>)
         else Ok ([], k2))"

text \<open>The loop of \<open>ikcp_check\<close>: \<open>None\<close> when a segment is due, otherwise the shortest wait.\<close>

primrec earliest_resend :: "u32 \<Rightarrow> kseg list \<Rightarrow> int \<Rightarrow> int option" where
  "earliest_resend current [] tm = Some tm"
| "earliest_resend current (seg # ss) tm =
     (let diff = itimediff (s_resendts seg) current in
      if diff \<le> 0 then None else earliest_resend current ss (if diff < tm then diff else tm))"

definition ikcp_check :: "u32 \<Rightarrow> ikcpcb \<Rightarrow> u32" where
  "ikcp_check current k =
     (if \<not> updated k then current
      else
        let far = 10000 \<le> itimediff current (ts_flush k) \<or> itimediff current (ts_flush k) < -10000;
            t = (if far then current else ts_flush k)
        in if 0 \<le> itimediff current t then current
           else case earliest_resend current (snd_buf k) 0x7fffffff of
             None \<Rightarrow> current
           | Some tm_packet \<Rightarrow>
               let tm_flush = itimediff t current;
                   minimal = of_int (if tm_packet < tm_flush then tm_packet else tm_flush)
               in current + (if kinterval k \<le> minimal then kinterval k else minimal))"

definition ikcp_setmtu :: "int \<Rightarrow> ikcpcb \<Rightarrow> int \<times> ikcpcb" where
  "ikcp_setmtu mtu k =
     (if mtu < 50 \<or> mtu < int IKCP_OVERHEAD then (-1, k)
      else (0, k\<lparr>kmtu := of_int mtu, kmss := of_int mtu - of_nat IKCP_OVERHEAD, kbuffer := buffer_size (of_int mtu)\<rparr>))"

definition clamp_interval :: "int \<Rightarrow> int" where
  "clamp_interval i = (if 5000 < i then 5000 else if i < 10 then 10 else i)"

definition ikcp_interval :: "int \<Rightarrow> ikcpcb \<Rightarrow> ikcpcb" where
  "ikcp_interval i k = k\<lparr>kinterval := of_int (clamp_interval i)\<rparr>"

definition ikcp_nodelay :: "int \<Rightarrow> int \<Rightarrow> int \<Rightarrow> int \<Rightarrow> ikcpcb \<Rightarrow> ikcpcb" where
  "ikcp_nodelay nd i resend nc k =
     (let k1 = (if 0 \<le> nd then k\<lparr>nodelay := of_int nd, rx_minrto := (if nd \<noteq> 0 then IKCP_RTO_NDL else IKCP_RTO_MIN)\<rparr> else k);
          k2 = (if 0 \<le> i then k1\<lparr>kinterval := of_int (clamp_interval i)\<rparr> else k1);
          k3 = (if 0 \<le> resend then k2\<lparr>fastresend := resend\<rparr> else k2)
      in if 0 \<le> nc then k3\<lparr>nocwnd := nc\<rparr> else k3)"

definition ikcp_wndsize :: "int \<Rightarrow> int \<Rightarrow> ikcpcb \<Rightarrow> ikcpcb" where
  "ikcp_wndsize sndwnd rcvwnd k =
     (let k1 = (if 0 < sndwnd then k\<lparr>snd_wnd := of_int sndwnd\<rparr> else k)
      in if 0 < rcvwnd then k1\<lparr>rcv_wnd := of_int rcvwnd\<rparr> else k1)"

definition ikcp_waitsnd :: "ikcpcb \<Rightarrow> nat" where
  "ikcp_waitsnd k = nsnd_buf k + nsnd_que k"

end
