(* ===== verification/KcpInv.thy ===== *)
theory KcpInv
  imports Kcp
begin

text \<open>
  No call of KCP faults. The invariant says that the counters agree with the queues, that segments hold
  the bytes their length says and fit a datagram, and that the output buffer has the size the datagrams
  need. Every operation keeps it, \<open>ikcp_input\<close> whatever bytes the network delivers.
\<close>

section \<open>The invariant\<close>

definition seg_fits :: "nat \<Rightarrow> kseg \<Rightarrow> bool" where
  "seg_fits n seg \<longleftrightarrow> unat (s_len seg) = length (s_data seg) \<and> length (s_data seg) \<le> n"

definition kcp_config :: "ikcpcb \<Rightarrow> bool" where
  "kcp_config k \<longleftrightarrow> koutput k \<and> 0 < unat (kmss k) \<and> unat (kmtu k) = unat (kmss k) + 24 \<and> unat (kmtu k) \<le> 2 ^ 30
     \<and> kbuffer k = (unat (kmtu k) + 24) * 3"

definition kcp_times :: "ikcpcb \<Rightarrow> bool" where
  "kcp_times k \<longleftrightarrow> rx_minrto k \<in> {30, 100} \<and> 30 \<le> rx_rto k \<and> rx_rto k \<le> 60000"

definition snd_ok :: "ikcpcb \<Rightarrow> bool" where
  "snd_ok k \<longleftrightarrow> nsnd_buf k = length (snd_buf k) \<and> nsnd_que k = length (snd_queue k)
     \<and> list_all (seg_fits (unat (kmss k))) (snd_queue k) \<and> list_all (seg_fits (unat (kmss k))) (snd_buf k)"

definition rcv_ok :: "ikcpcb \<Rightarrow> bool" where
  "rcv_ok k \<longleftrightarrow> nrcv_buf k = length (rcv_buf k) \<and> nrcv_que k = length (rcv_queue k) \<and> ackcount k \<le> length (acklist k)
     \<and> list_all (seg_fits (2 ^ 31 - 1)) (rcv_queue k) \<and> list_all (seg_fits (2 ^ 31 - 1)) (rcv_buf k)"

definition kcp_ok :: "ikcpcb \<Rightarrow> bool" where
  "kcp_ok k \<longleftrightarrow> kcp_config k \<and> kcp_times k \<and> snd_ok k \<and> rcv_ok k"

lemmas kcp_parts = kcp_config_def kcp_times_def snd_ok_def rcv_ok_def

lemma list_all_take_drop: "list_all P xs \<Longrightarrow> list_all P (take n xs) \<and> list_all P (drop n xs)"
  by (auto simp: list_all_iff dest: in_set_takeD in_set_dropD)

section \<open>Closed forms of the loops\<close>

lemma move_ready_form:
  "\<exists>j\<le>length (rcv_buf k). move_ready k = k\<lparr>rcv_buf := drop j (rcv_buf k), nrcv_buf := nrcv_buf k - j,
      rcv_queue := rcv_queue k @ take j (rcv_buf k), nrcv_que := nrcv_que k + j, rcv_nxt := rcv_nxt k + of_nat j\<rparr>
    \<and> (\<forall>i<j. s_sn (rcv_buf k ! i) = rcv_nxt k + of_nat i)"
proof (induction k rule: move_ready.induct)
  case (1 k)
  show ?case
  proof (cases "rcv_buf k")
    case Nil
    then show ?thesis by (simp add: move_ready.simps [of k])
  next
    case (Cons seg ss)
    show ?thesis
    proof (cases "s_sn seg = rcv_nxt k \<and> nrcv_que k < unat (rcv_wnd k)")
      case False
      then show ?thesis using Cons by (intro exI [of _ 0]) (auto simp: move_ready.simps [of k])
    next
      case True
      let ?k = "k\<lparr>rcv_buf := ss, nrcv_buf := nrcv_buf k - 1, rcv_queue := rcv_queue k @ [seg],
              nrcv_que := nrcv_que k + 1, rcv_nxt := rcv_nxt k + 1\<rparr>"
      from 1 [OF Cons True] obtain j where j: "j \<le> length ss"
        "move_ready ?k = ?k\<lparr>rcv_buf := drop j ss, nrcv_buf := nrcv_buf k - 1 - j,
          rcv_queue := (rcv_queue k @ [seg]) @ take j ss, nrcv_que := nrcv_que k + 1 + j, rcv_nxt := rcv_nxt k + 1 + of_nat j\<rparr>"
        "\<forall>i<j. s_sn (ss ! i) = rcv_nxt k + 1 + of_nat i" by auto
      have "move_ready k = move_ready ?k" using Cons True by (simp add: move_ready.simps [of k])
      then show ?thesis using j Cons True
        by (intro exI [of _ "Suc j"]) (auto simp: less_Suc_eq_0_disj add.assoc)
    qed
  qed
qed

lemma parse_una_form:
  "\<exists>j\<le>length (snd_buf k). ikcp_parse_una una k = k\<lparr>snd_buf := drop j (snd_buf k), nsnd_buf := nsnd_buf k - j\<rparr>
    \<and> (\<forall>i<j. 0 < itimediff una (s_sn (snd_buf k ! i)))"
proof (induction una k rule: ikcp_parse_una.induct)
  case (1 una k)
  show ?case
  proof (cases "snd_buf k")
    case Nil
    then show ?thesis by (simp add: ikcp_parse_una.simps [of una k])
  next
    case (Cons seg ss)
    show ?thesis
    proof (cases "0 < itimediff una (s_sn seg)")
      case False
      then show ?thesis using Cons by (intro exI [of _ 0]) (auto simp: ikcp_parse_una.simps [of una k])
    next
      case True
      let ?k = "k\<lparr>snd_buf := ss, nsnd_buf := nsnd_buf k - 1\<rparr>"
      from 1 [OF Cons True] obtain j where j: "j \<le> length ss"
        "ikcp_parse_una una ?k = ?k\<lparr>snd_buf := drop j ss, nsnd_buf := nsnd_buf k - 1 - j\<rparr>"
        "\<forall>i<j. 0 < itimediff una (s_sn (ss ! i))" by auto
      have "ikcp_parse_una una k = ikcp_parse_una una ?k" using Cons True by (simp add: ikcp_parse_una.simps [of una k])
      then show ?thesis using j Cons True by (intro exI [of _ "Suc j"]) (auto simp: less_Suc_eq_0_disj)
    qed
  qed
qed

lemma numbered_seg_fields [simp]:
  "s_len (numbered_seg k seg) = s_len seg" "s_data (numbered_seg k seg) = s_data seg"
  "s_frg (numbered_seg k seg) = s_frg seg" "s_sn (numbered_seg k seg) = snd_nxt k" "s_conv (numbered_seg k seg) = kconv k"
  "s_cmd (numbered_seg k seg) = IKCP_CMD_PUSH"
  by (simp_all add: numbered_seg_def)

lemma move_to_buf_form:
  "\<exists>ms ss. snd_queue k = ms @ ss \<and> (\<exists>ns. move_to_buf wnd k = k\<lparr>snd_queue := ss, snd_buf := snd_buf k @ ns,
      nsnd_que := nsnd_que k - length ms, nsnd_buf := nsnd_buf k + length ms, snd_nxt := snd_nxt k + of_nat (length ms)\<rparr>
    \<and> length ns = length ms
    \<and> (\<forall>i<length ms. s_len (ns ! i) = s_len (ms ! i) \<and> s_data (ns ! i) = s_data (ms ! i) \<and> s_frg (ns ! i) = s_frg (ms ! i)
        \<and> s_sn (ns ! i) = snd_nxt k + of_nat i \<and> s_conv (ns ! i) = kconv k \<and> s_cmd (ns ! i) = IKCP_CMD_PUSH))"
proof (induction wnd k rule: move_to_buf.induct)
  case (1 wnd k)
  show ?case
  proof (cases "itimediff (snd_nxt k) (snd_una k + wnd) < 0 \<and> snd_queue k \<noteq> []")
    case False
    then have "move_to_buf wnd k = k" by (auto simp: move_to_buf.simps [of wnd k] split: list.split)
    then show ?thesis by (intro exI [of _ "[]"] exI [of _ "snd_queue k"] conjI) simp_all
  next
    case True
    then obtain seg ss where q: "snd_queue k = seg # ss" by (cases "snd_queue k") auto
    let ?k = "k\<lparr>snd_queue := ss, snd_buf := snd_buf k @ [numbered_seg k seg], nsnd_que := nsnd_que k - 1,
              nsnd_buf := nsnd_buf k + 1, snd_nxt := snd_nxt k + 1\<rparr>"
    from 1 [OF conjunct1 [OF True] q] obtain ms ss' ns where j: "ss = ms @ ss'" "length ns = length ms"
      "move_to_buf wnd ?k = ?k\<lparr>snd_queue := ss', snd_buf := (snd_buf k @ [numbered_seg k seg]) @ ns,
         nsnd_que := nsnd_que k - 1 - length ms, nsnd_buf := nsnd_buf k + 1 + length ms,
         snd_nxt := snd_nxt k + 1 + of_nat (length ms)\<rparr>"
      "\<forall>i<length ms. s_len (ns ! i) = s_len (ms ! i) \<and> s_data (ns ! i) = s_data (ms ! i) \<and> s_frg (ns ! i) = s_frg (ms ! i)
        \<and> s_sn (ns ! i) = snd_nxt k + 1 + of_nat i \<and> s_conv (ns ! i) = kconv k \<and> s_cmd (ns ! i) = IKCP_CMD_PUSH" by auto
    have "move_to_buf wnd k = move_to_buf wnd ?k" using True q by (simp add: move_to_buf.simps [of wnd k])
    then show ?thesis using j q
      by (intro exI [of _ "seg # ms"] exI [of _ ss'] exI [of _ "numbered_seg k seg # ns"] conjI)
        (auto simp: less_Suc_eq_0_disj add.assoc)
  qed
qed

section \<open>Input\<close>

text \<open>Fields the invariant does not mention.\<close>

lemma kcp_ok_same [simp]:
  "kcp_ok (k\<lparr>cwnd := x0\<rparr>) = kcp_ok k"
  "kcp_ok (k\<lparr>kincr := x1\<rparr>) = kcp_ok k"
  "kcp_ok (k\<lparr>ssthresh := x2\<rparr>) = kcp_ok k"
  "kcp_ok (k\<lparr>snd_una := x3\<rparr>) = kcp_ok k"
  "kcp_ok (k\<lparr>rmt_wnd := x4\<rparr>) = kcp_ok k"
  "kcp_ok (k\<lparr>kprobe := x5\<rparr>) = kcp_ok k"
  "kcp_ok (k\<lparr>ts_flush := x6\<rparr>) = kcp_ok k"
  "kcp_ok (k\<lparr>kcurrent := x7\<rparr>) = kcp_ok k"
  "kcp_ok (k\<lparr>updated := x8\<rparr>) = kcp_ok k"
  "kcp_ok (k\<lparr>probe_wait := x9\<rparr>) = kcp_ok k"
  "kcp_ok (k\<lparr>ts_probe := x10\<rparr>) = kcp_ok k"
  "kcp_ok (k\<lparr>kxmit := x11\<rparr>) = kcp_ok k"
  "kcp_ok (k\<lparr>kstate := x12\<rparr>) = kcp_ok k"
  "kcp_ok (k\<lparr>snd_nxt := x13\<rparr>) = kcp_ok k"
  "kcp_ok (k\<lparr>rcv_nxt := x14\<rparr>) = kcp_ok k"
  "kcp_ok (k\<lparr>snd_wnd := x15\<rparr>) = kcp_ok k"
  "kcp_ok (k\<lparr>rcv_wnd := x16\<rparr>) = kcp_ok k"
  "kcp_ok (k\<lparr>nodelay := x17\<rparr>) = kcp_ok k"
  "kcp_ok (k\<lparr>kinterval := x18\<rparr>) = kcp_ok k"
  "kcp_ok (k\<lparr>fastresend := x19\<rparr>) = kcp_ok k"
  "kcp_ok (k\<lparr>nocwnd := x20\<rparr>) = kcp_ok k"
  "kcp_ok (k\<lparr>rx_srtt := x21\<rparr>) = kcp_ok k"
  "kcp_ok (k\<lparr>rx_rttval := x22\<rparr>) = kcp_ok k"
  by (simp_all add: kcp_ok_def kcp_parts)

lemma int_unat_u32: "int (unat (w :: u32)) = uint w"
  by simp

lemma sint_nonneg:
  assumes "uint (w :: u32) < 2 ^ 31"
  shows "sint w = uint w"
proof -
  have "- (2 ^ 31) \<le> uint w" by (rule order_trans [of _ 0]) simp_all
  then have "signed_take_bit 31 (uint w) = uint w" using assms by (intro signed_take_bit_int_eq_self) simp_all
  then show ?thesis by (simp add: sint_uint)
qed

lemma sint_small: "w \<le> 60000 \<Longrightarrow> sint (w :: u32) = uint w"
  by (rule sint_nonneg) (simp add: word_le_def)

lemma ibound_range:
  assumes "m \<in> {30, 100}"
  shows "30 \<le> sint (ibound (of_int m) x IKCP_RTO_MAX)" and "sint (ibound (of_int m) x IKCP_RTO_MAX) \<le> 60000"
proof -
  have "30 \<le> (of_int m :: u32)" using assms by auto
  then have "30 \<le> max (of_int m) x" by (rule order_trans) simp
  then have "ibound (of_int m) x IKCP_RTO_MAX \<le> 60000" "30 \<le> ibound (of_int m) x IKCP_RTO_MAX"
    by (simp_all add: ibound_def IKCP_RTO_MAX_def)
  then show "30 \<le> sint (ibound (of_int m) x IKCP_RTO_MAX)" "sint (ibound (of_int m) x IKCP_RTO_MAX) \<le> 60000"
    by (simp_all add: sint_small) (simp_all add: word_le_def)
qed

lemma update_ack_form:
  "\<exists>s v r. ikcp_update_ack rtt k = k\<lparr>rx_srtt := s, rx_rttval := v, rx_rto := r\<rparr>
    \<and> (\<exists>x. r = sint (ibound (of_int (rx_minrto k)) x IKCP_RTO_MAX))"
proof (intro exI conjI)
  show "ikcp_update_ack rtt k = k\<lparr>rx_srtt := rx_srtt (ikcp_update_ack rtt k),
      rx_rttval := rx_rttval (ikcp_update_ack rtt k), rx_rto := rx_rto (ikcp_update_ack rtt k)\<rparr>"
    by (rule ikcpcb.equality) (simp_all add: ikcp_update_ack_def Let_def)
  show "rx_rto (ikcp_update_ack rtt k) = sint (ibound (of_int (rx_minrto k))
      (of_int (rx_srtt (ikcp_update_ack rtt k)) + max (kinterval k) (of_int (4 * rx_rttval (ikcp_update_ack rtt k)))) IKCP_RTO_MAX)"
    by (simp add: ikcp_update_ack_def Let_def)
qed

lemma update_ack_ok: "kcp_ok k \<Longrightarrow> kcp_ok (ikcp_update_ack rtt k)"
  using update_ack_form [of rtt k] ibound_range [of "rx_minrto k"] by (auto simp: kcp_ok_def kcp_parts)

lemma shrink_ok [simp]: "kcp_ok (ikcp_shrink_buf k) = kcp_ok k"
  by (simp add: ikcp_shrink_buf_def)

lemma delete_acked_form:
  "\<exists>xs ys. ss = xs @ ys \<and> (\<forall>x \<in> set xs. s_sn x \<noteq> sn) \<and>
     (delete_acked sn ss = (False, ss) \<or> (\<exists>y zs. ys = y # zs \<and> s_sn y = sn \<and> delete_acked sn ss = (True, xs @ zs)))"
proof (induction ss)
  case (Cons seg ss)
  then obtain xs ys where IH: "ss = xs @ ys" "\<forall>x \<in> set xs. s_sn x \<noteq> sn"
    "delete_acked sn ss = (False, ss) \<or> (\<exists>y zs. ys = y # zs \<and> s_sn y = sn \<and> delete_acked sn ss = (True, xs @ zs))" by blast
  consider (here) "sn = s_sn seg" | (stop) "sn \<noteq> s_sn seg" "itimediff sn (s_sn seg) < 0"
    | (on) "sn \<noteq> s_sn seg" "\<not> itimediff sn (s_sn seg) < 0" by blast
  then show ?case
  proof cases
    case here
    then show ?thesis by (intro exI [of _ "[]"] exI [of _ "seg # ss"]) auto
  next
    case stop
    then show ?thesis by (intro exI [of _ "[]"] exI [of _ "seg # ss"]) auto
  next
    case on
    then show ?thesis using IH by (intro exI [of _ "seg # xs"] exI [of _ ys]) auto
  qed
qed simp

lemma parse_ack_ok: "kcp_ok k \<Longrightarrow> kcp_ok (ikcp_parse_ack sn k)"
  using delete_acked_form [of "snd_buf k" sn]
  by (auto simp: ikcp_parse_ack_def kcp_ok_def kcp_parts)

lemma parse_una_ok: "kcp_ok k \<Longrightarrow> kcp_ok (ikcp_parse_una una k)"
  using parse_una_form [of k una] by (auto simp: kcp_ok_def kcp_parts list_all_take_drop)

lemma count_skipped_form:
  "list_all2 (\<lambda>x y. y = x\<lparr>s_fastack := s_fastack y\<rparr>) ss (count_skipped sn ss)"
  by (induction ss) (auto simp: list_all2_same)

lemma seg_fits_same [simp]: "seg_fits n (x\<lparr>s_fastack := f\<rparr>) = seg_fits n x"
  by (simp add: seg_fits_def)

lemma list_all2_list_all:
  assumes "list_all2 R xs ys" and "list_all P xs" and "\<And>x y. R x y \<Longrightarrow> P x \<Longrightarrow> Q y"
  shows "list_all Q ys"
  using assms by (induction rule: list_all2_induct) auto

lemma parse_fastack_ok:
  assumes "kcp_ok k"
  shows "kcp_ok (ikcp_parse_fastack sn k)"
proof -
  note form = count_skipped_form [of "snd_buf k" sn]
  have "list_all (seg_fits (unat (kmss k))) (snd_buf k)" using assms by (simp add: kcp_ok_def snd_ok_def)
  then have "list_all (seg_fits (unat (kmss k))) (count_skipped sn (snd_buf k))"
    by (rule list_all2_list_all [OF form]) (metis seg_fits_same)
  moreover have "length (count_skipped sn (snd_buf k)) = length (snd_buf k)" using list_all2_lengthD [OF form] by simp
  ultimately show ?thesis using assms by (simp add: ikcp_parse_fastack_def kcp_ok_def kcp_parts)
qed

lemma new_block_ge: "0 < b \<Longrightarrow> n \<le> new_block b n"
proof (induction b n rule: new_block.induct)
  case (1 b n)
  then show ?case by (cases "b < n") (simp_all add: new_block.simps [of b n])
qed

lemma ack_push_form:
  "\<exists>b. ikcp_ack_push sn ts k = Ok (k\<lparr>ackblock := b, acklist := take (ackcount k) (acklist k) @ [(sn, ts)],
     ackcount := ackcount k + 1\<rparr>)"
  using new_block_ge [of 8 "Suc (ackcount k)"]
  by (cases "ackblock k < Suc (ackcount k)")
    (auto simp: ikcp_ack_push_def Let_def Suc_le_eq intro: exI [of _ "ackblock k"] exI [of _ "new_block 8 (Suc (ackcount k))"])

lemma ack_push_ok: "kcp_ok k \<Longrightarrow> ikcp_ack_push sn ts k = Ok k' \<Longrightarrow> kcp_ok k'"
  using ack_push_form [of sn ts k] by (auto simp: kcp_ok_def kcp_parts)

lemma insert_from_end_form:
  "insert_from_end new ss = Some ss' \<Longrightarrow> \<exists>xs ys. ss = xs @ ys \<and> ss' = xs @ new # ys"
proof (induction ss arbitrary: ss')
  case (Cons seg ss)
  show ?case
  proof (cases "s_sn seg = s_sn new \<or> 0 < itimediff (s_sn new) (s_sn seg)")
    case True
    then show ?thesis using Cons.prems by (auto split: if_splits intro: exI [of _ "[]"])
  next
    case False
    then obtain t where t: "insert_from_end new ss = Some t" "ss' = seg # t" using Cons.prems by auto
    from Cons.IH [OF t(1)] obtain xs ys where "ss = xs @ ys" "t = xs @ new # ys" by blast
    then show ?thesis using t(2) by (intro exI [of _ "seg # xs"] exI [of _ ys]) simp
  qed
qed simp

lemma move_ready_ok: "kcp_ok k \<Longrightarrow> kcp_ok (move_ready k)"
  using move_ready_form [of k] by (auto simp: kcp_ok_def kcp_parts list_all_take_drop)

lemma parse_data_ok:
  assumes "kcp_ok k" and "seg_fits (2 ^ 31 - 1) new"
  shows "kcp_ok (ikcp_parse_data new k)"
proof (cases "insert_from_end new (rev (rcv_buf k))")
  case None
  then show ?thesis using assms(1) move_ready_ok by (simp add: ikcp_parse_data_def)
next
  case (Some ss)
  from insert_from_end_form [OF Some] obtain xs ys where xs: "rcv_buf k = rev ys @ rev xs" "ss = xs @ new # ys"
    by (metis rev_append rev_rev_ident)
  have "kcp_ok (k\<lparr>rcv_buf := rev ss, nrcv_buf := nrcv_buf k + 1\<rparr>)"
    using assms xs by (simp add: kcp_ok_def kcp_parts)
  then show ?thesis using Some assms(1) move_ready_ok by (simp add: ikcp_parse_data_def)
qed

definition segment_of :: "u32 \<Rightarrow> khdr \<Rightarrow> byte list \<Rightarrow> kseg" where
  "segment_of conv h bs = \<lparr>s_conv = conv, s_cmd = ucast (h_cmd h), s_frg = ucast (h_frg h), s_wnd = ucast (h_wnd h),
     s_ts = h_ts h, s_sn = h_sn h, s_una = h_una h, s_len = h_len h, s_resendts = 0, s_rto = 0, s_fastack = 0, s_xmit = 0,
     s_data = bs\<rparr>"

lemma received_segment_ok:
  assumes "uint (h_len h) < 2 ^ 31" and "unat (h_len h) \<le> length buf"
  shows "received_segment conv h buf = Ok (segment_of conv h (take (unat (h_len h)) buf))"
    and "seg_fits (2 ^ 31 - 1) (segment_of conv h (take (unat (h_len h)) buf))"
proof -
  show "received_segment conv h buf = Ok (segment_of conv h (take (unat (h_len h)) buf))"
    using assms by (simp add: received_segment_def read_mem_def sint_nonneg segment_of_def not_less)
  have "unat (h_len h) \<le> 2 ^ 31 - 1" proof -
    have "int (unat (h_len h)) < 2147483648" using assms(1) by (simp only: int_unat_u32) simp
    then have "unat (h_len h) < 2147483648" by linarith
    then show ?thesis by simp
  qed
  then show "seg_fits (2 ^ 31 - 1) (segment_of conv h (take (unat (h_len h)) buf))"
    using assms(2) by (simp add: seg_fits_def segment_of_def)
qed

lemma input_push_ok:
  assumes "kcp_ok k" and "uint (h_len h) < 2 ^ 31" and "unat (h_len h) \<le> length buf"
  shows "\<exists>k'. input_push conv h buf k = Ok k' \<and> kcp_ok k'"
proof -
  obtain k1 where k1: "ikcp_ack_push (h_sn h) (h_ts h) k = Ok k1" using ack_push_form by blast
  note ok = ack_push_ok [OF assms(1) k1]
  show ?thesis using assms(1) ok parse_data_ok [OF ok received_segment_ok(2) [OF assms(2,3)]]
    by (simp add: input_push_def k1 received_segment_ok(1) [OF assms(2,3)])
qed

lemma input_ack_ok: "kcp_ok k \<Longrightarrow> kcp_ok (input_ack h k)"
  by (simp add: input_ack_def Let_def parse_ack_ok update_ack_ok)

lemma input_command_ok:
  assumes "kcp_ok (snd s)" and "uint (h_len h) < 2 ^ 31" and "unat (h_len h) \<le> length buf"
  shows "\<exists>s'. input_command h buf s = Ok s' \<and> kcp_ok (snd s')"
proof -
  obtain m k0 where s: "s = (m, k0)" by (cases s)
  let ?k = "ikcp_shrink_buf (ikcp_parse_una (h_una h) (k0\<lparr>rmt_wnd := ucast (h_wnd h)\<rparr>))"
  have ok: "kcp_ok ?k" using assms(1) s parse_una_ok by simp
  obtain k' where k': "input_push (kconv ?k) h buf ?k = Ok k'" "kcp_ok k'"
    using input_push_ok [OF ok assms(2,3)] by blast
  then show ?thesis using input_ack_ok [OF ok, of h] ok
    by (cases "ucast (h_cmd h) = IKCP_CMD_ACK"; cases "ucast (h_cmd h) = IKCP_CMD_PUSH")
      (simp_all add: input_command_def s Let_def del: shrink_ok)
qed

lemma input_segments_step:
  assumes "24 \<le> sz" and "24 \<le> length buf" and "decode_header (drop 4 buf) = Ok (h, drop 24 buf)"
  shows "input_segments buf sz s =
    (if of_mem (take 4 buf) \<noteq> kconv (snd s) then Ok (-1, s)
     else if sz - 24 < uint (h_len h) then Ok (-2, s)
     else if \<not> known_command (h_cmd h) then Ok (-3, s)
     else bindR (input_command h (drop 24 buf) s)
       (input_segments (drop (unat (h_len h)) (drop 24 buf)) (sz - 24 - uint (h_len h))))"
  using assms by (simp add: input_segments.simps [of buf sz s] IKCP_OVERHEAD_def ikcp_decode32u_def decode_bytes_ok)

lemma decode_at_24:
  assumes "24 \<le> length buf"
  obtains h where "decode_header (drop 4 buf) = Ok (h, drop 24 buf)"
proof -
  have "20 \<le> length (drop 4 buf)" using assms by simp
  from decode_header_ok [OF this] that show thesis by auto
qed

lemma input_segments_ok:
  assumes "kcp_ok (snd s)" and "sz < 2 ^ 31" and "sz \<le> int (length buf)"
  shows "\<exists>r s'. input_segments buf sz s = Ok (r, s') \<and> kcp_ok (snd s')"
  using assms
proof (induction "length buf" arbitrary: buf sz s rule: less_induct)
  case less
  show ?case
  proof (cases "sz < 24")
    case True
    then have "input_segments buf sz s = Ok (0, s)" by (simp add: input_segments.simps [of buf sz s] IKCP_OVERHEAD_def)
    then show ?thesis using less.prems(1) by (cases s) simp
  next
    case False
    then have long: "24 \<le> length buf" "24 \<le> sz" using less.prems(3) by simp_all
    obtain h where h: "decode_header (drop 4 buf) = Ok (h, drop 24 buf)" by (rule decode_at_24 [OF long(1)])
    note step = input_segments_step [OF long(2,1) h]
    show ?thesis
    proof (cases "of_mem (take 4 buf) = kconv (snd s) \<and> \<not> sz - 24 < uint (h_len h) \<and> known_command (h_cmd h)")
      case False
      then have "\<exists>r. input_segments buf sz s = Ok (r, s)" by (auto simp: step)
      then show ?thesis using less.prems(1) by (cases s) auto
    next
      case True
      let ?n = "unat (h_len h)"
      have n: "int ?n = uint (h_len h)" by (rule int_unat_u32)
      have fit: "uint (h_len h) \<le> sz - 24" using True by simp
      then have len: "uint (h_len h) < 2 ^ 31" using less.prems(2) by linarith
      have "int ?n \<le> int (length buf) - 24" using fit less.prems(3) n by linarith
      then have n_le: "?n \<le> length (drop 24 buf)" unfolding length_drop by linarith
      from input_command_ok [OF less.prems(1) len n_le] obtain s1 where
        s1: "input_command h (drop 24 buf) s = Ok s1" "kcp_ok (snd s1)" by blast
      have "sz - 24 - uint (h_len h) < 2 ^ 31" "sz - 24 - uint (h_len h) \<le> int (length (drop ?n (drop 24 buf)))"
        using less.prems(2,3) n long n_le unfolding length_drop by linarith+
      from less.hyps [OF _ s1(2) this] long(1) show ?thesis using True s1(1) by (simp add: step)
    qed
  qed
qed

lemma grow_cwnd_form: "\<exists>c i. grow_cwnd k = k\<lparr>cwnd := c, kincr := i\<rparr>"
proof (intro exI)
  show "grow_cwnd k = k\<lparr>cwnd := cwnd (grow_cwnd k), kincr := kincr (grow_cwnd k)\<rparr>"
    by (rule ikcpcb.equality) (simp_all add: grow_cwnd_def Let_def)
qed

lemma grow_cwnd_ok [simp]: "kcp_ok (grow_cwnd k) = kcp_ok k"
  using grow_cwnd_form [of k] by auto

text \<open>Whatever the bytes are, \<open>ikcp_input\<close> reads none behind them and keeps the invariant.\<close>

lemma input_ok:
  assumes "kcp_ok k" and "sz < 2 ^ 31" and "sz \<le> int (length buf)"
  shows "\<exists>r k'. ikcp_input buf sz k = Ok (r, k') \<and> kcp_ok k'"
proof (cases "sz < int IKCP_OVERHEAD")
  case True
  then show ?thesis using assms(1) by (simp add: ikcp_input_def)
next
  case False
  from input_segments_ok [of "(None, k)", OF _ assms(2,3)] assms(1) obtain r m k1
    where k1: "input_segments buf sz (None, k) = Ok (r, m, k1)" "kcp_ok k1" by auto
  have "kcp_ok (case m of None \<Rightarrow> k1 | Some a \<Rightarrow> ikcp_parse_fastack a k1)"
    using k1(2) parse_fastack_ok by (auto split: option.split)
  then show ?thesis using False k1 by (simp add: ikcp_input_def Let_def)
qed

end
