(* ===== verification/KcpSafe.thy ===== *)
theory KcpSafe
  imports KcpInv
begin

text \<open>
  The other operations of KCP keep the invariant of theory \<open>KcpInv\<close>: sending, receiving, flushing and the
  settings. Then no sequence of calls faults, and no datagram is longer than the maximal size.
\<close>

section \<open>Sending\<close>

text \<open>What \<open>ikcp_send\<close> makes of a message: the number of fragments still to come, and the bytes.\<close>

primrec fragments :: "nat \<Rightarrow> bool \<Rightarrow> nat \<Rightarrow> byte list \<Rightarrow> (u32 \<times> byte list) list" where
  "fragments mss stream 0 bs = []"
| "fragments mss stream (Suc r) bs = (if stream then 0 else of_nat r, take mss bs) # fragments mss stream r (drop mss bs)"

lemma length_fragments [simp]: "length (fragments mss stream r bs) = r"
  by (induction r arbitrary: bs) simp_all

definition unsent :: "u32 \<times> byte list \<Rightarrow> kseg" where
  "unsent = (\<lambda>(f, bs). new_seg f bs)"

lemma seg_fits_new:
  assumes "length bs \<le> n" and "n < 2 ^ 32"
  shows "seg_fits n (new_seg f bs)"
  using assms by (simp add: seg_fits_def new_seg_def unat_of_nat)

lemma take_piece: "length buf = len \<Longrightarrow> (if m < len then m else len) \<le> length buf \<and>
    take (if m < len then m else len) buf = take m buf \<and> drop (if m < len then m else len) buf = drop m buf"
  by simp

lemma send_fragments_form:
  "send_fragments r buf (length buf) k = Ok (k\<lparr>snd_queue := snd_queue k @ map unsent (fragments (unat (kmss k)) (kstream k \<noteq> 0) r buf),
     nsnd_que := nsnd_que k + r\<rparr>)"
proof (induction r arbitrary: buf k)
  case (Suc r)
  let ?m = "unat (kmss k)" and ?size = "if unat (kmss k) < length buf then unat (kmss k) else length buf"
  let ?k = "k\<lparr>snd_queue := snd_queue k @ [new_seg (if kstream k = 0 then of_nat r else 0) (take ?m buf)], nsnd_que := nsnd_que k + 1\<rparr>"
  have "send_fragments (Suc r) buf (length buf) k = send_fragments r (drop ?m buf) (length buf - ?size) ?k"
    using take_piece [of buf "length buf" ?m, OF refl] by (simp only: send_fragments.simps Let_def read_mem_def if_True bindR_Ok)
  also have "length buf - ?size = length (drop ?m buf)" by simp
  finally show ?case unfolding Suc.IH by (simp add: unsent_def)
qed simp

lemma fragments_fit:
  assumes "mss < 2 ^ 32"
  shows "list_all (seg_fits mss) (map unsent (fragments mss stream r bs))"
  using assms by (induction r arbitrary: bs) (simp_all add: unsent_def seg_fits_new)

lemma kcp_ok_mss: "kcp_ok k \<Longrightarrow> 0 < unat (kmss k) \<and> unat (kmss k) < 2 ^ 31"
  by (simp add: kcp_ok_def kcp_config_def)

lemma send_fragments_ok:
  assumes "kcp_ok k"
  shows "\<exists>k'. send_fragments r buf (length buf) k = Ok k' \<and> kcp_ok k'"
  using assms kcp_ok_mss [OF assms] fragments_fit [of "unat (kmss k)" "kstream k \<noteq> 0" r buf]
  by (simp add: send_fragments_form kcp_ok_def kcp_parts)

lemma send_rest_ok:
  assumes "kcp_ok k"
  shows "\<exists>r k'. send_rest buf (length buf) k = Ok (r, k') \<and> kcp_ok k'"
proof (cases "255 < fragment_count (length buf) (kmss k)")
  case False
  obtain k' where "send_fragments (fragment_count (length buf) (kmss k)) buf (length buf) k = Ok k'" "kcp_ok k'"
    using send_fragments_ok [OF assms] by blast
  then show ?thesis using False by (simp add: send_rest_def)
qed (use assms in \<open>simp add: send_rest_def\<close>)

lemma extend_last_ok:
  assumes "kcp_ok k"
  shows "\<exists>n k'. extend_last buf (length buf) k = Ok (n, k') \<and> kcp_ok k' \<and> n \<le> length buf"
proof (cases "snd_queue k = [] \<or> \<not> s_len (last (snd_queue k)) < kmss k")
  case True
  then show ?thesis using assms by (simp add: extend_last_def)
next
  case False
  let ?old = "last (snd_queue k)" and ?cap = "unat (kmss k - s_len (last (snd_queue k)))"
  let ?n = "if length buf < ?cap then length buf else ?cap"
  have q: "snd_queue k = butlast (snd_queue k) @ [?old]" using False by simp
  have "list_all (seg_fits (unat (kmss k))) (butlast (snd_queue k) @ [?old])"
    using assms q by (simp add: kcp_ok_def snd_ok_def)
  then have fits: "list_all (seg_fits (unat (kmss k))) (butlast (snd_queue k))" "seg_fits (unat (kmss k)) ?old" by simp_all
  have "?cap = unat (kmss k) - unat (s_len ?old)" using False by (intro unat_sub) (simp add: less_imp_le)
  then have "length (s_data ?old @ take ?n buf) \<le> unat (kmss k)" using fits(2) by (auto simp: seg_fits_def)
  moreover have "unat (kmss k) < 2 ^ 32" using kcp_ok_mss [OF assms] by simp
  ultimately have new: "seg_fits (unat (kmss k)) (new_seg 0 (s_data ?old @ take ?n buf))" by (rule seg_fits_new)
  have "length (butlast (snd_queue k)) + 1 = length (snd_queue k)" using False by simp
  with new fits(1) assms have "kcp_ok (k\<lparr>snd_queue := butlast (snd_queue k) @ [new_seg 0 (s_data ?old @ take ?n buf)]\<rparr>)"
    by (simp add: kcp_ok_def kcp_parts)
  moreover have "extend_last buf (length buf) k
      = Ok (?n, k\<lparr>snd_queue := butlast (snd_queue k) @ [new_seg 0 (s_data ?old @ take ?n buf)]\<rparr>)"
    using False by (simp add: extend_last_def Let_def read_mem_def)
  ultimately show ?thesis by auto
qed

lemma send_ok:
  assumes "kcp_ok k"
  shows "\<exists>r k'. ikcp_send buf (int (length buf)) k = Ok (r, k') \<and> kcp_ok k'"
proof -
  have "0 < kmss k" using kcp_ok_mss [OF assms] by (simp add: word_gt_0 unat_gt_0)
  moreover obtain n k1 where k1: "extend_last buf (length buf) k = Ok (n, k1)" "kcp_ok k1" "n \<le> length buf"
    using extend_last_ok [OF assms] by blast
  moreover have "length (drop n buf) = length buf - n" by simp
  ultimately show ?thesis using send_rest_ok [OF k1(2), of "drop n buf"] send_rest_ok [OF assms, of buf]
    by (auto simp: ikcp_send_def)
qed

section \<open>Receiving\<close>

lemma first_message_append: "fst (first_message ss) @ snd (first_message ss) = ss"
  by (induction ss) (auto simp: split_beta Let_def)

lemma recv_no_message [simp]: "rcv_queue k = [] \<Longrightarrow> ikcp_recv len k = Ok (-1, [], k)"
  by (simp add: ikcp_recv_def)

lemma peeksize_sum: "rcv_queue k \<noteq> [] \<Longrightarrow> 0 \<le> ikcp_peeksize k \<Longrightarrow> ikcp_peeksize k = sint (sum_message (rcv_queue k))"
  by (cases "rcv_queue k") (auto simp: ikcp_peeksize_def split: if_splits)

text \<open>The length the assertion of \<open>ikcp_recv\<close> compares is always right; what can fail is the copy.\<close>

lemma recv_form:
  assumes "rcv_queue k \<noteq> []" and "0 \<le> ikcp_peeksize k" and "ikcp_peeksize k \<le> \<bar>len\<bar>"
  shows "\<exists>p. ikcp_recv len k = bindR (copy_out \<bar>len\<bar> (fst (first_message (rcv_queue k)))) (\<lambda>bs. Ok (ikcp_peeksize k, bs,
    (move_ready (if len < 0 then k else k\<lparr>rcv_queue := snd (first_message (rcv_queue k)),
       nrcv_que := nrcv_que k - length (fst (first_message (rcv_queue k)))\<rparr>))\<lparr>kprobe := p\<rparr>))"
proof -
  let ?k1 = "if len < 0 then k else k\<lparr>rcv_queue := snd (first_message (rcv_queue k)),
       nrcv_que := nrcv_que k - length (fst (first_message (rcv_queue k)))\<rparr>"
  let ?p = "if nrcv_que (move_ready ?k1) < unat (rcv_wnd (move_ready ?k1)) \<and> unat (rcv_wnd k) \<le> nrcv_que k
    then kprobe (move_ready ?k1) OR IKCP_ASK_TELL else kprobe (move_ready ?k1)"
  have "ikcp_recv len k = bindR (copy_out \<bar>len\<bar> (fst (first_message (rcv_queue k))))
      (\<lambda>bs. Ok (ikcp_peeksize k, bs, (move_ready ?k1)\<lparr>kprobe := ?p\<rparr>))"
    using assms peeksize_sum [OF assms(1,2)]
    by (cases "nrcv_que (move_ready ?k1) < unat (rcv_wnd (move_ready ?k1)) \<and> unat (rcv_wnd k) \<le> nrcv_que k")
      (simp_all only: ikcp_recv_def Let_def split_beta if_True if_False not_less [symmetric] assertR_True simp_thms, simp_all)
  then show ?thesis by blast
qed

lemma recv_refused:
  assumes "\<not> (rcv_queue k \<noteq> [] \<and> 0 \<le> ikcp_peeksize k \<and> ikcp_peeksize k \<le> \<bar>len\<bar>)"
  shows "\<exists>r < 0. ikcp_recv len k = Ok (r, [], k)"
  using assms by (auto simp: ikcp_recv_def Let_def)

lemma copy_out_fits:
  assumes "list_all (seg_fits n) ss" and "0 \<le> room"
  shows "copy_out room ss = (if int (length (concat (map s_data ss))) \<le> room then Ok (concat (map s_data ss)) else Fail OutOfBounds)"
  using assms
proof (induction ss arbitrary: room)
  case (Cons seg ss)
  then have len: "unat (s_len seg) = length (s_data seg)" by (simp add: seg_fits_def)
  show ?case
  proof (cases "room < int (length (s_data seg))")
    case True
    then show ?thesis by (simp add: copy_fragment_def read_mem_def len)
  next
    case False
    then show ?thesis using Cons.IH [of "room - int (length (s_data seg))"] Cons.prems
      by (auto simp: copy_fragment_def read_mem_def len)
  qed
qed simp

lemma first_message_all:
  "list_all P ss \<Longrightarrow> list_all P (fst (first_message ss)) \<and> list_all P (snd (first_message ss))"
  by (metis first_message_append list_all_append)

text \<open>The sum is the number of bytes modulo 2^32.\<close>

lemma sum_message_bytes:
  assumes "list_all (seg_fits n) ss"
  shows "sum_message ss = of_nat (length (concat (map s_data (fst (first_message ss)))))"
  using assms
proof (induction ss)
  case (Cons seg ss)
  then have "s_len seg = of_nat (length (s_data seg))" by (simp add: seg_fits_def) (metis of_nat_unat ucast_id)
  then show ?case using Cons by (simp add: split_beta Let_def)
qed simp

lemma recv_ok:
  assumes "kcp_ok k" and "ikcp_recv len k = Ok (r, bs, k')"
  shows "kcp_ok k'"
proof (cases "rcv_queue k \<noteq> [] \<and> 0 \<le> ikcp_peeksize k \<and> ikcp_peeksize k \<le> \<bar>len\<bar>")
  case False
  then show ?thesis using recv_refused [OF False] assms by auto
next
  case True
  let ?m = "first_message (rcv_queue k)"
  have "list_all (seg_fits (2 ^ 31 - 1)) (fst ?m @ snd ?m)" "length (fst ?m @ snd ?m) = nrcv_que k"
    using assms(1) by (simp_all only: first_message_append kcp_ok_def rcv_ok_def)
  then have "kcp_ok (k\<lparr>rcv_queue := snd ?m, nrcv_que := nrcv_que k - length (fst ?m)\<rparr>)"
    using assms(1) by (simp add: kcp_ok_def kcp_parts)
  then have "kcp_ok (move_ready (if len < 0 then k else k\<lparr>rcv_queue := snd ?m, nrcv_que := nrcv_que k - length (fst ?m)\<rparr>))"
    using assms(1) move_ready_ok by simp
  then show ?thesis using recv_form [of k len] True assms(2) by (cases "copy_out \<bar>len\<bar> (fst ?m)") auto
qed

text \<open>
  The user's buffer holds the message as long as the segments of the queue have less than 2^31 bytes
  together; \<open>d\<close> bounds a segment and \<open>w\<close> their number.
\<close>

definition rcv_small :: "nat \<Rightarrow> nat \<Rightarrow> ikcpcb \<Rightarrow> bool" where
  "rcv_small d w k \<longleftrightarrow> list_all (\<lambda>seg. length (s_data seg) \<le> d) (rcv_queue k @ rcv_buf k) \<and> nrcv_que k \<le> w \<and> unat (rcv_wnd k) \<le> w"

lemma sint_of_nat_small: "n < 2 ^ 31 \<Longrightarrow> sint (of_nat n :: u32) = int n"
  using itimediff_near [of n 0] by (simp add: itimediff_def)

lemma bytes_le: "list_all (\<lambda>seg. length (s_data seg) \<le> d) ss \<Longrightarrow> length (concat (map s_data ss)) \<le> d * length ss"
  by (induction ss) auto

lemma recv_returns:
  assumes "kcp_ok k" and "rcv_small d w k" and "d * w < 2 ^ 31"
  shows "\<exists>r bs k'. ikcp_recv len k = Ok (r, bs, k')"
proof (cases "rcv_queue k \<noteq> [] \<and> 0 \<le> ikcp_peeksize k \<and> ikcp_peeksize k \<le> \<bar>len\<bar>")
  case False
  then show ?thesis using recv_refused by blast
next
  case True
  let ?ms = "fst (first_message (rcv_queue k))"
  have fits: "list_all (seg_fits (2 ^ 31 - 1)) (rcv_queue k)" and n: "nrcv_que k = length (rcv_queue k)"
    using assms(1) by (simp_all only: kcp_ok_def rcv_ok_def)
  have "list_all (\<lambda>seg. length (s_data seg) \<le> d) ?ms" using assms(2) first_message_all by (simp add: rcv_small_def)
  then have "length (concat (map s_data ?ms)) \<le> d * length ?ms" by (rule bytes_le)
  also have "length ?ms \<le> length (rcv_queue k)"
    using arg_cong [OF first_message_append [of "rcv_queue k"], of length] by simp
  then have "d * length ?ms \<le> d * w" using assms(2) n by (simp add: rcv_small_def)
  finally have small: "length (concat (map s_data ?ms)) < 2 ^ 31" using assms(3) by linarith
  have "ikcp_peeksize k = int (length (concat (map s_data ?ms)))"
    using True peeksize_sum [of k] sint_of_nat_small [OF small] unfolding sum_message_bytes [OF fits] by metis
  then have "copy_out \<bar>len\<bar> ?ms = Ok (concat (map s_data ?ms))"
    using copy_out_fits [of _ ?ms "\<bar>len\<bar>"] first_message_all [OF fits] True by auto
  then show ?thesis using recv_form [of k len] True by auto
qed

text \<open>
  Otherwise the comparison with \<open>len\<close> does not protect the buffer: it is the sum modulo 2^32 that is compared, as an \<open>int\<close>.
\<close>

lemma recv_overruns_buffer:
  assumes "kcp_ok k" and "rcv_queue k \<noteq> []" and "0 \<le> ikcp_peeksize k" and "ikcp_peeksize k \<le> \<bar>len\<bar>"
    and "\<bar>len\<bar> < int (length (concat (map s_data (fst (first_message (rcv_queue k))))))"
  shows "ikcp_recv len k = Fail OutOfBounds"
proof -
  have "list_all (seg_fits (2 ^ 31 - 1)) (rcv_queue k)" using assms(1) by (simp add: kcp_ok_def rcv_ok_def)
  from copy_out_fits [OF conjunct1 [OF first_message_all [OF this]], of "\<bar>len\<bar>"] assms(5)
  have "copy_out \<bar>len\<bar> (fst (first_message (rcv_queue k))) = Fail OutOfBounds" by simp
  then show ?thesis using recv_form [OF assms(2-4)] by auto
qed

section \<open>Flushing\<close>

text \<open>
  A datagram is a sequence of encoded segments with their data. \<open>P\<close> is what is claimed of each of them.
\<close>

definition wire :: "kseg \<Rightarrow> byte list" where
  "wire seg = ikcp_encode_seg seg @ s_data seg"

definition framed :: "(kseg \<Rightarrow> bool) \<Rightarrow> byte list \<Rightarrow> bool" where
  "framed P d \<longleftrightarrow> (\<exists>fs. d = concat (map wire fs) \<and> list_all P fs)"

definition out_ok :: "ikcpcb \<Rightarrow> (kseg \<Rightarrow> bool) \<Rightarrow> kout \<Rightarrow> bool" where
  "out_ok k P w \<longleftrightarrow> length (pend w) \<le> unat (kmtu k) \<and> framed P (pend w)
     \<and> list_all (\<lambda>d. length d \<le> unat (kmtu k) \<and> framed P d) (outs w)"

lemma framed_Nil [simp]: "framed P []"
  unfolding framed_def by (rule exI [of _ "[]"]) simp

lemma framed_append:
  assumes "framed P d" and "P seg"
  shows "framed P (d @ wire seg)"
proof -
  obtain fs where "d = concat (map wire fs)" "list_all P fs" using assms(1) by (auto simp: framed_def)
  then show ?thesis unfolding framed_def using assms(2) by (intro exI [of _ "fs @ [seg]"]) simp
qed

lemma framed_mono: "framed P d \<Longrightarrow> (\<And>seg. P seg \<Longrightarrow> Q seg) \<Longrightarrow> framed Q d"
  unfolding framed_def list_all_iff by blast

lemma config_mtu:
  assumes "kcp_config k"
  shows "sint (kmtu k) = int (unat (kmtu k))"
proof -
  have "unat (kmtu k) \<le> 2 ^ 30" using assms unfolding kcp_config_def by blast
  then have "unat (kmtu k) \<le> 1073741824" by simp
  then have "int (unat (kmtu k)) < 2147483648" by linarith
  then have "uint (kmtu k) < 2 ^ 31" unfolding int_unat_u32 by simp
  then show ?thesis by (simp add: sint_nonneg)
qed

lemma make_room_ok:
  assumes "kcp_config k" and "out_ok k P w" and "need \<le> unat (kmtu k)"
  shows "\<exists>w'. make_room k need w = Ok w' \<and> out_ok k P w' \<and> length (pend w') + need \<le> unat (kmtu k)"
proof (cases "unat (kmtu k) < length (pend w) + need")
  case True
  have "koutput k" using assms(1) by (simp add: kcp_config_def)
  then show ?thesis using True assms(2,3)
    by (simp add: make_room_def config_mtu [OF assms(1)] ikcp_output_def out_ok_def del: of_nat_add of_nat_unat)
qed (use assms(2) in \<open>simp add: make_room_def config_mtu [OF assms(1)] del: of_nat_add of_nat_unat\<close>)

lemma put_header_ok:
  assumes "kcp_config k" and "out_ok k P w" and "P seg" and "s_data seg = []"
  shows "\<exists>w'. put_header k seg w = Ok w' \<and> out_ok k P w'"
proof -
  have "IKCP_OVERHEAD \<le> unat (kmtu k)" using assms(1) by (simp add: kcp_config_def IKCP_OVERHEAD_def)
  from make_room_ok [OF assms(1,2) this] obtain w1 where w1: "make_room k IKCP_OVERHEAD w = Ok w1" "out_ok k P w1"
    "length (pend w1) + IKCP_OVERHEAD \<le> unat (kmtu k)" by blast
  have "kbuffer k \<ge> unat (kmtu k)" using assms(1) by (simp add: kcp_config_def)
  moreover have "framed P (pend w1 @ ikcp_encode_seg seg)"
    using framed_append [of P "pend w1" seg] w1(2) assms(3,4) by (simp add: out_ok_def wire_def)
  ultimately show ?thesis using w1 by (simp add: put_header_def put_bytes_def out_ok_def)
qed

lemma put_segment_ok:
  assumes "kcp_config k" and "out_ok k P w" and "P seg" and "seg_fits (unat (kmss k)) seg"
  shows "\<exists>w'. put_segment k seg w = Ok w' \<and> out_ok k P w'"
proof -
  have len: "unat (s_len seg) = length (s_data seg)" "length (s_data seg) \<le> unat (kmss k)"
    using assms(4) by (simp_all add: seg_fits_def)
  have "IKCP_OVERHEAD + unat (s_len seg) \<le> unat (kmtu k)" using assms(1) len by (simp add: kcp_config_def IKCP_OVERHEAD_def)
  from make_room_ok [OF assms(1,2) this] obtain w1 where w1: "make_room k (IKCP_OVERHEAD + unat (s_len seg)) w = Ok w1"
    "out_ok k P w1" "length (pend w1) + (IKCP_OVERHEAD + unat (s_len seg)) \<le> unat (kmtu k)" by blast
  have buf: "unat (kmtu k) \<le> kbuffer k" using assms(1) by (simp add: kcp_config_def)
  have framed: "framed P (pend w1 @ ikcp_encode_seg seg @ s_data seg)"
    using framed_append [of P "pend w1" seg] w1(2) assms(3) by (simp add: out_ok_def wire_def)
  have empty: "s_data seg = []" if "\<not> 0 < s_len seg" using that len(1) by (simp add: word_gt_0)
  show ?thesis
    using w1 len buf framed empty
    by (cases "0 < s_len seg") (simp_all add: put_segment_def put_bytes_def read_mem_def out_ok_def)
qed

text \<open>What retransmission leaves alone in a segment.\<close>

definition same_content :: "kseg \<Rightarrow> kseg \<Rightarrow> bool" where
  "same_content x y \<longleftrightarrow> s_len y = s_len x \<and> s_data y = s_data x \<and> s_frg y = s_frg x \<and> s_sn y = s_sn x
     \<and> s_conv y = s_conv x \<and> s_cmd y = s_cmd x"

lemma same_content_refl [simp]: "same_content x x"
  by (simp add: same_content_def)

lemma same_content_refreshed: "same_content x (refreshed k why x)"
  by (cases why) (simp_all add: same_content_def refreshed_def Let_def)

lemma same_content_fits: "same_content x y \<Longrightarrow> seg_fits n y = seg_fits n x"
  by (simp add: same_content_def seg_fits_def)

lemma flush_segments_ok:
  assumes "kcp_config k" and "out_ok k P w" and "list_all (seg_fits (unat (kmss k))) ss"
    and "\<And>x y. x \<in> set ss \<Longrightarrow> same_content x y \<Longrightarrow> s_una y = rcv_nxt k \<Longrightarrow> P y"
  shows "\<exists>rs w'. flush_segments k ss w = Ok (rs, w') \<and> out_ok k P w' \<and> list_all2 same_content ss (map snd rs)"
  using assms(2-4)
proof (induction ss arbitrary: w)
  case (Cons seg ss)
  let ?why = "send_reason (kcurrent k) (resent_limit k) seg"
  have IH: "\<exists>rs w'. flush_segments k ss v = Ok (rs, w') \<and> out_ok k P w' \<and> list_all2 same_content ss (map snd rs)"
    if "out_ok k P v" for v
    by (rule Cons.IH [OF that]) (use Cons.prems(2,3) in \<open>simp_all, blast\<close>)
  show ?case
  proof (cases "?why = NotNow")
    case True
    then show ?thesis using IH [OF Cons.prems(1)] by (auto simp: Let_def)
  next
    case False
    have same: "same_content seg (refreshed k ?why seg)" by (rule same_content_refreshed)
    then have "P (refreshed k ?why seg)" "seg_fits (unat (kmss k)) (refreshed k ?why seg)"
      using Cons.prems(2) Cons.prems(3) [of seg] by (simp_all add: same_content_fits refreshed_def)
    from put_segment_ok [OF assms(1) Cons.prems(1) this] obtain w1 where
      w1: "put_segment k (refreshed k ?why seg) w = Ok w1" "out_ok k P w1" by blast
    from IH [OF w1(2)] obtain rs w2 where "flush_segments k ss w1 = Ok (rs, w2)" "out_ok k P w2"
      "list_all2 same_content ss (map snd rs)" by blast
    then show ?thesis using w1(1) False same by (simp add: Let_def)
  qed
qed simp

lemma control_seg_fields [simp]:
  "s_data (control_seg cmd sn ts k) = []" "s_cmd (control_seg cmd sn ts k) = cmd" "s_sn (control_seg cmd sn ts k) = sn"
  "s_una (control_seg cmd sn ts k) = rcv_nxt k" "s_conv (control_seg cmd sn ts k) = kconv k" "s_len (control_seg cmd sn ts k) = 0"
  "s_frg (control_seg cmd sn ts k) = 0"
  by (simp_all add: control_seg_def new_seg_def)

lemma flush_acks_ok:
  assumes "kcp_config k" and "out_ok k P w" and "\<And>a. a \<in> set as \<Longrightarrow> P (control_seg IKCP_CMD_ACK (fst a) (snd a) k)"
  shows "\<exists>w'. flush_acks k as w = Ok w' \<and> out_ok k P w'"
  using assms(2,3)
proof (induction as arbitrary: w)
  case (Cons a as)
  from put_header_ok [OF assms(1) Cons.prems(1), of "control_seg IKCP_CMD_ACK (fst a) (snd a) k"] Cons.prems(2)
  obtain w1 where "put_header k (control_seg IKCP_CMD_ACK (fst a) (snd a) k) w = Ok w1" "out_ok k P w1" by auto
  then show ?case using Cons.IH [of w1] Cons.prems(2) by simp
qed simp

lemma flush_probe_ok:
  assumes "kcp_config k" and "out_ok k P w" and "P (control_seg cmd (fst a) (snd a) k)"
  shows "\<exists>w'. flush_probe ask cmd a k w = Ok w' \<and> out_ok k P w'"
  using put_header_ok [OF assms(1-3)] assms(2) by (simp add: flush_probe_def)

lemma update_probe_form: "\<exists>a b c. update_probe k = k\<lparr>probe_wait := a, ts_probe := b, kprobe := c\<rparr>"
proof (intro exI)
  show "update_probe k = k\<lparr>probe_wait := probe_wait (update_probe k), ts_probe := ts_probe (update_probe k),
      kprobe := kprobe (update_probe k)\<rparr>"
    by (rule ikcpcb.equality) (simp_all add: update_probe_def Let_def)
qed

lemma adapt_cwnd_form: "\<exists>a b c. adapt_cwnd wnd whys k = k\<lparr>ssthresh := a, cwnd := b, kincr := c\<rparr>"
proof (intro exI)
  show "adapt_cwnd wnd whys k = k\<lparr>ssthresh := ssthresh (adapt_cwnd wnd whys k), cwnd := cwnd (adapt_cwnd wnd whys k),
      kincr := kincr (adapt_cwnd wnd whys k)\<rparr>"
    by (rule ikcpcb.equality) (simp_all add: adapt_cwnd_def Let_def)
qed

text \<open>What flushing leaves alone.\<close>

definition same_receiver :: "ikcpcb \<Rightarrow> ikcpcb \<Rightarrow> bool" where
  "same_receiver k k' \<longleftrightarrow> rcv_nxt k' = rcv_nxt k \<and> rcv_queue k' = rcv_queue k \<and> rcv_buf k' = rcv_buf k
     \<and> nrcv_que k' = nrcv_que k \<and> nrcv_buf k' = nrcv_buf k \<and> kconv k' = kconv k \<and> kstream k' = kstream k \<and> kmss k' = kmss k
     \<and> rcv_wnd k' = rcv_wnd k"

text \<open>\<open>ms\<close> are the segments that got their number.\<close>

definition numbered_by :: "u32 \<Rightarrow> u32 \<Rightarrow> kseg list \<Rightarrow> kseg list \<Rightarrow> bool" where
  "numbered_by conv nxt ms ns \<longleftrightarrow> length ns = length ms \<and> (\<forall>i<length ms. s_len (ns ! i) = s_len (ms ! i)
     \<and> s_data (ns ! i) = s_data (ms ! i) \<and> s_frg (ns ! i) = s_frg (ms ! i) \<and> s_sn (ns ! i) = nxt + of_nat i
     \<and> s_conv (ns ! i) = conv \<and> s_cmd (ns ! i) = IKCP_CMD_PUSH)"

lemma numbered_by_fits:
  assumes "numbered_by conv nxt ms ns" and "list_all (seg_fits n) ms"
  shows "list_all (seg_fits n) ns"
  using assms by (simp add: numbered_by_def list_all_length seg_fits_def)

lemma list_all2_fits:
  assumes "list_all2 same_content xs ys" and "list_all (seg_fits n) xs"
  shows "list_all (seg_fits n) ys"
  by (rule list_all2_list_all [OF assms]) (simp add: same_content_fits)

definition kcp_flushed :: "ikcpcb \<Rightarrow> ikcpcb \<Rightarrow> bool" where
  "kcp_flushed k k' \<longleftrightarrow> same_receiver k k' \<and> (\<exists>ms ns. snd_queue k = ms @ snd_queue k' \<and> numbered_by (kconv k) (snd_nxt k) ms ns
     \<and> snd_nxt k' = snd_nxt k + of_nat (length ms) \<and> list_all2 same_content (snd_buf k @ ns) (snd_buf k'))"

lemma control_seg_same:
  "control_seg cmd sn ts (k\<lparr>ackcount := n, probe_wait := a, ts_probe := b, kprobe := c\<rparr>) = control_seg cmd sn ts k"
  by (simp add: control_seg_def ikcp_wnd_unused_def)

lemma flush_ok:
  assumes ok: "kcp_ok k"
    and data: "\<And>ms ss ns x y. snd_queue k = ms @ ss \<Longrightarrow> numbered_by (kconv k) (snd_nxt k) ms ns \<Longrightarrow>
      x \<in> set (snd_buf k @ ns) \<Longrightarrow> same_content x y \<Longrightarrow> s_una y = rcv_nxt k \<Longrightarrow> P y"
    and acks: "\<And>a. a \<in> set (take (ackcount k) (acklist k)) \<Longrightarrow> P (control_seg IKCP_CMD_ACK (fst a) (snd a) k)"
    and probes: "\<And>cmd sn ts. cmd \<in> {IKCP_CMD_WASK, IKCP_CMD_WINS} \<Longrightarrow> P (control_seg cmd sn ts k)"
  shows "\<exists>ds k'. ikcp_flush k = Ok (ds, k') \<and> kcp_ok k' \<and> kcp_flushed k k'
    \<and> list_all (\<lambda>d. length d \<le> unat (kmtu k) \<and> framed P d) ds"
proof (cases "updated k")
  case False
  have "kcp_flushed k k" unfolding kcp_flushed_def numbered_by_def same_receiver_def
    by (intro conjI exI [of _ "[]"]) (simp_all add: list_all2_same)
  then show ?thesis using False ok by (simp add: ikcp_flush_def)
next
  case True
  have config: "kcp_config k" using ok by (simp add: kcp_ok_def)
  define w0 where "w0 = \<lparr>pend = [], outs = []\<rparr>"
  have "out_ok k P w0" by (simp add: out_ok_def w0_def)
  from flush_acks_ok [OF config this acks] obtain w1 where
    w1: "flush_acks k (take (ackcount k) (acklist k)) w0 = Ok w1" "out_ok k P w1" by blast
  obtain a b c where probe: "update_probe (k\<lparr>ackcount := 0\<rparr>) = k\<lparr>ackcount := 0, probe_wait := a, ts_probe := b, kprobe := c\<rparr>"
    using update_probe_form [of "k\<lparr>ackcount := 0\<rparr>"] by blast
  define k1 where "k1 = update_probe (k\<lparr>ackcount := 0\<rparr>)"
  have config1: "kcp_config k1" and out1: "out_ok k1 P = out_ok k P"
    using config by (simp_all add: k1_def probe kcp_config_def out_ok_def fun_eq_iff)
  have ctrl: "P (control_seg cmd (fst (last_ack k)) (snd (last_ack k)) k1)" if "cmd \<in> {IKCP_CMD_WASK, IKCP_CMD_WINS}" for cmd
    using probes [OF that] by (simp add: k1_def probe control_seg_same)
  obtain w2 where w2: "flush_probe IKCP_ASK_SEND IKCP_CMD_WASK (last_ack k) k1 w1 = Ok w2" "out_ok k1 P w2"
    using flush_probe_ok [OF config1, of P w1 IKCP_CMD_WASK "last_ack k" IKCP_ASK_SEND] w1(2) out1 ctrl by auto
  obtain w3 where w3: "flush_probe IKCP_ASK_TELL IKCP_CMD_WINS (last_ack k) k1 w2 = Ok w3" "out_ok k1 P w3"
    using flush_probe_ok [OF config1 w2(2), of IKCP_CMD_WINS "last_ack k" IKCP_ASK_TELL] ctrl by auto
  define k2 where "k2 = move_to_buf (flush_window k1) (k1\<lparr>kprobe := 0\<rparr>)"
  obtain ms ss ns where m: "snd_queue k = ms @ ss" "numbered_by (kconv k) (snd_nxt k) ms ns"
    "k2 = k1\<lparr>kprobe := 0, snd_queue := ss, snd_buf := snd_buf k @ ns, nsnd_que := nsnd_que k - length ms,
       nsnd_buf := nsnd_buf k + length ms, snd_nxt := snd_nxt k + of_nat (length ms)\<rparr>"
    using move_to_buf_form [of "k1\<lparr>kprobe := 0\<rparr>" "flush_window k1"] that
    unfolding k2_def numbered_by_def by (auto simp: k1_def probe)
  have parts: "nsnd_que k = length ms + length ss" "list_all (seg_fits (unat (kmss k))) ms"
    "list_all (seg_fits (unat (kmss k))) ss" "list_all (seg_fits (unat (kmss k))) (snd_buf k)" "nsnd_buf k = length (snd_buf k)"
    using ok m(1) by (simp_all add: kcp_ok_def snd_ok_def)
  have fits: "list_all (seg_fits (unat (kmss k))) (snd_buf k @ ns)"
    using numbered_by_fits [OF m(2) parts(2)] parts(4) by simp
  have config2: "kcp_config k2" "out_ok k2 P = out_ok k P" "unat (kmss k2) = unat (kmss k)" "rcv_nxt k2 = rcv_nxt k"
    using config1 out1 by (simp_all add: m(3) kcp_config_def out_ok_def fun_eq_iff k1_def probe)
  obtain rs w4 where w4: "flush_segments k2 (snd_buf k @ ns) w3 = Ok (rs, w4)" "out_ok k2 P w4"
    "list_all2 same_content (snd_buf k @ ns) (map snd rs)"
    using flush_segments_ok [OF config2(1), of P w3 "snd_buf k @ ns"] fits w3(2) out1 config2(2-4) data [OF m(1,2)] by auto
  obtain w5 where w5: "(if pend w4 = [] then Ok w4 else ikcp_output k2 w4) = Ok w5"
    "list_all (\<lambda>d. length d \<le> unat (kmtu k) \<and> framed P d) (outs w5)"
  proof -
    have "out_ok k P w4" "koutput k2" using w4(2) config2(1,2) by (simp_all add: kcp_config_def)
    then show thesis using that by (cases "pend w4 = []") (simp_all add: ikcp_output_def out_ok_def)
  qed
  define k3 where "k3 = k2\<lparr>snd_buf := map snd rs, kxmit := kxmit k2 + of_nat (length (filter (\<lambda>r. fst r = TimedOut) rs)),
     kstate := (if list_ex (\<lambda>(why, seg). why \<noteq> NotNow \<and> dead_link k2 \<le> s_xmit seg) rs then -1 else kstate k2)\<rparr>"
  obtain x y z where adapt: "adapt_cwnd (flush_window k1) (map fst rs) k3 = k3\<lparr>ssthresh := x, cwnd := y, kincr := z\<rparr>"
    using adapt_cwnd_form by blast
  have buf2: "snd_buf k2 = snd_buf k @ ns" by (simp add: m(3))
  have result: "ikcp_flush k = Ok (outs w5, k3\<lparr>ssthresh := x, cwnd := y, kincr := z\<rparr>)"
    using True
    by (simp only: ikcp_flush_def Let_def not_True_eq_False if_False w0_def [symmetric] w1(1) bindR_Ok k1_def [symmetric]
        w2(1) w3(1) k2_def [symmetric] buf2 w4(1) prod.case w5(1) k3_def [symmetric] adapt)
  have len: "length (map snd rs) = length (snd_buf k) + length ms"
    using list_all2_lengthD [OF w4(3)] m(2) by (simp add: numbered_by_def)
  have "snd_ok k3" using parts len list_all2_fits [OF w4(3) fits] by (simp add: snd_ok_def k3_def m(3) k1_def probe)
  moreover have "rcv_ok k3" "kcp_times k3" "kcp_config k3"
    using ok config2(1) by (simp_all add: kcp_ok_def rcv_ok_def kcp_times_def kcp_config_def k3_def m(3) k1_def probe)
  ultimately have "kcp_ok k3" by (simp add: kcp_ok_def)
  then have "kcp_ok (k3\<lparr>ssthresh := x, cwnd := y, kincr := z\<rparr>)" by simp
  moreover have "kcp_flushed k (k3\<lparr>ssthresh := x, cwnd := y, kincr := z\<rparr>)"
    unfolding kcp_flushed_def same_receiver_def using m(1,2) w4(3)
    by (intro conjI exI [of _ ms] exI [of _ ns]) (simp_all add: k3_def m(3) k1_def probe)
  ultimately show ?thesis using result w5(2) by blast
qed

text \<open>\<open>ikcp_update\<close> sets the times and flushes or not.\<close>

lemma update_form:
  "\<exists>t. ikcp_update current k = Ok ([], k\<lparr>kcurrent := current, updated := True, ts_flush := t\<rparr>)
    \<or> ikcp_update current k = ikcp_flush (k\<lparr>kcurrent := current, updated := True, ts_flush := t\<rparr>)"
proof -
  define t0 where "t0 = (if updated k then ts_flush k else current)"
  define K where "K = k\<lparr>kcurrent := current, updated := True, ts_flush := t0\<rparr>"
  have start: "(if updated (k\<lparr>kcurrent := current\<rparr>) then k\<lparr>kcurrent := current\<rparr>
      else k\<lparr>kcurrent := current, updated := True, ts_flush := current\<rparr>) = K"
    unfolding K_def by (rule ikcpcb.equality) (simp_all add: t0_def)
  have K: "K\<lparr>ts_flush := t\<rparr> = k\<lparr>kcurrent := current, updated := True, ts_flush := t\<rparr>" for t by (simp add: K_def)
  have self: "K = K\<lparr>ts_flush := ts_flush K\<rparr>" by simp
  have merge: "x\<lparr>ts_flush := a, ts_flush := b\<rparr> = x\<lparr>ts_flush := b\<rparr>" for x :: ikcpcb and a b by simp
  have "\<exists>t. ikcp_update current k = ikcp_flush (K\<lparr>ts_flush := t\<rparr>)"
    if "10000 \<le> itimediff current (ts_flush K) \<or> itimediff current (ts_flush K) < -10000"
    unfolding ikcp_update_def start Let_def if_P [OF that] if_P [OF order_refl] merge by (rule exI, rule refl)
  moreover have "\<exists>t. ikcp_update current k = ikcp_flush (K\<lparr>ts_flush := t\<rparr>)"
    if "\<not> (10000 \<le> itimediff current (ts_flush K) \<or> itimediff current (ts_flush K) < -10000)" "0 \<le> itimediff current (ts_flush K)"
    unfolding ikcp_update_def start Let_def if_not_P [OF that(1)] if_P [OF that(2)] by (rule exI, rule refl)
  moreover have "ikcp_update current k = Ok ([], K\<lparr>ts_flush := ts_flush K\<rparr>)"
    if "\<not> (10000 \<le> itimediff current (ts_flush K) \<or> itimediff current (ts_flush K) < -10000)" "\<not> 0 \<le> itimediff current (ts_flush K)"
    unfolding ikcp_update_def start Let_def if_not_P [OF that(1)] if_not_P [OF that(2)] by simp
  ultimately show ?thesis unfolding K by blast
qed

lemma flush_safe:
  assumes "kcp_ok k"
  shows "\<exists>ds k'. ikcp_flush k = Ok (ds, k') \<and> kcp_ok k' \<and> kmtu k' = kmtu k \<and> list_all (\<lambda>d. length d \<le> unat (kmtu k)) ds"
proof -
  from flush_ok [OF assms, of "\<lambda>_. True"] obtain ds k' where k': "ikcp_flush k = Ok (ds, k')" "kcp_ok k'" "kcp_flushed k k'"
    "list_all (\<lambda>d. length d \<le> unat (kmtu k) \<and> framed (\<lambda>_. True) d) ds" by auto
  have "unat (kmtu k') = unat (kmtu k)"
    using assms k'(2,3) by (simp add: kcp_ok_def kcp_config_def kcp_flushed_def same_receiver_def)
  then have "kmtu k' = kmtu k" by (simp only: unsigned_word_eqI)
  moreover have "list_all (\<lambda>d. length d \<le> unat (kmtu k)) ds" using k'(4) by (simp add: list_all_iff)
  ultimately show ?thesis using k'(1,2) by blast
qed

section \<open>Times and settings\<close>

lemma setmtu_ok:
  assumes "kcp_ok k" and "50 \<le> m" and "int (unat (kmtu k)) \<le> m" and "m \<le> 2 ^ 30"
  shows "kcp_ok (snd (ikcp_setmtu m k)) \<and> int (unat (kmtu (snd (ikcp_setmtu m k)))) = m"
proof -
  obtain n where n: "m = int n" using assms(2) nonneg_int_cases [of m] by auto
  have bounds: "50 \<le> n" "n \<le> 2 ^ 30" "unat (kmtu k) \<le> n" using assms(2-4) n by (simp_all del: of_nat_unat)
  have word: "of_int m = (of_nat n :: u32)" by (simp add: n)
  have mtu: "unat (of_nat n :: u32) = n" using bounds(2) by (simp add: unat_of_nat)
  have "(of_nat n :: u32) - of_nat IKCP_OVERHEAD = of_nat (n - 24)"
    using bounds(1) by (simp add: IKCP_OVERHEAD_def of_nat_diff)
  then have mss: "unat ((of_nat n :: u32) - of_nat IKCP_OVERHEAD) = n - 24" using bounds(2) by (simp add: unat_of_nat)
  have "((of_nat n :: u32) + of_nat IKCP_OVERHEAD) * 3 = of_nat ((n + 24) * 3)" by (simp add: IKCP_OVERHEAD_def)
  then have buffer: "buffer_size (of_nat n) = (n + 24) * 3"
    using bounds(2) unfolding buffer_size_def by (simp only: unat_of_nat) simp
  have old: "unat (kmss k) \<le> n - 24" using assms(1) bounds(3) by (simp add: kcp_ok_def kcp_config_def)
  have more: "list_all (seg_fits (unat (kmss k))) ss \<Longrightarrow> list_all (seg_fits (n - 24)) ss" for ss
    using old by (auto simp: list_all_iff seg_fits_def intro: order_trans)
  have "ikcp_setmtu m k = (0, k\<lparr>kmtu := of_nat n, kmss := of_nat n - of_nat IKCP_OVERHEAD, kbuffer := (n + 24) * 3\<rparr>)"
    using assms(2) unfolding ikcp_setmtu_def word buffer by (simp add: IKCP_OVERHEAD_def)
  then show ?thesis using assms(1) more mtu mss bounds n by (simp add: kcp_ok_def kcp_parts del: of_nat_unat)
qed

lemma update_safe:
  assumes "kcp_ok k"
  shows "\<exists>ds k'. ikcp_update t k = Ok (ds, k') \<and> kcp_ok k' \<and> kmtu k' = kmtu k \<and> list_all (\<lambda>d. length d \<le> unat (kmtu k)) ds"
proof -
  have ok: "kcp_ok (k\<lparr>kcurrent := t, updated := True, ts_flush := f\<rparr>)" for f using assms by simp
  then show ?thesis using update_form [of t k] flush_safe [OF ok] by (auto simp del: kcp_ok_same)
qed

lemma settings_ok:
  assumes "kcp_ok k"
  shows "kcp_ok (ikcp_wndsize a b k)" "kcp_ok (ikcp_nodelay c d e f k)" "kcp_ok (ikcp_interval i k)"
proof -
  show "kcp_ok (ikcp_wndsize a b k)" "kcp_ok (ikcp_interval i k)"
    using assms by (simp_all add: ikcp_wndsize_def ikcp_interval_def Let_def)
  have "kcp_ok (k\<lparr>nodelay := x, rx_minrto := (if c \<noteq> 0 then IKCP_RTO_NDL else IKCP_RTO_MIN)\<rparr>)" for x
    using assms by (simp add: kcp_ok_def kcp_parts IKCP_RTO_NDL_def IKCP_RTO_MIN_def)
  then show "kcp_ok (ikcp_nodelay c d e f k)" using assms by (simp add: ikcp_nodelay_def Let_def)
qed

end
