(* ===== verification/KcpInput.thy ===== *)
theory KcpInput
  imports KcpSafe
begin

text \<open>
  What \<open>ikcp_input\<close> does to the sending side of a control block, and inductions over the segments of arbitrary
  bytes and of a peer's datagrams.
\<close>

section \<open>The sender under input\<close>

text \<open>
  Input only takes segments out of \<open>snd_buf\<close>; \<open>D\<close> says which numbers it may take.
\<close>

definition snd_step :: "(u32 \<Rightarrow> bool) \<Rightarrow> ikcpcb \<Rightarrow> ikcpcb \<Rightarrow> bool" where
  "snd_step D k k' \<longleftrightarrow> kconv k' = kconv k \<and> kmtu k' = kmtu k \<and> kmss k' = kmss k \<and> kstream k' = kstream k
     \<and> snd_nxt k' = snd_nxt k \<and> snd_queue k' = snd_queue k
     \<and> (\<forall>y \<in> set (snd_buf k'). \<exists>x \<in> set (snd_buf k). same_content x y)
     \<and> (\<forall>x \<in> set (snd_buf k). D (s_sn x) \<or> (\<exists>y \<in> set (snd_buf k'). same_content x y))"

lemma same_content_trans: "same_content x y \<Longrightarrow> same_content y z \<Longrightarrow> same_content x z"
  by (simp add: same_content_def)

lemma snd_step_refl [simp]: "snd_step D k k"
  unfolding snd_step_def by (meson same_content_refl)

lemma snd_step_trans:
  assumes "snd_step D k1 k2" and "snd_step D k2 k3"
  shows "snd_step D k1 k3"
proof -
  have "\<exists>x \<in> set (snd_buf k1). same_content x z" if z: "z \<in> set (snd_buf k3)" for z
  proof -
    obtain y where y: "y \<in> set (snd_buf k2)" "same_content y z" using assms(2) z unfolding snd_step_def by blast
    obtain x where "x \<in> set (snd_buf k1)" "same_content x y" using assms(1) y(1) unfolding snd_step_def by blast
    then show ?thesis using y(2) same_content_trans by blast
  qed
  moreover have "D (s_sn x) \<or> (\<exists>z \<in> set (snd_buf k3). same_content x z)" if x: "x \<in> set (snd_buf k1)" for x
  proof (cases "D (s_sn x)")
    case False
    then obtain y where y: "y \<in> set (snd_buf k2)" "same_content x y" using assms(1) x unfolding snd_step_def by blast
    then have "s_sn y = s_sn x" by (simp add: same_content_def)
    then obtain z where "z \<in> set (snd_buf k3)" "same_content y z"
      using assms(2) y(1) False unfolding snd_step_def by metis
    then show ?thesis using y(2) same_content_trans by blast
  qed simp
  ultimately show ?thesis using assms unfolding snd_step_def by simp
qed

lemma snd_step_mono: "snd_step D k k' \<Longrightarrow> (\<And>sn. D sn \<Longrightarrow> E sn) \<Longrightarrow> snd_step E k k'"
  unfolding snd_step_def by blast

lemma snd_step_same:
  assumes "kconv k' = kconv k" "kmtu k' = kmtu k" "kmss k' = kmss k" "kstream k' = kstream k" "snd_nxt k' = snd_nxt k"
    "snd_queue k' = snd_queue k" "snd_buf k' = snd_buf k"
  shows "snd_step D k k'"
  unfolding snd_step_def assms by (meson same_content_refl)

lemma snd_step_subset:
  assumes "kconv k' = kconv k" "kmtu k' = kmtu k" "kmss k' = kmss k" "kstream k' = kstream k" "snd_nxt k' = snd_nxt k"
    "snd_queue k' = snd_queue k" and "set (snd_buf k') \<subseteq> set (snd_buf k)"
    and "\<And>x. x \<in> set (snd_buf k) \<Longrightarrow> x \<notin> set (snd_buf k') \<Longrightarrow> D (s_sn x)"
  shows "snd_step D k k'"
  unfolding snd_step_def assms(1-6) using assms(7,8) by (meson same_content_refl subsetD)

lemma parse_una_step: "snd_step (\<lambda>sn. 0 < itimediff una sn) k (ikcp_parse_una una k)"
proof -
  obtain j where j: "j \<le> length (snd_buf k)"
    "ikcp_parse_una una k = k\<lparr>snd_buf := drop j (snd_buf k), nsnd_buf := nsnd_buf k - j\<rparr>"
    "\<forall>i<j. 0 < itimediff una (s_sn (snd_buf k ! i))" using parse_una_form by blast
  have "0 < itimediff una (s_sn x)" if "x \<in> set (take j (snd_buf k))" for x
    using that j(1,3) by (auto simp: in_set_conv_nth)
  moreover have "set (snd_buf k) = set (take j (snd_buf k)) \<union> set (drop j (snd_buf k))"
    by (metis append_take_drop_id set_append)
  ultimately show ?thesis unfolding j(2) by (intro snd_step_subset) auto
qed

lemma parse_ack_step: "snd_step (\<lambda>n. n = sn) k (ikcp_parse_ack sn k)"
proof -
  obtain xs ys where xs: "snd_buf k = xs @ ys" "delete_acked sn (snd_buf k) = (False, snd_buf k)
      \<or> (\<exists>y zs. ys = y # zs \<and> s_sn y = sn \<and> delete_acked sn (snd_buf k) = (True, xs @ zs))"
    using delete_acked_form [of "snd_buf k" sn] by (elim exE conjE) (rule that, assumption+)
  consider (out) "\<not> acceptable_ack sn k" | (none) "acceptable_ack sn k" "delete_acked sn (snd_buf k) = (False, snd_buf k)"
    | (found) y zs where "acceptable_ack sn k" "ys = y # zs" "s_sn y = sn" "delete_acked sn (snd_buf k) = (True, xs @ zs)"
    using xs(2) by blast
  then show ?thesis
  proof cases
    case out
    then show ?thesis by (simp add: ikcp_parse_ack_def)
  next
    case none
    show ?thesis by (rule snd_step_same) (simp_all add: ikcp_parse_ack_def none)
  next
    case found
    have result: "ikcp_parse_ack sn k = k\<lparr>snd_buf := xs @ zs, nsnd_buf := nsnd_buf k - 1\<rparr>"
      by (simp add: ikcp_parse_ack_def found(1,4))
    show ?thesis unfolding result by (rule snd_step_subset) (use xs(1) found(2,3) in auto)
  qed
qed

lemma parse_fastack_step: "snd_step D k (ikcp_parse_fastack sn k)"
proof (cases "acceptable_ack sn k")
  case True
  have same: "same_content x y" if "y = x\<lparr>s_fastack := s_fastack y\<rparr>" for x y
    unfolding same_content_def by (subst (1 2 3 4 5 6) that) simp
  have "list_all2 same_content (snd_buf k) (count_skipped sn (snd_buf k))"
    by (rule list_all2_mono [OF count_skipped_form]) (rule same)
  then have "\<forall>y \<in> set (count_skipped sn (snd_buf k)). \<exists>x \<in> set (snd_buf k). same_content x y"
    "\<forall>x \<in> set (snd_buf k). \<exists>y \<in> set (count_skipped sn (snd_buf k)). same_content x y"
    unfolding list_all2_conv_all_nth in_set_conv_nth Ball_def Bex_def by metis+
  then show ?thesis using True by (simp add: ikcp_parse_fastack_def snd_step_def)
qed (simp add: ikcp_parse_fastack_def)

lemma shrink_step [simp]: "snd_step D k (ikcp_shrink_buf k)"
  by (rule snd_step_same) (simp_all add: ikcp_shrink_buf_def)

lemma update_ack_step [simp]: "snd_step D k (ikcp_update_ack rtt k)"
  using update_ack_form [of rtt k] by (auto intro!: snd_step_same)

lemma move_ready_step [simp]: "snd_step D k (move_ready k)"
  using move_ready_form [of k] by (auto intro!: snd_step_same)

lemma input_push_step: "input_push conv h buf k = Ok k' \<Longrightarrow> snd_step D k k'"
proof -
  assume "input_push conv h buf k = Ok k'"
  moreover obtain k1 where k1: "ikcp_ack_push (h_sn h) (h_ts h) k = Ok k1" "snd_step D k k1"
  proof -
    obtain b where "ikcp_ack_push (h_sn h) (h_ts h) k = Ok (k\<lparr>ackblock := b,
        acklist := take (ackcount k) (acklist k) @ [(h_sn h, h_ts h)], ackcount := ackcount k + 1\<rparr>)"
      using ack_push_form by blast
    moreover have "snd_step D k (k\<lparr>ackblock := b,
        acklist := take (ackcount k) (acklist k) @ [(h_sn h, h_ts h)], ackcount := ackcount k + 1\<rparr>)"
      by (rule snd_step_same) simp_all
    ultimately show thesis by (rule that)
  qed
  moreover have "snd_step D k1 (ikcp_parse_data new k1)" for new
  proof (cases "insert_from_end new (rev (rcv_buf k1))")
    case (Some ss)
    have "snd_step D k1 (k1\<lparr>rcv_buf := rev ss, nrcv_buf := nrcv_buf k1 + 1\<rparr>)" by (rule snd_step_same) simp_all
    then show ?thesis using Some snd_step_trans [OF _ move_ready_step] by (simp add: ikcp_parse_data_def)
  qed (simp add: ikcp_parse_data_def)
  ultimately show ?thesis by (auto simp: input_push_def split: if_splits intro: snd_step_trans)
qed

text \<open>The numbers that a segment with the header \<open>h\<close> acknowledges.\<close>

definition acknowledges :: "khdr \<Rightarrow> u32 \<Rightarrow> bool" where
  "acknowledges h sn \<longleftrightarrow> 0 < itimediff (h_una h) sn \<or> ((ucast (h_cmd h) :: u32) = IKCP_CMD_ACK \<and> sn = h_sn h)"

lemma input_command_step:
  assumes "input_command h buf s = Ok s'"
  shows "snd_step (acknowledges h) (snd s) (snd s')"
proof -
  obtain m k0 where s: "s = (m, k0)" by (cases s)
  let ?k = "ikcp_shrink_buf (ikcp_parse_una (h_una h) (k0\<lparr>rmt_wnd := ucast (h_wnd h)\<rparr>))"
  have "snd_step (acknowledges h) k0 (k0\<lparr>rmt_wnd := ucast (h_wnd h)\<rparr>)" by (rule snd_step_same) simp_all
  moreover have "snd_step (acknowledges h) k1 (ikcp_parse_una (h_una h) k1)" for k1
    by (rule snd_step_mono [OF parse_una_step]) (simp add: acknowledges_def)
  ultimately have start: "snd_step (acknowledges h) k0 ?k" using snd_step_trans shrink_step by blast
  have ack: "snd_step (acknowledges h) k1 (input_ack h k1)" if cmd: "(ucast (h_cmd h) :: u32) = IKCP_CMD_ACK" for k1
  proof -
    have parse: "snd_step (acknowledges h) k2 (ikcp_shrink_buf (ikcp_parse_ack (h_sn h) k2))" for k2
      by (rule snd_step_trans [OF snd_step_mono [OF parse_ack_step] shrink_step]) (simp add: acknowledges_def cmd)
    show ?thesis unfolding input_ack_def Let_def by (rule snd_step_trans [OF _ parse]) simp
  qed
  have "snd_step (acknowledges h) ?k (snd s')"
    using assms ack input_push_step [of _ h buf ?k _ "acknowledges h"]
    by (auto simp: input_command_def s Let_def split: if_splits intro: snd_step_same)
  then show ?thesis using start snd_step_trans by (simp add: s)
qed

lemma grow_cwnd_step [simp]: "snd_step D k (grow_cwnd k)"
  using grow_cwnd_form [of k] by (auto intro!: snd_step_same)

section \<open>Induction over the segments of a datagram\<close>

lemma input_segments_cases:
  assumes "input_segments buf sz s = Ok (r, s')"
  obtains (stop) "s' = s"
  | (go) buf1 h buf2 s1 where "\<not> sz < int IKCP_OVERHEAD" "ikcp_decode32u buf = Ok (kconv (snd s), buf1)"
      "decode_header buf1 = Ok (h, buf2)" "\<not> sz - int IKCP_OVERHEAD < uint (h_len h)" "known_command (h_cmd h)"
      "input_command h buf2 s = Ok s1"
      "input_segments (drop (unat (h_len h)) buf2) (sz - int IKCP_OVERHEAD - uint (h_len h)) s1 = Ok (r, s')"
  using assms by (auto simp: input_segments.simps [of buf sz s] split: if_splits)

lemma decode_shorter:
  assumes "ikcp_decode32u buf = Ok (c, buf1)" and "decode_header buf1 = Ok (h, buf2)"
  shows "length buf2 \<le> length buf"
  using assms by (auto simp: decode_header_def ikcp_decode32u_def ikcp_decode16u_def ikcp_decode8u_def decode_bytes_def
      bindR_eq_Ok split: if_splits)

lemma input_segments_bounded:
  assumes "\<And>h b s s1. length b \<le> n \<Longrightarrow> input_command h b s = Ok s1 \<Longrightarrow> Q (snd s) (snd s1)"
    and "\<And>k. Q k k" and "\<And>k1 k2 k3. Q k1 k2 \<Longrightarrow> Q k2 k3 \<Longrightarrow> Q k1 k3"
  shows "length buf \<le> n \<Longrightarrow> input_segments buf sz s = Ok (r, s') \<Longrightarrow> Q (snd s) (snd s')"
proof (induction buf sz s rule: input_segments.induct)
  case (1 buf sz s)
  from 1(3) show ?case
  proof (cases rule: input_segments_cases)
    case stop
    then show ?thesis using assms(2) by simp
  next
    case (go buf1 h buf2 s1)
    have short: "length buf2 \<le> n" using decode_shorter [OF go(2,3)] 1(2) by linarith
    have "Q (snd s1) (snd s')"
      by (rule 1(1) [OF go(1,2) refl _ go(3) refl go(4) _ go(6) _ go(7)]) (use go(5) short in simp_all)
    then show ?thesis using assms(1) [OF short go(6)] assms(3) by blast
  qed
qed

lemma input_segments_rel:
  assumes "\<And>h buf s s1. input_command h buf s = Ok s1 \<Longrightarrow> Q (snd s) (snd s1)"
    and "\<And>k. Q k k" and "\<And>k1 k2 k3. Q k1 k2 \<Longrightarrow> Q k2 k3 \<Longrightarrow> Q k1 k3"
  shows "input_segments buf sz s = Ok (r, s') \<Longrightarrow> Q (snd s) (snd s')"
  using input_segments_bounded [of "length buf" Q] assms by blast

text \<open>A datagram of a peer: one segment after the other.\<close>

lemma input_segments_wire:
  assumes "unat (s_len seg) = length (s_data seg)"
  shows "input_segments (wire seg @ bs) (int (length (wire seg @ bs))) s =
    (if s_conv seg \<noteq> kconv (snd s) then Ok (-1, s)
     else if \<not> known_command (ucast (s_cmd seg)) then Ok (-3, s)
     else bindR (input_command (header_of seg) (s_data seg @ bs) s) (input_segments bs (int (length bs))))"
proof -
  obtain p where p: "ikcp_decode32u (ikcp_encode_seg seg @ s_data seg @ bs) = Ok (s_conv seg, p)"
    "decode_header p = Ok (header_of seg, s_data seg @ bs)" using decode_encode_seg by blast
  have "uint (s_len seg) = int (length (s_data seg))" using assms by (metis int_unat_u32)
  then show ?thesis using p assms unfolding wire_def append_assoc
    by (subst input_segments.simps) (simp add: header_of_def)
qed

lemma input_segments_framed:
  assumes fs: "list_all P fs" "\<And>seg. P seg \<Longrightarrow> unat (s_len seg) = length (s_data seg)"
    and step: "\<And>seg bs s s1. P seg \<Longrightarrow> Q (snd s) \<Longrightarrow> input_command (header_of seg) (s_data seg @ bs) s = Ok s1 \<Longrightarrow> Q (snd s1)"
  shows "Q (snd s) \<Longrightarrow> input_segments (concat (map wire fs)) (int (length (concat (map wire fs)))) s = Ok (r, s') \<Longrightarrow> Q (snd s')"
  using fs(1)
proof (induction fs arbitrary: s)
  case Nil
  then show ?case by (auto simp: input_segments.simps [of "[]"] IKCP_OVERHEAD_def)
next
  case (Cons seg fs)
  have len: "unat (s_len seg) = length (s_data seg)" using Cons.prems(3) fs(2) by simp
  have run: "input_segments (concat (map wire (seg # fs))) (int (length (concat (map wire (seg # fs))))) s =
    (if s_conv seg \<noteq> kconv (snd s) then Ok (-1, s)
     else if \<not> known_command (ucast (s_cmd seg)) then Ok (-3, s)
     else bindR (input_command (header_of seg) (s_data seg @ concat (map wire fs)) s)
       (input_segments (concat (map wire fs)) (int (length (concat (map wire fs))))))"
    using input_segments_wire [OF len, of "concat (map wire fs)" s] by simp
  show ?case
  proof (cases "s' = s")
    case False
    then obtain s1 where s1: "input_command (header_of seg) (s_data seg @ concat (map wire fs)) s = Ok s1"
      "input_segments (concat (map wire fs)) (int (length (concat (map wire fs)))) s1 = Ok (r, s')"
      using Cons.prems(2) unfolding run by (auto split: if_splits)
    have "Q (snd s1)" using step [OF _ Cons.prems(1) s1(1)] Cons.prems(3) by simp
    from Cons.IH [OF this s1(2)] Cons.prems(3) show ?thesis by simp
  qed (use Cons.prems(1) in simp)
qed

lemma input_cases:
  assumes "ikcp_input buf sz k = Ok (r, k')"
  obtains (short) "k' = k" "r = -1"
  | (stop) m where "input_segments buf sz (None, k) = Ok (r, m, k')"
  | (all) m k1 k2 where "input_segments buf sz (None, k) = Ok (0, m, k1)"
      "k2 = k1 \<or> (\<exists>a. k2 = ikcp_parse_fastack a k1)" "k' = k2 \<or> k' = grow_cwnd k2"
proof (cases "sz < int IKCP_OVERHEAD")
  case True
  then show ?thesis using assms short by (simp add: ikcp_input_def)
next
  case False
  with assms obtain q m k1 where k1: "input_segments buf sz (None, k) = Ok (q, m, k1)"
    "(if q \<noteq> 0 then Ok (q, k1)
      else let k2 = (case m of None \<Rightarrow> k1 | Some a \<Rightarrow> ikcp_parse_fastack a k1)
           in Ok (0, if 0 < itimediff (snd_una k2) (snd_una k) then grow_cwnd k2 else k2)) = Ok (r, k')"
    by (auto simp: ikcp_input_def)
  show ?thesis
  proof (cases "q = 0")
    case True
    let ?k2 = "case m of None \<Rightarrow> k1 | Some a \<Rightarrow> ikcp_parse_fastack a k1"
    have "?k2 = k1 \<or> (\<exists>a. ?k2 = ikcp_parse_fastack a k1)" by (cases m) auto
    moreover have "k' = ?k2 \<or> k' = grow_cwnd ?k2" using k1(2) True by (auto simp: Let_def)
    ultimately show ?thesis using all k1(1) True by blast
  next
    case False
    then show ?thesis using k1 stop by simp
  qed
qed

lemma input_step:
  assumes "ikcp_input buf sz k = Ok (r, k')"
  shows "snd_step (\<lambda>_. True) k k'"
proof -
  have loop: "snd_step (\<lambda>_. True) k k1" if "input_segments buf sz (None, k) = Ok (q, m, k1)" for q m k1
  proof -
    have "snd_step (\<lambda>_. True) (snd s) (snd s1)" if "input_command h b s = Ok s1" for h b s s1
      by (rule snd_step_mono [OF input_command_step [OF that]]) simp
    from input_segments_rel [of "snd_step (\<lambda>_. True)", OF this snd_step_refl snd_step_trans \<open>input_segments _ _ _ = _\<close>]
    show ?thesis by simp
  qed
  from assms show ?thesis
  proof (cases rule: input_cases)
    case (all m k1 k2)
    have "snd_step (\<lambda>_. True) k1 k2" "snd_step (\<lambda>_. True) k2 k'"
      using all(2,3) parse_fastack_step grow_cwnd_step snd_step_refl by blast+
    then show ?thesis using loop [OF all(1)] snd_step_trans by blast
  qed (simp_all add: loop)
qed

end
