(* ===== verification/KcpReceive.thy ===== *)
theory KcpReceive
  imports KcpInput
begin

text \<open>
  The receiving side of a control block under \<open>ikcp_input\<close>: acknowledgements leave it alone, a data segment
  goes through \<open>ikcp_parse_data\<close>, and fragments only move to the end of \<open>rcv_queue\<close>.
\<close>

section \<open>What leaves the receiver alone\<close>

definition keeps_receiver :: "ikcpcb \<Rightarrow> ikcpcb \<Rightarrow> bool" where
  "keeps_receiver k k' \<longleftrightarrow> rcv_nxt k' = rcv_nxt k \<and> rcv_queue k' = rcv_queue k \<and> rcv_buf k' = rcv_buf k
     \<and> nrcv_que k' = nrcv_que k \<and> nrcv_buf k' = nrcv_buf k \<and> rcv_wnd k' = rcv_wnd k \<and> kconv k' = kconv k
     \<and> acklist k' = acklist k \<and> ackcount k' = ackcount k"

lemma keeps_receiver_refl [simp]: "keeps_receiver k k"
  by (simp add: keeps_receiver_def)

lemma keeps_receiver_trans: "keeps_receiver k1 k2 \<Longrightarrow> keeps_receiver k2 k3 \<Longrightarrow> keeps_receiver k1 k3"
  by (simp add: keeps_receiver_def)

lemma update_ack_receiver [simp]: "keeps_receiver k (ikcp_update_ack rtt k)"
  using update_ack_form [of rtt k] by (auto simp: keeps_receiver_def)

lemma shrink_receiver [simp]: "keeps_receiver k (ikcp_shrink_buf k)"
  by (simp add: keeps_receiver_def ikcp_shrink_buf_def)

lemma parse_ack_receiver [simp]: "keeps_receiver k (ikcp_parse_ack sn k)"
  by (simp add: keeps_receiver_def ikcp_parse_ack_def split_beta Let_def)

lemma parse_una_receiver [simp]: "keeps_receiver k (ikcp_parse_una una k)"
  using parse_una_form [of k una] by (auto simp: keeps_receiver_def)

lemma parse_fastack_receiver [simp]: "keeps_receiver k (ikcp_parse_fastack sn k)"
  by (simp add: keeps_receiver_def ikcp_parse_fastack_def)

lemma grow_cwnd_receiver [simp]: "keeps_receiver k (grow_cwnd k)"
  using grow_cwnd_form [of k] by (auto simp: keeps_receiver_def)

lemma input_ack_receiver [simp]: "keeps_receiver k (input_ack h k)"
  unfolding input_ack_def Let_def
  by (rule keeps_receiver_trans [OF _ keeps_receiver_trans [OF parse_ack_receiver shrink_receiver]]) simp

lemma parse_data_acks [simp]:
  "acklist (ikcp_parse_data new k) = acklist k" "ackcount (ikcp_parse_data new k) = ackcount k"
proof -
  have ready: "acklist (move_ready k1) = acklist k1 \<and> ackcount (move_ready k1) = ackcount k1" for k1
    using move_ready_form [of k1] by auto
  show "acklist (ikcp_parse_data new k) = acklist k" "ackcount (ikcp_parse_data new k) = ackcount k"
    by (auto simp: ikcp_parse_data_def ready split: option.split)
qed

section \<open>One segment\<close>

lemma input_command_receiver:
  assumes "input_command h buf s = Ok s1"
  obtains (other) "keeps_receiver (snd s) (snd s1)" "(ucast (h_cmd h) :: u32) \<noteq> IKCP_CMD_PUSH"
  | (push) k where "keeps_receiver (snd s) k" "(ucast (h_cmd h) :: u32) = IKCP_CMD_PUSH"
      "input_push (kconv k) h buf k = Ok (snd s1)"
proof -
  obtain m k0 where s: "s = (m, k0)" by (cases s)
  let ?k = "ikcp_shrink_buf (ikcp_parse_una (h_una h) (k0\<lparr>rmt_wnd := ucast (h_wnd h)\<rparr>))"
  have "keeps_receiver k0 (k0\<lparr>rmt_wnd := ucast (h_wnd h)\<rparr>)" by (simp add: keeps_receiver_def)
  then have start: "keeps_receiver k0 ?k" using keeps_receiver_trans parse_una_receiver shrink_receiver by blast
  show ?thesis
  proof (cases "(ucast (h_cmd h) :: u32) = IKCP_CMD_PUSH")
    case True
    then have "input_push (kconv ?k) h buf ?k = Ok (snd s1)"
      using assms by (auto simp: input_command_def s Let_def kcp_commands)
    then show ?thesis using push start True s by simp
  next
    case False
    have "keeps_receiver ?k (snd s1)"
      using assms False by (auto simp: input_command_def s Let_def keeps_receiver_def [of _ "_\<lparr>kprobe := _\<rparr>"] split: if_splits)
    then show ?thesis using other start False s keeps_receiver_trans by simp
  qed
qed

text \<open>A data segment: it is ignored, only acknowledged, or acknowledged and taken.\<close>

lemma input_push_cases:
  assumes "input_push conv h buf k = Ok k'" and "ackcount k \<le> length (acklist k)"
  obtains (ignored) "k' = k" "\<not> itimediff (h_sn h) (rcv_nxt k + rcv_wnd k) < 0"
  | (old) "keeps_receiver (k\<lparr>acklist := acklist k', ackcount := ackcount k'\<rparr>) k'"
      "take (ackcount k') (acklist k') = take (ackcount k) (acklist k) @ [(h_sn h, h_ts h)]" "ackcount k' \<le> length (acklist k')"
      "itimediff (h_sn h) (rcv_nxt k) < 0" "itimediff (h_sn h) (rcv_nxt k + rcv_wnd k) < 0"
  | (taken) k1 seg where "keeps_receiver (k\<lparr>acklist := acklist k1, ackcount := ackcount k1\<rparr>) k1"
      "take (ackcount k1) (acklist k1) = take (ackcount k) (acklist k) @ [(h_sn h, h_ts h)]" "ackcount k1 \<le> length (acklist k1)"
      "received_segment conv h buf = Ok seg" "k' = ikcp_parse_data seg k1" "0 \<le> itimediff (h_sn h) (rcv_nxt k)"
      "itimediff (h_sn h) (rcv_nxt k + rcv_wnd k) < 0"
proof (cases "itimediff (h_sn h) (rcv_nxt k + rcv_wnd k) < 0")
  case False
  then show ?thesis using assms(1) ignored by (simp add: input_push_def)
next
  case True
  obtain b where push: "ikcp_ack_push (h_sn h) (h_ts h) k = Ok (k\<lparr>ackblock := b,
      acklist := take (ackcount k) (acklist k) @ [(h_sn h, h_ts h)], ackcount := ackcount k + 1\<rparr>)"
    using ack_push_form by blast
  let ?k1 = "k\<lparr>ackblock := b, acklist := take (ackcount k) (acklist k) @ [(h_sn h, h_ts h)], ackcount := ackcount k + 1\<rparr>"
  have frame: "keeps_receiver (k\<lparr>acklist := acklist ?k1, ackcount := ackcount ?k1\<rparr>) ?k1" by (simp add: keeps_receiver_def)
  have acks: "take (ackcount ?k1) (acklist ?k1) = take (ackcount k) (acklist k) @ [(h_sn h, h_ts h)]"
    "ackcount ?k1 \<le> length (acklist ?k1)" using assms(2) by simp_all
  show ?thesis
  proof (cases "0 \<le> itimediff (h_sn h) (rcv_nxt k)")
    case False
    then have "k' = ?k1" using assms push True by (simp add: input_push_def)
    then show ?thesis using old frame acks False True by simp
  next
    case late: True
    then obtain seg where "received_segment conv h buf = Ok seg" "k' = ikcp_parse_data seg ?k1"
      using assms push True by (auto simp: input_push_def)
    then show ?thesis using taken [OF frame acks] late True by simp
  qed
qed

section \<open>The sizes of what is received\<close>

text \<open>The segments received have no more bytes than the datagrams they came in, and the queue no more than the window.\<close>

lemma rcv_small_same:
  "rcv_queue k' = rcv_queue k \<Longrightarrow> rcv_buf k' = rcv_buf k \<Longrightarrow> nrcv_que k' = nrcv_que k \<Longrightarrow> rcv_wnd k' = rcv_wnd k
    \<Longrightarrow> rcv_small d w k' = rcv_small d w k"
  by (simp add: rcv_small_def)

lemma keeps_small: "keeps_receiver k k' \<Longrightarrow> rcv_small d w k' = rcv_small d w k"
  by (intro rcv_small_same) (simp_all add: keeps_receiver_def)

lemma move_ready_small: "rcv_small d w k \<Longrightarrow> rcv_small d w (move_ready k)"
proof (induction k rule: move_ready.induct)
  case (1 k)
  consider (stays) "move_ready k = k"
    | (one) seg ss where "rcv_buf k = seg # ss" "s_sn seg = rcv_nxt k \<and> nrcv_que k < unat (rcv_wnd k)"
    by (cases "rcv_buf k") (force simp: move_ready.simps [of k] split: if_splits)+
  then show ?case
  proof cases
    case one
    let ?k = "k\<lparr>rcv_buf := ss, nrcv_buf := nrcv_buf k - 1, rcv_queue := rcv_queue k @ [seg],
              nrcv_que := nrcv_que k + 1, rcv_nxt := rcv_nxt k + 1\<rparr>"
    have "rcv_small d w ?k" using one 1(2) by (auto simp: rcv_small_def)
    moreover have "move_ready k = move_ready ?k" using one by (simp add: move_ready.simps [of k])
    ultimately show ?thesis using 1(1) [OF one] by simp
  qed (use 1(2) in simp)
qed

lemma parse_data_small:
  assumes "rcv_small d w k" and "length (s_data new) \<le> d"
  shows "rcv_small d w (ikcp_parse_data new k)"
proof (cases "insert_from_end new (rev (rcv_buf k))")
  case None
  then show ?thesis using assms(1) move_ready_small by (simp add: ikcp_parse_data_def)
next
  case (Some ss)
  from insert_from_end_form [OF Some] obtain xs ys where xs: "rcv_buf k = rev ys @ rev xs" "ss = xs @ new # ys"
    by (metis rev_append rev_rev_ident)
  have "rcv_small d w (k\<lparr>rcv_buf := rev ss, nrcv_buf := nrcv_buf k + 1\<rparr>)" using assms xs by (simp add: rcv_small_def)
  then show ?thesis using Some assms(1) move_ready_small by (simp add: ikcp_parse_data_def)
qed

lemma input_push_small:
  assumes "rcv_small d w k" and "length buf \<le> d" and "input_push conv h buf k = Ok k'"
  shows "rcv_small d w k'"
proof -
  obtain b where ack: "ikcp_ack_push (h_sn h) (h_ts h) k = Ok (k\<lparr>ackblock := b,
      acklist := take (ackcount k) (acklist k) @ [(h_sn h, h_ts h)], ackcount := ackcount k + 1\<rparr>)"
    using ack_push_form by blast
  have pushed: "rcv_small d w (k\<lparr>ackblock := b, acklist := l, ackcount := n\<rparr>)" for l n
    using assms(1) rcv_small_same [of "k\<lparr>ackblock := b, acklist := l, ackcount := n\<rparr>" k] by simp
  have "length (s_data seg) \<le> d" if "received_segment conv h buf = Ok seg" for seg
    using that assms(2) by (auto simp: received_segment_def read_mem_def bindR_eq_Ok split: if_splits)
  then show ?thesis using assms(1,3) ack pushed parse_data_small [OF pushed]
    by (auto simp: input_push_def bindR_eq_Ok split: if_splits)
qed

lemma input_small:
  assumes "rcv_small d w k" and "length buf \<le> d" and "ikcp_input buf sz k = Ok (r, k')"
  shows "rcv_small d w k'"
proof -
  have command: "rcv_small d w (snd s) \<longrightarrow> rcv_small d w (snd s1)" if "length b \<le> d" "input_command h b s = Ok s1" for h b s s1
    using that(2)
  proof (cases rule: input_command_receiver)
    case other
    then show ?thesis using keeps_small by blast
  next
    case (push k1)
    then show ?thesis using keeps_small input_push_small [OF _ that(1)] by blast
  qed
  have loop: "rcv_small d w k1" if "input_segments buf sz (None, k) = Ok (q, m, k1)" for q m k1
    using input_segments_bounded [of d "\<lambda>k k'. rcv_small d w k \<longrightarrow> rcv_small d w k'", OF command _ _ assms(2) that] assms(1) by simp
  from assms(3) show ?thesis
  proof (cases rule: input_cases)
    case short
    then show ?thesis using assms(1) by simp
  next
    case (stop m)
    then show ?thesis by (rule loop)
  next
    case (all m k1 k2)
    have "rcv_small d w k2 = rcv_small d w k1" "rcv_small d w k' = rcv_small d w k2"
      using all(2,3) keeps_small [OF parse_fastack_receiver] keeps_small [OF grow_cwnd_receiver] by auto
    then show ?thesis using loop [OF all(1)] by blast
  qed
qed

lemma recv_small:
  assumes "rcv_small d w k" and "ikcp_recv len k = Ok (r, bs, k')"
  shows "rcv_small d w k'"
proof (cases "rcv_queue k \<noteq> [] \<and> 0 \<le> ikcp_peeksize k \<and> ikcp_peeksize k \<le> \<bar>len\<bar>")
  case False
  then show ?thesis using recv_refused [OF False] assms by auto
next
  case True
  let ?m = "first_message (rcv_queue k)"
  let ?k1 = "if len < 0 then k else k\<lparr>rcv_queue := snd ?m, nrcv_que := nrcv_que k - length (fst ?m)\<rparr>"
  have "rcv_small d w ?k1" using assms(1) first_message_all by (auto simp: rcv_small_def)
  then have small: "rcv_small d w ((move_ready ?k1)\<lparr>kprobe := p\<rparr>)" for p
    using move_ready_small rcv_small_same [of "(move_ready ?k1)\<lparr>kprobe := p\<rparr>" "move_ready ?k1"] by simp
  obtain p where "k' = (move_ready ?k1)\<lparr>kprobe := p\<rparr>"
    using recv_form [of k len] True assms(2) by (cases "copy_out \<bar>len\<bar> (fst ?m)") auto
  then show ?thesis using small by simp
qed

end
