(* ===== verification/KcpRuns.thy ===== *)
theory KcpRuns
  imports KcpReceive
begin

text \<open>
  The runs of a client: no call faults and no datagram is too long.
\<close>

section \<open>Runs\<close>

text \<open>The calls of a client; what a call outputs is a list of datagrams.\<close>

datatype kcp_op = KSend "byte list" | KRecv int | KInput "byte list" | KUpdate u32 | KFlush | KSetmtu int
  | KWndsize int int | KNodelay int int int int | KInterval int

fun kcp_do :: "kcp_op \<Rightarrow> ikcpcb \<Rightarrow> (byte list list \<times> ikcpcb) res" where
  "kcp_do (KSend bs) k = bindR (ikcp_send bs (int (length bs)) k) (\<lambda>(r, k'). Ok ([], k'))"
| "kcp_do (KRecv len) k = bindR (ikcp_recv len k) (\<lambda>(r, bs, k'). Ok ([], k'))"
| "kcp_do (KInput bs) k = bindR (ikcp_input bs (int (length bs)) k) (\<lambda>(r, k'). Ok ([], k'))"
| "kcp_do (KUpdate t) k = ikcp_update t k"
| "kcp_do KFlush k = ikcp_flush k"
| "kcp_do (KSetmtu m) k = Ok ([], snd (ikcp_setmtu m k))"
| "kcp_do (KWndsize a b) k = Ok ([], ikcp_wndsize a b k)"
| "kcp_do (KNodelay a b c d) k = Ok ([], ikcp_nodelay a b c d k)"
| "kcp_do (KInterval i) k = Ok ([], ikcp_interval i k)"

primrec kcp_run :: "kcp_op list \<Rightarrow> ikcpcb \<Rightarrow> (byte list list \<times> ikcpcb) res" where
  "kcp_run [] k = Ok ([], k)"
| "kcp_run (x # xs) k = bindR (kcp_do x k) (\<lambda>(ds, k1). bindR (kcp_run xs k1) (\<lambda>(es, k2). Ok (ds @ es, k2)))"

text \<open>Datagrams have less than 2^31 bytes, and the maximal size of a datagram, \<open>m\<close> at first, never shrinks.\<close>

fun calls_ok :: "int \<Rightarrow> kcp_op list \<Rightarrow> bool" where
  "calls_ok m [] \<longleftrightarrow> True"
| "calls_ok m (KInput bs # xs) \<longleftrightarrow> length bs < 2 ^ 31 \<and> calls_ok m xs"
| "calls_ok m (KSetmtu n # xs) \<longleftrightarrow> (if n < 50 then calls_ok m xs else m \<le> n \<and> n \<le> 2 ^ 30 \<and> calls_ok n xs)"
| "calls_ok m (x # xs) \<longleftrightarrow> calls_ok m xs"

text \<open>The size after a call.\<close>

fun next_mtu :: "int \<Rightarrow> kcp_op \<Rightarrow> int" where
  "next_mtu m (KSetmtu n) = (if n < 50 then m else n)"
| "next_mtu m x = m"

text \<open>Sending, receiving and the settings leave the size of a datagram alone.\<close>

lemma send_mtu: "ikcp_send bs (int (length bs)) k = Ok (r, k') \<Longrightarrow> kmtu k' = kmtu k"
proof -
  have rest: "kmtu k2 = kmtu k1" if "send_rest cs (length cs) k1 = Ok (q, k2)" for cs k1 q k2
    using that by (auto simp: send_rest_def send_fragments_form split: if_splits)
  have last: "kmtu k1 = kmtu k \<and> n \<le> length bs" if "extend_last bs (length bs) k = Ok (n, k1)" for n k1
    using that by (auto simp: extend_last_def Let_def read_mem_def split: if_splits)
  assume "ikcp_send bs (int (length bs)) k = Ok (r, k')"
  then consider (stream) n k1 where "extend_last bs (length bs) k = Ok (n, k1)"
      "k' = k1 \<or> send_rest (drop n bs) (length bs - n) k1 = Ok (r, k')"
    | (plain) "send_rest bs (length bs) k = Ok (r, k')"
    by (auto simp: ikcp_send_def assertR_eq_Ok split: if_splits)
  then show ?thesis
  proof cases
    case (stream n k1)
    then show ?thesis using last [OF stream(1)] rest [of "drop n bs" k1 r k'] by auto
  qed (rule rest)
qed

lemma recv_mtu: "ikcp_recv len k = Ok (r, bs, k') \<Longrightarrow> kmtu k' = kmtu k"
proof (cases "rcv_queue k \<noteq> [] \<and> 0 \<le> ikcp_peeksize k \<and> ikcp_peeksize k \<le> \<bar>len\<bar>")
  case True
  assume "ikcp_recv len k = Ok (r, bs, k')"
  moreover have "kmtu (move_ready k1) = kmtu k1" for k1 using move_ready_step [of "\<lambda>_. True" k1] by (simp add: snd_step_def)
  ultimately show ?thesis using recv_form [of k len] True by (cases "copy_out \<bar>len\<bar> (fst (first_message (rcv_queue k)))") auto
next
  case False
  assume "ikcp_recv len k = Ok (r, bs, k')"
  then show ?thesis using recv_refused [OF False] by auto
qed

lemma kcp_do_ok:
  assumes "kcp_ok k" and "calls_ok (int (unat (kmtu k))) (x # xs)"
    and "\<And>len. x = KRecv len \<Longrightarrow> \<exists>r bs k'. ikcp_recv len k = Ok (r, bs, k')"
  shows "\<exists>ds k'. kcp_do x k = Ok (ds, k') \<and> kcp_ok k' \<and> int (unat (kmtu k')) = next_mtu (int (unat (kmtu k))) x
    \<and> list_all (\<lambda>d. length d \<le> unat (kmtu k)) ds"
proof (cases x)
  case (KSend bs)
  then show ?thesis using send_ok [OF assms(1), of bs] send_mtu [of bs k] by fastforce
next
  case (KRecv len)
  then show ?thesis using assms(3) [OF KRecv] recv_ok [OF assms(1), of len] recv_mtu [of len k] by fastforce
next
  case (KInput bs)
  then have "int (length bs) < 2 ^ 31" using assms(2) by simp
  from input_ok [OF assms(1) this order_refl] obtain r k' where "ikcp_input bs (int (length bs)) k = Ok (r, k')" "kcp_ok k'"
    by blast
  moreover from input_step [OF this(1)] have "kmtu k' = kmtu k" by (simp add: snd_step_def)
  ultimately show ?thesis using KInput by simp
next
  case (KUpdate t)
  then show ?thesis using update_safe [OF assms(1), of t] by auto
next
  case KFlush
  then show ?thesis using flush_safe [OF assms(1)] by auto
next
  case (KSetmtu m)
  show ?thesis
  proof (cases "m < 50")
    case True
    then show ?thesis using assms(1) KSetmtu by (simp add: ikcp_setmtu_def)
  next
    case False
    then show ?thesis using setmtu_ok [OF assms(1), of m] assms(2) KSetmtu by simp
  qed
next
  case (KWndsize a b)
  then show ?thesis using settings_ok(1) [OF assms(1), of a b] by (simp add: ikcp_wndsize_def Let_def)
next
  case (KNodelay a b c d)
  then show ?thesis using settings_ok(2) [OF assms(1), of a b c d] by (simp add: ikcp_nodelay_def Let_def)
next
  case (KInterval i)
  then show ?thesis using settings_ok(3) [OF assms(1), of i] by (simp add: ikcp_interval_def)
qed

lemma calls_ok_step: "calls_ok m (x # xs) \<Longrightarrow> calls_ok (next_mtu m x) xs"
  by (cases x) (auto split: if_splits)

lemma next_mtu_ge: "calls_ok m (x # xs) \<Longrightarrow> m \<le> next_mtu m x"
  by (cases x) (auto split: if_splits)

lemma send_form: "ikcp_send bs (int (length bs)) k = Ok (r, k') \<Longrightarrow> \<exists>q n. k' = k\<lparr>snd_queue := q, nsnd_que := n\<rparr>"
proof -
  have self: "\<exists>q n. k1 = k1\<lparr>snd_queue := q, nsnd_que := n\<rparr>" for k1 :: ikcpcb
    by (intro exI [of _ "snd_queue k1"] exI [of _ "nsnd_que k1"]) simp
  have rest: "\<exists>q n. k2 = k1\<lparr>snd_queue := q, nsnd_que := n\<rparr>" if "send_rest cs (length cs) k1 = Ok (p, k2)" for cs k1 p k2
    using that self [of k1] by (auto simp: send_rest_def send_fragments_form split: if_splits)
  have last: "\<exists>q. k1 = k\<lparr>snd_queue := q\<rparr>" "n \<le> length bs" if "extend_last bs (length bs) k = Ok (n, k1)" for n k1
    using that by (auto simp: extend_last_def Let_def read_mem_def split: if_splits intro: exI [of _ "snd_queue k"])
  assume "ikcp_send bs (int (length bs)) k = Ok (r, k')"
  then consider (stream) n k1 where "extend_last bs (length bs) k = Ok (n, k1)"
      "k' = k1 \<or> send_rest (drop n bs) (length bs - n) k1 = Ok (r, k')"
    | (plain) "send_rest bs (length bs) k = Ok (r, k')"
    by (auto simp: ikcp_send_def assertR_eq_Ok split: if_splits)
  then show ?thesis
  proof cases
    case (stream n k1)
    then obtain q where q: "k1 = k\<lparr>snd_queue := q\<rparr>" "n \<le> length bs" using last [OF stream(1)] by blast
    have "\<exists>q' n'. k' = k1\<lparr>snd_queue := q', nsnd_que := n'\<rparr>" using stream(2) rest [of "drop n bs" k1 r k'] self [of k1] by auto
    then show ?thesis unfolding q(1) by auto
  qed (rule rest)
qed

text \<open>
  The buffer of a client that receives: no datagram has more than \<open>d\<close> bytes and no receive window more than \<open>w\<close>
  segments.
\<close>

fun within :: "nat \<Rightarrow> nat \<Rightarrow> kcp_op \<Rightarrow> bool" where
  "within d w (KInput bs) \<longleftrightarrow> length bs \<le> d"
| "within d w (KWndsize a b) \<longleftrightarrow> b \<le> int w"
| "within d w x \<longleftrightarrow> True"

lemma of_int_nat_le: "0 < b \<Longrightarrow> b \<le> int w \<Longrightarrow> unat (of_int b :: u32) \<le> w"
proof -
  assume b: "0 < b" "b \<le> int w"
  then have "(of_int b :: u32) = of_nat (nat b)" by simp
  moreover have "unat (of_nat (nat b) :: u32) \<le> nat b" by (simp add: unat_of_nat)
  ultimately show ?thesis using b by (metis order_trans nat_le_iff)
qed

lemma flush_small:
  assumes "kcp_ok k" and "ikcp_flush k = Ok (ds, k')"
  shows "rcv_small d w k' = rcv_small d w k"
  using flush_ok [of k "\<lambda>_. True"] assms by (intro rcv_small_same) (auto simp: kcp_flushed_def same_receiver_def)

lemma kcp_do_small:
  assumes "kcp_ok k" and "rcv_small d w k" and "within d w x" and "kcp_do x k = Ok (ds, k')"
  shows "rcv_small d w k'"
proof (cases x)
  case (KSend bs)
  then obtain r where "ikcp_send bs (int (length bs)) k = Ok (r, k')" using assms(4) by auto
  then obtain q n where "k' = k\<lparr>snd_queue := q, nsnd_que := n\<rparr>" using send_form by blast
  then show ?thesis using assms(2) by (simp add: rcv_small_def)
next
  case (KRecv len)
  then show ?thesis using assms(2,4) recv_small by (auto simp: bindR_eq_Ok)
next
  case (KInput bs)
  then show ?thesis using assms(2-4) input_small by (auto simp: bindR_eq_Ok)
next
  case (KUpdate t)
  have same: "rcv_small d w (k\<lparr>kcurrent := t, updated := True, ts_flush := f\<rparr>) = rcv_small d w k"
    "kcp_ok (k\<lparr>kcurrent := t, updated := True, ts_flush := f\<rparr>)" for f
    using assms(1) by (simp_all add: rcv_small_def)
  then show ?thesis using assms(2,4) KUpdate update_form [of t k] flush_small by fastforce
next
  case KFlush
  then show ?thesis using assms flush_small by auto
next
  case (KWndsize a b)
  then show ?thesis using assms(2-4) of_int_nat_le [of b w] by (auto simp: rcv_small_def ikcp_wndsize_def Let_def)
qed (use assms(2,4) in \<open>auto simp: rcv_small_def ikcp_setmtu_def ikcp_nodelay_def ikcp_interval_def Let_def\<close>)

lemma kcp_run_ok:
  assumes "kcp_ok k" and "calls_ok (int (unat (kmtu k))) xs" and "rcv_small d w k" and "list_all (within d w) xs" and "d * w < 2 ^ 31"
  shows "\<exists>ds k'. kcp_run xs k = Ok (ds, k') \<and> kcp_ok k' \<and> unat (kmtu k) \<le> unat (kmtu k')
    \<and> list_all (\<lambda>d. length d \<le> unat (kmtu k')) ds"
  using assms(1-4)
proof (induction xs arbitrary: k)
  case (Cons x xs)
  have "\<exists>r bs k'. ikcp_recv len k = Ok (r, bs, k')" for len by (rule recv_returns [OF Cons.prems(1,3) assms(5)])
  from kcp_do_ok [OF Cons.prems(1,2) this] obtain ds k1 where k1: "kcp_do x k = Ok (ds, k1)" "kcp_ok k1"
    "int (unat (kmtu k1)) = next_mtu (int (unat (kmtu k))) x" "list_all (\<lambda>d. length d \<le> unat (kmtu k)) ds" by blast
  have "calls_ok (int (unat (kmtu k1))) xs" using calls_ok_step [OF Cons.prems(2)] unfolding k1(3) .
  moreover have "rcv_small d w k1" "list_all (within d w) xs"
    using kcp_do_small [OF Cons.prems(1,3) _ k1(1)] Cons.prems(4) by simp_all
  ultimately obtain es k2 where k2: "kcp_run xs k1 = Ok (es, k2)" "kcp_ok k2"
    "unat (kmtu k1) \<le> unat (kmtu k2)" "list_all (\<lambda>d. length d \<le> unat (kmtu k2)) es" using Cons.IH [OF k1(2)] by blast
  have "unat (kmtu k) \<le> unat (kmtu k1)" using next_mtu_ge [OF Cons.prems(2)] k1(3) by linarith
  then show ?case using k1(1,4) k2 by (auto simp: list_all_iff intro: order_trans)
qed simp

lemma create_ok: "kcp_ok (ikcp_setoutput True (ikcp_create conv))"
  by (simp add: kcp_ok_def kcp_parts ikcp_setoutput_def ikcp_create_def IKCP_MTU_DEF_def IKCP_OVERHEAD_def buffer_size_def
      IKCP_RTO_MIN_def IKCP_RTO_DEF_def)

lemma create_small: "32 \<le> w \<Longrightarrow> rcv_small d w (ikcp_setoutput True (ikcp_create conv))"
  by (simp add: rcv_small_def ikcp_setoutput_def ikcp_create_def IKCP_WND_RCV_def)

lemma create_mtu: "unat (kmtu (ikcp_setoutput True (ikcp_create conv))) = 1400"
  by (simp add: ikcp_setoutput_def ikcp_create_def IKCP_MTU_DEF_def)

section \<open>Properties\<close>

text \<open>
  Every call of a client in its limits returns: the size of datagrams is never lowered (theorem
  \<open>setmtu_overflows_buffer\<close> in \<open>KcpLimits\<close> is what happens otherwise), datagrams have at most \<open>d\<close> bytes and the
  receive window, 32 at first, at most \<open>w\<close> segments, of fewer than 2^31 bytes together (otherwise
  \<open>ikcp_recv\<close> can write behind the user's buffer, \<open>recv_overruns_buffer\<close> in \<open>KcpSafe\<close>).
\<close>

lemma new_kcp_run_ok:
  assumes "calls_ok 1400 xs" and "list_all (within d w) xs" and "32 \<le> w" and "d * w < 2 ^ 31"
  shows "\<exists>ds k. kcp_run xs (ikcp_setoutput True (ikcp_create conv)) = Ok (ds, k) \<and> kcp_ok k \<and> list_all (\<lambda>d. length d \<le> unat (kmtu k)) ds"
proof -
  have "calls_ok (int (unat (kmtu (ikcp_setoutput True (ikcp_create conv))))) xs" using assms(1) by (simp only: create_mtu) simp
  from kcp_run_ok [OF create_ok this create_small [OF assms(3)] assms(2,4)] show ?thesis by blast
qed





lemma earliest_resend_pos: "earliest_resend current ss tm = Some m \<Longrightarrow> 0 < tm \<Longrightarrow> 0 < m"
  by (induction ss arbitrary: tm) (auto simp: Let_def split: if_splits)

text \<open>
  \<open>ikcp_check\<close> says when to call \<open>ikcp_update\<close> next: called at any earlier time, \<open>ikcp_update\<close> outputs nothing
  and only notes the time.
\<close>

theorem check_nothing_before:
  assumes "0 \<le> itimediff t current" and "itimediff t (ikcp_check current k) < 0"
  shows "ikcp_update t k = Ok ([], k\<lparr>kcurrent := t\<rparr>)"
proof -
  let ?f = "ts_flush k" and ?c = "ikcp_check current k"
  have later: "?c \<noteq> current" using assms by auto
  then have upd: "updated k" and near: "\<not> (10000 \<le> itimediff current ?f \<or> itimediff current ?f < -10000)"
    and early: "itimediff current ?f < 0"
    by (auto simp: ikcp_check_def Let_def itimediff_def split: if_splits)
  obtain m where m: "earliest_resend current (snd_buf k) 0x7fffffff = Some m"
    using later upd near early by (cases "earliest_resend current (snd_buf k) 0x7fffffff") (auto simp: ikcp_check_def Let_def)
  define w where "w = min m (itimediff ?f current)"
  have ago: "itimediff ?f current = - itimediff current ?f" using near by (intro itimediff_swap) auto
  have w: "0 < w" "w \<le> - itimediff current ?f"
    using earliest_resend_pos [OF m] early ago by (simp_all add: w_def)
  have c: "?c = current + min (kinterval k) (of_int w)"
    using upd near early m by (simp add: ikcp_check_def Let_def w_def min_def)
  have "w < 2 ^ 32" using w(2) near by auto
  then have "uint (of_int w :: u32) = w" using w(1) by (simp add: uint_word_of_int_eq take_bit_int_eq_self)
  then have d: "uint (?c - current) \<le> w" unfolding c by (auto simp: min_def word_le_def)
  have "w \<le> 10000" using w(2) near by linarith
  then have ahead: "itimediff ?c current = uint (?c - current)"
    using d unfolding itimediff_def by (intro sint_nonneg) simp
  have "itimediff current ?c = - uint (?c - current)"
    using itimediff_swap [of ?c current] ahead by (metis uint_ge_0 less_le_trans neg_less_0_iff_less zero_less_numeral zero_less_power)
  then have tc: "itimediff t ?c = itimediff t current - uint (?c - current)"
    using itimediff_trans [of t current ?c] itimediff_range [of t current] assms(1) d \<open>w \<le> 10000\<close>
      less_le_trans [OF _ uint_ge_0, of "-1" "?c - current"] by fastforce
  have "itimediff t ?f = itimediff t current + itimediff current ?f"
    using itimediff_trans [of t current ?f] itimediff_range [of t current] assms(1) early near by auto
  then have "\<not> (10000 \<le> itimediff t ?f \<or> itimediff t ?f < -10000)" "\<not> 0 \<le> itimediff t ?f"
    using assms tc d w(2) near by linarith+
  then show ?thesis using upd by (simp add: ikcp_update_def Let_def)
qed

lemma check_nothing_before_witness:
  "ikcp_check 30 ((ikcp_create 7)\<lparr>updated := True, ts_flush := 100\<rparr>) = 100
    \<and> ikcp_update 60 ((ikcp_create 7)\<lparr>updated := True, ts_flush := 100\<rparr>)
      = Ok ([], (ikcp_create 7)\<lparr>updated := True, ts_flush := 100, kcurrent := 60\<rparr>)"
proof -
  let ?k = "(ikcp_create 7)\<lparr>updated := True, ts_flush := 100\<rparr>"
  have check: "ikcp_check 30 ?k = 100"
    by (simp add: ikcp_check_def Let_def itimediff_def ikcp_create_def IKCP_INTERVAL_def)
  have "ikcp_update 60 ?k = Ok ([], ?k\<lparr>kcurrent := 60\<rparr>)"
    by (rule check_nothing_before [of _ 30]) (simp_all only: check, simp_all add: itimediff_def)
  then show ?thesis using check by simp
qed

end
