(* ===== verification/KcpStream.thy ===== *)
theory KcpStream
  imports KcpRuns
begin

text \<open>
  Two ends of a KCP conversation, one direction of it: \<open>frs\<close> are the fragments of all messages sent so far,
  the i-th of them has the sequence number \<open>i\<close>. The invariants say which fragments the sender still keeps,
  what a segment on the way may hold, and which fragments the receiver has.
\<close>

type_synonym fragment = "u32 \<times> byte list"

definition payload :: "kseg \<Rightarrow> fragment" where
  "payload seg = (s_frg seg, s_data seg)"

definition index_of :: "kseg \<Rightarrow> nat" where
  "index_of seg = unat (s_sn seg)"

definition carries :: "fragment list \<Rightarrow> kseg \<Rightarrow> bool" where
  "carries frs seg \<longleftrightarrow> index_of seg < length frs \<and> payload seg = frs ! index_of seg"

lemma carries_append: "carries frs seg \<Longrightarrow> carries (frs @ new) seg"
  by (simp add: carries_def nth_append)

lemma same_content_carries: "same_content x y \<Longrightarrow> carries frs y = carries frs x"
  by (simp add: same_content_def carries_def index_of_def payload_def)

lemma itimediff_unat:
  assumes "unat a < 2 ^ 31" and "unat b < 2 ^ 31"
  shows "itimediff a b = int (unat a) - int (unat b)"
  using itimediff_near [OF assms] by simp

lemma unat_next: "unat (w :: u32) < 2 ^ 31 \<Longrightarrow> unat (w + 1) = unat w + 1"
  by (simp add: unat_word_ariths(1))

section \<open>The receiver\<close>

text \<open>
  The first \<open>m\<close> fragments were returned to the client, \<open>rcv_queue\<close> holds the next ones up to \<open>rcv_nxt\<close>, and
  \<open>rcv_buf\<close> holds later ones in order.
\<close>

definition receiver_ok :: "fragment list \<Rightarrow> nat \<Rightarrow> ikcpcb \<Rightarrow> bool" where
  "receiver_ok frs m k \<longleftrightarrow> unat (rcv_nxt k) \<le> length frs \<and> m \<le> unat (rcv_nxt k)
     \<and> map payload (rcv_queue k) = drop m (take (unat (rcv_nxt k)) frs)
     \<and> list_all (\<lambda>seg. carries frs seg \<and> unat (rcv_nxt k) \<le> index_of seg) (rcv_buf k)
     \<and> sorted_wrt (\<lambda>x y. index_of x < index_of y) (rcv_buf k)"

definition kcp_held :: "ikcpcb \<Rightarrow> u32 \<Rightarrow> bool" where
  "kcp_held k sn \<longleftrightarrow> unat sn < unat (rcv_nxt k) \<or> sn \<in> s_sn ` set (rcv_buf k)"

definition receives_more :: "ikcpcb \<Rightarrow> ikcpcb \<Rightarrow> bool" where
  "receives_more k k' \<longleftrightarrow> unat (rcv_nxt k) \<le> unat (rcv_nxt k') \<and> (\<forall>sn. kcp_held k sn \<longrightarrow> kcp_held k' sn)"

lemma receives_more_refl [simp]: "receives_more k k"
  by (simp add: receives_more_def)

lemma receives_more_trans: "receives_more k1 k2 \<Longrightarrow> receives_more k2 k3 \<Longrightarrow> receives_more k1 k3"
  unfolding receives_more_def by (blast intro: order_trans)

lemma receiver_ok_append: "receiver_ok frs m k \<Longrightarrow> receiver_ok (frs @ new) m k"
  by (auto simp: receiver_ok_def list_all_iff carries_append)

lemma receiver_ok_same:
  assumes "rcv_nxt k' = rcv_nxt k" "rcv_queue k' = rcv_queue k" "rcv_buf k' = rcv_buf k"
  shows "receiver_ok frs m k' = receiver_ok frs m k" and "kcp_held k' = kcp_held k" and "receives_more k k'" and "receives_more k' k"
  unfolding receiver_ok_def kcp_held_def receives_more_def assms by (rule refl | simp)+

lemma receives_same: "rcv_nxt k' = rcv_nxt k \<Longrightarrow> rcv_buf k' = rcv_buf k \<Longrightarrow> receives_more k k'"
  by (simp add: receives_more_def kcp_held_def)

lemma move_ready_receiver:
  assumes "receiver_ok frs m k" and "length frs < 2 ^ 31"
  shows "receiver_ok frs m (move_ready k) \<and> receives_more k (move_ready k)"
  using assms(1)
proof (induction k rule: move_ready.induct)
  case (1 k)
  consider (stays) "move_ready k = k"
    | (one) seg ss where "rcv_buf k = seg # ss" "s_sn seg = rcv_nxt k \<and> nrcv_que k < unat (rcv_wnd k)"
    by (cases "rcv_buf k") (force simp: move_ready.simps [of k] split: if_splits)+
  then show ?case
  proof cases
    case stays
    then show ?thesis using 1(2) by simp
  next
    case one
    let ?k = "k\<lparr>rcv_buf := ss, nrcv_buf := nrcv_buf k - 1, rcv_queue := rcv_queue k @ [seg],
              nrcv_que := nrcv_que k + 1, rcv_nxt := rcv_nxt k + 1\<rparr>"
    let ?n = "unat (rcv_nxt k)"
    have seg: "index_of seg = ?n" "?n < length frs" "payload seg = frs ! ?n"
      using one 1(2) by (auto simp: receiver_ok_def carries_def index_of_def)
    then have next_n: "unat (rcv_nxt k + 1) = ?n + 1" using assms(2) by (intro unat_next) simp
    have "receiver_ok frs m ?k"
      using 1(2) one seg next_n by (auto simp: receiver_ok_def take_Suc_conv_app_nth list_all_iff Suc_le_eq)
    moreover have "receives_more k ?k" using one next_n by (auto simp: receives_more_def kcp_held_def)
    ultimately show ?thesis using 1(1) [OF one(1,2)] receives_more_trans one by (simp add: move_ready.simps [of k])
  qed
qed

text \<open>\<open>insert_from_end\<close> keeps the buffer in order; the numbers in it stay, and the new one is in it.\<close>

lemma insert_from_end_sorted:
  assumes "sorted_wrt (\<lambda>x y. index_of y < index_of x) ss" and "index_of new < 2 ^ 31" and "\<And>x. x \<in> set ss \<Longrightarrow> index_of x < 2 ^ 31"
  shows "case insert_from_end new ss of None \<Rightarrow> s_sn new \<in> s_sn ` set ss
    | Some ss' \<Rightarrow> set ss' = insert new (set ss) \<and> sorted_wrt (\<lambda>x y. index_of y < index_of x) ss'"
  using assms(1,3)
proof (induction ss)
  case (Cons seg ss)
  have diff: "itimediff (s_sn new) (s_sn seg) = int (index_of new) - int (index_of seg)"
    unfolding index_of_def using assms(2) Cons.prems(2) [of seg] by (intro itimediff_unat) (simp_all add: index_of_def)
  consider (there) "s_sn seg = s_sn new" | (behind) "s_sn seg \<noteq> s_sn new" "index_of seg < index_of new"
    | (deeper) "s_sn seg \<noteq> s_sn new" "index_of new < index_of seg"
    by (metis index_of_def linorder_neqE_nat unsigned_word_eqI)
  then show ?case
  proof cases
    case there
    then show ?thesis by simp
  next
    case behind
    then show ?thesis using Cons.prems(1) diff by (auto simp del: of_nat_unat)
  next
    case deeper
    then show ?thesis using Cons diff by (auto split: option.splits simp del: of_nat_unat)
  qed
qed simp

lemma parse_data_receiver:
  assumes "receiver_ok frs m k" and "length frs < 2 ^ 31" and "carries frs new"
    and "0 \<le> itimediff (s_sn new) (rcv_nxt k)" and "itimediff (s_sn new) (rcv_nxt k + rcv_wnd k) < 0"
  shows "receiver_ok frs m (ikcp_parse_data new k)" and "receives_more k (ikcp_parse_data new k)"
    and "kcp_held (ikcp_parse_data new k) (s_sn new)"
proof -
  let ?k = "case insert_from_end new (rev (rcv_buf k)) of None \<Rightarrow> k | Some ss \<Rightarrow> k\<lparr>rcv_buf := rev ss, nrcv_buf := nrcv_buf k + 1\<rparr>"
  have result: "ikcp_parse_data new k = move_ready ?k" using assms(4,5) by (simp add: ikcp_parse_data_def)
  have small: "index_of new < 2 ^ 31" "\<And>x. x \<in> set (rev (rcv_buf k)) \<Longrightarrow> index_of x < 2 ^ 31"
    using assms(1-3) by (auto simp: receiver_ok_def list_all_iff carries_def)
  have sorted: "sorted_wrt (\<lambda>x y. index_of y < index_of x) (rev (rcv_buf k))"
    using assms(1) by (simp add: receiver_ok_def sorted_wrt_rev)
  have "unat (rcv_nxt k) < 2 ^ 31" using assms(1,2) by (simp add: receiver_ok_def)
  then have late: "unat (rcv_nxt k) \<le> index_of new"
    using assms(4) itimediff_unat [of "s_sn new" "rcv_nxt k"] small(1) by (simp add: index_of_def del: of_nat_unat)
  have "receiver_ok frs m ?k \<and> receives_more k ?k \<and> kcp_held ?k (s_sn new)"
  proof (cases "insert_from_end new (rev (rcv_buf k))")
    case None
    then show ?thesis using insert_from_end_sorted [OF sorted small] assms(1) by (auto simp: kcp_held_def)
  next
    case (Some ss)
    then have "set ss = insert new (set (rcv_buf k))" "sorted_wrt (\<lambda>x y. index_of y < index_of x) ss"
      using insert_from_end_sorted [OF sorted small] by simp_all
    then show ?thesis using Some assms(1,3) late
      by (auto simp: receiver_ok_def receives_more_def kcp_held_def list_all_iff sorted_wrt_rev)
  qed
  then show "receiver_ok frs m (ikcp_parse_data new k)" "receives_more k (ikcp_parse_data new k)"
    "kcp_held (ikcp_parse_data new k) (s_sn new)"
    using move_ready_receiver [of frs m ?k] assms(2) receives_more_trans
    unfolding result by (blast, blast, simp add: receives_more_def)
qed

text \<open>What a segment on the way holds, and which numbers the receiver is about to acknowledge.\<close>

definition push_cmd :: "kseg \<Rightarrow> bool" where
  "push_cmd seg \<longleftrightarrow> (ucast (ucast (s_cmd seg) :: 8 word) :: u32) = IKCP_CMD_PUSH"

definition emitted :: "fragment list \<Rightarrow> kseg \<Rightarrow> bool" where
  "emitted frs seg \<longleftrightarrow> unat (s_len seg) = length (s_data seg)
     \<and> (push_cmd seg \<longrightarrow> carries frs seg \<and> unat (s_frg seg) < 256)"

definition acks_held :: "ikcpcb \<Rightarrow> bool" where
  "acks_held k \<longleftrightarrow> ackcount k \<le> length (acklist k) \<and> (\<forall>a \<in> set (take (ackcount k) (acklist k)). kcp_held k (fst a))"

lemma keeps_receiver_stream:
  assumes "keeps_receiver k k'"
  shows "receiver_ok frs m k' = receiver_ok frs m k" and "kcp_held k' = kcp_held k" and "acks_held k' = acks_held k" and "receives_more k k'"
  using assms receiver_ok_same [of k' k] by (auto simp: keeps_receiver_def acks_held_def)

lemma ucast_frg: "unat (f :: u32) < 256 \<Longrightarrow> ucast (ucast f :: 8 word) = f"
  by (rule unsigned_word_eqI [where 'a = nat]) (simp add: unsigned_ucast_eq unsigned_take_bit_eq take_bit_nat_eq_self)

lemma input_push_stream:
  assumes "emitted frs seg" and "push_cmd seg" and "receiver_ok frs m k" and "acks_held k" and "length frs < 2 ^ 31"
    and "input_push conv (header_of seg) (s_data seg @ bs) k = Ok k'"
  shows "receiver_ok frs m k' \<and> acks_held k' \<and> receives_more k k'"
proof -
  have count: "ackcount k \<le> length (acklist k)" and small: "index_of seg < 2 ^ 31" "unat (rcv_nxt k) < 2 ^ 31"
    and seg: "carries frs seg" "unat (s_frg seg) < 256" "unat (s_len seg) = length (s_data seg)"
    using assms(1-5) by (auto simp: acks_held_def emitted_def carries_def receiver_ok_def)
  have sn: "h_sn (header_of seg) = s_sn seg" by (simp add: header_of_def)
  from assms(6) count show ?thesis
  proof (cases rule: input_push_cases)
    case ignored
    then show ?thesis using assms(3,4) by simp
  next
    case old
    have same: "rcv_nxt k' = rcv_nxt k" "rcv_queue k' = rcv_queue k" "rcv_buf k' = rcv_buf k"
      using old(1) by (simp_all add: keeps_receiver_def)
    have "kcp_held k (s_sn seg)" using old(4) itimediff_unat [of "s_sn seg" "rcv_nxt k"] small
      by (simp add: kcp_held_def sn index_of_def del: of_nat_unat)
    then show ?thesis using assms(3,4) old(2,3) receiver_ok_same [OF same] by (auto simp: acks_held_def sn)
  next
    case (taken k1 new)
    have same: "rcv_nxt k1 = rcv_nxt k" "rcv_queue k1 = rcv_queue k" "rcv_buf k1 = rcv_buf k" "rcv_wnd k1 = rcv_wnd k"
      using taken(1) by (simp_all add: keeps_receiver_def)
    have new: "s_sn new = s_sn seg" "payload new = payload seg"
      using taken(4) seg(2,3) ucast_frg [OF seg(2)]
      by (auto simp: received_segment_def read_mem_def header_of_def payload_def split: if_splits)
    then have "carries frs new" using seg(1) by (simp add: carries_def index_of_def)
    then have k': "receiver_ok frs m k'" "receives_more k1 k'" "kcp_held k' (s_sn seg)"
      using parse_data_receiver [OF _ assms(5), of m k1 new] receiver_ok_same(1) [OF same(1-3)] assms(3) taken(5-7)
      by (simp_all only: new sn same)
    have "acklist k' = acklist k1" "ackcount k' = ackcount k1" using taken(5) by simp_all
    then have "acks_held k'"
      using assms(4) taken(2,3) k'(2,3) receiver_ok_same(2) [OF same(1-3)] by (auto simp: acks_held_def sn receives_more_def)
    then show ?thesis using k'(1,2) receiver_ok_same(3) [OF same(1-3)] receives_more_trans by blast
  qed
qed

lemma input_command_stream:
  assumes "emitted frs seg" and "receiver_ok frs m (snd s)" and "acks_held (snd s)" and "length frs < 2 ^ 31"
    and "input_command (header_of seg) (s_data seg @ bs) s = Ok s1"
  shows "receiver_ok frs m (snd s1) \<and> acks_held (snd s1) \<and> receives_more (snd s) (snd s1)"
  using assms(5)
proof (cases rule: input_command_receiver)
  case other
  then show ?thesis using keeps_receiver_stream [OF other(1)] assms(2,3) by simp
next
  case (push k)
  have "push_cmd seg" using push(2) by (simp add: push_cmd_def header_of_def)
  from input_push_stream [OF assms(1) this _ _ assms(4) push(3)] show ?thesis
    using keeps_receiver_stream [OF push(1)] assms(2,3) receives_more_trans by blast
qed

text \<open>A whole datagram of the sender.\<close>

lemma input_stream:
  assumes "framed (emitted frs) d" and "receiver_ok frs m k" and "acks_held k" and "length frs < 2 ^ 31"
    and "ikcp_input d (int (length d)) k = Ok (r, k')"
  shows "receiver_ok frs m k' \<and> acks_held k' \<and> receives_more k k'"
proof -
  let ?Q = "\<lambda>k1. receiver_ok frs m k1 \<and> acks_held k1 \<and> receives_more k k1"
  obtain fs where fs: "d = concat (map wire fs)" "list_all (emitted frs) fs" using assms(1) by (auto simp: framed_def)
  have loop: "?Q k1" if run: "input_segments d (int (length d)) (None, k) = Ok (q, a, k1)" for q a k1
  proof -
    have "?Q (snd (a, k1))"
    proof (rule input_segments_framed [where Q = ?Q and P = "emitted frs", OF fs(2)])
      show "unat (s_len seg) = length (s_data seg)" if "emitted frs seg" for seg using that by (simp add: emitted_def)
      show "?Q (snd s1)" if "emitted frs seg" "?Q (snd s)" "input_command (header_of seg) (s_data seg @ bs) s = Ok s1" for seg bs s s1
        using input_command_stream [OF that(1) _ _ assms(4) that(3)] that(2) receives_more_trans by blast
      show "?Q (snd (None, k))" using assms(2,3) by simp
      show "input_segments (concat (map wire fs)) (int (length (concat (map wire fs)))) (None, k) = Ok (q, a, k1)"
        using run fs(1) by simp
    qed
    then show ?thesis by simp
  qed
  have rest: "?Q k2" if "?Q k1" "keeps_receiver k1 k2" for k1 k2
    using that keeps_receiver_stream [OF that(2)] receives_more_trans by blast
  from assms(5) show ?thesis
  proof (cases rule: input_cases)
    case (all a k1 k2)
    have "keeps_receiver k1 k2" "keeps_receiver k2 k'" using all(2,3) by auto
    then show ?thesis using loop [OF all(1)] rest by blast
  qed (use assms(2,3) loop in simp_all)
qed

section \<open>Receiving a message\<close>

text \<open>The fragments of one message: they count down to 0.\<close>

definition frag_of :: "byte list \<Rightarrow> fragment list \<Rightarrow> bool" where
  "frag_of msg fs \<longleftrightarrow> concat (map snd fs) = msg \<and> 0 < length fs \<and> length fs \<le> 255
     \<and> map fst fs = map of_nat (rev [0..<length fs])"

lemma of_nat_small_zero: "l \<le> 255 \<Longrightarrow> (of_nat l :: u32) = 0 \<longleftrightarrow> l = 0"
  using of_nat_u32_eq [of l 0] by simp

lemma first_message_payload:
  assumes "map payload q = fs @ gs" and "map fst fs = map of_nat (rev [0..<Suc l])" and "l \<le> 255"
  shows "map payload (fst (first_message q)) = fs \<and> map payload (snd (first_message q)) = gs"
  using assms
proof (induction l arbitrary: fs q)
  case 0
  then obtain f where "fs = [f]" "fst f = 0" by auto
  then show ?case using 0 by (cases q) (auto simp: payload_def)
next
  case (Suc l)
  then obtain f fs' where fs: "fs = f # fs'" "fst f = of_nat (Suc l)" "map fst fs' = map of_nat (rev [0..<Suc l])"
    by (cases fs) auto
  obtain seg q' where q: "q = seg # q'" "payload seg = f" "map payload q' = fs' @ gs" using Suc.prems(1) fs(1) by (cases q) auto
  have "s_frg seg \<noteq> 0" using q(2) fs(2) Suc.prems(3) of_nat_small_zero [of "Suc l"] by (auto simp: payload_def simp del: of_nat_Suc)
  then show ?case using Suc.IH [OF q(3) fs(3)] Suc.prems(3) q fs(1) by (simp add: split_beta Let_def)
qed

lemma recv_stream:
  assumes recv: "ikcp_recv len k = Ok (r, bs, k')" "0 \<le> r" "0 \<le> len"
    and ok: "receiver_ok frs (length (concat (take j fss))) k" "nrcv_que k = length (rcv_queue k)" "length frs < 2 ^ 31"
      "list_all (seg_fits n) (rcv_queue k)"
    and fss: "frs = concat fss" "j \<le> length fss" "list_all2 frag_of msgs fss"
  shows "j < length fss \<and> bs = msgs ! j \<and> receiver_ok frs (length (concat (take (Suc j) fss))) k' \<and> receives_more k k'"
proof -
  have accepted: "rcv_queue k \<noteq> []" "0 \<le> ikcp_peeksize k" "ikcp_peeksize k \<le> \<bar>len\<bar>"
    using recv_refused [of k len] recv(1,2) by auto
  let ?m = "length (concat (take j fss))" and ?n = "unat (rcv_nxt k)" and ?q = "rcv_queue k"
  have "frs = concat (take j fss) @ concat (drop j fss)" unfolding fss(1) by (metis append_take_drop_id concat_append)
  then have queue: "map payload ?q = take (?n - ?m) (concat (drop j fss))"
    using ok(1) by (simp add: receiver_ok_def drop_take)
  with accepted(1) have "j < length fss" by (cases "j < length fss") auto
  then obtain fs where fs: "fss ! j = fs" "drop j fss = fs # drop (Suc j) fss" by (simp add: Cons_nth_drop_Suc)
  have frag: "frag_of (msgs ! j) fs" using list_all2_nthD2 [OF fss(3) \<open>j < length fss\<close>] fs(1) by simp
  then obtain l where l: "length fs = Suc l" "l \<le> 255" "map fst fs = map of_nat (rev [0..<Suc l])"
    by (cases "length fs") (auto simp: frag_of_def)
  have enough: "Suc l \<le> length ?q"
  proof -
    obtain seg q' where q: "?q = seg # q'" using accepted(1) by (cases ?q) auto
    have "payload seg = hd fs" using queue q fs(2) l(1) by (cases fs; cases "?n - ?m") auto
    then have frg: "s_frg seg = of_nat l" using l(1,3) by (cases fs) (auto simp: payload_def)
    show ?thesis
    proof (cases "l = 0")
      case False
      then have "\<not> nrcv_que k < unat (s_frg seg + 1)"
        using accepted(2) q frg of_nat_small_zero [OF l(2)] by (auto simp: ikcp_peeksize_def split: if_splits)
      moreover have "s_frg seg + 1 = of_nat (Suc l)" using frg by simp
      ultimately show ?thesis using l(2) ok(2) by (simp add: unat_of_nat del: of_nat_Suc)
    qed (simp add: q)
  qed
  have "length ?q \<le> ?n - ?m" using arg_cong [OF queue, of length] by (simp add: min_def split: if_splits)
  then have le: "length fs \<le> ?n - ?m" using enough l(1) by simp
  then have all: "map payload ?q = fs @ take (?n - ?m - length fs) (concat (drop (Suc j) fss))"
    unfolding queue fs(2) by simp
  note msg = first_message_payload [OF all l(3,2)]
  have m': "length (concat (take (Suc j) fss)) = ?m + length fs"
    using \<open>j < length fss\<close> fs(1) by (simp add: take_Suc_conv_app_nth)
  obtain p where p: "r = ikcp_peeksize k" "bs = concat (map s_data (fst (first_message ?q)))"
    "k' = (move_ready (k\<lparr>rcv_queue := snd (first_message ?q), nrcv_que := nrcv_que k - length (fst (first_message ?q))\<rparr>))\<lparr>kprobe := p\<rparr>"
    using recv_form [OF accepted] recv(1,3) copy_out_fits [OF conjunct1 [OF first_message_all [OF ok(4)]], of "\<bar>len\<bar>"]
    by (auto split: if_splits)
  let ?k = "k\<lparr>rcv_queue := snd (first_message ?q), nrcv_que := nrcv_que k - length (fst (first_message ?q))\<rparr>"
  have left: "map payload (snd (first_message ?q)) = drop (?m + length fs) (take ?n frs)"
  proof -
    have "map payload ?q = drop ?m (take ?n frs)" using ok(1) by (simp add: receiver_ok_def)
    then have "drop (length fs) (map payload ?q) = drop (?m + length fs) (take ?n frs)" by (simp add: add.commute)
    then show ?thesis using msg all by simp
  qed
  have "?m + length fs \<le> ?n" using le l(1) by linarith
  with left ok(1) have "receiver_ok frs (?m + length fs) ?k" unfolding receiver_ok_def by simp
  moreover have "receives_more k ?k" by (rule receives_same) simp_all
  ultimately have ready: "receiver_ok frs (?m + length fs) (move_ready ?k)" "receives_more k (move_ready ?k)"
    using move_ready_receiver [OF _ ok(3), of "?m + length fs" ?k] receives_more_trans by blast+
  have same: "rcv_nxt k' = rcv_nxt (move_ready ?k)" "rcv_queue k' = rcv_queue (move_ready ?k)" "rcv_buf k' = rcv_buf (move_ready ?k)"
    unfolding p(3) by simp_all
  have "receiver_ok frs (length (concat (take (Suc j) fss))) k'" "receives_more k k'"
    using ready receives_more_trans receiver_ok_same [OF same] unfolding m' by blast+
  moreover have "bs = msgs ! j"
  proof -
    have "map s_data (fst (first_message ?q)) = map snd (map payload (fst (first_message ?q)))" by (simp add: payload_def)
    then show ?thesis using frag msg unfolding p(2) by (simp add: frag_of_def)
  qed
  ultimately show ?thesis using \<open>j < length fss\<close> by simp
qed

end
