(* ===== verification/KcpSender.thy ===== *)
theory KcpSender
  imports KcpStream
begin

text \<open>
  The sending side of a conversation: the fragments that have a number are those in front of \<open>snd_queue\<close>,
  \<open>snd_buf\<close> keeps the ones not acknowledged, and what \<open>ikcp_flush\<close> outputs holds them unchanged.
\<close>

definition sender_ok :: "fragment list \<Rightarrow> ikcpcb \<Rightarrow> bool" where
  "sender_ok frs k \<longleftrightarrow> kstream k = 0 \<and> unat (snd_nxt k) \<le> length frs
     \<and> map payload (snd_queue k) = drop (unat (snd_nxt k)) frs \<and> list_all (carries frs) (snd_buf k)"

definition kept :: "ikcpcb \<Rightarrow> u32 set" where
  "kept k = s_sn ` set (snd_buf k)"

definition pushes :: "ikcpcb \<Rightarrow> bool" where
  "pushes k \<longleftrightarrow> list_all (\<lambda>seg. s_cmd seg = IKCP_CMD_PUSH) (snd_buf k)"

lemma sender_same:
  assumes "kstream k' = kstream k" "snd_nxt k' = snd_nxt k" "snd_queue k' = snd_queue k" "snd_buf k' = snd_buf k"
  shows "sender_ok frs k' = sender_ok frs k" and "kept k' = kept k" and "pushes k' = pushes k"
  by (simp_all add: sender_ok_def kept_def pushes_def assms)

lemma sender_step:
  assumes "snd_step D k k'"
  shows "sender_ok frs k \<Longrightarrow> sender_ok frs k'" and "sn \<in> kept k \<Longrightarrow> D sn \<or> sn \<in> kept k'" and "pushes k \<Longrightarrow> pushes k'"
proof -
  have from_k: "\<exists>x \<in> set (snd_buf k). same_content x y" if "y \<in> set (snd_buf k')" for y
    using assms that by (simp add: snd_step_def)
  show "sender_ok frs k'" if "sender_ok frs k"
  proof -
    have "carries frs y" if y: "y \<in> set (snd_buf k')" for y
      using from_k [OF y] same_content_carries [of _ y frs] \<open>sender_ok frs k\<close> by (auto simp: sender_ok_def list_all_iff)
    then show ?thesis using assms that by (simp add: sender_ok_def snd_step_def list_all_iff)
  qed
  show "pushes k'" if "pushes k"
    using that from_k by (fastforce simp: pushes_def list_all_iff same_content_def)
  show "D sn \<or> sn \<in> kept k'" if "sn \<in> kept k"
  proof -
    obtain x where x: "x \<in> set (snd_buf k)" "sn = s_sn x" using \<open>sn \<in> kept k\<close> by (auto simp: kept_def)
    have "s_sn x \<in> kept k'" if "y \<in> set (snd_buf k')" "same_content x y" for y
      using that image_eqI [of "s_sn x" s_sn y "set (snd_buf k')"] by (simp add: kept_def same_content_def)
    then show ?thesis using x assms unfolding snd_step_def by blast
  qed
qed

section \<open>Sending\<close>

lemma payload_unsent [simp]: "payload (unsent f) = f"
  by (cases f) (simp add: payload_def unsent_def new_seg_def)

lemma concat_fragments: "length bs \<le> r * mss \<Longrightarrow> concat (map snd (fragments mss stream r bs)) = bs"
  by (induction r arbitrary: bs) simp_all

lemma fragments_numbers: "map fst (fragments mss False r bs) = map of_nat (rev [0..<r])"
  by (induction r arbitrary: bs) simp_all

lemma unat_of_small: "i < 2 ^ 32 \<Longrightarrow> unat (of_nat i :: u32) = i"
  by (simp add: unat_of_nat)

lemma fragment_count_enough:
  assumes "0 < unat mss" and "unat mss < 2 ^ 31" and "len < 2 ^ 31"
  shows "0 < fragment_count len mss" and "len \<le> fragment_count len mss * unat mss"
proof -
  show "0 < fragment_count len mss" by (simp add: fragment_count_def Let_def)
  show "len \<le> fragment_count len mss * unat mss"
  proof (cases "len \<le> unat mss")
    case False
    let ?m = "unat mss"
    have "of_nat len + mss - 1 = (of_nat (len + ?m - 1) :: u32)" using assms(1) by (simp add: of_nat_diff)
    moreover have "unat (of_nat (len + ?m - 1) :: u32) = len + ?m - 1" using assms(2,3) by (intro unat_of_small) simp
    ultimately have "unat ((of_nat len + mss - 1) div mss) = (len + ?m - 1) div ?m" by (simp only: unat_div_distrib)
    moreover have "len \<le> (len + ?m - 1) div ?m * ?m"
      using div_mult_mod_eq [of "len + ?m - 1" ?m] mod_less_divisor [OF assms(1), of "len + ?m - 1"] assms(1) by linarith
    moreover have "(len + ?m - 1) div ?m \<noteq> 0" using False assms(1) by (simp add: div_eq_0_iff)
    ultimately show ?thesis using False by (simp add: fragment_count_def Let_def)
  qed (simp add: fragment_count_def)
qed

text \<open>A message that is accepted becomes fragments at the end of \<open>snd_queue\<close>; a refused one changes nothing.\<close>

lemma send_stream:
  assumes "ikcp_send bs (int (length bs)) k = Ok (r, k')" and "kcp_ok k" and "kstream k = 0" and "length bs < 2 ^ 31"
  obtains (refused) "r \<noteq> 0" "k' = k"
  | (sent) fs n where "r = 0" "frag_of bs fs" "k' = k\<lparr>snd_queue := snd_queue k @ map unsent fs, nsnd_que := n\<rparr>"
proof -
  let ?c = "fragment_count (length bs) (kmss k)"
  let ?fs = "fragments (unat (kmss k)) False ?c bs"
  have mss: "0 < unat (kmss k)" "unat (kmss k) < 2 ^ 31" using kcp_ok_mss [OF assms(2)] by simp_all
  have rest: "send_rest bs (length bs) k = Ok (r, k')" using assms(1,3) by (auto simp: ikcp_send_def assertR_eq_Ok)
  show thesis
  proof (cases "255 < ?c")
    case True
    then show ?thesis using rest refused by (simp add: send_rest_def)
  next
    case False
    have "frag_of bs ?fs"
      using concat_fragments fragments_numbers fragment_count_enough [OF mss assms(4)] False by (simp add: frag_of_def)
    then show ?thesis using rest sent [of ?fs] False assms(3) by (auto simp: send_rest_def send_fragments_form)
  qed
qed

section \<open>Flushing\<close>

lemma numbered_payload:
  assumes "numbered_by conv nxt ms ns" and "map payload ms = take (length ms) (drop (unat nxt) frs)"
    and "unat nxt + length ms \<le> length frs" and "length frs < 2 ^ 31" and "x \<in> set ns"
  shows "carries frs x" and "s_cmd x = IKCP_CMD_PUSH"
proof -
  from assms(1,5) obtain i where i: "i < length ms" "x = ns ! i" by (auto simp: numbered_by_def in_set_conv_nth)
  have same: "payload x = payload (ms ! i)" "s_sn x = nxt + of_nat i"
    using assms(1) i by (simp_all add: numbered_by_def payload_def)
  have "s_sn x = of_nat (unat nxt + i)" using same(2) by simp
  then have "index_of x = unat nxt + i" unfolding index_of_def using i(1) assms(3,4) unat_of_small [of "unat nxt + i"] by simp
  moreover have "payload (ms ! i) = frs ! (unat nxt + i)"
    using arg_cong [OF assms(2), of "\<lambda>xs. xs ! i"] i(1) assms(3) by simp
  ultimately show "carries frs x" using same(1) i(1) assms(3) by (simp add: carries_def)
  show "s_cmd x = IKCP_CMD_PUSH" using assms(1) i by (simp add: numbered_by_def)
qed

definition small_frgs :: "fragment list \<Rightarrow> bool" where
  "small_frgs frs \<longleftrightarrow> (\<forall>f \<in> set frs. unat (fst f) < 256)"

lemma carries_small: "small_frgs frs \<Longrightarrow> carries frs seg \<Longrightarrow> unat (s_frg seg) < 256"
  unfolding small_frgs_def carries_def payload_def by (metis fst_conv nth_mem)

lemma control_not_push:
  "cmd \<in> {IKCP_CMD_ACK, IKCP_CMD_WASK, IKCP_CMD_WINS} \<Longrightarrow> \<not> push_cmd (control_seg cmd sn ts k)"
  by (auto simp: push_cmd_def kcp_commands)

lemma flush_sender:
  assumes ok: "kcp_ok k" "sender_ok frs k" and small: "length frs < 2 ^ 31" "small_frgs frs"
    and flush: "ikcp_flush k = Ok (ds, k')"
  shows "sender_ok frs k'" and "list_all (framed (emitted frs)) ds" and "kept k \<subseteq> kept k'"
    and "unat sn < unat (snd_nxt k') \<Longrightarrow> unat sn < unat (snd_nxt k) \<or> sn \<in> kept k'"
    and "kcp_flushed k k'"
proof -
  have parts: "unat (snd_nxt k) \<le> length frs" "map payload (snd_queue k) = drop (unat (snd_nxt k)) frs"
    using ok(2) by (simp_all add: sender_ok_def)
  have taken: "map payload ms = take (length ms) (drop (unat (snd_nxt k)) frs)"
    "map payload ss = drop (unat (snd_nxt k) + length ms) frs" "unat (snd_nxt k) + length ms \<le> length frs"
    if "snd_queue k = ms @ ss" for ms ss
  proof -
    have "drop (unat (snd_nxt k)) frs = map payload ms @ map payload ss" using parts(2) that by simp
    then show "map payload ms = take (length ms) (drop (unat (snd_nxt k)) frs)"
      "map payload ss = drop (unat (snd_nxt k) + length ms) frs" by (simp_all add: add.commute flip: drop_drop)
    show "unat (snd_nxt k) + length ms \<le> length frs" using arg_cong [OF parts(2), of length] parts(1) that by simp
  qed
  have carried: "carries frs x" if "snd_queue k = ms @ ss" "numbered_by (kconv k) (snd_nxt k) ms ns" "x \<in> set (snd_buf k @ ns)" for ms ss ns x
    using that(3) ok(2) numbered_payload(1) [OF that(2) taken(1,3) [OF that(1)] small(1)] by (auto simp: sender_ok_def list_all_iff)
  have "\<exists>ds k'. ikcp_flush k = Ok (ds, k') \<and> kcp_ok k' \<and> kcp_flushed k k'
    \<and> list_all (\<lambda>d. length d \<le> unat (kmtu k) \<and> framed (\<lambda>seg. emitted frs seg) d) ds"
  proof (rule flush_ok [OF ok(1)])
    fix ms ss ns x y
    assume a: "snd_queue k = ms @ ss" "numbered_by (kconv k) (snd_nxt k) ms ns" "x \<in> set (snd_buf k @ ns)" "same_content x y"
    have "carries frs y" using carried [OF a(1-3)] same_content_carries [OF a(4)] by simp
    moreover have "seg_fits (unat (kmss k)) x"
    proof -
      have "list_all (seg_fits (unat (kmss k))) ms" "list_all (seg_fits (unat (kmss k))) (snd_buf k)"
        using ok(1) a(1) by (simp_all add: kcp_ok_def snd_ok_def)
      then have "list_all (seg_fits (unat (kmss k))) (snd_buf k @ ns)" using numbered_by_fits [OF a(2)] by simp
      then show ?thesis using a(3) by (simp add: list_all_iff)
    qed
    ultimately show "emitted frs y"
      using carries_small [OF small(2)] same_content_fits [OF a(4)] by (auto simp: emitted_def seg_fits_def)
  qed (auto simp: emitted_def control_not_push)
  then have fl: "kcp_flushed k k'" and out: "list_all (framed (emitted frs)) ds" using flush by (auto simp: list_all_iff)
  from fl obtain ms ns where m: "snd_queue k = ms @ snd_queue k'" "numbered_by (kconv k) (snd_nxt k) ms ns"
    "snd_nxt k' = snd_nxt k + of_nat (length ms)" "list_all2 same_content (snd_buf k @ ns) (snd_buf k')" "kstream k' = kstream k"
    by (auto simp: kcp_flushed_def same_receiver_def)
  have "snd_nxt k' = of_nat (unat (snd_nxt k) + length ms)" using m(3) by simp
  then have nxt: "unat (snd_nxt k') = unat (snd_nxt k) + length ms"
    using taken(3) [OF m(1)] small(1) unat_of_small [of "unat (snd_nxt k) + length ms"] by simp
  have buf: "list_all (carries frs) (snd_buf k @ ns)" using carried [OF m(1,2)] by (simp add: list_all_iff)
  have "list_all (carries frs) (snd_buf k')"
    by (rule list_all2_list_all [OF m(4) buf]) (simp add: same_content_carries)
  then show "sender_ok frs k'" using ok(2) nxt taken(2,3) [OF m(1)] m(5) by (simp add: sender_ok_def)
  show "list_all (framed (emitted frs)) ds" by (rule out)
  have "map s_sn (snd_buf k @ ns) = map s_sn (snd_buf k')"
    using m(4) by (induction rule: list_all2_induct) (simp_all add: same_content_def)
  then have sns: "s_sn ` set (snd_buf k @ ns) = kept k'" unfolding kept_def by (metis set_map)
  then show "kept k \<subseteq> kept k'" by (auto simp: kept_def)
  show "unat sn < unat (snd_nxt k) \<or> sn \<in> kept k'" if "unat sn < unat (snd_nxt k')"
  proof (cases "unat sn < unat (snd_nxt k)")
    case False
    let ?i = "unat sn - unat (snd_nxt k)"
    have i: "?i < length ms" using that nxt False by simp
    have "sn = of_nat (unat (snd_nxt k) + ?i)" using False by simp
    then have "sn = s_sn (ns ! ?i)" "ns ! ?i \<in> set ns" using m(2) i by (simp_all add: numbered_by_def)
    then show ?thesis using sns by auto
  qed simp
  show "kcp_flushed k k'" by (rule fl)
qed

end
