(* ===== verification/KcpEnds.thy ===== *)
theory KcpEnds
  imports KcpSender
begin

text \<open>
  What the calls of a client change at the two ends of a conversation: sending and receiving, and what the
  receiver's own datagrams acknowledge.
\<close>

section \<open>Frames\<close>

lemma recv_cases:
  assumes "ikcp_recv len k = Ok (r, bs, k')"
  obtains (refused) "r < 0" "k' = k"
  | (accepted) q n p where "k' = (move_ready (k\<lparr>rcv_queue := q, nrcv_que := n\<rparr>))\<lparr>kprobe := p\<rparr>"
      "len < 0 \<Longrightarrow> q = rcv_queue k" "0 \<le> r"
proof (cases "rcv_queue k \<noteq> [] \<and> 0 \<le> ikcp_peeksize k \<and> ikcp_peeksize k \<le> \<bar>len\<bar>")
  case False
  then show ?thesis using recv_refused [OF False] assms refused by auto
next
  case True
  have self: "k = k\<lparr>rcv_queue := rcv_queue k, nrcv_que := nrcv_que k\<rparr>" by simp
  obtain p where p: "k' = (move_ready (if len < 0 then k else k\<lparr>rcv_queue := snd (first_message (rcv_queue k)),
      nrcv_que := nrcv_que k - length (fst (first_message (rcv_queue k)))\<rparr>))\<lparr>kprobe := p\<rparr>" "0 \<le> r"
    using recv_form [of k len] True assms by (cases "copy_out \<bar>len\<bar> (fst (first_message (rcv_queue k)))") auto
  show ?thesis
  proof (cases "len < 0")
    case neg: True
    then show ?thesis using p self accepted [where q = "rcv_queue k" and n = "nrcv_que k" and p = p] by simp
  next
    case False
    then show ?thesis using p accepted by simp
  qed
qed

lemma recv_step:
  assumes "ikcp_recv len k = Ok (r, bs, k')"
  shows "snd_step D k k' \<and> acklist k' = acklist k \<and> ackcount k' = ackcount k"
  using assms
proof (cases rule: recv_cases)
  case (accepted q n p)
  let ?k = "k\<lparr>rcv_queue := q, nrcv_que := n\<rparr>"
  have "snd_step D k ?k" "snd_step D (move_ready ?k) ((move_ready ?k)\<lparr>kprobe := p\<rparr>)" by (auto intro: snd_step_same)
  then have "snd_step D k k'" unfolding accepted(1) using snd_step_trans move_ready_step by blast
  moreover have "acklist (move_ready k1) = acklist k1 \<and> ackcount (move_ready k1) = ackcount k1" for k1
    using move_ready_form [of k1] by auto
  ultimately show ?thesis by (simp add: accepted(1))
qed simp

lemma flush_acks_done: "ikcp_flush k = Ok (ds, k') \<Longrightarrow> k' = k \<or> ackcount k' = 0"
proof -
  have move: "ackcount (move_to_buf wnd k1) = ackcount k1" for wnd k1 using move_to_buf_form [of k1 wnd] by auto
  have adapt: "ackcount (adapt_cwnd wnd whys k1) = ackcount k1" for wnd whys k1 using adapt_cwnd_form [of wnd whys k1] by auto
  have probe: "ackcount (update_probe k1) = ackcount k1" for k1 using update_probe_form [of k1] by auto
  assume "ikcp_flush k = Ok (ds, k')"
  then show ?thesis by (auto simp: ikcp_flush_def Let_def bindR_eq_Ok adapt move probe split: if_splits prod.splits)
qed

section \<open>Answers\<close>

text \<open>What the datagrams of the receiver acknowledge.\<close>

definition answers :: "ikcpcb \<Rightarrow> kseg \<Rightarrow> bool" where
  "answers k seg \<longleftrightarrow> unat (s_len seg) = length (s_data seg) \<and> unat (s_una seg) \<le> unat (rcv_nxt k)
     \<and> ((ucast (ucast (s_cmd seg) :: 8 word) :: u32) = IKCP_CMD_ACK \<longrightarrow> kcp_held k (s_sn seg))"

lemma answers_more: "receives_more k k' \<Longrightarrow> framed (answers k) d \<Longrightarrow> framed (answers k') d"
  by (erule framed_mono) (auto simp: answers_def receives_more_def)

lemma flush_answers:
  assumes "kcp_ok k" and "acks_held k" and "pushes k" and "ikcp_flush k = Ok (ds, k')"
  shows "list_all (framed (answers k)) ds" and "pushes k'" and "acks_held k'" and "kcp_flushed k k'"
proof -
  have push: "s_cmd x = IKCP_CMD_PUSH" if "numbered_by (kconv k) (snd_nxt k) ms ns" "x \<in> set (snd_buf k @ ns)" for ms ns x
  proof (cases "x \<in> set ns")
    case True
    then show ?thesis using that(1) by (auto simp: numbered_by_def in_set_conv_nth)
  next
    case False
    then show ?thesis using that(2) assms(3) by (simp add: pushes_def list_all_iff)
  qed
  have "\<exists>ds k'. ikcp_flush k = Ok (ds, k') \<and> kcp_ok k' \<and> kcp_flushed k k'
    \<and> list_all (\<lambda>d. length d \<le> unat (kmtu k) \<and> framed (\<lambda>seg. answers k seg) d) ds"
  proof (rule flush_ok [OF assms(1)])
    fix ms ss ns x y
    assume a: "snd_queue k = ms @ ss" "numbered_by (kconv k) (snd_nxt k) ms ns" "x \<in> set (snd_buf k @ ns)" "same_content x y"
      "s_una y = rcv_nxt k"
    have "list_all (seg_fits (unat (kmss k))) ms" "list_all (seg_fits (unat (kmss k))) (snd_buf k)"
      using assms(1) a(1) by (simp_all add: kcp_ok_def snd_ok_def)
    then have "list_all (seg_fits (unat (kmss k))) (snd_buf k @ ns)" using numbered_by_fits [OF a(2)] by simp
    then have "seg_fits (unat (kmss k)) y" using a(3) same_content_fits [OF a(4)] by (simp add: list_all_iff)
    moreover have "s_cmd y = IKCP_CMD_PUSH" using push [OF a(2,3)] a(4) by (simp add: same_content_def)
    ultimately show "answers k y" using a(5) by (simp add: answers_def seg_fits_def kcp_commands)
  qed (use assms(2) in \<open>auto simp: answers_def acks_held_def kcp_commands\<close>)
  then show fl: "kcp_flushed k k'" and "list_all (framed (answers k)) ds" using assms(4) by (auto simp: list_all_iff)
  from fl obtain ms ns where m: "numbered_by (kconv k) (snd_nxt k) ms ns" "list_all2 same_content (snd_buf k @ ns) (snd_buf k')"
    by (auto simp: kcp_flushed_def)
  have "list_all (\<lambda>seg. s_cmd seg = IKCP_CMD_PUSH) (snd_buf k @ ns)" using push [OF m(1)] by (simp add: list_all_iff)
  then show "pushes k'" unfolding pushes_def by (rule list_all2_list_all [OF m(2)]) (simp add: same_content_def)
  show "acks_held k'" using flush_acks_done [OF assms(4)] assms(2) by (auto simp: acks_held_def)
qed

text \<open>The sender forgets only what the receiver holds.\<close>

lemma input_answers:
  assumes "framed (answers b) d" and "unat (rcv_nxt b) < 2 ^ 31" and "ikcp_input d (int (length d)) a = Ok (r, a')"
  shows "snd_step (\<lambda>sn. unat sn < 2 ^ 31 \<longrightarrow> kcp_held b sn) a a'"
proof -
  let ?D = "\<lambda>sn. unat sn < 2 ^ 31 \<longrightarrow> kcp_held b sn"
  obtain fs where fs: "d = concat (map wire fs)" "list_all (answers b) fs" using assms(1) by (auto simp: framed_def)
  have acked: "?D sn" if "answers b seg" "acknowledges (header_of seg) sn" for seg sn
  proof (cases "0 < itimediff (s_una seg) sn")
    case True
    have "unat (s_una seg) \<le> unat (rcv_nxt b)" using that(1) by (simp add: answers_def)
    then show ?thesis using True itimediff_unat [of "s_una seg" sn] assms(2) by (auto simp: kcp_held_def simp del: of_nat_unat)
  next
    case False
    then show ?thesis using that by (auto simp: acknowledges_def answers_def header_of_def)
  qed
  have loop: "snd_step ?D a a1" if run: "input_segments d (int (length d)) (None, a) = Ok (q, m, a1)" for q m a1
  proof -
    have "snd_step ?D a (snd (m, a1))"
    proof (rule input_segments_framed [where Q = "snd_step ?D a" and P = "answers b", OF fs(2)])
      show "unat (s_len seg) = length (s_data seg)" if "answers b seg" for seg using that by (simp add: answers_def)
      show "snd_step ?D a (snd s1)"
        if "answers b seg" "snd_step ?D a (snd s)" "input_command (header_of seg) (s_data seg @ bs) s = Ok s1" for seg bs s s1
        using snd_step_trans [OF that(2) snd_step_mono [OF input_command_step [OF that(3)]]] acked [OF that(1)] by blast
      show "input_segments (concat (map wire fs)) (int (length (concat (map wire fs)))) (None, a) = Ok (q, m, a1)"
        using run fs(1) by simp
    qed simp
    then show ?thesis by simp
  qed
  from assms(3) show ?thesis
  proof (cases rule: input_cases)
    case (all m a1 a2)
    have "snd_step ?D a1 a2" "snd_step ?D a2 a'" using all(2,3) parse_fastack_step grow_cwnd_step snd_step_refl by blast+
    then show ?thesis using loop [OF all(1)] snd_step_trans by blast
  qed (use loop in blast | simp)+
qed

section \<open>Calls\<close>

text \<open>The calls of a client other than sending messages, receiving them and input.\<close>

definition other_call :: "kcp_op \<Rightarrow> bool" where
  "other_call x \<longleftrightarrow> (case x of KSend _ \<Rightarrow> False | KInput _ \<Rightarrow> False | KRecv _ \<Rightarrow> False | _ \<Rightarrow> True)"

text \<open>Such a call flushes, after it has changed times perhaps, or changes settings only.\<close>

lemma other_call_cases:
  assumes "other_call x" and "kcp_do x k = Ok (ds, k')"
  obtains (settings) "ds = []" "snd_buf k' = snd_buf k" "snd_queue k' = snd_queue k" "snd_nxt k' = snd_nxt k"
      "kstream k' = kstream k" "rcv_nxt k' = rcv_nxt k" "rcv_queue k' = rcv_queue k" "rcv_buf k' = rcv_buf k"
      "acklist k' = acklist k" "ackcount k' = ackcount k"
  | (flush) k1 where "ikcp_flush k1 = Ok (ds, k')" "\<exists>c u f. k1 = k\<lparr>kcurrent := c, updated := u, ts_flush := f\<rparr>"
proof (cases x)
  case (KUpdate t)
  have upd: "ikcp_update t k = Ok (ds, k')" using assms(2) KUpdate by simp
  from update_form [of t k] obtain f where f: "ikcp_update t k = Ok ([], k\<lparr>kcurrent := t, updated := True, ts_flush := f\<rparr>)
    \<or> ikcp_update t k = ikcp_flush (k\<lparr>kcurrent := t, updated := True, ts_flush := f\<rparr>)" by blast
  show ?thesis
  proof (cases "ikcp_update t k = ikcp_flush (k\<lparr>kcurrent := t, updated := True, ts_flush := f\<rparr>)")
    case True
    then show ?thesis using upd flush by auto
  next
    case False
    then have "ds = []" "k' = k\<lparr>kcurrent := t, updated := True, ts_flush := f\<rparr>" using f upd by simp_all
    then show ?thesis using settings by simp
  qed
next
  case KFlush
  have "k = k\<lparr>kcurrent := kcurrent k, updated := updated k, ts_flush := ts_flush k\<rparr>" by simp
  then show ?thesis using flush [of k] KFlush assms(2) by (metis kcp_do.simps(5))
qed (use assms settings in \<open>auto simp: other_call_def ikcp_setmtu_def ikcp_wndsize_def ikcp_nodelay_def ikcp_interval_def Let_def\<close>)

lemma other_call_sender:
  assumes "kcp_ok k" and "sender_ok frs k" and "length frs < 2 ^ 31" and "small_frgs frs"
    and "other_call x" and "kcp_do x k = Ok (ds, k')"
  shows "sender_ok frs k'" and "list_all (framed (emitted frs)) ds" and "kept k \<subseteq> kept k'"
    and "unat sn < unat (snd_nxt k') \<Longrightarrow> unat sn < unat (snd_nxt k) \<or> sn \<in> kept k'"
proof -
  have "sender_ok frs k' \<and> list_all (framed (emitted frs)) ds \<and> kept k \<subseteq> kept k'
    \<and> (unat sn < unat (snd_nxt k') \<longrightarrow> unat sn < unat (snd_nxt k) \<or> sn \<in> kept k')" for sn
    using assms(5,6)
  proof (cases rule: other_call_cases)
    case settings
    then show ?thesis using assms(2) sender_same [of k' k] by simp
  next
    case (flush k1)
    then obtain c u f where k1: "k1 = k\<lparr>kcurrent := c, updated := u, ts_flush := f\<rparr>" by blast
    have same: "sender_ok frs k1 = sender_ok frs k" "kept k1 = kept k" "snd_nxt k1 = snd_nxt k"
      using sender_same [of k1 k] by (simp_all add: k1)
    have "kcp_ok k1" "sender_ok frs k1" using assms(1,2) same by (simp_all add: k1)
    from flush_sender [OF this assms(3,4) flush(1)] show ?thesis unfolding same by blast
  qed
  then show "sender_ok frs k'" "list_all (framed (emitted frs)) ds" "kept k \<subseteq> kept k'"
    "unat sn < unat (snd_nxt k') \<Longrightarrow> unat sn < unat (snd_nxt k) \<or> sn \<in> kept k'" by blast+
qed

lemma other_call_receiver:
  assumes "kcp_ok k" and "acks_held k" and "pushes k" and "other_call x" and "kcp_do x k = Ok (ds, k')"
  shows "list_all (framed (answers k)) ds" and "pushes k'" and "acks_held k'"
    and "rcv_nxt k' = rcv_nxt k" and "rcv_queue k' = rcv_queue k" and "rcv_buf k' = rcv_buf k"
proof -
  have "list_all (framed (answers k)) ds \<and> pushes k' \<and> acks_held k' \<and> rcv_nxt k' = rcv_nxt k \<and> rcv_queue k' = rcv_queue k
    \<and> rcv_buf k' = rcv_buf k"
    using assms(4,5)
  proof (cases rule: other_call_cases)
    case settings
    then show ?thesis using assms(2,3) receiver_ok_same [of k' k] by (simp add: pushes_def acks_held_def)
  next
    case (flush k1)
    then obtain c u f where k1: "k1 = k\<lparr>kcurrent := c, updated := u, ts_flush := f\<rparr>" by blast
    have same: "acks_held k1 = acks_held k" "pushes k1 = pushes k" "answers k1 = answers k"
      by (simp_all add: k1 acks_held_def pushes_def answers_def kcp_held_def fun_eq_iff)
    have "kcp_ok k1" "acks_held k1" "pushes k1" using assms(1-3) same by (simp_all add: k1)
    note fl = flush_answers [OF this flush(1)]
    then have "rcv_nxt k' = rcv_nxt k" "rcv_queue k' = rcv_queue k" "rcv_buf k' = rcv_buf k"
      by (simp_all add: kcp_flushed_def same_receiver_def k1)
    then show ?thesis using fl(1-3) unfolding same by blast
  qed
  then show "list_all (framed (answers k)) ds" "pushes k'" "acks_held k'" "rcv_nxt k' = rcv_nxt k" "rcv_queue k' = rcv_queue k"
    "rcv_buf k' = rcv_buf k" by blast+
qed

end
