(* ===== verification/KcpLink.thy ===== *)
theory KcpLink
  imports KcpEnds
begin

text \<open>
  Two control blocks and the network between them. The network keeps every datagram and may deliver it never,
  once or many times, in any order. What the sender is fed is arbitrary, or, in a conversation that is
  \<open>honest\<close>, only what the receiver output.
\<close>

section \<open>Conversations\<close>

record kcp_link =
  lk_a :: ikcpcb
  lk_b :: ikcpcb
  lk_out :: "byte list list"
  lk_back :: "byte list list"
  lk_sent :: "byte list list"
  lk_got :: "byte list list"

definition new_kcp_link :: "u32 \<Rightarrow> kcp_link" where
  "new_kcp_link conv = \<lparr>lk_a = ikcp_setoutput True (ikcp_create conv), lk_b = ikcp_setoutput True (ikcp_create conv),
     lk_out = [], lk_back = [], lk_sent = [], lk_got = []\<rparr>"

text \<open>
  \<open>lk_out\<close> holds the datagrams of the sender, \<open>lk_back\<close> those of the receiver; \<open>lk_sent\<close> and \<open>lk_got\<close> are the
  messages accepted by \<open>ikcp_send\<close> and returned by \<open>ikcp_recv\<close>. The other calls do what they want to either
  block, only the datagrams' size is never lowered.
\<close>

inductive kcp_link_step :: "bool \<Rightarrow> kcp_link \<Rightarrow> kcp_link \<Rightarrow> bool" for honest where
  message: "\<lbrakk>length bs < 2 ^ 31; ikcp_send bs (int (length bs)) (lk_a s) = Ok (r, a)\<rbrakk>
    \<Longrightarrow> kcp_link_step honest s (s\<lparr>lk_a := a, lk_sent := (if r = 0 then lk_sent s @ [bs] else lk_sent s)\<rparr>)"
| call_a: "\<lbrakk>other_call x; calls_ok (int (unat (kmtu (lk_a s)))) [x]; kcp_do x (lk_a s) = Ok (ds, a)\<rbrakk>
    \<Longrightarrow> kcp_link_step honest s (s\<lparr>lk_a := a, lk_out := lk_out s @ ds\<rparr>)"
| recv_a: "ikcp_recv len (lk_a s) = Ok (r, bs, a) \<Longrightarrow> kcp_link_step honest s (s\<lparr>lk_a := a\<rparr>)"
| input_a: "\<lbrakk>if honest then d \<in> set (lk_back s) else length d < 2 ^ 31; ikcp_input d (int (length d)) (lk_a s) = Ok (r, a)\<rbrakk>
    \<Longrightarrow> kcp_link_step honest s (s\<lparr>lk_a := a\<rparr>)"
| input_b: "\<lbrakk>d \<in> set (lk_out s); ikcp_input d (int (length d)) (lk_b s) = Ok (r, b)\<rbrakk>
    \<Longrightarrow> kcp_link_step honest s (s\<lparr>lk_b := b\<rparr>)"
| recv_b: "ikcp_recv len (lk_b s) = Ok (r, bs, b)
    \<Longrightarrow> kcp_link_step honest s (s\<lparr>lk_b := b, lk_got := (if 0 \<le> r \<and> 0 \<le> len then lk_got s @ [bs] else lk_got s)\<rparr>)"
| send_b: "ikcp_send bs (int (length bs)) (lk_b s) = Ok (r, b) \<Longrightarrow> kcp_link_step honest s (s\<lparr>lk_b := b\<rparr>)"
| call_b: "\<lbrakk>other_call x; calls_ok (int (unat (kmtu (lk_b s)))) [x]; kcp_do x (lk_b s) = Ok (ds, b)\<rbrakk>
    \<Longrightarrow> kcp_link_step honest s (s\<lparr>lk_b := b, lk_back := lk_back s @ ds\<rparr>)"

section \<open>The invariant\<close>

text \<open>\<open>fss\<close> are the fragments of the messages sent.\<close>

definition messages_ok :: "fragment list list \<Rightarrow> kcp_link \<Rightarrow> bool" where
  "messages_ok fss s \<longleftrightarrow> list_all2 frag_of (lk_sent s) fss \<and> length (lk_got s) \<le> length fss
     \<and> take (length (lk_got s)) (lk_sent s) = lk_got s"

definition a_ok :: "fragment list \<Rightarrow> kcp_link \<Rightarrow> bool" where
  "a_ok frs s \<longleftrightarrow> kcp_ok (lk_a s) \<and> sender_ok frs (lk_a s) \<and> list_all (\<lambda>d. framed (emitted frs) d \<and> length d < 2 ^ 31) (lk_out s)"

definition b_ok :: "fragment list list \<Rightarrow> kcp_link \<Rightarrow> bool" where
  "b_ok fss s \<longleftrightarrow> kcp_ok (lk_b s) \<and> acks_held (lk_b s) \<and> pushes (lk_b s)
     \<and> receiver_ok (concat fss) (length (concat (take (length (lk_got s)) fss))) (lk_b s)
     \<and> list_all (\<lambda>d. framed (answers (lk_b s)) d \<and> length d < 2 ^ 31) (lk_back s)"

text \<open>Nothing is lost: what has a number is kept by the sender until the receiver holds it.\<close>

definition not_lost :: "kcp_link \<Rightarrow> bool" where
  "not_lost s \<longleftrightarrow> (\<forall>sn. unat sn < unat (snd_nxt (lk_a s)) \<longrightarrow> kcp_held (lk_b s) sn \<or> sn \<in> kept (lk_a s))"

definition kcp_link_inv :: "bool \<Rightarrow> fragment list list \<Rightarrow> kcp_link \<Rightarrow> bool" where
  "kcp_link_inv honest fss s \<longleftrightarrow> messages_ok fss s \<and> a_ok (concat fss) s \<and> b_ok fss s \<and> (honest \<longrightarrow> not_lost s)"

lemma frag_small: "frag_of msg fs \<Longrightarrow> small_frgs fs"
proof -
  assume frag: "frag_of msg fs"
  have "unat x < 256" if "x \<in> set (map fst fs)" for x
  proof -
    have "x \<in> (of_nat :: nat \<Rightarrow> u32) ` {0..<length fs}" "length fs \<le> 255"
      using that frag by (simp_all add: frag_of_def del: set_map) simp
    then show ?thesis by (auto simp: unat_of_small)
  qed
  then show ?thesis by (auto simp: small_frgs_def)
qed

lemma messages_small: "list_all2 frag_of msgs fss \<Longrightarrow> small_frgs (concat fss) \<and> length (concat fss) \<le> 255 * length msgs"
proof (induction rule: list_all2_induct)
  case (Cons msg msgs fs fss)
  then show ?case using frag_small [OF Cons(1)] by (auto simp: frag_of_def small_frgs_def)
qed (simp add: small_frgs_def)

lemma carries_more: "list_all (carries frs) ss \<Longrightarrow> list_all (carries (frs @ new)) ss"
  by (simp add: list_all_iff carries_append)

lemma emitted_append: "framed (emitted frs) d \<Longrightarrow> framed (emitted (frs @ new)) d"
  by (erule framed_mono) (auto simp: emitted_def carries_append)

lemma mtu_small: "kcp_ok k \<Longrightarrow> length d \<le> unat (kmtu k) \<Longrightarrow> length d < 2 ^ 31"
proof -
  assume "kcp_ok k" "length d \<le> unat (kmtu k)"
  moreover from this have "unat (kmtu k) \<le> 2 ^ 30" by (simp add: kcp_ok_def kcp_config_def)
  ultimately have "length d \<le> 2 ^ 30" by linarith
  then show ?thesis by simp
qed

lemma other_call_datagrams:
  assumes "kcp_ok k" and "calls_ok (int (unat (kmtu k))) [x]" and "kcp_do x k = Ok (ds, k')"
  shows "kcp_ok k'" and "list_all (\<lambda>d. length d < 2 ^ 31) ds"
proof -
  have "\<exists>r bs k1. ikcp_recv len k = Ok (r, bs, k1)" if "x = KRecv len" for len using that assms(3) by (auto simp: bindR_eq_Ok)
  from kcp_do_ok [OF assms(1,2) this] show "kcp_ok k'" "list_all (\<lambda>d. length d < 2 ^ 31) ds"
    using assms(3) mtu_small [OF assms(1)] by (auto simp: list_all_iff)
qed

lemma not_lost_a:
  assumes "not_lost s" and "kept (lk_a s) \<subseteq> kept a"
    and "\<And>sn. unat sn < unat (snd_nxt a) \<Longrightarrow> unat sn < unat (snd_nxt (lk_a s)) \<or> sn \<in> kept a"
  shows "not_lost (s\<lparr>lk_a := a\<rparr>)"
  using assms unfolding not_lost_def by (simp, blast)

lemma not_lost_b: "not_lost s \<Longrightarrow> receives_more (lk_b s) b \<Longrightarrow> not_lost (s\<lparr>lk_b := b\<rparr>)"
  unfolding not_lost_def receives_more_def by auto

lemma not_lost_same [simp]:
  "not_lost (s\<lparr>lk_out := x\<rparr>) = not_lost s" "not_lost (s\<lparr>lk_back := x\<rparr>) = not_lost s"
  "not_lost (s\<lparr>lk_sent := x\<rparr>) = not_lost s" "not_lost (s\<lparr>lk_got := x\<rparr>) = not_lost s"
  by (simp_all add: not_lost_def)

lemma back_more: "receives_more b b' \<Longrightarrow> list_all (\<lambda>d. framed (answers b) d \<and> P d) ds \<Longrightarrow> list_all (\<lambda>d. framed (answers b') d \<and> P d) ds"
  by (auto simp: list_all_iff intro: answers_more)

text \<open>The receiver's block changes.\<close>

lemma kcp_link_inv_b:
  assumes "kcp_link_inv honest fss s" and "kcp_ok b" "acks_held b" "pushes b" "receives_more (lk_b s) b"
    and "receiver_ok (concat fss) (length (concat (take (length (lk_got s)) fss))) b"
  shows "kcp_link_inv honest fss (s\<lparr>lk_b := b\<rparr>)"
  using assms back_more [OF assms(5)] not_lost_b [OF _ assms(5)]
  by (auto simp: kcp_link_inv_def messages_ok_def a_ok_def b_ok_def)

text \<open>The sender's block changes.\<close>

lemma kcp_link_inv_a:
  assumes "kcp_link_inv honest fss s" and "kcp_ok a" "sender_ok (concat fss) a"
    and "honest \<Longrightarrow> not_lost s \<Longrightarrow> not_lost (s\<lparr>lk_a := a\<rparr>)"
  shows "kcp_link_inv honest fss (s\<lparr>lk_a := a\<rparr>)"
  using assms by (auto simp: kcp_link_inv_def messages_ok_def a_ok_def b_ok_def)

section \<open>Every step keeps it\<close>

lemma frs_small:
  assumes "kcp_link_inv honest fss s" and "length (lk_sent s) \<le> 8421504"
  shows "length (concat fss) < 2 ^ 31" and "small_frgs (concat fss)"
proof -
  have "small_frgs (concat fss) \<and> length (concat fss) \<le> 255 * length (lk_sent s)"
    using assms(1) messages_small [of "lk_sent s" fss] by (simp add: kcp_link_inv_def messages_ok_def)
  then show "length (concat fss) < 2 ^ 31" "small_frgs (concat fss)" using assms(2) by simp_all
qed

lemma message_step:
  assumes "kcp_link_inv honest fss s" and "length bs < 2 ^ 31" and "ikcp_send bs (int (length bs)) (lk_a s) = Ok (r, a)"
  shows "\<exists>fss'. kcp_link_inv honest fss' (s\<lparr>lk_a := a, lk_sent := (if r = 0 then lk_sent s @ [bs] else lk_sent s)\<rparr>)"
proof -
  have ok: "kcp_ok (lk_a s)" "sender_ok (concat fss) (lk_a s)" using assms(1) by (simp_all add: kcp_link_inv_def a_ok_def)
  then have stream: "kstream (lk_a s) = 0" by (simp add: sender_ok_def)
  have kept: "kcp_ok a" using send_ok [OF ok(1), of bs] assms(3) by simp
  from assms(3) ok(1) stream assms(2) show ?thesis
  proof (cases rule: send_stream)
    case refused
    then show ?thesis using assms(1) by auto
  next
    case (sent fs n)
    let ?s = "s\<lparr>lk_a := a, lk_sent := lk_sent s @ [bs]\<rparr>"
    have got: "length (lk_got s) \<le> length fss" "take (length (lk_got s)) (lk_sent s) = lk_got s"
      "list_all2 frag_of (lk_sent s) fss"
      using assms(1) by (simp_all add: kcp_link_inv_def messages_ok_def)
    then have "length (lk_got s) \<le> length (lk_sent s)" by (simp add: list_all2_lengthD)
    then have messages: "messages_ok (fss @ [fs]) ?s" using got sent(2) by (simp add: messages_ok_def list_all2_appendI)
    have "map payload (map unsent fs) = fs" by (simp add: comp_def)
    then have "sender_ok (concat fss @ fs) a"
      using ok(2) carries_more unfolding sent(3) by (simp add: sender_ok_def)
    then have sender: "a_ok (concat (fss @ [fs])) ?s"
      using assms(1) kept emitted_append by (auto simp: kcp_link_inv_def a_ok_def list_all_iff)
    have "b_ok (fss @ [fs]) ?s"
      using assms(1) got(1) receiver_ok_append by (simp add: kcp_link_inv_def b_ok_def)
    moreover have "not_lost ?s" if "not_lost s" using that unfolding sent(3) by (simp add: not_lost_def kept_def)
    ultimately show ?thesis using assms(1) messages sender sent(1) by (auto simp: kcp_link_inv_def)
  qed
qed

lemma call_a_step:
  assumes inv: "kcp_link_inv honest fss s" and small: "length (lk_sent s) \<le> 8421504" and call: "other_call x"
    "calls_ok (int (unat (kmtu (lk_a s)))) [x]" "kcp_do x (lk_a s) = Ok (ds, a)"
  shows "kcp_link_inv honest fss (s\<lparr>lk_a := a, lk_out := lk_out s @ ds\<rparr>)"
proof -
  have ok: "kcp_ok (lk_a s)" "sender_ok (concat fss) (lk_a s)" using inv by (simp_all add: kcp_link_inv_def a_ok_def)
  note dgrams = other_call_datagrams [OF ok(1) call(2,3)]
  note sender = other_call_sender [OF ok frs_small [OF inv small] call(1,3)]
  have "kcp_link_inv honest fss (s\<lparr>lk_a := a\<rparr>)"
    using kcp_link_inv_a [OF inv dgrams(1) sender(1)] not_lost_a [of s a] sender(3,4) by blast
  then show ?thesis using dgrams(2) sender(2) by (auto simp: kcp_link_inv_def messages_ok_def a_ok_def b_ok_def list_all_iff)
qed

lemma call_b_step:
  assumes inv: "kcp_link_inv honest fss s" and call: "other_call x" "calls_ok (int (unat (kmtu (lk_b s)))) [x]"
    "kcp_do x (lk_b s) = Ok (ds, b)"
  shows "kcp_link_inv honest fss (s\<lparr>lk_b := b, lk_back := lk_back s @ ds\<rparr>)"
proof -
  have ok: "kcp_ok (lk_b s)" "acks_held (lk_b s)" "pushes (lk_b s)"
    "receiver_ok (concat fss) (length (concat (take (length (lk_got s)) fss))) (lk_b s)"
    using inv by (simp_all add: kcp_link_inv_def b_ok_def)
  note dgrams = other_call_datagrams [OF ok(1) call(2,3)]
  note receiver = other_call_receiver [OF ok(1-3) call(1,3)]
  note same = receiver_ok_same [OF receiver(4-6)]
  have "kcp_link_inv honest fss (s\<lparr>lk_b := b\<rparr>)" using kcp_link_inv_b [OF inv dgrams(1) receiver(3,2)] same ok(4) by blast
  moreover have "list_all (framed (answers b)) ds" using receiver(1) same(3) by (auto simp: list_all_iff intro: answers_more)
  ultimately show ?thesis using dgrams(2) by (auto simp: kcp_link_inv_def messages_ok_def a_ok_def b_ok_def list_all_iff)
qed

lemma input_a_step:
  assumes inv: "kcp_link_inv honest fss s" and small: "length (lk_sent s) \<le> 8421504"
    and d: "if honest then d \<in> set (lk_back s) else length d < 2 ^ 31" "ikcp_input d (int (length d)) (lk_a s) = Ok (r, a)"
  shows "kcp_link_inv honest fss (s\<lparr>lk_a := a\<rparr>)"
proof -
  have ok: "kcp_ok (lk_a s)" "sender_ok (concat fss) (lk_a s)" using inv by (simp_all add: kcp_link_inv_def a_ok_def)
  have "length d < 2 ^ 31" using d(1) inv by (auto simp: kcp_link_inv_def b_ok_def list_all_iff split: if_splits)
  then have "kcp_ok a" using input_ok [OF ok(1), of "int (length d)" d] d(2) by simp
  moreover have "sender_ok (concat fss) a" using sender_step(1) [OF input_step [OF d(2)] ok(2)] .
  moreover have "not_lost (s\<lparr>lk_a := a\<rparr>)" if honest "not_lost s"
  proof -
    have "framed (answers (lk_b s)) d" using d(1) that(1) inv by (simp add: kcp_link_inv_def b_ok_def list_all_iff)
    moreover have "unat (rcv_nxt (lk_b s)) < 2 ^ 31"
      using inv frs_small [OF inv small] by (simp add: kcp_link_inv_def b_ok_def receiver_ok_def)
    ultimately have step: "snd_step (\<lambda>sn. unat sn < 2 ^ 31 \<longrightarrow> kcp_held (lk_b s) sn) (lk_a s) a" using d(2) by (rule input_answers)
    have nxt: "snd_nxt a = snd_nxt (lk_a s)" using step by (simp add: snd_step_def)
    have "unat (snd_nxt (lk_a s)) < 2 ^ 31" using ok(2) frs_small [OF inv small] by (simp add: sender_ok_def)
    then show ?thesis using that(2) sender_step(2) [OF step] nxt unfolding not_lost_def by (auto intro: less_trans)
  qed
  ultimately show ?thesis using kcp_link_inv_a [OF inv] by blast
qed

lemma input_b_step:
  assumes inv: "kcp_link_inv honest fss s" and small: "length (lk_sent s) \<le> 8421504"
    and d: "d \<in> set (lk_out s)" "ikcp_input d (int (length d)) (lk_b s) = Ok (r, b)"
  shows "kcp_link_inv honest fss (s\<lparr>lk_b := b\<rparr>)"
proof -
  have ok: "kcp_ok (lk_b s)" "acks_held (lk_b s)" "pushes (lk_b s)"
    "receiver_ok (concat fss) (length (concat (take (length (lk_got s)) fss))) (lk_b s)"
    using inv by (simp_all add: kcp_link_inv_def b_ok_def)
  have "framed (emitted (concat fss)) d" "length d < 2 ^ 31" using inv d(1) by (simp_all add: kcp_link_inv_def a_ok_def list_all_iff)
  from input_stream [OF this(1) ok(4,2) frs_small(1) [OF inv small] d(2)] input_ok [OF ok(1), of "int (length d)" d] this(2) d(2)
    sender_step(3) [OF input_step [OF d(2)] ok(3)]
  show ?thesis using kcp_link_inv_b [OF inv] by simp
qed

lemma recv_a_step:
  assumes inv: "kcp_link_inv honest fss s" and recv: "ikcp_recv len (lk_a s) = Ok (r, bs, a)"
  shows "kcp_link_inv honest fss (s\<lparr>lk_a := a\<rparr>)"
proof -
  have ok: "kcp_ok (lk_a s)" "sender_ok (concat fss) (lk_a s)" using inv by (simp_all add: kcp_link_inv_def a_ok_def)
  have step: "snd_step (\<lambda>_. False) (lk_a s) a" using recv_step [OF recv] by blast
  have nxt: "snd_nxt a = snd_nxt (lk_a s)" using step by (simp add: snd_step_def)
  show ?thesis
  proof (rule kcp_link_inv_a [OF inv])
    show "kcp_ok a" by (rule recv_ok [OF ok(1) recv])
    show "sender_ok (concat fss) a" by (rule sender_step(1) [OF step ok(2)])
    show "not_lost (s\<lparr>lk_a := a\<rparr>)" if "not_lost s"
      by (rule not_lost_a [OF that]) (use sender_step(2) [OF step] nxt in auto)
  qed
qed

lemma send_b_step:
  assumes inv: "kcp_link_inv honest fss s" and send: "ikcp_send bs (int (length bs)) (lk_b s) = Ok (r, b)"
  shows "kcp_link_inv honest fss (s\<lparr>lk_b := b\<rparr>)"
proof -
  have ok: "kcp_ok (lk_b s)" "acks_held (lk_b s)" "pushes (lk_b s)"
    "receiver_ok (concat fss) (length (concat (take (length (lk_got s)) fss))) (lk_b s)"
    using inv by (simp_all add: kcp_link_inv_def b_ok_def)
  obtain q n where b: "b = (lk_b s)\<lparr>snd_queue := q, nsnd_que := n\<rparr>" using send_form [OF send] by blast
  have same: "rcv_nxt b = rcv_nxt (lk_b s)" "rcv_queue b = rcv_queue (lk_b s)" "rcv_buf b = rcv_buf (lk_b s)" by (simp_all add: b)
  have "kcp_ok b" using send_ok [OF ok(1), of bs] send by simp
  moreover have "acks_held b" "pushes b" using ok(2,3) receiver_ok_same(2) [OF same] by (simp_all add: b acks_held_def pushes_def)
  ultimately show ?thesis using kcp_link_inv_b [OF inv] receiver_ok_same [OF same] ok(4) by blast
qed

lemma recv_b_step:
  assumes inv: "kcp_link_inv honest fss s" and small: "length (lk_sent s) \<le> 8421504" and recv: "ikcp_recv len (lk_b s) = Ok (r, bs, b)"
  shows "kcp_link_inv honest fss (s\<lparr>lk_b := b, lk_got := (if 0 \<le> r \<and> 0 \<le> len then lk_got s @ [bs] else lk_got s)\<rparr>)"
proof -
  let ?j = "length (lk_got s)"
  have ok: "kcp_ok (lk_b s)" "acks_held (lk_b s)" "pushes (lk_b s)"
    "receiver_ok (concat fss) (length (concat (take ?j fss))) (lk_b s)"
    using inv by (simp_all add: kcp_link_inv_def b_ok_def)
  note frs = frs_small [OF inv small]
  have b: "kcp_ok b" "pushes b" "acklist b = acklist (lk_b s)" "ackcount b = ackcount (lk_b s)"
    using recv_ok [OF ok(1) recv] sender_step(3) [of "\<lambda>_. False", OF _ ok(3)] recv_step [OF recv] by auto
  have acks: "acks_held b" if "receives_more (lk_b s) b" using that ok(2) b(3,4) by (auto simp: acks_held_def receives_more_def)
  show ?thesis
  proof (cases "0 \<le> r \<and> 0 \<le> len")
    case True
    have m: "list_all2 frag_of (lk_sent s) fss" "?j \<le> length fss" "take ?j (lk_sent s) = lk_got s"
      using inv by (simp_all add: kcp_link_inv_def messages_ok_def)
    have "nrcv_que (lk_b s) = length (rcv_queue (lk_b s))" "list_all (seg_fits (2 ^ 31 - 1)) (rcv_queue (lk_b s))"
      using ok(1) by (simp_all add: kcp_ok_def rcv_ok_def)
    from recv_stream [OF recv _ _ ok(4) this(1) frs(1) this(2) refl m(2,1)] True have
      next_b: "?j < length fss" "bs = lk_sent s ! ?j" "receiver_ok (concat fss) (length (concat (take (Suc ?j) fss))) b"
        "receives_more (lk_b s) b" by simp_all
    have len: "length (lk_sent s) = length fss" using m(1) by (rule list_all2_lengthD)
    have "take (Suc ?j) (lk_sent s) = lk_got s @ [bs]" using m(3) next_b(1,2) len by (simp add: take_Suc_conv_app_nth)
    then have "messages_ok fss (s\<lparr>lk_b := b, lk_got := lk_got s @ [bs]\<rparr>)"
      using m(1) next_b(1) len by (simp add: messages_ok_def min_def)
    moreover have "b_ok fss (s\<lparr>lk_b := b, lk_got := lk_got s @ [bs]\<rparr>)"
      using inv b(1,2) acks [OF next_b(4)] next_b(3) back_more [OF next_b(4)] by (simp add: kcp_link_inv_def b_ok_def)
    moreover have "not_lost s \<Longrightarrow> not_lost (s\<lparr>lk_b := b, lk_got := lk_got s @ [bs]\<rparr>)"
      using not_lost_b [OF _ next_b(4)] by simp
    ultimately show ?thesis using inv True by (simp add: kcp_link_inv_def a_ok_def)
  next
    case False
    have "receives_more (lk_b s) b \<and> receiver_ok (concat fss) (length (concat (take ?j fss))) b"
      using recv
    proof (cases rule: recv_cases)
      case refused
      then show ?thesis using ok(4) by simp
    next
      case (accepted q n p)
      then have q: "q = rcv_queue (lk_b s)" using False by simp
      have same: "receiver_ok (concat fss) (length (concat (take ?j fss))) (lk_b s\<lparr>rcv_queue := q, nrcv_que := n\<rparr>)"
        "receives_more (lk_b s) (lk_b s\<lparr>rcv_queue := q, nrcv_que := n\<rparr>)"
        using ok(4) unfolding q by (simp_all add: receiver_ok_def receives_same)
      let ?b = "move_ready (lk_b s\<lparr>rcv_queue := q, nrcv_que := n\<rparr>)"
      have "rcv_nxt b = rcv_nxt ?b" "rcv_queue b = rcv_queue ?b" "rcv_buf b = rcv_buf ?b" by (simp_all add: accepted(1))
      from receiver_ok_same [OF this] move_ready_receiver [OF same(1) frs(1)] show ?thesis
        using same(2) receives_more_trans by blast
    qed
    then have "kcp_link_inv honest fss (s\<lparr>lk_b := b\<rparr>)" using kcp_link_inv_b [OF inv b(1) _ b(2)] acks by blast
    then show ?thesis using False by (auto simp: kcp_link_inv_def messages_ok_def a_ok_def b_ok_def)
  qed
qed

lemma kcp_link_step_inv:
  assumes "kcp_link_step honest s s'" and "kcp_link_inv honest fss s" and "length (lk_sent s) \<le> 8421504"
  shows "\<exists>fss'. kcp_link_inv honest fss' s'"
  using assms(1)
proof cases
  case (message bs r a)
  then show ?thesis using message_step [OF assms(2)] by simp
next
  case (call_a x ds a)
  then show ?thesis using call_a_step [OF assms(2,3)] by auto
next
  case (recv_a len r bs a)
  show ?thesis unfolding recv_a(1) using recv_a_step [OF assms(2) recv_a(2)] by blast
next
  case (input_a d r a)
  then show ?thesis using input_a_step [OF assms(2,3)] by auto
next
  case (input_b d r b)
  then show ?thesis using input_b_step [OF assms(2,3)] by auto
next
  case (recv_b len r bs b)
  show ?thesis unfolding recv_b(1) using recv_b_step [OF assms(2,3) recv_b(2)] by blast
next
  case (send_b bs r b)
  then show ?thesis using send_b_step [OF assms(2)] by auto
next
  case (call_b x ds b)
  then show ?thesis using call_b_step [OF assms(2)] by auto
qed

lemma kcp_link_step_sent: "kcp_link_step honest s s' \<Longrightarrow> length (lk_sent s) \<le> length (lk_sent s')"
  by (cases rule: kcp_link_step.cases) auto

lemma new_kcp_link_inv: "kcp_link_inv honest [] (new_kcp_link conv)"
proof -
  let ?k = "ikcp_setoutput True (ikcp_create conv)"
  have fields: "kstream ?k = 0" "snd_nxt ?k = 0" "snd_queue ?k = []" "snd_buf ?k = []" "rcv_nxt ?k = 0" "rcv_queue ?k = []"
    "rcv_buf ?k = []" "ackcount ?k = 0"
    by (simp_all add: ikcp_setoutput_def ikcp_create_def)
  show ?thesis using create_ok [of conv]
    by (simp add: kcp_link_inv_def messages_ok_def a_ok_def b_ok_def not_lost_def sender_ok_def receiver_ok_def acks_held_def
        pushes_def new_kcp_link_def fields)
qed

lemma kcp_link_reachable:
  assumes "(kcp_link_step honest)\<^sup>*\<^sup>* (new_kcp_link conv) s" and "length (lk_sent s) \<le> 8421504"
  shows "\<exists>fss. kcp_link_inv honest fss s"
  using assms
proof (induction rule: rtranclp_induct)
  case base
  then show ?case using new_kcp_link_inv by blast
next
  case (step s s')
  then have "length (lk_sent s) \<le> 8421504" using kcp_link_step_sent [OF step(2)] by simp
  then show ?case using step kcp_link_step_inv by blast
qed

text \<open>The receiver's queues hold all fragments from the first one not yet returned on.\<close>

lemma all_held:
  assumes "receiver_ok frs m k" and "length frs < 2 ^ 31" and "\<And>sn. unat sn < length frs \<Longrightarrow> kcp_held k sn"
  shows "map payload (rcv_queue k @ rcv_buf k) = drop m frs"
proof -
  let ?n = "unat (rcv_nxt k)" and ?is = "map index_of (rcv_buf k)"
  have r: "?n \<le> length frs" "m \<le> ?n" "map payload (rcv_queue k) = drop m (take ?n frs)"
    "\<And>seg. seg \<in> set (rcv_buf k) \<Longrightarrow> carries frs seg \<and> ?n \<le> index_of seg" "sorted_wrt (<) ?is"
    using assms(1) by (auto simp: receiver_ok_def list_all_iff sorted_wrt_map)
  have "set ?is = {?n..<length frs}"
  proof (intro equalityI subsetI)
    fix i
    assume i: "i \<in> {?n..<length frs}"
    then have "kcp_held k (of_nat i)" "unat (of_nat i :: u32) = i" using assms(2,3) by (simp_all add: unat_of_small)
    then show "i \<in> set ?is" using i by (auto simp: kcp_held_def index_of_def)
  qed (use r(4) in \<open>auto simp: carries_def\<close>)
  moreover have "sorted_wrt (<) [?n..<length frs]" by (rule sorted_wrt_upt)
  ultimately have idx: "?is = [?n..<length frs]"
    using r(5) by (metis atLeastLessThan_upt strict_sorted_equal)
  have "map payload (rcv_buf k) = map (\<lambda>i. frs ! i) ?is" using r(4) by (simp add: carries_def)
  also have "\<dots> = drop ?n frs" unfolding idx using r(1) by (intro nth_equalityI) simp_all
  finally have "map payload (rcv_buf k) = drop ?n frs" .
  moreover have "drop m frs = drop m (take ?n frs @ drop ?n frs)" by simp
  ultimately show ?thesis using r(1-3) by (simp only: drop_append map_append) simp
qed

end
