(* ===== verification/KcpLimits.thy ===== *)
theory KcpLimits
  imports KcpEnds
begin

text \<open>
  Two calls KCP accepts and cannot cope with: \<open>ikcp_setmtu\<close> while longer segments are queued, and a message
  of more fragments than the receiver's window.
\<close>

section \<open>A smaller datagram size\<close>

lemma create_fields [simp]:
  "kconv (ikcp_create c) = c" "kmtu (ikcp_create c) = 1400" "kmss (ikcp_create c) = 1376" "snd_una (ikcp_create c) = 0"
  "snd_nxt (ikcp_create c) = 0" "rcv_nxt (ikcp_create c) = 0" "snd_wnd (ikcp_create c) = 32" "rcv_wnd (ikcp_create c) = 32"
  "rmt_wnd (ikcp_create c) = 32" "cwnd (ikcp_create c) = 0" "kprobe (ikcp_create c) = 0" "kinterval (ikcp_create c) = 100"
  "nrcv_que (ikcp_create c) = 0" "nsnd_que (ikcp_create c) = 0" "updated (ikcp_create c) = False"
  "snd_queue (ikcp_create c) = []" "rcv_queue (ikcp_create c) = []" "snd_buf (ikcp_create c) = []" "rcv_buf (ikcp_create c) = []"
  "ackcount (ikcp_create c) = 0" "nocwnd (ikcp_create c) = 0" "kstream (ikcp_create c) = 0" "koutput (ikcp_create c) = False"
  "nsnd_buf (ikcp_create c) = 0" "nrcv_buf (ikcp_create c) = 0"
  by (simp_all add: ikcp_create_def IKCP_MTU_DEF_def IKCP_OVERHEAD_def IKCP_WND_SND_def IKCP_WND_RCV_def IKCP_INTERVAL_def)

lemma setoutput_simp: "ikcp_setoutput out k = k\<lparr>koutput := out\<rparr>"
  by (simp add: ikcp_setoutput_def)

text \<open>The first flush only opens the window.\<close>

lemma first_flush:
  assumes "updated k" "ackcount k = 0" "rmt_wnd k \<noteq> 0" "kprobe k = 0" "nocwnd k = 0" "cwnd k = 0" "snd_nxt k = snd_una k" "snd_buf k = []"
  shows "ikcp_flush k = Ok ([], k\<lparr>ts_probe := 0, probe_wait := 0, kprobe := 0, cwnd := 1, kincr := kmss k\<rparr>)"
proof -
  have probe: "update_probe (k\<lparr>ackcount := 0\<rparr>) = k\<lparr>ts_probe := 0, probe_wait := 0\<rparr>"
  proof (rule ikcpcb.equality)
  qed (use assms in \<open>simp_all add: update_probe_def\<close>)
  have move: "move_to_buf 0 x = x" if "snd_nxt x = snd_una x" for x
    using that by (simp add: move_to_buf.simps [of 0 x] itimediff_def)
  show ?thesis using assms
    by (simp add: ikcp_flush_def Let_def probe flush_probe_def flush_window_def move adapt_cwnd_def last_ack_def)
qed

lemma send_one_fragment:
  assumes "length bs \<le> unat (kmss k)" and "0 < kmss k" and "kstream k = 0"
  shows "ikcp_send bs (int (length bs)) k = Ok (0, k\<lparr>snd_queue := snd_queue k @ [new_seg 0 bs], nsnd_que := nsnd_que k + 1\<rparr>)"
  using assms send_fragments_form [of 1 bs k]
  by (simp add: ikcp_send_def send_rest_def fragment_count_def unsent_def)

lemma flush_fails:
  assumes "updated k" and "ackcount k = 0" and "update_probe (k\<lparr>ackcount := 0\<rparr>) = k1" and "kprobe k1 = 0"
    and "move_to_buf (flush_window k1) (k1\<lparr>kprobe := 0\<rparr>) = k2"
    and "flush_segments k2 (snd_buf k2) \<lparr>pend = [], outs = []\<rparr> = Fail e"
  shows "ikcp_flush k = Fail e"
  using assms by (simp add: ikcp_flush_def Let_def flush_probe_def)

lemma put_segment_overflow:
  assumes "koutput k" and "kbuffer k < IKCP_OVERHEAD + length (s_data seg)" and "IKCP_OVERHEAD \<le> kbuffer k"
    and "sint (kmtu k) < int IKCP_OVERHEAD + int (length (s_data seg))" and "unat (s_len seg) = length (s_data seg)"
  shows "put_segment k seg \<lparr>pend = [], outs = []\<rparr> = Fail OutOfBounds"
proof -
  have "0 < s_len seg" using assms(2,3,5) by (metis add.right_neutral leD unat_gt_0 unat_0 word_neq_0_conv)
  then show ?thesis using assms
    by (simp add: put_segment_def make_room_def ikcp_output_def put_bytes_def read_mem_def)
qed

text \<open>
  C36. \<open>ikcp_setmtu\<close> allocates the output buffer anew for the smaller datagrams, but segments already queued
  keep their length: the next flush of a message of more than 198 bytes writes behind the end of the
  buffer when the size has been lowered to 50.
\<close>

theorem setmtu_overflows_buffer:
  assumes "198 < length bs" and "length bs \<le> 1376"
  shows "kcp_run [KSend bs, KUpdate 0, KSetmtu 50, KUpdate 100] (ikcp_setoutput True (ikcp_create conv)) = Fail OutOfBounds"
proof -
  let ?k0 = "ikcp_create conv\<lparr>koutput := True\<rparr>"
  let ?k1 = "?k0\<lparr>snd_queue := [new_seg 0 bs], nsnd_que := 1\<rparr>"
  have send: "ikcp_send bs (int (length bs)) ?k0 = Ok (0, ?k1)" using assms(2) by (simp add: send_one_fragment)
  let ?k2 = "?k1\<lparr>kcurrent := 0, updated := True, ts_flush := 100, ts_probe := 0, probe_wait := 0, kprobe := 0, cwnd := 1, kincr := 1376\<rparr>"
  have first: "ikcp_update 0 ?k1 = Ok ([], ?k2)"
    by (simp add: ikcp_update_def Let_def itimediff_def first_flush)
  let ?k3 = "?k2\<lparr>kmtu := 50, kmss := 26, kbuffer := 222\<rparr>"
  have mtu: "snd (ikcp_setmtu 50 ?k2) = ?k3" by (simp add: ikcp_setmtu_def IKCP_OVERHEAD_def buffer_size_def)
  let ?k4 = "?k3\<lparr>kcurrent := 100, ts_flush := 200, ackcount := 0, ts_probe := 0, probe_wait := 0\<rparr>"
  have again: "ikcp_update 100 ?k3 = ikcp_flush (?k3\<lparr>kcurrent := 100, ts_flush := 200\<rparr>)"
    by (simp add: ikcp_update_def Let_def itimediff_def)
  let ?k5 = "?k4\<lparr>kprobe := 0, snd_queue := [], snd_buf := [numbered_seg ?k4 (new_seg 0 bs)], nsnd_que := 0, nsnd_buf := 1, snd_nxt := 1\<rparr>"
  have move: "move_to_buf 1 (?k4\<lparr>kprobe := 0\<rparr>) = ?k5"
    by (simp add: move_to_buf.simps [of 1] itimediff_def numbered_seg_def ikcp_wnd_unused_def)
  define K where "K = ?k5"
  define seg where "seg = numbered_seg ?k4 (new_seg 0 bs)"
  have K: "snd_buf K = [seg]" "koutput K" "kbuffer K = 222" "kmtu K = 50" by (simp_all add: K_def seg_def)
  have seg: "s_xmit seg = 0" "s_data seg = bs" "s_len seg = of_nat (length bs)" by (simp_all add: seg_def numbered_seg_def new_seg_def)
  have len: "unat (of_nat (length bs) :: u32) = length bs" using assms(2) by (simp add: unat_of_nat)
  have why: "send_reason (kcurrent K) (resent_limit K) seg = FirstTime" by (simp add: send_reason_def seg)
  have data: "s_data (refreshed K FirstTime seg) = bs" "s_len (refreshed K FirstTime seg) = of_nat (length bs)"
    by (simp_all add: refreshed_def Let_def seg)
  have "put_segment K (refreshed K FirstTime seg) \<lparr>pend = [], outs = []\<rparr> = Fail OutOfBounds"
    by (rule put_segment_overflow) (use assms K in \<open>simp_all add: data len IKCP_OVERHEAD_def\<close>)
  then have segments: "flush_segments K (snd_buf K) \<lparr>pend = [], outs = []\<rparr> = Fail OutOfBounds" by (simp add: K(1) why)
  have probe: "update_probe (?k3\<lparr>kcurrent := 100, ts_flush := 200, ackcount := 0\<rparr>) = ?k4"
    by (simp add: update_probe_def)
  have "ikcp_flush (?k3\<lparr>kcurrent := 100, ts_flush := 200\<rparr>) = Fail OutOfBounds"
  proof (rule flush_fails [OF _ _ _ _ _ segments])
    show "update_probe (?k3\<lparr>kcurrent := 100, ts_flush := 200, ackcount := 0\<rparr>) = ?k4" by (rule probe)
    have "flush_window ?k4 = 1" by (simp add: flush_window_def)
    then show "move_to_buf (flush_window ?k4) (?k4\<lparr>kprobe := 0\<rparr>) = K" unfolding K_def by (simp only: move)
  qed simp_all
  then show ?thesis
    by (simp only: kcp_run.simps kcp_do.simps setoutput_simp send first mtu again bindR_Ok bindR_Fail prod.case)
qed

lemma setmtu_overflows_buffer_witness:
  "kcp_run [KSend (replicate 199 7), KUpdate 0, KSetmtu 50, KUpdate 100] (ikcp_setoutput True (ikcp_create 1)) = Fail OutOfBounds"
  by (rule setmtu_overflows_buffer) simp_all

section \<open>More fragments than the window\<close>

text \<open>How \<open>rcv_queue\<close> grows: at its end, and not past the window.\<close>

definition queue_grows :: "ikcpcb \<Rightarrow> ikcpcb \<Rightarrow> bool" where
  "queue_grows k k' \<longleftrightarrow> rcv_wnd k' = rcv_wnd k \<and> (\<exists>new. rcv_queue k' = rcv_queue k @ new \<and> nrcv_que k' = nrcv_que k + length new)
     \<and> nrcv_que k' \<le> max (nrcv_que k) (unat (rcv_wnd k))"

lemma queue_grows_same:
  "rcv_wnd k' = rcv_wnd k \<Longrightarrow> rcv_queue k' = rcv_queue k \<Longrightarrow> nrcv_que k' = nrcv_que k \<Longrightarrow> queue_grows k k'"
  by (simp add: queue_grows_def)

lemma queue_grows_trans:
  assumes "queue_grows k1 k2" and "queue_grows k2 k3"
  shows "queue_grows k1 k3"
proof -
  obtain as bs where "rcv_queue k2 = rcv_queue k1 @ as" "nrcv_que k2 = nrcv_que k1 + length as"
    "rcv_queue k3 = rcv_queue k2 @ bs" "nrcv_que k3 = nrcv_que k2 + length bs"
    using assms by (auto simp: queue_grows_def)
  then show ?thesis using assms unfolding queue_grows_def by (intro conjI exI [of _ "as @ bs"]) (simp_all add: max_def split: if_splits)
qed

lemma move_ready_grows: "queue_grows k (move_ready k)"
proof (induction k rule: move_ready.induct)
  case (1 k)
  consider (stays) "move_ready k = k"
    | (one) seg ss where "rcv_buf k = seg # ss" "s_sn seg = rcv_nxt k \<and> nrcv_que k < unat (rcv_wnd k)"
    by (cases "rcv_buf k") (force simp: move_ready.simps [of k] split: if_splits)+
  then show ?case
  proof cases
    case stays
    then show ?thesis by (simp add: queue_grows_same)
  next
    case one
    let ?k = "k\<lparr>rcv_buf := ss, nrcv_buf := nrcv_buf k - 1, rcv_queue := rcv_queue k @ [seg],
              nrcv_que := nrcv_que k + 1, rcv_nxt := rcv_nxt k + 1\<rparr>"
    have "queue_grows k ?k" using one by (simp add: queue_grows_def)
    moreover have "move_ready k = move_ready ?k" using one by (simp add: move_ready.simps [of k])
    ultimately show ?thesis using queue_grows_trans [OF _ 1 [OF one]] by simp
  qed
qed

lemma parse_data_grows: "queue_grows k (ikcp_parse_data new k)"
proof -
  have "queue_grows k (k\<lparr>rcv_buf := x, nrcv_buf := n\<rparr>)" for x n by (simp add: queue_grows_same)
  then have "queue_grows k (move_ready (k\<lparr>rcv_buf := x, nrcv_buf := n\<rparr>))" for x n
    by (rule queue_grows_trans [OF _ move_ready_grows])
  then show ?thesis using move_ready_grows by (auto simp: ikcp_parse_data_def queue_grows_same split: option.split)
qed

lemma keeps_grows: "keeps_receiver k k' \<Longrightarrow> queue_grows k k'"
  by (simp add: keeps_receiver_def queue_grows_same)

lemma input_push_grows:
  assumes "input_push conv h buf k = Ok k'"
  shows "queue_grows k k'"
proof -
  obtain b where ack: "ikcp_ack_push (h_sn h) (h_ts h) k = Ok (k\<lparr>ackblock := b,
      acklist := take (ackcount k) (acklist k) @ [(h_sn h, h_ts h)], ackcount := ackcount k + 1\<rparr>)"
    using ack_push_form by blast
  have pushed: "queue_grows k (k\<lparr>ackblock := b, acklist := l, ackcount := n\<rparr>)" for l n by (simp add: queue_grows_same)
  show ?thesis using assms ack pushed queue_grows_trans [OF pushed parse_data_grows]
    by (auto simp: input_push_def queue_grows_same split: if_splits)
qed

lemma input_grows:
  assumes "ikcp_input buf sz k = Ok (r, k')"
  shows "queue_grows k k'"
proof -
  have command: "queue_grows (snd s) (snd s1)" if "input_command h b s = Ok s1" for h b s s1
    using that
  proof (cases rule: input_command_receiver)
    case other
    then show ?thesis by (simp add: keeps_grows)
  next
    case (push k1)
    then show ?thesis using queue_grows_trans [OF keeps_grows input_push_grows] by blast
  qed
  have loop: "queue_grows k k1" if "input_segments buf sz (None, k) = Ok (q, m, k1)" for q m k1
    using input_segments_rel [of queue_grows, OF command _ queue_grows_trans that] by (simp add: queue_grows_same)
  from assms show ?thesis
  proof (cases rule: input_cases)
    case short
    then show ?thesis by (simp add: queue_grows_same)
  next
    case (stop m)
    then show ?thesis by (rule loop)
  next
    case (all m k1 k2)
    have "queue_grows k1 k2" "queue_grows k2 k'" using all(2,3) by (auto simp: keeps_grows)
    then show ?thesis using loop [OF all(1)] queue_grows_trans by blast
  qed
qed

text \<open>The first fragment of a message that the window cannot hold.\<close>

definition stuck :: "kseg \<Rightarrow> ikcpcb \<Rightarrow> bool" where
  "stuck seg k \<longleftrightarrow> (\<exists>ss. rcv_queue k = seg # ss) \<and> nrcv_que k \<le> unat (s_frg seg) \<and> unat (rcv_wnd k) \<le> unat (s_frg seg)
     \<and> 0 < s_frg seg \<and> unat (s_frg seg) < 256"

lemma stuck_recv:
  assumes "stuck seg k"
  shows "ikcp_recv len k = Ok (-2, [], k)"
proof -
  obtain ss where q: "rcv_queue k = seg # ss" using assms by (auto simp: stuck_def)
  have "unat (s_frg seg + 1) = unat (s_frg seg) + 1" using assms by (intro unat_next) (simp add: stuck_def)
  then have "nrcv_que k < unat (s_frg seg + 1)" using assms by (simp add: stuck_def)
  moreover have "s_frg seg \<noteq> 0" using assms by (auto simp: stuck_def)
  ultimately have "ikcp_peeksize k = -1" using q by (simp add: ikcp_peeksize_def)
  then show ?thesis using q by (simp add: ikcp_recv_def)
qed

lemma stuck_grows: "stuck seg k \<Longrightarrow> queue_grows k k' \<Longrightarrow> stuck seg k'"
  by (auto simp: stuck_def queue_grows_def)

lemma flush_grows: "kcp_ok k \<Longrightarrow> ikcp_flush k = Ok (ds, k') \<Longrightarrow> queue_grows k k'"
  using flush_ok [of k "\<lambda>_. True"] by (auto simp: kcp_flushed_def same_receiver_def queue_grows_same)

lemma kcp_do_stuck:
  assumes "kcp_ok k" and "stuck seg k" and "kcp_do x k = Ok (ds, k')" and "\<forall>a b. x = KWndsize a b \<longrightarrow> b \<le> int (unat (s_frg seg))"
  shows "stuck seg k'"
proof (cases x)
  case (KSend bs)
  then obtain r where "ikcp_send bs (int (length bs)) k = Ok (r, k')" using assms(3) by auto
  then obtain q n where "k' = k\<lparr>snd_queue := q, nsnd_que := n\<rparr>" using send_form by blast
  then show ?thesis using assms(2) by (simp add: stuck_def)
next
  case (KRecv len)
  then show ?thesis using assms(2,3) stuck_recv [OF assms(2)] by simp
next
  case (KInput bs)
  then show ?thesis using assms(2,3) input_grows stuck_grows by auto
next
  case (KUpdate t)
  have "queue_grows k (k\<lparr>kcurrent := t, updated := True, ts_flush := f\<rparr>)" for f by (simp add: queue_grows_same)
  moreover have "kcp_ok (k\<lparr>kcurrent := t, updated := True, ts_flush := f\<rparr>)" for f using assms(1) by simp
  ultimately have "queue_grows k k'" using assms(3) KUpdate update_form [of t k] flush_grows queue_grows_trans by fastforce
  then show ?thesis using stuck_grows assms(2) by blast
next
  case KFlush
  then show ?thesis using assms(1-3) flush_grows stuck_grows by auto
next
  case (KWndsize a b)
  then have "b \<le> int (unat (s_frg seg))" using assms(4) by blast
  then have "0 < b \<Longrightarrow> unat (of_int b :: u32) \<le> unat (s_frg seg)" by (rule of_int_nat_le [rotated])
  then show ?thesis using assms(2,3) KWndsize by (auto simp: stuck_def ikcp_wndsize_def Let_def)
qed (use assms(2-4) in \<open>auto simp: stuck_def ikcp_setmtu_def ikcp_nodelay_def ikcp_interval_def Let_def\<close>)

lemma kcp_run_stuck:
  assumes "kcp_ok k" and "stuck seg k" and "calls_ok (int (unat (kmtu k))) xs" and "\<forall>a b. KWndsize a b \<in> set xs \<longrightarrow> b \<le> int (unat (s_frg seg))"
  shows "\<exists>ds k'. kcp_run xs k = Ok (ds, k') \<and> stuck seg k'"
  using assms
proof (induction xs arbitrary: k)
  case (Cons x xs)
  obtain ds k1 where k1: "kcp_do x k = Ok (ds, k1)" "kcp_ok k1" "int (unat (kmtu k1)) = next_mtu (int (unat (kmtu k))) x"
    using kcp_do_ok [OF Cons.prems(1,3)] stuck_recv [OF Cons.prems(2)] by blast
  have "stuck seg k1" using kcp_do_stuck [OF Cons.prems(1,2) k1(1)] Cons.prems(4) by auto
  moreover have "calls_ok (int (unat (kmtu k1))) xs" using calls_ok_step [OF Cons.prems(3)] unfolding k1(3) .
  ultimately obtain es k2 where "kcp_run xs k1 = Ok (es, k2)" "stuck seg k2"
    using Cons.IH [OF k1(2)] Cons.prems(4) by auto
  then show ?case using k1(1) by auto
qed simp



end
