(* ===== verification/KcpExchange.thy ===== *)
theory KcpExchange
  imports KcpLink KcpLimits
begin

text \<open>
  The first message of a conversation from \<open>ikcp_send\<close> to its acknowledgement, on a network that delivers.
\<close>

text \<open>The second flush of the sender outputs the first segment.\<close>

definition started :: "byte list \<Rightarrow> u32 \<Rightarrow> ikcpcb" where
  "started bs conv = ikcp_create conv\<lparr>koutput := True, snd_queue := [new_seg 0 bs], nsnd_que := 1, kcurrent := 0,
     updated := True, ts_flush := 100, ts_probe := 0, probe_wait := 0, kprobe := 0, cwnd := 1, kincr := 1376\<rparr>"

lemma start_update:
  assumes "length bs \<le> 1376"
  shows "ikcp_send bs (int (length bs)) (ikcp_setoutput True (ikcp_create conv))
      = Ok (0, ikcp_create conv\<lparr>koutput := True, snd_queue := [new_seg 0 bs], nsnd_que := 1\<rparr>)"
    and "ikcp_update 0 (ikcp_create conv\<lparr>koutput := True, snd_queue := [new_seg 0 bs], nsnd_que := 1\<rparr>) = Ok ([], started bs conv)"
  using assms by (simp_all add: setoutput_simp send_one_fragment ikcp_update_def Let_def itimediff_def first_flush started_def)

definition first_seg :: "byte list \<Rightarrow> u32 \<Rightarrow> kseg" where
  "first_seg bs conv = \<lparr>s_conv = conv, s_cmd = IKCP_CMD_PUSH, s_frg = 0, s_wnd = 32, s_ts = 100, s_sn = 0, s_una = 0,
     s_len = of_nat (length bs), s_resendts = 325, s_rto = 200, s_fastack = 0, s_xmit = 1, s_data = bs\<rparr>"

lemma put_first_segment:
  assumes "koutput k" and "unat (s_len seg) = length (s_data seg)" and "IKCP_OVERHEAD + length (s_data seg) \<le> kbuffer k"
    and "int IKCP_OVERHEAD + int (length (s_data seg)) \<le> sint (kmtu k)"
  shows "put_segment k seg \<lparr>pend = [], outs = []\<rparr> = Ok \<lparr>pend = wire seg, outs = []\<rparr>"
proof (cases "0 < s_len seg")
  case False
  then have "s_data seg = []" using assms(2) by (simp add: word_gt_0)
  then show ?thesis using assms False by (simp add: put_segment_def make_room_def put_bytes_def wire_def)
qed (use assms in \<open>simp add: put_segment_def make_room_def put_bytes_def read_mem_def wire_def\<close>)

lemma wire_not_empty [simp]: "wire seg \<noteq> []"
proof -
  have "0 < length (wire seg)" by (simp add: wire_def IKCP_OVERHEAD_def)
  then show ?thesis by blast
qed

lemma flush_outputs:
  assumes "updated k" and "ackcount k = 0" and "update_probe (k\<lparr>ackcount := 0\<rparr>) = k1" and "kprobe k1 = 0"
    and "move_to_buf (flush_window k1) (k1\<lparr>kprobe := 0\<rparr>) = k2"
    and "flush_segments k2 (snd_buf k2) \<lparr>pend = [], outs = []\<rparr> = Ok (rs, \<lparr>pend = d, outs = []\<rparr>)" and "d \<noteq> []" and "koutput k2"
  shows "\<exists>m s x y z. ikcp_flush k = Ok ([d], k2\<lparr>snd_buf := map snd rs, kxmit := m, kstate := s, ssthresh := x, cwnd := y, kincr := z\<rparr>)"
proof -
  obtain m s where "ikcp_flush k = Ok ([d], adapt_cwnd (flush_window k1) (map fst rs) (k2\<lparr>snd_buf := map snd rs, kxmit := m, kstate := s\<rparr>))"
    using assms by (simp add: ikcp_flush_def Let_def flush_probe_def ikcp_output_def)
  moreover obtain x y z where "adapt_cwnd (flush_window k1) (map fst rs) (k2\<lparr>snd_buf := map snd rs, kxmit := m, kstate := s\<rparr>)
      = k2\<lparr>snd_buf := map snd rs, kxmit := m, kstate := s, ssthresh := x, cwnd := y, kincr := z\<rparr>"
    using adapt_cwnd_form by blast
  ultimately show ?thesis by (simp only:) blast
qed

lemma second_flush:
  assumes "length bs \<le> 1376"
  shows "\<exists>a. ikcp_update 100 (started bs conv) = Ok ([wire (first_seg bs conv)], a) \<and> kconv a = conv \<and> kstream a = 0
    \<and> snd_queue a = [] \<and> nsnd_que a = 0 \<and> snd_buf a = [first_seg bs conv] \<and> nsnd_buf a = 1 \<and> snd_una a = 0 \<and> snd_nxt a = 1
    \<and> kcurrent a = 100"
proof -
  let ?k = "started bs conv\<lparr>kcurrent := 100, ts_flush := 200\<rparr>"
  let ?k1 = "?k\<lparr>ackcount := 0, ts_probe := 0, probe_wait := 0\<rparr>"
  let ?seg = "numbered_seg (?k1\<lparr>kprobe := 0\<rparr>) (new_seg 0 bs)"
  define K where "K = ?k1\<lparr>kprobe := 0, snd_queue := [], snd_buf := [?seg], nsnd_que := 0, nsnd_buf := 1, snd_nxt := 1\<rparr>"
  have update: "ikcp_update 100 (started bs conv) = ikcp_flush ?k"
    by (simp add: ikcp_update_def Let_def itimediff_def started_def)
  have probe: "update_probe (?k\<lparr>ackcount := 0\<rparr>) = ?k1" by (simp add: update_probe_def started_def)
  have move: "move_to_buf (flush_window ?k1) (?k1\<lparr>kprobe := 0\<rparr>) = K"
    by (simp add: flush_window_def move_to_buf.simps [of 1] itimediff_def started_def K_def)
  have why: "send_reason (kcurrent K) (resent_limit K) ?seg = FirstTime" by (simp add: send_reason_def numbered_seg_def)
  have first: "refreshed K FirstTime ?seg = first_seg bs conv"
    by (simp add: refreshed_def Let_def K_def numbered_seg_def new_seg_def first_seg_def ikcp_wnd_unused_def started_def
        ikcp_create_def IKCP_RTO_DEF_def IKCP_WND_RCV_def)
  have K: "koutput K" "kbuffer K = 4272" "kmtu K = 1400" "snd_buf K = [?seg]" "kstate K = 0"
    by (simp_all add: K_def started_def) (simp_all add: ikcp_create_def buffer_size_def IKCP_MTU_DEF_def IKCP_OVERHEAD_def)
  have fits: "unat (s_len (first_seg bs conv)) = length bs" "s_data (first_seg bs conv) = bs"
    using assms by (simp_all add: first_seg_def unat_of_small)
  have "put_segment K (first_seg bs conv) \<lparr>pend = [], outs = []\<rparr> = Ok \<lparr>pend = wire (first_seg bs conv), outs = []\<rparr>"
    using K assms fits by (intro put_first_segment) (simp_all add: IKCP_OVERHEAD_def)
  then have segments: "flush_segments K (snd_buf K) \<lparr>pend = [], outs = []\<rparr>
      = Ok ([(FirstTime, first_seg bs conv)], \<lparr>pend = wire (first_seg bs conv), outs = []\<rparr>)"
    by (simp add: K(4) why first Let_def)
  have some: "wire (first_seg bs conv) \<noteq> []" by (rule wire_not_empty)
  have "\<exists>m s x y z. ikcp_flush ?k = Ok ([wire (first_seg bs conv)], K\<lparr>snd_buf := map snd [(FirstTime, first_seg bs conv)],
      kxmit := m, kstate := s, ssthresh := x, cwnd := y, kincr := z\<rparr>)"
  proof (rule flush_outputs [OF _ _ probe _ move segments some K(1)])
  qed (simp_all add: started_def)
  then show ?thesis unfolding update by (auto simp: K_def started_def)
qed

text \<open>The receiver takes it.\<close>

lemma small_ucast [simp]: "(ucast (ucast (0 :: u32) :: 8 word) :: u32) = 0"
  by simp

lemma input_command_push:
  assumes "ikcp_shrink_buf (ikcp_parse_una (h_una h) (k0\<lparr>rmt_wnd := ucast (h_wnd h)\<rparr>)) = k" and "(ucast (h_cmd h) :: u32) = IKCP_CMD_PUSH"
    and "input_push (kconv k) h buf k = Ok k1"
  shows "input_command h buf (m, k0) = Ok (m, k1)"
  using assms by (simp add: input_command_def Let_def kcp_commands)

lemma input_command_ack:
  assumes "ikcp_shrink_buf (ikcp_parse_una (h_una h) (k0\<lparr>rmt_wnd := ucast (h_wnd h)\<rparr>)) = k" and "(ucast (h_cmd h) :: u32) = IKCP_CMD_ACK"
  shows "input_command h buf (m, k0) = Ok (next_maxack (h_sn h) m, input_ack h k)"
  using assms by (simp add: input_command_def Let_def)

lemma input_wire:
  assumes "unat (s_len seg) = length (s_data seg)" and "s_conv seg = kconv k" and "known_command (ucast (s_cmd seg))"
    and "input_command (header_of seg) (s_data seg) (None, k) = Ok (m, k1)"
  shows "ikcp_input (wire seg) (int (length (wire seg))) k =
    Ok (0, let k2 = (case m of None \<Rightarrow> k1 | Some a \<Rightarrow> ikcp_parse_fastack a k1)
           in if 0 < itimediff (snd_una k2) (snd_una k) then grow_cwnd k2 else k2)"
proof -
  have "input_segments (wire seg) (int (length (wire seg))) (None, k) = Ok (0, m, k1)"
    using input_segments_wire [OF assms(1), of "[]" "(None, k)"] assms(2-4)
    by (simp add: input_segments.simps [of "[]"] IKCP_OVERHEAD_def)
  then show ?thesis by (simp add: ikcp_input_def wire_def Let_def)
qed

lemma receive_first:
  assumes "length bs \<le> 1376"
  shows "\<exists>b q. ikcp_input (wire (first_seg bs conv)) (int (length (wire (first_seg bs conv)))) (ikcp_setoutput True (ikcp_create conv))
      = Ok (0, b) \<and> b = ikcp_create conv\<lparr>koutput := True, rmt_wnd := 32, ackblock := 8, acklist := [(0, 100)], ackcount := 1,
          rcv_queue := [q], nrcv_que := 1, rcv_nxt := 1\<rparr> \<and> s_frg q = 0 \<and> s_data q = bs \<and> unat (s_len q) = length bs"
proof -
  let ?seg = "first_seg bs conv" and ?k = "ikcp_create conv\<lparr>koutput := True, rmt_wnd := 32\<rparr>"
  have len: "unat (s_len ?seg) = length bs" "s_data ?seg = bs" using assms by (simp_all add: first_seg_def unat_of_small)
  let ?q = "segment_of conv (header_of ?seg) bs"
  have "uint (h_len (header_of ?seg)) < 2 ^ 31"
    using len(1) assms unfolding int_unat_u32 [symmetric] by (simp add: header_of_def del: of_nat_unat)
  then have seg: "received_segment conv (header_of ?seg) bs = Ok ?q"
    using received_segment_ok(1) [of "header_of ?seg" bs conv] len by (simp add: header_of_def)
  have start: "ikcp_shrink_buf (ikcp_parse_una (h_una (header_of ?seg)) (ikcp_setoutput True (ikcp_create conv)
      \<lparr>rmt_wnd := ucast (h_wnd (header_of ?seg))\<rparr>)) = ?k"
    by (rule ikcpcb.equality) (simp_all add: ikcp_shrink_buf_def ikcp_parse_una.simps setoutput_simp header_of_def first_seg_def)
  let ?b = "?k\<lparr>ackblock := 8, acklist := [(0, 100)], ackcount := 1, rcv_queue := [?q], nrcv_que := 1, rcv_nxt := 1\<rparr>"
  let ?k1 = "?k\<lparr>ackblock := 8, acklist := [(0, 100)], ackcount := 1\<rparr>"
  have ack: "ikcp_ack_push 0 100 ?k = Ok ?k1" by (simp add: ikcp_ack_push_def Let_def new_block.simps [of 8] ikcp_create_def)
  have data: "ikcp_parse_data ?q ?k1 = ?b"
  proof -
    have "s_sn ?q = 0" by (simp add: segment_of_def header_of_def first_seg_def)
    then have "ikcp_parse_data ?q ?k1 = move_ready (?k1\<lparr>rcv_buf := [?q], nrcv_buf := 1\<rparr>)"
      by (simp add: ikcp_parse_data_def itimediff_def)
    also have "\<dots> = ?k1\<lparr>rcv_buf := [], nrcv_buf := 0, rcv_queue := [?q], nrcv_que := 1, rcv_nxt := 1\<rparr>"
      using \<open>s_sn ?q = 0\<close> by (simp add: move_ready.simps)
    also have "\<dots> = ?b" by (rule ikcpcb.equality) simp_all
    finally show ?thesis .
  qed
  have "h_sn (header_of ?seg) = 0" "h_ts (header_of ?seg) = 100" by (simp_all add: header_of_def first_seg_def)
  moreover have cmd: "h_cmd (header_of ?seg) = 81" by (simp add: header_of_def first_seg_def kcp_commands)
  ultimately have push: "input_push conv (header_of ?seg) bs ?k = Ok ?b"
    using ack seg data by (simp add: input_push_def itimediff_def)
  have "kconv ?k = conv" by simp
  with push len(2) have "input_push (kconv ?k) (header_of ?seg) (s_data ?seg) ?k = Ok ?b" by (simp only:)
  moreover have "(ucast (h_cmd (header_of ?seg)) :: u32) = IKCP_CMD_PUSH" by (simp add: cmd kcp_commands)
  ultimately have "input_command (header_of ?seg) (s_data ?seg) (None, ikcp_setoutput True (ikcp_create conv)) = Ok (None, ?b)"
    by (intro input_command_push [OF start])
  moreover have "s_conv ?seg = kconv (ikcp_setoutput True (ikcp_create conv))" "known_command (ucast (s_cmd ?seg))"
    "unat (s_len ?seg) = length (s_data ?seg)"
    using len by (simp_all add: first_seg_def setoutput_simp known_command_def kcp_commands)
  ultimately have "ikcp_input (wire ?seg) (int (length (wire ?seg))) (ikcp_setoutput True (ikcp_create conv)) =
    Ok (0, if 0 < itimediff (snd_una ?b) (snd_una (ikcp_setoutput True (ikcp_create conv))) then grow_cwnd ?b else ?b)"
    using input_wire by (simp only: Let_def option.case)
  moreover have "itimediff (snd_una ?b) (snd_una (ikcp_setoutput True (ikcp_create conv))) = 0"
    by (simp add: setoutput_simp itimediff_def)
  moreover have "s_frg ?q = 0" "s_data ?q = bs" "unat (s_len ?q) = length bs"
    using len(1) by (simp_all add: segment_of_def header_of_def first_seg_def)
  ultimately show ?thesis by (intro exI [of _ ?b] exI [of _ ?q]) (simp only: less_irrefl if_False simp_thms)
qed

text \<open>The client gets it, and the next update acknowledges it.\<close>

lemma deliver_first:
  assumes "s_frg q = 0" and "s_data q = bs" and "unat (s_len q) = length bs" and "length bs \<le> 1376"
    and "b = ikcp_create conv\<lparr>koutput := True, rmt_wnd := 32, ackblock := 8, acklist := [(0, 100)], ackcount := 1,
          rcv_queue := [q], nrcv_que := 1, rcv_nxt := 1\<rparr>"
  shows "\<exists>b1. ikcp_recv 1400 b = Ok (int (length bs), bs, b1) \<and> b1 = b\<lparr>rcv_queue := [], nrcv_que := 0\<rparr>"
proof -
  have "sint (s_len q) = int (length bs)"
    using assms(3,4) sint_nonneg [of "s_len q"] unfolding int_unat_u32 [symmetric] by (simp del: of_nat_unat)
  then show ?thesis using assms(1,2,4)
    by (simp add: assms(3,5) ikcp_recv_def ikcp_peeksize_def Let_def move_ready.simps copy_fragment_def read_mem_def)
qed

definition first_ack :: "u32 \<Rightarrow> kseg" where
  "first_ack conv = (new_seg 0 [])\<lparr>s_conv := conv, s_cmd := IKCP_CMD_ACK, s_wnd := 32, s_una := 1, s_sn := 0, s_ts := 100\<rparr>"

lemma answer_first:
  assumes "b = ikcp_create conv\<lparr>koutput := True, rmt_wnd := 32, ackblock := 8, acklist := [(0, 100)], ackcount := 1,
          rcv_queue := [], nrcv_que := 0, rcv_nxt := 1\<rparr>"
  shows "\<exists>b1. ikcp_update 0 b = Ok ([wire (first_ack conv)], b1)"
proof -
  let ?k = "b\<lparr>kcurrent := 0, updated := True, ts_flush := 100\<rparr>"
  have update: "ikcp_update 0 b = ikcp_flush ?k"
    by (simp add: ikcp_update_def Let_def itimediff_def assms)
  have k: "koutput ?k" "kbuffer ?k = 4272" "kmtu ?k = 1400" "acklist ?k = [(0, 100)]" "ackcount ?k = 1" "updated ?k"
    by (simp_all add: assms) (simp_all add: ikcp_create_def buffer_size_def IKCP_MTU_DEF_def IKCP_OVERHEAD_def)
  have "control_seg IKCP_CMD_ACK 0 100 ?k = first_ack conv"
    by (simp add: control_seg_def first_ack_def ikcp_wnd_unused_def assms)
  then have acks: "flush_acks ?k [(0, 100)] \<lparr>pend = [], outs = []\<rparr> = Ok \<lparr>pend = wire (first_ack conv), outs = []\<rparr>"
    using k by (simp add: put_header_def make_room_def put_bytes_def IKCP_OVERHEAD_def wire_def first_ack_def new_seg_def)
  have probe: "update_probe (?k\<lparr>ackcount := 0\<rparr>) = ?k\<lparr>ackcount := 0, ts_probe := 0, probe_wait := 0\<rparr>"
    by (simp add: update_probe_def assms)
  have move: "move_to_buf 0 x = x" if "snd_nxt x = snd_una x" for x
    using that by (simp add: move_to_buf.simps [of 0 x] itimediff_def)
  show ?thesis unfolding update using k acks probe move
    by (simp add: ikcp_flush_def Let_def flush_probe_def flush_window_def ikcp_output_def assms)
qed

text \<open>The sender forgets the message.\<close>

lemma acknowledge_first:
  assumes "kconv a = conv" "snd_queue a = []" "nsnd_que a = 0" "snd_buf a = [first_seg bs conv]" "nsnd_buf a = 1" "snd_una a = 0"
    "snd_nxt a = 1"
  shows "\<exists>a1. ikcp_input (wire (first_ack conv)) (int (length (wire (first_ack conv)))) a = Ok (0, a1) \<and> ikcp_waitsnd a1 = 0"
proof -
  let ?k = "ikcp_shrink_buf (ikcp_parse_una 1 (a\<lparr>rmt_wnd := 32\<rparr>))"
  have k: "?k = a\<lparr>rmt_wnd := 32, snd_buf := [], nsnd_buf := 0, snd_una := 1\<rparr>"
    using assms by (simp add: ikcp_parse_una.simps itimediff_def first_seg_def ikcp_shrink_buf_def)
  obtain s v r where upd: "ikcp_update_ack (itimediff (kcurrent ?k) 100) ?k = ?k\<lparr>rx_srtt := s, rx_rttval := v, rx_rto := r\<rparr>"
    using update_ack_form by blast
  define K where "K = (if 0 \<le> itimediff (kcurrent ?k) 100 then ?k\<lparr>rx_srtt := s, rx_rttval := v, rx_rto := r\<rparr> else ?k)"
  have K: "snd_buf K = []" "nsnd_buf K = 0" "nsnd_que K = 0" "snd_nxt K = 1" "snd_una K = 1"
    unfolding K_def k by (simp_all add: assms)
  have old: "\<not> acceptable_ack 0 x" if "snd_una x = 1" for x using that by (simp add: acceptable_ack_def itimediff_def)
  have head: "h_sn (header_of (first_ack conv)) = 0" "h_ts (header_of (first_ack conv)) = 100" "h_una (header_of (first_ack conv)) = 1"
    "(ucast (h_wnd (header_of (first_ack conv))) :: u32) = 32" "(ucast (h_cmd (header_of (first_ack conv))) :: u32) = IKCP_CMD_ACK"
    by (simp_all add: header_of_def first_ack_def kcp_commands)
  have "input_ack (header_of (first_ack conv)) ?k = ikcp_shrink_buf K"
    unfolding input_ack_def head upd K_def [symmetric] Let_def using old [OF K(5)] by (simp add: ikcp_parse_ack_def)
  then have "input_command (header_of (first_ack conv)) [] (None, a) = Ok (Some 0, ikcp_shrink_buf K)"
    using input_command_ack [OF _ head(5), of a ?k "[]" None] head by (simp add: next_maxack_def)
  moreover have "s_conv (first_ack conv) = kconv a" "known_command (ucast (s_cmd (first_ack conv)))"
    "unat (s_len (first_ack conv)) = length (s_data (first_ack conv))" "s_data (first_ack conv) = []"
    using assms(1) by (simp_all add: first_ack_def new_seg_def known_command_def kcp_commands)
  moreover have "ikcp_parse_fastack 0 (ikcp_shrink_buf K) = ikcp_shrink_buf K"
    using old [of "ikcp_shrink_buf K"] K by (simp add: ikcp_parse_fastack_def ikcp_shrink_buf_def)
  ultimately obtain a1 where a1: "ikcp_input (wire (first_ack conv)) (int (length (wire (first_ack conv)))) a = Ok (0, a1)"
    "a1 = ikcp_shrink_buf K \<or> a1 = grow_cwnd (ikcp_shrink_buf K)"
    using input_wire [of "first_ack conv" a "Some 0" "ikcp_shrink_buf K"] by (auto simp: Let_def split: if_splits)
  moreover have "ikcp_waitsnd (ikcp_shrink_buf K) = 0" "ikcp_waitsnd (grow_cwnd x) = ikcp_waitsnd x" for x
    using K grow_cwnd_form [of x] by (auto simp: ikcp_waitsnd_def ikcp_shrink_buf_def)
  ultimately show ?thesis by auto
qed

lemma exchange:
  assumes "length bs \<le> 1376"
  shows "\<exists>a0 a d b b1 b2 ack a1.
    ikcp_send bs (int (length bs)) (ikcp_setoutput True (ikcp_create conv)) = Ok (0, a0)
    \<and> kcp_run [KUpdate 0, KUpdate 100] a0 = Ok ([d], a)
    \<and> ikcp_input d (int (length d)) (ikcp_setoutput True (ikcp_create conv)) = Ok (0, b)
    \<and> ikcp_recv 1400 b = Ok (int (length bs), bs, b1)
    \<and> ikcp_update 0 b1 = Ok ([ack], b2)
    \<and> ikcp_input ack (int (length ack)) a = Ok (0, a1) \<and> ikcp_waitsnd a1 = 0"
proof -
  obtain a where a: "ikcp_update 100 (started bs conv) = Ok ([wire (first_seg bs conv)], a)" "kconv a = conv"
    "snd_queue a = []" "nsnd_que a = 0" "snd_buf a = [first_seg bs conv]" "nsnd_buf a = 1" "snd_una a = 0" "snd_nxt a = 1"
    using second_flush [OF assms] by blast
  obtain b q where b: "ikcp_input (wire (first_seg bs conv)) (int (length (wire (first_seg bs conv)))) (ikcp_setoutput True (ikcp_create conv))
      = Ok (0, b)" "b = ikcp_create conv\<lparr>koutput := True, rmt_wnd := 32, ackblock := 8, acklist := [(0, 100)], ackcount := 1,
          rcv_queue := [q], nrcv_que := 1, rcv_nxt := 1\<rparr>" "s_frg q = 0" "s_data q = bs" "unat (s_len q) = length bs"
    using receive_first [OF assms] by blast
  obtain b1 where b1: "ikcp_recv 1400 b = Ok (int (length bs), bs, b1)" "b1 = b\<lparr>rcv_queue := [], nrcv_que := 0\<rparr>"
    using deliver_first [OF b(3-5) assms b(2)] by blast
  have "b1 = ikcp_create conv\<lparr>koutput := True, rmt_wnd := 32, ackblock := 8, acklist := [(0, 100)], ackcount := 1,
          rcv_queue := [], nrcv_que := 0, rcv_nxt := 1\<rparr>" unfolding b1(2) b(2) by (rule ikcpcb.equality) simp_all
  from answer_first [OF this] obtain b2 where b2: "ikcp_update 0 b1 = Ok ([wire (first_ack conv)], b2)" by blast
  obtain a1 where "ikcp_input (wire (first_ack conv)) (int (length (wire (first_ack conv)))) a = Ok (0, a1)" "ikcp_waitsnd a1 = 0"
    using acknowledge_first [OF a(2-8)] by blast
  moreover have "kcp_run [KUpdate 0, KUpdate 100] (ikcp_create conv\<lparr>koutput := True, snd_queue := [new_seg 0 bs], nsnd_que := 1\<rparr>)
      = Ok ([wire (first_seg bs conv)], a)"
    by (simp only: kcp_run.simps kcp_do.simps start_update(2) [OF assms] a(1) bindR_Ok prod.case append_Nil append_Nil2)
  ultimately show ?thesis using start_update(1) [OF assms] b(1) b1(1) b2 by blast
qed

section \<open>The exchange as a conversation\<close>

lemma conversation:
  assumes "length bs \<le> 1376"
  shows "\<exists>s. (kcp_link_step True)\<^sup>*\<^sup>* (new_kcp_link conv) s \<and> lk_sent s = [bs] \<and> lk_got s = [bs] \<and> ikcp_waitsnd (lk_a s) = 0"
proof -
  let ?k = "ikcp_setoutput True (ikcp_create conv)"
  obtain a0 a d b b1 b2 ack a1 where e: "ikcp_send bs (int (length bs)) ?k = Ok (0, a0)"
    "kcp_run [KUpdate 0, KUpdate 100] a0 = Ok ([d], a)" "ikcp_input d (int (length d)) ?k = Ok (0, b)"
    "ikcp_recv 1400 b = Ok (int (length bs), bs, b1)" "ikcp_update 0 b1 = Ok ([ack], b2)"
    "ikcp_input ack (int (length ack)) a = Ok (0, a1)" "ikcp_waitsnd a1 = 0"
    using exchange [OF assms] by blast
  obtain ds es am where u: "kcp_do (KUpdate 0) a0 = Ok (ds, am)" "kcp_do (KUpdate 100) am = Ok (es, a)" "ds @ es = [d]"
    using e(2) by auto
  let ?s1 = "(new_kcp_link conv)\<lparr>lk_a := a0, lk_sent := [bs]\<rparr>"
  have "kcp_link_step True (new_kcp_link conv) ?s1"
    using kcp_link_step.message [of bs "new_kcp_link conv" 0 a0 True] e(1) assms by (simp add: new_kcp_link_def)
  moreover have "kcp_link_step True ?s1 (?s1\<lparr>lk_a := am, lk_out := ds\<rparr>)"
    using kcp_link_step.call_a [of "KUpdate 0" ?s1 ds am True] u(1) by (simp add: new_kcp_link_def other_call_def)
  moreover let ?s3 = "?s1\<lparr>lk_a := a, lk_out := [d]\<rparr>"
  have "kcp_link_step True (?s1\<lparr>lk_a := am, lk_out := ds\<rparr>) ?s3"
    using kcp_link_step.call_a [of "KUpdate 100" "?s1\<lparr>lk_a := am, lk_out := ds\<rparr>" es a True] u(2,3)
    by (simp add: new_kcp_link_def other_call_def)
  moreover let ?s4 = "?s3\<lparr>lk_b := b\<rparr>"
  have "kcp_link_step True ?s3 ?s4"
    using kcp_link_step.input_b [of d ?s3 0 b True] e(3) by (simp add: new_kcp_link_def)
  moreover let ?s5 = "?s3\<lparr>lk_b := b1, lk_got := [bs]\<rparr>"
  have "kcp_link_step True ?s4 ?s5"
    using kcp_link_step.recv_b [of 1400 ?s4 "int (length bs)" bs b1 True] e(4) by (simp add: new_kcp_link_def)
  moreover let ?s6 = "?s5\<lparr>lk_b := b2, lk_back := [ack]\<rparr>"
  have "kcp_link_step True ?s5 ?s6"
    using kcp_link_step.call_b [of "KUpdate 0" ?s5 "[ack]" b2 True] e(5) by (simp add: new_kcp_link_def other_call_def)
  moreover have "kcp_link_step True ?s6 (?s6\<lparr>lk_a := a1\<rparr>)"
    using kcp_link_step.input_a [of True ack ?s6 0 a1] e(6) by (simp add: new_kcp_link_def)
  ultimately have "(kcp_link_step True)\<^sup>*\<^sup>* (new_kcp_link conv) (?s6\<lparr>lk_a := a1\<rparr>)"
    by (meson converse_rtranclp_into_rtranclp r_into_rtranclp)
  moreover have "lk_sent (?s6\<lparr>lk_a := a1\<rparr>) = [bs]" "lk_got (?s6\<lparr>lk_a := a1\<rparr>) = [bs]" "lk_a (?s6\<lparr>lk_a := a1\<rparr>) = a1" by simp_all
  ultimately show ?thesis using e(7) by metis
qed

section \<open>Properties\<close>

text \<open>
  C3. Messages arrive in order and whole: whatever datagrams of the sender the network loses, repeats or
  delivers out of order, and whatever bytes anybody feeds the sender, the messages that \<open>ikcp_recv\<close> returned
  are the first ones of those \<open>ikcp_send\<close> accepted, unchanged and in their order, as long as fewer than
  8421505 messages were sent (their fragments have different numbers then).
\<close>

theorem kcp_messages_in_order:
  assumes "(kcp_link_step honest)\<^sup>*\<^sup>* (new_kcp_link conv) s" and "length (lk_sent s) \<le> 8421504"
  shows "\<exists>rest. lk_sent s = lk_got s @ rest"
  using kcp_link_reachable [OF assms] unfolding kcp_link_inv_def messages_ok_def by (metis append_take_drop_id)

lemma kcp_messages_in_order_witness:
  "\<exists>s rest. (kcp_link_step True)\<^sup>*\<^sup>* (new_kcp_link 7) s \<and> lk_got s = [[1, 2]] \<and> lk_sent s = lk_got s @ rest"
proof -
  obtain s where s: "(kcp_link_step True)\<^sup>*\<^sup>* (new_kcp_link 7) s" "lk_sent s = [[1, 2]]" "lk_got s = [[1, 2]]"
    using conversation [of "[1, 2]" 7] by auto
  from s(2) have "length (lk_sent s) \<le> 8421504" by simp
  from kcp_messages_in_order [OF s(1) this] s show ?thesis by blast
qed

text \<open>
  C4. Nothing is lost: in a conversation in which the sender gets only what the receiver output (lost, repeated
  or reordered), once \<open>ikcp_waitsnd\<close> says that nothing waits any more, the receiver holds every byte that
  \<open>ikcp_recv\<close> has not returned yet, in the right order: the sender never forgets a fragment before the
  receiver has it.
\<close>

theorem kcp_nothing_lost:
  assumes "(kcp_link_step True)\<^sup>*\<^sup>* (new_kcp_link conv) s" and "length (lk_sent s) \<le> 8421504" and "ikcp_waitsnd (lk_a s) = 0"
  shows "concat (lk_got s) @ concat (map s_data (rcv_queue (lk_b s) @ rcv_buf (lk_b s))) = concat (lk_sent s)"
proof -
  obtain fss where inv: "kcp_link_inv True fss s" using kcp_link_reachable [OF assms(1,2)] by blast
  let ?j = "length (lk_got s)"
  have m: "list_all2 frag_of (lk_sent s) fss" "take ?j (lk_sent s) = lk_got s"
    using inv by (simp_all add: kcp_link_inv_def messages_ok_def)
  have a: "snd_queue (lk_a s) = []" "snd_buf (lk_a s) = []" "sender_ok (concat fss) (lk_a s)"
    using inv assms(3) by (simp_all add: kcp_link_inv_def a_ok_def kcp_ok_def snd_ok_def ikcp_waitsnd_def)
  then have "unat (snd_nxt (lk_a s)) = length (concat fss)" by (simp add: sender_ok_def)
  then have "map payload (rcv_queue (lk_b s) @ rcv_buf (lk_b s)) = drop (length (concat (take ?j fss))) (concat fss)"
    using inv a(2) frs_small(1) [OF inv assms(2)]
    by (intro all_held) (auto simp: kcp_link_inv_def b_ok_def not_lost_def kept_def)
  also have "\<dots> = concat (drop ?j fss)" by (metis append_eq_conv_conj append_take_drop_id concat_append)
  finally have queues: "map payload (rcv_queue (lk_b s) @ rcv_buf (lk_b s)) = concat (drop ?j fss)" .
  have whole: "concat (map snd (concat fss)) = concat msgs" if "list_all2 frag_of msgs fss" for msgs fss
    using that by (induction rule: list_all2_induct) (simp_all add: frag_of_def)
  have "map s_data ss = map snd (map payload ss)" for ss by (simp add: payload_def)
  then have "concat (map s_data (rcv_queue (lk_b s) @ rcv_buf (lk_b s))) = concat (map snd (concat (drop ?j fss)))"
    by (simp only: queues)
  also have "\<dots> = concat (drop ?j (lk_sent s))" by (rule whole [OF list_all2_dropI [OF m(1)]])
  finally show ?thesis using m(2) by (metis append_take_drop_id concat_append)
qed

lemma kcp_nothing_lost_witness:
  "\<exists>s. (kcp_link_step True)\<^sup>*\<^sup>* (new_kcp_link 7) s \<and> lk_sent s = [[1, 2]] \<and> ikcp_waitsnd (lk_a s) = 0
    \<and> concat (lk_got s) @ concat (map s_data (rcv_queue (lk_b s) @ rcv_buf (lk_b s))) = concat (lk_sent s)"
proof -
  obtain s where s: "(kcp_link_step True)\<^sup>*\<^sup>* (new_kcp_link 7) s" "lk_sent s = [[1, 2]]" "ikcp_waitsnd (lk_a s) = 0"
    using conversation [of "[1, 2]" 7] by auto
  from s(2) have "length (lk_sent s) \<le> 8421504" by simp
  from kcp_nothing_lost [OF s(1) this s(3)] s show ?thesis by blast
qed



end
