(* ===== verification/KcpHeap.thy ===== *)
theory KcpHeap
  imports Kcp
begin

text \<open>
  The queues of KCP as they are in memory: circular doubly linked lists through the \<open>node\<close> of the segments
  (the macros of \<open>third/ikcp.h\<close>), with their heads in the control block. Theory \<open>Kcp\<close> has them as lists.
\<close>

section \<open>Memory\<close>

text \<open>
  \<open>nodes\<close> has the fields \<open>next\<close> and \<open>prev\<close> of every \<open>IQUEUEHEAD\<close> that is allocated, \<open>segs\<close> the other fields of the
  segments (\<open>node\<close> is the first one, so a segment has the address of its node), \<open>blk\<close> the other fields of
  the control block. Address 0 is the null pointer.
\<close>

record kmem =
  nodes :: "nat \<Rightarrow> (nat \<times> nat) option"
  segs :: "nat \<Rightarrow> kseg option"
  blk :: ikcpcb

definition deref :: "nat \<Rightarrow> (nat \<Rightarrow> 'a option) \<Rightarrow> 'a res" where
  "deref a m = (if a = 0 then Fail NullDeref else case m a of None \<Rightarrow> Fail UseAfterFree | Some x \<Rightarrow> Ok x)"

definition next_of :: "nat \<Rightarrow> kmem \<Rightarrow> nat res" where
  "next_of a s = bindR (deref a (nodes s)) (\<lambda>n. Ok (fst n))"

definition prev_of :: "nat \<Rightarrow> kmem \<Rightarrow> nat res" where
  "prev_of a s = bindR (deref a (nodes s)) (\<lambda>n. Ok (snd n))"

definition set_next :: "nat \<Rightarrow> nat \<Rightarrow> kmem \<Rightarrow> kmem res" where
  "set_next a v s = bindR (deref a (nodes s)) (\<lambda>n. Ok (s\<lparr>nodes := (nodes s)(a \<mapsto> (v, snd n))\<rparr>))"

definition set_prev :: "nat \<Rightarrow> nat \<Rightarrow> kmem \<Rightarrow> kmem res" where
  "set_prev a v s = bindR (deref a (nodes s)) (\<lambda>n. Ok (s\<lparr>nodes := (nodes s)(a \<mapsto> (fst n, v))\<rparr>))"

definition get_seg :: "nat \<Rightarrow> kmem \<Rightarrow> kseg res" where
  "get_seg a s = deref a (segs s)"

definition put_seg :: "nat \<Rightarrow> kseg \<Rightarrow> kmem \<Rightarrow> kmem res" where
  "put_seg a x s = bindR (deref a (segs s)) (\<lambda>_. Ok (s\<lparr>segs := (segs s)(a \<mapsto> x)\<rparr>))"

text \<open>
  \<open>ikcp_segment_new\<close> with what is written into the segment before it is linked, \<open>ikcp_segment_delete\<close>. The
  address is null when \<open>malloc\<close> has no memory.
\<close>

definition ikcp_segment_new :: "(kmem \<Rightarrow> nat) \<Rightarrow> kseg \<Rightarrow> kmem \<Rightarrow> nat \<times> kmem" where
  "ikcp_segment_new malloc x s =
     (let a = malloc s in
      if a = 0 then (0, s) else (a, s\<lparr>nodes := (nodes s)(a \<mapsto> (0, 0)), segs := (segs s)(a \<mapsto> x)\<rparr>))"

definition ikcp_segment_delete :: "nat \<Rightarrow> kmem \<Rightarrow> kmem res" where
  "ikcp_segment_delete a s = bindR (deref a (segs s)) (\<lambda>_.
     Ok (s\<lparr>nodes := (nodes s)(a := None), segs := (segs s)(a := None)\<rparr>))"

section \<open>The macros\<close>

definition iqueue_init :: "nat \<Rightarrow> kmem \<Rightarrow> kmem res" where
  "iqueue_init p s = bindR (set_next p p s) (set_prev p p)"

definition iqueue_add :: "nat \<Rightarrow> nat \<Rightarrow> kmem \<Rightarrow> kmem res" where
  "iqueue_add n h s =
     bindR (set_prev n h s) (\<lambda>s1. bindR (next_of h s1) (\<lambda>x. bindR (set_next n x s1) (\<lambda>s2.
     bindR (next_of h s2) (\<lambda>y. bindR (set_prev y n s2) (set_next h n)))))"

definition iqueue_add_tail :: "nat \<Rightarrow> nat \<Rightarrow> kmem \<Rightarrow> kmem res" where
  "iqueue_add_tail n h s =
     bindR (prev_of h s) (\<lambda>x. bindR (set_prev n x s) (\<lambda>s1. bindR (set_next n h s1) (\<lambda>s2.
     bindR (prev_of h s2) (\<lambda>y. bindR (set_next y n s2) (set_prev h n)))))"

definition iqueue_del :: "nat \<Rightarrow> kmem \<Rightarrow> kmem res" where
  "iqueue_del e s =
     bindR (next_of e s) (\<lambda>x. bindR (prev_of e s) (\<lambda>y. bindR (set_prev x y s) (\<lambda>s1.
     bindR (prev_of e s1) (\<lambda>x. bindR (next_of e s1) (\<lambda>y. bindR (set_next x y s1) (\<lambda>s2.
     bindR (set_next e 0 s2) (set_prev e 0)))))))"

definition iqueue_del_init :: "nat \<Rightarrow> kmem \<Rightarrow> kmem res" where
  "iqueue_del_init e s = bindR (iqueue_del e s) (iqueue_init e)"

definition iqueue_is_empty :: "nat \<Rightarrow> kmem \<Rightarrow> bool res" where
  "iqueue_is_empty e s = bindR (next_of e s) (\<lambda>x. Ok (e = x))"

text \<open>The heads of \<open>snd_queue\<close>, \<open>rcv_queue\<close>, \<open>snd_buf\<close> and \<open>rcv_buf\<close> in the control block.\<close>

datatype queue_id = SndQueue | RcvQueue | SndBuf | RcvBuf

fun head_of :: "queue_id \<Rightarrow> nat" where
  "head_of SndQueue = 1" | "head_of RcvQueue = 2" | "head_of SndBuf = 3" | "head_of RcvBuf = 4"

section \<open>Rings\<close>

definition nx :: "kmem \<Rightarrow> nat \<Rightarrow> nat option" where "nx s a = map_option fst (nodes s a)"

definition pv :: "kmem \<Rightarrow> nat \<Rightarrow> nat option" where "pv s a = map_option snd (nodes s a)"

definition pairs :: "'a list \<Rightarrow> ('a \<times> 'a) list" where "pairs xs = zip xs (tl xs)"

text \<open>The nodes \<open>ns\<close> form a ring with the head \<open>h\<close>.\<close>

definition ring :: "kmem \<Rightarrow> nat \<Rightarrow> nat list \<Rightarrow> bool" where
  "ring s h ns \<longleftrightarrow> (\<forall>(a, b) \<in> set (pairs (h # ns @ [h])). nx s a = Some b \<and> pv s b = Some a)"

lemma pairs_append: "xs \<noteq> [] \<Longrightarrow> ys \<noteq> [] \<Longrightarrow> pairs (xs @ ys) = pairs xs @ (last xs, hd ys) # pairs ys"
proof (induction xs)
  case (Cons x xs)
  then show ?case by (cases xs; cases ys) (simp_all add: pairs_def)
qed simp

lemma pairs_members: "(a, b) \<in> set (pairs xs) \<Longrightarrow> a \<in> set (butlast xs) \<and> b \<in> set (tl xs)"
proof (induction xs)
  case (Cons x xs)
  then show ?case by (cases xs) (auto simp: pairs_def)
qed (simp add: pairs_def)

lemma ring_split:
  "ring s h (xs @ ys) \<longleftrightarrow> (\<forall>(a, b) \<in> set (pairs (h # xs)) \<union> {(last (h # xs), hd (ys @ [h]))} \<union> set (pairs (ys @ [h])).
     nx s a = Some b \<and> pv s b = Some a)"
proof -
  have "pairs (h # (xs @ ys) @ [h]) = pairs (h # xs) @ (last (h # xs), hd (ys @ [h])) # pairs (ys @ [h])"
    using pairs_append [of "h # xs" "ys @ [h]"] by simp
  then show ?thesis by (auto simp: ring_def)
qed

lemma ring_cong:
  assumes "\<And>x. x \<in> set (h # ns) \<Longrightarrow> nx s' x = nx s x \<and> pv s' x = pv s x"
  shows "ring s' h ns \<longleftrightarrow> ring s h ns"
proof -
  have "nx s' a = nx s a \<and> pv s' b = pv s b" if "(a, b) \<in> set (pairs (h # ns @ [h]))" for a b
    using pairs_members [OF that] assms by (auto simp: butlast_append)
  then show ?thesis unfolding ring_def by fastforce
qed

text \<open>A node is put between two neighbours, or taken out.\<close>

lemma ring_insert:
  assumes r: "ring s h (xs @ ys)" and d: "distinct (h # xs @ ys)" and a: "a \<notin> set (h # xs @ ys)"
    and p: "p = last (h # xs)" and n: "n = hd (ys @ [h])"
    and nx: "\<And>x. nx s' x = (if x = p then Some a else if x = a then Some n else nx s x)"
    and pv: "\<And>x. pv s' x = (if x = n then Some a else if x = a then Some p else pv s x)"
  shows "ring s' h (xs @ a # ys)"
proof -
  have pn: "p \<in> set (h # xs)" "n \<in> set (ys @ [h])" unfolding p n by (rule last_in_set hd_in_set; simp)+
  have left: "nx s' u = Some v \<and> pv s' v = Some u" if uv: "(u, v) \<in> set (pairs (h # xs))" for u v
  proof -
    have "u \<in> set (butlast (h # xs))" "v \<in> set xs" using pairs_members [OF uv] by simp_all
    moreover have "distinct (butlast (h # xs) @ [p])"
      using d unfolding p by (subst append_butlast_last_id) auto
    moreover have "set (butlast (h # xs)) \<subseteq> set (h # xs)" by (meson in_set_butlastD subsetI)
    ultimately have "u \<noteq> p" "u \<noteq> a" "v \<noteq> a" "v \<noteq> n" using a d pn by auto
    then show ?thesis using r uv by (auto simp: nx pv ring_split)
  qed
  have right: "nx s' u = Some v \<and> pv s' v = Some u" if uv: "(u, v) \<in> set (pairs (ys @ [h]))" for u v
  proof -
    have "u \<in> set ys" "v \<in> set (tl (ys @ [h]))" using pairs_members [OF uv] by simp_all
    moreover have "distinct (n # tl (ys @ [h]))" using d unfolding n by (cases ys) auto
    moreover have "set (tl (ys @ [h])) \<subseteq> set (ys @ [h])" by (cases ys) auto
    ultimately have "u \<noteq> p" "u \<noteq> a" "v \<noteq> a" "v \<noteq> n" using a d pn by auto
    then show ?thesis using r uv by (auto simp: nx pv ring_split)
  qed
  have mid: "pairs (h # xs @ a # ys @ [h]) = pairs (h # xs) @ (p, a) # (a, n) # pairs (ys @ [h])"
    using pairs_append [of "h # xs" "a # ys @ [h]"] pairs_append [of "[a]" "ys @ [h]"] by (simp add: p n pairs_def)
  have "p \<noteq> a" "n \<noteq> a" using a pn by auto
  then have "nx s' p = Some a \<and> pv s' a = Some p" "nx s' a = Some n \<and> pv s' n = Some a"
    by (auto simp: nx pv)
  then show ?thesis using left right by (auto simp: ring_def mid)
qed

lemma ring_delete:
  assumes r: "ring s h (xs @ a # ys)" and d: "distinct (h # xs @ a # ys)"
    and p: "p = last (h # xs)" and n: "n = hd (ys @ [h])"
    and nx: "\<And>x. x \<noteq> a \<Longrightarrow> nx s' x = (if x = p then Some n else nx s x)"
    and pv: "\<And>x. x \<noteq> a \<Longrightarrow> pv s' x = (if x = n then Some p else pv s x)"
  shows "ring s' h (xs @ ys)"
proof -
  have pn: "p \<in> set (h # xs)" "n \<in> set (ys @ [h])" unfolding p n by (rule last_in_set hd_in_set; simp)+
  have old: "nx s u = Some v \<and> pv s v = Some u" if "(u, v) \<in> set (pairs (h # xs)) \<union> set (pairs (ys @ [h]))" for u v
  proof -
    have "pairs (a # ys @ [h]) = (a, n) # pairs (ys @ [h])"
      using pairs_append [of "[a]" "ys @ [h]"] by (simp add: n pairs_def)
    then show ?thesis using r that ring_split [of s h xs "a # ys"] by auto
  qed
  have left: "nx s' u = Some v \<and> pv s' v = Some u" if uv: "(u, v) \<in> set (pairs (h # xs))" for u v
  proof -
    have "u \<in> set (butlast (h # xs))" "v \<in> set xs" using pairs_members [OF uv] by simp_all
    moreover have "distinct (butlast (h # xs) @ [p])"
      using d unfolding p by (subst append_butlast_last_id) auto
    moreover have "set (butlast (h # xs)) \<subseteq> set (h # xs)" by (meson in_set_butlastD subsetI)
    ultimately have "u \<noteq> p" "u \<noteq> a" "v \<noteq> a" "v \<noteq> n" using d pn by auto
    then show ?thesis using old [of u v] uv by (auto simp: nx pv)
  qed
  have right: "nx s' u = Some v \<and> pv s' v = Some u" if uv: "(u, v) \<in> set (pairs (ys @ [h]))" for u v
  proof -
    have "u \<in> set ys" "v \<in> set (tl (ys @ [h]))" using pairs_members [OF uv] by simp_all
    moreover have "distinct (n # tl (ys @ [h]))" using d unfolding n by (cases ys) auto
    moreover have "set (tl (ys @ [h])) \<subseteq> set (ys @ [h])" by (cases ys) auto
    ultimately have "u \<noteq> p" "u \<noteq> a" "v \<noteq> a" "v \<noteq> n" using d pn by auto
    then show ?thesis using old [of u v] uv by (auto simp: nx pv)
  qed
  have "p \<noteq> a" "n \<noteq> a" using d pn by auto
  then have "nx s' p = Some n \<and> pv s' n = Some p" by (simp add: nx pv)
  then show ?thesis using left right by (auto simp: ring_split p n)
qed

lemma ring_gap:
  assumes "ring s h (xs @ ys)"
  shows "nx s (last (h # xs)) = Some (hd (ys @ [h]))" and "pv s (hd (ys @ [h])) = Some (last (h # xs))"
  using assms by (auto simp: ring_split)

section \<open>What is in memory\<close>

text \<open>
  \<open>Q\<close> are the nodes in each queue, \<open>X\<close> those of segments that are not linked. Every node that is allocated
  is a head, in one queue or in \<open>X\<close>: nothing is lost.
\<close>

definition members :: "(queue_id \<Rightarrow> nat list) \<Rightarrow> nat set" where
  "members Q = (\<Union>q. set (Q q))"

definition mem_inv :: "kmem \<Rightarrow> (queue_id \<Rightarrow> nat list) \<Rightarrow> nat set \<Rightarrow> bool" where
  "mem_inv s Q X \<longleftrightarrow> (\<forall>q. ring s (head_of q) (Q q)) \<and> (\<forall>q. distinct (Q q)) \<and> (\<forall>q r. q \<noteq> r \<longrightarrow> set (Q q) \<inter> set (Q r) = {})
     \<and> members Q \<inter> X = {} \<and> (members Q \<union> X) \<inter> range head_of = {} \<and> 0 \<notin> members Q \<union> X
     \<and> dom (nodes s) = range head_of \<union> members Q \<union> X \<and> dom (segs s) = members Q \<union> X"

lemma head_of_inj: "head_of q = head_of r \<longleftrightarrow> q = r"
  by (cases q; cases r) simp_all

lemma head_of_pos: "head_of q \<noteq> 0"
  by (cases q) simp_all

declare head_of.simps [simp del]

lemma mem_invD:
  assumes "mem_inv s Q X"
  shows "ring s (head_of q) (Q q)" and "distinct (head_of q # Q q)" and "q \<noteq> r \<Longrightarrow> set (head_of q # Q q) \<inter> set (head_of r # Q r) = {}"
    and "a \<in> set (Q q) \<Longrightarrow> a \<notin> X" and "a \<in> X \<Longrightarrow> a \<notin> set (head_of q # Q q)"
    and "a \<in> set (head_of q # Q q) \<union> X \<Longrightarrow> a \<noteq> 0 \<and> nodes s a \<noteq> None"
    and "a \<in> set (Q q) \<union> X \<Longrightarrow> segs s a \<noteq> None"
proof -
  have i: "\<forall>q. ring s (head_of q) (Q q)" "\<forall>q. distinct (Q q)" "\<forall>q r. q \<noteq> r \<longrightarrow> set (Q q) \<inter> set (Q r) = {}"
    "members Q \<inter> X = {}" "(members Q \<union> X) \<inter> range head_of = {}" "0 \<notin> members Q \<union> X"
    "dom (nodes s) = range head_of \<union> members Q \<union> X" "dom (segs s) = members Q \<union> X"
    using assms unfolding mem_inv_def by simp_all
  have m: "set (Q q) \<subseteq> members Q" for q by (auto simp: members_def)
  have h: "head_of r \<notin> set (Q q)" for q r
  proof
    assume "head_of r \<in> set (Q q)"
    then have "head_of r \<in> (members Q \<union> X) \<inter> range head_of" using m [of q] by auto
    then show False using i(5) by simp
  qed
  show "ring s (head_of q) (Q q)" using i(1) by blast
  show "distinct (head_of q # Q q)" using i(2) h by simp
  show "set (head_of q # Q q) \<inter> set (head_of r # Q r) = {}" if "q \<noteq> r"
    using i(3) that h head_of_inj [of q r] by simp
  show "a \<notin> X" if "a \<in> set (Q q)" using i(4) m [of q] that by blast
  show "a \<notin> set (head_of q # Q q)" if "a \<in> X"
  proof -
    have "a \<notin> members Q" "a \<noteq> head_of q" using i(4,5) that by blast+
    then show ?thesis using m [of q] by auto
  qed
  show "a \<noteq> 0 \<and> nodes s a \<noteq> None" if a: "a \<in> set (head_of q # Q q) \<union> X"
  proof
    have "a = head_of q \<or> a \<in> members Q \<union> X" using a m [of q] by auto
    then show "a \<noteq> 0" using i(6) head_of_pos [of q] by metis
    have "a \<in> dom (nodes s)" unfolding i(7) using a m [of q] by auto
    then show "nodes s a \<noteq> None" by blast
  qed
  show "segs s a \<noteq> None" if "a \<in> set (Q q) \<union> X"
  proof -
    have "a \<in> dom (segs s)" unfolding i(8) using that m [of q] by blast
    then show ?thesis by blast
  qed
qed

lemma next_prev_ok: "a \<noteq> 0 \<Longrightarrow> nx s a = Some b \<Longrightarrow> next_of a s = Ok b" "a \<noteq> 0 \<Longrightarrow> pv s a = Some b \<Longrightarrow> prev_of a s = Ok b"
  by (auto simp: next_of_def prev_of_def deref_def nx_def pv_def)

text \<open>Where the pointers of a queue lead.\<close>

lemma walk:
  assumes inv: "mem_inv s Q X"
  shows "next_of (head_of q) s = Ok (hd (Q q @ [head_of q]))" and "prev_of (head_of q) s = Ok (last (head_of q # Q q))"
    and "iqueue_is_empty (head_of q) s = Ok (Q q = [])"
    and "Q q = xs @ a # ys \<Longrightarrow> next_of a s = Ok (hd (ys @ [head_of q]))"
    and "Q q = xs @ a # ys \<Longrightarrow> prev_of a s = Ok (last (head_of q # xs))"
    and "Q q = xs @ a # ys \<Longrightarrow> get_seg a s = Ok (the (segs s a)) \<and> a \<noteq> head_of q"
proof -
  note r = mem_invD(1) [OF inv, of q]
  have nz: "a \<noteq> 0" if "a \<in> set (head_of q # Q q)" for a using mem_invD(6) [OF inv, of a q] that by blast
  show n: "next_of (head_of q) s = Ok (hd (Q q @ [head_of q]))"
    by (rule next_prev_ok) (use ring_gap(1) [of s _ "[]" "Q q"] r head_of_pos in simp_all)
  show "prev_of (head_of q) s = Ok (last (head_of q # Q q))"
    by (rule next_prev_ok) (use ring_gap(2) [of s _ "Q q" "[]"] r head_of_pos in simp_all)
  show "iqueue_is_empty (head_of q) s = Ok (Q q = [])"
    using n mem_invD(2) [OF inv, of q] by (cases "Q q") (auto simp: iqueue_is_empty_def)
  show "next_of a s = Ok (hd (ys @ [head_of q]))" if q: "Q q = xs @ a # ys"
    by (rule next_prev_ok) (use ring_gap(1) [of s _ "xs @ [a]" ys] r q nz in simp_all)
  show "prev_of a s = Ok (last (head_of q # xs))" if q: "Q q = xs @ a # ys"
    by (rule next_prev_ok) (use ring_gap(2) [of s _ xs "a # ys"] r q nz in simp_all)
  show "get_seg a s = Ok (the (segs s a)) \<and> a \<noteq> head_of q" if q: "Q q = xs @ a # ys"
    using mem_invD(7) [OF inv, of a q] nz mem_invD(2) [OF inv, of q] q by (auto simp: get_seg_def deref_def)
qed

text \<open>Linking and unlinking.\<close>

lemma in_members: "a \<in> members Q \<longleftrightarrow> (\<exists>q. a \<in> set (Q q))"
  by (simp add: members_def)

lemma mem_inv_insert:
  assumes inv: "mem_inv s Q X" and a: "a \<in> X" and q: "Q q = xs @ ys"
    and p: "p = last (head_of q # xs)" and n: "n = hd (ys @ [head_of q])"
    and nx: "\<And>x. nx s' x = (if x = p then Some a else if x = a then Some n else nx s x)"
    and pv: "\<And>x. pv s' x = (if x = n then Some a else if x = a then Some p else pv s x)"
    and segs: "segs s' = segs s" and dom: "dom (nodes s') = dom (nodes s)"
  shows "mem_inv s' (Q(q := xs @ a # ys)) (X - {a})"
proof -
  have pn: "p \<in> set (head_of q # xs)" "n \<in> set (ys @ [head_of q])" unfolding p n by (rule last_in_set hd_in_set; simp)+
  have out: "a \<notin> set (head_of r # Q r)" for r by (rule mem_invD(5) [OF inv a])
  have rq: "ring s' (head_of q) (xs @ a # ys)"
    by (rule ring_insert [OF _ _ _ p n nx pv]) (use mem_invD(1,2) [OF inv, of q] out [of q] q in simp_all)
  have rr: "ring s' (head_of r) (Q r)" if "r \<noteq> q" for r
  proof -
    have "x \<noteq> p \<and> x \<noteq> n \<and> x \<noteq> a" if "x \<in> set (head_of r # Q r)" for x
      using that mem_invD(3) [OF inv \<open>r \<noteq> q\<close>] pn out [of r] q by auto
    then show ?thesis using ring_cong [of "head_of r" "Q r" s' s] mem_invD(1) [OF inv, of r] nx pv by auto
  qed
  have mem: "members (Q(q := xs @ a # ys)) = insert a (members Q)"
  proof (rule set_eqI)
    fix x
    show "x \<in> members (Q(q := xs @ a # ys)) \<longleftrightarrow> x \<in> insert a (members Q)"
      using q by (simp add: in_members) (metis Un_iff set_append)
  qed
  have ring: "ring s' (head_of r) ((Q(q := xs @ a # ys)) r)" for r using rq rr by simp
  have dis: "distinct ((Q(q := xs @ a # ys)) r)" for r
    using mem_invD(2) [OF inv, of r] out [of q] q by auto
  have sep: "set ((Q(q := xs @ a # ys)) r) \<inter> set ((Q(q := xs @ a # ys)) r') = {}" if "r \<noteq> r'" for r r'
    using mem_invD(3) [OF inv that] out [of r] out [of r'] q by auto
  have old: "members Q \<inter> X = {}" "(members Q \<union> X) \<inter> range head_of = {}" "0 \<notin> members Q \<union> X"
    "dom (nodes s) = range head_of \<union> members Q \<union> X" "dom (segs s) = members Q \<union> X"
    using inv unfolding mem_inv_def by blast+
  show ?thesis unfolding mem_inv_def mem dom segs old(4,5)
    using ring dis sep a old(1-3) by (intro conjI allI impI) auto
qed

lemma mem_inv_delete:
  assumes inv: "mem_inv s Q X" and q: "Q q = xs @ a # ys"
    and p: "p = last (head_of q # xs)" and n: "n = hd (ys @ [head_of q])"
    and nx: "\<And>x. x \<noteq> a \<Longrightarrow> nx s' x = (if x = p then Some n else nx s x)"
    and pv: "\<And>x. x \<noteq> a \<Longrightarrow> pv s' x = (if x = n then Some p else pv s x)"
    and segs: "segs s' = segs s" and dom: "dom (nodes s') = dom (nodes s)"
  shows "mem_inv s' (Q(q := xs @ ys)) (insert a X)"
proof -
  have pn: "p \<in> set (head_of q # xs)" "n \<in> set (ys @ [head_of q])" unfolding p n by (rule last_in_set hd_in_set; simp)+
  have d: "distinct (head_of q # xs @ a # ys)" using mem_invD(2) [OF inv, of q] q by simp
  have rq: "ring s' (head_of q) (xs @ ys)"
    by (rule ring_delete [OF _ d p n nx pv]) (use mem_invD(1) [OF inv, of q] q in simp_all)
  have out: "a \<notin> set (head_of r # Q r)" if "r \<noteq> q" for r using mem_invD(3) [OF inv that] q by auto
  have rr: "ring s' (head_of r) (Q r)" if "r \<noteq> q" for r
  proof -
    have "x \<noteq> p \<and> x \<noteq> n \<and> x \<noteq> a" if "x \<in> set (head_of r # Q r)" for x
      using that mem_invD(3) [OF inv \<open>r \<noteq> q\<close>] pn q by auto
    then show ?thesis using ring_cong [of "head_of r" "Q r" s' s] mem_invD(1) [OF inv, of r] nx pv by auto
  qed
  have mem: "members Q = insert a (members (Q(q := xs @ ys)))"
  proof (rule set_eqI)
    fix x
    show "x \<in> members Q \<longleftrightarrow> x \<in> insert a (members (Q(q := xs @ ys)))"
      using q by (simp add: in_members) (metis Un_iff list.set_intros insert_iff list.simps(15) set_append)
  qed
  have away: "a \<notin> members (Q(q := xs @ ys))" using out d by (auto simp: in_members)
  have ring: "ring s' (head_of r) ((Q(q := xs @ ys)) r)" for r using rq rr by simp
  have dis: "distinct ((Q(q := xs @ ys)) r)" for r using mem_invD(2) [OF inv, of r] d by auto
  have sep: "set ((Q(q := xs @ ys)) r) \<inter> set ((Q(q := xs @ ys)) r') = {}" if "r \<noteq> r'" for r r'
    using mem_invD(3) [OF inv that] q by auto
  have old: "members Q \<inter> X = {}" "(members Q \<union> X) \<inter> range head_of = {}" "0 \<notin> members Q \<union> X"
    "dom (nodes s) = range head_of \<union> members Q \<union> X" "dom (segs s) = members Q \<union> X"
    using inv unfolding mem_inv_def by blast+
  show ?thesis unfolding mem_inv_def dom segs old(4,5)
    using ring dis sep old(1-3) away unfolding mem by (intro conjI allI impI) auto
qed

text \<open>What stays the same besides the links.\<close>

definition links_only :: "kmem \<Rightarrow> kmem \<Rightarrow> bool" where
  "links_only s s' \<longleftrightarrow> segs s' = segs s \<and> blk s' = blk s"

lemmas link_defs = iqueue_add_def iqueue_add_tail_def iqueue_del_def iqueue_init_def next_of_def prev_of_def set_next_def
  set_prev_def deref_def

lemma insert_effect:
  assumes a: "nodes s a = Some u" "a \<noteq> 0" and p: "nodes s p = Some (n, pp)" "p \<noteq> 0"
    and n: "nodes s n = Some (nn, p)" "n \<noteq> 0" and ne: "a \<noteq> p" "a \<noteq> n"
  obtains s' where "iqueue_add a p s = Ok s'" and "iqueue_add_tail a n s = Ok s'" and "links_only s s'"
    and "\<And>x. nx s' x = (if x = p then Some a else if x = a then Some n else nx s x)"
    and "\<And>x. pv s' x = (if x = n then Some a else if x = a then Some p else pv s x)"
    and "dom (nodes s') = dom (nodes s)"
proof (cases "p = n")
  case True
  let ?s = "s\<lparr>nodes := (nodes s)(a \<mapsto> (p, p), p \<mapsto> (a, a))\<rparr>"
  have "iqueue_add a p s = Ok ?s" "iqueue_add_tail a n s = Ok ?s"
    using assms True by (simp_all add: link_defs)
  then show ?thesis by (rule that) (use assms True in \<open>auto simp: links_only_def nx_def pv_def\<close>)
next
  case False
  let ?s = "s\<lparr>nodes := (nodes s)(a \<mapsto> (n, p), n \<mapsto> (nn, a), p \<mapsto> (a, pp))\<rparr>"
  have "iqueue_add a p s = Ok ?s" using assms False by (simp add: link_defs)
  moreover have "iqueue_add_tail a n s = Ok ?s" using assms False by (simp add: link_defs fun_upd_twist)
  ultimately show ?thesis by (rule that) (use assms False in \<open>auto simp: links_only_def nx_def pv_def\<close>)
qed

lemma delete_effect:
  assumes a: "nodes s a = Some (n, p)" "a \<noteq> 0" and p: "nodes s p = Some (a, pp)" "p \<noteq> 0"
    and n: "nodes s n = Some (nn, a)" "n \<noteq> 0" and ne: "a \<noteq> p" "a \<noteq> n"
  obtains s' where "iqueue_del a s = Ok s'" and "links_only s s'"
    and "\<And>x. x \<noteq> a \<Longrightarrow> nx s' x = (if x = p then Some n else nx s x)"
    and "\<And>x. x \<noteq> a \<Longrightarrow> pv s' x = (if x = n then Some p else pv s x)"
    and "dom (nodes s') = dom (nodes s)"
proof (cases "p = n")
  case True
  let ?s = "s\<lparr>nodes := (nodes s)(p \<mapsto> (p, p), a \<mapsto> (0, 0))\<rparr>"
  have "iqueue_del a s = Ok ?s" using assms True by (simp add: link_defs)
  then show ?thesis by (rule that) (use assms True in \<open>auto simp: links_only_def nx_def pv_def\<close>)
next
  case False
  let ?s = "s\<lparr>nodes := (nodes s)(n \<mapsto> (nn, p), p \<mapsto> (n, pp), a \<mapsto> (0, 0))\<rparr>"
  have "iqueue_del a s = Ok ?s" using assms False by (simp add: link_defs)
  then show ?thesis by (rule that) (use assms False in \<open>auto simp: links_only_def nx_def pv_def\<close>)
qed

text \<open>The neighbours of a place in a queue.\<close>

lemma gap_nodes:
  assumes inv: "mem_inv s Q X" and q: "Q q = xs @ ys" and p: "p = last (head_of q # xs)" and n: "n = hd (ys @ [head_of q])"
  obtains pp nn where "nodes s p = Some (n, pp)" and "p \<noteq> 0" and "nodes s n = Some (nn, p)" and "n \<noteq> 0"
    and "p \<in> set (head_of q # Q q)" and "n \<in> set (head_of q # Q q)"
proof -
  have "p \<in> set (head_of q # xs)" "n \<in> set (ys @ [head_of q])" unfolding p n by (rule last_in_set hd_in_set; simp)+
  then have pn: "p \<in> set (head_of q # Q q)" "n \<in> set (head_of q # Q q)" using q by auto
  have "nx s p = Some n" "pv s n = Some p" using ring_gap [of s _ xs ys] mem_invD(1) [OF inv, of q] q p n by simp_all
  then show ?thesis using that pn mem_invD(6) [OF inv, of p q] mem_invD(6) [OF inv, of n q]
    by (auto simp: nx_def pv_def)
qed

lemma iqueue_add_ok:
  assumes inv: "mem_inv s Q X" and a: "a \<in> X" and q: "Q q = xs @ ys" and p: "p = last (head_of q # xs)"
  obtains s' where "iqueue_add a p s = Ok s'" and "mem_inv s' (Q(q := xs @ a # ys)) (X - {a})" and "links_only s s'"
proof -
  obtain pp nn where g: "nodes s p = Some (hd (ys @ [head_of q]), pp)" "p \<noteq> 0" "nodes s (hd (ys @ [head_of q])) = Some (nn, p)"
    "hd (ys @ [head_of q]) \<noteq> 0" "p \<in> set (head_of q # Q q)" "hd (ys @ [head_of q]) \<in> set (head_of q # Q q)"
    using gap_nodes [OF inv q p refl] by metis
  obtain u where u: "nodes s a = Some u" "a \<noteq> 0" using mem_invD(6) [OF inv, of a q] a by auto
  have ne: "a \<noteq> p" "a \<noteq> hd (ys @ [head_of q])" using mem_invD(5) [OF inv a, of q] g(5,6) by blast+
  obtain s' where s': "iqueue_add a p s = Ok s'" "iqueue_add_tail a (hd (ys @ [head_of q])) s = Ok s'" "links_only s s'"
    "\<And>x. nx s' x = (if x = p then Some a else if x = a then Some (hd (ys @ [head_of q])) else nx s x)"
    "\<And>x. pv s' x = (if x = hd (ys @ [head_of q]) then Some a else if x = a then Some p else pv s x)"
    "dom (nodes s') = dom (nodes s)"
    by (rule insert_effect [OF u g(1-4) ne]) (rule that)
  show ?thesis by (rule that [OF s'(1) mem_inv_insert [OF inv a q p refl s'(4,5) _ s'(6)] s'(3)]) (use s'(3) in \<open>simp add: links_only_def\<close>)
qed

lemma iqueue_add_tail_ok:
  assumes inv: "mem_inv s Q X" and a: "a \<in> X"
  obtains s' where "iqueue_add_tail a (head_of q) s = Ok s'" and "mem_inv s' (Q(q := Q q @ [a])) (X - {a})" and "links_only s s'"
proof -
  let ?p = "last (head_of q # Q q)"
  obtain pp nn where g: "nodes s ?p = Some (head_of q, pp)" "?p \<noteq> 0" "nodes s (head_of q) = Some (nn, ?p)" "head_of q \<noteq> 0"
    "?p \<in> set (head_of q # Q q)"
    using gap_nodes [OF inv, of q "Q q" "[]" ?p "head_of q"] by auto
  obtain u where u: "nodes s a = Some u" "a \<noteq> 0" using mem_invD(6) [OF inv, of a q] a by auto
  have ne: "a \<noteq> ?p" "a \<noteq> head_of q" using mem_invD(5) [OF inv a, of q] g(5) by auto
  obtain s' where s': "iqueue_add a ?p s = Ok s'" "iqueue_add_tail a (head_of q) s = Ok s'" "links_only s s'"
    "\<And>x. nx s' x = (if x = ?p then Some a else if x = a then Some (head_of q) else nx s x)"
    "\<And>x. pv s' x = (if x = head_of q then Some a else if x = a then Some ?p else pv s x)"
    "dom (nodes s') = dom (nodes s)"
    by (rule insert_effect [OF u g(1-4) ne]) (rule that)
  have "mem_inv s' (Q(q := Q q @ a # [])) (X - {a})"
    by (rule mem_inv_insert [OF inv a, where p = ?p and n = "head_of q"]) (use s' in \<open>simp_all add: links_only_def\<close>)
  then show ?thesis using that s'(2,3) by simp
qed

lemma iqueue_del_ok:
  assumes inv: "mem_inv s Q X" and q: "Q q = xs @ a # ys"
  obtains s' where "iqueue_del a s = Ok s'" and "mem_inv s' (Q(q := xs @ ys)) (insert a X)" and "links_only s s'"
proof -
  let ?p = "last (head_of q # xs)" and ?n = "hd (ys @ [head_of q])"
  have d: "distinct (head_of q # xs @ a # ys)" using mem_invD(2) [OF inv, of q] q by simp
  have "?p \<in> set (head_of q # xs)" "?n \<in> set (ys @ [head_of q])" by (rule last_in_set hd_in_set; simp)+
  then have ne: "a \<noteq> ?p" "a \<noteq> ?n" using d by auto
  obtain pp where p: "nodes s ?p = Some (a, pp)" "?p \<noteq> 0" and a1: "pv s a = Some ?p"
    using gap_nodes [OF inv, of q xs "a # ys" ?p a] q by (force simp: pv_def)
  obtain nn where n: "nodes s ?n = Some (nn, a)" "?n \<noteq> 0" and a2: "nx s a = Some ?n" "a \<noteq> 0"
    using gap_nodes [OF inv, of q "xs @ [a]" ys a ?n] q by (force simp: nx_def)
  have a: "nodes s a = Some (?n, ?p)" using a1 a2 by (auto simp: nx_def pv_def)
  obtain s' where s': "iqueue_del a s = Ok s'" "links_only s s'"
    "\<And>x. x \<noteq> a \<Longrightarrow> nx s' x = (if x = ?p then Some ?n else nx s x)" "\<And>x. x \<noteq> a \<Longrightarrow> pv s' x = (if x = ?n then Some ?p else pv s x)"
    "dom (nodes s') = dom (nodes s)"
    by (rule delete_effect [OF a a2(2) p n ne]) (rule that)
  show ?thesis
    by (rule that [OF s'(1) mem_inv_delete [OF inv q refl refl s'(3,4) _ s'(5)] s'(2)]) (use s'(2) in \<open>simp_all add: links_only_def\<close>)
qed

section \<open>Segments\<close>

text \<open>What is assumed of \<open>malloc\<close>: it returns null or memory that is not in use.\<close>

definition allocates :: "(kmem \<Rightarrow> nat) \<Rightarrow> bool" where
  "allocates malloc \<longleftrightarrow> (\<forall>s. finite (dom (nodes s)) \<longrightarrow> malloc s = 0 \<or> nodes s (malloc s) = None)"

lemma UNIV_queue_id: "UNIV = {SndQueue, RcvQueue, SndBuf, RcvBuf}"
  using queue_id.exhaust by blast

lemma mem_inv_doms:
  assumes "mem_inv s Q X"
  shows "dom (nodes s) = range head_of \<union> members Q \<union> X" and "dom (segs s) = members Q \<union> X"
  using assms unfolding mem_inv_def by simp_all

lemma mem_inv_transfer:
  assumes "mem_inv s Q X" and "X' \<subseteq> X \<union> Y" and "Y \<inter> (members Q \<union> X \<union> range head_of) = {}" and "0 \<notin> Y"
    and "\<And>x. x \<in> range head_of \<union> members Q \<Longrightarrow> nodes s' x = nodes s x"
    and "dom (nodes s') = range head_of \<union> members Q \<union> X'" and "dom (segs s') = members Q \<union> X'"
  shows "mem_inv s' Q X'"
proof -
  have "ring s' (head_of q) (Q q)" for q
  proof -
    have "nx s' x = nx s x \<and> pv s' x = pv s x" if "x \<in> set (head_of q # Q q)" for x
    proof -
      have "x \<in> range head_of \<union> members Q" using that by (auto simp: in_members)
      from assms(5) [OF this] show ?thesis by (simp add: nx_def pv_def)
    qed
    then show ?thesis using ring_cong [of "head_of q" "Q q" s' s] mem_invD(1) [OF assms(1), of q] by blast
  qed
  moreover have "(\<forall>q. distinct (Q q)) \<and> (\<forall>q r. q \<noteq> r \<longrightarrow> set (Q q) \<inter> set (Q r) = {})" "members Q \<inter> X = {}"
    "(members Q \<union> X) \<inter> range head_of = {}" "0 \<notin> members Q \<union> X"
    using assms(1) unfolding mem_inv_def by simp_all
  moreover from this(2-) have "members Q \<inter> X' = {}" "(members Q \<union> X') \<inter> range head_of = {}" "0 \<notin> members Q \<union> X'"
    using assms(2-4) by blast+
  ultimately show ?thesis unfolding mem_inv_def using assms(6,7) by simp
qed

lemma segment_new_ok:
  assumes inv: "mem_inv s Q X" and X: "finite X" and m: "allocates malloc" and a0: "malloc s \<noteq> 0"
  obtains a s' where "ikcp_segment_new malloc x s = (a, s')" and "mem_inv s' Q (insert a X)" and "segs s' = (segs s)(a \<mapsto> x)"
    and "blk s' = blk s" and "a \<notin> members Q \<union> X" and "a \<noteq> 0"
proof -
  have "finite (members Q)" "finite (range head_of)" by (simp_all add: members_def UNIV_queue_id)
  then have "finite (dom (nodes s))" using X mem_inv_doms(1) [OF inv] by simp
  then have a: "malloc s \<noteq> 0" "nodes s (malloc s) = None" using m a0 by (auto simp: allocates_def)
  then have new: "malloc s \<notin> range head_of \<union> members Q \<union> X" using mem_inv_doms(1) [OF inv] by blast
  let ?s = "s\<lparr>nodes := (nodes s)(malloc s \<mapsto> (0, 0)), segs := (segs s)(malloc s \<mapsto> x)\<rparr>"
  have "mem_inv ?s Q (insert (malloc s) X)"
    by (rule mem_inv_transfer [OF inv, of _ "{malloc s}"])
      (use new a(1) mem_inv_doms [OF inv] in auto)
  then show ?thesis using that [of "malloc s" ?s] new a0 by (simp add: ikcp_segment_new_def Let_def)
qed

lemma segment_delete_ok:
  assumes inv: "mem_inv s Q X" and a: "a \<in> X"
  obtains s' where "ikcp_segment_delete a s = Ok s'" and "mem_inv s' Q (X - {a})" and "segs s' = (segs s)(a := None)"
    and "blk s' = blk s"
proof -
  have ok: "a \<noteq> 0" "segs s a \<noteq> None" using mem_invD(6,7) [OF inv, of a] a by auto
  have out: "a \<notin> members Q" "a \<notin> range head_of" using mem_invD(5) [OF inv a] by (auto simp: in_members)
  let ?s = "s\<lparr>nodes := (nodes s)(a := None), segs := (segs s)(a := None)\<rparr>"
  have "mem_inv ?s Q (X - {a})"
    by (rule mem_inv_transfer [OF inv, of _ "{}"]) (use out a mem_inv_doms [OF inv] in auto)
  then show ?thesis using that [of ?s] ok by (auto simp: ikcp_segment_delete_def deref_def)
qed

lemma iqueue_init_ok:
  assumes inv: "mem_inv s Q X" and a: "a \<in> X"
  obtains s' where "iqueue_init a s = Ok s'" and "mem_inv s' Q X" and "links_only s s'"
proof -
  have ok: "a \<noteq> 0" "nodes s a \<noteq> None" using mem_invD(6) [OF inv, of a] a by auto
  have out: "a \<notin> members Q" "a \<notin> range head_of" using mem_invD(5) [OF inv a] by (auto simp: in_members)
  let ?s = "s\<lparr>nodes := (nodes s)(a \<mapsto> (a, a))\<rparr>"
  have "mem_inv ?s Q X"
    by (rule mem_inv_transfer [OF inv, of _ "{}"]) (use out a mem_inv_doms [OF inv] in auto)
  then show ?thesis using that [of ?s] ok by (auto simp: link_defs links_only_def)
qed

lemma put_seg_ok:
  assumes inv: "mem_inv s Q X" and a: "a \<in> set (Q q) \<union> X"
  shows "put_seg a x s = Ok (s\<lparr>segs := (segs s)(a \<mapsto> x)\<rparr>)" and "mem_inv (s\<lparr>segs := (segs s)(a \<mapsto> x)\<rparr>) Q X"
proof -
  have ok: "a \<noteq> 0" "segs s a \<noteq> None" using mem_invD(6,7) [OF inv, of a q] a by auto
  then show "put_seg a x s = Ok (s\<lparr>segs := (segs s)(a \<mapsto> x)\<rparr>)" by (auto simp: put_seg_def deref_def)
  have "a \<in> members Q \<union> X" using a by (auto simp: in_members)
  then show "mem_inv (s\<lparr>segs := (segs s)(a \<mapsto> x)\<rparr>) Q X"
    by (intro mem_inv_transfer [OF inv, of _ "{}"]) (use mem_inv_doms [OF inv] in auto)
qed

end
