(* ===== verification/KcpPointers.thy ===== *)
theory KcpPointers
  imports KcpHeap
begin

text \<open>
  The loops of \<open>third/ikcp.cpp\<close> over the queues in memory, pointer by pointer, and the proof that they compute
  what theory \<open>Kcp\<close> says of lists. A loop that would not end gives \<open>None\<close>.
\<close>

section \<open>Loops\<close>

definition then_do :: "'a res \<Rightarrow> ('a \<Rightarrow> 'b res option) \<Rightarrow> 'b res option" where
  "then_do m k = (case m of Inl e \<Rightarrow> Some (Inl e) | Inr x \<Rightarrow> k x)"

definition after :: "'a res option \<Rightarrow> ('a \<Rightarrow> 'b res option) \<Rightarrow> 'b res option" where
  "after m k = (case m of None \<Rightarrow> None | Some r \<Rightarrow> then_do r k)"

lemma then_do_simps [simp]: "then_do (Ok x) k = k x" "then_do (Fail e) k = Some (Fail e)" "after (Some r) k = then_do r k"
  by (simp_all add: then_do_def after_def)

lemma then_do_mono [partial_function_mono]:
  assumes "\<And>x. mono_option (\<lambda>f. k f x)"
  shows "mono_option (\<lambda>f. then_do m (\<lambda>x. k f x))"
  using assms by (cases m) (simp_all add: then_do_def monotone_def flat_ord_def)

definition on_blk :: "(ikcpcb \<Rightarrow> ikcpcb) \<Rightarrow> kmem \<Rightarrow> kmem" where
  "on_blk f s = s\<lparr>blk := f (blk s)\<rparr>"

text \<open>\<open>ikcp_shrink_buf\<close>.\<close>

definition m_shrink_buf :: "kmem \<Rightarrow> kmem res" where
  "m_shrink_buf s = bindR (next_of (head_of SndBuf) s) (\<lambda>p.
     if p \<noteq> head_of SndBuf then bindR (get_seg p s) (\<lambda>seg. Ok (on_blk (\<lambda>k. k\<lparr>snd_una := s_sn seg\<rparr>) s))
     else Ok (on_blk (\<lambda>k. k\<lparr>snd_una := snd_nxt k\<rparr>) s))"

text \<open>\<open>ikcp_parse_ack\<close>.\<close>

partial_function (option) ack_loop :: "u32 \<Rightarrow> nat \<Rightarrow> kmem \<Rightarrow> kmem res option" where
  "ack_loop sn p s =
     (if p = head_of SndBuf then Some (Ok s)
      else then_do (get_seg p s) (\<lambda>seg. then_do (next_of p s) (\<lambda>next.
        if sn = s_sn seg then
          then_do (iqueue_del p s) (\<lambda>s1. then_do (ikcp_segment_delete p s1) (\<lambda>s2.
            Some (Ok (on_blk (\<lambda>k. k\<lparr>nsnd_buf := nsnd_buf k - 1\<rparr>) s2))))
        else if itimediff sn (s_sn seg) < 0 then Some (Ok s)
        else ack_loop sn next s)))"

definition m_parse_ack :: "u32 \<Rightarrow> kmem \<Rightarrow> kmem res option" where
  "m_parse_ack sn s =
     (if \<not> acceptable_ack sn (blk s) then Some (Ok s)
      else then_do (next_of (head_of SndBuf) s) (\<lambda>p. ack_loop sn p s))"

text \<open>\<open>ikcp_parse_una\<close>.\<close>

partial_function (option) una_loop :: "u32 \<Rightarrow> nat \<Rightarrow> kmem \<Rightarrow> kmem res option" where
  "una_loop una p s =
     (if p = head_of SndBuf then Some (Ok s)
      else then_do (get_seg p s) (\<lambda>seg. then_do (next_of p s) (\<lambda>next.
        if 0 < itimediff una (s_sn seg) then
          then_do (iqueue_del p s) (\<lambda>s1. then_do (ikcp_segment_delete p s1) (\<lambda>s2.
            una_loop una next (on_blk (\<lambda>k. k\<lparr>nsnd_buf := nsnd_buf k - 1\<rparr>) s2)))
        else Some (Ok s))))"

definition m_parse_una :: "u32 \<Rightarrow> kmem \<Rightarrow> kmem res option" where
  "m_parse_una una s = then_do (next_of (head_of SndBuf) s) (\<lambda>p. una_loop una p s)"

text \<open>\<open>ikcp_parse_fastack\<close>.\<close>

partial_function (option) fastack_loop :: "u32 \<Rightarrow> nat \<Rightarrow> kmem \<Rightarrow> kmem res option" where
  "fastack_loop sn p s =
     (if p = head_of SndBuf then Some (Ok s)
      else then_do (get_seg p s) (\<lambda>seg. then_do (next_of p s) (\<lambda>next.
        if itimediff sn (s_sn seg) < 0 then Some (Ok s)
        else if sn \<noteq> s_sn seg then
          then_do (put_seg p (seg\<lparr>s_fastack := s_fastack seg + 1\<rparr>) s) (\<lambda>s1. fastack_loop sn next s1)
        else fastack_loop sn next s)))"

definition m_parse_fastack :: "u32 \<Rightarrow> kmem \<Rightarrow> kmem res option" where
  "m_parse_fastack sn s =
     (if \<not> acceptable_ack sn (blk s) then Some (Ok s)
      else then_do (next_of (head_of SndBuf) s) (\<lambda>p. fastack_loop sn p s))"

text \<open>Moving what is in order from \<open>rcv_buf\<close> to \<open>rcv_queue\<close> (\<open>ikcp_recv\<close>, \<open>ikcp_parse_data\<close>).\<close>

partial_function (option) m_move_ready :: "kmem \<Rightarrow> kmem res option" where
  "m_move_ready s = then_do (iqueue_is_empty (head_of RcvBuf) s) (\<lambda>empty.
     if empty then Some (Ok s)
     else then_do (next_of (head_of RcvBuf) s) (\<lambda>p. then_do (get_seg p s) (\<lambda>seg.
       if s_sn seg = rcv_nxt (blk s) \<and> nrcv_que (blk s) < unat (rcv_wnd (blk s)) then
         then_do (iqueue_del p s) (\<lambda>s1.
         then_do (iqueue_add_tail p (head_of RcvQueue) (on_blk (\<lambda>k. k\<lparr>nrcv_buf := nrcv_buf k - 1\<rparr>) s1)) (\<lambda>s2.
           m_move_ready (on_blk (\<lambda>k. k\<lparr>nrcv_que := nrcv_que k + 1, rcv_nxt := rcv_nxt k + 1\<rparr>) s2)))
       else Some (Ok s))))"

text \<open>\<open>ikcp_parse_data\<close>: the place from the end, whether the number is there; \<open>a\<close> is \<open>newseg\<close>.\<close>

partial_function (option) place_loop :: "u32 \<Rightarrow> nat \<Rightarrow> kmem \<Rightarrow> (bool \<times> nat) res option" where
  "place_loop sn p s =
     (if p = head_of RcvBuf then Some (Ok (False, p))
      else then_do (get_seg p s) (\<lambda>seg. then_do (prev_of p s) (\<lambda>prev.
        if s_sn seg = sn then Some (Ok (True, p))
        else if 0 < itimediff sn (s_sn seg) then Some (Ok (False, p))
        else place_loop sn prev s)))"

definition m_parse_data :: "nat \<Rightarrow> kmem \<Rightarrow> kmem res option" where
  "m_parse_data a s = then_do (get_seg a s) (\<lambda>new.
     let sn = s_sn new in
     if itimediff sn (rcv_nxt (blk s) + rcv_wnd (blk s)) \<ge> 0 \<or> itimediff sn (rcv_nxt (blk s)) < 0
     then Some (ikcp_segment_delete a s)
     else then_do (prev_of (head_of RcvBuf) s) (\<lambda>p0. after (place_loop sn p0 s) (\<lambda>(repeat, p).
       then_do (if repeat then ikcp_segment_delete a s
                else bindR (iqueue_init a s) (\<lambda>s1. bindR (iqueue_add a p s1) (\<lambda>s2.
                  Ok (on_blk (\<lambda>k. k\<lparr>nrcv_buf := nrcv_buf k + 1\<rparr>) s2)))) m_move_ready)))"

text \<open>\<open>ikcp_flush\<close>: moving segments from \<open>snd_queue\<close> to \<open>snd_buf\<close>; \<open>wnd\<close> is its \<open>cwnd\<close>.\<close>

partial_function (option) m_move_to_buf :: "u32 \<Rightarrow> kmem \<Rightarrow> kmem res option" where
  "m_move_to_buf wnd s =
     (if itimediff (snd_nxt (blk s)) (snd_una (blk s) + wnd) < 0 then
        then_do (iqueue_is_empty (head_of SndQueue) s) (\<lambda>empty.
        if empty then Some (Ok s)
        else then_do (next_of (head_of SndQueue) s) (\<lambda>p.
          then_do (iqueue_del p s) (\<lambda>s1. then_do (iqueue_add_tail p (head_of SndBuf) s1) (\<lambda>s2.
          then_do (get_seg p s2) (\<lambda>seg. then_do (put_seg p (numbered_seg (blk s2) seg) s2) (\<lambda>s3.
            m_move_to_buf wnd (on_blk (\<lambda>k. k\<lparr>nsnd_que := nsnd_que k - 1, nsnd_buf := nsnd_buf k + 1,
              snd_nxt := snd_nxt k + 1\<rparr>) s3)))))))
      else Some (Ok s))"

text \<open>\<open>ikcp_release\<close>: a queue is emptied.\<close>

partial_function (option) drain :: "nat \<Rightarrow> kmem \<Rightarrow> kmem res option" where
  "drain h s = then_do (iqueue_is_empty h s) (\<lambda>empty.
     if empty then Some (Ok s)
     else then_do (next_of h s) (\<lambda>p. then_do (iqueue_del p s) (\<lambda>s1. then_do (ikcp_segment_delete p s1) (\<lambda>s2. drain h s2))))"

definition m_release :: "kmem \<Rightarrow> kmem res option" where
  "m_release s = after (drain (head_of SndBuf) s) (\<lambda>s1. after (drain (head_of RcvBuf) s1) (\<lambda>s2.
     after (drain (head_of SndQueue) s2) (\<lambda>s3. after (drain (head_of RcvQueue) s3) (\<lambda>s4.
       Some (Ok (on_blk (\<lambda>k. k\<lparr>nrcv_buf := 0, nsnd_buf := 0, nrcv_que := 0, nsnd_que := 0, ackcount := 0, kbuffer := 0,
         acklist := []\<rparr>) s4))))))"

section \<open>What the memory stands for\<close>

definition contents :: "kmem \<Rightarrow> nat list \<Rightarrow> kseg list" where
  "contents s ns = map (\<lambda>a. the (segs s a)) ns"

definition as_lists :: "kmem \<Rightarrow> (queue_id \<Rightarrow> nat list) \<Rightarrow> ikcpcb" where
  "as_lists s Q = (blk s)\<lparr>snd_queue := contents s (Q SndQueue), rcv_queue := contents s (Q RcvQueue),
     snd_buf := contents s (Q SndBuf), rcv_buf := contents s (Q RcvBuf)\<rparr>"

definition stands_for :: "kmem \<Rightarrow> ikcpcb \<Rightarrow> bool" where
  "stands_for s k \<longleftrightarrow> (\<exists>Q. mem_inv s Q {} \<and> k = as_lists s Q)"

lemma as_lists_sels: "snd_queue (as_lists s Q) = contents s (Q SndQueue)" "rcv_queue (as_lists s Q) = contents s (Q RcvQueue)"
  "snd_buf (as_lists s Q) = contents s (Q SndBuf)" "rcv_buf (as_lists s Q) = contents s (Q RcvBuf)"
  "nsnd_que (as_lists s Q) = nsnd_que (blk s)" "nrcv_que (as_lists s Q) = nrcv_que (blk s)"
  "nsnd_buf (as_lists s Q) = nsnd_buf (blk s)" "nrcv_buf (as_lists s Q) = nrcv_buf (blk s)"
  "snd_una (as_lists s Q) = snd_una (blk s)" "snd_nxt (as_lists s Q) = snd_nxt (blk s)"
  "rcv_nxt (as_lists s Q) = rcv_nxt (blk s)" "rcv_wnd (as_lists s Q) = rcv_wnd (blk s)"
  "kmss (as_lists s Q) = kmss (blk s)" "kstream (as_lists s Q) = kstream (blk s)"
  by (simp_all add: as_lists_def)

lemma stands_forI: "mem_inv s Q {} \<Longrightarrow> as_lists s Q = k \<Longrightarrow> stands_for s k"
  unfolding stands_for_def by blast

lemma contents_simps [simp]: "contents s [] = []" "contents s (a # ns) = the (segs s a) # contents s ns"
  "contents s (xs @ ys) = contents s xs @ contents s ys" "contents (on_blk f s) ns = contents s ns"
  by (simp_all add: contents_def on_blk_def)

lemma contents_cong: "(\<And>a. a \<in> set ns \<Longrightarrow> segs s' a = segs s a) \<Longrightarrow> contents s' ns = contents s ns"
  by (simp add: contents_def)

lemma links_contents: "links_only s s' \<Longrightarrow> contents s' ns = contents s ns" "links_only s s' \<Longrightarrow> blk s' = blk s"
  by (simp_all add: contents_def links_only_def)

lemma on_blk_simps [simp]: "blk (on_blk f s) = f (blk s)" "segs (on_blk f s) = segs s" "nodes (on_blk f s) = nodes s"
  by (simp_all add: on_blk_def)

lemma on_blk_inv [simp]: "mem_inv (on_blk f s) Q X = mem_inv s Q X"
proof -
  have eq: "nx (on_blk f s) = nx s" "pv (on_blk f s) = pv s" by (simp_all add: fun_eq_iff nx_def pv_def)
  show ?thesis unfolding mem_inv_def ring_def on_blk_simps eq by (rule refl)
qed

text \<open>A segment leaves its queue and is deleted.\<close>

lemma unlink_ok:
  assumes inv: "mem_inv s Q {}" and q: "Q q = xs @ a # ys"
  obtains s1 s2 where "iqueue_del a s = Ok s1" and "ikcp_segment_delete a s1 = Ok s2" and "mem_inv s2 (Q(q := xs @ ys)) {}"
    and "\<And>r. contents s2 ((Q(q := xs @ ys)) r) = contents s ((Q(q := xs @ ys)) r)" and "blk s2 = blk s"
proof -
  obtain s1 where s1: "iqueue_del a s = Ok s1" "mem_inv s1 (Q(q := xs @ ys)) (insert a {})" "links_only s s1"
    by (rule iqueue_del_ok [OF inv q])
  obtain s2 where s2: "ikcp_segment_delete a s1 = Ok s2" "mem_inv s2 (Q(q := xs @ ys)) (insert a {} - {a})"
    "segs s2 = (segs s1)(a := None)" "blk s2 = blk s1"
    by (rule segment_delete_ok [OF s1(2), of a]) (simp, rule that)
  have "a \<notin> set ((Q(q := xs @ ys)) r)" for r using mem_invD(5) [OF s1(2), of a r] by simp
  moreover have "segs s2 = (segs s)(a := None)" using s2(3) s1(3) by (simp add: links_only_def)
  ultimately have "contents s2 ns = contents s ns" if "ns = (Q(q := xs @ ys)) r" for r ns
    unfolding that by (intro contents_cong) (metis fun_upd_other)
  then show ?thesis using that [OF s1(1) s2(1)] s2(2,4) s1(3) by (simp add: links_only_def)
qed

lemma una_loop_ok:
  assumes "mem_inv s Q {}"
  shows "\<exists>s' Q'. una_loop una (hd (Q SndBuf @ [head_of SndBuf])) s = Some (Ok s') \<and> mem_inv s' Q' {}
    \<and> as_lists s' Q' = ikcp_parse_una una (as_lists s Q)"
  using assms
proof (induction "Q SndBuf" arbitrary: s Q)
  case Nil
  then show ?case
    by (intro exI [of _ s] exI [of _ Q]) (simp add: una_loop.simps ikcp_parse_una.simps as_lists_def flip: Nil(1))
next
  case (Cons p ns)
  have q: "Q SndBuf = [] @ p # ns" using Cons(2) by simp
  note w = walk(4,6) [OF Cons.prems q]
  let ?seg = "the (segs s p)"
  have list: "ikcp_parse_una una (as_lists s Q) = (if 0 < itimediff una (s_sn ?seg)
      then ikcp_parse_una una ((as_lists s Q)\<lparr>snd_buf := contents s ns, nsnd_buf := nsnd_buf (blk s) - 1\<rparr>) else as_lists s Q)"
    using q by (subst ikcp_parse_una.simps) (simp add: as_lists_def)
  show ?case
  proof (cases "0 < itimediff una (s_sn ?seg)")
    case False
    then show ?thesis using w q Cons.prems by (intro exI [of _ s] exI [of _ Q]) (simp add: una_loop.simps list)
  next
    case True
    obtain s1 s2 where s: "iqueue_del p s = Ok s1" "ikcp_segment_delete p s1 = Ok s2" "mem_inv s2 (Q(SndBuf := [] @ ns)) {}"
      "\<And>r. contents s2 ((Q(SndBuf := [] @ ns)) r) = contents s ((Q(SndBuf := [] @ ns)) r)" "blk s2 = blk s"
      by (rule unlink_ok [OF Cons.prems q]) (rule that)
    let ?s = "on_blk (\<lambda>k. k\<lparr>nsnd_buf := nsnd_buf k - 1\<rparr>) s2" and ?Q = "Q(SndBuf := ns)"
    have "as_lists ?s ?Q = (as_lists s Q)\<lparr>snd_buf := contents s ns, nsnd_buf := nsnd_buf (blk s) - 1\<rparr>"
      using s(4) [of SndQueue] s(4) [of RcvQueue] s(4) [of SndBuf] s(4) [of RcvBuf] s(5) by (simp add: as_lists_def)
    moreover have "mem_inv ?s ?Q {}" using s(3) by simp
    ultimately show ?thesis
      using Cons(1) [of ?Q ?s] True w s(1,2) q by (simp add: una_loop.simps [of una p s] list)
  qed
qed

lemma m_parse_una_ok:
  assumes "stands_for s k"
  shows "\<exists>s'. m_parse_una una s = Some (Ok s') \<and> stands_for s' (ikcp_parse_una una k)"
proof -
  obtain Q where Q: "mem_inv s Q {}" "k = as_lists s Q" using assms by (auto simp: stands_for_def)
  show ?thesis using una_loop_ok [OF Q(1), of una] walk(1) [OF Q(1), of SndBuf] Q(2)
    by (auto simp: m_parse_una_def intro: stands_forI)
qed

lemma m_shrink_buf_ok:
  assumes "stands_for s k"
  shows "\<exists>s'. m_shrink_buf s = Ok s' \<and> stands_for s' (ikcp_shrink_buf k)"
proof -
  obtain Q where Q: "mem_inv s Q {}" "k = as_lists s Q" using assms by (auto simp: stands_for_def)
  let ?s = "on_blk (\<lambda>k. k\<lparr>snd_una := (case contents s (Q SndBuf) of [] \<Rightarrow> snd_nxt k | seg # ss \<Rightarrow> s_sn seg)\<rparr>) s"
  have "m_shrink_buf s = Ok ?s"
    using walk(1) [OF Q(1), of SndBuf] walk(6) [OF Q(1), of SndBuf "[]"] by (cases "Q SndBuf") (auto simp: m_shrink_buf_def)
  moreover have "as_lists ?s Q = ikcp_shrink_buf k" by (simp add: Q(2) as_lists_def ikcp_shrink_buf_def split: list.split)
  ultimately show ?thesis using Q(1) by (auto simp: stands_for_def intro!: exI [of _ Q])
qed

lemma ack_loop_ok:
  assumes inv: "mem_inv s Q {}" and q: "Q SndBuf = xs @ ns"
  shows "\<exists>s' Q'. ack_loop sn (hd (ns @ [head_of SndBuf])) s = Some (Ok s') \<and> mem_inv s' Q' {}
    \<and> as_lists s' Q' = (let (found, rest) = delete_acked sn (contents s ns)
        in (as_lists s Q)\<lparr>snd_buf := contents s xs @ rest, nsnd_buf := (if found then nsnd_buf (blk s) - 1 else nsnd_buf (blk s))\<rparr>)"
  using q
proof (induction ns arbitrary: xs)
  case Nil
  then show ?case using inv by (intro exI [of _ s] exI [of _ Q]) (simp add: ack_loop.simps as_lists_def)
next
  case (Cons p ns)
  note w = walk(4,6) [OF inv Cons.prems]
  let ?seg = "the (segs s p)"
  consider "sn = s_sn ?seg" | "sn \<noteq> s_sn ?seg" "itimediff sn (s_sn ?seg) < 0" | "sn \<noteq> s_sn ?seg" "\<not> itimediff sn (s_sn ?seg) < 0"
    by blast
  then show ?case
  proof cases
    case 1
    obtain s1 s2 where s: "iqueue_del p s = Ok s1" "ikcp_segment_delete p s1 = Ok s2" "mem_inv s2 (Q(SndBuf := xs @ ns)) {}"
      "\<And>r. contents s2 ((Q(SndBuf := xs @ ns)) r) = contents s ((Q(SndBuf := xs @ ns)) r)" "blk s2 = blk s"
      by (rule unlink_ok [OF inv Cons.prems]) (rule that)
    let ?s = "on_blk (\<lambda>k. k\<lparr>nsnd_buf := nsnd_buf k - 1\<rparr>) s2" and ?Q = "Q(SndBuf := xs @ ns)"
    have "as_lists ?s ?Q = (as_lists s Q)\<lparr>snd_buf := contents s xs @ contents s ns, nsnd_buf := nsnd_buf (blk s) - 1\<rparr>"
      using s(4) [of SndQueue] s(4) [of RcvQueue] s(4) [of SndBuf] s(4) [of RcvBuf] s(5) by (simp add: as_lists_def)
    moreover have "mem_inv ?s ?Q {}" using s(3) by simp
    moreover have "ack_loop sn (hd ((p # ns) @ [head_of SndBuf])) s = Some (Ok ?s)"
      using 1 w s(1,2) by (simp add: ack_loop.simps)
    ultimately show ?thesis using 1 by (intro exI [of _ ?s] exI [of _ ?Q]) (simp del: fun_upd_apply)
  next
    case 2
    then show ?thesis using w inv Cons.prems
      by (intro exI [of _ s] exI [of _ Q]) (simp add: ack_loop.simps [of sn p s] as_lists_def)
  next
    case 3
    have "ack_loop sn p s = ack_loop sn (hd (ns @ [head_of SndBuf])) s" using 3 w by (simp add: ack_loop.simps [of sn p s])
    moreover have "Q SndBuf = (xs @ [p]) @ ns" using Cons.prems by simp
    note Cons.IH [OF this]
    ultimately show ?thesis using 3 by (simp add: case_prod_unfold Let_def)
  qed
qed

lemma m_parse_ack_ok:
  assumes "stands_for s k"
  shows "\<exists>s'. m_parse_ack sn s = Some (Ok s') \<and> stands_for s' (ikcp_parse_ack sn k)"
proof -
  obtain Q where Q: "mem_inv s Q {}" "k = as_lists s Q" using assms by (auto simp: stands_for_def)
  have eq: "acceptable_ack sn k = acceptable_ack sn (blk s)" "snd_buf k = contents s (Q SndBuf)" "nsnd_buf k = nsnd_buf (blk s)"
    by (simp_all add: Q(2) acceptable_ack_def as_lists_def)
  show ?thesis
  proof (cases "acceptable_ack sn (blk s)")
    case True
    obtain s' Q' where "ack_loop sn (hd (Q SndBuf @ [head_of SndBuf])) s = Some (Ok s')" "mem_inv s' Q' {}"
      "as_lists s' Q' = ikcp_parse_ack sn k"
      using ack_loop_ok [OF Q(1), of "[]" "Q SndBuf" sn] True
      by (auto simp: ikcp_parse_ack_def eq Q(2) [symmetric] case_prod_unfold Let_def)
    then show ?thesis using True walk(1) [OF Q(1), of SndBuf] by (auto simp: m_parse_ack_def intro: stands_forI)
  next
    case False
    then show ?thesis using assms by (simp add: m_parse_ack_def ikcp_parse_ack_def eq(1))
  qed
qed

text \<open>A segment is changed where it is.\<close>

lemma update_ok:
  assumes inv: "mem_inv s Q {}" and q: "Q q = xs @ a # ys"
  obtains s' where "put_seg a x s = Ok s'" and "mem_inv s' Q {}" and "blk s' = blk s" and "the (segs s' a) = x"
    and "contents s' xs = contents s xs" and "contents s' ys = contents s ys" and "\<And>r. r \<noteq> q \<Longrightarrow> contents s' (Q r) = contents s (Q r)"
proof -
  let ?s = "s\<lparr>segs := (segs s)(a \<mapsto> x)\<rparr>"
  note p = put_seg_ok [OF inv, of a q x]
  have d: "a \<notin> set xs" "a \<notin> set ys" using mem_invD(2) [OF inv, of q] q by auto
  have o: "a \<notin> set (Q r)" if "r \<noteq> q" for r using mem_invD(3) [OF inv that] q by auto
  have "contents ?s ns = contents s ns" if "a \<notin> set ns" for ns using that by (intro contents_cong) auto
  then show ?thesis using that [of ?s] p q d o by simp
qed

lemma fastack_loop_ok:
  assumes "mem_inv s Q {}" and "Q SndBuf = xs @ ns"
  shows "\<exists>s'. fastack_loop sn (hd (ns @ [head_of SndBuf])) s = Some (Ok s') \<and> mem_inv s' Q {}
    \<and> as_lists s' Q = (as_lists s Q)\<lparr>snd_buf := contents s xs @ count_skipped sn (contents s ns)\<rparr>"
  using assms
proof (induction ns arbitrary: xs s)
  case Nil
  then show ?case by (intro exI [of _ s]) (simp add: fastack_loop.simps as_lists_def)
next
  case (Cons p ns)
  note w = walk(4,6) [OF Cons.prems]
  let ?seg = "the (segs s p)"
  have q: "Q SndBuf = (xs @ [p]) @ ns" using Cons.prems(2) by simp
  consider "itimediff sn (s_sn ?seg) < 0" | "\<not> itimediff sn (s_sn ?seg) < 0" "sn = s_sn ?seg"
    | "\<not> itimediff sn (s_sn ?seg) < 0" "sn \<noteq> s_sn ?seg" by blast
  then show ?case
  proof cases
    case 1
    then show ?thesis using w Cons.prems by (intro exI [of _ s]) (simp add: fastack_loop.simps [of sn p s] as_lists_def)
  next
    case 2
    then have "fastack_loop sn p s = fastack_loop sn (hd (ns @ [head_of SndBuf])) s"
      using w by (subst fastack_loop.simps) simp
    then show ?thesis using Cons.IH [OF Cons.prems(1) q] 2 by simp
  next
    case 3
    let ?seg' = "?seg\<lparr>s_fastack := s_fastack ?seg + 1\<rparr>"
    obtain s1 where s1: "put_seg p ?seg' s = Ok s1" "mem_inv s1 Q {}" "blk s1 = blk s" "the (segs s1 p) = ?seg'"
      "contents s1 xs = contents s xs" "contents s1 ns = contents s ns" "\<And>r. r \<noteq> SndBuf \<Longrightarrow> contents s1 (Q r) = contents s (Q r)"
      by (rule update_ok [OF Cons.prems]) (rule that)
    have "fastack_loop sn p s = fastack_loop sn (hd (ns @ [head_of SndBuf])) s1"
      using 3 w s1(1) by (simp add: fastack_loop.simps [of sn p s])
    moreover have "(as_lists s1 Q)\<lparr>snd_buf := ss\<rparr> = (as_lists s Q)\<lparr>snd_buf := ss\<rparr>" for ss
      using s1(3,7) by (simp add: as_lists_def)
    ultimately show ?thesis using Cons.IH [OF s1(2) q] 3 s1(4-6) by simp
  qed
qed

lemma m_parse_fastack_ok:
  assumes "stands_for s k"
  shows "\<exists>s'. m_parse_fastack sn s = Some (Ok s') \<and> stands_for s' (ikcp_parse_fastack sn k)"
proof -
  obtain Q where Q: "mem_inv s Q {}" "k = as_lists s Q" using assms by (auto simp: stands_for_def)
  have eq: "acceptable_ack sn k = acceptable_ack sn (blk s)" "snd_buf k = contents s (Q SndBuf)"
    by (simp_all add: Q(2) acceptable_ack_def as_lists_def)
  show ?thesis
  proof (cases "acceptable_ack sn (blk s)")
    case True
    then show ?thesis using fastack_loop_ok [OF Q(1), of "[]" "Q SndBuf" sn] walk(1) [OF Q(1), of SndBuf]
      by (auto simp: m_parse_fastack_def ikcp_parse_fastack_def eq Q(2) [symmetric] intro: stands_forI)
  next
    case False
    then show ?thesis using assms by (simp add: m_parse_fastack_def ikcp_parse_fastack_def eq(1))
  qed
qed

text \<open>A segment moves from the front of one queue to the end of another.\<close>

lemma move_ok:
  assumes inv: "mem_inv s Q {}" and q: "Q q = a # ys" and ne: "q \<noteq> r"
  obtains s1 s2 where "iqueue_del a s = Ok s1" and "iqueue_add_tail a (head_of r) (on_blk f s1) = Ok s2"
    and "mem_inv s2 (Q(q := ys, r := Q r @ [a])) {}" and "segs s2 = segs s" and "blk s2 = f (blk s)"
proof -
  have q': "Q q = [] @ a # ys" using q by simp
  obtain s1 where s1: "iqueue_del a s = Ok s1" "mem_inv s1 (Q(q := [] @ ys)) (insert a {})" "links_only s s1"
    by (rule iqueue_del_ok [OF inv q']) (rule that)
  then have "mem_inv (on_blk f s1) (Q(q := ys)) {a}" by simp
  then obtain s2 where s2: "iqueue_add_tail a (head_of r) (on_blk f s1) = Ok s2"
    "mem_inv s2 ((Q(q := ys))(r := (Q(q := ys)) r @ [a])) ({a} - {a})" "links_only (on_blk f s1) s2"
    by (rule iqueue_add_tail_ok) (simp, rule that)
  then show ?thesis using that [OF s1(1) s2(1)] s1(3) ne by (simp add: links_only_def)
qed

lemma contents_segs: "segs s' = segs s \<Longrightarrow> contents s' ns = contents s ns"
  by (simp add: contents_def)

lemma m_move_ready_ok:
  assumes "mem_inv s Q {}"
  shows "\<exists>s' Q'. m_move_ready s = Some (Ok s') \<and> mem_inv s' Q' {} \<and> as_lists s' Q' = move_ready (as_lists s Q)"
  using assms
proof (induction "Q RcvBuf" arbitrary: s Q)
  case Nil
  then show ?case using walk(3) [OF Nil.prems, of RcvBuf]
    by (intro exI [of _ s] exI [of _ Q]) (simp add: m_move_ready.simps move_ready.simps as_lists_def flip: Nil(1))
next
  case (Cons p ns)
  have q: "Q RcvBuf = p # ns" using Cons(2) by simp
  note w = walk(1,3) [OF Cons.prems, of RcvBuf] walk(6) [OF Cons.prems, of RcvBuf "[]"]
  let ?seg = "the (segs s p)"
  let ?go = "s_sn ?seg = rcv_nxt (blk s) \<and> nrcv_que (blk s) < unat (rcv_wnd (blk s))"
  let ?k = "(as_lists s Q)\<lparr>rcv_buf := contents s ns, nrcv_buf := nrcv_buf (blk s) - 1,
    rcv_queue := contents s (Q RcvQueue) @ [?seg], nrcv_que := nrcv_que (blk s) + 1, rcv_nxt := rcv_nxt (blk s) + 1\<rparr>"
  have list: "move_ready (as_lists s Q) = (if ?go then move_ready ?k else as_lists s Q)"
    using q by (subst move_ready.simps) (simp add: as_lists_def)
  show ?case
  proof (cases ?go)
    case False
    then have "m_move_ready s = Some (Ok s)" using w q by (subst m_move_ready.simps) auto
    moreover have "move_ready (as_lists s Q) = as_lists s Q" unfolding list using False by (rule if_not_P)
    ultimately show ?thesis using Cons.prems by (intro exI [of _ s] exI [of _ Q]) simp
  next
    case True
    obtain s1 s2 where s: "iqueue_del p s = Ok s1"
      "iqueue_add_tail p (head_of RcvQueue) (on_blk (\<lambda>k. k\<lparr>nrcv_buf := nrcv_buf k - 1\<rparr>) s1) = Ok s2"
      "mem_inv s2 (Q(RcvBuf := ns, RcvQueue := Q RcvQueue @ [p])) {}" "segs s2 = segs s"
      "blk s2 = (blk s)\<lparr>nrcv_buf := nrcv_buf (blk s) - 1\<rparr>"
      by (rule move_ok [OF Cons.prems q, of RcvQueue "\<lambda>k. k\<lparr>nrcv_buf := nrcv_buf k - 1\<rparr>"]) (simp, rule that)
    let ?s = "on_blk (\<lambda>k. k\<lparr>nrcv_que := nrcv_que k + 1, rcv_nxt := rcv_nxt k + 1\<rparr>) s2"
    let ?Q = "Q(RcvBuf := ns, RcvQueue := Q RcvQueue @ [p])"
    have "as_lists ?s ?Q = ?k" by (simp add: as_lists_def contents_segs [OF s(4)] s(4,5))
    moreover have "m_move_ready s = m_move_ready ?s" using True w q s(1,2) by (subst m_move_ready.simps) simp
    moreover have "mem_inv ?s ?Q {}" "ns = ?Q RcvBuf" using s(3) by simp_all
    ultimately show ?thesis using Cons(1) [of ?Q ?s] True by (simp add: list)
  qed
qed

lemma m_move_to_buf_ok:
  assumes "mem_inv s Q {}"
  shows "\<exists>s' Q'. m_move_to_buf wnd s = Some (Ok s') \<and> mem_inv s' Q' {} \<and> as_lists s' Q' = move_to_buf wnd (as_lists s Q)"
  using assms
proof (induction "Q SndQueue" arbitrary: s Q)
  case Nil
  then show ?case using walk(3) [OF Nil.prems, of SndQueue]
    by (intro exI [of _ s] exI [of _ Q])
      (simp add: m_move_to_buf.simps move_to_buf.simps [of wnd] as_lists_def flip: Nil(1))
next
  case (Cons p ns)
  have q: "Q SndQueue = p # ns" using Cons(2) by simp
  note w = walk(1,3) [OF Cons.prems, of SndQueue]
  let ?seg = "the (segs s p)" and ?go = "itimediff (snd_nxt (blk s)) (snd_una (blk s) + wnd) < 0"
  let ?k = "(as_lists s Q)\<lparr>snd_queue := contents s ns,
    snd_buf := contents s (Q SndBuf) @ [numbered_seg (blk s) ?seg], nsnd_que := nsnd_que (blk s) - 1,
    nsnd_buf := nsnd_buf (blk s) + 1, snd_nxt := snd_nxt (blk s) + 1\<rparr>"
  have num: "numbered_seg (as_lists s Q) seg = numbered_seg (blk s) seg" for seg
    by (simp add: numbered_seg_def as_lists_def ikcp_wnd_unused_def)
  have list: "move_to_buf wnd (as_lists s Q) = (if ?go then move_to_buf wnd ?k else as_lists s Q)"
    using q by (subst move_to_buf.simps) (simp add: as_lists_sels num)
  show ?case
  proof (cases ?go)
    case False
    then show ?thesis using Cons.prems by (intro exI [of _ s] exI [of _ Q]) (simp add: m_move_to_buf.simps list)
  next
    case True
    obtain s1 s2 where s: "iqueue_del p s = Ok s1" "iqueue_add_tail p (head_of SndBuf) (on_blk (\<lambda>k. k) s1) = Ok s2"
      "mem_inv s2 (Q(SndQueue := ns, SndBuf := Q SndBuf @ [p])) {}" "segs s2 = segs s" "blk s2 = blk s"
      by (rule move_ok [OF Cons.prems q, of SndBuf "\<lambda>k. k"]) (simp, rule that)
    let ?Q = "Q(SndQueue := ns, SndBuf := Q SndBuf @ [p])"
    have Qb: "?Q SndBuf = Q SndBuf @ p # []" by simp
    obtain s3 where s3: "put_seg p (numbered_seg (blk s2) ?seg) s2 = Ok s3" "mem_inv s3 ?Q {}" "blk s3 = blk s2"
      "the (segs s3 p) = numbered_seg (blk s2) ?seg" "contents s3 (Q SndBuf) = contents s2 (Q SndBuf)"
      "\<And>r. r \<noteq> SndBuf \<Longrightarrow> contents s3 (?Q r) = contents s2 (?Q r)"
      by (rule update_ok [OF s(3) Qb]) (rule that)
    let ?s = "on_blk (\<lambda>k. k\<lparr>nsnd_que := nsnd_que k - 1, nsnd_buf := nsnd_buf k + 1, snd_nxt := snd_nxt k + 1\<rparr>) s3"
    have "as_lists ?s ?Q = ?k"
      using s3(6) [of SndQueue] s3(6) [of RcvQueue] s3(6) [of RcvBuf] s3(3-5)
      by (simp add: as_lists_def contents_segs [OF s(4)] s(5))
    moreover have "get_seg p s2 = Ok ?seg" using walk(6) [OF s(3) Qb] s(4) by simp
    then have "m_move_to_buf wnd s = m_move_to_buf wnd ?s"
      using True w q s(1,2) s3(1) by (subst m_move_to_buf.simps) (simp add: on_blk_def)
    moreover have "mem_inv ?s ?Q {}" "ns = ?Q SndQueue" using s3(2) by simp_all
    ultimately show ?thesis using Cons(1) [of ?Q ?s] True by (simp add: list)
  qed
qed

text \<open>
  Searching the place from the end: what \<open>insert_from_end\<close> finds on the reversed list is the node the
  loop stops at, and the segment is put behind it.
\<close>

lemma place_loop_ok:
  assumes inv: "mem_inv s Q X" and q: "Q RcvBuf = xs @ ys"
  shows "\<exists>repeat us vs. place_loop (s_sn new) (last (head_of RcvBuf # xs)) s = Some (Ok (repeat, last (head_of RcvBuf # us)))
    \<and> xs = us @ vs \<and> insert_from_end new (rev (contents s xs)) = (if repeat then None else Some (rev (contents s us @ new # contents s vs)))"
  using q
proof (induction xs arbitrary: ys rule: rev_induct)
  case Nil
  show ?case by (intro exI [of _ False] exI [of _ "[]"]) (simp add: place_loop.simps)
next
  case (snoc p xs)
  have "Q RcvBuf = xs @ p # ys" using snoc.prems by simp
  note w = walk(5,6) [OF inv this]
  let ?seg = "the (segs s p)"
  have list: "insert_from_end new (rev (contents s (xs @ [p]))) = (if s_sn ?seg = s_sn new then None
      else if 0 < itimediff (s_sn new) (s_sn ?seg) then Some (new # ?seg # rev (contents s xs))
      else map_option ((#) ?seg) (insert_from_end new (rev (contents s xs))))" by simp
  consider "s_sn ?seg = s_sn new" | "s_sn ?seg \<noteq> s_sn new" "0 < itimediff (s_sn new) (s_sn ?seg)"
    | "s_sn ?seg \<noteq> s_sn new" "\<not> 0 < itimediff (s_sn new) (s_sn ?seg)" by blast
  then show ?case
  proof cases
    case 1
    then show ?thesis using w unfolding list
      by (intro exI [of _ True] exI [of _ "xs @ [p]"] exI [of _ "[]"]) (simp add: place_loop.simps)
  next
    case 2
    then show ?thesis using w unfolding list
      by (intro exI [of _ False] exI [of _ "xs @ [p]"] exI [of _ "[]"]) (simp add: place_loop.simps)
  next
    case 3
    have "place_loop (s_sn new) p s = place_loop (s_sn new) (last (head_of RcvBuf # xs)) s"
      using 3 w by (subst place_loop.simps) simp
    moreover obtain rp us vs where ih: "place_loop (s_sn new) (last (head_of RcvBuf # xs)) s = Some (Ok (rp, last (head_of RcvBuf # us)))"
      "xs = us @ vs" "insert_from_end new (rev (contents s xs)) = (if rp then None else Some (rev (contents s us @ new # contents s vs)))"
      using snoc.IH [of "p # ys"] snoc.prems by auto
    ultimately show ?thesis using 3 unfolding list
      by (intro exI [of _ rp] exI [of _ us] exI [of _ "vs @ [p]"]) (simp split: if_splits)
  qed
qed

lemma mem_inv_loose:
  assumes "mem_inv s Q X" and "a \<in> X"
  shows "get_seg a s = Ok (the (segs s a))"
  using mem_invD(6,7) [OF assms(1), of a] assms(2) by (auto simp: get_seg_def deref_def)

lemma m_parse_data_ok:
  assumes inv: "mem_inv s Q {a}"
  shows "\<exists>s' Q'. m_parse_data a s = Some (Ok s') \<and> mem_inv s' Q' {} \<and> as_lists s' Q' = ikcp_parse_data (the (segs s a)) (as_lists s Q)"
proof -
  let ?new = "the (segs s a)"
  note g = mem_inv_loose [OF inv, of a]
  have out: "a \<notin> set (Q r)" for r using mem_invD(5) [OF inv, of a r] by simp
  obtain s0 where s0: "ikcp_segment_delete a s = Ok s0" "mem_inv s0 Q ({a} - {a})" "segs s0 = (segs s)(a := None)" "blk s0 = blk s"
    by (rule segment_delete_ok [OF inv, of a]) (simp, rule that)
  have "contents s0 (Q r) = contents s (Q r)" for r using s0(3) out by (intro contents_cong) (metis fun_upd_other)
  then have deleted: "mem_inv s0 Q {}" "as_lists s0 Q = as_lists s Q" using s0(2,4) by (simp_all add: as_lists_def)
  let ?bad = "itimediff (s_sn ?new) (rcv_nxt (blk s) + rcv_wnd (blk s)) \<ge> 0 \<or> itimediff (s_sn ?new) (rcv_nxt (blk s)) < 0"
  show ?thesis
  proof (cases ?bad)
    case True
    then have "m_parse_data a s = Some (Ok s0)" using g s0(1) by (auto simp: m_parse_data_def Let_def)
    moreover have "ikcp_parse_data ?new (as_lists s Q) = as_lists s Q" using True by (auto simp: ikcp_parse_data_def as_lists_sels)
    ultimately show ?thesis using deleted by auto
  next
    case ok: False
    have "Q RcvBuf = Q RcvBuf @ []" by simp
    from place_loop_ok [OF inv this, of ?new] obtain rp us vs where pl: "place_loop (s_sn ?new) (last (head_of RcvBuf # Q RcvBuf)) s = Some (Ok (rp, last (head_of RcvBuf # us)))"
      "Q RcvBuf = us @ vs" "insert_from_end ?new (rev (contents s (Q RcvBuf)))
        = (if rp then None else Some (rev (contents s us @ ?new # contents s vs)))"
      by blast
    define l m where l: "l = last (head_of RcvBuf # Q RcvBuf)" and m: "m = last (head_of RcvBuf # us)"
    note step = m_parse_data_def Let_def walk(2) [OF inv, of RcvBuf, folded l] g pl(1) [folded l m]
    have list: "ikcp_parse_data ?new (as_lists s Q) = move_ready (if rp then as_lists s Q
        else (as_lists s Q)\<lparr>rcv_buf := contents s us @ ?new # contents s vs, nrcv_buf := nrcv_buf (blk s) + 1\<rparr>)"
      using ok pl(3) by (simp add: ikcp_parse_data_def as_lists_sels)
    show ?thesis
    proof (cases rp)
      case True
      then have "m_parse_data a s = m_move_ready s0" using ok s0(1) by (auto simp: step)
      then show ?thesis using m_move_ready_ok [OF deleted(1)] True by (simp add: list deleted(2))
    next
      case False
      obtain s1 where s1: "iqueue_init a s = Ok s1" "mem_inv s1 Q {a}" "links_only s s1"
        by (rule iqueue_init_ok [OF inv, of a]) (simp, rule that)
      obtain s2 where s2: "iqueue_add a m s1 = Ok s2" "mem_inv s2 (Q(RcvBuf := us @ a # vs)) ({a} - {a})"
        "links_only s1 s2"
        by (rule iqueue_add_ok [OF s1(2) _ pl(2) m]) (simp, rule that)
      let ?s = "on_blk (\<lambda>k. k\<lparr>nrcv_buf := nrcv_buf k + 1\<rparr>) s2" and ?Q = "Q(RcvBuf := us @ a # vs)"
      have same: "segs s2 = segs s" "blk s2 = blk s" using s1(3) s2(3) by (simp_all add: links_only_def)
      have "m_parse_data a s = m_move_ready ?s" using ok False s1(1) s2(1) by (auto simp: step)
      moreover have "as_lists ?s ?Q
          = (as_lists s Q)\<lparr>rcv_buf := contents s us @ ?new # contents s vs, nrcv_buf := nrcv_buf (blk s) + 1\<rparr>"
        by (simp add: as_lists_def contents_segs [OF same(1)] same)
      moreover have "mem_inv ?s ?Q {}" using s2(2) by simp
      ultimately show ?thesis using m_move_ready_ok [of ?s ?Q] False by (simp add: list)
    qed
  qed
qed

lemma drain_ok:
  assumes "mem_inv s Q {}"
  shows "\<exists>s'. drain (head_of q) s = Some (Ok s') \<and> mem_inv s' (Q(q := [])) {} \<and> blk s' = blk s
    \<and> (\<forall>r. r \<noteq> q \<longrightarrow> contents s' (Q r) = contents s (Q r))"
  using assms
proof (induction "Q q" arbitrary: s Q)
  case Nil
  then have "Q(q := []) = Q" by auto
  then show ?case using walk(3) [OF Nil.prems, of q] Nil by (intro exI [of _ s]) (simp add: drain.simps)
next
  case (Cons p ns)
  have q: "Q q = [] @ p # ns" using Cons(2) by simp
  obtain s1 s2 where s: "iqueue_del p s = Ok s1" "ikcp_segment_delete p s1 = Ok s2" "mem_inv s2 (Q(q := [] @ ns)) {}"
    "\<And>r. contents s2 ((Q(q := [] @ ns)) r) = contents s ((Q(q := [] @ ns)) r)" "blk s2 = blk s"
    by (rule unlink_ok [OF Cons.prems q]) (rule that)
  have "drain (head_of q) s = drain (head_of q) s2"
    using walk(1,3) [OF Cons.prems, of q] q s(1,2) by (subst drain.simps) simp
  moreover have "contents s2 (Q r) = contents s (Q r)" if "r \<noteq> q" for r using s(4) [of r] that by simp
  ultimately show ?case using Cons(1) [of "Q(q := ns)" s2] s(3,5) by simp
qed

text \<open>After \<open>ikcp_release\<close> no segment is allocated any more and the four queues are empty.\<close>

lemma m_release_ok:
  assumes "stands_for s k"
  shows "\<exists>s'. m_release s = Some (Ok s') \<and> stands_for s' (ikcp_release k) \<and> dom (segs s') = {} \<and> dom (nodes s') = range head_of"
proof -
  obtain Q where Q: "mem_inv s Q {}" "k = as_lists s Q" using assms by (auto simp: stands_for_def)
  obtain s1 where s1: "drain (head_of SndBuf) s = Some (Ok s1)" "mem_inv s1 (Q(SndBuf := [])) {}" "blk s1 = blk s"
    using drain_ok [OF Q(1)] by blast
  obtain s2 where s2: "drain (head_of RcvBuf) s1 = Some (Ok s2)" "mem_inv s2 (Q(SndBuf := [], RcvBuf := [])) {}" "blk s2 = blk s1"
    using drain_ok [OF s1(2)] by blast
  obtain s3 where s3: "drain (head_of SndQueue) s2 = Some (Ok s3)" "mem_inv s3 (Q(SndBuf := [], RcvBuf := [], SndQueue := [])) {}"
    "blk s3 = blk s2" using drain_ok [OF s2(2)] by blast
  obtain s4 where s4: "drain (head_of RcvQueue) s3 = Some (Ok s4)"
    "mem_inv s4 (Q(SndBuf := [], RcvBuf := [], SndQueue := [], RcvQueue := [])) {}" "blk s4 = blk s3"
    using drain_ok [OF s3(2)] by blast
  let ?s = "on_blk (\<lambda>k. k\<lparr>nrcv_buf := 0, nsnd_buf := 0, nrcv_que := 0, nsnd_que := 0, ackcount := 0, kbuffer := 0,
    acklist := []\<rparr>) s4"
  let ?Q = "\<lambda>q :: queue_id. [] :: nat list"
  have "Q(SndBuf := [], RcvBuf := [], SndQueue := [], RcvQueue := []) = ?Q"
  proof
    fix q
    show "(Q(SndBuf := [], RcvBuf := [], SndQueue := [], RcvQueue := [])) q = []" by (cases q) simp_all
  qed
  then have inv: "mem_inv ?s ?Q {}" using s4(2) by simp
  have "m_release s = Some (Ok ?s)" using s1(1) s2(1) s3(1) s4(1) by (simp add: m_release_def)
  moreover have "as_lists ?s ?Q = ikcp_release k"
    by (simp add: as_lists_def ikcp_release_def Q(2) s1(3) s2(3) s3(3) s4(3))
  moreover have "members ?Q = {}" by (simp add: members_def)
  then have "dom (segs ?s) = {}" "dom (nodes ?s) = range head_of" using mem_inv_doms [OF inv] by simp_all
  ultimately show ?thesis using inv by (auto intro: stands_forI)
qed

end
