(* ===== verification/KcpMemory.thy ===== *)
theory KcpMemory
  imports KcpPointers KcpRuns
begin

text \<open>
  The calls of KCP with the queues in memory: \<open>ikcp_send\<close>, \<open>ikcp_recv\<close>, \<open>ikcp_input\<close>, \<open>ikcp_flush\<close> and \<open>ikcp_update\<close> over
  the loops of theory \<open>KcpPointers\<close>. They refine the calls of theory \<open>Kcp\<close>, so what is proved of those holds
  in memory: no call follows a pointer to nowhere or to a segment that is deleted, and no segment is lost.
\<close>

section \<open>Refinement\<close>

text \<open>A computation on memory does what the one on lists does: the same fault, or related results; it ends.\<close>

definition refines :: "('a \<Rightarrow> 'b \<Rightarrow> bool) \<Rightarrow> 'a res option \<Rightarrow> 'b res \<Rightarrow> bool" where
  "refines R m l \<longleftrightarrow> (case l of Inl e \<Rightarrow> m = Some (Inl e) | Inr y \<Rightarrow> \<exists>x. m = Some (Ok x) \<and> R x y)"

lemma refines_simps [simp]: "refines R m (Fail e) \<longleftrightarrow> m = Some (Fail e)" "refines R m (Ok y) \<longleftrightarrow> (\<exists>x. m = Some (Ok x) \<and> R x y)"
  by (simp_all add: refines_def)

lemma refines_bind:
  assumes "refines R m l" and "\<And>x y. R x y \<Longrightarrow> l = Ok y \<Longrightarrow> refines S (f x) (g y)"
  shows "refines S (after m f) (bindR l g)"
  using assms by (cases l) auto

lemma refines_then:
  assumes "\<And>x. r = Ok x \<Longrightarrow> refines S (f x) (g x)"
  shows "refines S (then_do r f) (bindR r g)"
  using assms by (cases r) auto

lemma then_do_eq_after: "then_do r f = after (Some r) f"
  by simp

text \<open>The computation on memory may also stop with an error of \<open>E\<close>, those for a null pointer that \<open>malloc\<close> returned.\<close>

definition refines_or :: "fault set \<Rightarrow> ('a \<Rightarrow> 'b \<Rightarrow> bool) \<Rightarrow> 'a res option \<Rightarrow> 'b res \<Rightarrow> bool" where
  "refines_or E R m l \<longleftrightarrow> refines R m l \<or> (\<exists>e \<in> E. m = Some (Fail e))"

definition no_memory :: "(kmem \<Rightarrow> nat) \<Rightarrow> fault set \<Rightarrow> fault set" where
  "no_memory malloc es = {e \<in> es. \<exists>s. malloc s = 0}"

lemma refines_orI [intro]: "refines R m l \<Longrightarrow> refines_or E R m l"
  by (simp add: refines_or_def)

lemma out_of_memory: "malloc s = 0 \<Longrightarrow> e \<in> es \<Longrightarrow> refines_or (no_memory malloc es) R (Some (Fail e)) l"
  by (auto simp: refines_or_def no_memory_def)

lemma refines_or_bind:
  assumes "refines_or E R m l" and "\<And>x y. R x y \<Longrightarrow> l = Ok y \<Longrightarrow> refines_or E S (f x) (g y)"
  shows "refines_or E S (after m f) (bindR l g)"
proof -
  consider "refines R m l" | e where "e \<in> E" "m = Some (Fail e)" using assms(1) by (auto simp: refines_or_def)
  then show ?thesis
  proof cases
    case 1
    then show ?thesis using assms(2) by (cases l) auto
  qed (auto simp: refines_or_def)
qed

lemma refines_or_then:
  assumes "\<And>x. r = Ok x \<Longrightarrow> refines_or E S (f x) (g x)"
  shows "refines_or E S (then_do r f) (bindR r g)"
  using assms by (cases r) (auto simp: refines_or_def)

lemma refines_or_mono: "refines_or E R m l \<Longrightarrow> E \<subseteq> F \<Longrightarrow> refines_or F R m l"
  by (auto simp: refines_or_def)

text \<open>With a value beside the state.\<close>

abbreviation beside :: "'a \<times> kmem \<Rightarrow> 'a \<times> ikcpcb \<Rightarrow> bool" where
  "beside \<equiv> rel_prod (=) stands_for"

text \<open>What does not touch the queues does the same to the control block in memory.\<close>

definition with_queues :: "kseg list \<Rightarrow> kseg list \<Rightarrow> kseg list \<Rightarrow> kseg list \<Rightarrow> ikcpcb \<Rightarrow> ikcpcb" where
  "with_queues a b c d k = k\<lparr>snd_queue := a, rcv_queue := b, snd_buf := c, rcv_buf := d\<rparr>"

definition queue_free :: "(ikcpcb \<Rightarrow> ikcpcb) \<Rightarrow> bool" where
  "queue_free f \<longleftrightarrow> (\<forall>a b c d k. f (with_queues a b c d k) = with_queues a b c d (f k))"

lemma stands_for_blk:
  assumes "stands_for s k"
  obtains a b c d where "k = with_queues a b c d (blk s)"
  using assms by (auto simp: stands_for_def as_lists_def with_queues_def)

lemma on_blk_refines: "stands_for s k \<Longrightarrow> queue_free f \<Longrightarrow> stands_for (on_blk f s) (f k)"
proof -
  assume s: "stands_for s k" and f: "queue_free f"
  obtain Q where Q: "mem_inv s Q {}" "k = as_lists s Q" using s by (auto simp: stands_for_def)
  have "as_lists (on_blk f s) Q = f k" using f by (simp add: Q(2) queue_free_def with_queues_def as_lists_def)
  then show ?thesis using Q(1) by (intro stands_forI) simp_all
qed

lemma set_blk: "s\<lparr>blk := k\<rparr> = on_blk (\<lambda>_. k) s"
  by (simp add: on_blk_def)

section \<open>Sending\<close>

primrec m_send_fragments :: "(kmem \<Rightarrow> nat) \<Rightarrow> nat \<Rightarrow> byte list \<Rightarrow> nat \<Rightarrow> kmem \<Rightarrow> kmem res" where
  "m_send_fragments malloc 0 buf len s = Ok s"
| "m_send_fragments malloc (Suc r) buf len s =
     (let size = (if unat (kmss (blk s)) < len then unat (kmss (blk s)) else len) in
      bindR (read_mem size buf) (\<lambda>bs.
        let (a, s1) = ikcp_segment_new malloc (new_seg (if kstream (blk s) = 0 then of_nat r else 0) bs) s in
        assertR (a \<noteq> 0) (bindR (iqueue_init a s1) (\<lambda>s2. bindR (iqueue_add_tail a (head_of SndQueue) s2) (\<lambda>s3.
          m_send_fragments malloc r (drop size buf) (len - size) (on_blk (\<lambda>k. k\<lparr>nsnd_que := nsnd_que k + 1\<rparr>) s3))))))"

definition m_extend_last :: "(kmem \<Rightarrow> nat) \<Rightarrow> byte list \<Rightarrow> nat \<Rightarrow> kmem \<Rightarrow> (nat \<times> kmem) res" where
  "m_extend_last malloc buf len s =
     bindR (iqueue_is_empty (head_of SndQueue) s) (\<lambda>empty.
       if empty then Ok (0, s)
       else bindR (prev_of (head_of SndQueue) s) (\<lambda>p. bindR (get_seg p s) (\<lambda>old.
         if \<not> s_len old < kmss (blk s) then Ok (0, s)
         else
           let capacity = unat (kmss (blk s) - s_len old); extend = (if len < capacity then len else capacity) in
           bindR (read_mem extend buf) (\<lambda>bs.
             let (a, s1) = ikcp_segment_new malloc (new_seg 0 (s_data old @ bs)) s in
             assertR (a \<noteq> 0) (bindR (iqueue_add_tail a (head_of SndQueue) s1) (\<lambda>s2. bindR (iqueue_del_init p s2) (\<lambda>s3.
             bindR (ikcp_segment_delete p s3) (\<lambda>s4. Ok (extend, s4)))))))))"

definition m_send_rest :: "(kmem \<Rightarrow> nat) \<Rightarrow> byte list \<Rightarrow> nat \<Rightarrow> kmem \<Rightarrow> (int \<times> kmem) res" where
  "m_send_rest malloc buf len s =
     (if 255 < fragment_count len (kmss (blk s)) then Ok (-2, s)
      else bindR (m_send_fragments malloc (fragment_count len (kmss (blk s))) buf len s) (\<lambda>s1. Ok (0, s1)))"

definition m_send :: "(kmem \<Rightarrow> nat) \<Rightarrow> byte list \<Rightarrow> int \<Rightarrow> kmem \<Rightarrow> (int \<times> kmem) res" where
  "m_send malloc buf len s = assertR (0 < kmss (blk s))
     (if len < 0 then Ok (-1, s)
      else if kstream (blk s) \<noteq> 0 then
        bindR (m_extend_last malloc buf (nat len) s) (\<lambda>(taken, s1).
          if len - int taken \<le> 0 then Ok (0, s1) else m_send_rest malloc (drop taken buf) (nat len - taken) s1)
      else m_send_rest malloc buf (nat len) s)"

text \<open>A new segment is linked at the end of \<open>snd_queue\<close>.\<close>

lemma append_new_ok:
  assumes inv: "mem_inv s Q {}" and m: "allocates malloc" and a0: "malloc s \<noteq> 0"
  obtains a s1 s2 s3 where "ikcp_segment_new malloc x s = (a, s1)" and "iqueue_init a s1 = Ok s2"
    and "iqueue_add_tail a (head_of q) s2 = Ok s3" and "mem_inv s3 (Q(q := Q q @ [a])) {}" and "blk s3 = blk s"
    and "the (segs s3 a) = x" and "\<And>r. contents s3 (Q r) = contents s (Q r)" and "a \<noteq> 0"
proof -
  obtain a s1 where s1: "ikcp_segment_new malloc x s = (a, s1)" "mem_inv s1 Q (insert a {})" "segs s1 = (segs s)(a \<mapsto> x)"
    "blk s1 = blk s" "a \<notin> members Q \<union> {}" "a \<noteq> 0"
    by (rule segment_new_ok [OF inv finite.emptyI m a0]) (rule that)
  obtain s2 where s2: "iqueue_init a s1 = Ok s2" "mem_inv s2 Q {a}" "links_only s1 s2"
    by (rule iqueue_init_ok [OF s1(2), of a]) (simp, rule that)
  obtain s3 where s3: "iqueue_add_tail a (head_of q) s2 = Ok s3" "mem_inv s3 (Q(q := Q q @ [a])) ({a} - {a})" "links_only s2 s3"
    by (rule iqueue_add_tail_ok [OF s2(2), of a]) (simp, rule that)
  have "segs s3 = (segs s)(a \<mapsto> x)" using s1(3) s2(3) s3(3) by (simp add: links_only_def)
  moreover have "a \<notin> set (Q r)" for r using s1(5) by (auto simp: in_members)
  ultimately have "contents s3 (Q r) = contents s (Q r)" for r by (intro contents_cong) (metis fun_upd_other)
  then show ?thesis using that [OF s1(1) s2(1) s3(1)] s3(2) s1(4,6) s2(3) s3(3) \<open>segs s3 = _\<close> by (simp add: links_only_def)
qed

lemma segment_new_null: "malloc s = 0 \<Longrightarrow> ikcp_segment_new malloc x s = (0, s)"
  by (simp add: ikcp_segment_new_def)

lemma m_send_fragments_ok:
  assumes m: "allocates malloc" and "stands_for s k"
  shows "refines_or (no_memory malloc {AssertFail}) stands_for (Some (m_send_fragments malloc r buf len s)) (send_fragments r buf len k)"
  using assms(2)
proof (induction r arbitrary: buf len s k)
  case (Suc r)
  obtain Q where Q: "mem_inv s Q {}" "k = as_lists s Q" using Suc.prems by (auto simp: stands_for_def)
  define size where "size = (if unat (kmss (blk s)) < len then unat (kmss (blk s)) else len)"
  have kk: "kmss k = kmss (blk s)" "kstream k = kstream (blk s)" by (simp_all add: Q(2) as_lists_sels)
  have l: "send_fragments (Suc r) buf len k = bindR (read_mem size buf) (\<lambda>bs. send_fragments r (drop size buf) (len - size)
      (k\<lparr>snd_queue := snd_queue k @ [new_seg (if kstream (blk s) = 0 then of_nat r else 0) bs], nsnd_que := nsnd_que k + 1\<rparr>))"
    unfolding send_fragments.simps Let_def kk size_def by (rule refl)
  consider e where "read_mem size buf = Fail e" | (null) bs where "read_mem size buf = Ok bs" "malloc s = 0"
    | (new) bs where "read_mem size buf = Ok bs" "malloc s \<noteq> 0" by (cases "read_mem size buf") auto
  then show ?case
  proof cases
    case 1
    then show ?thesis unfolding l m_send_fragments.simps Let_def size_def [symmetric] by (intro refines_orI) simp
  next
    case null
    then show ?thesis unfolding m_send_fragments.simps Let_def size_def [symmetric]
      by (simp add: segment_new_null out_of_memory)
  next
    case new
    define x where "x = new_seg (if kstream (blk s) = 0 then of_nat r else 0) bs"
    obtain a s1 s2 s3 where s: "ikcp_segment_new malloc x s = (a, s1)" "iqueue_init a s1 = Ok s2"
      "iqueue_add_tail a (head_of SndQueue) s2 = Ok s3" "mem_inv s3 (Q(SndQueue := Q SndQueue @ [a])) {}" "blk s3 = blk s"
      "the (segs s3 a) = x" "\<And>r. contents s3 (Q r) = contents s (Q r)" "a \<noteq> 0"
      by (rule append_new_ok [OF Q(1) m new(2)]) (rule that)
    let ?s = "on_blk (\<lambda>k. k\<lparr>nsnd_que := nsnd_que k + 1\<rparr>) s3" and ?k = "k\<lparr>snd_queue := snd_queue k @ [x], nsnd_que := nsnd_que k + 1\<rparr>"
    have "as_lists ?s (Q(SndQueue := Q SndQueue @ [a])) = ?k" by (simp add: Q(2) as_lists_def s(5-7))
    then have "stands_for ?s ?k" using s(4) by (intro stands_forI) simp_all
    from Suc.IH [OF this, of "drop size buf" "len - size"] show ?thesis
      using new s(1-3,8) unfolding l m_send_fragments.simps Let_def size_def [symmetric] by (simp add: x_def [symmetric])
  qed
qed (simp add: refines_orI)

lemma m_extend_last_ok:
  assumes m: "allocates malloc" and st: "stands_for s k"
  shows "refines_or (no_memory malloc {AssertFail}) beside (Some (m_extend_last malloc buf len s)) (extend_last buf len k)"
proof -
  obtain Q where Q: "mem_inv s Q {}" "k = as_lists s Q" using st by (auto simp: stands_for_def)
  have kk: "kmss k = kmss (blk s)" "snd_queue k = contents s (Q SndQueue)" by (simp_all add: Q(2) as_lists_sels)
  show ?thesis
  proof (cases "Q SndQueue" rule: rev_cases)
    case Nil
    then show ?thesis using st walk(3) [OF Q(1), of SndQueue] by (intro refines_orI) (simp add: m_extend_last_def extend_last_def kk)
  next
    case (snoc ns p)
    define old where "old = the (segs s p)"
    have w: "iqueue_is_empty (head_of SndQueue) s = Ok False" "prev_of (head_of SndQueue) s = Ok p" "get_seg p s = Ok old"
      using walk(2,3) [OF Q(1), of SndQueue] walk(6) [OF Q(1), of SndQueue ns p "[]"] snoc by (simp_all add: old_def)
    have l: "snd_queue k = contents s ns @ [old]" by (simp add: kk snoc old_def)
    show ?thesis
    proof (cases "s_len old < kmss (blk s)")
      case False
      then show ?thesis using st w by (intro refines_orI) (simp add: m_extend_last_def extend_last_def l kk(1))
    next
      case True
      define extend where "extend = (if len < unat (kmss (blk s) - s_len old) then len else unat (kmss (blk s) - s_len old))"
      have le: "extend_last buf len k = bindR (read_mem extend buf) (\<lambda>bs.
          Ok (extend, k\<lparr>snd_queue := contents s ns @ [new_seg 0 (s_data old @ bs)]\<rparr>))"
        using True by (simp add: extend_last_def l kk(1) Let_def extend_def)
      consider e where "read_mem extend buf = Fail e" | (null) bs where "read_mem extend buf = Ok bs" "malloc s = 0"
        | (new) bs where "read_mem extend buf = Ok bs" "malloc s \<noteq> 0" by (cases "read_mem extend buf") auto
      then show ?thesis
      proof cases
        case 1
        then show ?thesis unfolding le using w True by (intro refines_orI) (simp add: m_extend_last_def Let_def extend_def [symmetric])
      next
        case null
        then show ?thesis using w True by (simp add: m_extend_last_def Let_def extend_def [symmetric] segment_new_null out_of_memory)
      next
        case new
        define x where "x = new_seg 0 (s_data old @ bs)"
        obtain a s1 where s1: "ikcp_segment_new malloc x s = (a, s1)" "mem_inv s1 Q (insert a {})" "segs s1 = (segs s)(a \<mapsto> x)"
          "blk s1 = blk s" "a \<notin> members Q \<union> {}" "a \<noteq> 0"
          by (rule segment_new_ok [OF Q(1) finite.emptyI m new(2)]) (rule that)
        obtain s2 where s2: "iqueue_add_tail a (head_of SndQueue) s1 = Ok s2" "mem_inv s2 (Q(SndQueue := Q SndQueue @ [a])) ({a} - {a})"
          "links_only s1 s2"
          by (rule iqueue_add_tail_ok [OF s1(2), of a]) (simp, rule that)
        have q2: "(Q(SndQueue := Q SndQueue @ [a])) SndQueue = ns @ p # [a]" by (simp add: snoc)
        have i2: "mem_inv s2 (Q(SndQueue := Q SndQueue @ [a])) {}" using s2(2) by simp
        obtain s3 where s3: "iqueue_del p s2 = Ok s3"
          "mem_inv s3 ((Q(SndQueue := Q SndQueue @ [a]))(SndQueue := ns @ [a])) (insert p {})" "links_only s2 s3"
          by (rule iqueue_del_ok [OF i2 q2]) (rule that)
        obtain s4 where s4: "iqueue_init p s3 = Ok s4"
          "mem_inv s4 ((Q(SndQueue := Q SndQueue @ [a]))(SndQueue := ns @ [a])) (insert p {})" "links_only s3 s4"
          by (rule iqueue_init_ok [OF s3(2), of p]) (simp, rule that)
        obtain s5 where s5: "ikcp_segment_delete p s4 = Ok s5"
          "mem_inv s5 ((Q(SndQueue := Q SndQueue @ [a]))(SndQueue := ns @ [a])) (insert p {} - {p})"
          "segs s5 = (segs s4)(p := None)" "blk s5 = blk s4"
          by (rule segment_delete_ok [OF s4(2), of p]) (simp, rule that)
        let ?Q = "Q(SndQueue := ns @ [a])"
        have inv: "mem_inv s5 ?Q {}" using s5(2) by simp
        have segs: "segs s5 = ((segs s)(a \<mapsto> x))(p := None)" and b: "blk s5 = blk s"
          using s1(3,4) s2(3) s3(3) s4(3) s5(3,4) by (simp_all add: links_only_def)
        have pa: "a \<notin> set (Q r)" for r using s1(5) by (auto simp: in_members)
        have pp: "p \<notin> set (?Q r)" for r using mem_invD(5) [OF s4(2), of p r] by simp
        have c: "contents s5 ms = contents s ms" if "a \<notin> set ms" "p \<notin> set ms" for ms
          using that segs by (intro contents_cong) auto
        have r: "contents s5 (Q r) = contents s (Q r)" if "r \<noteq> SndQueue" for r
          by (rule c [OF pa]) (use pp [of r] that in simp)
        have n: "contents s5 (ns @ [a]) = contents s ns @ [x]"
          using c [of ns] pa [of SndQueue] pp [of SndQueue] snoc segs by simp
        have "as_lists s5 ?Q = k\<lparr>snd_queue := contents s ns @ [x]\<rparr>"
          using n r [of RcvQueue] r [of SndBuf] r [of RcvBuf] by (simp add: Q(2) as_lists_def b del: contents_simps)
        then have "stands_for s5 (k\<lparr>snd_queue := contents s ns @ [x]\<rparr>)" by (rule stands_forI [OF inv])
        moreover have "m_extend_last malloc buf len s = Ok (extend, s5)"
          using w True new(1) s1(1,6) s2(1) s3(1) s4(1) s5(1)
          by (simp add: m_extend_last_def Let_def extend_def [symmetric] x_def [symmetric] iqueue_del_init_def)
        ultimately show ?thesis unfolding le using new(1) by (intro refines_orI) (simp add: x_def)
      qed
    qed
  qed
qed

lemma m_send_rest_ok:
  assumes "allocates malloc" and "stands_for s k"
  shows "refines_or (no_memory malloc {AssertFail}) beside (Some (m_send_rest malloc buf len s)) (send_rest buf len k)"
proof -
  have mss: "kmss k = kmss (blk s)" using assms(2) by (auto simp: stands_for_def as_lists_sels)
  let ?E = "no_memory malloc {AssertFail}" and ?n = "fragment_count len (kmss k)"
  have "refines_or ?E beside (after (Some (m_send_fragments malloc ?n buf len s)) (\<lambda>s1. Some (Ok (0, s1))))
      (bindR (send_fragments ?n buf len k) (\<lambda>k1. Ok (0 :: int, k1)))"
    by (rule refines_or_bind [OF m_send_fragments_ok [OF assms]]) auto
  then show ?thesis using assms(2) mss
    by (cases "m_send_fragments malloc ?n buf len s") (auto simp: m_send_rest_def send_rest_def)
qed

lemma m_send_ok:
  assumes m: "allocates malloc" and st: "stands_for s k"
  shows "refines_or (no_memory malloc {AssertFail}) beside (Some (m_send malloc buf len s)) (ikcp_send buf len k)"
proof -
  have kk: "kmss k = kmss (blk s)" "kstream k = kstream (blk s)" using st by (auto simp: stands_for_def as_lists_sels)
  consider "\<not> 0 < kmss (blk s)" | "0 < kmss (blk s)" "len < 0" | "0 < kmss (blk s)" "0 \<le> len" "kstream (blk s) = 0"
    | "0 < kmss (blk s)" "0 \<le> len" "kstream (blk s) \<noteq> 0" by linarith
  then show ?thesis
  proof cases
    case 4
    let ?E = "no_memory malloc {AssertFail}"
    have "refines_or ?E beside
        (after (Some (m_extend_last malloc buf (nat len) s)) (\<lambda>(taken, s1).
          Some (if len - int taken \<le> 0 then Ok (0, s1) else m_send_rest malloc (drop taken buf) (nat len - taken) s1)))
        (bindR (extend_last buf (nat len) k) (\<lambda>(taken, k1).
          if len - int taken \<le> 0 then Ok (0, k1) else send_rest (drop taken buf) (nat len - taken) k1))"
      by (rule refines_or_bind [OF m_extend_last_ok [OF m st]]) (auto simp: m_send_rest_ok [OF m] refines_orI)
    then show ?thesis using 4
      by (cases "m_extend_last malloc buf (nat len) s") (auto simp: m_send_def ikcp_send_def kk case_prod_unfold)
  next
    case 3
    then show ?thesis using m_send_rest_ok [OF m st] by (simp add: m_send_def ikcp_send_def kk)
  qed (use st in \<open>auto simp: m_send_def ikcp_send_def kk\<close>)
qed

section \<open>Receiving\<close>

partial_function (option) length_loop :: "nat \<Rightarrow> u32 \<Rightarrow> kmem \<Rightarrow> u32 res option" where
  "length_loop p len s =
     (if p = head_of RcvQueue then Some (Ok len)
      else then_do (get_seg p s) (\<lambda>seg.
        if s_frg seg = 0 then Some (Ok (len + s_len seg))
        else then_do (next_of p s) (\<lambda>next. length_loop next (len + s_len seg) s)))"

definition m_peeksize :: "kmem \<Rightarrow> int res option" where
  "m_peeksize s = then_do (iqueue_is_empty (head_of RcvQueue) s) (\<lambda>empty.
     if empty then Some (Ok (-1))
     else then_do (next_of (head_of RcvQueue) s) (\<lambda>p. then_do (get_seg p s) (\<lambda>seg.
       if s_frg seg = 0 then Some (Ok (sint (s_len seg)))
       else if nrcv_que (blk s) < unat (s_frg seg + 1) then Some (Ok (-1))
       else after (length_loop p 0 s) (\<lambda>len. Some (Ok (sint len))))))"

text \<open>Merging the fragments; \<open>bs\<close> is what has been copied, \<open>room\<close> bytes of the user's buffer are left.\<close>

partial_function (option) merge_loop ::
  "bool \<Rightarrow> nat \<Rightarrow> int \<Rightarrow> u32 \<Rightarrow> byte list \<Rightarrow> kmem \<Rightarrow> (u32 \<times> byte list \<times> kmem) res option" where
  "merge_loop ispeek p room len bs s =
     (if p = head_of RcvQueue then Some (Ok (len, bs, s))
      else then_do (get_seg p s) (\<lambda>seg. then_do (next_of p s) (\<lambda>next. then_do (copy_fragment room seg) (\<lambda>cs.
        then_do (if ispeek then Ok s
                 else bindR (iqueue_del p s) (\<lambda>s1. bindR (ikcp_segment_delete p s1) (\<lambda>s2.
                   Ok (on_blk (\<lambda>k. k\<lparr>nrcv_que := nrcv_que k - 1\<rparr>) s2)))) (\<lambda>s3.
          if s_frg seg = 0 then Some (Ok (len + s_len seg, bs @ cs, s3))
          else merge_loop ispeek next (room - int (length cs)) (len + s_len seg) (bs @ cs) s3)))))"

definition m_recv :: "int \<Rightarrow> kmem \<Rightarrow> (int \<times> byte list \<times> kmem) res option" where
  "m_recv len s = then_do (iqueue_is_empty (head_of RcvQueue) s) (\<lambda>empty.
     if empty then Some (Ok (-1, [], s))
     else after (m_peeksize s) (\<lambda>peeksize.
       if peeksize < 0 then Some (Ok (-2, [], s))
       else if \<bar>len\<bar> < peeksize then Some (Ok (-3, [], s))
       else
         let recover = unat (rcv_wnd (blk s)) \<le> nrcv_que (blk s) in
         then_do (next_of (head_of RcvQueue) s) (\<lambda>p. after (merge_loop (len < 0) p \<bar>len\<bar> 0 [] s) (\<lambda>(total, bs, s1).
         if sint total \<noteq> peeksize then Some (Fail AssertFail)
         else after (m_move_ready s1) (\<lambda>s2.
           Some (Ok (sint total, bs,
             if nrcv_que (blk s2) < unat (rcv_wnd (blk s2)) \<and> recover
             then on_blk (\<lambda>k. k\<lparr>kprobe := kprobe k OR IKCP_ASK_TELL\<rparr>) s2 else s2)))))))"

lemma length_loop_ok:
  assumes inv: "mem_inv s Q {}" and q: "Q RcvQueue = xs @ ns"
  shows "length_loop (hd (ns @ [head_of RcvQueue])) len s = Some (Ok (len + sum_message (contents s ns)))"
  using q
proof (induction ns arbitrary: xs len)
  case Nil
  then show ?case by (simp add: length_loop.simps)
next
  case (Cons p ns)
  note w = walk(4,6) [OF inv Cons.prems]
  have "Q RcvQueue = (xs @ [p]) @ ns" using Cons.prems by simp
  from Cons.IH [OF this] w show ?case by (simp add: length_loop.simps [of p] add.assoc)
qed

lemma m_peeksize_ok:
  assumes st: "stands_for s k"
  shows "m_peeksize s = Some (Ok (ikcp_peeksize k))"
proof -
  obtain Q where Q: "mem_inv s Q {}" "k = as_lists s Q" using st by (auto simp: stands_for_def)
  show ?thesis
  proof (cases "Q RcvQueue")
    case Nil
    then show ?thesis using walk(3) [OF Q(1), of RcvQueue] by (simp add: m_peeksize_def ikcp_peeksize_def Q(2) as_lists_sels)
  next
    case (Cons p ns)
    have "length_loop p 0 s = Some (Ok (sum_message (contents s (p # ns))))"
      using length_loop_ok [OF Q(1), of "[]" "p # ns" 0] Cons by simp
    then show ?thesis using walk(1,3) [OF Q(1), of RcvQueue] walk(6) [OF Q(1), of RcvQueue "[]" p ns] Cons
      by (simp add: m_peeksize_def ikcp_peeksize_def Q(2) as_lists_sels del: sum_message.simps)
  qed
qed

lemma then_do_assoc: "then_do (bindR m f) g = then_do m (\<lambda>x. then_do (f x) g)"
  by (cases m) simp_all

lemma merge_peek_ok:
  assumes inv: "mem_inv s Q {}" and q: "Q RcvQueue = xs @ ns"
  shows "merge_loop True (hd (ns @ [head_of RcvQueue])) room len bs s
    = then_do (copy_out room (fst (first_message (contents s ns)))) (\<lambda>cs. Some (Ok (len + sum_message (contents s ns), bs @ cs, s)))"
  using q
proof (induction ns arbitrary: xs room len bs)
  case Nil
  then show ?case by (simp add: merge_loop.simps)
next
  case (Cons p ns)
  note w = walk(4,6) [OF inv Cons.prems]
  have "Q RcvQueue = (xs @ [p]) @ ns" using Cons.prems by simp
  from Cons.IH [OF this] w show ?case
    by (cases "copy_fragment room (the (segs s p))")
      (simp_all add: merge_loop.simps [of True p] add.assoc case_prod_unfold Let_def then_do_assoc)
qed

lemma merge_take_ok:
  assumes "mem_inv s Q {}"
  shows "\<exists>s' Q'. merge_loop False (hd (Q RcvQueue @ [head_of RcvQueue])) room len bs s
      = then_do (copy_out room (fst (first_message (contents s (Q RcvQueue)))))
          (\<lambda>cs. Some (Ok (len + sum_message (contents s (Q RcvQueue)), bs @ cs, s')))
    \<and> mem_inv s' Q' {} \<and> as_lists s' Q' = (as_lists s Q)\<lparr>rcv_queue := snd (first_message (contents s (Q RcvQueue))),
      nrcv_que := nrcv_que (blk s) - length (fst (first_message (contents s (Q RcvQueue))))\<rparr>"
  using assms
proof (induction "Q RcvQueue" arbitrary: s Q room len bs)
  case Nil
  then show ?case by (intro exI [of _ s] exI [of _ Q]) (simp add: merge_loop.simps as_lists_def flip: Nil(1))
next
  case (Cons p ns)
  have q: "Q RcvQueue = [] @ p # ns" using Cons(2) by simp
  note w = walk(4,6) [OF Cons.prems q]
  let ?seg = "the (segs s p)"
  obtain s1 s2 where s: "iqueue_del p s = Ok s1" "ikcp_segment_delete p s1 = Ok s2" "mem_inv s2 (Q(RcvQueue := [] @ ns)) {}"
    "\<And>r. contents s2 ((Q(RcvQueue := [] @ ns)) r) = contents s ((Q(RcvQueue := [] @ ns)) r)" "blk s2 = blk s"
    by (rule unlink_ok [OF Cons.prems q]) (rule that)
  define s3 where "s3 = on_blk (\<lambda>k. k\<lparr>nrcv_que := nrcv_que k - 1\<rparr>) s2"
  define Q3 where "Q3 = Q(RcvQueue := ns)"
  have s3: "mem_inv s3 Q3 {}" "ns = Q3 RcvQueue" "contents s3 ns = contents s ns"
    "as_lists s3 Q3 = (as_lists s Q)\<lparr>rcv_queue := contents s ns, nrcv_que := nrcv_que (blk s) - 1\<rparr>" "nrcv_que (blk s3) = nrcv_que (blk s) - 1"
    using s(3) s(4) [of SndQueue] s(4) [of RcvQueue] s(4) [of SndBuf] s(4) [of RcvBuf] s(5)
    by (simp_all add: s3_def Q3_def as_lists_def)
  show ?case
  proof (cases "s_frg ?seg = 0")
    case True
    have "merge_loop False p room len bs s = then_do (copy_fragment room ?seg) (\<lambda>cs. Some (Ok (len + s_len ?seg, bs @ cs, s3)))"
      using True w s(1,2) by (simp add: merge_loop.simps [of False p] s3_def)
    then show ?thesis using True q s3(1,4)
      by (intro exI [of _ s3] exI [of _ Q3]) (simp add: then_do_assoc)
  next
    case False
    have m: "merge_loop False p room len bs s = then_do (copy_fragment room ?seg) (\<lambda>cs.
        merge_loop False (hd (ns @ [head_of RcvQueue])) (room - int (length cs)) (len + s_len ?seg) (bs @ cs) s3)"
      using False w s(1,2) by (simp add: merge_loop.simps [of False p] s3_def)
    show ?thesis
    proof (cases "copy_fragment room ?seg")
      case (Inl e)
      obtain s' Q' where "mem_inv s' Q' {}" "as_lists s' Q' = (as_lists s3 Q3)\<lparr>rcv_queue := snd (first_message (contents s3 (Q3 RcvQueue))),
          nrcv_que := nrcv_que (blk s3) - length (fst (first_message (contents s3 (Q3 RcvQueue))))\<rparr>"
        using Cons(1) [OF s3(2,1)] by blast
      then show ?thesis using m Inl False q
        by (intro exI [of _ s'] exI [of _ Q']) (simp add: case_prod_unfold Let_def s3(3-5) flip: s3(2))
    next
      case (Inr cs)
      then show ?thesis using m Cons(1) [OF s3(2,1), of "room - int (length cs)" "len + s_len ?seg" "bs @ cs"] False q
        by (simp add: case_prod_unfold Let_def s3(3-5) add.assoc then_do_assoc flip: s3(2))
    qed
  qed
qed

lemma m_move_ready_refines: "stands_for s k \<Longrightarrow> \<exists>s'. m_move_ready s = Some (Ok s') \<and> stands_for s' (move_ready k)"
  using m_move_ready_ok by (fastforce simp: stands_for_def)

lemma m_recv_ok:
  assumes st: "stands_for s k"
  shows "refines (rel_prod (=) beside) (m_recv len s) (ikcp_recv len k)"
proof -
  obtain Q where Q: "mem_inv s Q {}" "k = as_lists s Q" using st by (auto simp: stands_for_def)
  have kk: "rcv_queue k = contents s (Q RcvQueue)" "nrcv_que k = nrcv_que (blk s)" "rcv_wnd k = rcv_wnd (blk s)"
    by (simp_all add: Q(2) as_lists_sels)
  have e: "iqueue_is_empty (head_of RcvQueue) s = Ok (rcv_queue k = [])"
    using walk(3) [OF Q(1), of RcvQueue] by (simp add: kk contents_def)
  define pk where "pk = ikcp_peeksize k"
  note p = m_peeksize_ok [OF st, folded pk_def]
  consider "rcv_queue k = [] \<or> pk < 0 \<or> \<bar>len\<bar> < pk" | "rcv_queue k \<noteq> []" "\<not> pk < 0" "\<not> \<bar>len\<bar> < pk" by blast
  then show ?thesis
  proof cases
    case 1
    then show ?thesis using st e p by (auto simp: m_recv_def ikcp_recv_def Let_def pk_def [symmetric])
  next
    case 2
    define ms rest where m: "ms = fst (first_message (rcv_queue k))" "rest = snd (first_message (rcv_queue k))"
    define k1 where "k1 = (if len < 0 then k else k\<lparr>rcv_queue := rest, nrcv_que := nrcv_que k - length ms\<rparr>)"
    define total where "total = sum_message (rcv_queue k)"
    define fin where "fin = (\<lambda>k2 :: ikcpcb. if nrcv_que k2 < unat (rcv_wnd k2) \<and> unat (rcv_wnd k) \<le> nrcv_que k
      then k2\<lparr>kprobe := kprobe k2 OR IKCP_ASK_TELL\<rparr> else k2)"
    have l: "ikcp_recv len k = bindR (copy_out \<bar>len\<bar> ms) (\<lambda>bs. assertR (sint total = pk) (Ok (sint total, bs, fin (move_ready k1))))"
      using 2 by (simp add: ikcp_recv_def Let_def pk_def [symmetric] case_prod_unfold m k1_def total_def fin_def)
    obtain s1 where s1: "merge_loop (len < 0) (hd (Q RcvQueue @ [head_of RcvQueue])) \<bar>len\<bar> 0 [] s
        = then_do (copy_out \<bar>len\<bar> ms) (\<lambda>cs. Some (Ok (total, cs, s1)))" "stands_for s1 k1"
    proof (cases "len < 0")
      case True
      then show ?thesis using that [of s] merge_peek_ok [OF Q(1), of "[]" "Q RcvQueue" "\<bar>len\<bar>" 0 "[]"] st by (simp add: kk m k1_def total_def)
    next
      case False
      then show ?thesis using that merge_take_ok [OF Q(1), of "\<bar>len\<bar>" 0 "[]"]
        by (auto simp: kk m k1_def total_def Q(2) [symmetric] intro: stands_forI)
    qed
    obtain s2 where s2: "m_move_ready s1 = Some (Ok s2)" "stands_for s2 (move_ready k1)" using m_move_ready_refines [OF s1(2)] by blast
    have "queue_free fin" by (simp add: fin_def queue_free_def with_queues_def)
    from on_blk_refines [OF s2(2) this] have fin: "stands_for (on_blk fin s2) (fin (move_ready k1))" .
    have "on_blk fin s2 = (if nrcv_que (blk s2) < unat (rcv_wnd (blk s2)) \<and> unat (rcv_wnd (blk s)) \<le> nrcv_que (blk s)
        then on_blk (\<lambda>k. k\<lparr>kprobe := kprobe k OR IKCP_ASK_TELL\<rparr>) s2 else s2)"
      by (simp add: fin_def on_blk_def kk)
    then have "m_recv len s = then_do (copy_out \<bar>len\<bar> ms) (\<lambda>bs. if sint total \<noteq> pk then Some (Fail AssertFail)
        else Some (Ok (sint total, bs, on_blk fin s2)))"
      using 2 e p walk(1) [OF Q(1), of RcvQueue] s1(1) s2(1)
      by (cases "copy_out \<bar>len\<bar> ms") (simp_all add: m_recv_def Let_def)
    then show ?thesis using fin by (cases "copy_out \<bar>len\<bar> ms") (simp_all add: l)
  qed
qed

section \<open>Flushing\<close>

text \<open>
  The loop of \<open>ikcp_flush\<close> over \<open>snd_buf\<close>; \<open>rs\<close> says for the segments so far why they were sent or not, and what
  they are then.
\<close>

partial_function (option) flush_loop :: "nat \<Rightarrow> (send_reason \<times> kseg) list \<Rightarrow> kout \<Rightarrow> kmem
    \<Rightarrow> ((send_reason \<times> kseg) list \<times> kout \<times> kmem) res option" where
  "flush_loop p rs w s =
     (if p = head_of SndBuf then Some (Ok (rs, w, s))
      else then_do (get_seg p s) (\<lambda>seg.
        let why = send_reason (kcurrent (blk s)) (resent_limit (blk s)) seg in
        if why = NotNow then then_do (next_of p s) (\<lambda>next. flush_loop next (rs @ [(why, seg)]) w s)
        else let seg1 = refreshed (blk s) why seg in
          then_do (put_seg p seg1 s) (\<lambda>s1. then_do (put_segment (blk s) seg1 w) (\<lambda>w1.
          then_do (next_of p s1) (\<lambda>next. flush_loop next (rs @ [(why, seg1)]) w1 s1)))))"

definition m_flush :: "kmem \<Rightarrow> (byte list list \<times> kmem) res option" where
  "m_flush s =
     (if \<not> updated (blk s) then Some (Ok ([], s))
      else
        let a = last_ack (blk s) in
        then_do (flush_acks (blk s) (take (ackcount (blk s)) (acklist (blk s))) \<lparr>pend = [], outs = []\<rparr>) (\<lambda>w1.
        let s1 = on_blk (\<lambda>k. update_probe (k\<lparr>ackcount := 0\<rparr>)) s in
        then_do (flush_probe IKCP_ASK_SEND IKCP_CMD_WASK a (blk s1) w1) (\<lambda>w2.
        then_do (flush_probe IKCP_ASK_TELL IKCP_CMD_WINS a (blk s1) w2) (\<lambda>w3.
        let wnd = flush_window (blk s1) in
        after (m_move_to_buf wnd (on_blk (\<lambda>k. k\<lparr>kprobe := 0\<rparr>) s1)) (\<lambda>s2.
        then_do (next_of (head_of SndBuf) s2) (\<lambda>p.
        after (flush_loop p [] w3 s2) (\<lambda>(rs, w4, s3).
        then_do (if pend w4 = [] then Ok w4 else ikcp_output (blk s3) w4) (\<lambda>w5.
        let dead = list_ex (\<lambda>(why, seg). why \<noteq> NotNow \<and> dead_link (blk s3) \<le> s_xmit seg) rs
        in Some (Ok (outs w5, on_blk (\<lambda>k. adapt_cwnd wnd (map fst rs)
             (k\<lparr>kxmit := kxmit k + of_nat (length (filter (\<lambda>r. fst r = TimedOut) rs)),
                kstate := (if dead then -1 else kstate k)\<rparr>)) s3))))))))))"

definition m_update :: "u32 \<Rightarrow> kmem \<Rightarrow> (byte list list \<times> kmem) res option" where
  "m_update current s0 =
     (let s = on_blk (\<lambda>k. k\<lparr>kcurrent := current\<rparr>) s0;
          s1 = (if updated (blk s) then s else on_blk (\<lambda>k. k\<lparr>updated := True, ts_flush := current\<rparr>) s);
          slap0 = itimediff current (ts_flush (blk s1));
          far = 10000 \<le> slap0 \<or> slap0 < -10000;
          s2 = (if far then on_blk (\<lambda>k. k\<lparr>ts_flush := current\<rparr>) s1 else s1);
          slap = (if far then 0 else slap0)
      in if 0 \<le> slap then
           let t = ts_flush (blk s2) + kinterval (blk s2);
               t1 = (if 0 \<le> itimediff current t then current + kinterval (blk s2) else t)
           in m_flush (on_blk (\<lambda>k. k\<lparr>ts_flush := t1\<rparr>) s2)
         else Some (Ok ([], s2)))"

text \<open>What the functions of the output read of the control block, they read in memory.\<close>

lemma with_queues_sels [simp]:
  "kconv (with_queues a b c d k) = kconv k" "kmtu (with_queues a b c d k) = kmtu k" "updated (with_queues a b c d k) = updated k"
  "koutput (with_queues a b c d k) = koutput k" "kbuffer (with_queues a b c d k) = kbuffer k"
  "ackcount (with_queues a b c d k) = ackcount k" "acklist (with_queues a b c d k) = acklist k"
  "kcurrent (with_queues a b c d k) = kcurrent k" "dead_link (with_queues a b c d k) = dead_link k"
  "rx_rto (with_queues a b c d k) = rx_rto k" "nodelay (with_queues a b c d k) = nodelay k"
  "ts_flush (with_queues a b c d k) = ts_flush k" "kinterval (with_queues a b c d k) = kinterval k"
  "kprobe (with_queues a b c d k) = kprobe k" "rcv_nxt (with_queues a b c d k) = rcv_nxt k"
  "rcv_wnd (with_queues a b c d k) = rcv_wnd k" "snd_una (with_queues a b c d k) = snd_una k"
  "snd_nxt (with_queues a b c d k) = snd_nxt k" "kmss (with_queues a b c d k) = kmss k" "cwnd (with_queues a b c d k) = cwnd k"
  "ssthresh (with_queues a b c d k) = ssthresh k" "kincr (with_queues a b c d k) = kincr k"
  "kxmit (with_queues a b c d k) = kxmit k" "kstate (with_queues a b c d k) = kstate k"
  by (simp_all add: with_queues_def)

lemma output_reads [simp]:
  "ikcp_output (with_queues a b c d k) w = ikcp_output k w" "put_bytes (with_queues a b c d k) bs w = put_bytes k bs w"
  "ikcp_wnd_unused (with_queues a b c d k) = ikcp_wnd_unused k" "resent_limit (with_queues a b c d k) = resent_limit k"
  "flush_window (with_queues a b c d k) = flush_window k" "last_ack (with_queues a b c d k) = last_ack k"
  by (simp_all add: ikcp_output_def put_bytes_def ikcp_wnd_unused_def resent_limit_def flush_window_def last_ack_def
      with_queues_def Let_def)

lemma put_bytes_reads [simp]: "put_bytes (with_queues a b c d k) = put_bytes k"
  by (intro ext) simp

lemma put_reads [simp]:
  "make_room (with_queues a b c d k) n w = make_room k n w" "put_header (with_queues a b c d k) seg w = put_header k seg w"
  "put_segment (with_queues a b c d k) seg w = put_segment k seg w"
  by (simp_all add: make_room_def put_header_def put_segment_def cong: if_cong)

lemma control_reads [simp]:
  "control_seg cmd sn ts (with_queues a b c d k) = control_seg cmd sn ts k"
  "flush_probe ask cmd e (with_queues a b c d k) w = flush_probe ask cmd e k w"
  by (simp_all add: control_seg_def flush_probe_def)

lemma flush_acks_reads [simp]: "flush_acks (with_queues a b c d k) as = flush_acks k as"
  by (induction as) (intro ext, simp)+

lemma refreshed_reads [simp]: "refreshed (with_queues a b c d k) why seg = refreshed k why seg"
  by (cases why) (simp_all add: refreshed_def)

lemma flush_segments_reads [simp]: "flush_segments (with_queues a b c d k) ss w = flush_segments k ss w"
  by (induction ss arbitrary: w) (simp_all add: Let_def)

lemma as_lists_with: "as_lists s Q = with_queues (contents s (Q SndQueue)) (contents s (Q RcvQueue)) (contents s (Q SndBuf))
    (contents s (Q RcvBuf)) (blk s)"
  by (simp add: as_lists_def with_queues_def)

lemma flush_loop_ok:
  assumes "mem_inv s Q {}" and "Q SndBuf = xs @ ns"
  shows "refines (\<lambda>(rs', w', s') (rs, w1). rs' = rs0 @ rs \<and> w' = w1 \<and> mem_inv s' Q {} \<and> blk s' = blk s
      \<and> as_lists s' Q = (as_lists s Q)\<lparr>snd_buf := contents s xs @ map snd rs\<rparr>)
    (flush_loop (hd (ns @ [head_of SndBuf])) rs0 w s) (flush_segments (blk s) (contents s ns) w)"
  using assms
proof (induction ns arbitrary: xs s rs0 w)
  case Nil
  then show ?case by (simp add: flush_loop.simps as_lists_def)
next
  case (Cons p ns)
  note w = walk(4,6) [OF Cons.prems]
  let ?seg = "the (segs s p)"
  define why where "why = send_reason (kcurrent (blk s)) (resent_limit (blk s)) ?seg"
  have q: "Q SndBuf = (xs @ [p]) @ ns" using Cons.prems(2) by simp
  show ?case
  proof (cases "why = NotNow")
    case True
    have "flush_loop p rs0 w s = flush_loop (hd (ns @ [head_of SndBuf])) (rs0 @ [(NotNow, ?seg)]) w s"
      using w True by (subst flush_loop.simps) (simp add: Let_def why_def)
    then show ?thesis using Cons.IH [OF Cons.prems(1) q, of "rs0 @ [(NotNow, ?seg)]" w] True
      by (cases "flush_segments (blk s) (contents s ns) w") (auto simp: Let_def why_def)
  next
    case False
    define seg1 where "seg1 = refreshed (blk s) why ?seg"
    obtain s1 where s1: "put_seg p seg1 s = Ok s1" "mem_inv s1 Q {}" "blk s1 = blk s" "the (segs s1 p) = seg1"
      "contents s1 xs = contents s xs" "contents s1 ns = contents s ns" "\<And>r. r \<noteq> SndBuf \<Longrightarrow> contents s1 (Q r) = contents s (Q r)"
      by (rule update_ok [OF Cons.prems]) (rule that)
    have n1: "next_of p s1 = Ok (hd (ns @ [head_of SndBuf]))" by (rule walk(4) [OF s1(2) Cons.prems(2)])
    have l: "flush_segments (blk s) (contents s (p # ns)) w = bindR (put_segment (blk s) seg1 w) (\<lambda>w1.
        bindR (flush_segments (blk s) (contents s ns) w1) (\<lambda>(rs, w2). Ok ((why, seg1) # rs, w2)))"
      using False by (simp add: Let_def why_def [symmetric] seg1_def)
    have m: "flush_loop p rs0 w s = then_do (put_segment (blk s) seg1 w) (\<lambda>w1.
        flush_loop (hd (ns @ [head_of SndBuf])) (rs0 @ [(why, seg1)]) w1 s1)"
      using w False n1 s1(1) by (subst flush_loop.simps) (simp add: Let_def why_def [symmetric] seg1_def [symmetric])
    show ?thesis
    proof (cases "put_segment (blk s) seg1 w")
      case (Inl e)
      then show ?thesis unfolding l using m by simp
    next
      case (Inr w1)
      have same: "(as_lists s1 Q)\<lparr>snd_buf := ss\<rparr> = (as_lists s Q)\<lparr>snd_buf := ss\<rparr>" for ss
        using s1(3,7) by (simp add: as_lists_def)
      show ?thesis unfolding l using m Inr Cons.IH [OF s1(2) q, of "rs0 @ [(why, seg1)]" w1]
        by (cases "flush_segments (blk s) (contents s ns) w1") (auto simp: s1(3-6) same)
    qed
  qed
qed

lemma stands_for_reads:
  assumes "stands_for s k"
  shows "updated k = updated (blk s)" "last_ack k = last_ack (blk s)" "flush_acks k as w = flush_acks (blk s) as w"
    "ackcount k = ackcount (blk s)" "acklist k = acklist (blk s)" "flush_probe ask cmd e k w = flush_probe ask cmd e (blk s) w"
    "flush_window k = flush_window (blk s)" "ikcp_output k w = ikcp_output (blk s) w" "dead_link k = dead_link (blk s)"
    "flush_segments k ss w = flush_segments (blk s) ss w" "ts_flush k = ts_flush (blk s)" "kinterval k = kinterval (blk s)"
    "kconv k = kconv (blk s)" "kcurrent k = kcurrent (blk s)" "rcv_nxt k = rcv_nxt (blk s)" "rcv_wnd k = rcv_wnd (blk s)"
    "snd_una k = snd_una (blk s)"
proof -
  obtain a b c d where k: "k = with_queues a b c d (blk s)" by (rule stands_for_blk [OF assms])
  show "updated k = updated (blk s)" "last_ack k = last_ack (blk s)" "flush_acks k as w = flush_acks (blk s) as w"
    "ackcount k = ackcount (blk s)" "acklist k = acklist (blk s)" "flush_probe ask cmd e k w = flush_probe ask cmd e (blk s) w"
    "flush_window k = flush_window (blk s)" "ikcp_output k w = ikcp_output (blk s) w" "dead_link k = dead_link (blk s)"
    "flush_segments k ss w = flush_segments (blk s) ss w" "ts_flush k = ts_flush (blk s)" "kinterval k = kinterval (blk s)"
    "kconv k = kconv (blk s)" "kcurrent k = kcurrent (blk s)" "rcv_nxt k = rcv_nxt (blk s)" "rcv_wnd k = rcv_wnd (blk s)"
    "snd_una k = snd_una (blk s)"
    unfolding k by simp_all
qed

lemma queue_free_comp: "queue_free f \<Longrightarrow> queue_free g \<Longrightarrow> queue_free (\<lambda>k. f (g k))"
  by (simp add: queue_free_def)

lemma probe_free: "queue_free (\<lambda>k. update_probe (k\<lparr>ackcount := 0\<rparr>))"
  by (simp add: queue_free_def with_queues_def update_probe_def Let_def)

lemma adapt_free: "queue_free (\<lambda>k. adapt_cwnd wnd whys (k\<lparr>kxmit := kxmit k + n, kstate := (if dead then -1 else kstate k)\<rparr>))"
proof -
  have 1: "queue_free (\<lambda>k. k\<lparr>kxmit := kxmit k + n, kstate := (if dead then -1 else kstate k)\<rparr>)"
    by (simp add: queue_free_def with_queues_def)
  have 2: "queue_free (\<lambda>k. if Skipped \<in> set whys then
      k\<lparr>ssthresh := at_least_min ((snd_nxt k - snd_una k) div 2), cwnd := at_least_min ((snd_nxt k - snd_una k) div 2) + resent_limit k,
        kincr := (at_least_min ((snd_nxt k - snd_una k) div 2) + resent_limit k) * kmss k\<rparr> else k)"
    by (cases "Skipped \<in> set whys") (simp_all add: queue_free_def with_queues_def resent_limit_def)
  have 3: "queue_free (\<lambda>k. if TimedOut \<in> set whys then k\<lparr>ssthresh := at_least_min (wnd div 2), cwnd := 1, kincr := kmss k\<rparr> else k)"
    by (cases "TimedOut \<in> set whys") (simp_all add: queue_free_def with_queues_def)
  have 4: "queue_free (\<lambda>k. if cwnd k < 1 then k\<lparr>cwnd := 1, kincr := kmss k\<rparr> else k)"
    by (simp add: queue_free_def with_queues_def)
  from queue_free_comp [OF 4 queue_free_comp [OF 3 queue_free_comp [OF 2 1]]] show ?thesis
    unfolding adapt_cwnd_def Let_def .
qed

text \<open>The end of \<open>ikcp_flush\<close>, from the loop on.\<close>

lemma m_flush_end_ok:
  assumes st: "stands_for s2 k2"
  shows "refines beside
     (then_do (next_of (head_of SndBuf) s2) (\<lambda>p. after (flush_loop p [] w3 s2) (\<lambda>(rs, w4, s3).
        then_do (if pend w4 = [] then Ok w4 else ikcp_output (blk s3) w4) (\<lambda>w5.
        let dead = list_ex (\<lambda>(why, seg). why \<noteq> NotNow \<and> dead_link (blk s3) \<le> s_xmit seg) rs
        in Some (Ok (outs w5, on_blk (\<lambda>k. adapt_cwnd wnd (map fst rs)
             (k\<lparr>kxmit := kxmit k + of_nat (length (filter (\<lambda>r. fst r = TimedOut) rs)),
                kstate := (if dead then -1 else kstate k)\<rparr>)) s3))))))
     (bindR (flush_segments k2 (snd_buf k2) w3) (\<lambda>(rs, w4).
        bindR (if pend w4 = [] then Ok w4 else ikcp_output k2 w4) (\<lambda>w5.
        let dead = list_ex (\<lambda>(why, seg). why \<noteq> NotNow \<and> dead_link k2 \<le> s_xmit seg) rs;
            k3 = k2\<lparr>snd_buf := map snd rs, kxmit := kxmit k2 + of_nat (length (filter (\<lambda>r. fst r = TimedOut) rs)),
                   kstate := (if dead then -1 else kstate k2)\<rparr>
        in Ok (outs w5, adapt_cwnd wnd (map fst rs) k3))))"
    (is "refines beside (then_do _ (\<lambda>p. after _ ?f)) (bindR _ ?g)")
proof -
  obtain Q where Q: "mem_inv s2 Q {}" "k2 = as_lists s2 Q" using st by (auto simp: stands_for_def)
  have b: "snd_buf k2 = contents s2 (Q SndBuf)" by (simp add: Q(2) as_lists_sels)
  have "refines beside (after (flush_loop (hd (Q SndBuf @ [head_of SndBuf])) [] w3 s2) ?f)
      (bindR (flush_segments (blk s2) (contents s2 (Q SndBuf)) w3) ?g)"
  proof (rule refines_bind [OF flush_loop_ok [OF Q(1), of "[]" "Q SndBuf"]])
    show "Q SndBuf = [] @ Q SndBuf" by simp
    fix x :: "(send_reason \<times> kseg) list \<times> kout \<times> kmem" and y :: "(send_reason \<times> kseg) list \<times> kout"
    assume rel: "(case x of (rs', w', s') \<Rightarrow> \<lambda>(rs, w1). rs' = [] @ rs \<and> w' = w1 \<and> mem_inv s' Q {} \<and> blk s' = blk s2
      \<and> as_lists s' Q = (as_lists s2 Q)\<lparr>snd_buf := contents s2 [] @ map snd rs\<rparr>) y"
    obtain rs w4 where y: "y = (rs, w4)" by (cases y)
    obtain s3 where x: "x = (rs, w4, s3)" and inv: "mem_inv s3 Q {}" and eq: "blk s3 = blk s2"
      "as_lists s3 Q = (as_lists s2 Q)\<lparr>snd_buf := contents s2 [] @ map snd rs\<rparr>"
      using rel y by (cases x) auto
    define dead where "dead = list_ex (\<lambda>(why, seg). why \<noteq> NotNow \<and> dead_link (blk s3) \<le> s_xmit seg) rs"
    define F where "F = (\<lambda>k. adapt_cwnd wnd (map fst rs) (k\<lparr>kxmit := kxmit k + of_nat (length (filter (\<lambda>r. fst r = TimedOut) rs)),
      kstate := (if dead then -1 else kstate k)\<rparr>))"
    have "stands_for s3 (k2\<lparr>snd_buf := map snd rs\<rparr>)" by (rule stands_forI [OF inv]) (simp add: eq(2) Q(2))
    from on_blk_refines [OF this adapt_free] have fin: "stands_for (on_blk F s3) (F (k2\<lparr>snd_buf := map snd rs\<rparr>))"
      unfolding F_def .
    define k3 where "k3 = k2\<lparr>snd_buf := map snd rs, kxmit := kxmit k2 + of_nat (length (filter (\<lambda>r. fst r = TimedOut) rs)),
      kstate := (if dead then -1 else kstate k2)\<rparr>"
    have "F (k2\<lparr>snd_buf := map snd rs\<rparr>) = adapt_cwnd wnd (map fst rs) k3" by (simp add: F_def k3_def)
    then have "refines beside (Some (Ok (bs, on_blk F s3))) (Ok (bs, adapt_cwnd wnd (map fst rs) k3))" for bs using fin by simp
    note res = this [unfolded k3_def]
    have rd: "dead_link k2 = dead_link (blk s3)" "ikcp_output k2 w4 = ikcp_output (blk s3) w4"
      using stands_for_reads [OF st] by (simp_all add: eq(1))
    show "refines beside (?f x) (?g y)"
      unfolding x y case_prod_conv rd Let_def dead_def [symmetric]
      by (rule refines_then) (rule res [unfolded F_def])
  qed
  then show ?thesis using walk(1) [OF Q(1), of SndBuf] by (simp add: b stands_for_reads(10) [OF st])
qed

lemma m_move_to_buf_refines: "stands_for s k \<Longrightarrow> \<exists>s'. m_move_to_buf wnd s = Some (Ok s') \<and> stands_for s' (move_to_buf wnd k)"
  using m_move_to_buf_ok by (fastforce simp: stands_for_def)

lemma m_flush_ok:
  assumes st: "stands_for s k"
  shows "refines beside (m_flush s) (ikcp_flush k)"
proof (cases "updated (blk s)")
  case False
  then show ?thesis using st by (simp add: m_flush_def ikcp_flush_def stands_for_reads(1) [OF st])
next
  case True
  define a where "a = last_ack (blk s)"
  define s1 where "s1 = on_blk (\<lambda>k. update_probe (k\<lparr>ackcount := 0\<rparr>)) s"
  define k1 where "k1 = update_probe (k\<lparr>ackcount := 0\<rparr>)"
  have st1: "stands_for s1 k1" unfolding s1_def k1_def by (rule on_blk_refines [OF st probe_free])
  define wnd where "wnd = flush_window (blk s1)"
  have "queue_free (\<lambda>k. k\<lparr>kprobe := 0\<rparr>)" by (simp add: queue_free_def with_queues_def)
  from on_blk_refines [OF st1 this] obtain s2 where s2: "m_move_to_buf wnd (on_blk (\<lambda>k. k\<lparr>kprobe := 0\<rparr>) s1) = Some (Ok s2)"
    "stands_for s2 (move_to_buf wnd (k1\<lparr>kprobe := 0\<rparr>))"
    using m_move_to_buf_refines by blast
  note rd = stands_for_reads [OF st] and rd1 = stands_for_reads [OF st1, folded wnd_def]
  show ?thesis
    using True unfolding m_flush_def ikcp_flush_def rd Let_def a_def [symmetric] s1_def [symmetric] k1_def [symmetric]
      rd1 wnd_def [symmetric] s2(1)
    by (simp only: not_True_eq_False if_False then_do_simps)
      (intro refines_then, rule m_flush_end_ok [OF s2(2), of _ wnd, unfolded Let_def])
qed

lemma field_free [simp]:
  "queue_free (\<lambda>k. k\<lparr>kcurrent := t\<rparr>)" "queue_free (\<lambda>k. k\<lparr>updated := True, ts_flush := t\<rparr>)" "queue_free (\<lambda>k. k\<lparr>ts_flush := t\<rparr>)"
  "queue_free (\<lambda>k. k\<lparr>rmt_wnd := u\<rparr>)" "queue_free (\<lambda>k. k\<lparr>kprobe := kprobe k OR v\<rparr>)" "queue_free (ikcp_update_ack rtt)"
  by (simp_all add: queue_free_def with_queues_def ikcp_update_ack_def Let_def)

lemma m_update_ok:
  assumes st: "stands_for s0 k0"
  shows "refines beside (m_update t s0) (ikcp_update t k0)"
proof -
  define s k where "s = on_blk (\<lambda>k. k\<lparr>kcurrent := t\<rparr>) s0" and "k = k0\<lparr>kcurrent := t\<rparr>"
  have 1: "stands_for s k" unfolding s_def k_def by (rule on_blk_refines [OF st]) simp
  define s1 k1 where "s1 = (if updated (blk s) then s else on_blk (\<lambda>k. k\<lparr>updated := True, ts_flush := t\<rparr>) s)"
    and "k1 = (if updated (blk s) then k else k\<lparr>updated := True, ts_flush := t\<rparr>)"
  have 2: "stands_for s1 k1" unfolding s1_def k1_def using 1 on_blk_refines [OF 1 field_free(2), of t] by simp
  define slap0 where "slap0 = itimediff t (ts_flush (blk s1))"
  define far where "far \<longleftrightarrow> 10000 \<le> slap0 \<or> slap0 < -10000"
  define s2 k2 where "s2 = (if far then on_blk (\<lambda>k. k\<lparr>ts_flush := t\<rparr>) s1 else s1)" and "k2 = (if far then k1\<lparr>ts_flush := t\<rparr> else k1)"
  have 3: "stands_for s2 k2" unfolding s2_def k2_def using 2 on_blk_refines [OF 2 field_free(3), of t] by simp
  define t1 where "t1 = (if 0 \<le> itimediff t (ts_flush (blk s2) + kinterval (blk s2)) then t + kinterval (blk s2)
    else ts_flush (blk s2) + kinterval (blk s2))"
  define slap where "slap = (if far then 0 else slap0)"
  have "m_update t s0 = (if 0 \<le> slap then m_flush (on_blk (\<lambda>k. k\<lparr>ts_flush := t1\<rparr>) s2) else Some (Ok ([], s2)))"
    unfolding m_update_def Let_def s_def [symmetric] s1_def [symmetric] slap0_def [symmetric] far_def [symmetric] s2_def [symmetric]
      t1_def [symmetric] slap_def [symmetric] by (rule refl)
  moreover have "ikcp_update t k0 = (if 0 \<le> slap then ikcp_flush (k2\<lparr>ts_flush := t1\<rparr>) else Ok ([], k2))"
    unfolding ikcp_update_def Let_def k_def [symmetric] stands_for_reads(1) [OF 1] k1_def [symmetric] stands_for_reads(11) [OF 2]
      slap0_def [symmetric] far_def [symmetric] k2_def [symmetric] stands_for_reads(11,12) [OF 3] t1_def [symmetric] slap_def [symmetric]
    by (rule refl)
  ultimately show ?thesis using 3 m_flush_ok [OF on_blk_refines [OF 3 field_free(3)]] by simp
qed

section \<open>Input\<close>

text \<open>The list of acknowledgements grows into memory that is not modelled; that there is none is an assertion.\<close>

definition m_ack_push :: "(kmem \<Rightarrow> nat) \<Rightarrow> u32 \<Rightarrow> u32 \<Rightarrow> kmem \<Rightarrow> kmem res" where
  "m_ack_push malloc sn ts s = assertR (\<not> (ackblock (blk s) < ackcount (blk s) + 1 \<and> malloc s = 0))
     (bindR (ikcp_ack_push sn ts (blk s)) (\<lambda>k. Ok (s\<lparr>blk := k\<rparr>)))"

text \<open>A new segment is used without a test for null.\<close>

definition m_input_push :: "(kmem \<Rightarrow> nat) \<Rightarrow> u32 \<Rightarrow> khdr \<Rightarrow> byte list \<Rightarrow> kmem \<Rightarrow> kmem res option" where
  "m_input_push malloc conv h buf s =
     (if itimediff (h_sn h) (rcv_nxt (blk s) + rcv_wnd (blk s)) < 0 then
        then_do (m_ack_push malloc (h_sn h) (h_ts h) s) (\<lambda>s1.
          if 0 \<le> itimediff (h_sn h) (rcv_nxt (blk s1)) then
            then_do (received_segment conv h buf) (\<lambda>seg.
              let (a, s2) = ikcp_segment_new malloc seg s1 in if a = 0 then Some (Fail NullDeref) else m_parse_data a s2)
          else Some (Ok s1))
      else Some (Ok s))"

definition m_input_ack :: "khdr \<Rightarrow> kmem \<Rightarrow> kmem res option" where
  "m_input_ack h s =
     (let s1 = (if 0 \<le> itimediff (kcurrent (blk s)) (h_ts h)
                then on_blk (ikcp_update_ack (itimediff (kcurrent (blk s)) (h_ts h))) s else s)
      in after (m_parse_ack (h_sn h) s1) (\<lambda>s2. Some (m_shrink_buf s2)))"

definition m_input_command :: "(kmem \<Rightarrow> nat) \<Rightarrow> khdr \<Rightarrow> byte list \<Rightarrow> u32 option \<times> kmem \<Rightarrow> (u32 option \<times> kmem) res option" where
  "m_input_command malloc h buf = (\<lambda>(m, s0).
     after (m_parse_una (h_una h) (on_blk (\<lambda>k. k\<lparr>rmt_wnd := ucast (h_wnd h)\<rparr>) s0)) (\<lambda>s1. then_do (m_shrink_buf s1) (\<lambda>s.
     let cmd = ucast (h_cmd h) :: u32
     in if cmd = IKCP_CMD_ACK then after (m_input_ack h s) (\<lambda>s2. Some (Ok (next_maxack (h_sn h) m, s2)))
        else if cmd = IKCP_CMD_PUSH then after (m_input_push malloc (kconv (blk s)) h buf s) (\<lambda>s2. Some (Ok (m, s2)))
        else if cmd = IKCP_CMD_WASK then Some (Ok (m, on_blk (\<lambda>k. k\<lparr>kprobe := kprobe k OR IKCP_ASK_TELL\<rparr>) s))
        else Some (Ok (m, s)))))"

lemma after_mono [partial_function_mono]:
  assumes "\<And>x. mono_option (\<lambda>f. k f x)"
  shows "mono_option (\<lambda>f. after m (\<lambda>x. k f x))"
proof (cases m)
  case (Some r)
  then show ?thesis using then_do_mono [of k r] assms by (simp add: after_def)
qed (simp add: after_def monotone_def flat_ord_def)

partial_function (option) m_input_segments ::
  "(kmem \<Rightarrow> nat) \<Rightarrow> byte list \<Rightarrow> int \<Rightarrow> u32 option \<times> kmem \<Rightarrow> (int \<times> u32 option \<times> kmem) res option" where
  "m_input_segments malloc buf sz s =
     (if sz < int IKCP_OVERHEAD then Some (Ok (0, s))
      else then_do (ikcp_decode32u buf) (\<lambda>d.
        if fst d \<noteq> kconv (blk (snd s)) then Some (Ok (-1, s))
        else then_do (decode_header (snd d)) (\<lambda>e.
          if sz - int IKCP_OVERHEAD < uint (h_len (fst e)) then Some (Ok (-2, s))
          else if \<not> known_command (h_cmd (fst e)) then Some (Ok (-3, s))
          else after (m_input_command malloc (fst e) (snd e) s) (\<lambda>s1.
            m_input_segments malloc (drop (unat (h_len (fst e))) (snd e)) (sz - int IKCP_OVERHEAD - uint (h_len (fst e))) s1))))"

definition m_input :: "(kmem \<Rightarrow> nat) \<Rightarrow> byte list \<Rightarrow> int \<Rightarrow> kmem \<Rightarrow> (int \<times> kmem) res option" where
  "m_input malloc buf sz s =
     (if sz < int IKCP_OVERHEAD then Some (Ok (-1, s))
      else after (m_input_segments malloc buf sz (None, s)) (\<lambda>(r, m, s1).
        if r \<noteq> 0 then Some (Ok (r, s1))
        else
          after (case m of None \<Rightarrow> Some (Ok s1) | Some a \<Rightarrow> m_parse_fastack a s1) (\<lambda>s2.
          Some (Ok (0, if 0 < itimediff (snd_una (blk s2)) (snd_una (blk s)) then on_blk grow_cwnd s2 else s2)))))"

lemma m_ack_push_ok:
  assumes st: "stands_for s k"
  shows "refines_or (no_memory malloc {AssertFail, NullDeref}) stands_for (Some (m_ack_push malloc sn ts s)) (ikcp_ack_push sn ts k)"
proof (cases "ackblock (blk s) < ackcount (blk s) + 1 \<and> malloc s = 0")
  case True
  then show ?thesis by (auto simp: m_ack_push_def intro: out_of_memory)
next
  case free: False
  obtain Q where Q: "mem_inv s Q {}" "k = as_lists s Q" using st by (auto simp: stands_for_def)
  show ?thesis
  proof (cases "ikcp_ack_push sn ts (blk s)")
    case (Inl e)
    then have "ikcp_ack_push sn ts k = Fail e"
      unfolding Q(2) as_lists_def ikcp_ack_push_def by (simp add: Let_def split: if_splits)
    then show ?thesis using Inl free by (intro refines_orI) (simp add: m_ack_push_def)
  next
    case (Inr k')
    then have "ikcp_ack_push sn ts k = Ok (k'\<lparr>snd_queue := contents s (Q SndQueue), rcv_queue := contents s (Q RcvQueue),
        snd_buf := contents s (Q SndBuf), rcv_buf := contents s (Q RcvBuf)\<rparr>)"
      unfolding Q(2) as_lists_def ikcp_ack_push_def by (auto simp: Let_def split: if_splits)
    moreover have "stands_for (s\<lparr>blk := k'\<rparr>) (k'\<lparr>snd_queue := contents s (Q SndQueue), rcv_queue := contents s (Q RcvQueue),
        snd_buf := contents s (Q SndBuf), rcv_buf := contents s (Q RcvBuf)\<rparr>)"
      unfolding set_blk by (rule stands_forI [of _ Q]) (simp_all add: Q(1) as_lists_def)
    ultimately show ?thesis using Inr free by (intro refines_orI) (simp add: m_ack_push_def)
  qed
qed

lemma take_segment_ok:
  assumes m: "allocates malloc" and st: "stands_for s1 k1"
  shows "refines_or (no_memory malloc {AssertFail, NullDeref}) stands_for
      (let (a, s2) = ikcp_segment_new malloc seg s1 in if a = 0 then Some (Fail NullDeref) else m_parse_data a s2)
      (Ok (ikcp_parse_data seg k1))"
proof (cases "malloc s1 = 0")
  case True
  then show ?thesis by (simp add: segment_new_null out_of_memory)
next
  case False
  obtain Q where Q: "mem_inv s1 Q {}" "k1 = as_lists s1 Q" using st by (auto simp: stands_for_def)
  obtain a s2 where s2: "ikcp_segment_new malloc seg s1 = (a, s2)" "mem_inv s2 Q (insert a {})" "segs s2 = (segs s1)(a \<mapsto> seg)"
    "blk s2 = blk s1" "a \<notin> members Q \<union> {}" "a \<noteq> 0"
    by (rule segment_new_ok [OF Q(1) finite.emptyI m False]) (rule that)
  have "contents s2 (Q r) = contents s1 (Q r)" for r
    using s2(3,5) by (intro contents_cong) (auto simp: in_members)
  then have "as_lists s2 Q = k1" by (simp add: as_lists_def s2(4) Q(2))
  then show ?thesis using m_parse_data_ok [OF s2(2)] s2(1,3,6) by (intro refines_orI) (auto intro: stands_forI)
qed

lemma m_input_push_ok:
  assumes m: "allocates malloc" and st: "stands_for s k"
  shows "refines_or (no_memory malloc {AssertFail, NullDeref}) stands_for (m_input_push malloc conv h buf s) (input_push conv h buf k)"
proof (cases "itimediff (h_sn h) (rcv_nxt (blk s) + rcv_wnd (blk s)) < 0")
  case False
  then show ?thesis using st by (intro refines_orI) (simp add: m_input_push_def input_push_def stands_for_reads [OF st])
next
  case True
  have "refines_or (no_memory malloc {AssertFail, NullDeref}) stands_for
      (if 0 \<le> itimediff (h_sn h) (rcv_nxt (blk s1)) then
         then_do (received_segment conv h buf) (\<lambda>seg. let (a, s2) = ikcp_segment_new malloc seg s1 in
           if a = 0 then Some (Fail NullDeref) else m_parse_data a s2) else Some (Ok s1))
      (if 0 \<le> itimediff (h_sn h) (rcv_nxt k1) then bindR (received_segment conv h buf) (\<lambda>seg. Ok (ikcp_parse_data seg k1)) else Ok k1)"
    if "stands_for s1 k1" for s1 k1
    using that refines_or_then [OF take_segment_ok [OF m that]] by (auto simp: stands_for_reads [OF that])
  from refines_or_bind [OF m_ack_push_ok [OF st] this] show ?thesis
    using True by (simp add: m_input_push_def input_push_def stands_for_reads [OF st])
qed

lemma m_parse_ack_refines: "stands_for s k \<Longrightarrow> refines stands_for (m_parse_ack sn s) (Ok (ikcp_parse_ack sn k))"
  "stands_for s k \<Longrightarrow> refines stands_for (m_parse_una sn s) (Ok (ikcp_parse_una sn k))"
  "stands_for s k \<Longrightarrow> refines stands_for (m_parse_fastack sn s) (Ok (ikcp_parse_fastack sn k))"
  "stands_for s k \<Longrightarrow> refines stands_for (Some (m_shrink_buf s)) (Ok (ikcp_shrink_buf k))"
  using m_parse_ack_ok m_parse_una_ok m_parse_fastack_ok m_shrink_buf_ok by auto

lemma m_input_ack_ok:
  assumes st: "stands_for s k"
  shows "refines stands_for (m_input_ack h s) (Ok (input_ack h k))"
proof -
  let ?rtt = "itimediff (kcurrent (blk s)) (h_ts h)"
  define s1 k1 where "s1 = (if 0 \<le> ?rtt then on_blk (ikcp_update_ack ?rtt) s else s)"
    and "k1 = (if 0 \<le> ?rtt then ikcp_update_ack ?rtt k else k)"
  have "stands_for s1 k1" using st on_blk_refines [OF st, of "ikcp_update_ack ?rtt"] by (simp add: s1_def k1_def)
  then obtain s2 where s2: "m_parse_ack (h_sn h) s1 = Some (Ok s2)" "stands_for s2 (ikcp_parse_ack (h_sn h) k1)"
    using m_parse_ack_ok by blast
  then obtain s3 where s3: "m_shrink_buf s2 = Ok s3" "stands_for s3 (ikcp_shrink_buf (ikcp_parse_ack (h_sn h) k1))"
    using m_shrink_buf_ok by blast
  have "m_input_ack h s = Some (Ok s3)"
    unfolding m_input_ack_def Let_def s1_def [symmetric] using s2(1) s3(1) by simp
  moreover have "input_ack h k = ikcp_shrink_buf (ikcp_parse_ack (h_sn h) k1)"
    unfolding input_ack_def Let_def stands_for_reads(14) [OF st] k1_def [symmetric] ..
  ultimately show ?thesis using s3(2) by simp
qed

lemma m_input_command_ok:
  assumes m: "allocates malloc" and st: "stands_for s0 k0"
  shows "refines_or (no_memory malloc {AssertFail, NullDeref}) beside (m_input_command malloc h buf (m, s0)) (input_command h buf (m, k0))"
proof -
  obtain s1 where s1: "m_parse_una (h_una h) (on_blk (\<lambda>k. k\<lparr>rmt_wnd := ucast (h_wnd h)\<rparr>) s0) = Some (Ok s1)"
    "stands_for s1 (ikcp_parse_una (h_una h) (k0\<lparr>rmt_wnd := ucast (h_wnd h)\<rparr>))"
    using m_parse_una_ok [OF on_blk_refines [OF st field_free(4)]] by blast
  define k where "k = ikcp_shrink_buf (ikcp_parse_una (h_una h) (k0\<lparr>rmt_wnd := ucast (h_wnd h)\<rparr>))"
  obtain s where s: "m_shrink_buf s1 = Ok s" "stands_for s k" using m_shrink_buf_ok [OF s1(2)] by (auto simp: k_def)
  define cmd where "cmd = (ucast (h_cmd h) :: u32)"
  have l: "input_command h buf (m, k0) = (if cmd = IKCP_CMD_ACK then Ok (next_maxack (h_sn h) m, input_ack h k)
      else if cmd = IKCP_CMD_PUSH then bindR (input_push (kconv k) h buf k) (\<lambda>k1. Ok (m, k1))
      else if cmd = IKCP_CMD_WASK then Ok (m, k\<lparr>kprobe := kprobe k OR IKCP_ASK_TELL\<rparr>) else Ok (m, k))"
    by (simp add: input_command_def Let_def k_def [symmetric] cmd_def [symmetric])
  have p: "m_input_command malloc h buf (m, s0) = (if cmd = IKCP_CMD_ACK then after (m_input_ack h s) (\<lambda>s2. Some (Ok (next_maxack (h_sn h) m, s2)))
      else if cmd = IKCP_CMD_PUSH then after (m_input_push malloc (kconv (blk s)) h buf s) (\<lambda>s2. Some (Ok (m, s2)))
      else if cmd = IKCP_CMD_WASK then Some (Ok (m, on_blk (\<lambda>k. k\<lparr>kprobe := kprobe k OR IKCP_ASK_TELL\<rparr>) s)) else Some (Ok (m, s)))"
    by (simp add: m_input_command_def s1(1) s(1) Let_def cmd_def [symmetric])
  have "refines beside (after (m_input_ack h s) (\<lambda>s2. Some (Ok (next_maxack (h_sn h) m, s2)))) (Ok (next_maxack (h_sn h) m, input_ack h k))"
    using m_input_ack_ok [OF s(2), of h] by auto
  moreover have "refines_or (no_memory malloc {AssertFail, NullDeref}) beside (after (m_input_push malloc (kconv (blk s)) h buf s) (\<lambda>s2. Some (Ok (m, s2))))
      (bindR (input_push (kconv k) h buf k) (\<lambda>k1. Ok (m, k1)))"
    by (rule refines_or_bind [where R = stands_for])
      (use m_input_push_ok [OF assms(1) s(2)] stands_for_reads(13) [OF s(2)] in auto)
  moreover have "stands_for (on_blk (\<lambda>k. k\<lparr>kprobe := kprobe k OR IKCP_ASK_TELL\<rparr>) s) (k\<lparr>kprobe := kprobe k OR IKCP_ASK_TELL\<rparr>)"
    by (rule on_blk_refines [OF s(2)]) simp
  ultimately show ?thesis unfolding l p using s(2) by (auto intro: refines_orI)
qed

lemma m_input_segments_ok:
  assumes m: "allocates malloc" and "stands_for (snd s) (snd k)" and "fst s = fst k"
  shows "refines_or (no_memory malloc {AssertFail, NullDeref}) (rel_prod (=) beside) (m_input_segments malloc buf sz s) (input_segments buf sz k)"
  using assms(2,3)
proof (induction buf sz k arbitrary: s rule: input_segments.induct)
  case (1 buf sz k)
  have conv: "kconv (snd k) = kconv (blk (snd s))" by (rule stands_for_reads(13) [OF "1.prems"(1)])
  have here: "beside s k" using "1.prems" by (cases s; cases k) simp
  show ?case
  proof (cases "sz < int IKCP_OVERHEAD")
    case True
    then show ?thesis using here by (intro refines_orI) (simp add: m_input_segments.simps input_segments.simps)
  next
    case False
    show ?thesis
      unfolding m_input_segments.simps [of malloc buf sz s] input_segments.simps [of buf sz k] case_prod_unfold
    proof (simp only: False if_False, intro refines_or_then, goal_cases)
      case (1 d)
      show ?case
      proof (cases "fst d \<noteq> kconv (blk (snd s))")
        case True
        then show ?thesis using here by (intro refines_orI) (simp add: conv)
      next
        case same: False
        show ?thesis
        proof (simp only: conv same if_False, rule refines_or_then)
          fix e
          assume e: "decode_header (snd d) = Ok e"
          show "refines_or (no_memory malloc {AssertFail, NullDeref}) (rel_prod (=) beside)
            (if sz - int IKCP_OVERHEAD < uint (h_len (fst e)) then Some (Ok (- 2, s))
             else if \<not> known_command (h_cmd (fst e)) then Some (Ok (- 3, s))
             else after (m_input_command malloc (fst e) (snd e) s) (\<lambda>s1. m_input_segments malloc
               (drop (unat (h_len (fst e))) (snd e)) (sz - int IKCP_OVERHEAD - uint (h_len (fst e))) s1))
            (if sz - int IKCP_OVERHEAD < uint (h_len (fst e)) then Ok (- 2, k)
             else if \<not> known_command (h_cmd (fst e)) then Ok (- 3, k)
             else bindR (input_command (fst e) (snd e) k) (input_segments (drop (unat (h_len (fst e))) (snd e))
               (sz - int IKCP_OVERHEAD - uint (h_len (fst e)))))"
          proof (cases "sz - int IKCP_OVERHEAD < uint (h_len (fst e)) \<or> \<not> known_command (h_cmd (fst e))")
            case True
            then show ?thesis using here by (auto intro!: refines_orI)
          next
            case go: False
            have cmd: "refines_or (no_memory malloc {AssertFail, NullDeref}) beside (m_input_command malloc (fst e) (snd e) s) (input_command (fst e) (snd e) k)"
              using m_input_command_ok [OF m "1.prems"(1), of "fst e" "snd e" "fst k"] "1.prems"(2)
              by (metis prod.collapse)
            have "refines_or (no_memory malloc {AssertFail, NullDeref}) (rel_prod (=) beside) (m_input_segments malloc (drop (unat (h_len (fst e))) (snd e))
                 (sz - int IKCP_OVERHEAD - uint (h_len (fst e))) s1)
               (input_segments (drop (unat (h_len (fst e))) (snd e)) (sz - int IKCP_OVERHEAD - uint (h_len (fst e))) k1)"
              if "beside s1 k1" "input_command (fst e) (snd e) k = Ok k1" for s1 k1
              by (rule "1.IH" [OF False 1 prod.collapse _ e prod.collapse])
                (use go same conv that in \<open>auto simp: rel_prod_sel\<close>)
            from refines_or_bind [OF cmd this] show ?thesis using go by simp
          qed
        qed
      qed
    qed
  qed
qed

lemma grow_free: "queue_free grow_cwnd"
proof -
  define one where "one = (\<lambda>k :: ikcpcb. if cwnd k < ssthresh k then k\<lparr>cwnd := cwnd k + 1, kincr := kincr k + kmss k\<rparr>
    else
      let i0 = (if kincr k < kmss k then kmss k else kincr k); i1 = i0 + ((kmss k * kmss k) div i0 + kmss k div 16)
      in k\<lparr>kincr := i1, cwnd := (if (cwnd k + 1) * kmss k \<le> i1 then cwnd k + 1 else cwnd k)\<rparr>)"
  define two where "two = (\<lambda>m (k :: ikcpcb). if rmt_wnd k < cwnd k then k\<lparr>cwnd := rmt_wnd k, kincr := rmt_wnd k * m\<rparr> else k)"
  have g: "grow_cwnd k = (if cwnd k < rmt_wnd k then two (kmss k) (one k) else k)" for k :: ikcpcb
    unfolding grow_cwnd_def one_def two_def Let_def by (rule refl)
  have "one (with_queues a b c d k) = with_queues a b c d (one k)" for a b c d k
    unfolding one_def Let_def with_queues_def by (cases "cwnd k < ssthresh k") simp_all
  moreover have "two m (with_queues a b c d k) = with_queues a b c d (two m k)" for m a b c d k
    by (simp add: two_def with_queues_def)
  moreover have "cwnd (with_queues a b c d k) = cwnd k" "rmt_wnd (with_queues a b c d k) = rmt_wnd k"
    "kmss (with_queues a b c d k) = kmss k" for a b c d k
    by (simp_all add: with_queues_def)
  ultimately show ?thesis by (simp add: queue_free_def g)
qed

lemma m_input_ok:
  assumes m: "allocates malloc" and st: "stands_for s k"
  shows "refines_or (no_memory malloc {AssertFail, NullDeref}) beside (m_input malloc buf sz s) (ikcp_input buf sz k)"
proof (cases "sz < int IKCP_OVERHEAD")
  case True
  then show ?thesis using st by (intro refines_orI) (simp add: m_input_def ikcp_input_def)
next
  case False
  have "refines_or (no_memory malloc {AssertFail, NullDeref}) (rel_prod (=) beside) (m_input_segments malloc buf sz (None, s)) (input_segments buf sz (None, k))"
    by (rule m_input_segments_ok [OF m]) (use st in simp_all)
  then show ?thesis
    unfolding m_input_def ikcp_input_def if_not_P [OF False]
  proof (rule refines_or_bind)
    fix x :: "int \<times> u32 option \<times> kmem" and y :: "int \<times> u32 option \<times> ikcpcb"
    assume "rel_prod (=) beside x y"
    then obtain r n s1 k1 where xy: "x = (r, n, s1)" "y = (r, n, k1)" and st1: "stands_for s1 k1"
      by (cases x; cases y) auto
    obtain s2 where s2: "(case n of None \<Rightarrow> Some (Ok s1) | Some a \<Rightarrow> m_parse_fastack a s1) = Some (Ok s2)"
      "stands_for s2 (case n of None \<Rightarrow> k1 | Some a \<Rightarrow> ikcp_parse_fastack a k1)"
      using st1 m_parse_fastack_ok [OF st1] by (cases n) auto
    show "refines_or (no_memory malloc {AssertFail, NullDeref}) beside
      (case x of (r, m, s1) \<Rightarrow> if r \<noteq> 0 then Some (Ok (r, s1)) else
          after (case m of None \<Rightarrow> Some (Ok s1) | Some a \<Rightarrow> m_parse_fastack a s1) (\<lambda>s2.
          Some (Ok (0, if 0 < itimediff (snd_una (blk s2)) (snd_una (blk s)) then on_blk grow_cwnd s2 else s2))))
      (case y of (r, m, k1) \<Rightarrow> if r \<noteq> 0 then Ok (r, k1) else
          let k2 = (case m of None \<Rightarrow> k1 | Some a \<Rightarrow> ikcp_parse_fastack a k1)
          in Ok (0, if 0 < itimediff (snd_una k2) (snd_una k) then grow_cwnd k2 else k2))"
      using st1 s2 on_blk_refines [OF s2(2) grow_free]
      by (intro refines_orI) (simp add: xy Let_def stands_for_reads(17) [OF s2(2)] stands_for_reads(17) [OF st])
  qed
qed

section \<open>Runs\<close>

text \<open>\<open>ikcp_create\<close> with the heads of its queues; the memory of the block is not initialised before.\<close>

definition m_create :: "u32 \<Rightarrow> kmem res" where
  "m_create conv =
     bindR (iqueue_init (head_of SndQueue) \<lparr>nodes = [1 \<mapsto> (0, 0), 2 \<mapsto> (0, 0), 3 \<mapsto> (0, 0), 4 \<mapsto> (0, 0)], segs = Map.empty,
       blk = ikcp_create conv\<rparr>) (\<lambda>s1. bindR (iqueue_init (head_of RcvQueue) s1) (\<lambda>s2.
     bindR (iqueue_init (head_of SndBuf) s2) (iqueue_init (head_of RcvBuf))))"

fun m_do :: "(kmem \<Rightarrow> nat) \<Rightarrow> kcp_op \<Rightarrow> kmem \<Rightarrow> (byte list list \<times> kmem) res option" where
  "m_do malloc (KSend bs) s = after (Some (m_send malloc bs (int (length bs)) s)) (\<lambda>(r, s'). Some (Ok ([], s')))"
| "m_do malloc (KRecv len) s = after (m_recv len s) (\<lambda>(r, bs, s'). Some (Ok ([], s')))"
| "m_do malloc (KInput bs) s = after (m_input malloc bs (int (length bs)) s) (\<lambda>(r, s'). Some (Ok ([], s')))"
| "m_do malloc (KUpdate t) s = m_update t s"
| "m_do malloc KFlush s = m_flush s"
| "m_do malloc (KSetmtu m) s = Some (Ok ([], on_blk (\<lambda>k. snd (ikcp_setmtu m k)) s))"
| "m_do malloc (KWndsize a b) s = Some (Ok ([], on_blk (ikcp_wndsize a b) s))"
| "m_do malloc (KNodelay a b c d) s = Some (Ok ([], on_blk (ikcp_nodelay a b c d) s))"
| "m_do malloc (KInterval i) s = Some (Ok ([], on_blk (ikcp_interval i) s))"

primrec m_run :: "(kmem \<Rightarrow> nat) \<Rightarrow> kcp_op list \<Rightarrow> kmem \<Rightarrow> (byte list list \<times> kmem) res option" where
  "m_run malloc [] s = Some (Ok ([], s))"
| "m_run malloc (x # xs) s = after (m_do malloc x s) (\<lambda>(ds, s1). after (m_run malloc xs s1) (\<lambda>(es, s2). Some (Ok (ds @ es, s2))))"

lemma settings_free: "queue_free (\<lambda>k. snd (ikcp_setmtu m k))" "queue_free (ikcp_wndsize a b)" "queue_free (ikcp_nodelay a b c d)"
  "queue_free (ikcp_interval i)" "queue_free (ikcp_setoutput out)"
  by (simp_all add: queue_free_def with_queues_def ikcp_setmtu_def ikcp_wndsize_def ikcp_nodelay_def ikcp_interval_def
      ikcp_setoutput_def Let_def)

text \<open>Without memory for its segment, a data segment in the window makes \<open>ikcp_input\<close> follow a null pointer.\<close>

lemma input_without_memory:
  assumes "itimediff (h_sn h) (rcv_nxt (blk s) + rcv_wnd (blk s)) < 0" and "m_ack_push malloc (h_sn h) (h_ts h) s = Ok s1"
    and "0 \<le> itimediff (h_sn h) (rcv_nxt (blk s1))" and "received_segment conv h buf = Ok seg" and "malloc s1 = 0"
  shows "m_input_push malloc conv h buf s = Some (Fail NullDeref)"
  using assms by (simp add: m_input_push_def segment_new_null)

text \<open>What a call may stop with when there is no memory.\<close>

fun null_faults :: "kcp_op \<Rightarrow> fault set" where
  "null_faults (KSend bs) = {AssertFail}"
| "null_faults (KInput bs) = {AssertFail, NullDeref}"
| "null_faults x = {}"

lemma m_do_ok:
  assumes m: "allocates malloc" and st: "stands_for s k"
  shows "refines_or (no_memory malloc (null_faults x)) beside (m_do malloc x s) (kcp_do x k)"
proof (cases x)
  case (KSend bs)
  show ?thesis unfolding KSend m_do.simps kcp_do.simps null_faults.simps by (rule refines_or_bind [OF m_send_ok [OF m st]]) auto
next
  case (KRecv len)
  show ?thesis unfolding KRecv m_do.simps kcp_do.simps
    by (intro refines_orI, rule refines_bind [OF m_recv_ok [OF st]]) auto
next
  case (KInput bs)
  show ?thesis unfolding KInput m_do.simps kcp_do.simps null_faults.simps by (rule refines_or_bind [OF m_input_ok [OF m st]]) auto
qed (use m_update_ok [OF st] m_flush_ok [OF st] on_blk_refines [OF st settings_free(1)] on_blk_refines [OF st settings_free(2)]
    on_blk_refines [OF st settings_free(3)] on_blk_refines [OF st settings_free(4)] in \<open>auto intro!: refines_orI\<close>)

text \<open>
  A run on memory either does what the one on lists does, or it stops at a call that sends or takes a
  datagram, because \<open>malloc\<close> returned null; until then it does what the one on lists does.
\<close>

lemma m_run_ok:
  assumes m: "allocates malloc" and "stands_for s k" and "kcp_run xs k = Ok (ds, k')"
  shows "(\<exists>s'. m_run malloc xs s = Some (Ok (ds, s')) \<and> stands_for s' k')
    \<or> (\<exists>ys x zs es s1 k1 e. xs = ys @ x # zs \<and> m_run malloc ys s = Some (Ok (es, s1)) \<and> kcp_run ys k = Ok (es, k1) \<and> stands_for s1 k1
        \<and> m_do malloc x s1 = Some (Fail e) \<and> e \<in> no_memory malloc (null_faults x) \<and> m_run malloc xs s = Some (Fail e))"
  using assms(2,3)
proof (induction xs arbitrary: s k ds)
  case (Cons x xs)
  from Cons.prems(2) obtain cs k1 es where k1: "kcp_do x k = Ok (cs, k1)" "kcp_run xs k1 = Ok (es, k')" "ds = cs @ es"
    by (auto simp: bindR_eq_Ok)
  consider s1 where "m_do malloc x s = Some (Ok (cs, s1))" "stands_for s1 k1"
    | e where "e \<in> no_memory malloc (null_faults x)" "m_do malloc x s = Some (Fail e)"
    using m_do_ok [OF m Cons.prems(1), of x] k1(1) by (auto simp: refines_or_def)
  then show ?case
  proof cases
    case 1
    from Cons.IH [OF 1(2) k1(2)] show ?thesis
    proof (elim disjE exE conjE)
      fix s'
      assume "m_run malloc xs s1 = Some (Ok (es, s'))" "stands_for s' k'"
      then show ?thesis using 1(1) k1(3) by simp
    next
      fix ys y zs us s2 k2 e
      assume "xs = ys @ y # zs" "m_run malloc ys s1 = Some (Ok (us, s2))" "kcp_run ys k1 = Ok (us, k2)" "stands_for s2 k2"
        "m_do malloc y s2 = Some (Fail e)" "e \<in> no_memory malloc (null_faults y)" "m_run malloc xs s1 = Some (Fail e)"
      then show ?thesis using 1(1) k1(1)
        by (intro disjI2 exI [of _ "x # ys"] exI [of _ y] exI [of _ zs] exI [of _ "cs @ us"] exI [of _ s2] exI [of _ k2] exI [of _ e]) simp
    qed
  next
    case 2
    then show ?thesis using Cons.prems(1)
      by (intro disjI2 exI [of _ "[]"] exI [of _ x] exI [of _ xs] exI [of _ s] exI [of _ k] exI [of _ e]) simp
  qed
qed simp

lemma m_create_ok: "\<exists>s. m_create conv = Ok s \<and> stands_for s (ikcp_create conv)"
proof -
  let ?s = "\<lparr>nodes = [1 \<mapsto> (1, 1), 2 \<mapsto> (2, 2), 3 \<mapsto> (3, 3), 4 \<mapsto> (4, 4)], segs = Map.empty, blk = ikcp_create conv\<rparr>"
  have "m_create conv = Ok ?s" by (simp add: m_create_def link_defs head_of.simps fun_upd_twist)
  moreover have heads: "range head_of = {1, 2, 3, 4}" by (simp add: UNIV_queue_id head_of.simps)
  have "ring ?s (head_of q) []" for q by (cases q) (simp_all add: ring_def pairs_def nx_def pv_def head_of.simps)
  then have "mem_inv ?s (\<lambda>q. []) {}" unfolding mem_inv_def heads by (auto simp: members_def)
  then have "stands_for ?s (ikcp_create conv)"
    by (rule stands_forI) (simp add: as_lists_def ikcp_create_def)
  ultimately show ?thesis by blast
qed


section \<open>Witnesses\<close>

definition next_free :: "kmem \<Rightarrow> nat" where
  "next_free s = Suc (Max (insert 0 (dom (nodes s))))"

lemma next_free_allocates: "allocates next_free" "next_free s \<noteq> 0"
proof -
  have "next_free s \<notin> dom (nodes s)" if fin: "finite (dom (nodes s))" for s
  proof
    assume "next_free s \<in> dom (nodes s)"
    then have "next_free s \<le> Max (insert 0 (dom (nodes s)))" using fin by (intro Max_ge) simp_all
    then show False by (simp add: next_free_def)
  qed
  then show "allocates next_free" by (auto simp: allocates_def)
qed (simp add: next_free_def)


end
