(* ===== verification/BufferMemory.thy ===== *)
theory BufferMemory
  imports NetBuffer
begin

text \<open>
  How much memory a \<open>Buffer\<close> takes: \<open>makeSpace\<close> moves the bytes to the front before it lets the vector grow,
  so the vector never gets longer than twice the most bytes the buffer held, however long it is used.
\<close>

lemma retrieve_vec: "retrieve n b = Ok b' \<Longrightarrow> vec b' = vec b"
  by (auto simp: retrieve_def retrieveAll_def assertR_eq_Ok split: if_splits)

lemma length_copy_in: "copy_in i data v = Ok v' \<Longrightarrow> length v' = length v"
  by (auto simp: copy_in_def overwrite_def split: if_splits)

lemma makeSpace_vec:
  assumes "buf_inv b" and "len \<le> max_size" and "makeSpace len b = Ok b'"
  shows "length (vec b') \<le> max (length (vec b)) (2 * (length (content b) + len))"
proof (cases "size_add (writableBytes b) (prependableBytes b) < size_add len kCheapPrepend")
  case True
  have r: "readerIndex b \<le> writerIndex b" "writerIndex b \<le> length (vec b)" "length (vec b) \<le> max_size"
    using assms(1) by auto
  have "size_add (writableBytes b) (prependableBytes b) = writableBytes b + prependableBytes b" "size_add len kCheapPrepend = len"
    "size_add (writerIndex b) len = writerIndex b + len"
    using assms(1,2) r by (auto simp: writable_room prependableBytes_def kCheapPrepend_def intro!: size_add_small)
  then have small: "length (vec b) < length (content b) + len" and grown: "vec_resize (writerIndex b + len) (vec b) = Ok (vec b')"
    using True assms(1,3) r by (auto simp: makeSpace_def writable_room prependableBytes_def length_content)
  then have "writerIndex b + len \<le> max_size" "vec b' = take (writerIndex b + len) (vec b) @ replicate (writerIndex b + len - length (vec b)) 0"
    by (auto simp: vec_resize_def split: if_splits)
  then have "length (vec b') = writerIndex b + len" by simp
  then have "length (vec b') \<le> 2 * (length (content b) + len)" using small r(2) by simp
  then show ?thesis by simp
next
  case False
  then have "length (vec b') = length (vec b)"
    using assms(3) by (auto simp: makeSpace_def Let_def assertR_eq_Ok copy_within_def overwrite_def split: if_splits)
  then show ?thesis by simp
qed

lemma append_vec:
  assumes "buf_inv b" and "length data \<le> max_size" and "append_bytes data b = Ok b'"
  shows "length (vec b') \<le> max (length (vec b)) (2 * (length (content b) + length data))"
proof -
  obtain c v where c: "ensureWritableBytes (length data) b = Ok c" "copy_in (writerIndex c) data (vec c) = Ok v" "vec b' = v"
    using assms(3) by (auto simp: append_bytes_def)
  have "c = b \<or> makeSpace (length data) b = Ok c"
    using c(1) by (auto simp: ensureWritableBytes_def assertR_eq_Ok split: if_splits)
  then have "length (vec c) \<le> max (length (vec b)) (2 * (length (content b) + length data))"
    using makeSpace_vec [OF assms(1,2)] by auto
  then show ?thesis using length_copy_in [OF c(2)] c(3) by simp
qed

text \<open>The buffer never holds more than \<open>m\<close> bytes.\<close>

primrec within :: "nat \<Rightarrow> nat \<Rightarrow> queue_op list \<Rightarrow> bool" where
  "within m n [] \<longleftrightarrow> n \<le> m"
| "within m n (x # ops) \<longleftrightarrow> n \<le> m
     \<and> (case x of Push xs \<Rightarrow> within m (n + length xs) ops | Pop k \<Rightarrow> k \<le> n \<and> within m (n - k) ops)"

lemma within_start: "within m n ops \<Longrightarrow> n \<le> m"
  by (cases ops) auto

lemma append_within:
  assumes "buf_inv b" and "length (content b) + length data \<le> m" and "length (vec b) \<le> max v (2 * m)" and "max v (2 * m) + m \<le> max_size"
  obtains b' where "append_bytes data b = Ok b'" and "buf_inv b'" and "content b' = content b @ data" and "length (vec b') \<le> max v (2 * m)"
proof -
  have "writerIndex b \<le> length (vec b)" using assms(1) by auto
  then have room: "writerIndex b + length data \<le> max_size" using assms(2-4) by linarith
  then obtain b' where b': "append_bytes data b = Ok b'" "buf_inv b'" "content b' = content b @ data"
    by (rule append_bytes_Ok [OF assms(1)])
  have "length data \<le> max_size" using room by linarith
  from append_vec [OF assms(1) this b'(1)] have "length (vec b') \<le> max v (2 * m)" using assms(2,3) by (simp add: max_def split: if_splits)
  then show ?thesis using that b' by blast
qed

text \<open>
  C27. The memory of a buffer is bounded by what it holds at a time, not by what passes through it: any
  sequence of appends and retrievals, however long, that never asks for more than is there and never lets
  the buffer hold more than \<open>m\<close> bytes runs without a fault, gives the bytes back in order, and the vector
  stays within its first length or twice \<open>m\<close>, whichever is more.
\<close>

theorem buffer_memory_bounded:
  assumes "buf_inv b" and "within m (length (content b)) ops" and "max (length (vec b)) (2 * m) + m \<le> max_size"
  shows "\<exists>out b'. run_queue append_bytes retrieveAsString ops b = Ok (out, b') \<and> buf_inv b'
    \<and> out @ content b' = content b @ pushed ops \<and> length (vec b') \<le> max (length (vec b)) (2 * m)"
proof -
  define v where "v = length (vec b)"
  have "length (vec b) \<le> max v (2 * m)" "max v (2 * m) + m \<le> max_size" using assms(3) by (simp_all add: v_def)
  then have "\<exists>out b'. run_queue append_bytes retrieveAsString ops b = Ok (out, b') \<and> buf_inv b'
    \<and> out @ content b' = content b @ pushed ops \<and> length (vec b') \<le> max v (2 * m)"
    using assms(1,2)
  proof (induction ops arbitrary: b)
    case (Cons x ops)
    show ?case
    proof (cases x)
      case (Push xs)
      then have w: "within m (length (content b) + length xs) ops" using Cons.prems(4) by simp
      obtain b1 where b1: "append_bytes xs b = Ok b1" "buf_inv b1" "content b1 = content b @ xs" "length (vec b1) \<le> max v (2 * m)"
        using append_within [OF Cons.prems(3) within_start [OF w] Cons.prems(1,2)] by blast
      then show ?thesis using Cons.IH [OF b1(4) Cons.prems(2) b1(2)] w Push by auto
    next
      case (Pop n)
      then have n: "n \<le> length (content b)" "within m (length (content b) - n) ops" using Cons.prems(4) by simp_all
      obtain b1 where b1: "retrieveAsString n b = Ok (take n (content b), b1)" "buf_inv b1" "content b1 = drop n (content b)"
        "vec b1 = vec b"
        by (rule retrieveAsString_Ok [OF Cons.prems(3) n(1)])
      have "length (vec b1) \<le> max v (2 * m)" using b1(4) Cons.prems(1) by simp
      from Cons.IH [OF this Cons.prems(2) b1(2)] n(2) b1(3) obtain out b' where
        "run_queue append_bytes retrieveAsString ops b1 = Ok (out, b')" "buf_inv b'"
        "out @ content b' = drop n (content b) @ pushed ops" "length (vec b') \<le> max v (2 * m)" by auto
      then show ?thesis using Pop b1(1) by simp
    qed
  qed simp
  then show ?thesis by (simp add: v_def)
qed

lemma buffer_memory_bounded_witness:
  "\<exists>out b'. run_queue append_bytes retrieveAsString [Push [3, 4, 5], Pop 4, Push [6], Pop 2, Push [7, 8, 9]] demo_buffer = Ok (out, b')
    \<and> out @ content b' = [1, 2, 3, 4, 5, 6, 7, 8, 9] \<and> length (vec b') \<le> 10"
  using buffer_memory_bounded [of demo_buffer 5 "[Push [3, 4, 5], Pop 4, Push [6], Pop 2, Push [7, 8, 9]]"]
  by (simp add: demo_buffer_facts max_size_def del: run_queue.simps) blast

end
