(* ===== verification/PingPong.thy ===== *)
theory PingPong
  imports TcpStream BufferMemory TcpConnector
begin

text \<open>
  The example programs \<open>example/pingpong\<close>: a server that sends back what it receives, and a client whose
  sessions do the same and count. Their callbacks run on the models of \<open>TcpConnection\<close> and \<open>Buffer\<close>; one
  session with its server is a ring of two connections and two directions of a socket.
\<close>

section \<open>The server\<close>

text \<open>The view stays valid while \<open>send\<close> reads it: \<open>retrieveAll\<close> does not touch the vector.\<close>

definition echo_server :: "(byte list \<Rightarrow> nat sys) \<Rightarrow> tcpconn \<Rightarrow> tcpconn res" where
  "echo_server write c =
     (let (str, b) = retrieveAllAsNetString (inBuf c)
      in bindR (ns_toString (vec b) str) (\<lambda>data. send_conn write data (c\<lparr>inBuf := b\<rparr>)))"

section \<open>A session of the client\<close>

record session =
  readCount :: "64 word"
  writeCount :: "64 word"
  readMessages :: "64 word"

definition new_session :: session where
  "new_session = \<lparr>readCount = 0, writeCount = 0, readMessages = 0\<rparr>"

definition count_message :: "nat \<Rightarrow> session \<Rightarrow> session" where
  "count_message n s = s\<lparr>readMessages := readMessages s + 1, readCount := readCount s + of_nat n,
     writeCount := writeCount s + of_nat n\<rparr>"

definition echo_client :: "(byte list \<Rightarrow> nat sys) \<Rightarrow> tcpconn \<Rightarrow> tcpconn res" where
  "echo_client write c =
     bindR (peekBytes (readableBytes (inBuf c)) (inBuf c)) (\<lambda>data.
     bindR (send_conn write data c) (\<lambda>c1. Ok (c1\<lparr>inBuf := retrieveAll (inBuf c1)\<rparr>)))"

text \<open>The messages of the client: \<open>blockSize\<close> bytes that count up to 127 and start again.\<close>

definition block_message :: "int \<Rightarrow> byte list" where
  "block_message blockSize = map (\<lambda>i. of_nat (i mod 128)) [0..<nat blockSize]"

text \<open>The callback for changes when the connection is up: it sends the message.\<close>

definition session_connected :: "(byte list \<Rightarrow> nat sys) \<Rightarrow> byte list \<Rightarrow> tcpconn \<Rightarrow> tcpconn res" where
  "session_connected write message c = send_conn write message c"

text \<open>Only the callback for messages is set.\<close>

definition on_message :: "(tcpconn \<Rightarrow> tcpconn res) \<Rightarrow> conn_event \<Rightarrow> tcpconn \<Rightarrow> tcpconn res" where
  "on_message f ev c = (if ev = RecvMessage then f c else Ok c)"

section \<open>The ring\<close>

record ring =
  rg_client :: tcpconn
  rg_server :: tcpconn
  rg_up :: nat
  rg_down :: nat
  rg_session :: session

definition up :: "ring \<Rightarrow> link" where
  "up r = \<lparr>sender = rg_client r, receiver = rg_server r, delivered = rg_up r, got = []\<rparr>"

definition down :: "ring \<Rightarrow> link" where
  "down r = \<lparr>sender = rg_server r, receiver = rg_client r, delivered = rg_down r, got = []\<rparr>"

text \<open>The bytes that \<open>readv\<close> delivers, when the kernel has at most \<open>k\<close> at hand.\<close>

definition arriving :: "nat \<Rightarrow> link \<Rightarrow> byte list" where
  "arriving k l = take (min k (sum_list (readFd_iov (inBuf (receiver l))))) (in_flight l)"

datatype ring_op = ServerReads nat int "byte list \<Rightarrow> nat sys" | ServerWrites "byte list \<Rightarrow> nat sys"
  | ClientReads nat int "byte list \<Rightarrow> nat sys" | ClientWrites "byte list \<Rightarrow> nat sys"

fun ring_step :: "ring_op \<Rightarrow> ring \<Rightarrow> ring res" where
  "ring_step (ServerReads k now write) r =
     bindR (handleRead (on_message (echo_server write)) (link_readv k (up r)) now (rg_server r)) (\<lambda>c.
       Ok (r\<lparr>rg_server := c, rg_up := rg_up r + length (arriving k (up r))\<rparr>))"
| "ring_step (ServerWrites write) r = bindR (handleWrite quiet write (rg_server r)) (\<lambda>c. Ok (r\<lparr>rg_server := c\<rparr>))"
| "ring_step (ClientReads k now write) r =
     bindR (handleRead (on_message (echo_client write)) (link_readv k (down r)) now (rg_client r)) (\<lambda>c.
     bindR (readFd (link_readv k (down r)) (inBuf (rg_client r))) (\<lambda>(n, b).
       Ok (r\<lparr>rg_client := c, rg_down := rg_down r + length (arriving k (down r)),
           rg_session := (if 0 < n then count_message (readableBytes b) (rg_session r) else rg_session r)\<rparr>)))"
| "ring_step (ClientWrites write) r = bindR (handleWrite quiet write (rg_client r)) (\<lambda>c. Ok (r\<lparr>rg_client := c\<rparr>))"

fun ring_op_ok :: "ring_op \<Rightarrow> bool" where
  "ring_op_ok (ServerReads k now write) \<longleftrightarrow> write_ok write"
| "ring_op_ok (ServerWrites write) \<longleftrightarrow> write_ok write"
| "ring_op_ok (ClientReads k now write) \<longleftrightarrow> write_ok write"
| "ring_op_ok (ClientWrites write) \<longleftrightarrow> write_ok write"

definition ring_run :: "ring_op list \<Rightarrow> ring \<Rightarrow> ring res" where
  "ring_run = run_steps ring_step"

section \<open>One end\<close>

text \<open>Between events the input buffer is empty, and no vector is longer than \<open>v\<close>.\<close>

definition end_ok :: "nat \<Rightarrow> tcpconn \<Rightarrow> bool" where
  "end_ok v c \<longleftrightarrow> (\<exists>wr. conn_ok wr c) \<and> RecvMessage \<in> hooked c \<and> content (inBuf c) = []
     \<and> length (vec (inBuf c)) \<le> v \<and> length (vec (outBuf c)) \<le> v"

lemma buffer_rest_vec:
  assumes "buffer_rest data n r e c = Ok c'"
  shows "outBuf c' = outBuf c \<or> (\<exists>d. length d \<le> length data \<and> append_bytes d (outBuf c) = Ok (outBuf c'))"
  using assms
  by (auto simp: buffer_rest_def on_net_def assertR_eq_Ok split: if_splits
      intro!: exI [of _ "take r (drop n data)"])

lemma sendInLoop_vec:
  assumes "sendInLoop write data c = Ok c'"
  shows "outBuf c' = outBuf c \<or> (\<exists>d. length d \<le> length data \<and> append_bytes d (outBuf c) = Ok (outBuf c'))"
  using assms
  by (auto simp: sendInLoop_def writeInLoop_def Let_def dest!: in_loop_OkD buffer_rest_vec split: if_splits sys.splits)

lemma handleWrite_vec: "handleWrite quiet write c = Ok c' \<Longrightarrow> vec (outBuf c') = vec (outBuf c)"
  by (auto simp: handleWrite_def writeInLoop_def on_net_def call_back_def
      dest!: in_loop_OkD retrieve_vec split: if_splits sys.splits)

lemma send_end:
  assumes ok: "conn_ok wr c" and wok: "write_ok write" and fits: "length (content (outBuf c)) + length data \<le> m"
    and v: "length (vec (outBuf c)) \<le> v" "2 * m \<le> v" "v + m \<le> max_size"
  obtains c' wr' where "sendInLoop write data c = Ok c'" and "conn_ok wr' c'" and "stream c' = stream c @ data"
    and "same_conn c c'" and "length (vec (outBuf c')) \<le> v" and "\<exists>bs. written c' = written c @ bs"
proof -
  have inv: "buf_inv (outBuf c)" by (rule conn_okD(2) [OF ok])
  then have "writerIndex (outBuf c) \<le> length (vec (outBuf c))" by auto
  then have "writerIndex (outBuf c) + length data \<le> max_size" using fits v by linarith
  then obtain c' wr' where c': "sendInLoop write data c = Ok c'" "conn_ok wr' c'" "stream c' = stream c @ data" "same_conn c c'"
    by (rule sendInLoop_ok [OF ok wok])
  have "length (vec (outBuf c')) \<le> v"
  proof (cases "outBuf c' = outBuf c")
    case False
    then obtain d where d: "length d \<le> length data" "append_bytes d (outBuf c) = Ok (outBuf c')"
      using sendInLoop_vec [OF c'(1)] by blast
    then have "length d \<le> max_size" using fits v by linarith
    from append_vec [OF inv this d(2)] show ?thesis using d(1) fits v by (simp add: max_def split: if_splits)
  qed (simp add: v)
  then show ?thesis using that c' sendInLoop_written [OF c'(1)] by blast
qed

lemma readFd_vec:
  assumes "buf_inv b" and "readv (readFd_iov b) = SysOk data" and "length data \<le> max_size" and "readFd readv b = Ok (n, b')"
  shows "length (vec b') \<le> max (length (vec b)) (2 * (length (content b) + length data))"
proof -
  let ?w = "writableBytes b" and ?d = "take (writableBytes b) data"
  have store: "copy_in (writerIndex b) ?d (vec b) = Ok (overwrite (writerIndex b) ?d (vec b))"
    "buf_inv (b\<lparr>vec := overwrite (writerIndex b) ?d (vec b), writerIndex := writerIndex b + length ?d\<rparr>)"
    "content (b\<lparr>vec := overwrite (writerIndex b) ?d (vec b), writerIndex := writerIndex b + length ?d\<rparr>) = content b @ ?d"
    using store_at_end [OF assms(1), of ?d] by simp_all
  have len: "length (overwrite (writerIndex b) ?d (vec b)) = length (vec b)" using length_copy_in [OF store(1)] .
  show ?thesis
  proof (cases "length data \<le> ?w")
    case True
    then show ?thesis using assms(2,4) store(1) len by (auto simp: readFd_def Let_def)
  next
    case False
    let ?b1 = "b\<lparr>vec := overwrite (writerIndex b) ?d (vec b), writerIndex := writerIndex b + length ?d\<rparr>"
    have "writerIndex b + length ?d = length (vec b)" using False assms(1) by (auto simp: writable_room min_def buf_inv_def)
    then have "append_bytes (drop ?w data) ?b1 = Ok b'" using assms(2,4) store(1) False len by (auto simp: readFd_def Let_def)
    from append_vec [OF store(2) _ this] assms(3) show ?thesis using store(3) len False by (simp add: min_def)
  qed
qed

section \<open>The callbacks\<close>

lemma echo_forms:
  assumes "conn_ok wr c"
  shows "echo_server write c = sendInLoop write (content (inBuf c)) (c\<lparr>inBuf := retrieveAll (inBuf c)\<rparr>)"
    and "echo_client write c = bindR (sendInLoop write (content (inBuf c)) c) (\<lambda>c1. Ok (c1\<lparr>inBuf := retrieveAll (inBuf c1)\<rparr>))"
proof -
  have loop: "in_loop_thread c" "in_loop_thread (c\<lparr>inBuf := b\<rparr>)" for b
    using conn_okD(4) [OF assms] by (simp_all add: in_loop_thread_def watches_def)
  have inv: "buf_inv (inBuf c)" by (rule conn_okD(3) [OF assms])
  then have "readerIndex (inBuf c) + readableBytes (inBuf c) \<le> length (vec (inBuf c))"
    "take (readableBytes (inBuf c)) (drop (readerIndex (inBuf c)) (vec (inBuf c))) = content (inBuf c)"
    by (auto simp: readableBytes_def content_def buf_inv_def)
  then show "echo_server write c = sendInLoop write (content (inBuf c)) (c\<lparr>inBuf := retrieveAll (inBuf c)\<rparr>)"
    using loop by (simp add: echo_server_def retrieveAllAsNetString_def ns_toString_def Let_def send_conn_def)
  show "echo_client write c = bindR (sendInLoop write (content (inBuf c)) c) (\<lambda>c1. Ok (c1\<lparr>inBuf := retrieveAll (inBuf c1)\<rparr>))"
    using loop inv by (simp add: echo_client_def send_conn_def peekBytes_content readable_content)
qed

text \<open>A message arrives: it is sent back, and the input buffer is empty again.\<close>

lemma echo_end:
  assumes ok: "conn_ok wr c" and wok: "write_ok write" and fits: "length (content (outBuf c)) + length (content (inBuf c)) \<le> m"
    and v: "length (vec (outBuf c)) \<le> v" "length (vec (inBuf c)) \<le> v" "2 * m \<le> v" "v + m \<le> max_size"
    and f: "f = echo_server write \<or> f = echo_client write" and hook: "RecvMessage \<in> hooked c"
  obtains c' where "f c = Ok c'" and "end_ok v c'" and "stream c' = stream c @ content (inBuf c)"
    and "\<exists>bs. written c' = written c @ bs" and "hooked c' = hooked c"
proof -
  have inv: "buf_inv (inBuf c)" by (rule conn_okD(3) [OF ok])
  let ?c = "c\<lparr>inBuf := retrieveAll (inBuf c)\<rparr>"
  have ok0: "conn_ok wr ?c" using ok inv by (simp add: conn_ok_def)
  obtain c1 wr1 where c1: "sendInLoop write (content (inBuf c)) c = Ok c1" "conn_ok wr1 c1" "stream c1 = stream c @ content (inBuf c)"
    "same_conn c c1" "length (vec (outBuf c1)) \<le> v" "\<exists>bs. written c1 = written c @ bs"
    by (rule send_end [OF ok wok fits v(1,3,4)])
  obtain c2 wr2 where c2: "sendInLoop write (content (inBuf c)) ?c = Ok c2" "conn_ok wr2 c2" "stream c2 = stream ?c @ content (inBuf c)"
    "same_conn ?c c2" "length (vec (outBuf c2)) \<le> v" "\<exists>bs. written c2 = written ?c @ bs"
    by (rule send_end [OF ok0 wok _ _ v(3,4), of "content (inBuf c)"]) (use fits v in simp_all)
  let ?c1 = "c1\<lparr>inBuf := retrieveAll (inBuf c1)\<rparr>"
  have same: "inBuf c1 = inBuf c" "hooked c1 = hooked c" "inBuf c2 = retrieveAll (inBuf c)" "hooked c2 = hooked c"
    using c1(4) c2(4) by (simp_all add: same_conn_def)
  have "end_ok v ?c1"
    using c1(2,5) inv v(2) hook same by (auto simp: end_ok_def conn_ok_def)
  moreover have "end_ok v c2"
    using c2(2,5) v(2) hook same by (auto simp: end_ok_def)
  ultimately show ?thesis
    using f echo_forms [OF ok, of "write"] c1 c2 same that by (auto simp: stream_def)
qed

lemma read_end:
  assumes ok: "end_ok v c" and r: "readv (readFd_iov (inBuf c)) = SysOk d" "d \<noteq> []" and wok: "write_ok write"
    and fits: "length (content (outBuf c)) + length d \<le> m" and v: "2 * m \<le> v" "v + m \<le> max_size"
    and f: "f = echo_server write \<or> f = echo_client write"
  obtains c' b where "handleRead (on_message f) readv now c = Ok c'" and "end_ok v c'" and "stream c' = stream c @ d"
    and "\<exists>bs. written c' = written c @ bs"
    and "readFd readv (inBuf c) = Ok (int (length d), b)" and "readableBytes b = length d"
proof -
  obtain wr where c: "conn_ok wr c" "RecvMessage \<in> hooked c" "content (inBuf c) = []" "length (vec (inBuf c)) \<le> v"
    "length (vec (outBuf c)) \<le> v" using ok by (auto simp: end_ok_def)
  have inv: "buf_inv (inBuf c)" by (rule conn_okD(3) [OF c(1)])
  then have "writerIndex (inBuf c) \<le> length (vec (inBuf c))" by auto
  then have room: "writerIndex (inBuf c) + length d \<le> max_size" "length d \<le> max_size" using c(4) fits v by linarith+
  obtain b where b: "readFd readv (inBuf c) = Ok (int (length d), b)" "buf_inv b" "content b = d"
    using readFd_load [of "inBuf c" readv d, OF inv r(1) room(1)] c(3) by auto
  have vec: "length (vec b) \<le> v"
    using readFd_vec [of "inBuf c" readv d "int (length d)" b, OF inv r(1) room(2) b(1)] c(3,4) fits v
    by (simp add: max_def split: if_splits)
  let ?c = "c\<lparr>inBuf := b, activedTime := now, ctrace := ctrace c @ [RecvMessage]\<rparr>"
  have ok': "conn_ok wr ?c" using c(1) b(2) by (simp add: conn_ok_def)
  obtain c' where c': "f ?c = Ok c'" "end_ok v c'" "stream c' = stream ?c @ content (inBuf ?c)" "\<exists>bs. written c' = written ?c @ bs"
    by (rule echo_end [OF ok' wok _ _ _ v f]) (use fits c vec b(3) in simp_all)
  have "handleRead (on_message f) readv now c = Ok c'"
    using c'(1) b(1) r(2) c(2) by (simp add: handleRead_def conn_okD(1) [OF c(1)] call_back_def on_message_def)
  then show ?thesis using that c' b(1,3) readable_content [OF b(2)] by (simp add: stream_def)
qed

lemma read_nothing:
  assumes "end_ok v c" and r: "readv (readFd_iov (inBuf c)) = SysErr e"
  shows "handleRead cb readv now c = Ok c" and "readFd readv (inBuf c) = Ok (-1, inBuf c)"
proof -
  obtain wr where ok: "conn_ok wr c" using assms(1) by (auto simp: end_ok_def)
  show "readFd readv (inBuf c) = Ok (-1, inBuf c)" by (rule readFd_error [of readv "inBuf c", OF r])
  then show "handleRead cb readv now c = Ok c" by (simp add: handleRead_def handleError_def conn_okD(1) [OF ok])
qed

lemma write_end:
  assumes "end_ok v c" and "write_ok write"
  obtains c' where "handleWrite quiet write c = Ok c'" and "end_ok v c'" and "stream c' = stream c"
    and "\<exists>bs. written c' = written c @ bs"
proof -
  obtain wr where ok: "conn_ok wr c" using assms(1) by (auto simp: end_ok_def)
  obtain c' wr' where c': "handleWrite quiet write c = Ok c'" "conn_ok wr' c'" "stream c' = stream c" "same_conn c c'"
    by (rule handleWrite_ok [OF ok assms(2)])
  have "end_ok v c'" using assms(1) c' handleWrite_vec [OF c'(1)] by (auto simp: end_ok_def same_conn_def)
  then show ?thesis using that c' handleWrite_written [OF c'(1)] by blast
qed

section \<open>The message goes round\<close>

text \<open>The bytes under way, the oldest first: from the server to the client, then from the client to the server.\<close>

definition around :: "ring \<Rightarrow> byte list" where
  "around r = in_flight (down r) @ content (outBuf (rg_server r)) @ in_flight (up r) @ content (outBuf (rg_client r))"

definition ring_ok :: "nat \<Rightarrow> byte list \<Rightarrow> ring \<Rightarrow> bool" where
  "ring_ok v msg r \<longleftrightarrow> end_ok v (rg_client r) \<and> end_ok v (rg_server r)
     \<and> rg_up r \<le> length (written (rg_client r)) \<and> rg_down r \<le> length (written (rg_server r))
     \<and> around r = rotate (rg_down r) msg
     \<and> readCount (rg_session r) = of_nat (rg_down r) \<and> writeCount (rg_session r) = of_nat (rg_down r)"

lemma around_streams:
  assumes "rg_up r \<le> length (written (rg_client r))" and "rg_down r \<le> length (written (rg_server r))"
  shows "around r = drop (rg_down r) (stream (rg_server r)) @ drop (rg_up r) (stream (rg_client r))"
  using assms by (simp add: around_def in_flight_def up_def down_def stream_def)

lemma arriving_form:
  "\<exists>rest. in_flight l = arriving k l @ rest"
  "link_readv k l (readFd_iov (inBuf (receiver l))) = (if arriving k l = [] then SysErr EWOULDBLOCK else SysOk (arriving k l))"
proof -
  show "\<exists>rest. in_flight l = arriving k l @ rest" unfolding arriving_def by (metis append_take_drop_id)
  show "link_readv k l (readFd_iov (inBuf (receiver l))) = (if arriving k l = [] then SysErr EWOULDBLOCK else SysOk (arriving k l))"
    by (simp only: link_readv_def arriving_def Let_def)
qed

lemma client_reads:
  assumes ok: "ring_ok v msg r" and wok: "write_ok write" and v: "2 * length msg \<le> v" "v + length msg \<le> max_size"
  shows "\<exists>r'. ring_step (ClientReads k now write) r = Ok r' \<and> ring_ok v msg r'"
proof -
  let ?c = "rg_client r" and ?d = "arriving k (down r)"
  have r: "end_ok v ?c" "rg_up r \<le> length (written ?c)" "rg_down r \<le> length (written (rg_server r))" "around r = rotate (rg_down r) msg"
    using ok by (simp_all add: ring_ok_def)
  obtain rest where fl: "in_flight (down r) = ?d @ rest" using arriving_form(1) by blast
  have readv: "link_readv k (down r) (readFd_iov (inBuf ?c)) = (if ?d = [] then SysErr EWOULDBLOCK else SysOk ?d)"
    using arriving_form(2) [of k "down r"] by (simp add: down_def)
  show ?thesis
  proof (cases "?d = []")
    case True
    then have "link_readv k (down r) (readFd_iov (inBuf ?c)) = SysErr EWOULDBLOCK" using readv by simp
    note none = read_nothing [of v ?c "link_readv k (down r)", OF r(1) this]
    have "ring_step (ClientReads k now write) r = Ok r" using none True by simp
    then show ?thesis using ok by blast
  next
    case False
    then have rd: "link_readv k (down r) (readFd_iov (inBuf ?c)) = SysOk ?d" using readv by simp
    have "length (around r) = length msg" by (simp add: r(4))
    then have fits: "length (content (outBuf ?c)) + length ?d \<le> length msg" by (simp add: around_def fl)
    obtain c' b where c': "handleRead (on_message (echo_client write)) (link_readv k (down r)) now ?c = Ok c'" "end_ok v c'"
      "stream c' = stream ?c @ ?d" "\<exists>bs. written c' = written ?c @ bs"
      "readFd (link_readv k (down r)) (inBuf ?c) = Ok (int (length ?d), b)" "readableBytes b = length ?d"
      by (rule read_end [where readv = "link_readv k (down r)", OF r(1) rd False wok fits v, of "echo_client write" now]) simp_all
    let ?r = "r\<lparr>rg_client := c', rg_down := rg_down r + length ?d, rg_session := count_message (length ?d) (rg_session r)\<rparr>"
    have step: "ring_step (ClientReads k now write) r = Ok ?r" using c'(1,5,6) False by simp
    have le: "rg_up r \<le> length (written c')" using r(2) c'(4) by auto
    have "length (in_flight (down r)) = length ?d + length rest" by (simp add: fl)
    then have le2: "rg_down r + length ?d \<le> length (written (rg_server r))" using r(3) by (simp add: in_flight_def down_def)
    have streams: "rg_up r \<le> length (stream ?c)" using r(2) by (simp add: stream_def)
    have fl2: "drop (rg_down r) (written (rg_server r)) = ?d @ rest" using fl by (simp add: in_flight_def down_def)
    have old: "around r = ?d @ rest @ content (outBuf (rg_server r)) @ drop (rg_up r) (stream ?c)"
      using around_streams [OF r(2,3)] r(3) fl2 by (simp add: stream_def)
    have "drop (rg_down r + length ?d) (written (rg_server r)) = rest"
      using fl2 by (metis add.commute append_eq_conv_conj drop_drop)
    then have "around ?r = rest @ content (outBuf (rg_server r)) @ drop (rg_up r) (stream ?c) @ ?d"
      using around_streams [of ?r] le le2 c'(3) streams by (simp add: stream_def [of "rg_server r"])
    also have "\<dots> = rotate (length ?d) (around r)" unfolding old using rotate_append [of ?d] by simp
    finally have "around ?r = rotate (rg_down ?r) msg" by (simp add: r(4) rotate_rotate add.commute)
    then have "ring_ok v msg ?r" using ok c'(2) le le2 by (simp add: ring_ok_def count_message_def)
    then show ?thesis using step by blast
  qed
qed

lemma server_reads:
  assumes ok: "ring_ok v msg r" and wok: "write_ok write" and v: "2 * length msg \<le> v" "v + length msg \<le> max_size"
  shows "\<exists>r'. ring_step (ServerReads k now write) r = Ok r' \<and> ring_ok v msg r'"
proof -
  let ?c = "rg_server r" and ?d = "arriving k (up r)"
  have r: "end_ok v ?c" "rg_up r \<le> length (written (rg_client r))" "rg_down r \<le> length (written ?c)" "around r = rotate (rg_down r) msg"
    using ok by (simp_all add: ring_ok_def)
  obtain rest where fl: "in_flight (up r) = ?d @ rest" using arriving_form(1) by blast
  have readv: "link_readv k (up r) (readFd_iov (inBuf ?c)) = (if ?d = [] then SysErr EWOULDBLOCK else SysOk ?d)"
    using arriving_form(2) [of k "up r"] by (simp add: up_def)
  show ?thesis
  proof (cases "?d = []")
    case True
    then have "link_readv k (up r) (readFd_iov (inBuf ?c)) = SysErr EWOULDBLOCK" using readv by simp
    note none = read_nothing [of v ?c "link_readv k (up r)", OF r(1) this]
    have "ring_step (ServerReads k now write) r = Ok r" using none True by simp
    then show ?thesis using ok by blast
  next
    case False
    then have rd: "link_readv k (up r) (readFd_iov (inBuf ?c)) = SysOk ?d" using readv by simp
    have "length (around r) = length msg" by (simp add: r(4))
    then have fits: "length (content (outBuf ?c)) + length ?d \<le> length msg" by (simp add: around_def fl)
    obtain c' b where c': "handleRead (on_message (echo_server write)) (link_readv k (up r)) now ?c = Ok c'" "end_ok v c'"
      "stream c' = stream ?c @ ?d" "\<exists>bs. written c' = written ?c @ bs"
      by (rule read_end [where readv = "link_readv k (up r)", OF r(1) rd False wok fits v, of "echo_server write" now]) simp_all
    let ?r = "r\<lparr>rg_server := c', rg_up := rg_up r + length ?d\<rparr>"
    have step: "ring_step (ServerReads k now write) r = Ok ?r" using c'(1) by simp
    have le: "rg_down r \<le> length (written c')" using r(3) c'(4) by auto
    have "length (in_flight (up r)) = length ?d + length rest" by (simp add: fl)
    then have le2: "rg_up r + length ?d \<le> length (written (rg_client r))" using r(2) by (simp add: in_flight_def up_def)
    have streams: "rg_down r \<le> length (stream ?c)" using r(3) by (simp add: stream_def)
    have fl2: "drop (rg_up r) (written (rg_client r)) = ?d @ rest" using fl by (simp add: in_flight_def up_def)
    then have "drop (rg_up r + length ?d) (written (rg_client r)) = rest" by (metis add.commute append_eq_conv_conj drop_drop)
    then have "around ?r = around r"
      using around_streams [of ?r] around_streams [OF r(2,3)] le le2 r(2) c'(3) streams fl2 by (simp add: stream_def [of "rg_client r"])
    then have "ring_ok v msg ?r" using ok c'(2) le le2 by (simp add: ring_ok_def)
    then show ?thesis using step by blast
  qed
qed

lemma ring_writes:
  assumes ok: "ring_ok v msg r" and wok: "write_ok write"
  shows "\<exists>r'. ring_step (ClientWrites write) r = Ok r' \<and> ring_ok v msg r'" and "\<exists>r'. ring_step (ServerWrites write) r = Ok r' \<and> ring_ok v msg r'"
proof -
  have r: "end_ok v (rg_client r)" "end_ok v (rg_server r)" "rg_up r \<le> length (written (rg_client r))"
    "rg_down r \<le> length (written (rg_server r))" using ok by (simp_all add: ring_ok_def)
  obtain c where c: "handleWrite quiet write (rg_client r) = Ok c" "end_ok v c" "stream c = stream (rg_client r)"
    "\<exists>bs. written c = written (rg_client r) @ bs" by (rule write_end [OF r(1) wok])
  have up: "rg_up r \<le> length (written c)" using r(3) c(4) by auto
  have "around (r\<lparr>rg_client := c\<rparr>) = around r"
    using around_streams [of "r\<lparr>rg_client := c\<rparr>"] around_streams [OF r(3,4)] up r(4) c(3) by simp
  then show "\<exists>r'. ring_step (ClientWrites write) r = Ok r' \<and> ring_ok v msg r'" using ok c(1,2) up by (simp add: ring_ok_def)
  obtain s where s: "handleWrite quiet write (rg_server r) = Ok s" "end_ok v s" "stream s = stream (rg_server r)"
    "\<exists>bs. written s = written (rg_server r) @ bs" by (rule write_end [OF r(2) wok])
  have down: "rg_down r \<le> length (written s)" using r(4) s(4) by auto
  have "around (r\<lparr>rg_server := s\<rparr>) = around r"
    using around_streams [of "r\<lparr>rg_server := s\<rparr>"] around_streams [OF r(3,4)] down r(3) s(3) by simp
  then show "\<exists>r'. ring_step (ServerWrites write) r = Ok r' \<and> ring_ok v msg r'" using ok s(1,2) down by (simp add: ring_ok_def)
qed

lemma ring_run_ok:
  assumes "ring_ok v msg r" and "list_all ring_op_ok xs" and "2 * length msg \<le> v" "v + length msg \<le> max_size"
  shows "\<exists>r'. ring_run xs r = Ok r' \<and> ring_ok v msg r'"
  using assms(1,2)
proof (induction xs arbitrary: r)
  case (Cons x xs)
  have "\<exists>r'. ring_step x r = Ok r' \<and> ring_ok v msg r'"
    using Cons.prems client_reads [OF Cons.prems(1) _ assms(3,4)] server_reads [OF Cons.prems(1) _ assms(3,4)]
      ring_writes [OF Cons.prems(1)]
    by (cases x) (simp_all del: ring_step.simps)
  then obtain r1 where "ring_step x r = Ok r1" "ring_ok v msg r1" by blast
  then show ?case using Cons.IH Cons.prems(2) by (simp add: ring_run_def)
qed (simp add: ring_run_def)

text \<open>
  C7. The ping-pong example conserves its message: from the moment a session is connected and has sent its
  block, whatever each read and write takes and however the events of the two ends interleave, the bytes
  under way (read from where the client will read next) are the block, turned by the number of bytes the
  client has read: none is lost, doubled or moved. The session counts exactly the bytes that came back,
  no buffer grows past its bound, and nothing faults, for ever.
\<close>

theorem pingpong_circulates:
  assumes "conn_ok False a" and "conn_ok False b" and "RecvMessage \<in> hooked a" and "RecvMessage \<in> hooked b"
    and "\<forall>c \<in> {a, b}. content (inBuf c) = [] \<and> content (outBuf c) = [] \<and> written c = []
      \<and> length (vec (inBuf c)) \<le> v \<and> length (vec (outBuf c)) \<le> v"
    and "2 * nat blockSize \<le> v" and "v + nat blockSize \<le> max_size"
    and "write_ok write" and "list_all ring_op_ok xs"
  shows "\<exists>c r. session_connected write (block_message blockSize) a = Ok c
    \<and> ring_run xs \<lparr>rg_client = c, rg_server = b, rg_up = 0, rg_down = 0, rg_session = new_session\<rparr> = Ok r
    \<and> around r = rotate (rg_down r) (block_message blockSize)
    \<and> readCount (rg_session r) = of_nat (rg_down r) \<and> writeCount (rg_session r) = of_nat (rg_down r)
    \<and> (\<forall>e \<in> {rg_client r, rg_server r}. length (vec (inBuf e)) \<le> v \<and> length (vec (outBuf e)) \<le> v)"
proof -
  let ?m = "block_message blockSize"
  have len: "length ?m = nat blockSize" by (simp add: block_message_def)
  have v: "2 * length ?m \<le> v" "v + length ?m \<le> max_size" using assms(6,7) by (simp_all add: len)
  have fits: "length (content (outBuf a)) + length ?m \<le> length ?m" "length (vec (outBuf a)) \<le> v" using assms(5) by simp_all
  obtain c wr where c: "sendInLoop write ?m a = Ok c" "conn_ok wr c" "stream c = stream a @ ?m" "same_conn a c"
    "length (vec (outBuf c)) \<le> v"
    by (rule send_end [OF assms(1,8) fits v])
  have "in_loop_thread a" using conn_okD(4) [OF assms(1)] by (simp add: in_loop_thread_def watches_def)
  then have sent: "session_connected write ?m a = Ok c" using c(1) by (simp add: session_connected_def send_conn_def)
  let ?r = "\<lparr>rg_client = c, rg_server = b, rg_up = 0, rg_down = 0, rg_session = new_session\<rparr>"
  have "end_ok v c" using c assms(3,5) by (auto simp: end_ok_def same_conn_def)
  moreover have "end_ok v b" using assms(2,4,5) by (auto simp: end_ok_def)
  moreover have "around ?r = ?m" using around_streams [of ?r] c(3) assms(5) by (simp add: stream_def)
  ultimately have "ring_ok v ?m ?r" by (simp add: ring_ok_def new_session_def)
  from ring_run_ok [OF this assms(9) v] obtain r where "ring_run xs ?r = Ok r" "ring_ok v ?m r" by blast
  then show ?thesis using sent by (auto simp: ring_ok_def end_ok_def)
qed

lemma pingpong_circulates_witness:
  "\<exists>a c r. session_connected (\<lambda>d. SysOk (min 3 (length d))) (block_message 5) a = Ok c
    \<and> ring_run [ServerReads 2 1 (\<lambda>d. SysOk (min 1 (length d))), ClientReads 9 2 (\<lambda>d. SysErr EWOULDBLOCK), ServerWrites (\<lambda>d. SysOk (length d))]
      \<lparr>rg_client = c, rg_server = a, rg_up = 0, rg_down = 0, rg_session = new_session\<rparr> = Ok r
    \<and> around r = rotate (rg_down r) [0, 1, 2, 3, 4]"
proof -
  let ?xs = "[ServerReads 2 1 (\<lambda>d. SysOk (min 1 (length d))), ClientReads 9 2 (\<lambda>d. SysErr EWOULDBLOCK), ServerWrites (\<lambda>d. SysOk (length d))]"
  obtain w where w: "watches 1 0 True False w"
    using attach_read_watches [OF demo_net_ok, of 1 "newIOFd 7 (Some 1)" 0]
    by (auto simp: demo_net_def idle_net_def newIOFd_def)
  let ?a = "demo_conn\<lparr>cnet := w, cstatus := kConnected, hooked := {RecvMessage}\<rparr>"
  have a: "conn_ok False ?a" "RecvMessage \<in> hooked ?a"
    "\<forall>c \<in> {?a, ?a}. content (inBuf c) = [] \<and> content (outBuf c) = [] \<and> written c = []
      \<and> length (vec (inBuf c)) \<le> 10 \<and> length (vec (outBuf c)) \<le> 10"
    using w by (simp_all add: conn_ok_def demo_conn_def buf_inv_def content_def max_size_def)
  have size: "2 * nat 5 \<le> 10" "10 + nat 5 \<le> max_size" by (simp_all add: max_size_def)
  have ok: "write_ok (\<lambda>d. SysOk (min 3 (length d)))" by (simp add: write_ok_def)
  have one: "write_ok (\<lambda>d. SysOk (min 1 (length d)))" "write_ok (\<lambda>d. SysErr EWOULDBLOCK)" "write_ok (\<lambda>d. SysOk (length d))"
    by (simp_all add: write_ok_def EWOULDBLOCK_def EPIPE_def ECONNRESET_def)
  then have "list_all ring_op_ok ?xs" by simp
  from pingpong_circulates [OF a(1,1,2,2,3) size ok this] obtain c r where
    "session_connected (\<lambda>d. SysOk (min 3 (length d))) (block_message 5) ?a = Ok c"
    "ring_run ?xs \<lparr>rg_client = c, rg_server = ?a, rg_up = 0, rg_down = 0, rg_session = new_session\<rparr> = Ok r"
    "around r = rotate (rg_down r) (block_message 5)" by blast
  moreover have "block_message 5 = [0, 1, 2, 3, 4]" by (simp add: block_message_def upt_rec)
  ultimately show ?thesis by metis
qed

section \<open>The master\<close>

text \<open>\<open>stop_functors\<close> counts the functors queued that stop the cluster and the loop.\<close>

record master =
  sessionCount :: int
  numConnected :: int
  master_sessions :: "session list"
  stop_functors :: nat

definition new_master :: "int \<Rightarrow> master" where
  "new_master n = \<lparr>sessionCount = n, numConnected = 0, master_sessions = replicate (nat n) new_session, stop_functors = 0\<rparr>"

definition onConnected :: "master \<Rightarrow> master" where
  "onConnected m = m\<lparr>numConnected := numConnected m + 1\<rparr>"

text \<open>The totals are only logged.\<close>

definition totalBytesRead :: "master \<Rightarrow> 64 word" where
  "totalBytesRead m = sum_list (map readCount (master_sessions m))"

definition onDisconnected :: "master \<Rightarrow> master" where
  "onDisconnected m =
     (let m1 = m\<lparr>numConnected := numConnected m - 1\<rparr>
      in if numConnected m1 = 0 then m1\<lparr>stop_functors := stop_functors m1 + 1\<rparr> else m1)"

primrec handleTimeout :: "client list \<Rightarrow> client list res" where
  "handleTimeout [] = Ok []"
| "handleTimeout (c # cs) = bindR (client_disconnect c) (\<lambda>c1. bindR (handleTimeout cs) (\<lambda>cs1. Ok (c1 # cs1)))"

lemma connected_all: "(onConnected ^^ n) m = m\<lparr>numConnected := numConnected m + int n\<rparr>"
  by (induction n) (simp_all add: onConnected_def algebra_simps)

text \<open>When all sessions connect before the first one closes, the last one to close stops the program, once.\<close>

lemma master_stops_once:
  assumes "0 < n" and "k \<le> n"
  shows "stop_functors ((onDisconnected ^^ k) ((onConnected ^^ n) (new_master (int n)))) = (if k = n then 1 else 0)
    \<and> numConnected ((onDisconnected ^^ k) ((onConnected ^^ n) (new_master (int n)))) = int n - int k"
  using assms(2)
proof (induction k)
  case 0
  then show ?case using assms(1) by (simp add: connected_all new_master_def)
next
  case (Suc k)
  then show ?case by (simp add: onDisconnected_def Let_def)
qed

lemma timeout_disconnects:
  assumes "list_all (\<lambda>c. connector_ok (conn_to c)) cs"
  shows "\<exists>cs'. handleTimeout cs = Ok cs' \<and> list_all (\<lambda>c. connection c = None \<and> deleteTcpClient c = Ok ()) cs'"
  using assms
proof (induction cs)
  case (Cons c cs)
  then have "connector_ok (conn_to c)" by simp
  moreover from this have "client_in_loop (c\<lparr>connecting_flag := False\<rparr>)" using connector_okD(2) by (simp add: client_in_loop_def)
  moreover obtain k where "connector_disconnect (conn_to c) = Ok k" using disconnect_ends_attempt [OF calculation(1)] by blast
  ultimately have "\<exists>c'. client_disconnect c = Ok c' \<and> connection c' = None \<and> deleteTcpClient c' = Ok ()"
    by (cases "connection c") (auto simp: client_disconnect_def client_disconnectInLoop_def deleteTcpClient_def Let_def)
  then show ?case using Cons by auto
qed simp

end
