(* ===== verification/Spec2Isabelle.thy ===== *)
theory Spec2Isabelle
  imports NetBuffer Handlers TimerSpec LoopTimers Poller EventLoop Threads TcpConnection
    Logger Logging LogFiles InetAddress UdpConnection Sockets SocketOptions TcpConnector Servers TcpLifetime UdpExchange Packets
    TcpStream Binder KcpExchange KcpMemory PingPong
begin

text \<open>
  Verification library of libsaf, the event-driven network library under \<open>src/src/\<close> (paths below are
  relative to it).

  The program. A thread owns an \<open>EventLoop\<close>: each round polls the epoll instance, calls the callbacks of
  the descriptors that are ready, runs the functors other threads have queued and fires the timers that
  are due. An \<open>IOFd\<close> is a descriptor under watch, a \<open>Socket\<close> one of them; acceptors and the connector own
  a socket and turn it into connections. A \<open>TcpConnection\<close> owns its socket and two \<open>Buffer\<close>s; a
  \<open>UdpConnection\<close> borrows the socket of its server. A server keeps its connections in a table and spreads
  them over the loops of an \<open>EventLoopCluster\<close>, one thread each. Handlers cut the bytes of a buffer
  into packages. Every thread logs lines through one \<open>AsyncLogger\<close> with its own writing thread.

  How the code is modelled. A class is a record, a method a function on it; objects that are reached by
  pointer from several places live in an explicit store indexed by their address (timers, descriptors,
  handler data, log buffers, peers), so aliasing, double deletion and use after free are visible. A call
  that may assert, throw, abort or read freed memory returns \<open>'a res\<close>: \<open>Ok\<close> its result or \<open>Fail\<close> with the
  kind of fault; an answer of the operating system is \<open>'a sys\<close> and a parameter of the definition that
  asks for it, like the clock, the texts of the C library and what client callbacks do. \<open>size_t\<close> is a
  natural number with its arithmetic modulo 2^64 written out, other integers are words of their width,
  except where their values are far from the limits: milliseconds and intervals (\<open>long\<close>) are integers,
  positions in the timer heap, results of \<open>write\<close> that succeeded and thread numbers are naturals.
  Threads are step relations or sequences of operations: a step is what a thread does while it holds
  the mutex, or one functor.

  Theories, with the files they model and what their lemmas show.

  \<^item> \<open>Prelude\<close>: the result type and its automation (\<open>res_simps\<close>), preservation lemmas (\<open>inv_intros\<close>),
    \<open>size_t\<close> arithmetic, \<open>std::vector\<close> resizing and copying.
  \<^item> \<open>NetBytes\<close> (\<open>net/NetUtils.h\<close>) and \<open>NetBuffer\<close> (\<open>net/Buffer.h\<close>, \<open>net/Buffer.cpp\<close>, \<open>net/NetString.h\<close>): byte order;
    every operation of the buffer, its invariant, no assertion fails up to the limit of the vector,
    and the contract of a byte queue.
  \<^item> \<open>Handlers\<close> (\<open>net/Handler.h\<close>, \<open>net/Pipeline.cpp\<close>, \<open>net/handler/UnpackHandler.cpp\<close>) and \<open>Packets\<close>: what one call
    delivers, the ownership of handler data, and the equivalence of the handler with a parser of the
    whole byte stream.
  \<^item> \<open>HeapArray\<close>, \<open>TimerQueue\<close> (\<open>net/fd/Timer.h\<close>, \<open>net/TimerQueue.cpp\<close>), \<open>TimerSpec\<close>: the array heap with its
    two sifting loops, the owning map, and the queue's contract: consistency of heap and map, earliest
    first, cancellation, the loop \<open>runTimers\<close>. \<open>LoopTimers\<close>: \<open>EventLoop::addTimer\<close> and \<open>cancelTimer\<close> from
    any thread.
  \<^item> \<open>Poller\<close> (\<open>net/fd/IOFd.cpp\<close>, \<open>net/poller/EPollPoller.cpp\<close>): descriptors, registrations, dispatch of events;
    the invariant that ties interest masks to registrations.
  \<^item> \<open>EventLoop\<close> (\<open>net/EventLoop.cpp\<close>): construction, functor queue, rounds and stopping, as a step
    relation. \<open>Threads\<close> (\<open>base/CountDownLatch.cpp\<close>, \<open>base/ThreadPool.cpp\<close>, \<open>net/EventLoopCluster.cpp\<close>).
  \<^item> \<open>TcpConnection\<close> (\<open>net/Connection.cpp\<close>, \<open>net/tcp/TcpConnection.cpp\<close>), \<open>UdpConnection\<close>
    (\<open>net/udp/UdpConnection.cpp\<close>): sending, receiving, closing; the output stream is kept intact.
    \<open>TcpStream\<close>: two connections and the socket between them.
  \<^item> \<open>Sockets\<close> (\<open>net/fd/Socket.cpp\<close>, \<open>net/tcp/TcpAcceptor.cpp\<close>, \<open>net/udp/UdpAcceptor.cpp\<close>), \<open>TcpConnector\<close>
    (\<open>net/tcp/TcpConnector.cpp\<close>, \<open>net/Client.cpp\<close>, \<open>net/tcp/TcpClient.cpp\<close>), \<open>Servers\<close> (\<open>net/Server.cpp\<close>,
    \<open>net/tcp/TcpServer.cpp\<close>, \<open>net/udp/UdpServer.cpp\<close>), \<open>InetAddress\<close> (\<open>net/InetAddress.cpp\<close>). \<open>SocketOptions\<close>:
    flags and options in the kernel. \<open>TcpLifetime\<close>: the connections of a TCP server from \<open>accept\<close> to their
    destructor, who owns them, what \<open>stop\<close> does to them. \<open>UdpExchange\<close>: a UDP server with its acceptor and its connections, from
    \<open>recvfrom\<close> to the message callback.
  \<^item> \<open>Logger\<close> (\<open>base/AsyncLogger.cpp\<close>, \<open>base/FileUtils.cpp\<close>) and \<open>Logging\<close> (\<open>base/Logging.cpp\<close>): lines reach the
    file in the order in which they were appended; how a line is built. \<open>LogFiles\<close>: the files of successive
    launches together are the log; a path that breaks it.
  \<^item> \<open>Binder\<close> (\<open>base/ObjectBinder.h\<close>). \<open>BufferMemory\<close>: how much memory a buffer takes.
  \<^item> \<open>KcpSegment\<close> and \<open>Kcp\<close> (\<open>third/ikcp.h\<close>, \<open>third/ikcp.cpp\<close>): the segments on the wire, sequence numbers that wrap
    around, and every call on a control block of the ARQ protocol KCP, its queues as lists. \<open>KcpInv\<close> and
    \<open>KcpSafe\<close> show that input and the other calls keep the invariant, \<open>KcpRuns\<close> that no sequence of calls faults.
    \<open>KcpReceive\<close>, \<open>KcpStream\<close> (receiver), \<open>KcpSender\<close> and \<open>KcpEnds\<close> (what either end sends) lead to \<open>KcpLink\<close>, two
    blocks and a network that loses, repeats and reorders: an invariant ties both ends to the list of
    fragments sent; \<open>KcpExchange\<close> has what follows for the messages. \<open>KcpLimits\<close>: two calls KCP accepts and
    cannot cope with. \<open>KcpHeap\<close> (the queue macros of \<open>third/ikcp.h\<close>), \<open>KcpPointers\<close> and \<open>KcpMemory\<close>: the queues as
    doubly linked rings in memory and all calls on them, which refine those on lists; no pointer leads to
    nowhere and no segment is lost.

  \<^item> \<open>PingPong\<close> (the callbacks and counters of \<open>example/pingpong/\<close>): a session with its server as a ring of two
    connections; the block it sends goes round unchanged.

  Interfaces. \<open>byte_queue\<close> (theory \<open>ByteQueue\<close>) is what connections use of a buffer, interpreted by \<open>NetBuffer\<close>;
  \<open>deadline_queue\<close> (\<open>DeadlineQueue\<close>) what the loop uses of its timer heap, interpreted in \<open>TimerSpec\<close>;
  \<open>byte_stream\<close> (\<open>StreamContract\<close>) what a client uses of a connection, interpreted by \<open>TcpConnection\<close>
  and \<open>TcpStream\<close>; \<open>incremental_parser\<close> (\<open>ParserContract\<close>) what a receiver relies on in a
  packet format, interpreted in \<open>Packets\<close>; \<open>server_hooks\<close> (\<open>Servers\<close>) what the servers need of the two
  pairs of methods that set and clear callbacks. This theory composes the last link: packages
  from one client to the other.

  Bounds and fuel. Loops of the code end by structure or by a proved measure, with one exception:
  \<open>runTimers\<close> reads the clock again in each round, so it has fuel, and \<open>budget\<close> in \<open>TimerSpec\<close> is a number of
  rounds that is enough when intervals are not negative (with a negative one it never returns, which is
  proved too). \<open>unpack_all\<close> is called with the length of the buffer, which exceeds the number of packages
  in it. Buffers are bounded by \<open>max_size\<close>, the largest \<open>std::vector<char>\<close>; timers are distinguished for
  2^32 requests, the range of their descriptors. The loops of KCP go over its queues or over the bytes
  of a datagram; on pointers they are partial functions, which are proved to end. Datagrams have less than 2^31 bytes, which \<open>ikcp_segment_new\<close> needs for its argument. A
  conversation is followed for 8421504 messages, which have fewer than 2^31 fragments: then no number
  comes back while an old datagram may still be on its way.

  Not modelled: the allocator hooks and log texts of \<open>third/ikcp.cpp\<close>; the \<open>main\<close> functions of the examples;
  \<open>ProtobufHandler\<close>, which is empty; \<open>wakeup\<close> and \<open>handleWakeupRead\<close>, which only do system calls; the
  contents of log messages inside the library; \<open>CurrentThread\<close>, \<open>Noncopyable\<close>, \<open>Macros\<close> and the type aliases. The
  unsynchronised reads and writes of plain fields by several threads are taken as atomic.
\<close>

section \<open>From one client to the other\<close>

lemma no_take_got:
  assumes "link_run xs l = Ok l'" and "list_all (\<lambda>x. \<forall>n. x \<noteq> Take n) xs"
  shows "got l' = got l"
  using assms
proof (induction xs arbitrary: l)
  case (Cons x xs)
  then obtain l1 where l1: "link_step x l = Ok l1" "link_run xs l1 = Ok l'" by (auto simp: link_run_def)
  have "got l1 = got l" using l1(1) Cons.prems(2) by (cases x) auto
  then show ?case using Cons.IH [OF l1(2)] Cons.prems(2) by simp
qed (simp add: link_run_def)

lemma unpack_received:
  assumes "buf_inv b"
  shows "\<exists>s'. unpack_all (readableBytes b) (empty_pstate\<lparr>pbuf := b\<rparr>) = Ok (packages (content b), s')"
proof -
  have "pstate_inv (empty_pstate\<lparr>pbuf := b\<rparr>)" using assms by (simp add: pstate_inv_def empty_pstate_def)
  from unpack_all_result [OF this, of "readableBytes b"] assms show ?thesis by (auto simp: readable_content)
qed

text \<open>
  C2. Packages travel from one client to the other: framed and given to \<open>send\<close> in any portions, written
  and delivered in any pieces, they come out of the receiver's buffer through \<open>UnpackHandler\<close> unchanged
  and in order; at every moment the complete ones that arrived are a prefix of those sent, and when
  nothing is under way any more they are all there.
\<close>

theorem packages_end_to_end:
  assumes "link_ok (length (link_sent xs)) l" and "list_all link_op_ok xs" and "carried l = []"
    and "list_all (\<lambda>x. \<forall>n. x \<noteq> Take n) xs"
    and "link_sent xs = concat (map (\<lambda>(pad, p). frame pad p) fs)" and "list_all framable fs"
  shows "\<exists>l' ps s'. link_run xs l = Ok l'
    \<and> unpack_all (readableBytes (inBuf (receiver l'))) (empty_pstate\<lparr>pbuf := inBuf (receiver l')\<rparr>) = Ok (ps, s')
    \<and> prefix ps (map snd fs)
    \<and> (in_flight l' = [] \<and> content (outBuf (sender l')) = [] \<longrightarrow> ps = map snd fs)"
proof -
  obtain l' where l': "link_run xs l = Ok l'" "link_ok 0 l'" "carried l' = link_sent xs"
    using tcp_link.run_ok [of xs 0 l] assms(1-3) by (auto simp: link_run_def link_sent_def)
  have "got l' = []" using no_take_got [OF l'(1) assms(4)] assms(3) by (simp add: carried_def)
  then have all: "content (inBuf (receiver l')) @ in_flight l' @ content (outBuf (sender l')) = link_sent xs"
    using l'(3) by (simp add: carried_def)
  have "buf_inv (inBuf (receiver l'))" using l'(2) by (auto simp: link_ok_def conn_ok_def)
  from unpack_received [OF this] obtain s' where
    u: "unpack_all (readableBytes (inBuf (receiver l'))) (empty_pstate\<lparr>pbuf := inBuf (receiver l')\<rparr>)
      = Ok (packages (content (inBuf (receiver l'))), s')" by blast
  have sent: "packages (link_sent xs) = map snd fs"
    using packages_frames(1) [OF assms(6), of "[]"] assms(5) by (simp add: packages_step complete_def)
  have "prefix (packages (content (inBuf (receiver l')))) (map snd fs)"
    using packet_format.items_prefix [of "content (inBuf (receiver l'))" "in_flight l' @ content (outBuf (sender l'))"]
    unfolding all sent prefix_def by blast
  moreover have "packages (content (inBuf (receiver l'))) = map snd fs"
    if "in_flight l' = [] \<and> content (outBuf (sender l')) = []"
    using all that sent by simp
  ultimately show ?thesis using l'(1) u by blast
qed

lemma packages_end_to_end_witness:
  "\<exists>l l' ps s'. link_run [Out (Send (frame (replicate 28 0) [1, 2]) (\<lambda>d. SysOk (min 30 (length d)))), Readable 9 7,
      Out (Writable (\<lambda>d. SysOk (length d))), Readable 100 8] l = Ok l'
    \<and> unpack_all (readableBytes (inBuf (receiver l'))) (empty_pstate\<lparr>pbuf := inBuf (receiver l')\<rparr>) = Ok (ps, s')
    \<and> prefix ps [[1, 2]]"
proof -
  let ?xs = "[Out (Send (frame (replicate 28 0) [1, 2]) (\<lambda>d. SysOk (min 30 (length d)))), Readable 9 7,
      Out (Writable (\<lambda>d. SysOk (length d))), Readable 100 8]"
  obtain c where c: "link_ok 34 \<lparr>sender = c, receiver = c, delivered = 0, got = []\<rparr>"
    "carried \<lparr>sender = c, receiver = c, delivered = 0, got = []\<rparr> = []"
    by (rule demo_link [of 34]) (simp add: max_size_def)
  have sent: "link_sent ?xs = concat (map (\<lambda>(pad, p). frame pad p) [(replicate 28 0, [1, 2])])" by (simp add: link_sent_def)
  have len: "length (link_sent ?xs) = 34" unfolding sent by (simp add: frame_def)
  have ok: "list_all link_op_ok ?xs" "list_all (\<lambda>x. \<forall>n. x \<noteq> Take n) ?xs" by (simp_all add: write_ok_def)
  have fs: "list_all framable [(replicate 28 0, [1, 2])]" by (simp add: framable_def)
  from packages_end_to_end [OF _ ok(1) c(2) ok(2) sent fs, unfolded len, OF c(1)] show ?thesis by fastforce
qed

end
